(* ===== verification/Prelude.thy ===== *)
theory Prelude
  imports Main "HOL-Library.AList" "HOL-Library.Word"
begin

text \<open>
  What the components share: results that may be an error, JavaScript's insertion-ordered
  maps, decimal text, and the interfaces (locales) that several components provide.

  \<^item> An operation that may throw is a value of \<open>'e + 'a\<close>: \<open>Inl\<close> the error thrown,
    \<open>Inr\<close> the value returned. \<open>bindE\<close> sequences two of them.
  \<^item> A JavaScript \<open>Map\<close> (and an object used as a dictionary) is an association list with
    distinct keys, in insertion order: \<open>AList.update\<close> overwrites in place or appends, as
    \<open>Map.set\<close> does, and \<open>AList.delete\<close> is \<open>Map.delete\<close>.
\<close>

section \<open>Results\<close>

definition bindE :: "'e + 'a \<Rightarrow> ('a \<Rightarrow> 'e + 'b) \<Rightarrow> 'e + 'b" where
  "bindE m f = (case m of Inl e \<Rightarrow> Inl e | Inr x \<Rightarrow> f x)"

lemma bindE_simps [simp]:
  "bindE (Inl e) f = Inl e"
  "bindE (Inr x) f = f x"
  by (simp_all add: bindE_def)

lemma bindE_eq_Inr: "bindE m f = Inr y \<longleftrightarrow> (\<exists>x. m = Inr x \<and> f x = Inr y)"
  by (cases m) simp_all

lemma bindE_eq_Inl:
  "bindE m f = Inl e \<longleftrightarrow> m = Inl e \<or> (\<exists>x. m = Inr x \<and> f x = Inl e)"
  by (cases m) simp_all

lemma bindE_cong [fundef_cong]:
  "m = m' \<Longrightarrow> (\<And>x. m' = Inr x \<Longrightarrow> f x = f' x) \<Longrightarrow> bindE m f = bindE m' f'"
  by (cases m') simp_all

fun mapE :: "('a \<Rightarrow> 'e + 'b) \<Rightarrow> 'a list \<Rightarrow> 'e + 'b list" where
  "mapE f [] = Inr []"
| "mapE f (x # xs) = bindE (f x) (\<lambda>y. bindE (mapE f xs) (\<lambda>ys. Inr (y # ys)))"

lemma mapE_length: "mapE f xs = Inr ys \<Longrightarrow> length ys = length xs"
  by (induction xs arbitrary: ys) (auto simp: bindE_eq_Inr)

section \<open>Insertion-ordered maps\<close>

type_synonym ('k, 'v) omap = "('k \<times> 'v) list"

abbreviation oget :: "('k, 'v) omap \<Rightarrow> 'k \<Rightarrow> 'v option" where
  "oget m k \<equiv> map_of m k"

abbreviation oset :: "'k \<Rightarrow> 'v \<Rightarrow> ('k, 'v) omap \<Rightarrow> ('k, 'v) omap" where
  "oset k v m \<equiv> AList.update k v m"

abbreviation odel :: "'k \<Rightarrow> ('k, 'v) omap \<Rightarrow> ('k, 'v) omap" where
  "odel k m \<equiv> AList.delete k m"

abbreviation okeys :: "('k, 'v) omap \<Rightarrow> 'k list" where
  "okeys m \<equiv> map fst m"

abbreviation owf :: "('k, 'v) omap \<Rightarrow> bool" where
  "owf m \<equiv> distinct (map fst m)"

lemma oget_oset [simp]: "oget (oset k v m) = (oget m)(k \<mapsto> v)"
  by (rule update_conv')

lemma oget_odel [simp]: "oget (odel k m) = (oget m)(k := None)"
  by (rule delete_conv')

lemma owf_oset [simp]: "owf m \<Longrightarrow> owf (oset k v m)"
  by (rule distinct_update)

lemma owf_odel [simp]: "owf m \<Longrightarrow> owf (odel k m)"
  by (rule distinct_delete)

lemma set_okeys_oset: "set (okeys (oset k v m)) = insert k (set (okeys m))"
  by (induction m) auto

lemma oset_snoc: "k \<notin> set (okeys m) \<Longrightarrow> oset k v m = m @ [(k, v)]"
  by (induction m) auto

lemma set_oset: "x \<in> set (oset k v m) \<Longrightarrow> x = (k, v) \<or> x \<in> set m"
  by (induction m) (auto split: if_splits)

lemma set_odel: "x \<in> set (odel k m) \<Longrightarrow> x \<in> set m"
  by (auto simp: AList.delete_eq)

lemma oset_same: "oget m k = Some v \<Longrightarrow> oset k v m = m"
  by (induction m) (auto split: if_splits)

lemma oset_oset: "oset k v (oset k u m) = oset k v m"
  by (induction m) auto

lemma odel_oset_new: "oget m k = None \<Longrightarrow> odel k (oset k v m) = m"
  by (induction m) (auto simp: AList.delete_eq split: if_splits)

section \<open>Bits of natural numbers\<close>

lemma push_bit_or_add:
  fixes a b :: nat
  assumes "b < 2 ^ n"
  shows "or (push_bit n a) b = a * 2 ^ n + b"
proof -
  have "take_bit n b = b" using assms by (simp add: take_bit_nat_eq_self)
  then have "\<not> bit b k" if "n \<le> k" for k
    using that by (metis bit_take_bit_iff not_le)
  then have "and (push_bit n a) b = 0"
    by (intro bit_eqI) (auto simp: bit_and_iff bit_push_bit_iff)
  then have "push_bit n a + b = or (push_bit n a) b"
    by (rule disjunctive_add_eq_or)
  then show ?thesis
    by (simp add: push_bit_eq_mult)
qed

lemma and_pow_minus_1: "and (a :: nat) (push_bit n 1 - 1) = a mod 2 ^ n"
  by (metis mask_eq_exp_minus_1 push_bit_of_1 take_bit_eq_mask take_bit_eq_mod)

lemma and_255: "and (a :: nat) 255 = a mod 256"
  using and_pow_minus_1 [of a 8] by simp

lemma unat_byte_less [simp]: "unat (b :: 8 word) < 256"
  using unsigned_less [of b] by simp

section \<open>Decimal text\<close>

definition digit_char :: "nat \<Rightarrow> char" where
  "digit_char d = char_of (48 + d)"

fun nat_str :: "nat \<Rightarrow> string" where
  "nat_str n = (if n < 10 then [digit_char n] else nat_str (n div 10) @ [digit_char (n mod 10)])"

declare nat_str.simps [simp del]

definition int_str :: "int \<Rightarrow> string" where
  "int_str i = (if i < 0 then CHR ''-'' # nat_str (nat (- i)) else nat_str (nat i))"

end
