(* ===== verification/Dv_Events.thy ===== *)
theory Dv_Events
  imports Prelude
begin

text \<open>
  Devonian's event emitter (\<^verbatim>\<open>src/devonian/src/events.ts\<close>), used by every client and table.

  A listener is a function value, compared by identity: an element of \<open>'f\<close>. The wrapper
  that \<open>once\<close> makes is another such value, so \<open>once\<close> is given the identity it allocates.
  What a listener does when it is called is the parameter \<open>run\<close>, which may change the
  emitter in any way and may throw.
\<close>

section \<open>State and registration\<close>

record 'f registered =
  listener :: 'f
  wrapper :: "'f option"

record 'f emitter =
  events :: "(string, 'f registered list) omap"
  maxListeners :: int

definition new_state :: "'f emitter" where
  "new_state = \<lparr>events = [], maxListeners = 10\<rparr>"

definition listeners_of :: "'f emitter \<Rightarrow> string \<Rightarrow> 'f registered list" where
  "listeners_of st ev = (case oget (events st) ev of None \<Rightarrow> [] | Some l \<Rightarrow> l)"

definition register :: "'f emitter \<Rightarrow> string \<Rightarrow> 'f registered \<Rightarrow> bool \<Rightarrow> 'f emitter" where
  "register st ev entry prepend =
     (let l = listeners_of st ev
      in st\<lparr>events := oset ev (if prepend then entry # l else l @ [entry]) (events st)\<rparr>)"

definition addListener :: "'f emitter \<Rightarrow> string \<Rightarrow> 'f \<Rightarrow> 'f emitter" where
  "addListener st ev l = register st ev \<lparr>listener = l, wrapper = None\<rparr> False"

definition prependListener :: "'f emitter \<Rightarrow> string \<Rightarrow> 'f \<Rightarrow> 'f emitter" where
  "prependListener st ev l = register st ev \<lparr>listener = l, wrapper = None\<rparr> True"

definition once :: "'f emitter \<Rightarrow> string \<Rightarrow> 'f \<Rightarrow> 'f \<Rightarrow> 'f emitter" where
  "once st ev l w = register st ev \<lparr>listener = l, wrapper = Some w\<rparr> False"

definition prependOnceListener :: "'f emitter \<Rightarrow> string \<Rightarrow> 'f \<Rightarrow> 'f \<Rightarrow> 'f emitter" where
  "prependOnceListener st ev l w = register st ev \<lparr>listener = l, wrapper = Some w\<rparr> True"

definition matches :: "'f \<Rightarrow> 'f registered \<Rightarrow> bool" where
  "matches l e = (listener e = l \<or> wrapper e = Some l)"

text \<open>The loop from the last entry down: the last one that matches is spliced out.\<close>

fun remove_first :: "('a \<Rightarrow> bool) \<Rightarrow> 'a list \<Rightarrow> 'a list" where
  "remove_first P [] = []"
| "remove_first P (x # xs) = (if P x then xs else x # remove_first P xs)"

definition remove_last :: "('a \<Rightarrow> bool) \<Rightarrow> 'a list \<Rightarrow> 'a list" where
  "remove_last P xs = rev (remove_first P (rev xs))"

definition removeListener :: "'f emitter \<Rightarrow> string \<Rightarrow> 'f \<Rightarrow> 'f emitter" where
  "removeListener st ev l =
     (case oget (events st) ev of
        None \<Rightarrow> st
      | Some es \<Rightarrow>
          let es' = remove_last (matches l) es
          in st\<lparr>events := (if es' = [] then odel ev (events st) else oset ev es' (events st))\<rparr>)"

definition removeAllListeners :: "'f emitter \<Rightarrow> string option \<Rightarrow> 'f emitter" where
  "removeAllListeners st ev =
     st\<lparr>events := (case ev of None \<Rightarrow> [] | Some e \<Rightarrow> odel e (events st))\<rparr>"

definition listenerCount :: "'f emitter \<Rightarrow> string \<Rightarrow> 'f option \<Rightarrow> nat" where
  "listenerCount st ev l =
     (case l of
        None \<Rightarrow> length (listeners_of st ev)
      | Some f \<Rightarrow> length (filter (matches f) (listeners_of st ev)))"

definition listeners :: "'f emitter \<Rightarrow> string \<Rightarrow> 'f list" where
  "listeners st ev = map listener (listeners_of st ev)"

definition rawListeners :: "'f emitter \<Rightarrow> string \<Rightarrow> 'f list" where
  "rawListeners st ev =
     map (\<lambda>e. case wrapper e of Some w \<Rightarrow> w | None \<Rightarrow> listener e) (listeners_of st ev)"

definition eventNames :: "'f emitter \<Rightarrow> string list" where
  "eventNames st = okeys (events st)"

definition setMaxListeners :: "'f emitter \<Rightarrow> int \<Rightarrow> 'f emitter" where
  "setMaxListeners st n = st\<lparr>maxListeners := n\<rparr>"

section \<open>Emitting\<close>

text \<open>
  Calling one entry: a wrapper first removes its listener, then calls it. \<open>run f st\<close> is the
  emitter after the call and the error it threw, if any.
\<close>

definition call_entry ::
  "('f \<Rightarrow> 'f emitter \<Rightarrow> 'f emitter \<times> 'x option) \<Rightarrow> string \<Rightarrow> 'f registered \<Rightarrow> 'f emitter
    \<Rightarrow> 'f emitter \<times> 'x option"
where
  "call_entry run ev e st =
     (case wrapper e of
        None \<Rightarrow> run (listener e) st
      | Some _ \<Rightarrow> run (listener e) (removeListener st ev (listener e)))"

fun call_all ::
  "('f \<Rightarrow> 'f emitter \<Rightarrow> 'f emitter \<times> 'x option) \<Rightarrow> string \<Rightarrow> 'f registered list \<Rightarrow> 'f emitter
    \<Rightarrow> 'f list \<times> 'f emitter \<times> 'x option"
where
  "call_all run ev [] st = ([], st, None)"
| "call_all run ev (e # es) st =
     (case call_entry run ev e st of
        (st, Some err) \<Rightarrow> ([listener e], st, Some err)
      | (st, None) \<Rightarrow>
          (case call_all run ev es st of (called, st, err) \<Rightarrow> (listener e # called, st, err)))"

datatype 'x emitted = Returned bool | Threw 'x

text \<open>
  \<open>err\<close> is what an \<open>'error'\<close> event without listeners throws: its argument, or an error
  around it. The result lists the listeners that were called, in order.
\<close>

definition emit ::
  "('f \<Rightarrow> 'f emitter \<Rightarrow> 'f emitter \<times> 'x option) \<Rightarrow> 'f emitter \<Rightarrow> string \<Rightarrow> 'x
    \<Rightarrow> 'f list \<times> 'f emitter \<times> 'x emitted"
where
  "emit run st ev err =
     (case listeners_of st ev of
        [] \<Rightarrow> ([], st, if ev = ''error'' then Threw err else Returned False)
      | es \<Rightarrow>
          (case call_all run ev es st of
             (called, st, None) \<Rightarrow> (called, st, Returned True)
           | (called, st, Some e) \<Rightarrow> (called, st, Threw e)))"

section \<open>What emitting does\<close>

text \<open>No event has an empty list of listeners.\<close>

definition emitter_ok :: "'f emitter \<Rightarrow> bool" where
  "emitter_ok st \<longleftrightarrow> owf (events st) \<and> (\<forall>(ev, es) \<in> set (events st). es \<noteq> [])"

lemma emitter_okD: "emitter_ok st \<Longrightarrow> oget (events st) ev = Some es \<Longrightarrow> es \<noteq> []"
  by (auto simp: emitter_ok_def)

lemma register_ok: "emitter_ok st \<Longrightarrow> emitter_ok (register st ev e b)"
  by (auto simp: emitter_ok_def register_def Let_def dest!: set_oset)

lemma removeListener_ok: "emitter_ok st \<Longrightarrow> emitter_ok (removeListener st ev l)"
  by (auto simp: emitter_ok_def removeListener_def Let_def dest!: set_oset set_odel split: option.split)

lemma removeAllListeners_ok: "emitter_ok st \<Longrightarrow> emitter_ok (removeAllListeners st ev)"
  by (auto simp: emitter_ok_def removeAllListeners_def dest!: set_odel split: option.split)

lemma call_all_called:
  "call_all run ev es st = (called, st', err) \<Longrightarrow>
    (\<exists>n. called = map listener (take n es)) \<and> (err = None \<longrightarrow> called = map listener es)"
proof (induction es arbitrary: called st)
  case (Cons e es)
  show ?case
  proof (cases "call_entry run ev e st")
    case (Pair st1 x)
    show ?thesis
    proof (cases x)
      case None
      with Pair Cons.prems obtain called' where c: "call_all run ev es st1 = (called', st', err)"
        "called = listener e # called'" by (auto split: prod.splits)
      from Cons.IH [OF c(1)] obtain n where n: "called' = map listener (take n es)"
        "err = None \<longrightarrow> called' = map listener es" by blast
      have "called = map listener (take (Suc n) (e # es))" using c(2) n(1) by simp
      moreover have "err = None \<longrightarrow> called = map listener (e # es)" using c(2) n(2) by simp
      ultimately show ?thesis by blast
    next
      case (Some y)
      with Pair Cons.prems have "called = map listener (take 1 (e # es)) \<and> err \<noteq> None" by auto
      then show ?thesis by blast
    qed
  qed
qed simp

lemma remove_last_snoc [simp]: "P x \<Longrightarrow> remove_last P (xs @ [x]) = xs"
  by (simp add: remove_last_def)

section \<open>Properties\<close>

text \<open>
  Emitting works on a snapshot. Whatever the listeners do to the emitter while they run,
  \<open>emit\<close> calls the listeners that were registered when it was called, in registration
  order: all of them when none throws, and a first part of them when one does. It returns
  whether there were any.
\<close>
lemma emit_snapshot:
  assumes "emit run st ev err = (called, st', res)"
  shows "(\<exists>n. called = map listener (take n (listeners_of st ev)))
    \<and> (\<forall>b. res = Returned b \<longrightarrow>
        called = map listener (listeners_of st ev) \<and> (b \<longleftrightarrow> listeners_of st ev \<noteq> []))"
proof (cases "listeners_of st ev")
  case Nil
  with assms show ?thesis by (auto simp: emit_def split: if_splits)
next
  case (Cons e es)
  obtain called' st1 x where c: "call_all run ev (e # es) st = (called', st1, x)"
    by (cases "call_all run ev (e # es) st") auto
  from call_all_called [OF c] assms Cons c show ?thesis
    by (auto simp: emit_def simp del: call_all.simps split: option.splits)
qed

text \<open>
  \<open>off\<close> undoes \<open>on\<close>: removing a listener just added gives the emitter back as it was,
  the order of events and of the other listeners included.
\<close>
lemma off_undoes_on:
  assumes "emitter_ok st"
  shows "removeListener (addListener st ev l) ev l = st"
proof (cases "oget (events st) ev")
  case None
  then show ?thesis
    by (simp add: addListener_def register_def listeners_of_def removeListener_def
        remove_last_def matches_def odel_oset_new Let_def)
next
  case (Some es)
  with assms have "es \<noteq> []" by (rule emitter_okD)
  with Some show ?thesis
    by (simp add: addListener_def register_def listeners_of_def removeListener_def matches_def
        oset_oset oset_same Let_def)
qed

text \<open>A listener that does nothing, and one registered with \<open>once\<close> and then with \<open>on\<close>.\<close>

definition idle :: "'f \<Rightarrow> 'f emitter \<Rightarrow> 'f emitter \<times> 'x option" where
  "idle f st = (st, None)"

definition once_then_on :: "'f \<Rightarrow> 'f \<Rightarrow> 'f emitter" where
  "once_then_on f w = addListener (once new_state ''e'' f w) ''e'' f"

text \<open>
  A \<open>once\<close> wrapper removes the last registration of its listener, which need not be its
  own. A listener registered with \<open>once\<close> and then with \<open>on\<close> is called twice by the first
  \<open>emit\<close>, once by the second and never again, although \<open>on\<close> registered it for good; with
  Node's emitter the registration of \<open>on\<close> would remain.
\<close>
lemma once_removes_other_registration:
  "\<exists>st1. emit idle (once_then_on f w) ''e'' err = ([f, f], st1, Returned True)
    \<and> emit idle st1 ''e'' err = ([f], new_state, Returned True)
    \<and> emit idle new_state ''e'' err = ([], new_state, Returned False)"
  by (simp add: once_then_on_def idle_def emit_def once_def addListener_def register_def listeners_of_def
      new_state_def call_entry_def removeListener_def remove_last_def matches_def)

end
