(* ===== verification/Js.thy ===== *)
theory Js
  imports Prelude "HOL-Library.Multiset" "HOL-Library.List_Lexorder" "HOL-Library.Char_ord"
begin

text \<open>
  The parts of JavaScript's standard library that several components use: JSON values,
  \<open>JSON.stringify\<close> of strings, \<open>Array.prototype.sort\<close>, comparison of strings and
  \<open>Date.parse\<close>.

  A string is a list of 8-bit characters, compared lexicographically as JavaScript compares
  code units. A JSON number is an \<open>int\<close>: no component here computes with fractions. A
  JSON object is an association list in insertion order. A number that may be NaN is an
  \<open>int option\<close>, \<open>None\<close> being NaN, of which every comparison is false.
\<close>

unbundle bit_operations_syntax

section \<open>JSON values\<close>

datatype json =
    JNull
  | JBool bool
  | JNum int
  | JStr string
  | JArr "json list"
  | JObj "(string \<times> json) list"

text \<open>\<open>map.get(k) ?? dflt\<close> for a default.\<close>

definition oget_or :: "'v \<Rightarrow> ('k, 'v) omap \<Rightarrow> 'k \<Rightarrow> 'v" where
  "oget_or dflt m k = (case oget m k of None \<Rightarrow> dflt | Some v \<Rightarrow> v)"

text \<open>A string (or \<open>undefined\<close>) used as a condition.\<close>

definition truthy :: "string option \<Rightarrow> bool" where
  "truthy s = (s \<noteq> None \<and> s \<noteq> Some [])"

lemma truthy_simps [simp]: "\<not> truthy None" "truthy (Some s) \<longleftrightarrow> s \<noteq> []"
  by (simp_all add: truthy_def)

fun join :: "string \<Rightarrow> string list \<Rightarrow> string" where
  "join sep [] = []"
| "join sep [s] = s"
| "join sep (s # ss) = s @ sep @ join sep ss"

definition hex_digit :: "nat \<Rightarrow> char" where
  "hex_digit n = ''0123456789abcdef'' ! n"

fun hex_str :: "nat \<Rightarrow> nat \<Rightarrow> string" where
  "hex_str 0 n = []"
| "hex_str (Suc k) n = hex_str k (n div 16) @ [hex_digit (n mod 16)]"

text \<open>\<open>JSON.stringify\<close> of a string.\<close>

definition json_escape :: "char \<Rightarrow> string" where
  "json_escape c =
     (let n = of_char c :: nat in
      if n = 34 then [char_of (92 :: nat), c]
      else if n = 92 then [c, c]
      else if n = 8 then [char_of (92 :: nat), CHR ''b'']
      else if n = 9 then [char_of (92 :: nat), CHR ''t'']
      else if n = 10 then [char_of (92 :: nat), CHR ''n'']
      else if n = 12 then [char_of (92 :: nat), CHR ''f'']
      else if n = 13 then [char_of (92 :: nat), CHR ''r'']
      else if n < 32 then char_of (92 :: nat) # ''u'' @ hex_str 4 n
      else [c])"

definition json_quote :: "string \<Rightarrow> string" where
  "json_quote s = char_of (34 :: nat) # concat (map json_escape s) @ [char_of (34 :: nat)]"

section \<open>Sorting\<close>

text \<open>
  \<open>xs.sort(cmp)\<close>: the stable sort that the comparator determines. A comparator returns an
  \<open>int\<close>, NaN counting as 0, as the language's \<open>SortCompare\<close> has it.
\<close>

fun insort_cmp :: "('a \<Rightarrow> 'a \<Rightarrow> int) \<Rightarrow> 'a \<Rightarrow> 'a list \<Rightarrow> 'a list" where
  "insort_cmp cmp x [] = [x]"
| "insort_cmp cmp x (y # ys) = (if cmp x y \<le> 0 then x # y # ys else y # insort_cmp cmp x ys)"

definition js_sort :: "('a \<Rightarrow> 'a \<Rightarrow> int) \<Rightarrow> 'a list \<Rightarrow> 'a list" where
  "js_sort cmp xs = foldr (insort_cmp cmp) xs []"

definition cmp_of :: "'b :: linorder \<Rightarrow> 'b \<Rightarrow> int" where
  "cmp_of a b = (if a < b then - 1 else if b < a then 1 else 0)"

text \<open>
  The contract of a comparator: a total preorder. Sorting by it gives a sorted permutation
  that does not depend on how elements that differ were arranged before.
\<close>

locale comparator =
  fixes cmp :: "'a \<Rightarrow> 'a \<Rightarrow> int" and ok :: "'a \<Rightarrow> bool"
  assumes total: "ok x \<Longrightarrow> ok y \<Longrightarrow> cmp x y \<le> 0 \<or> cmp y x \<le> 0"
    and trans: "ok x \<Longrightarrow> ok y \<Longrightarrow> ok z \<Longrightarrow> cmp x y \<le> 0 \<Longrightarrow> cmp y z \<le> 0 \<Longrightarrow> cmp x z \<le> 0"
begin

lemma insort_sorted:
  "ok x \<Longrightarrow> (\<forall>y \<in> set xs. ok y) \<Longrightarrow> sorted_wrt (\<lambda>u v. cmp u v \<le> 0) xs \<Longrightarrow> sorted_wrt (\<lambda>u v. cmp u v \<le> 0) (insort_cmp cmp x xs)"
proof (induction xs)
  case (Cons y ys)
  have set: "set (insort_cmp cmp x zs) = insert x (set zs)" for zs
    by (induction zs) auto
  from Cons total [of x y] show ?case
    by (auto simp: set intro: trans [of x y])
qed simp

lemma filter_insort:
  "ok x \<Longrightarrow> (\<forall>y \<in> set xs. ok y) \<Longrightarrow> sorted_wrt (\<lambda>u v. cmp u v \<le> 0) xs \<Longrightarrow>
    filter P (insort_cmp cmp x xs) = (if P x then insort_cmp cmp x (filter P xs) else filter P xs)"
proof (induction xs)
  case (Cons y ys)
  have front: "insort_cmp cmp x zs = x # zs" if "\<forall>z \<in> set zs. cmp x z \<le> 0" for zs
    using that by (cases zs) simp_all
  show ?case
  proof (cases "cmp x y \<le> 0")
    case True
    have "\<forall>z \<in> set ys. cmp x z \<le> 0"
      using Cons.prems True by (auto intro: trans [of x y])
    then show ?thesis using True front [of "filter P ys"] by auto
  next
    case False
    then show ?thesis using Cons by auto
  qed
qed simp

lemma sort_sorted: "(\<forall>x \<in> set xs. ok x) \<Longrightarrow> sorted_wrt (\<lambda>u v. cmp u v \<le> 0) (js_sort cmp xs)"
proof (induction xs)
  case (Cons x xs)
  have "set (js_sort cmp zs) = set zs" for zs
  proof (induction zs)
    case (Cons z zs)
    have "set (insort_cmp cmp z us) = insert z (set us)" for us by (induction us) auto
    with Cons show ?case by (simp add: js_sort_def)
  qed (simp add: js_sort_def)
  with Cons insort_sorted [of x "js_sort cmp xs"] show ?case by (simp add: js_sort_def)
qed (simp add: js_sort_def)

text \<open>The sort is stable: selecting before or after sorting is the same.\<close>

lemma filter_sort:
  "(\<forall>x \<in> set xs. ok x) \<Longrightarrow> filter P (js_sort cmp xs) = js_sort cmp (filter P xs)"
proof (induction xs)
  case (Cons x xs)
  have "set (js_sort cmp zs) = set zs" for zs
  proof (induction zs)
    case (Cons z zs)
    have "set (insort_cmp cmp z us) = insert z (set us)" for us by (induction us) auto
    with Cons show ?case by (simp add: js_sort_def)
  qed (simp add: js_sort_def)
  with Cons filter_insort [of x "js_sort cmp xs" P] sort_sorted [of xs] show ?case
    by (simp add: js_sort_def)
qed (simp add: js_sort_def)

end

lemma set_insort_cmp [simp]: "set (insort_cmp cmp x xs) = insert x (set xs)"
  by (induction xs) auto

lemma mset_insort_cmp [simp]: "mset (insort_cmp cmp x xs) = add_mset x (mset xs)"
  by (induction xs) auto

lemma js_sort_simps [simp]:
  "js_sort cmp [] = []"
  "js_sort cmp (x # xs) = insort_cmp cmp x (js_sort cmp xs)"
  by (simp_all add: js_sort_def)

lemma mset_js_sort [simp]: "mset (js_sort cmp xs) = mset xs"
  by (induction xs) simp_all

lemma set_js_sort [simp]: "set (js_sort cmp xs) = set xs"
  by (induction xs) simp_all

lemma length_js_sort [simp]: "length (js_sort cmp xs) = length xs"
  using mset_js_sort [of cmp xs] by (metis size_mset)

lemma sorted_wrt_either:
  "sorted_wrt P xs \<Longrightarrow> x \<in> set xs \<Longrightarrow> y \<in> set xs \<Longrightarrow> x \<noteq> y \<Longrightarrow> P x y \<or> P y x"
  by (induction xs) auto

text \<open>A list that is sorted already stays as it is.\<close>

lemma js_sort_id: "sorted_wrt (\<lambda>x y. cmp x y \<le> 0) xs \<Longrightarrow> js_sort cmp xs = xs"
proof (induction xs)
  case (Cons x xs)
  then show ?case by (cases xs) auto
qed simp

text \<open>Sorting a list whose first part is below the second sorts the parts.\<close>

lemma insort_append:
  "(\<forall>y \<in> set ys. cmp x y \<le> 0) \<Longrightarrow> insort_cmp cmp x (xs @ ys) = insort_cmp cmp x xs @ ys"
  by (induction xs) (cases ys; simp)+

lemma js_sort_append:
  "(\<forall>x \<in> set xs. \<forall>y \<in> set ys. cmp x y \<le> 0) \<Longrightarrow> js_sort cmp (xs @ ys) = js_sort cmp xs @ js_sort cmp ys"
  by (induction xs) (auto simp: insort_append)

text \<open>Two sorted permutations of one another whose ties are equal are the same list.\<close>

lemma sorted_perm_unique:
  assumes "mset xs = mset ys" "sorted_wrt P xs" "sorted_wrt P ys"
    and anti: "\<And>x y. x \<in> set xs \<Longrightarrow> y \<in> set xs \<Longrightarrow> P x y \<Longrightarrow> P y x \<Longrightarrow> x = y"
  shows "xs = ys"
  using assms
proof (induction xs arbitrary: ys)
  case (Cons x xs)
  then obtain y ys' where ys: "ys = y # ys'" by (cases ys) auto
  have sets: "set ys = set (x # xs)" using mset_eq_setD [OF Cons.prems(1)] by simp
  have "x = y"
  proof (rule ccontr)
    assume "x \<noteq> y"
    with sets ys have "y \<in> set xs" "x \<in> set ys'" by (auto simp: set_eq_iff)
    with Cons.prems(2,3) ys have "P x y" "P y x" by auto
    with Cons.prems(4) \<open>y \<in> set xs\<close> \<open>x \<noteq> y\<close> show False by simp
  qed
  with ys Cons.prems have "mset xs = mset ys'" by simp
  moreover have "sorted_wrt P xs" "sorted_wrt P ys'" using Cons.prems(2,3) ys by simp_all
  ultimately have "xs = ys'" using Cons.IH Cons.prems(4) by simp
  with ys \<open>x = y\<close> show ?case by simp
qed simp

section \<open>Instants\<close>

text \<open>
  \<open>Date.parse\<close> of the language's date-time string format: \<open>YYYY-MM-DD\<close>, optionally with
  \<open>THH:mm:ss\<close>, a fraction of a second, and \<open>Z\<close> or an offset. A date alone is UTC; a
  date-time without an offset is local time, which no component sends, and is read as NaN
  here like every other text. The result is in milliseconds since 1970.
\<close>

definition digit :: "char \<Rightarrow> int option" where
  "digit c = (let n = of_char c in if 48 \<le> n \<and> n \<le> 57 then Some (n - 48) else None)"

fun digits_value :: "int \<Rightarrow> string \<Rightarrow> int option" where
  "digits_value acc [] = Some acc"
| "digits_value acc (c # cs) =
     (case digit c of None \<Rightarrow> None | Some d \<Rightarrow> digits_value (acc * 10 + d) cs)"

text \<open>A fixed number of digits, and what follows them.\<close>

definition fixed_digits :: "nat \<Rightarrow> string \<Rightarrow> (int \<times> string) option" where
  "fixed_digits n s =
     (if length s < n then None
      else map_option (\<lambda>v. (v, drop n s)) (digits_value 0 (take n s)))"

definition expect :: "char \<Rightarrow> string \<Rightarrow> string option" where
  "expect c s = (case s of [] \<Rightarrow> None | x # xs \<Rightarrow> if x = c then Some xs else None)"

text \<open>Days since 1970-01-01 of a date of the proleptic Gregorian calendar.\<close>

definition days_from_civil :: "int \<Rightarrow> int \<Rightarrow> int \<Rightarrow> int" where
  "days_from_civil y m d =
     (let y = (if m \<le> 2 then y - 1 else y);
          yoe = y mod 400;
          doy = (153 * (if m > 2 then m - 3 else m + 9) + 2) div 5 + d - 1;
          doe = yoe * 365 + yoe div 4 - yoe div 100 + doy
      in y div 400 * 146097 + doe - 719468)"

definition parse_offset :: "string \<Rightarrow> int option" where
  "parse_offset s =
     (case s of
        [] \<Rightarrow> None
      | c # cs \<Rightarrow>
          if c = CHR ''Z'' then (if cs = [] then Some 0 else None)
          else if c = CHR ''+'' \<or> c = CHR ''-'' then
            Option.bind (fixed_digits 2 cs) (\<lambda>(h, cs).
            Option.bind (expect CHR '':'' cs) (\<lambda>cs.
            Option.bind (fixed_digits 2 cs) (\<lambda>(m, cs).
              if cs = [] \<and> h \<le> 23 \<and> m \<le> 59
              then Some ((if c = CHR ''+'' then 1 else - 1) * (h * 60 + m) * 60000)
              else None)))
          else None)"

text \<open>A fraction: the digits after the point, of which milliseconds are kept.\<close>

definition parse_fraction :: "string \<Rightarrow> (int \<times> string) option" where
  "parse_fraction s =
     (case s of
        [] \<Rightarrow> Some (0, s)
      | c # cs \<Rightarrow>
          if c = CHR ''.'' then
            (let ds = takeWhile (\<lambda>c. digit c \<noteq> None) cs;
                 rest = dropWhile (\<lambda>c. digit c \<noteq> None) cs
             in if ds = [] then None
                else map_option (\<lambda>v. (v, rest)) (digits_value 0 (take 3 (ds @ ''00''))))
          else Some (0, s))"

definition date_parse :: "string \<Rightarrow> int option" where
  "date_parse s =
     Option.bind (fixed_digits 4 s) (\<lambda>(y, s).
     Option.bind (expect CHR ''-'' s) (\<lambda>s.
     Option.bind (fixed_digits 2 s) (\<lambda>(mo, s).
     Option.bind (expect CHR ''-'' s) (\<lambda>s.
     Option.bind (fixed_digits 2 s) (\<lambda>(d, s).
       if mo < 1 \<or> 12 < mo \<or> d < 1 \<or> 31 < d then None
       else if s = [] then Some (days_from_civil y mo d * 86400000)
       else
         Option.bind (expect CHR ''T'' s) (\<lambda>s.
         Option.bind (fixed_digits 2 s) (\<lambda>(h, s).
         Option.bind (expect CHR '':'' s) (\<lambda>s.
         Option.bind (fixed_digits 2 s) (\<lambda>(mi, s).
         Option.bind (expect CHR '':'' s) (\<lambda>s.
         Option.bind (fixed_digits 2 s) (\<lambda>(sec, s).
         Option.bind (parse_fraction s) (\<lambda>(frac, s).
         Option.bind (parse_offset s) (\<lambda>off.
           if mi > 59 \<or> sec > 59 \<or> h > 24 \<or> (h = 24 \<and> (mi, sec, frac) \<noteq> (0, 0, 0)) then None
           else Some (days_from_civil y mo d * 86400000
                      + ((h * 60 + mi) * 60 + sec) * 1000 + frac - off))))))))))))))"

text \<open>Comparison of numbers that may be NaN.\<close>

definition num_less :: "int option \<Rightarrow> int option \<Rightarrow> bool" where
  "num_less a b = (case (a, b) of (Some x, Some y) \<Rightarrow> x < y | _ \<Rightarrow> False)"

lemma num_less_Some [simp]: "num_less (Some x) (Some y) \<longleftrightarrow> x < y"
  by (simp add: num_less_def)

lemma num_less_iff: "num_less a b \<longleftrightarrow> (\<exists>x y. a = Some x \<and> b = Some y \<and> x < y)"
  by (auto simp: num_less_def split: option.splits)

definition num_le :: "int option \<Rightarrow> int option \<Rightarrow> bool" where
  "num_le a b = (case (a, b) of (Some x, Some y) \<Rightarrow> x \<le> y | _ \<Rightarrow> False)"

lemma num_le_Some [simp]: "num_le (Some x) (Some y) \<longleftrightarrow> x \<le> y"
  by (simp add: num_le_def)

section \<open>Calendar dates\<close>

text \<open>The inverse of \<open>days_from_civil\<close>: year, month and day of a day number.\<close>

definition civil_from_days :: "int \<Rightarrow> int \<times> int \<times> int" where
  "civil_from_days n =
     (let z = n + 719468;
          doe = z mod 146097;
          yoe = (doe - doe div 1460 + doe div 36524 - doe div 146096) div 365;
          doy = doe - (365 * yoe + yoe div 4 - yoe div 100);
          mp = (5 * doy + 2) div 153;
          d = doy - (153 * mp + 2) div 5 + 1;
          m = (if mp < 10 then mp + 3 else mp - 9);
          y = yoe + z div 146097 * 400
      in (if m \<le> 2 then y + 1 else y, m, d))"

fun pad_zero :: "nat \<Rightarrow> string \<Rightarrow> string" where
  "pad_zero n s = (if length s < n then replicate (n - length s) (CHR ''0'') @ s else s)"

definition pad_int :: "nat \<Rightarrow> int \<Rightarrow> string" where
  "pad_int n i = pad_zero n (int_str i)"

definition date_text :: "int \<Rightarrow> string" where
  "date_text day =
     (let (y, m, d) = civil_from_days day
      in pad_int 4 y @ ''-'' @ pad_int 2 m @ ''-'' @ pad_int 2 d)"

text \<open>
  \<open>new Date(at).toISOString()\<close> without and with its milliseconds, for the years 0 to 9999.
\<close>

definition iso_seconds :: "int \<Rightarrow> string" where
  "iso_seconds at =
     (let s = at div 1000 mod 86400
      in date_text (at div 86400000) @ ''T'' @ pad_int 2 (s div 3600) @ '':''
         @ pad_int 2 (s div 60 mod 60) @ '':'' @ pad_int 2 (s mod 60))"

definition iso_string :: "int \<Rightarrow> string" where
  "iso_string at = iso_seconds at @ ''.'' @ pad_int 3 (at mod 1000) @ ''Z''"

text \<open>\<open>toISOString().replace(/\.\d{3}Z$/, 'Z')\<close>\<close>

definition iso_whole_seconds :: "int \<Rightarrow> string" where
  "iso_whole_seconds at = iso_seconds at @ ''Z''"

end
