(* ===== verification/Js_Text.thy ===== *)
theory Js_Text
  imports Js "HOL-Library.Code_Target_Nat"
begin

text \<open>
  JavaScript's string operations as the readers of the money application use them:
  \<open>split\<close>, \<open>trim\<close>, \<open>padStart\<close> and \<open>padEnd\<close>, \<open>startsWith\<close>, \<open>includes\<close>, decimal digits and
  \<open>BigInt\<close>, with the lemmas that relate digits to numbers.

  A string is a list of characters with a code up to 255, so \<open>trim\<close> and \<open>toLowerCase\<close> are
  those of Latin-1, and a byte order mark (which \<open>trim\<close> strips too) does not occur.
\<close>

section \<open>Strings\<close>

definition code :: "char \<Rightarrow> nat" where
  "code c = of_char c"

definition is_digit :: "char \<Rightarrow> bool" where
  "is_digit c \<longleftrightarrow> 48 \<le> code c \<and> code c \<le> 57"

definition is_upper_az :: "char \<Rightarrow> bool" where
  "is_upper_az c \<longleftrightarrow> 65 \<le> code c \<and> code c \<le> 90"

definition is_space :: "char \<Rightarrow> bool" where
  "is_space c \<longleftrightarrow> code c \<in> {9, 10, 11, 12, 13, 32, 160}"

definition newline :: char where
  "newline = char_of (10 :: nat)"

definition trim_start :: "string \<Rightarrow> string" where
  "trim_start s = dropWhile is_space s"

definition trim_end_of :: "(char \<Rightarrow> bool) \<Rightarrow> string \<Rightarrow> string" where
  "trim_end_of P s = rev (dropWhile P (rev s))"

definition trim :: "string \<Rightarrow> string" where
  "trim s = trim_end_of is_space (trim_start s)"

definition starts_with :: "string \<Rightarrow> string \<Rightarrow> bool" where
  "starts_with p s \<longleftrightarrow> take (length p) s = p"

fun str_includes :: "string \<Rightarrow> string \<Rightarrow> bool" where
  "str_includes [] q \<longleftrightarrow> q = []"
| "str_includes (c # s) q \<longleftrightarrow> starts_with q (c # s) \<or> str_includes s q"

text \<open>\<open>s.split(c)\<close> for a separator of one character: never the empty list.\<close>

fun split_on :: "char \<Rightarrow> string \<Rightarrow> string list" where
  "split_on c [] = [[]]"
| "split_on c (x # xs) =
     (if x = c then [] # split_on c xs
      else (case split_on c xs of [] \<Rightarrow> [[x]] | s # ss \<Rightarrow> (x # s) # ss))"

definition pad_end :: "nat \<Rightarrow> char \<Rightarrow> string \<Rightarrow> string" where
  "pad_end n c s = s @ replicate (n - length s) c"

definition lower_char :: "char \<Rightarrow> char" where
  "lower_char c =
     (if is_upper_az c \<or> (192 \<le> code c \<and> code c \<le> 222 \<and> code c \<noteq> 215)
      then char_of (code c + 32) else c)"

definition to_lower :: "string \<Rightarrow> string" where
  "to_lower s = map lower_char s"

lemma split_on_not_Nil [simp]: "split_on c s \<noteq> []"
  by (induction s) (auto split: list.split)

lemma split_on_none: "c \<notin> set s \<Longrightarrow> split_on c s = [s]"
  by (induction s) auto

lemma split_on_append:
  "c \<notin> set s \<Longrightarrow> split_on c (s @ c # t) = s # split_on c t"
  by (induction s) auto

lemma starts_with_simps [simp]:
  "starts_with [] s"
  "\<not> starts_with (c # p) []"
  "starts_with (c # p) (x # s) \<longleftrightarrow> x = c \<and> starts_with p s"
  by (simp_all add: starts_with_def)

lemma starts_with_iff: "starts_with p s \<longleftrightarrow> (\<exists>r. s = p @ r)"
  unfolding starts_with_def by (metis append_eq_conv_conj append_take_drop_id)

lemma starts_with_refl: "starts_with s s"
  by (simp add: starts_with_iff)

lemma starts_with_append: "starts_with p (p @ s)"
  by (simp add: starts_with_iff)

lemma starts_with_trans: "starts_with p s \<Longrightarrow> starts_with s t \<Longrightarrow> starts_with p t"
  by (auto simp: starts_with_iff)

lemma trim_end_append:
  "trim_end_of P (s @ t) = (if \<forall>c \<in> set t. P c then trim_end_of P s else s @ trim_end_of P t)"
  by (auto simp: trim_end_of_def dropWhile_append)

lemma trim_end_of_simps [simp]:
  "trim_end_of P [] = []"
  "trim_end_of P (s @ [c]) = (if P c then trim_end_of P s else s @ [c])"
  by (simp_all add: trim_end_of_def)

lemma trim_end_replicate: "\<exists>k. s = trim_end_of (\<lambda>x. x = c) s @ replicate k c"
proof (induction s rule: rev_induct)
  case (snoc x s)
  show ?case
  proof (cases "x = c")
    case True
    from snoc obtain k where "s = trim_end_of (\<lambda>x. x = c) s @ replicate k c" by blast
    then have "s @ [c] = trim_end_of (\<lambda>x. x = c) s @ replicate (Suc k) c"
      by (metis append_assoc replicate_append_same replicate_Suc)
    moreover have "trim_end_of (\<lambda>x. x = c) (s @ [x]) = trim_end_of (\<lambda>x. x = c) s"
      using True by simp
    ultimately show ?thesis using True by metis
  next
    case False
    then have "trim_end_of (\<lambda>x. x = c) (s @ [x]) = s @ [x]" by simp
    then show ?thesis by (metis append_Nil2 replicate_0)
  qed
qed simp

lemma pad_end_trim_end:
  assumes "length s = n" shows "pad_end n c (trim_end_of (\<lambda>x. x = c) s) = s"
proof -
  obtain k where k: "s = trim_end_of (\<lambda>x. x = c) s @ replicate k c"
    using trim_end_replicate by blast
  then have "length s = length (trim_end_of (\<lambda>x. x = c) s) + k"
    by (metis length_append length_replicate)
  with assms have "n - length (trim_end_of (\<lambda>x. x = c) s) = k" by simp
  with k show ?thesis by (simp only: pad_end_def)
qed

section \<open>Digits\<close>

definition digit_val :: "char \<Rightarrow> nat" where
  "digit_val c = code c - 48"

definition dec_val :: "string \<Rightarrow> nat" where
  "dec_val s = foldl (\<lambda>n c. n * 10 + digit_val c) 0 s"

abbreviation digits :: "string \<Rightarrow> bool" where
  "digits s \<equiv> list_all is_digit s"

lemma code_digit_char: "d < 10 \<Longrightarrow> code (digit_char d) = 48 + d"
  by (simp add: code_def digit_char_def)

lemma digit_char_props [simp]:
  "d < 10 \<Longrightarrow> is_digit (digit_char d)"
  "d < 10 \<Longrightarrow> digit_val (digit_char d) = d"
  by (simp_all add: is_digit_def digit_val_def code_digit_char)

lemma digit_char_val [simp]: "is_digit c \<Longrightarrow> digit_char (digit_val c) = c"
  by (simp add: is_digit_def digit_val_def digit_char_def code_def)

lemma digit_val_less [simp]: "is_digit c \<Longrightarrow> digit_val c < 10"
  by (auto simp: is_digit_def digit_val_def)

lemma dec_val_simps [simp]:
  "dec_val [] = 0"
  "dec_val (s @ [c]) = dec_val s * 10 + digit_val c"
  by (simp_all add: dec_val_def)

lemma dec_val_append: "dec_val (s @ t) = dec_val s * 10 ^ length t + dec_val t"
proof (induction t rule: rev_induct)
  case (snoc c t)
  have "dec_val (s @ t @ [c]) = dec_val ((s @ t) @ [c])" by simp
  also have "\<dots> = dec_val (s @ t) * 10 + digit_val c" by (rule dec_val_simps)
  finally show ?case using snoc by (simp add: algebra_simps)
qed simp

lemma dec_val_less: "digits s \<Longrightarrow> dec_val s < 10 ^ length s"
proof (induction s rule: rev_induct)
  case (snoc c s)
  then have "dec_val s + 1 \<le> 10 ^ length s" "digit_val c < 10" by auto
  then have "dec_val s * 10 + digit_val c < 10 * 10 ^ length s" by linarith
  then show ?case by simp
qed simp

lemma dec_val_cons: "dec_val (c # s) = digit_val c * 10 ^ length s + dec_val s"
  using dec_val_append [of "[c]" s] by (simp add: dec_val_def)

lemma digits_nat_str [simp]: "digits (nat_str n)"
  by (induction n rule: nat_str.induct) (subst nat_str.simps, simp)

lemma dec_val_nat_str [simp]: "dec_val (nat_str n) = n"
proof (induction n rule: nat_str.induct)
  case (1 n)
  show ?case
  proof (cases "n < 10")
    case True
    then show ?thesis by (subst nat_str.simps) (simp add: dec_val_cons)
  next
    case False
    with 1 have "dec_val (nat_str (n div 10)) = n div 10" by simp
    with False show ?thesis by (subst nat_str.simps) simp
  qed
qed

lemma nat_str_not_Nil [simp]: "nat_str n \<noteq> []"
  by (subst nat_str.simps) simp

lemma nat_str_snoc: "d < 10 \<Longrightarrow> 0 < n \<Longrightarrow> nat_str (n * 10 + d) = nat_str n @ [digit_char d]"
  by (subst nat_str.simps) simp

lemma nat_str_digit: "d < 10 \<Longrightarrow> nat_str d = [digit_char d]"
  by (subst nat_str.simps) simp

text \<open>\<open>replace(/^0+(?=\d)/, '')\<close>: the zeros that a digit follows.\<close>

fun strip_zeros :: "string \<Rightarrow> string" where
  "strip_zeros (c # d # s) =
     (if c = CHR ''0'' \<and> is_digit d then strip_zeros (d # s) else c # d # s)"
| "strip_zeros s = s"

lemma code_zero [simp]: "code (CHR ''0'') = 48" "is_digit (CHR ''0'')" "digit_val (CHR ''0'') = 0"
  by (simp_all add: code_def is_digit_def digit_val_def)

lemma digit_val_zero: "is_digit c \<Longrightarrow> digit_val c = 0 \<longleftrightarrow> c = CHR ''0''"
  by (metis code_zero(2,3) digit_char_val)

lemma strip_zeros_snoc:
  "digits s \<Longrightarrow> s \<noteq> [] \<Longrightarrow> is_digit c \<Longrightarrow>
    strip_zeros (s @ [c]) = (if dec_val s = 0 then [c] else strip_zeros s @ [c])"
proof (induction s rule: strip_zeros.induct)
  case (1 x d s)
  have "dec_val (x # d # s) = 0 \<longleftrightarrow> x = CHR ''0'' \<and> dec_val (d # s) = 0"
    using 1(2) digit_val_zero [of x] by (auto simp: dec_val_cons [of x])
  with 1 show ?case by auto
qed (auto simp: dec_val_cons digit_val_zero)

lemma strip_zeros_nat_str: "digits s \<Longrightarrow> s \<noteq> [] \<Longrightarrow> strip_zeros s = nat_str (dec_val s)"
proof (induction s rule: rev_induct)
  case (snoc c s)
  then have c: "is_digit c" "digits s" by simp_all
  show ?case
  proof (cases "s = []")
    case True
    with c show ?thesis by (simp add: nat_str_digit dec_val_cons)
  next
    case False
    with snoc c show ?thesis
      by (simp add: strip_zeros_snoc nat_str_snoc nat_str_digit)
  qed
qed simp

text \<open>The last \<open>k\<close> digits of a number.\<close>

fun last_digits :: "nat \<Rightarrow> nat \<Rightarrow> string" where
  "last_digits 0 n = []"
| "last_digits (Suc k) n = last_digits k (n div 10) @ [digit_char (n mod 10)]"

lemma length_last_digits [simp]: "length (last_digits k n) = k"
  by (induction k arbitrary: n) simp_all

lemma digits_last_digits [simp]: "digits (last_digits k n)"
  by (induction k arbitrary: n) simp_all

lemma dec_val_last_digits: "dec_val (last_digits k n) = n mod 10 ^ k"
  by (induction k arbitrary: n) (simp_all add: mod_mult2_eq)

lemma digit_char_0 [simp]: "digit_char 0 = CHR ''0''"
  using digit_char_val [of "CHR ''0''"] by (simp del: digit_char_val)

lemma last_digits_zero: "last_digits k 0 = replicate k (CHR ''0'')"
proof (induction k)
  case (Suc k)
  with Suc show ?case by (simp add: replicate_append_same)
qed simp

lemma last_digits_dec_val: "digits s \<Longrightarrow> length s = k \<Longrightarrow> last_digits k (dec_val s) = s"
proof (induction k arbitrary: s)
  case (Suc k)
  then obtain t c where s: "s = t @ [c]" by (cases s rule: rev_cases) auto
  with Suc show ?case by simp
qed simp

text \<open>Padding the text of a number to more than \<open>k\<close> characters separates its last \<open>k\<close> digits.\<close>

lemma pad_zero_nat_str:
  "pad_zero (Suc k) (nat_str n) = nat_str (n div 10 ^ k) @ last_digits k n"
proof (induction k arbitrary: n)
  case 0
  show ?case by (auto simp: Suc_le_eq)
next
  case (Suc k)
  show ?case
  proof (cases "n < 10")
    case True
    have "n div (10 * 10 ^ k) = 0" "n div 10 = 0" using True by (simp_all add: div_mult2_eq)
    then show ?thesis using True
      by (simp add: nat_str_digit last_digits_zero replicate_append_same flip: replicate_Suc)
  next
    case False
    then have "nat_str n = nat_str (n div 10) @ [digit_char (n mod 10)]" by (subst nat_str.simps) simp
    then have "pad_zero (Suc (Suc k)) (nat_str n)
        = pad_zero (Suc k) (nat_str (n div 10)) @ [digit_char (n mod 10)]"
      by simp
    also have "\<dots> = nat_str (n div 10 div 10 ^ k) @ last_digits (Suc k) n"
      using Suc [of "n div 10"] by simp
    finally show ?thesis by (simp add: div_mult2_eq)
  qed
qed

section \<open>\<open>BigInt\<close> of a string\<close>

definition hex_val :: "char \<Rightarrow> nat option" where
  "hex_val c =
     (if is_digit c then Some (digit_val c)
      else if 97 \<le> code c \<and> code c \<le> 102 then Some (code c - 87)
      else if 65 \<le> code c \<and> code c \<le> 70 then Some (code c - 55)
      else None)"

fun radix_val :: "nat \<Rightarrow> nat \<Rightarrow> string \<Rightarrow> nat option" where
  "radix_val b acc [] = Some acc"
| "radix_val b acc (c # s) =
     (case hex_val c of None \<Rightarrow> None
      | Some d \<Rightarrow> if d < b then radix_val b (acc * b + d) s else None)"

text \<open>
  \<open>BigInt(s)\<close>: spaces around are ignored, nothing is 0, a sign goes before decimal digits
  only, and \<open>0x\<close>, \<open>0o\<close> and \<open>0b\<close> announce another radix. \<open>None\<close> is the \<open>SyntaxError\<close>.
\<close>

definition big_int :: "string \<Rightarrow> int option" where
  "big_int s =
     (let t = trim s;
          radix = (\<lambda>b. if length t > 2 then map_option int (radix_val b 0 (drop 2 t)) else None)
      in if t = [] then Some 0
         else if digits t then Some (int (dec_val t))
         else if tl t \<noteq> [] \<and> digits (tl t) \<and> hd t = CHR ''-'' then Some (- int (dec_val (tl t)))
         else if tl t \<noteq> [] \<and> digits (tl t) \<and> hd t = CHR ''+'' then Some (int (dec_val (tl t)))
         else if starts_with ''0x'' t \<or> starts_with ''0X'' t then radix 16
         else if starts_with ''0o'' t \<or> starts_with ''0O'' t then radix 8
         else if starts_with ''0b'' t \<or> starts_with ''0B'' t then radix 2
         else None)"

text \<open>A key that is an array index, in its only spelling.\<close>

definition array_index :: "string \<Rightarrow> nat option" where
  "array_index k = (if k \<noteq> [] \<and> digits k \<and> nat_str (dec_val k) = k then Some (dec_val k) else None)"

lemma digit_not_space: "is_digit c \<Longrightarrow> \<not> is_space c"
  by (auto simp: is_digit_def is_space_def)

lemma trim_digits: "digits s \<Longrightarrow> trim s = s"
proof -
  assume s: "digits s"
  have "trim_start s = s"
    using s by (cases s) (auto simp: trim_start_def digit_not_space)
  moreover have "trim_end_of is_space s = s"
    using s by (cases s rule: rev_cases) (auto simp: digit_not_space)
  ultimately show ?thesis by (simp add: trim_def)
qed

lemma big_int_digits: "digits s \<Longrightarrow> big_int s = Some (int (dec_val s))"
  by (cases "s = []") (simp_all add: big_int_def trim_digits)

end
