(* ===== verification/Js_Json.thy ===== *)
theory Js_Json
  imports Js_Text
begin

text \<open>
  What \<open>JSON.parse\<close> accepts, as a machine with a stack that reads one character at a time:
  the stack holds the open arrays and objects, the mode what may come next. A number ends
  where a character does not continue it; that character is then read after the number.
\<close>

datatype json_mode =
    MValue | MFirstElem | MAfter | MFirstKey | MKey | MColon
  | MStr bool | MEsc bool | MHex bool nat
  | MLit string
  | MMinus | MZero | MInt | MDot | MFrac | MExp | MExpSign | MExpInt

datatype json_open = OArr | OObj

type_synonym json_state = "json_mode \<times> json_open list"

definition json_space :: "char \<Rightarrow> bool" where
  "json_space c \<longleftrightarrow> code c \<in> {9, 10, 13, 32}"

abbreviation quote_char :: char where
  "quote_char \<equiv> char_of (34 :: nat)"

abbreviation backslash :: char where
  "backslash \<equiv> char_of (92 :: nat)"

definition start_value :: "json_open list \<Rightarrow> char \<Rightarrow> json_state option" where
  "start_value st c =
     (if c = quote_char then Some (MStr False, st)
      else if c = CHR ''['' then Some (MFirstElem, OArr # st)
      else if c = CHR ''{'' then Some (MFirstKey, OObj # st)
      else if c = CHR ''-'' then Some (MMinus, st)
      else if c = CHR ''0'' then Some (MZero, st)
      else if is_digit c then Some (MInt, st)
      else if c = CHR ''t'' then Some (MLit ''rue'', st)
      else if c = CHR ''f'' then Some (MLit ''alse'', st)
      else if c = CHR ''n'' then Some (MLit ''ull'', st)
      else None)"

definition after_value :: "json_open list \<Rightarrow> char \<Rightarrow> json_state option" where
  "after_value st c =
     (if json_space c then Some (MAfter, st)
      else case st of
        [] \<Rightarrow> None
      | OArr # st' \<Rightarrow>
          if c = CHR '','' then Some (MValue, st)
          else if c = CHR '']'' then Some (MAfter, st') else None
      | OObj # st' \<Rightarrow>
          if c = CHR '','' then Some (MKey, st)
          else if c = CHR ''}'' then Some (MAfter, st') else None)"

fun json_step :: "json_state \<Rightarrow> char \<Rightarrow> json_state option" where
  "json_step (MValue, st) c = (if json_space c then Some (MValue, st) else start_value st c)"
| "json_step (MFirstElem, st) c =
     (if json_space c then Some (MFirstElem, st)
      else if c = CHR '']'' then Some (MAfter, tl st) else start_value st c)"
| "json_step (MAfter, st) c = after_value st c"
| "json_step (MFirstKey, st) c =
     (if json_space c then Some (MFirstKey, st)
      else if c = CHR ''}'' then Some (MAfter, tl st)
      else if c = quote_char then Some (MStr True, st) else None)"
| "json_step (MKey, st) c =
     (if json_space c then Some (MKey, st)
      else if c = quote_char then Some (MStr True, st) else None)"
| "json_step (MColon, st) c =
     (if json_space c then Some (MColon, st)
      else if c = CHR '':'' then Some (MValue, st) else None)"
| "json_step (MStr key, st) c =
     (if c = quote_char then Some (if key then MColon else MAfter, st)
      else if c = backslash then Some (MEsc key, st)
      else if code c < 32 then None else Some (MStr key, st))"
| "json_step (MEsc key, st) c =
     (if c = quote_char \<or> c = backslash \<or> c \<in> set ''/bfnrt'' then Some (MStr key, st)
      else if c = CHR ''u'' then Some (MHex key 3, st) else None)"
| "json_step (MHex key n, st) c =
     (if hex_val c = None then None
      else Some (if n = 0 then MStr key else MHex key (n - 1), st))"
| "json_step (MLit s, st) c =
     (case s of [] \<Rightarrow> None
      | x # xs \<Rightarrow> if c = x then Some (if xs = [] then MAfter else MLit xs, st) else None)"
| "json_step (MMinus, st) c =
     (if c = CHR ''0'' then Some (MZero, st) else if is_digit c then Some (MInt, st) else None)"
| "json_step (MZero, st) c =
     (if c = CHR ''.'' then Some (MDot, st)
      else if c \<in> set ''eE'' then Some (MExp, st) else after_value st c)"
| "json_step (MInt, st) c =
     (if is_digit c then Some (MInt, st)
      else if c = CHR ''.'' then Some (MDot, st)
      else if c \<in> set ''eE'' then Some (MExp, st) else after_value st c)"
| "json_step (MDot, st) c = (if is_digit c then Some (MFrac, st) else None)"
| "json_step (MFrac, st) c =
     (if is_digit c then Some (MFrac, st)
      else if c \<in> set ''eE'' then Some (MExp, st) else after_value st c)"
| "json_step (MExp, st) c =
     (if c \<in> set ''+-'' then Some (MExpSign, st) else if is_digit c then Some (MExpInt, st) else None)"
| "json_step (MExpSign, st) c = (if is_digit c then Some (MExpInt, st) else None)"
| "json_step (MExpInt, st) c = (if is_digit c then Some (MExpInt, st) else after_value st c)"

fun json_run :: "json_state \<Rightarrow> string \<Rightarrow> json_state option" where
  "json_run s [] = Some s"
| "json_run s (c # cs) = Option.bind (json_step s c) (\<lambda>s'. json_run s' cs)"

definition json_valid :: "string \<Rightarrow> bool" where
  "json_valid text =
     (case json_run (MValue, []) text of
        None \<Rightarrow> False
      | Some (mode, st) \<Rightarrow> st = [] \<and> mode \<in> {MAfter, MZero, MInt, MFrac, MExpInt})"

lemma json_run_append:
  "json_run s (xs @ ys) = Option.bind (json_run s xs) (\<lambda>s'. json_run s' ys)"
  by (induction xs arbitrary: s) (auto split: bind_split)

section \<open>\<open>JSON.stringify\<close>\<close>

text \<open>Of a value without objects: what identities and keys are made of.\<close>

fun json_text :: "json \<Rightarrow> string" where
  "json_text JNull = ''null''"
| "json_text (JBool b) = (if b then ''true'' else ''false'')"
| "json_text (JNum n) = int_str n"
| "json_text (JStr s) = json_quote s"
| "json_text (JArr xs) = ''['' @ join '','' (map json_text xs) @ '']''"
| "json_text (JObj kvs) =
     ''{'' @ join '','' (map (\<lambda>(k, v). json_quote k @ '':'' @ json_text v) kvs) @ ''}''"

text \<open>Reading a quoted string back: the character an escape stands for, and the rest.\<close>

definition unhex :: "string \<Rightarrow> nat" where
  "unhex s = foldl (\<lambda>n c. n * 16 + (case hex_val c of Some d \<Rightarrow> d | None \<Rightarrow> 0)) 0 s"

definition unescape :: "string \<Rightarrow> (char \<times> string)" where
  "unescape s =
     (if hd s = backslash then
        let c = hd (tl s); rest = tl (tl s) in
        if c = CHR ''b'' then (char_of (8 :: nat), rest)
        else if c = CHR ''t'' then (char_of (9 :: nat), rest)
        else if c = CHR ''n'' then (char_of (10 :: nat), rest)
        else if c = CHR ''f'' then (char_of (12 :: nat), rest)
        else if c = CHR ''r'' then (char_of (13 :: nat), rest)
        else if c = CHR ''u'' then (char_of (unhex (take 4 rest)), drop 4 rest)
        else (c, rest)
      else (hd s, tl s))"

text \<open>Checked for each of the 256 characters.\<close>

definition escape_ok :: "char \<Rightarrow> bool" where
  "escape_ok c \<longleftrightarrow>
     (let e = json_escape c in
      e \<noteq> [] \<and> hd e \<noteq> quote_char \<and> unescape e = (c, [])
      \<and> (if hd e = backslash then
           (case tl e of [] \<Rightarrow> False | x # xs \<Rightarrow> if x = CHR ''u'' then length xs = 4 else True)
         else True))"

lemma escape_ok: "escape_ok c"
proof -
  have "list_all escape_ok (Enum.enum :: char list)" by code_simp
  then show ?thesis by (simp add: list_all_iff enum_UNIV)
qed

lemma unescape_escape: "unescape (json_escape c @ s) = (c, s)"
proof -
  obtain x xs where e: "json_escape c = x # xs"
    using escape_ok [of c] by (cases "json_escape c") (auto simp: escape_ok_def Let_def)
  show ?thesis
    using escape_ok [of c] unfolding e escape_ok_def Let_def
    by (cases xs) (auto simp: e unescape_def Let_def split: if_splits)
qed

lemma escape_not_quote: "json_escape c \<noteq> [] \<and> hd (json_escape c) \<noteq> quote_char"
  using escape_ok [of c] by (simp add: escape_ok_def Let_def)

lemma quoted_prefix:
  "concat (map json_escape s) @ quote_char # r = concat (map json_escape t) @ quote_char # q \<Longrightarrow> s = t \<and> r = q"
proof (induction s arbitrary: t)
  case Nil
  show ?case
  proof (cases t)
    case (Cons d t')
    with Nil have "hd (json_escape d @ concat (map json_escape t') @ quote_char # q) = quote_char"
      by (metis append_Nil append.assoc concat.simps(2) list.map(1,2) concat.simps(1) list.sel(1))
    with escape_not_quote [of d] show ?thesis by simp
  qed (use Nil in simp)
next
  case (Cons c s)
  show ?case
  proof (cases t)
    case Nil
    with Cons.prems have "hd (json_escape c @ concat (map json_escape s) @ quote_char # r) = quote_char"
      by simp
    with escape_not_quote [of c] show ?thesis by simp
  next
    case t: (Cons d t')
    let ?x = "concat (map json_escape s) @ quote_char # r"
    let ?y = "concat (map json_escape t') @ quote_char # q"
    from Cons.prems t have "json_escape c @ ?x = json_escape d @ ?y" by simp
    then have "unescape (json_escape c @ ?x) = unescape (json_escape d @ ?y)" by simp
    then have "c = d" "?x = ?y" by (simp_all add: unescape_escape)
    with Cons.IH [of t'] t show ?thesis by simp
  qed
qed

lemma json_quote_prefix: "json_quote s @ r = json_quote t @ q \<Longrightarrow> s = t \<and> r = q"
  using quoted_prefix [of s r t q] by (simp add: json_quote_def)

text \<open>Texts of values are told apart, also when a separator follows them.\<close>

definition ends_value :: "string \<Rightarrow> bool" where
  "ends_value s \<longleftrightarrow> s = [] \<or> hd s \<in> {CHR '','', CHR '']''}"

fun plain_json :: "json \<Rightarrow> bool" where
  "plain_json (JArr xs) = list_all plain_json xs"
| "plain_json (JObj _) = False"
| "plain_json _ = True"

lemma digits_prefix:
  assumes "digits u" "digits v" "ends_value r" "ends_value q" "u @ r = v @ q"
  shows "u = v \<and> r = q"
proof -
  have "takeWhile is_digit (u @ r) = u" if "digits u" "ends_value r" for u r
  proof -
    have "\<not> is_digit (CHR '','')" "\<not> is_digit (CHR '']'')" by (simp_all add: is_digit_def code_def)
    with that show ?thesis by (cases r) (auto simp: ends_value_def takeWhile_append list_all_iff)
  qed
  from this [OF assms(1,3)] this [OF assms(2,4)] assms(5) show ?thesis by simp
qed

lemma int_str_prefix:
  assumes "ends_value r" "ends_value q" "int_str n @ r = int_str m @ q"
  shows "n = m \<and> r = q"
proof -
  have nm: "hd (nat_str k @ s) \<noteq> CHR ''-''" for k s
    using digits_nat_str [of k] nat_str_not_Nil [of k]
    by (cases "nat_str k") (auto simp: is_digit_def code_def)
  have "nat_str k @ r = nat_str l @ q \<Longrightarrow> k = l \<and> r = q" for k l
    using digits_prefix [OF digits_nat_str digits_nat_str assms(1,2), of k l] dec_val_nat_str by metis
  note eq = this
  show ?thesis
  proof (cases "n < 0"; cases "m < 0")
    assume "n < 0" "m < 0"
    with assms(3) eq [of "nat (- n)" "nat (- m)"] show ?thesis by (simp add: int_str_def eq_nat_nat_iff)
  next
    assume "n < 0" "\<not> m < 0"
    with assms(3) nm [of "nat m" q] show ?thesis by (metis append_Cons int_str_def list.sel(1))
  next
    assume "\<not> n < 0" "m < 0"
    with assms(3) nm [of "nat n" r] show ?thesis by (metis append_Cons int_str_def list.sel(1))
  next
    assume "\<not> n < 0" "\<not> m < 0"
    with assms(3) eq [of "nat n" "nat m"] show ?thesis by (simp add: int_str_def eq_nat_nat_iff)
  qed
qed

fun json_kind :: "json \<Rightarrow> nat" where
  "json_kind JNull = 0" | "json_kind (JBool b) = (if b then 1 else 2)" | "json_kind (JNum _) = 3"
| "json_kind (JStr _) = 4" | "json_kind (JArr _) = 5" | "json_kind (JObj _) = 6"

definition kind_of_char :: "char \<Rightarrow> nat" where
  "kind_of_char c =
     (if c = CHR ''n'' then 0 else if c = CHR ''t'' then 1 else if c = CHR ''f'' then 2
      else if c = CHR ''-'' \<or> is_digit c then 3 else if c = quote_char then 4
      else if c = CHR ''['' then 5 else if c = CHR ''{'' then 6 else 7)"

lemma kind_of_digits: "digits s \<Longrightarrow> s \<noteq> [] \<Longrightarrow> kind_of_char (hd (s @ r)) = 3"
  by (cases s) (auto simp: kind_of_char_def is_digit_def code_def)

lemma json_kind_text: "kind_of_char (hd (json_text x @ r)) = json_kind x"
proof (cases x)
  case (JNum n)
  then show ?thesis
    using kind_of_digits [OF digits_nat_str nat_str_not_Nil, of "nat n" r]
    by (simp add: int_str_def) (simp add: kind_of_char_def)
qed (simp_all add: kind_of_char_def json_quote_def is_digit_def code_def char_of_def)

lemma json_same_kind: "json_text a @ r = json_text b @ q \<Longrightarrow> json_kind a = json_kind b"
  by (metis json_kind_text)

lemma json_text_not_Nil [simp]: "json_text x \<noteq> []"
proof
  assume "json_text x = []"
  moreover have "json_kind x \<noteq> 7" by (cases x) auto
  ultimately show False
    using json_kind_text [of x "''!''"] by (simp add: kind_of_char_def is_digit_def code_def char_of_def)
qed

text \<open>What follows an element of an array.\<close>

definition array_rest :: "json list \<Rightarrow> string \<Rightarrow> string" where
  "array_rest xs r =
     (if xs = [] then CHR '']'' # r else CHR '','' # join '','' (map json_text xs) @ CHR '']'' # r)"

lemma join_Cons: "join sep (s # ss) = s @ (if ss = [] then [] else sep @ join sep ss)"
  by (cases ss) simp_all

lemma array_rest_Cons:
  "array_rest (x # xs) r = CHR '','' # json_text x @ array_rest xs r"
  by (simp add: array_rest_def join_Cons)

lemma array_rest_ends [simp]: "ends_value (array_rest xs r)"
  by (simp add: array_rest_def ends_value_def)

lemma array_rest_inj:
  assumes "\<And>x b r q. x \<in> set xs \<Longrightarrow> plain_json b \<Longrightarrow> ends_value r \<Longrightarrow> ends_value q \<Longrightarrow>
      json_text x @ r = json_text b @ q \<Longrightarrow> x = b \<and> r = q"
    and "list_all plain_json ys" "array_rest xs r = array_rest ys q"
  shows "xs = ys \<and> r = q"
  using assms
proof (induction xs arbitrary: ys)
  case Nil
  then show ?case by (cases ys) (auto simp: array_rest_def)
next
  case (Cons x xs)
  show ?case
  proof (cases ys)
    case Nil
    with Cons.prems(3) show ?thesis by (auto simp: array_rest_def)
  next
    case ys: (Cons y ys')
    with Cons.prems have eq: "json_text x @ array_rest xs r = json_text y @ array_rest ys' q"
      and y: "plain_json y" "list_all plain_json ys'"
      by (simp_all add: array_rest_Cons)
    from Cons.prems(1) [of x, OF _ y(1) array_rest_ends array_rest_ends eq]
    have "x = y" "array_rest xs r = array_rest ys' q" by simp_all
    with Cons.IH [OF _ y(2)] Cons.prems(1) ys show ?thesis by (metis list.set_intros(2))
  qed
qed

lemma json_text_prefix:
  "plain_json a \<Longrightarrow> plain_json b \<Longrightarrow> ends_value r \<Longrightarrow> ends_value q \<Longrightarrow>
    json_text a @ r = json_text b @ q \<Longrightarrow> a = b \<and> r = q"
proof (induction a arbitrary: b r q)
  case (JArr xs)
  have "json_kind b = 5" using json_same_kind [OF JArr.prems(5)] by simp
  then obtain ys where b: "b = JArr ys" by (cases b) (auto split: if_splits)
  have arr: "json_text (JArr zs) @ s = CHR ''['' # tl (array_rest zs s)" if "zs \<noteq> []" for zs s
    using that by (simp add: array_rest_def)
  have start: "hd (tl (array_rest (z # zs) s)) \<noteq> CHR '']''" for z zs s
    using json_kind_text [of z "array_rest zs s"]
    by (auto simp: array_rest_Cons kind_of_char_def is_digit_def code_def char_of_def) (cases z; auto split: if_splits)
  have elem: "x = c \<and> s = t" if "x \<in> set xs" "plain_json c" "ends_value s" "ends_value t"
    "json_text x @ s = json_text c @ t" for x c s t
    using JArr.IH [OF that(1) _ that(2-5)] JArr.prems(1) that(1) by (simp add: list_all_iff)
  show ?case
  proof (cases "xs = [] \<or> ys = []")
    case True
    then show ?thesis
    proof
      assume xs: "xs = []"
      with JArr.prems(5) b have "CHR '']'' # r = tl (json_text (JArr ys) @ q)" by simp
      then have "ys = []" using start arr by (cases ys) (metis list.sel(1,3) list.discI)+
      with xs b JArr.prems(5) show ?thesis by simp
    next
      assume ys: "ys = []"
      with JArr.prems(5) b have "CHR '']'' # q = tl (json_text (JArr xs) @ r)" by simp
      then have "xs = []" using start arr by (cases xs) (metis list.sel(1,3) list.discI)+
      with ys b JArr.prems(5) show ?thesis by simp
    qed
  next
    case False
    then have "tl (array_rest xs r) = tl (array_rest ys q)"
      using JArr.prems(5) b arr [of xs r] arr [of ys q] by simp
    with False have rest: "array_rest xs r = array_rest ys q" by (simp add: array_rest_def)
    have "list_all plain_json ys" using JArr.prems(2) b by simp
    have "xs = ys \<and> r = q" by (rule array_rest_inj [OF elem _ rest]) (assumption | fact)+
    with b show ?thesis by simp
  qed
next
  case (JNum n)
  have "json_kind b = 3" using json_same_kind [OF JNum.prems(5)] by simp
  then obtain m where "b = JNum m" by (cases b) (auto split: if_splits)
  with JNum.prems(5) int_str_prefix [OF JNum.prems(3,4), of n m] show ?case by simp
next
  case (JStr s)
  have "json_kind b = 4" using json_same_kind [OF JStr.prems(5)] by simp
  then obtain t where "b = JStr t" by (cases b) (auto split: if_splits)
  with JStr.prems(5) json_quote_prefix [of s r t q] show ?case by simp
next
  case JNull
  have "json_kind b = 0" using json_same_kind [OF JNull.prems(5)] by simp
  then have "b = JNull" by (cases b) (auto split: if_splits)
  with JNull.prems show ?case by simp
next
  case (JBool c)
  have "json_kind b = json_kind (JBool c)"
    using json_same_kind [OF JBool.prems(5)] by simp
  then have "b = JBool c" by (cases b) (auto split: if_splits)
  with JBool.prems show ?case by simp
qed simp

lemma json_text_inj: "plain_json a \<Longrightarrow> plain_json b \<Longrightarrow> json_text a = json_text b \<longleftrightarrow> a = b"
  using json_text_prefix [of a b "[]" "[]"] by (auto simp: ends_value_def)

end
