(* ===== verification/Js_Parse.thy ===== *)
theory Js_Parse
  imports Js_Json
begin

text \<open>
  \<open>JSON.parse\<close> as a reader of values: \<open>json_parse text\<close> is the value of the text, \<open>None\<close>
  where the language throws a \<open>SyntaxError\<close>. A key that occurs twice in an object keeps its
  place and takes the later value, as assigning the property twice does. A JSON number of
  this library is an \<open>int\<close> and a character has 8 bits: a text with a fraction, an exponent or
  an escape above \<open>\u00ff\<close> is outside the model, and reads as \<open>None\<close> too. The order of
  an object's keys is the order of the text (JavaScript moves keys that are array indices to
  the front; no component here has such keys).

  The reader recurses with fuel. Each value consumes a character for every two levels of the
  recursion, so twice the length of the text is enough; \<open>json_parse_text\<close> shows that it
  reads back whatever \<open>JSON.stringify\<close> writes.
\<close>

section \<open>The reader\<close>

definition plain_escapes :: "string" where
  "plain_escapes = [CHR ''b'', CHR ''t'', CHR ''n'', CHR ''f'', CHR ''r'', CHR ''/'', quote_char, backslash]"

definition read_escape :: "string \<Rightarrow> (char \<times> string) option" where
  "read_escape s =
     (case s of
        [] \<Rightarrow> None
      | c # r \<Rightarrow>
          if c = CHR ''u'' then
            (if length (take 4 r) = 4 \<and> list_all (\<lambda>d. hex_val d \<noteq> None) (take 4 r) \<and> unhex (take 4 r) < 256
             then Some (char_of (unhex (take 4 r)), drop 4 r) else None)
          else if c \<in> set plain_escapes
          then Some (unescape (backslash # s)) else None)"

lemma read_escape_shorter: "read_escape s = Some (c, r) \<Longrightarrow> length r < length s"
  by (auto simp: read_escape_def unescape_def Let_def split: list.splits if_splits)

function read_chars :: "string \<Rightarrow> (string \<times> string) option" where
  "read_chars [] = None"
| "read_chars (c # s) =
     (if c = quote_char then Some ([], s)
      else if c = backslash then
        (case read_escape s of None \<Rightarrow> None
         | Some (d, r) \<Rightarrow> map_option (\<lambda>(t, q). (d # t, q)) (read_chars r))
      else if code c < 32 then None
      else map_option (\<lambda>(t, q). (c # t, q)) (read_chars s))"
  by pat_completeness auto
termination
  by (relation "measure length") (auto dest: read_escape_shorter)

definition skip_space :: "string \<Rightarrow> string" where
  "skip_space s = dropWhile json_space s"

definition leading_digits :: "string \<Rightarrow> string" where
  "leading_digits s = takeWhile is_digit s"

definition read_number :: "string \<Rightarrow> (int \<times> string) option" where
  "read_number s =
     (let neg = (s \<noteq> [] \<and> hd s = CHR ''-''); t = (if neg then tl s else s);
          ds = leading_digits t; r = drop (length ds) t in
      if ds = [] \<or> (hd ds = CHR ''0'' \<and> length ds > 1) \<or> (r \<noteq> [] \<and> hd r \<in> {CHR ''.'', CHR ''e'', CHR ''E''})
      then None
      else Some (if neg then - int (dec_val ds) else int (dec_val ds), r))"

definition read_literal :: "string \<Rightarrow> json \<Rightarrow> string \<Rightarrow> (json \<times> string) option" where
  "read_literal w v s = (if starts_with w s then Some (v, drop (length w) s) else None)"

fun read_value :: "nat \<Rightarrow> string \<Rightarrow> (json \<times> string) option"
  and read_elements :: "nat \<Rightarrow> string \<Rightarrow> (json list \<times> string) option"
  and read_members :: "nat \<Rightarrow> (string, json) omap \<Rightarrow> string \<Rightarrow> ((string, json) omap \<times> string) option"
where
  "read_value 0 s = None"
| "read_value (Suc n) s =
     (case skip_space s of
        [] \<Rightarrow> None
      | c # t \<Rightarrow>
          if c = quote_char then map_option (\<lambda>(x, r). (JStr x, r)) (read_chars t)
          else if c = CHR ''['' then
            (case skip_space t of
               [] \<Rightarrow> None
             | d # r \<Rightarrow> if d = CHR '']'' then Some (JArr [], r)
                        else map_option (\<lambda>(xs, r). (JArr xs, r)) (read_elements n (d # r)))
          else if c = CHR ''{'' then
            (case skip_space t of
               [] \<Rightarrow> None
             | d # r \<Rightarrow> if d = CHR ''}'' then Some (JObj [], r)
                        else map_option (\<lambda>(m, r). (JObj m, r)) (read_members n [] (d # r)))
          else if c = CHR ''n'' then read_literal ''null'' JNull (c # t)
          else if c = CHR ''t'' then read_literal ''true'' (JBool True) (c # t)
          else if c = CHR ''f'' then read_literal ''false'' (JBool False) (c # t)
          else map_option (\<lambda>(i, r). (JNum i, r)) (read_number (c # t)))"
| "read_elements 0 s = None"
| "read_elements (Suc n) s =
     (case read_value n s of
        None \<Rightarrow> None
      | Some (x, r) \<Rightarrow>
          (case skip_space r of
             [] \<Rightarrow> None
           | d # q \<Rightarrow>
               if d = CHR '','' then map_option (\<lambda>(xs, q). (x # xs, q)) (read_elements n q)
               else if d = CHR '']'' then Some ([x], q) else None))"
| "read_members 0 m s = None"
| "read_members (Suc n) m s =
     (case skip_space s of
        [] \<Rightarrow> None
      | c # t \<Rightarrow>
          if c \<noteq> quote_char then None
          else (case read_chars t of
             None \<Rightarrow> None
           | Some (k, r) \<Rightarrow>
               (case skip_space r of
                  [] \<Rightarrow> None
                | d # q \<Rightarrow>
                    if d \<noteq> CHR '':'' then None
                    else (case read_value n q of
                       None \<Rightarrow> None
                     | Some (v, r) \<Rightarrow>
                         (case skip_space r of
                            [] \<Rightarrow> None
                          | d # q \<Rightarrow>
                              if d = CHR '','' then read_members n (oset k v m) q
                              else if d = CHR ''}'' then Some (oset k v m, q) else None)))))"

definition json_parse :: "string \<Rightarrow> json option" where
  "json_parse text =
     (case read_value (2 * length text + 2) text of
        Some (v, r) \<Rightarrow> if skip_space r = [] then Some v else None
      | None \<Rightarrow> None)"

section \<open>It reads back what \<open>JSON.stringify\<close> writes\<close>

text \<open>Values whose objects have each key once, as JavaScript's objects do.\<close>

fun json_ok :: "json \<Rightarrow> bool" where
  "json_ok (JArr xs) = list_all json_ok xs"
| "json_ok (JObj kvs) = (owf kvs \<and> list_all (\<lambda>kv. json_ok (snd kv)) kvs)"
| "json_ok _ = True"

text \<open>What may follow a value: nothing, a separator, or the end of an array or object.\<close>

definition follows :: "string \<Rightarrow> bool" where
  "follows s \<longleftrightarrow> s = [] \<or> hd s \<in> {CHR '','', CHR '']'', CHR ''}''}"

definition read_escape_ok :: "char \<Rightarrow> bool" where
  "read_escape_ok c \<longleftrightarrow>
     (case json_escape c of
        [] \<Rightarrow> False
      | d # e \<Rightarrow> if d = backslash then read_escape e = Some (c, [])
                 else d = c \<and> e = [] \<and> c \<noteq> quote_char \<and> \<not> code c < 32)"

lemma hex_val_digit: "d < 16 \<Longrightarrow> hex_val (hex_digit d) = Some d"
proof -
  have "list_all (\<lambda>d. hex_val (hex_digit d) = Some d) [0..<16]" by code_simp
  then show "d < 16 \<Longrightarrow> hex_val (hex_digit d) = Some d" by (simp add: list_all_iff)
qed

lemma read_escape_control:
  assumes "n < 32"
  shows "read_escape (CHR ''u'' # hex_str 4 n) = Some (char_of n, [])"
proof -
  have four: "(4 :: nat) = Suc (Suc (Suc (Suc 0)))" by simp
  have d: "n div 16 div 16 = 0" "n div 16 mod 16 = n div 16" "n div 16 < 16" using assms by auto
  have "hex_str 4 n = [hex_digit 0, hex_digit 0, hex_digit (n div 16), hex_digit (n mod 16)]"
    unfolding four hex_str.simps d by simp
  moreover have "0 < (16 :: nat)" "n mod 16 < 16" "n div 16 * 16 + n mod 16 = n" by simp_all
  ultimately show ?thesis
    using assms d(3) by (simp add: read_escape_def unhex_def hex_val_digit)
qed

lemma read_escape_ok: "read_escape_ok c"
proof -
  let ?n = "of_char c :: nat"
  have c: "?n = k \<Longrightarrow> c = char_of k" for k by auto
  consider (control) "?n < 32" "?n \<notin> {8, 9, 10, 12, 13}" | (named) "?n \<in> set [8, 9, 10, 12, 13, 34, 92]"
    | (plain) "32 \<le> ?n" "?n \<noteq> 34" "?n \<noteq> 92" by fastforce
  then show ?thesis
  proof cases
    case control
    then have "json_escape c = backslash # CHR ''u'' # hex_str 4 ?n" by (simp add: json_escape_def Let_def)
    then show ?thesis using read_escape_control [of ?n] control(1) by (simp add: read_escape_ok_def)
  next
    case named
    have "list_all (\<lambda>k. read_escape_ok (char_of k)) [8, 9, 10, 12, 13, 34, 92 :: nat]" by code_simp
    with named have "read_escape_ok (char_of ?n)" unfolding list_all_iff by blast
    then show ?thesis by simp
  next
    case plain
    then have "json_escape c = [c]" "c \<noteq> quote_char" "c \<noteq> backslash"
      by (auto simp: json_escape_def Let_def)
    with plain show ?thesis by (simp add: read_escape_ok_def code_def)
  qed
qed

lemma read_escape_append:
  assumes "read_escape e = Some (c, r)"
  shows "read_escape (e @ s) = Some (c, r @ s)"
proof (cases e)
  case Nil
  with assms show ?thesis by (simp add: read_escape_def)
next
  case (Cons d t)
  show ?thesis
  proof (cases "d = CHR ''u''")
    case True
    with assms Cons have "length (take 4 t) = 4" by (auto simp: read_escape_def split: if_splits)
    then have "take 4 (t @ s) = take 4 t" "drop 4 (t @ s) = drop 4 t @ s" by simp_all
    with assms Cons True show ?thesis by (simp add: read_escape_def split: if_splits)
  next
    case False
    with assms Cons show ?thesis
      by (simp add: read_escape_def unescape_def Let_def split: if_splits)
  qed
qed

lemma read_chars_escape:
  "read_chars (json_escape c @ s) = map_option (\<lambda>(t, q). (c # t, q)) (read_chars s)"
  using read_escape_ok [of c] read_escape_append [of _ c "[]" s]
  by (cases "json_escape c") (auto simp: read_escape_ok_def split: if_splits)

lemma read_chars_quote: "read_chars (concat (map json_escape s) @ quote_char # r) = Some (s, r)"
  by (induction s) (simp_all add: read_chars_escape)

lemma strip_zeros_shorter: "length (strip_zeros s) \<le> length s"
  by (induction s rule: strip_zeros.induct) (auto simp: le_Suc_eq)

lemma nat_str_no_zero: "\<not> (hd (nat_str k) = CHR ''0'' \<and> length (nat_str k) > 1)"
proof
  assume *: "hd (nat_str k) = CHR ''0'' \<and> length (nat_str k) > 1"
  then obtain d s where s: "nat_str k = CHR ''0'' # d # s"
    by (cases "nat_str k"; cases "tl (nat_str k)") auto
  with digits_nat_str [of k] have "is_digit d" by simp
  then have "strip_zeros (nat_str k) = strip_zeros (d # s)" by (simp add: s)
  moreover have "strip_zeros (nat_str k) = nat_str k" using strip_zeros_nat_str [of "nat_str k"] by simp
  ultimately show False using strip_zeros_shorter [of "d # s"] s by simp
qed

lemma read_number_text:
  assumes "follows r"
  shows "read_number (int_str n @ r) = Some (n, r)"
proof -
  have f: "\<not> (r \<noteq> [] \<and> is_digit (hd r))" "\<not> (r \<noteq> [] \<and> hd r \<in> {CHR ''.'', CHR ''e'', CHR ''E''})"
    using assms by (auto simp: follows_def is_digit_def code_def)
  have t: "leading_digits (nat_str k @ r) = nat_str k" for k
    using f(1) digits_nat_str [of k]
    by (cases r) (auto simp: leading_digits_def takeWhile_append list_all_iff)
  have z: "\<not> (hd (nat_str k) = CHR ''0'' \<and> length (nat_str k) > 1)" for k
    by (rule nat_str_no_zero)
  have m: "hd (nat_str k @ r) \<noteq> CHR ''-''" for k
    using digits_nat_str [of k] nat_str_not_Nil [of k]
    by (cases "nat_str k") (auto simp: is_digit_def code_def)
  show ?thesis
  proof (cases "n < 0")
    case True
    then show ?thesis
      using f z [of "nat (- n)"] unfolding read_number_def int_str_def by (simp add: Let_def t)
  next
    case False
    then show ?thesis
      using f z [of "nat n"] m [of "nat n"] unfolding read_number_def int_str_def by (simp add: Let_def t)
  qed
qed


lemma skip_space_Cons [simp]: "\<not> json_space c \<Longrightarrow> skip_space (c # s) = c # s"
  by (simp add: skip_space_def)

lemma not_space: "\<not> json_space quote_char" "\<not> json_space (CHR '','')" "\<not> json_space (CHR '']'')"
  "\<not> json_space (CHR ''['')" "\<not> json_space (CHR ''{'')" "\<not> json_space (CHR ''}'')" "\<not> json_space (CHR '':'')"
  by (simp_all add: json_space_def code_def)

text \<open>What is left of an array or object after one of its items.\<close>

definition more :: "char \<Rightarrow> string list \<Rightarrow> string \<Rightarrow> string" where
  "more close ts r = (if ts = [] then close # r else CHR '','' # join '','' ts @ close # r)"

lemma join_more: "join '','' (t # ts) @ close # r = t @ more close ts r"
  by (simp add: more_def join_Cons)

lemma follows_more: "close \<in> {CHR '']'', CHR ''}''} \<Longrightarrow> follows (more close ts r)"
  by (auto simp: more_def follows_def)

definition member_text :: "string \<times> json \<Rightarrow> string" where
  "member_text kv = json_quote (fst kv) @ '':'' @ json_text (snd kv)"

lemma json_text_obj: "json_text (JObj kvs) = ''{'' @ join '','' (map member_text kvs) @ ''}''"
  by (simp add: member_text_def [abs_def] case_prod_unfold)

lemma json_text_start:
  "\<exists>c t. json_text x = c # t \<and> \<not> json_space c \<and> c \<noteq> CHR '']'' \<and> c \<noteq> CHR ''}''"
proof -
  obtain c t where ct: "json_text x = c # t" by (cases "json_text x") auto
  then have "kind_of_char c \<noteq> 7" using json_kind_text [of x "[]"] by (cases x) (auto split: if_splits)
  then have "\<not> json_space c" "c \<noteq> CHR '']''" "c \<noteq> CHR ''}''"
    by (auto simp: kind_of_char_def json_space_def is_digit_def code_def char_of_def split: if_splits)
  with ct show ?thesis by blast
qed

lemma skip_space_text [simp]: "skip_space (json_text x @ r) = json_text x @ r"
  using json_text_start [of x] by auto

lemma read_elements_text:
  assumes "\<And>x n r. x \<in> set xs \<Longrightarrow> 2 * length (json_text x) \<le> n \<Longrightarrow> follows r \<Longrightarrow>
      read_value n (json_text x @ r) = Some (x, r)"
    and "xs \<noteq> []" "2 * length (join '','' (map json_text xs)) + 1 \<le> n"
  shows "read_elements n (join '','' (map json_text xs) @ CHR '']'' # r) = Some (xs, r)"
  using assms
proof (induction xs arbitrary: n)
  case (Cons x xs)
  from Cons.prems(3) obtain k where n: "n = Suc k" "2 * length (join '','' (map json_text (x # xs))) \<le> k"
    by (cases n) auto
  have x: "read_value k (json_text x @ more (CHR '']'') (map json_text xs) r) = Some (x, more (CHR '']'') (map json_text xs) r)"
    by (rule Cons.prems(1)) (use n(2) in \<open>auto simp: join_Cons follows_more\<close>)
  show ?case
  proof (cases "xs = []")
    case True
    with x show ?thesis by (simp add: n(1) more_def not_space)
  next
    case False
    have "read_elements k (join '','' (map json_text xs) @ CHR '']'' # r) = Some (xs, r)"
      by (rule Cons.IH) (use Cons.prems(1) n(2) False in \<open>auto simp: join_Cons\<close>)
    with x False show ?thesis
      unfolding list.map join_more by (simp add: n(1) more_def not_space)
  qed
qed simp

lemma read_members_text:
  assumes "\<And>k x n r. (k, x) \<in> set kvs \<Longrightarrow> 2 * length (json_text x) \<le> n \<Longrightarrow> follows r \<Longrightarrow>
      read_value n (json_text x @ r) = Some (x, r)"
    and "kvs \<noteq> []" "2 * length (join '','' (map member_text kvs)) + 1 \<le> n"
    and "owf (m @ kvs)"
  shows "read_members n m (join '','' (map member_text kvs) @ CHR ''}'' # r) = Some (m @ kvs, r)"
  using assms
proof (induction kvs arbitrary: n m)
  case (Cons kx kvs)
  obtain k x where kx: "kx = (k, x)" by fastforce
  let ?rest = "more (CHR ''}'') (map member_text kvs) r"
  from Cons.prems(3) obtain j where n: "n = Suc j" "2 * length (join '','' (map member_text (kx # kvs))) \<le> j"
    by (cases n) auto
  have x: "read_value j (json_text x @ ?rest) = Some (x, ?rest)"
    by (rule Cons.prems(1)) (use n(2) kx in \<open>auto simp: join_Cons follows_more member_text_def\<close>)
  have k: "read_chars (concat (map json_escape k) @ quote_char # CHR '':'' # s) = Some (k, CHR '':'' # s)" for s
    by (rule read_chars_quote)
  have m: "oset k x m = m @ [kx]" using Cons.prems(4) kx by (intro oset_snoc [of k m x, unfolded kx [symmetric]]) auto
  have shape: "join '','' (map member_text (kx # kvs)) @ CHR ''}'' # r
      = quote_char # concat (map json_escape k) @ quote_char # CHR '':'' # json_text x @ ?rest"
    unfolding list.map join_more by (simp add: member_text_def kx json_quote_def)
  show ?case
  proof (cases "kvs = []")
    case True
    with x show ?thesis unfolding shape n(1) by (simp add: k not_space m more_def)
  next
    case False
    have "read_members j (m @ [kx]) (join '','' (map member_text kvs) @ CHR ''}'' # r) = Some ((m @ [kx]) @ kvs, r)"
      by (rule Cons.IH) (use Cons.prems(1,4) n(2) False in \<open>auto simp: join_Cons\<close>)
    with x False show ?thesis unfolding shape n(1) by (simp add: k not_space m more_def)
  qed
qed simp

lemma kinds [simp]:
  "kind_of_char quote_char = 4" "kind_of_char (CHR ''['') = 5" "kind_of_char (CHR ''{'') = 6"
  "kind_of_char (CHR ''n'') = 0" "kind_of_char (CHR ''t'') = 1" "kind_of_char (CHR ''f'') = 2"
  by (simp_all add: kind_of_char_def is_digit_def code_def char_of_def)

lemma not_quote: "CHR ''['' \<noteq> quote_char" "CHR ''{'' \<noteq> quote_char" "quote_char \<noteq> CHR ''}''"
  by (simp_all add: char_of_def)

lemma read_value_text:
  "json_ok x \<Longrightarrow> 2 * length (json_text x) \<le> n \<Longrightarrow> follows r \<Longrightarrow> read_value n (json_text x @ r) = Some (x, r)"
proof (induction x arbitrary: n r)
  case (JStr s)
  then obtain k where "n = Suc k" by (cases n) (auto simp: json_quote_def)
  then show ?case by (simp add: json_quote_def not_space read_chars_quote)
next
  case (JNum i)
  then obtain k where n: "n = Suc k" by (cases n) (use json_text_not_Nil [of "JNum i"] in auto)
  obtain c t where c: "int_str i @ r = c # t" "\<not> json_space c" "kind_of_char c = 3"
    using json_text_start [of "JNum i"] json_kind_text [of "JNum i" r] by fastforce
  then have "c \<noteq> quote_char" "c \<noteq> CHR ''[''" "c \<noteq> CHR ''{''" "c \<noteq> CHR ''n''" "c \<noteq> CHR ''t''" "c \<noteq> CHR ''f''"
    by auto
  with c(1,2) read_number_text [OF JNum.prems(3), of i] show ?case by (simp add: n)
next
  case (JArr xs)
  from JArr.prems obtain k where n: "n = Suc k" by (cases n) auto
  show ?case
  proof (cases "xs = []")
    case False
    then obtain c t where c: "join '','' (map json_text xs) @ CHR '']'' # r = c # t" "\<not> json_space c" "c \<noteq> CHR '']''"
      using json_text_start [of "hd xs"] by (cases xs) (auto simp: join_Cons)
    have "read_elements k (join '','' (map json_text xs) @ CHR '']'' # r) = Some (xs, r)"
      by (rule read_elements_text) (use JArr False n in \<open>auto simp: list_all_iff\<close>)
    with c show ?thesis by (simp add: n not_space not_quote)
  qed (simp add: n not_space not_quote)
next
  case (JObj kvs)
  from JObj.prems obtain k where n: "n = Suc k" by (cases n) auto
  show ?case
  proof (cases "kvs = []")
    case False
    then obtain t where c: "join '','' (map member_text kvs) @ CHR ''}'' # r = quote_char # t"
      by (cases kvs) (auto simp: join_Cons member_text_def json_quote_def)
    have "read_members k [] (join '','' (map member_text kvs) @ CHR ''}'' # r) = Some ([] @ kvs, r)"
    proof (rule read_members_text)
      show "read_value m (json_text x @ q) = Some (x, q)"
        if "(a, x) \<in> set kvs" "2 * length (json_text x) \<le> m" "follows q" for a x m q
        by (rule JObj.IH [OF that(1)]) (use that JObj.prems(1) in \<open>auto simp: list_all_iff\<close>)
    qed (use JObj.prems False n in \<open>auto simp: json_text_obj simp del: json_text.simps\<close>)
    with c show ?thesis unfolding json_text_obj n by (simp add: not_space not_quote)
  qed (simp add: n not_space not_quote)
next
  case JNull
  then show ?case by (cases n) (simp_all add: read_literal_def starts_with_def json_space_def code_def char_of_def)
next
  case (JBool b)
  then show ?case by (cases n; cases b) (simp_all add: read_literal_def starts_with_def json_space_def code_def char_of_def)
qed

lemma json_parse_text: "json_ok x \<Longrightarrow> json_parse (json_text x) = Some x"
  using read_value_text [of x "2 * length (json_text x) + 2" "[]"]
  by (simp add: json_parse_def follows_def skip_space_def)

section \<open>It reads objects that have each key once\<close>

lemma read_value_cases:
  assumes "read_value (Suc n) s = Some (x, r)"
  obtains (atom) "json_ok x"
  | (elements) xs t where "x = JArr xs" "read_elements n t = Some (xs, r)"
  | (members) m t where "x = JObj m" "read_members n [] t = Some (m, r)"
proof (cases "skip_space s")
  case Nil
  with assms show ?thesis by simp
next
  case (Cons c t)
  consider "c = quote_char" | "c = CHR ''[''" | "c = CHR ''{''" | "c \<notin> {quote_char, CHR ''['', CHR ''{''}" by blast
  then show ?thesis
  proof cases
    case 1
    then have "\<exists>y. x = JStr y" using assms Cons by auto
    then show ?thesis using that(1) by auto
  next
    case 2
    show ?thesis
    proof (cases "skip_space t")
      case (Cons d q)
      then show ?thesis
        using that 2 assms \<open>skip_space s = c # t\<close> by (cases "d = CHR '']''") (auto simp: not_quote)
    qed (use 2 assms Cons in \<open>simp add: not_quote\<close>)
  next
    case 3
    show ?thesis
    proof (cases "skip_space t")
      case (Cons d q)
      then show ?thesis
        using that 3 assms \<open>skip_space s = c # t\<close> by (cases "d = CHR ''}''") (auto simp: not_quote)
    qed (use 3 assms Cons in \<open>simp add: not_quote\<close>)
  next
    case 4
    with assms Cons have "json_ok x"
      by (auto simp: read_literal_def split: if_split_asm)
    then show ?thesis by (rule that(1))
  qed
qed

lemma json_ok_oset: "json_ok (JObj m) \<Longrightarrow> json_ok v \<Longrightarrow> json_ok (JObj (oset k v m))"
  by (auto simp: list_all_iff dest!: set_oset)

lemma read_elements_cases:
  "read_elements (Suc n) s = Some (xs, r) \<Longrightarrow>
    \<exists>x t ys. read_value n s = Some (x, t) \<and> xs = x # ys \<and> (ys = [] \<or> (\<exists>q. read_elements n q = Some (ys, r)))"
  by (force split: option.split_asm list.split_asm if_split_asm)

lemma read_members_cases:
  "read_members (Suc n) m s = Some (m', r) \<Longrightarrow>
    \<exists>k x t q. read_value n q = Some (x, t)
      \<and> (m' = oset k x m \<or> (\<exists>q. read_members n (oset k x m) q = Some (m', r)))"
  by (force split: option.split_asm list.split_asm if_split_asm)

lemma read_ok:
  "(\<forall>s x r. read_value n s = Some (x, r) \<longrightarrow> json_ok x)
    \<and> (\<forall>s xs r. read_elements n s = Some (xs, r) \<longrightarrow> list_all json_ok xs)
    \<and> (\<forall>m s m' r. read_members n m s = Some (m', r) \<longrightarrow> json_ok (JObj m) \<longrightarrow> json_ok (JObj m'))"
proof (induction n)
  case (Suc n)
  then have v: "\<And>s x r. read_value n s = Some (x, r) \<Longrightarrow> json_ok x"
    and e: "\<And>s xs r. read_elements n s = Some (xs, r) \<Longrightarrow> list_all json_ok xs"
    and m: "\<And>m s m' r. read_members n m s = Some (m', r) \<Longrightarrow> json_ok (JObj m) \<Longrightarrow> json_ok (JObj m')"
    by blast+
  have "json_ok x" if "read_value (Suc n) s = Some (x, r)" for s x r
    using that
  proof (cases rule: read_value_cases)
    case (elements xs t)
    then show ?thesis using e by simp
  next
    case (members m' t)
    then show ?thesis using m [of "[]"] by simp
  qed
  moreover have "list_all json_ok xs" if "read_elements (Suc n) s = Some (xs, r)" for s xs r
    using read_elements_cases [OF that] v e by fastforce
  moreover have "json_ok (JObj m')" if "read_members (Suc n) m s = Some (m', r)" "json_ok (JObj m)" for m s m' r
    using read_members_cases [OF that(1)] v m json_ok_oset [OF that(2)] by blast
  ultimately show ?case by blast
qed simp

lemma json_parse_ok:
  assumes "json_parse s = Some x"
  shows "json_ok x"
proof -
  from assms obtain r where "read_value (2 * length s + 2) s = Some (x, r)"
    by (simp add: json_parse_def del: read_value.simps split: option.split_asm prod.split_asm if_split_asm)
  then show ?thesis using read_ok by blast
qed

end
