(* ===== verification/Dv_Store.thy ===== *)
theory Dv_Store
  imports Js_Parse
begin

text \<open>
  \<open>devonian/src/atomic/Resource.ts\<close> and \<open>devonian/src/atomic/Store.ts\<close>: Atomic Data
  resources, the offline property catalog that validates them, and the subject-addressed
  store with its patches, transactions and JSON-AD snapshots.

  A resource is a JavaScript object, an insertion-ordered map from property to value in which
  \<open>@id\<close> holds the subject. The values stored and handed out are copies
  (\<open>structuredClone\<close>), as HOL values are. What is not in the repository is in the record
  \<open>platform\<close>: the WHATWG \<open>URL\<close> constructor, and from \<open>@tomic/lib\<close> the values of the enum
  \<open>Datatype\<close> and \<open>validateDatatype\<close>, which throws or does not.
\<close>

section \<open>\<open>Resource.ts\<close>\<close>

record url_parts =
  url_protocol :: string
  url_search :: string
  url_hash :: string

datatype atomic_datatype =
    ATOMIC_URL | RESOURCEARRAY | STRING | FLOAT | INTEGER | TIMESTAMP | BOOLEAN | UNKNOWN
  | Other_datatype string

record platform =
  pf_url :: "string \<Rightarrow> url_parts option"
  pf_datatypes :: "atomic_datatype list"
  pf_validate :: "json \<Rightarrow> atomic_datatype \<Rightarrow> string option"

type_synonym resource = "(string, json) omap"

record atomic_patch =
  p_set :: "(string, json) omap"
  p_unset :: "string list"

definition IS_A :: string where
  "IS_A = ''https://atomicdata.dev/properties/isA''"

definition is_lower :: "char \<Rightarrow> bool" where
  "is_lower c \<longleftrightarrow> 97 \<le> code c \<and> code c \<le> 122"

definition is_alnum :: "char \<Rightarrow> bool" where
  "is_alnum c \<longleftrightarrow> is_lower c \<or> is_upper_az c \<or> is_digit c"

definition did_method_char :: "char \<Rightarrow> bool" where
  "did_method_char c \<longleftrightarrow> is_lower c \<or> is_digit c"

definition did_id_char :: "char \<Rightarrow> bool" where
  "did_id_char c \<longleftrightarrow> is_alnum c \<or> c \<in> set ''._:%+/=-''"

definition did_tail_char :: "char \<Rightarrow> bool" where
  "did_tail_char c \<longleftrightarrow> is_alnum c \<or> code c = 39 \<or> c \<in> set ''._~:/?#[]@!$&()*+,;=%-''"

text \<open>
  \<open>/^did:[a-z0-9]+:[A-Za-z0-9._:%+/=-]+(?:[?#][A-Za-z0-9._~:/?#[\]@!$&'()*+,;=%-]*)?$/\<close>. Each
  run of characters ends before a character that its class does not have, so the longest
  run is the one to take.
\<close>

definition did_syntax :: "string \<Rightarrow> bool" where
  "did_syntax s \<longleftrightarrow> starts_with ''did:'' s \<and>
     (let m = takeWhile did_method_char (drop 4 s); r = dropWhile did_method_char (drop 4 s)
      in m \<noteq> [] \<and> r \<noteq> [] \<and> hd r = CHR '':'' \<and>
        (let i = takeWhile did_id_char (tl r); q = dropWhile did_id_char (tl r)
         in i \<noteq> [] \<and> (q = [] \<or> (hd q \<in> {CHR ''?'', CHR ''#''} \<and> list_all did_tail_char (tl q)))))"

text \<open>\<open>/%(?![0-9a-fA-F]{2})/.test(s)\<close>: a percent sign that two hexadecimal digits do not follow.\<close>

fun bare_percent :: "string \<Rightarrow> bool" where
  "bare_percent [] = False"
| "bare_percent (c # s) \<longleftrightarrow>
     (c = CHR ''%'' \<and> \<not> (length (take 2 s) = 2 \<and> list_all (\<lambda>d. hex_val d \<noteq> None) (take 2 s))) \<or> bare_percent s"

definition is_control :: "char \<Rightarrow> bool" where
  "is_control c \<longleftrightarrow> code c < 32 \<or> code c = 127"

definition assertSubject :: "platform \<Rightarrow> string \<Rightarrow> string + unit" where
  "assertSubject pf s =
     (if list_ex is_space s \<or> list_ex is_control s
      then Inl ''Expected an absolute identifier without whitespace or controls''
      else case pf_url pf s of
        None \<Rightarrow> Inl ''Invalid URL''
      | Some url \<Rightarrow>
          if url_protocol url \<in> {''http:'', ''https:''} then Inr ()
          else if did_syntax s \<and> \<not> bare_percent s then Inr ()
          else Inl (''Expected an HTTP(S) URL or DID: '' @ s))"

type_synonym schema = "(string, atomic_datatype) omap"

definition new_schema :: schema where
  "new_schema = [(IS_A, RESOURCEARRAY)]"

definition declare_property :: "platform \<Rightarrow> string \<Rightarrow> atomic_datatype \<Rightarrow> schema \<Rightarrow> string + schema" where
  "declare_property pf subject dt sch =
     bindE (assertSubject pf subject) (\<lambda>_.
       if dt \<notin> set (pf_datatypes pf) \<or> dt = UNKNOWN then Inl ''Unsupported datatype''
       else case oget sch subject of
         Some existing \<Rightarrow>
           if existing \<noteq> dt then Inl (''Conflicting property: '' @ subject)
           else Inr (oset subject dt sch)
       | None \<Rightarrow> Inr (oset subject dt sch))"

definition is_number :: "json \<Rightarrow> bool" where
  "is_number v \<longleftrightarrow> (\<exists>n. v = JNum n)"

definition is_boolean :: "json \<Rightarrow> bool" where
  "is_boolean v \<longleftrightarrow> (\<exists>b. v = JBool b)"

lemma is_number_code [code, simp]:
  "is_number (JNum n) = True" "is_number JNull = False" "is_number (JBool b) = False"
  "is_number (JStr s) = False" "is_number (JArr xs) = False" "is_number (JObj m) = False"
  by (simp_all add: is_number_def)

lemma is_boolean_code [code, simp]:
  "is_boolean (JBool b) = True" "is_boolean JNull = False" "is_boolean (JNum n) = False"
  "is_boolean (JStr s) = False" "is_boolean (JArr xs) = False" "is_boolean (JObj m) = False"
  by (simp_all add: is_boolean_def)

text \<open>The branch of a property whose datatype is not a link.\<close>

definition validate_plain :: "platform \<Rightarrow> atomic_datatype \<Rightarrow> json \<Rightarrow> string + unit" where
  "validate_plain pf dt v =
     (if dt \<in> {FLOAT, INTEGER, TIMESTAMP} \<and> \<not> is_number v then Inl ''Expected a number''
      else if dt = BOOLEAN \<and> \<not> is_boolean v then Inl ''Expected a boolean''
      else case pf_validate pf v dt of Some e \<Rightarrow> Inl e | None \<Rightarrow> Inr ())"

fun validateProperties :: "platform \<Rightarrow> schema \<Rightarrow> bool \<Rightarrow> (string \<times> json) list \<Rightarrow> string + unit"
  and validateLink :: "platform \<Rightarrow> schema \<Rightarrow> json \<Rightarrow> string + unit"
  and validateLinks :: "platform \<Rightarrow> schema \<Rightarrow> json list \<Rightarrow> string + unit"
where
  "validateProperties pf sch named [] = Inr ()"
| "validateProperties pf sch named ((p, v) # kvs) =
     (if p = ''@id'' \<and> named then validateProperties pf sch named kvs
      else bindE (assertSubject pf p) (\<lambda>_.
        case oget sch p of
          None \<Rightarrow> Inl (''Unknown property: '' @ p)
        | Some dt \<Rightarrow>
            bindE
              (if v = JNull then Inl (''Missing value for '' @ p)
               else if dt = ATOMIC_URL then validateLink pf sch v
               else if dt = RESOURCEARRAY then
                 (case v of
                    JArr links \<Rightarrow> validateLinks pf sch links
                  | _ \<Rightarrow> Inl (''Expected a resource array: '' @ p))
               else validate_plain pf dt v)
              (\<lambda>_. validateProperties pf sch named kvs)))"
| "validateLink pf sch (JStr s) = assertSubject pf s"
| "validateLink pf sch (JObj kvs) = validateProperties pf sch False kvs"
| "validateLink pf sch _ = Inl ''Expected a resource URL or nested resource''"
| "validateLinks pf sch [] = Inr ()"
| "validateLinks pf sch (v # vs) = bindE (validateLink pf sch v) (\<lambda>_. validateLinks pf sch vs)"

definition subject_of :: "resource \<Rightarrow> string option" where
  "subject_of r = (case oget r ''@id'' of Some (JStr s) \<Rightarrow> Some s | _ \<Rightarrow> None)"

definition validate :: "platform \<Rightarrow> schema \<Rightarrow> resource \<Rightarrow> string + unit" where
  "validate pf sch r =
     bindE (case subject_of r of
              Some s \<Rightarrow> assertSubject pf s
            | None \<Rightarrow> Inl ''Expected an absolute identifier without whitespace or controls'')
       (\<lambda>_. validateProperties pf sch True r)"

section \<open>\<open>Store.ts\<close>\<close>

record store =
  st_schema :: schema
  st_resources :: "(string, resource) omap"

definition get :: "string \<Rightarrow> store \<Rightarrow> resource option" where
  "get subject st = oget (st_resources st) subject"

definition put :: "platform \<Rightarrow> resource \<Rightarrow> store \<Rightarrow> string + store" where
  "put pf r st =
     bindE (validate pf (st_schema st) r) (\<lambda>_.
       Inr (case subject_of r of
              Some s \<Rightarrow> st\<lparr>st_resources := oset s r (st_resources st)\<rparr>
            | None \<Rightarrow> st))"

fun unset_all :: "platform \<Rightarrow> string list \<Rightarrow> resource \<Rightarrow> string + resource" where
  "unset_all pf [] r = Inr r"
| "unset_all pf (p # ps) r = bindE (assertSubject pf p) (\<lambda>_. unset_all pf ps (odel p r))"

definition assign_all :: "resource \<Rightarrow> (string, json) omap \<Rightarrow> resource" where
  "assign_all r kvs = foldl (\<lambda>r (k, v). oset k v r) r kvs"

definition patch :: "platform \<Rightarrow> string \<Rightarrow> atomic_patch \<Rightarrow> store \<Rightarrow> string + (store \<times> resource)" where
  "patch pf subject p st =
     bindE (assertSubject pf subject) (\<lambda>_.
       if ''@id'' \<in> set (okeys (p_set p)) \<or> ''@id'' \<in> set (p_unset p)
       then Inl ''A patch cannot change resource identity''
       else
         let base = (case get subject st of Some r \<Rightarrow> r | None \<Rightarrow> [(''@id'', JStr subject)]) in
         bindE (unset_all pf (p_unset p) (assign_all base (p_set p))) (\<lambda>r.
         bindE (put pf r st) (\<lambda>st. Inr (st, r))))"

text \<open>An operation that may throw after it has changed the store is a pair of its outcome and the store it leaves.\<close>

definition transaction :: "(store \<Rightarrow> (string + unit) \<times> store) \<Rightarrow> store \<Rightarrow> (string + unit) \<times> store" where
  "transaction operation st =
     (case operation st of
        (Inr _, st') \<Rightarrow> (Inr (), st')
      | (Inl e, _) \<Rightarrow> (Inl e, st))"

fun apply_staged :: "platform \<Rightarrow> (string \<times> atomic_patch) list \<Rightarrow> store \<Rightarrow> string + store" where
  "apply_staged pf [] st = Inr st"
| "apply_staged pf ((s, p) # cs) st = bindE (patch pf s p st) (\<lambda>(st, _). apply_staged pf cs st)"

definition apply_changes :: "platform \<Rightarrow> (string \<times> atomic_patch) list \<Rightarrow> store \<Rightarrow> (string + unit) \<times> store" where
  "apply_changes pf changes st =
     (case apply_staged pf changes st of
        Inl e \<Rightarrow> (Inl e, st)
      | Inr staged \<Rightarrow> (Inr (), st\<lparr>st_resources := st_resources staged\<rparr>))"

definition remove :: "string \<Rightarrow> store \<Rightarrow> store" where
  "remove subject st = st\<lparr>st_resources := odel subject (st_resources st)\<rparr>"

definition has_class :: "string \<Rightarrow> resource \<Rightarrow> bool" where
  "has_class cls r \<longleftrightarrow> cls = [] \<or> (case oget r IS_A of Some (JArr cs) \<Rightarrow> JStr cls \<in> set cs | _ \<Rightarrow> False)"

definition all :: "string \<Rightarrow> store \<Rightarrow> resource list" where
  "all cls st = filter (has_class cls) (map snd (st_resources st))"

definition toJSONAD :: "store \<Rightarrow> string" where
  "toJSONAD st = json_text (JArr (map JObj (all [] st)))"

fun load_resources ::
  "platform \<Rightarrow> schema \<Rightarrow> (string, resource) omap \<Rightarrow> json list \<Rightarrow> string + (string, resource) omap"
where
  "load_resources pf sch loaded [] = Inr loaded"
| "load_resources pf sch loaded (item # items) =
     (case item of
        JObj r \<Rightarrow>
          (case subject_of r of
             None \<Rightarrow> Inl ''Expected a named JSON-AD resource''
           | Some s \<Rightarrow>
               bindE (validate pf sch r) (\<lambda>_.
                 if oget loaded s \<noteq> None then Inl (''Duplicate subject: '' @ s)
                 else load_resources pf sch (oset s r loaded) items))
      | _ \<Rightarrow> Inl ''Expected a named JSON-AD resource'')"

definition loadJSONAD :: "platform \<Rightarrow> string \<Rightarrow> store \<Rightarrow> (string + unit) \<times> store" where
  "loadJSONAD pf text st =
     (case json_parse text of
        None \<Rightarrow> (Inl ''SyntaxError'', st)
      | Some parsed \<Rightarrow>
          (case load_resources pf (st_schema st) [] (case parsed of JArr xs \<Rightarrow> xs | _ \<Rightarrow> [parsed]) of
             Inl e \<Rightarrow> (Inl e, st)
           | Inr loaded \<Rightarrow> (Inr (), st\<lparr>st_resources := loaded\<rparr>)))"

section \<open>What a store holds\<close>

text \<open>
  A JavaScript object: its properties are distinct, here and in the objects it holds. A
  resource is stored under the subject it names, and passed validation.
\<close>

definition plain_object :: "resource \<Rightarrow> bool" where
  "plain_object r \<longleftrightarrow> json_ok (JObj r)"

lemma plain_object_iff: "plain_object r \<longleftrightarrow> owf r \<and> (\<forall>(k, v) \<in> set r. json_ok v)"
  by (auto simp: plain_object_def list_all_iff)

definition resource_ok :: "platform \<Rightarrow> schema \<Rightarrow> string \<Rightarrow> resource \<Rightarrow> bool" where
  "resource_ok pf sch s r \<longleftrightarrow> plain_object r \<and> subject_of r = Some s \<and> validate pf sch r = Inr ()"

definition store_ok :: "platform \<Rightarrow> store \<Rightarrow> bool" where
  "store_ok pf st \<longleftrightarrow> owf (st_resources st)
     \<and> list_all (\<lambda>(s, r). resource_ok pf (st_schema st) s r) (st_resources st)"

lemma plain_object_oset: "plain_object r \<Longrightarrow> json_ok v \<Longrightarrow> plain_object (oset k v r)"
  unfolding plain_object_iff by (auto dest!: set_oset)

lemma plain_object_odel: "plain_object r \<Longrightarrow> plain_object (odel k r)"
  unfolding plain_object_iff by (auto dest!: set_odel)

lemma store_okD: "store_ok pf st \<Longrightarrow> get s st = Some r \<Longrightarrow> resource_ok pf (st_schema st) s r"
  by (auto simp: store_ok_def get_def list_all_iff dest: map_of_SomeD)

lemma get_mem: "store_ok pf st \<Longrightarrow> (s, r) \<in> set (st_resources st) \<longleftrightarrow> get s st = Some r"
  by (auto simp: store_ok_def get_def dest: map_of_SomeD)

lemma put_Inr:
  "put pf r st = Inr st' \<longleftrightarrow> validate pf (st_schema st) r = Inr () \<and>
     (\<exists>s. subject_of r = Some s \<and> st' = st\<lparr>st_resources := oset s r (st_resources st)\<rparr>)"
  by (auto simp: put_def bindE_eq_Inr validate_def split: option.splits)

lemma put_get: "put pf r st = Inr st' \<Longrightarrow> get s st' = (if subject_of r = Some s then Some r else get s st)"
  by (auto simp: put_Inr get_def)

lemma put_ok: "store_ok pf st \<Longrightarrow> plain_object r \<Longrightarrow> put pf r st = Inr st' \<Longrightarrow> store_ok pf st'"
  unfolding put_Inr store_ok_def list_all_iff
  by (auto dest!: set_oset) (simp add: resource_ok_def, fastforce)

lemma put_schema: "put pf r st = Inr st' \<Longrightarrow> st_schema st' = st_schema st"
  by (auto simp: put_Inr)

lemma remove_ok: "store_ok pf st \<Longrightarrow> store_ok pf (remove s st)"
  by (auto simp: store_ok_def remove_def list_all_iff dest!: set_odel)

lemma get_remove: "get s (remove t st) = (if s = t then None else get s st)"
  by (simp add: get_def remove_def)

section \<open>Patches\<close>

definition patch_ok :: "atomic_patch \<Rightarrow> bool" where
  "patch_ok p \<longleftrightarrow> plain_object (p_set p)"

lemma assign_all_get:
  "oget (assign_all r kvs) k = (case map_of (rev kvs) k of Some v \<Rightarrow> Some v | None \<Rightarrow> oget r k)"
  unfolding assign_all_def
  by (induction kvs arbitrary: r) (auto simp: map_add_Some_iff split: option.splits simp: map_add_def)

lemma map_of_rev_owf: "owf m \<Longrightarrow> map_of (rev m) = map_of m"
  by (subst map_of_inject_set) (simp_all flip: rev_map)

lemma assign_all_plain: "plain_object r \<Longrightarrow> list_all (\<lambda>kv. json_ok (snd kv)) kvs \<Longrightarrow> plain_object (assign_all r kvs)"
  unfolding assign_all_def
proof (induction kvs arbitrary: r)
  case (Cons kv kvs)
  then show ?case using plain_object_oset [of r "snd kv" "fst kv"] by (simp add: case_prod_unfold )
qed simp

lemma unset_all_Inr:
  "unset_all pf ps r = Inr r' \<Longrightarrow> oget r' k = (if k \<in> set ps then None else oget r k)
    \<and> (plain_object r \<longrightarrow> plain_object r') \<and> list_all (\<lambda>p. assertSubject pf p = Inr ()) ps"
proof (induction ps arbitrary: r)
  case (Cons p ps)
  then show ?case using plain_object_odel [of r p]
    by (auto simp: bindE_eq_Inr)
qed simp

text \<open>What a patched resource holds: what the patch sets, and the rest but what it unsets.\<close>

definition patched :: "atomic_patch \<Rightarrow> resource option \<Rightarrow> string \<Rightarrow> string \<Rightarrow> json option" where
  "patched p before subject k =
     (if k \<in> set (p_unset p) then None
      else case oget (p_set p) k of
        Some v \<Rightarrow> Some v
      | None \<Rightarrow> (case before of Some r \<Rightarrow> oget r k | None \<Rightarrow> oget [(''@id'', JStr subject)] k))"

lemma patch_Inr:
  assumes "store_ok pf st" "patch_ok p" "patch pf s p st = Inr (st', r)"
  shows "store_ok pf st'" "st_schema st' = st_schema st" "get t st' = (if t = s then Some r else get t st)"
    "oget r k = patched p (get s st) s k"
proof -
  let ?base = "case get s st of Some r \<Rightarrow> r | None \<Rightarrow> [(''@id'', JStr s)]"
  from assms(3) have id: "''@id'' \<notin> set (okeys (p_set p))" "''@id'' \<notin> set (p_unset p)"
    and unset: "unset_all pf (p_unset p) (assign_all ?base (p_set p)) = Inr r" and put: "put pf r st = Inr st'"
    by (auto simp: patch_def bindE_eq_Inr Let_def split: if_splits)
  have base: "plain_object ?base \<and> subject_of ?base = Some s"
    using store_okD [OF assms(1), of s]
    by (cases "get s st") (auto simp: resource_ok_def subject_of_def plain_object_def)
  have vals: "owf (p_set p)" "list_all (\<lambda>kv. json_ok (snd kv)) (p_set p)"
    using assms(2) by (simp_all add: patch_ok_def plain_object_def)
  have look: "oget r k = patched p (get s st) s k" for k
    using unset_all_Inr [OF unset, of k] map_of_rev_owf [OF vals(1)]
    by (cases "get s st") (simp_all add: patched_def assign_all_get split: option.splits)
  have r: "plain_object r" using unset_all_Inr [OF unset] assign_all_plain [OF conjunct1 [OF base] vals(2)] by blast
  have "oget r ''@id'' = oget ?base ''@id''"
    using look [of "''@id''"] id by (cases "get s st") (simp_all add: patched_def map_of_eq_None_iff [THEN iffD2])
  then have sub: "subject_of r = Some s" using base by (simp add: subject_of_def)
  show "store_ok pf st'" by (rule put_ok [OF assms(1) r put])
  show "st_schema st' = st_schema st" by (rule put_schema [OF put])
  show "get t st' = (if t = s then Some r else get t st)" using put_get [OF put, of t] sub by auto
  show "oget r k = patched p (get s st) s k" by (rule look)
qed

lemma apply_staged_ok:
  assumes "store_ok pf st" "list_all (\<lambda>(s, p). patch_ok p) cs" "apply_staged pf cs st = Inr st'"
  shows "store_ok pf st' \<and> st_schema st' = st_schema st
    \<and> (\<forall>t. t \<notin> set (okeys cs) \<longrightarrow> get t st' = get t st)
    \<and> (\<forall>t \<in> set (okeys cs). get t st' \<noteq> None)"
  using assms
proof (induction cs arbitrary: st)
  case (Cons c cs)
  obtain s p where c: "c = (s, p)" by fastforce
  with Cons.prems(3) obtain st1 r where 1: "patch pf s p st = Inr (st1, r)" and 2: "apply_staged pf cs st1 = Inr st'"
    by (auto simp: bindE_eq_Inr)
  from Cons.prems(2) c have p: "patch_ok p" by simp
  note one = patch_Inr [OF Cons.prems(1) p 1]
  have "list_all (\<lambda>(s, p). patch_ok p) cs" using Cons.prems(2) by simp
  note ih = Cons.IH [OF one(1) this 2]
  have "get t st' \<noteq> None" if "t = s" for t
    using ih one(3) [of s] that by (cases "s \<in> set (okeys cs)") auto
  then show ?case using ih one(2,3) c by auto
qed simp

lemma apply_changes_result:
  assumes "store_ok pf st" "list_all (\<lambda>(s, p). patch_ok p) cs" "apply_changes pf cs st = (res, st')"
  shows "store_ok pf st' \<and> st_schema st' = st_schema st
    \<and> (case res of
         Inl e \<Rightarrow> st' = st
       | Inr _ \<Rightarrow> (\<forall>t. t \<notin> set (okeys cs) \<longrightarrow> get t st' = get t st) \<and> (\<forall>t \<in> set (okeys cs). get t st' \<noteq> None))"
proof (cases "apply_staged pf cs st")
  case (Inl e)
  with assms show ?thesis by (auto simp: apply_changes_def)
next
  case (Inr staged)
  note ok = apply_staged_ok [OF assms(1,2) Inr]
  then have "st\<lparr>st_resources := st_resources staged\<rparr> = staged" by simp
  with Inr ok assms(3) show ?thesis by (auto simp: apply_changes_def)
qed

section \<open>Snapshots\<close>

lemma all_everything [simp]: "all [] st = map snd (st_resources st)"
  by (simp add: all_def has_class_def)

lemma load_resources_written:
  assumes "list_all (\<lambda>(s, r). resource_ok pf sch s r) rs" "owf (loaded @ rs)"
  shows "load_resources pf sch loaded (map (JObj \<circ> snd) rs) = Inr (loaded @ rs)"
  using assms
proof (induction rs arbitrary: loaded)
  case (Cons x rs)
  obtain s r where x: "x = (s, r)" by fastforce
  from Cons.prems(2) x have new: "s \<notin> set (okeys loaded)" by auto
  then have "oget loaded s = None" "oset s r loaded = loaded @ [x]"
    using x by (simp_all add: map_of_eq_None_iff oset_snoc)
  moreover have "load_resources pf sch (loaded @ [x]) (map (JObj \<circ> snd) rs) = Inr ((loaded @ [x]) @ rs)"
    by (rule Cons.IH) (use Cons.prems in auto)
  ultimately show ?case using Cons.prems(1) x by (simp add: resource_ok_def comp_def)
qed simp

lemma load_resources_ok:
  assumes "load_resources pf sch loaded items = Inr rs" "list_all json_ok items" "owf loaded"
    "list_all (\<lambda>(s, r). resource_ok pf sch s r) loaded"
  shows "owf rs \<and> list_all (\<lambda>(s, r). resource_ok pf sch s r) rs"
  using assms
proof (induction items arbitrary: loaded)
  case (Cons item items)
  from Cons.prems(1) obtain r s where r: "item = JObj r" "subject_of r = Some s" "validate pf sch r = Inr ()"
    "oget loaded s = None" and rest: "load_resources pf sch (oset s r loaded) items = Inr rs"
    by (auto simp: bindE_eq_Inr split: json.splits option.splits if_splits)
  have "resource_ok pf sch s r" using r Cons.prems(2) by (simp add: resource_ok_def plain_object_def)
  then have "list_all (\<lambda>(s, r). resource_ok pf sch s r) (oset s r loaded)"
    using Cons.prems(4) unfolding list_all_iff by (auto dest!: set_oset)
  then show ?case using Cons.IH [OF rest] Cons.prems(2,3) by simp
qed simp

lemma loadJSONAD_result:
  assumes "store_ok pf st" "loadJSONAD pf text st = (res, st')"
  shows "store_ok pf st' \<and> st_schema st' = st_schema st \<and> (case res of Inl e \<Rightarrow> st' = st | Inr _ \<Rightarrow> True)"
proof (cases "json_parse text")
  case None
  with assms show ?thesis by (auto simp: loadJSONAD_def)
next
  case (Some parsed)
  let ?items = "case parsed of JArr xs \<Rightarrow> xs | _ \<Rightarrow> [parsed]"
  have items: "list_all json_ok ?items" using json_parse_ok [OF Some] by (cases parsed) simp_all
  show ?thesis
  proof (cases "load_resources pf (st_schema st) [] ?items")
    case (Inl e)
    with Some assms show ?thesis by (auto simp: loadJSONAD_def)
  next
    case (Inr rs)
    with load_resources_ok [OF Inr items] Some assms(2) show ?thesis
      by (auto simp: loadJSONAD_def store_ok_def)
  qed
qed

text \<open>
  The stores a program can reach: it starts with an empty one and applies the operations, on
  resources and patches that are JavaScript objects.
\<close>

inductive store_reach :: "platform \<Rightarrow> schema \<Rightarrow> store \<Rightarrow> bool" for pf sch where
  new_store: "store_reach pf sch \<lparr>st_schema = sch, st_resources = []\<rparr>"
| put_step: "store_reach pf sch st \<Longrightarrow> plain_object r \<Longrightarrow> put pf r st = Inr st' \<Longrightarrow> store_reach pf sch st'"
| patch_step: "store_reach pf sch st \<Longrightarrow> patch_ok p \<Longrightarrow> patch pf s p st = Inr (st', r) \<Longrightarrow> store_reach pf sch st'"
| apply_step: "store_reach pf sch st \<Longrightarrow> list_all (\<lambda>(s, p). patch_ok p) cs \<Longrightarrow>
    apply_changes pf cs st = (res, st') \<Longrightarrow> store_reach pf sch st'"
| remove_step: "store_reach pf sch st \<Longrightarrow> store_reach pf sch (remove s st)"
| load_step: "store_reach pf sch st \<Longrightarrow> loadJSONAD pf text st = (res, st') \<Longrightarrow> store_reach pf sch st'"

lemma store_reach_ok: "store_reach pf sch st \<Longrightarrow> store_ok pf st \<and> st_schema st = sch"
proof (induction rule: store_reach.induct)
  case new_store
  show ?case by (simp add: store_ok_def)
next
  case put_step
  then show ?case using put_ok put_schema by metis
next
  case patch_step
  then show ?case using patch_Inr(1,2) by metis
next
  case apply_step
  then show ?case using apply_changes_result by metis
next
  case remove_step
  then show ?case by (simp add: remove_ok) (simp add: remove_def)
next
  case load_step
  then show ?case using loadJSONAD_result by metis
qed

text \<open>
  C25. Whatever sequence of puts, patches, applied projections, removals and loaded snapshots a
  store has been through, every resource in it is stored under the subject it names and
  passes the catalog's validation: its subject and its properties are absolute identifiers
  and each value has the datatype declared for its property.
\<close>
theorem stored_resources_valid:
  assumes "store_reach pf sch st" "get s st = Some r"
  shows "subject_of r = Some s \<and> validate pf sch r = Inr () \<and> assertSubject pf s = Inr ()
    \<and> list_all (\<lambda>(p, v). p = ''@id'' \<or> (assertSubject pf p = Inr () \<and> oget sch p \<noteq> None \<and> v \<noteq> JNull)) r"
proof -
  have r: "subject_of r = Some s" "validate pf sch r = Inr ()"
    using store_reach_ok [OF assms(1)] store_okD [OF _ assms(2)] by (auto simp: resource_ok_def)
  have "validateProperties pf sch True kvs = Inr () \<Longrightarrow>
      list_all (\<lambda>(p, v). p = ''@id'' \<or> (assertSubject pf p = Inr () \<and> oget sch p \<noteq> None \<and> v \<noteq> JNull)) kvs" for kvs
    by (induction kvs) (auto simp: bindE_eq_Inr split: if_split_asm option.split_asm)
  with r show ?thesis by (auto simp: validate_def bindE_eq_Inr)
qed

text \<open>
  C26. A JSON-AD snapshot written from a valid store and loaded into a store with the same
  catalog, whatever that store held before, gives back exactly the resources of the first,
  in their order.
\<close>
theorem snapshot_roundtrip:
  assumes "store_reach pf sch st" "st_schema other = sch"
  shows "loadJSONAD pf (toJSONAD st) other = (Inr (), other\<lparr>st_resources := st_resources st\<rparr>)"
proof -
  have ok: "store_ok pf st" "st_schema st = sch" using store_reach_ok [OF assms(1)] by auto
  have "list_all json_ok (map JObj (map snd (st_resources st)))"
    using ok(1) unfolding store_ok_def resource_ok_def plain_object_def
    by (auto simp: list_all_iff simp del: json_ok.simps(2))
  then have "json_ok (JArr (map JObj (map snd (st_resources st))))" by simp
  from json_parse_text [OF this]
  have "json_parse (toJSONAD st) = Some (JArr (map (JObj \<circ> snd) (st_resources st)))" by (simp add: toJSONAD_def)
  moreover have "load_resources pf sch [] (map (JObj \<circ> snd) (st_resources st)) = Inr (st_resources st)"
    using load_resources_written [of pf sch "st_resources st" "[]"] ok by (simp add: store_ok_def)
  ultimately show ?thesis using assms(2) by (simp add: loadJSONAD_def)
qed

text \<open>Concrete instances: every text that starts with \<open>http\<close> is a URL, and the library's own checks pass.\<close>

definition sample_platform :: platform where
  "sample_platform =
     \<lparr>pf_url = (\<lambda>s. if starts_with ''http'' s then Some \<lparr>url_protocol = ''https:'', url_search = [], url_hash = []\<rparr> else None),
      pf_datatypes = [ATOMIC_URL, RESOURCEARRAY, STRING], pf_validate = (\<lambda>_ _. None)\<rparr>"

definition sample_schema :: schema where
  "sample_schema = [(IS_A, RESOURCEARRAY), (''https://x/name'', STRING)]"

definition sample_resource :: resource where
  "sample_resource = [(''@id'', JStr ''https://x/1''), (''https://x/name'', JStr ''a''), (IS_A, JArr [JStr ''https://x/C''])]"

definition sample_store :: store where
  "sample_store = \<lparr>st_schema = sample_schema, st_resources = [(''https://x/1'', sample_resource)]\<rparr>"

lemma sample_reach: "store_reach sample_platform sample_schema sample_store"
proof (rule put_step [OF new_store])
  show "plain_object sample_resource" by (simp add: plain_object_def sample_resource_def IS_A_def)
  show "put sample_platform sample_resource \<lparr>st_schema = sample_schema, st_resources = []\<rparr> = Inr sample_store"
    by code_simp
qed

theorem stored_resources_valid_witness:
  "subject_of sample_resource = Some ''https://x/1'' \<and> validate sample_platform sample_schema sample_resource = Inr ()"
  using stored_resources_valid [OF sample_reach, of "''https://x/1''" sample_resource]
  by (simp add: get_def sample_store_def)

theorem snapshot_roundtrip_witness:
  "loadJSONAD sample_platform (toJSONAD sample_store) \<lparr>st_schema = sample_schema, st_resources = []\<rparr> = (Inr (), sample_store)"
  using snapshot_roundtrip [OF sample_reach, of "\<lparr>st_schema = sample_schema, st_resources = []\<rparr>"]
  by (simp add: sample_store_def)

end
