(* ===== verification/Dv_Marker.thy ===== *)
theory Dv_Marker
  imports Prelude "HOL-Library.Sublist" "HOL-Library.Code_Target_Nat"
begin

text \<open>
  Origin markers (\<^verbatim>\<open>src/devonian/src/reflect/marker.ts\<close>): the hidden comment that links a
  copy to its original.

  Bodies may hold any text, so here a string is the list of its UTF-16 code units, as
  numbers below 65536; \<open>u ''abc''\<close> is a literal.
\<close>

type_synonym ustring = "nat list"

definition u :: "string \<Rightarrow> ustring" where
  "u s = map of_char s"

record origin_ref =
  or_system :: ustring
  or_kind :: ustring
  or_id :: ustring

definition DEFAULT_NAMESPACE :: ustring where "DEFAULT_NAMESPACE = u ''devonian''"

section \<open>Percent encoding\<close>

definition unreserved :: "nat \<Rightarrow> bool" where
  "unreserved c \<longleftrightarrow>
     (48 \<le> c \<and> c \<le> 57) \<or> (65 \<le> c \<and> c \<le> 90) \<or> (97 \<le> c \<and> c \<le> 122)
     \<or> c \<in> {45, 95, 46, 33, 126, 42, 39, 40, 41}"

definition hex_upper :: "nat \<Rightarrow> nat" where
  "hex_upper d = (if d < 10 then 48 + d else 55 + d)"

definition percent :: "nat \<Rightarrow> ustring" where
  "percent b = [37, hex_upper (b div 16), hex_upper (b mod 16)]"

text \<open>The UTF-8 bytes of a code point.\<close>

definition utf8_bytes :: "nat \<Rightarrow> nat list" where
  "utf8_bytes p =
     (if p < 128 then [p]
      else if p < 2048 then [192 + p div 64, 128 + p mod 64]
      else if p < 65536 then [224 + p div 4096, 128 + p div 64 mod 64, 128 + p mod 64]
      else [240 + p div 262144, 128 + p div 4096 mod 64, 128 + p div 64 mod 64, 128 + p mod 64])"

definition is_high :: "nat \<Rightarrow> bool" where "is_high c \<longleftrightarrow> 55296 \<le> c \<and> c < 56320"
definition is_low :: "nat \<Rightarrow> bool" where "is_low c \<longleftrightarrow> 56320 \<le> c \<and> c < 57344"

definition encode_point :: "nat \<Rightarrow> ustring" where
  "encode_point p = concat (map percent (utf8_bytes p))"

text \<open>\<open>encodeURIComponent\<close>; \<open>None\<close> is a URIError, for half a surrogate pair.\<close>

fun encodeURIComponent :: "ustring \<Rightarrow> ustring option" where
  "encodeURIComponent [] = Some []"
| "encodeURIComponent [c] =
     (if unreserved c then Some [c]
      else if is_low c \<or> is_high c then None
      else Some (encode_point c))"
| "encodeURIComponent (c # d # s) =
     (if unreserved c then map_option (\<lambda>t. c # t) (encodeURIComponent (d # s))
      else if is_low c then None
      else if is_high c then
        (if is_low d
         then map_option (\<lambda>t. encode_point ((c - 55296) * 1024 + (d - 56320) + 65536) @ t)
                (encodeURIComponent s)
         else None)
      else map_option (\<lambda>t. encode_point c @ t) (encodeURIComponent (d # s)))"

definition hex_digit_val :: "nat \<Rightarrow> nat option" where
  "hex_digit_val c =
     (if 48 \<le> c \<and> c \<le> 57 then Some (c - 48)
      else if 65 \<le> c \<and> c \<le> 70 then Some (c - 55)
      else if 97 \<le> c \<and> c \<le> 102 then Some (c - 87)
      else None)"

text \<open>One \<open>%XX\<close> at the front: the byte and what follows.\<close>

definition percent_byte :: "ustring \<Rightarrow> (nat \<times> ustring) option" where
  "percent_byte s =
     (case s of
        c # h # l # t \<Rightarrow>
          (case (hex_digit_val h, hex_digit_val l) of
             (Some a, Some b) \<Rightarrow> if c = 37 then Some (a * 16 + b, t) else None
           | _ \<Rightarrow> None)
      | _ \<Rightarrow> None)"

fun continuation :: "nat \<Rightarrow> nat \<Rightarrow> ustring \<Rightarrow> (nat \<times> ustring) option" where
  "continuation 0 p s = Some (p, s)"
| "continuation (Suc n) p s =
     (case percent_byte s of
        None \<Rightarrow> None
      | Some (b, t) \<Rightarrow> if b div 64 = 2 then continuation n (p * 64 + b mod 64) t else None)"

definition units_of_point :: "nat \<Rightarrow> ustring" where
  "units_of_point p =
     (if p < 65536 then [p] else [55296 + (p - 65536) div 1024, 56320 + (p - 65536) mod 1024])"

text \<open>
  The escapes of one code point: a byte below 128, or a lead byte and its continuation bytes,
  which must be well-formed UTF-8 (nothing overlong, no surrogate, at most U+10FFFF).
\<close>

definition lead_byte :: "nat \<Rightarrow> (nat \<times> nat \<times> nat) option" where
  "lead_byte b =
     (if b div 32 = 6 then Some (1, b mod 32, 128)
      else if b div 16 = 14 then Some (2, b mod 16, 2048)
      else if b div 8 = 30 then Some (3, b mod 8, 65536)
      else None)"

definition percent_point :: "ustring \<Rightarrow> (ustring \<times> ustring) option" where
  "percent_point s =
     Option.bind (percent_byte s) (\<lambda>(b, t).
       if b < 128 then Some ([b], t)
       else
         Option.bind (lead_byte b) (\<lambda>(n, first, least).
         Option.bind (continuation n first t) (\<lambda>(p, t).
           if least \<le> p \<and> \<not> is_high p \<and> \<not> is_low p \<and> p \<le> 1114111
           then Some (units_of_point p, t) else None)))"

lemma percent_byte_length: "percent_byte s = Some (b, t) \<Longrightarrow> length s = length t + 3"
  by (auto simp: percent_byte_def split: list.splits option.splits if_splits nat.splits)

lemma continuation_length: "continuation n p s = Some (q, t) \<Longrightarrow> length t \<le> length s"
proof (induction n arbitrary: p s)
  case (Suc n)
  then obtain b r where r: "percent_byte s = Some (b, r)" "continuation n (p * 64 + b mod 64) r = Some (q, t)"
    by (auto split: option.splits if_splits)
  from Suc.IH [OF r(2)] percent_byte_length [OF r(1)] show ?case by simp
qed simp

lemma percent_point_length:
  assumes "percent_point s = Some (r, t)"
  shows "length t < length s"
proof -
  have "\<exists>b a. percent_byte s = Some (b, a) \<and> length t \<le> length a"
    using assms by (auto simp: percent_point_def bind_eq_Some_conv split: if_splits dest: continuation_length)
  then show ?thesis by (auto dest: percent_byte_length)
qed

text \<open>\<open>decodeURIComponent\<close>; \<open>None\<close> is a URIError.\<close>

function decodeURIComponent :: "ustring \<Rightarrow> ustring option" where
  "decodeURIComponent [] = Some []"
| "decodeURIComponent (c # s) =
     (if c \<noteq> 37 then map_option (\<lambda>t. c # t) (decodeURIComponent s)
      else case percent_point (c # s) of
             None \<Rightarrow> None
           | Some (r, rest) \<Rightarrow> map_option (\<lambda>t. r @ t) (decodeURIComponent rest))"
  by pat_completeness auto
termination by (relation "measure length") (auto dest: percent_point_length)

section \<open>Finding markers\<close>

text \<open>\<open>\s\<close> of a regular expression, and what \<open>trim\<close> removes.\<close>

definition is_ws :: "nat \<Rightarrow> bool" where
  "is_ws c \<longleftrightarrow>
     c \<in> {9, 10, 11, 12, 13, 32, 160, 5760, 8232, 8233, 8239, 8287, 12288, 65279}
     \<or> (8192 \<le> c \<and> c \<le> 8202)"

definition strip_prefix :: "ustring \<Rightarrow> ustring \<Rightarrow> ustring option" where
  "strip_prefix p s = (if take (length p) s = p then Some (drop (length p) s) else None)"

text \<open>
  \<open><!--\s*namespace:origin\s+\<close> at the front. The namespace is matched literally, so at most
  one number of spaces before it fits; all spaces after it are skipped.
\<close>

definition after_open :: "ustring \<Rightarrow> ustring \<Rightarrow> ustring option" where
  "after_open ns s =
     Option.bind (strip_prefix (u ''<!--'') s) (\<lambda>t.
     Option.bind (List.find (\<lambda>k. strip_prefix (ns @ u '':origin'') (drop k t) \<noteq> None)
         (rev [0..<length (takeWhile is_ws t) + 1])) (\<lambda>k.
     Option.bind (strip_prefix (ns @ u '':origin'') (drop k t)) (\<lambda>rest.
       if rest \<noteq> [] \<and> is_ws (hd rest) then Some (dropWhile is_ws rest) else None)))"

text \<open>\<open>([^>]*?)\s*-->\<close>: the shortest payload, and what follows the marker.\<close>

fun payload_from :: "ustring \<Rightarrow> ustring \<Rightarrow> (ustring \<times> ustring) option" where
  "payload_from acc [] = None"
| "payload_from acc (c # s) =
     (case strip_prefix (u ''-->'') (dropWhile is_ws (c # s)) of
        Some rest \<Rightarrow> Some (acc, rest)
      | None \<Rightarrow> if c = 62 then None else payload_from (acc @ [c]) s)"

definition marker_at :: "ustring \<Rightarrow> ustring \<Rightarrow> (ustring \<times> ustring) option" where
  "marker_at ns s = Option.bind (after_open ns s) (payload_from [])"

text \<open>The first marker of a text: its payload.\<close>

fun first_marker :: "ustring \<Rightarrow> ustring \<Rightarrow> ustring option" where
  "first_marker ns [] = None"
| "first_marker ns (c # s) =
     (case marker_at ns (c # s) of
        Some (payload, _) \<Rightarrow> Some payload
      | None \<Rightarrow> first_marker ns s)"

lemma strip_prefix_eq: "strip_prefix p s = Some t \<longleftrightarrow> s = p @ t"
  by (auto simp: strip_prefix_def) (metis append_take_drop_id)

lemma strip_prefix_length: "strip_prefix p s = Some t \<Longrightarrow> length s = length p + length t"
  by (auto simp: strip_prefix_eq)

lemma payload_from_length: "payload_from acc s = Some (p, t) \<Longrightarrow> length t < length s"
proof (induction acc s rule: payload_from.induct)
  case (2 acc c s)
  have "length (dropWhile is_ws (c # s)) \<le> length (c # s)" by (rule length_dropWhile_le)
  with 2 show ?case
    by (auto simp: u_def split: option.splits if_splits dest!: strip_prefix_length)
qed simp

lemma after_open_length: "after_open ns s = Some t \<Longrightarrow> length t < length s"
proof -
  assume "after_open ns s = Some t"
  then obtain a k rest where r: "strip_prefix (u ''<!--'') s = Some a"
    "strip_prefix (ns @ u '':origin'') (drop k a) = Some rest" "t = dropWhile is_ws rest"
    by (auto simp: after_open_def bind_eq_Some_conv split: if_splits)
  have "length (dropWhile is_ws rest) \<le> length rest" by (rule length_dropWhile_le)
  with r strip_prefix_length [OF r(1)] strip_prefix_length [OF r(2)] show ?thesis by (simp add: u_def)
qed

lemma marker_at_length: "marker_at ns s = Some (p, t) \<Longrightarrow> length t < length s"
  by (auto simp: marker_at_def bind_eq_Some_conv dest!: after_open_length payload_from_length)

text \<open>\<open>body.replace(markerRegex, '')\<close>\<close>

function remove_markers :: "ustring \<Rightarrow> ustring \<Rightarrow> ustring" where
  "remove_markers ns [] = []"
| "remove_markers ns (c # s) =
     (case marker_at ns (c # s) of
        Some (_, rest) \<Rightarrow> remove_markers ns rest
      | None \<Rightarrow> c # remove_markers ns s)"
  by pat_completeness auto
termination
  by (relation "measure (length \<circ> snd)") (auto dest: marker_at_length)

section \<open>The codec\<close>

text \<open>Fields joined by spaces; \<open>None\<close> when a value cannot be encoded.\<close>

definition field_text :: "string \<Rightarrow> ustring \<Rightarrow> ustring option" where
  "field_text key v = map_option (\<lambda>t. u key @ [61] @ t) (encodeURIComponent v)"

definition renderMarker :: "ustring \<Rightarrow> origin_ref \<Rightarrow> ustring option" where
  "renderMarker ns r =
     Option.bind (field_text ''system'' (or_system r)) (\<lambda>a.
     Option.bind (field_text ''kind'' (or_kind r)) (\<lambda>b.
     Option.bind (field_text ''id'' (or_id r)) (\<lambda>c.
       Some (u ''<!-- '' @ ns @ u '':origin '' @ (a @ [32] @ b @ [32] @ c) @ u '' -->''))))"

definition hasMarker :: "ustring \<Rightarrow> ustring \<Rightarrow> bool" where
  "hasMarker ns body \<longleftrightarrow> first_marker ns body \<noteq> None"

lemma next_word_shorter:
  assumes "dropWhile (\<lambda>c. \<not> is_ws c) s \<noteq> []"
  shows "length (dropWhile is_ws (dropWhile (\<lambda>c. \<not> is_ws c) s)) < length s"
proof -
  obtain a l where l: "dropWhile (\<lambda>c. \<not> is_ws c) s = a # l" using assms by (meson neq_Nil_conv)
  then have "is_ws a" using hd_dropWhile [OF assms] by simp
  then have "length (dropWhile is_ws (a # l)) < length (a # l)"
    using length_dropWhile_le [of is_ws l] by simp
  also have "length (a # l) \<le> length s" using length_dropWhile_le [of "\<lambda>c. \<not> is_ws c" s] l by simp
  finally show ?thesis using l by simp
qed

text \<open>\<open>payload.split(/\s+/)\<close>\<close>

function split_ws :: "ustring \<Rightarrow> ustring list" where
  "split_ws s =
     (let w = takeWhile (\<lambda>c. \<not> is_ws c) s; rest = dropWhile (\<lambda>c. \<not> is_ws c) s
      in if rest = [] then [w] else w # split_ws (dropWhile is_ws rest))"
  by pat_completeness auto
termination
  by (relation "measure length") (auto simp: next_word_shorter)

declare split_ws.simps [simp del]

fun read_pairs :: "(ustring, ustring) omap \<Rightarrow> ustring list \<Rightarrow> (ustring, ustring) omap option" where
  "read_pairs m [] = Some m"
| "read_pairs m (pair # pairs) =
     (let eq = length (takeWhile (\<lambda>c. c \<noteq> 61) pair)
      in if eq = length pair \<or> eq = 0 then read_pairs m pairs
         else case decodeURIComponent (drop (eq + 1) pair) of
                None \<Rightarrow> None
              | Some v \<Rightarrow> read_pairs (oset (take eq pair) v m) pairs)"

definition parseMarker :: "ustring \<Rightarrow> ustring \<Rightarrow> origin_ref option" where
  "parseMarker ns body =
     Option.bind (first_marker ns body) (\<lambda>payload.
     Option.bind (read_pairs [] (split_ws payload)) (\<lambda>m.
       case (oget m (u ''system''), oget m (u ''kind''), oget m (u ''id'')) of
         (Some s, Some k, Some i) \<Rightarrow> Some \<lparr>or_system = s, or_kind = k, or_id = i\<rparr>
       | _ \<Rightarrow> None))"

text \<open>\<open>replace(/\n{3,}/g, '\n\n')\<close> and \<open>trim()\<close>\<close>

function collapse_lines :: "ustring \<Rightarrow> ustring" where
  "collapse_lines [] = []"
| "collapse_lines (c # s) =
     (if c \<noteq> 10 then c # collapse_lines s
      else let n = length (takeWhile (\<lambda>c. c = 10) (c # s))
           in replicate (if n \<ge> 3 then 2 else n) 10 @ collapse_lines (dropWhile (\<lambda>c. c = 10) (c # s)))"
  by pat_completeness auto
termination
  by (relation "measure length") (auto simp: less_Suc_eq_le length_dropWhile_le)

definition u_trim :: "ustring \<Rightarrow> ustring" where
  "u_trim s = rev (dropWhile is_ws (rev (dropWhile is_ws s)))"

definition stripMarker :: "ustring \<Rightarrow> ustring \<Rightarrow> ustring" where
  "stripMarker ns body = u_trim (collapse_lines (remove_markers ns body))"

definition embedMarker :: "ustring \<Rightarrow> ustring \<Rightarrow> origin_ref \<Rightarrow> ustring option" where
  "embedMarker ns body r =
     (let base = stripMarker ns body
      in map_option (\<lambda>marker. if base \<noteq> [] then base @ [10, 10] @ marker else marker) (renderMarker ns r))"

section \<open>Lemmas: percent encoding\<close>

text \<open>Text without half surrogate pairs: a list of code points.\<close>

definition scalar :: "nat \<Rightarrow> bool" where
  "scalar p \<longleftrightarrow> p \<le> 1114111 \<and> \<not> is_high p \<and> \<not> is_low p"

definition utf16 :: "nat list \<Rightarrow> ustring" where
  "utf16 ps = concat (map units_of_point ps)"

definition well_formed :: "ustring \<Rightarrow> bool" where
  "well_formed s \<longleftrightarrow> (\<exists>ps. list_all scalar ps \<and> s = utf16 ps)"

lemma percent_byte_percent: "b < 256 \<Longrightarrow> percent_byte (percent b @ t) = Some (b, t)"
proof -
  assume "b < 256"
  then have "b div 16 < 16" "b mod 16 < 16" by auto
  moreover have "hex_digit_val (hex_upper d) = Some d" if "d < 16" for d
    using that by (auto simp: hex_digit_val_def hex_upper_def)
  ultimately show ?thesis by (simp add: percent_byte_def percent_def)
qed

definition encode_unit :: "nat \<Rightarrow> ustring" where
  "encode_unit p = (if unreserved p then [p] else encode_point p)"

lemma unreserved_ascii: "unreserved p \<Longrightarrow> p < 128 \<and> p \<noteq> 37"
  by (auto simp: unreserved_def)

lemma encode_units:
  assumes "scalar p"
  shows "encodeURIComponent (units_of_point p @ s) = map_option (\<lambda>t. encode_unit p @ t) (encodeURIComponent s)"
proof (cases "p < 65536")
  case True
  with assms show ?thesis
    by (cases s) (auto simp: units_of_point_def encode_unit_def scalar_def option.map_ident)
next
  case False
  define h l where "h = 55296 + (p - 65536) div 1024" and "l = 56320 + (p - 65536) mod 1024"
  have units: "units_of_point p = [h, l]" using False by (simp add: units_of_point_def h_def l_def)
  have "(p - 65536) div 1024 < 1024" using assms False by (auto simp: scalar_def)
  then have h: "is_high h" "\<not> unreserved h" "\<not> is_low h" by (auto simp: is_high_def is_low_def h_def unreserved_def)
  have l: "is_low l" by (simp add: is_low_def l_def)
  have "(h - 55296) * 1024 + (l - 56320) + 65536 = p"
    using False by (simp add: h_def l_def)
  moreover have "\<not> unreserved p" using False by (auto dest: unreserved_ascii)
  ultimately show ?thesis using h l by (simp add: units encode_unit_def)
qed

lemma encode_utf16: "list_all scalar ps \<Longrightarrow> encodeURIComponent (utf16 ps) = Some (concat (map encode_unit ps))"
proof (induction ps)
  case (Cons p ps)
  then show ?case using encode_units [of p "utf16 ps"] by (simp add: utf16_def)
qed (simp add: utf16_def)

lemma percent_point_ascii: "p < 128 \<Longrightarrow> percent_point (encode_point p @ t) = Some (units_of_point p, t)"
  by (simp add: percent_point_def encode_point_def utf8_bytes_def percent_byte_percent units_of_point_def)

lemma low_part: "x < m \<Longrightarrow> (k * m + x) div m = k" "x < m \<Longrightarrow> (k * m + x) mod m = (x :: nat)"
  by simp_all

lemma continuation_percent:
  "c < 64 \<Longrightarrow> continuation (Suc n) p (percent (128 + c) @ t) = continuation n (p * 64 + c) t"
proof -
  assume c: "c < 64"
  then have "(128 + c) div 64 = 2" "(128 + c) mod 64 = c" using low_part [of c 64 2] by simp_all
  with c show ?thesis by (simp add: percent_byte_percent)
qed

lemma percent_point_lead:
  assumes "b < 256" "128 \<le> b" "lead_byte b = Some (n, first, least)"
    "continuation n first t = Some (p, r)" "least \<le> p" "scalar p"
  shows "percent_point (percent b @ t) = Some (units_of_point p, r)"
  using assms by (simp add: percent_point_def percent_byte_percent scalar_def)

lemma percent_point_encode:
  assumes "scalar p"
  shows "percent_point (encode_point p @ t) = Some (units_of_point p, t)"
proof -
  have p: "p \<le> 1114111" using assms by (simp add: scalar_def)
  consider "p < 128" | "128 \<le> p" "p < 2048" | "2048 \<le> p" "p < 65536" | "65536 \<le> p" by linarith
  then show ?thesis
  proof cases
    case 1
    then show ?thesis by (rule percent_point_ascii)
  next
    case 2
    then have q: "p div 64 < 32" by auto
    have "encode_point p @ t = percent (192 + p div 64) @ percent (128 + p mod 64) @ t"
      using 2 by (simp add: encode_point_def utf8_bytes_def)
    moreover have "continuation 1 (p div 64) (percent (128 + p mod 64) @ t) = Some (p, t)"
      using continuation_percent [of "p mod 64" 0 "p div 64" t] by simp
    moreover have "lead_byte (192 + p div 64) = Some (1, p div 64, 128)"
      using low_part [OF q, of 6] by (simp add: lead_byte_def)
    ultimately show ?thesis
      using percent_point_lead [OF _ _ _ _ _ assms, of "192 + p div 64" 1 "p div 64" 128] q 2
      by (simp del: One_nat_def continuation.simps)
  next
    case 3
    then have q: "p div 4096 < 16" by auto
    have parts: "p div 4096 * 64 + p div 64 mod 64 = p div 64"
      using div_mult_mod_eq [of "p div 64" 64] by (simp add: div_mult2_eq [symmetric])
    have "encode_point p @ t =
        percent (224 + p div 4096) @ percent (128 + p div 64 mod 64) @ percent (128 + p mod 64) @ t"
      using 3 by (simp add: encode_point_def utf8_bytes_def)
    moreover have "continuation 2 (p div 4096) (percent (128 + p div 64 mod 64) @ percent (128 + p mod 64) @ t) = Some (p, t)"
      using continuation_percent [of "p div 64 mod 64" 1 "p div 4096"]
        continuation_percent [of "p mod 64" 0 "p div 64" t] parts
      by (simp add: numeral_2_eq_2)
    moreover have "lead_byte (224 + p div 4096) = Some (2, p div 4096, 2048)"
      using q low_part [OF q, of 14] low_part [of "p div 4096" 32 7] by (simp add: lead_byte_def)
    ultimately show ?thesis
      using percent_point_lead [OF _ _ _ _ _ assms, of "224 + p div 4096" 2 "p div 4096" 2048] q 3 by simp
  next
    case 4
    then have q: "p div 262144 < 8" using p by auto
    have parts: "p div 262144 * 64 + p div 4096 mod 64 = p div 4096"
      "p div 4096 * 64 + p div 64 mod 64 = p div 64"
      using div_mult_mod_eq [of "p div 4096" 64] div_mult_mod_eq [of "p div 64" 64]
      by (simp_all add: div_mult2_eq [symmetric])
    have "encode_point p @ t = percent (240 + p div 262144) @ percent (128 + p div 4096 mod 64)
        @ percent (128 + p div 64 mod 64) @ percent (128 + p mod 64) @ t"
      using 4 by (simp add: encode_point_def utf8_bytes_def)
    moreover have "continuation 3 (p div 262144) (percent (128 + p div 4096 mod 64)
        @ percent (128 + p div 64 mod 64) @ percent (128 + p mod 64) @ t) = Some (p, t)"
      using continuation_percent [of "p div 4096 mod 64" 2 "p div 262144"]
        continuation_percent [of "p div 64 mod 64" 1 "p div 4096"]
        continuation_percent [of "p mod 64" 0 "p div 64" t] parts
      by (simp add: numeral_2_eq_2 numeral_3_eq_3)
    moreover have "lead_byte (240 + p div 262144) = Some (3, p div 262144, 65536)"
      using q low_part [OF q, of 30] low_part [of "p div 262144" 16 15] low_part [of "16 + p div 262144" 32 7]
      by (simp add: lead_byte_def)
    ultimately show ?thesis
      using percent_point_lead [OF _ _ _ _ _ assms, of "240 + p div 262144" 3 "p div 262144" 65536] q 4 by simp
  qed
qed

lemma decode_unit:
  assumes "scalar p"
  shows "decodeURIComponent (encode_unit p @ t) =
    map_option (\<lambda>r. units_of_point p @ r) (decodeURIComponent t)"
proof (cases "unreserved p")
  case True
  then show ?thesis by (auto simp: encode_unit_def units_of_point_def dest: unreserved_ascii)
next
  case False
  obtain s where s: "encode_point p @ t = 37 # s"
  proof -
    obtain b bs where "utf8_bytes p = b # bs"
      by (cases "utf8_bytes p") (auto simp: utf8_bytes_def split: if_splits)
    then have "encode_point p @ t = 37 # hex_upper (b div 16) # hex_upper (b mod 16) # concat (map percent bs) @ t"
      by (simp add: encode_point_def percent_def)
    then show ?thesis by (rule that)
  qed
  with percent_point_encode [OF assms, of t] have "percent_point (37 # s) = Some (units_of_point p, t)" by simp
  then show ?thesis using False s by (simp add: encode_unit_def)
qed

text \<open>ASCII characters that neither end a field nor a marker.\<close>

definition safe :: "nat \<Rightarrow> bool" where
  "safe c \<longleftrightarrow> \<not> is_ws c \<and> c \<noteq> 61 \<and> c \<noteq> 62 \<and> c < 128"

lemma safe_hex: "d < 16 \<Longrightarrow> safe (hex_upper d)"
  by (auto simp: safe_def is_ws_def hex_upper_def)

lemma safe_percent: "b < 256 \<Longrightarrow> list_all safe (percent b)"
  by (simp add: percent_def safe_hex) (simp add: safe_def is_ws_def)

lemma safe_encode_unit: "scalar p \<Longrightarrow> list_all safe (encode_unit p)"
proof (cases "unreserved p")
  case True
  then show ?thesis by (auto simp: encode_unit_def safe_def is_ws_def unreserved_def)
next
  case False
  assume "scalar p"
  then have "list_all (\<lambda>b. b < 256) (utf8_bytes p)"
    by (auto simp: utf8_bytes_def scalar_def)
  then have "list_all (\<lambda>s. list_all safe s) (map percent (utf8_bytes p))"
    by (auto simp: list_all_iff intro!: safe_percent [unfolded list_all_iff, rule_format])
  then show ?thesis using False by (auto simp: encode_unit_def encode_point_def list_all_iff)
qed

lemma encode_decode:
  assumes "well_formed s"
  shows "\<exists>e. encodeURIComponent s = Some e \<and> decodeURIComponent e = Some s \<and> list_all safe e"
proof -
  from assms obtain ps where ps: "list_all scalar ps" "s = utf16 ps" by (auto simp: well_formed_def)
  have "decodeURIComponent (concat (map encode_unit ps)) = Some (utf16 ps)"
    using ps(1) by (induction ps) (simp_all add: decode_unit utf16_def)
  moreover have "list_all safe (concat (map encode_unit ps))"
    using ps(1) safe_encode_unit by (induction ps) simp_all
  ultimately show ?thesis using encode_utf16 [OF ps(1)] ps(2) by simp
qed

lemma well_formed_u: "well_formed (u s)"
proof -
  have small: "scalar n \<and> units_of_point n = [n]" if "n < 256" for n
    using that by (simp add: scalar_def is_high_def is_low_def units_of_point_def)
  have "(of_char c :: nat) < 256" for c by simp
  with small have "scalar (of_char c)" "units_of_point (of_char c) = [of_char c]" for c by blast+
  then have "list_all scalar (u s)" "u s = utf16 (u s)"
    by (auto simp: u_def list_all_iff utf16_def comp_def)
  then show ?thesis unfolding well_formed_def by blast
qed

section \<open>Lemmas: finding a marker\<close>

lemmas units = u_def

definition ns_ok :: "ustring \<Rightarrow> bool" where
  "ns_ok ns \<longleftrightarrow> ns \<noteq> [] \<and> \<not> is_ws (hd ns)"

text \<open>Whether a text has the start of a comment.\<close>

fun opens_comment :: "ustring \<Rightarrow> bool" where
  "opens_comment [] = False"
| "opens_comment (c # s) = (take 4 (c # s) = u ''<!--'' \<or> opens_comment s)"

lemma u_literals:
  "u ''<!--'' = [60, 33, 45, 45]" "u ''-->'' = [45, 45, 62]" "u ''<!-- '' = [60, 33, 45, 45, 32]"
  "u '':origin '' = u '':origin'' @ [32]" "u '' -->'' = [32, 45, 45, 62]"
  by (simp_all add: u_def)

lemma is_ws_simps [simp]: "is_ws 32" "is_ws 10" "\<not> is_ws 45" "\<not> is_ws 60" "\<not> is_ws 61" "\<not> is_ws 62" "\<not> is_ws 58"
  by (simp_all add: is_ws_def)

lemma strip_prefix_same [simp]: "strip_prefix p (p @ s) = Some s"
  by (simp add: strip_prefix_eq)

lemma strip_prefix_None: "strip_prefix p s = None \<longleftrightarrow> (\<forall>t. s \<noteq> p @ t)"
  by (metis strip_prefix_eq option.exhaust option.distinct(1))

lemma after_open_marker:
  assumes "ns_ok ns" "f \<noteq> []" "\<not> is_ws (hd f)"
  shows "after_open ns (u ''<!-- '' @ ns @ u '':origin '' @ f) = Some f"
proof -
  let ?p = "ns @ u '':origin''" and ?t = "32 # ns @ u '':origin'' @ 32 # f"
  have "takeWhile is_ws ?t = [32]" using assms(1) by (cases ns) (auto simp: ns_ok_def)
  moreover have "rev [0..<length [32::nat] + 1] = [1, 0]" by code_simp
  ultimately have candidates: "rev [0..<length (takeWhile is_ws ?t) + 1] = [1, 0]" by metis
  have "u ''<!-- '' @ ns @ u '':origin '' @ f = u ''<!--'' @ ?t" by (simp add: u_literals)
  then have first: "strip_prefix (u ''<!--'') (u ''<!-- '' @ ns @ u '':origin '' @ f) = Some ?t"
    by (simp only: strip_prefix_same)
  have second: "strip_prefix ?p (drop 1 ?t) = Some (32 # f)" by (simp add: strip_prefix_eq)
  then have "List.find (\<lambda>k. strip_prefix ?p (drop k ?t) \<noteq> None) [1, 0] = Some 1" by simp
  moreover have "dropWhile is_ws (32 # f) = f" using assms(2,3) by (cases f) auto
  ultimately show ?thesis
    unfolding after_open_def first bind.bind_lunit candidates by (simp only: bind.bind_lunit second) simp
qed

lemma not_end: "f \<noteq> [] \<Longrightarrow> 62 \<notin> set f \<Longrightarrow> strip_prefix (u ''-->'') (f @ 32 # t) = None"
  by (auto simp: strip_prefix_None u_literals append_eq_Cons_conv Cons_eq_append_conv)

lemma payload_marker:
  "62 \<notin> set f \<Longrightarrow> (f \<noteq> [] \<Longrightarrow> \<not> is_ws (last f)) \<Longrightarrow>
    payload_from acc (f @ u '' -->'' @ t) = Some (acc @ f, t)"
proof (induction f arbitrary: acc)
  case Nil
  have "dropWhile is_ws (u '' -->'' @ t) = u ''-->'' @ t" by (simp add: u_literals)
  then show ?case by (simp add: u_literals strip_prefix_def)
next
  case (Cons c f)
  let ?rest = "dropWhile is_ws (c # f @ u '' -->'' @ t)"
  have "\<exists>x \<in> set (c # f). \<not> is_ws x" using Cons.prems(2) by (intro bexI [of _ "last (c # f)"]) auto
  then have "?rest = dropWhile is_ws (c # f) @ u '' -->'' @ t" "dropWhile is_ws (c # f) \<noteq> []"
    using dropWhile_append1 [of _ "c # f" is_ws "u '' -->'' @ t"] by (auto simp: dropWhile_eq_Nil_conv)
  moreover have "62 \<notin> set (dropWhile is_ws (c # f))" using Cons.prems(1) by (auto dest: set_dropWhileD)
  ultimately have "strip_prefix (u ''-->'') ?rest = None"
    using not_end [of "dropWhile is_ws (c # f)" "[45, 45, 62] @ t"] by (simp add: u_literals)
  moreover have "payload_from (acc @ [c]) (f @ u '' -->'' @ t) = Some ((acc @ [c]) @ f, t)"
    using Cons.prems by (intro Cons.IH) (auto split: if_splits)
  ultimately show ?case using Cons.prems(1) by simp
qed

lemma marker_at_marker:
  assumes "ns_ok ns" "f \<noteq> []" "\<not> is_ws (hd f)" "\<not> is_ws (last f)" "62 \<notin> set f"
  shows "marker_at ns (u ''<!-- '' @ ns @ u '':origin '' @ f @ u '' -->'' @ t) = Some (f, t)"
proof -
  have "after_open ns (u ''<!-- '' @ ns @ u '':origin '' @ (f @ u '' -->'' @ t)) = Some (f @ u '' -->'' @ t)"
    using assms(2,3) by (intro after_open_marker [OF assms(1)]) simp_all
  with payload_marker [of f "[]" t] assms(4,5) show ?thesis by (simp add: marker_at_def)
qed

lemma no_marker_at:
  assumes "\<not> opens_comment (c # s)"
  shows "marker_at ns ((c # s) @ 10 # t) = None"
proof -
  have "take 4 (c # s) \<noteq> [60, 33, 45, 45]" using assms(1) by (simp add: u_literals)
  then have "strip_prefix (u ''<!--'') ((c # s) @ 10 # t) = None"
    by (auto simp: strip_prefix_None u_literals append_eq_Cons_conv Cons_eq_append_conv)
  then show ?thesis by (simp add: marker_at_def after_open_def)
qed

lemma marker_at_line: "marker_at ns (10 # s) = None"
  by (auto simp: marker_at_def after_open_def strip_prefix_None u_literals bind_eq_None_conv)

lemma first_marker_after:
  "\<not> opens_comment b \<Longrightarrow> first_marker ns (b @ 10 # t) = first_marker ns (10 # t)"
proof (induction b)
  case (Cons c b)
  then show ?case using no_marker_at [of c b ns t] by simp
qed simp

lemma remove_markers_after:
  "\<not> opens_comment b \<Longrightarrow> remove_markers ns (b @ 10 # t) = b @ remove_markers ns (10 # t)"
proof (induction b)
  case (Cons c b)
  then show ?case using no_marker_at [of c b ns t] by simp
qed simp

text \<open>A body made of visible text, a blank line and a marker; or of the marker alone.\<close>

definition marked :: "ustring \<Rightarrow> ustring \<Rightarrow> ustring \<Rightarrow> ustring" where
  "marked ns b f =
     (if b \<noteq> [] then b @ [10, 10] else []) @ u ''<!-- '' @ ns @ u '':origin '' @ f @ u '' -->''"

lemma first_marker_marked:
  assumes "ns_ok ns" "f \<noteq> []" "\<not> is_ws (hd f)" "\<not> is_ws (last f)" "62 \<notin> set f" "\<not> opens_comment b"
  shows "first_marker ns (marked ns b f) = Some f" "remove_markers ns (marked ns b f) = (if b \<noteq> [] then b @ [10, 10] else [])"
proof -
  let ?m = "u ''<!-- '' @ ns @ u '':origin '' @ f @ u '' -->''"
  have at: "marker_at ns ?m = Some (f, [])"
    using marker_at_marker [OF assms(1-5), of "[]"] by simp
  obtain c m where m: "?m = c # m" by (simp add: u_literals)
  with at have "first_marker ns ?m = Some f" "remove_markers ns ?m = []" by simp_all
  then show "first_marker ns (marked ns b f) = Some f"
    "remove_markers ns (marked ns b f) = (if b \<noteq> [] then b @ [10, 10] else [])"
    using first_marker_after [OF assms(6), of ns "10 # ?m"] remove_markers_after [OF assms(6), of ns "10 # ?m"]
    by (auto simp: marked_def marker_at_line)
qed

section \<open>Lemmas: reading a marker\<close>

lemma split_ws_word: "list_all (\<lambda>c. \<not> is_ws c) w \<Longrightarrow> split_ws w = [w]"
  by (subst split_ws.simps) (auto simp: list_all_iff dropWhile_eq_Nil_conv takeWhile_eq_all_conv)

lemma split_ws_Cons:
  assumes "list_all (\<lambda>c. \<not> is_ws c) w" "v \<noteq> []" "\<not> is_ws (hd v)"
  shows "split_ws (w @ 32 # v) = w # split_ws v"
proof -
  have "takeWhile (\<lambda>c. \<not> is_ws c) (w @ 32 # v) = w" "dropWhile (\<lambda>c. \<not> is_ws c) (w @ 32 # v) = 32 # v"
    using assms(1) by (simp_all add: list_all_iff takeWhile_append dropWhile_append)
  moreover have "dropWhile is_ws (32 # v) = v" using assms(2,3) by (cases v) auto
  ultimately show ?thesis by (subst split_ws.simps) (simp add: Let_def)
qed

definition field :: "string \<Rightarrow> ustring \<Rightarrow> ustring" where
  "field key e = u key @ [61] @ e"

definition key_ok :: "string \<Rightarrow> bool" where
  "key_ok key \<longleftrightarrow> key \<noteq> [] \<and> list_all safe (u key)"

lemma keys_ok: "key_ok ''system''" "key_ok ''kind''" "key_ok ''id''"
  by (simp_all add: key_ok_def u_def safe_def is_ws_def)

lemma field_props:
  assumes "key_ok key" "list_all safe e"
  shows "list_all (\<lambda>c. \<not> is_ws c) (field key e)" "field key e \<noteq> []" "\<not> is_ws (hd (field key e))"
    "\<not> is_ws (last (field key e))" "62 \<notin> set (field key e)"
  using assms
  by (auto simp: field_def key_ok_def u_def list_all_iff safe_def hd_append last_append hd_map)

lemma read_field:
  assumes "key_ok key" "decodeURIComponent e = Some v"
  shows "read_pairs m (field key e # pairs) = read_pairs (oset (u key) v m) pairs"
proof -
  have "takeWhile (\<lambda>c. c \<noteq> 61) (field key e) = u key"
    using assms(1) by (auto simp: field_def key_ok_def list_all_iff safe_def takeWhile_append)
  moreover have "length (u key) \<noteq> 0" using assms(1) by (simp add: key_ok_def u_def)
  ultimately show ?thesis using assms(2) by (simp add: field_def Let_def)
qed

lemma renderMarker_fields:
  assumes "well_formed (or_system r)" "well_formed (or_kind r)" "well_formed (or_id r)"
  shows "\<exists>a b c. renderMarker ns r = Some (u ''<!-- '' @ ns @ u '':origin ''
      @ (field ''system'' a @ 32 # field ''kind'' b @ 32 # field ''id'' c) @ u '' -->'')
    \<and> list_all safe a \<and> list_all safe b \<and> list_all safe c
    \<and> decodeURIComponent a = Some (or_system r) \<and> decodeURIComponent b = Some (or_kind r)
    \<and> decodeURIComponent c = Some (or_id r)"
proof -
  obtain a b c where "encodeURIComponent (or_system r) = Some a" "encodeURIComponent (or_kind r) = Some b"
    "encodeURIComponent (or_id r) = Some c" "list_all safe a" "list_all safe b" "list_all safe c"
    "decodeURIComponent a = Some (or_system r)" "decodeURIComponent b = Some (or_kind r)"
    "decodeURIComponent c = Some (or_id r)"
    using encode_decode [OF assms(1)] encode_decode [OF assms(2)] encode_decode [OF assms(3)] by auto
  then show ?thesis
    by (intro exI [of _ a] exI [of _ b] exI [of _ c]) (simp add: renderMarker_def field_text_def field_def)
qed

lemma parse_marked:
  assumes "ns_ok ns" "\<not> opens_comment base"
    "list_all safe a" "list_all safe b" "list_all safe c"
    "decodeURIComponent a = Some s" "decodeURIComponent b = Some k" "decodeURIComponent c = Some i"
  defines "f \<equiv> field ''system'' a @ 32 # field ''kind'' b @ 32 # field ''id'' c"
  shows "parseMarker ns (marked ns base f) = Some \<lparr>or_system = s, or_kind = k, or_id = i\<rparr>"
    "remove_markers ns (marked ns base f) = (if base \<noteq> [] then base @ [10, 10] else [])"
proof -
  note sys = field_props [OF keys_ok(1) assms(3)] and kind = field_props [OF keys_ok(2) assms(4)]
    and ident = field_props [OF keys_ok(3) assms(5)]
  have f: "f \<noteq> []" "\<not> is_ws (hd f)" "\<not> is_ws (last f)" "62 \<notin> set f"
    using sys kind ident by (simp_all add: f_def)
  have words: "split_ws f = [field ''system'' a, field ''kind'' b, field ''id'' c]"
    unfolding f_def using sys kind ident by (simp add: split_ws_Cons split_ws_word)
  have pairs: "read_pairs [] (split_ws f) = Some [(u ''system'', s), (u ''kind'', k), (u ''id'', i)]"
    unfolding words read_field [OF keys_ok(1) assms(6)] read_field [OF keys_ok(2) assms(7)]
      read_field [OF keys_ok(3) assms(8)]
    by (simp add: u_def)
  show "parseMarker ns (marked ns base f) = Some \<lparr>or_system = s, or_kind = k, or_id = i\<rparr>"
    using first_marker_marked(1) [OF assms(1) f assms(2)] pairs by (simp add: parseMarker_def u_def)
  show "remove_markers ns (marked ns base f) = (if base \<noteq> [] then base @ [10, 10] else [])"
    by (rule first_marker_marked(2) [OF assms(1) f assms(2)])
qed

section \<open>Lemmas: visible text\<close>

text \<open>No three line feeds in a row.\<close>

fun no_triple :: "ustring \<Rightarrow> bool" where
  "no_triple (a # b # c # s) = (\<not> (a = 10 \<and> b = 10 \<and> c = 10) \<and> no_triple (b # c # s))"
| "no_triple s = True"

lemma no_triple_run: "no_triple s \<Longrightarrow> length (takeWhile (\<lambda>c. c = 10) s) \<le> 2"
  by (induction s rule: no_triple.induct) auto

lemma no_triple_tl: "no_triple (c # s) \<Longrightarrow> no_triple s"
  by (cases s rule: no_triple.cases) auto

lemma no_triple_Cons: "c \<noteq> 10 \<Longrightarrow> no_triple s \<Longrightarrow> no_triple (c # s)"
  by (cases s rule: no_triple.cases) auto

lemma no_triple_suffix: "no_triple (a @ b) \<Longrightarrow> no_triple b"
  by (induction a) (auto dest: no_triple_tl)

lemma no_triple_prefix: "no_triple (a @ b) \<Longrightarrow> no_triple a"
  by (induction a rule: no_triple.induct) auto

lemma no_triple_run_front: "m \<le> 2 \<Longrightarrow> no_triple s \<Longrightarrow> s = [] \<or> hd s \<noteq> 10 \<Longrightarrow> no_triple (replicate m 10 @ s)"
proof -
  assume m: "m \<le> 2" and s: "no_triple s" "s = [] \<or> hd s \<noteq> 10"
  from m consider "m = 0" | "m = 1" | "m = 2" by linarith
  then show ?thesis using s by cases (cases s rule: no_triple.cases; auto simp: numeral_2_eq_2)+
qed

lemma run_eq: "takeWhile (\<lambda>c. c = x) s = replicate (length (takeWhile (\<lambda>c. c = x) s)) x"
  by (rule replicate_length_same [symmetric]) (auto dest: set_takeWhileD)

lemma collapse_lines_id: "no_triple s \<Longrightarrow> collapse_lines s = s"
proof (induction s rule: collapse_lines.induct)
  case (2 c s)
  show ?case
  proof (cases "c = 10")
    case True
    let ?n = "length (takeWhile (\<lambda>c. c = 10) (c # s))"
    have n: "?n \<le> 2" using no_triple_run [OF "2.prems"] .
    have whole: "replicate ?n 10 @ dropWhile (\<lambda>c. c = 10) (c # s) = c # s"
      using run_eq [of 10 "c # s"] by (metis takeWhile_dropWhile_id)
    have "no_triple (dropWhile (\<lambda>c. c = 10) (c # s))"
      using "2.prems" no_triple_suffix whole by metis
    then have "collapse_lines (dropWhile (\<lambda>c. c = 10) (c # s)) = dropWhile (\<lambda>c. c = 10) (c # s)"
      using "2.IH"(2) True by simp
    then show ?thesis using n whole True by (simp add: Let_def)
  next
    case False
    then show ?thesis using "2.IH"(1) no_triple_tl [OF "2.prems"] by simp
  qed
qed simp

lemma collapse_lines_hd: "s \<noteq> [] \<Longrightarrow> hd s \<noteq> 10 \<Longrightarrow> collapse_lines s \<noteq> [] \<and> hd (collapse_lines s) \<noteq> 10"
  by (cases s) auto

lemma no_triple_collapse: "no_triple (collapse_lines s)"
proof (induction s rule: collapse_lines.induct)
  case (2 c s)
  show ?case
  proof (cases "c = 10")
    case True
    let ?rest = "dropWhile (\<lambda>c. c = 10) (c # s)"
    have "?rest = [] \<or> hd ?rest \<noteq> 10" using hd_dropWhile [of "\<lambda>c. c = 10" "c # s"] by blast
    then have rest: "collapse_lines ?rest = [] \<or> hd (collapse_lines ?rest) \<noteq> 10"
      using collapse_lines_hd [of ?rest] by (metis collapse_lines.simps(1))
    have "no_triple (collapse_lines ?rest)" using "2.IH"(2) True by simp
    from no_triple_run_front [OF _ this rest] show ?thesis using True by (simp add: Let_def)
  next
    case False
    then show ?thesis using "2.IH"(1) by (simp add: no_triple_Cons)
  qed
qed simp

definition trimmed :: "ustring \<Rightarrow> bool" where
  "trimmed s \<longleftrightarrow> s = [] \<or> (\<not> is_ws (hd s) \<and> \<not> is_ws (last s))"

lemma u_trim_parts: "\<exists>a b. s = a @ u_trim s @ b \<and> list_all is_ws a \<and> list_all is_ws b"
proof -
  let ?t = "dropWhile is_ws s"
  have "s = takeWhile is_ws s @ ?t" by simp
  moreover have "?t = rev (dropWhile is_ws (rev ?t)) @ rev (takeWhile is_ws (rev ?t))"
    by (metis rev_append rev_rev_ident takeWhile_dropWhile_id)
  moreover have "list_all is_ws (takeWhile is_ws s)" "list_all is_ws (rev (takeWhile is_ws (rev ?t)))"
    by (auto simp: list_all_iff dest: set_takeWhileD)
  ultimately show ?thesis unfolding u_trim_def by metis
qed

lemma trimmed_u_trim: "trimmed (u_trim s)"
proof -
  let ?t = "dropWhile is_ws s"
  let ?r = "dropWhile is_ws (rev ?t)"
  have "\<not> is_ws (last (u_trim s))" if "u_trim s \<noteq> []"
    using that hd_dropWhile [of is_ws "rev ?t"] by (simp add: u_trim_def last_rev)
  moreover have "\<not> is_ws (hd (u_trim s))" if "u_trim s \<noteq> []"
  proof -
    obtain p where "rev ?t = p @ ?r" by (metis takeWhile_dropWhile_id)
    then have "?t = rev ?r @ rev p" by (metis rev_append rev_rev_ident)
    moreover have "?t \<noteq> []" using that by (intro notI) (simp add: u_trim_def)
    ultimately show ?thesis using that hd_dropWhile [of is_ws s] by (metis hd_append2 u_trim_def)
  qed
  ultimately show ?thesis by (auto simp: trimmed_def)
qed

lemma u_trim_append: "trimmed s \<Longrightarrow> list_all is_ws t \<Longrightarrow> u_trim (s @ t) = s"
proof (cases "s = []")
  case True
  assume "list_all is_ws t"
  with True show ?thesis by (auto simp: u_trim_def list_all_iff dest: set_dropWhileD)
next
  case False
  assume s: "trimmed s" and t: "list_all is_ws t"
  then have "dropWhile is_ws (s @ t) = s @ t" using False by (cases s) (auto simp: trimmed_def)
  moreover have "dropWhile is_ws (rev t @ rev s) = dropWhile is_ws (rev s)"
    using t by (intro dropWhile_append2) (auto simp: list_all_iff)
  moreover have "dropWhile is_ws (rev s) = rev s"
    using s False by (cases s rule: rev_cases) (auto simp: trimmed_def)
  ultimately show ?thesis by (simp add: u_trim_def)
qed

lemma stripMarker_visible: "trimmed (stripMarker ns body)" "no_triple (stripMarker ns body)"
proof -
  show "trimmed (stripMarker ns body)" unfolding stripMarker_def by (rule trimmed_u_trim)
  obtain a b where "collapse_lines (remove_markers ns body) = a @ stripMarker ns body @ b"
    using u_trim_parts [of "collapse_lines (remove_markers ns body)"] by (auto simp: stripMarker_def)
  with no_triple_collapse [of "remove_markers ns body"] show "no_triple (stripMarker ns body)"
    by (metis no_triple_prefix no_triple_suffix)
qed

lemma no_triple_two: "no_triple s \<Longrightarrow> s = [] \<or> last s \<noteq> 10 \<Longrightarrow> no_triple (s @ [10, 10])"
  by (induction s rule: no_triple.induct) auto

lemma strip_visible:
  assumes "trimmed base" "no_triple base"
  shows "u_trim (collapse_lines (if base \<noteq> [] then base @ [10, 10] else [])) = base"
proof (cases "base = []")
  case False
  with assms(1) have "last base \<noteq> 10" by (auto simp: trimmed_def)
  with assms(2) have "collapse_lines (base @ [10, 10]) = base @ [10, 10]"
    by (intro collapse_lines_id no_triple_two) auto
  with False u_trim_append [OF assms(1), of "[10, 10]"] show ?thesis by simp
qed (simp add: u_trim_def)

lemma embed_marked:
  assumes "ns_ok ns" "\<not> opens_comment (stripMarker ns body)"
    "well_formed (or_system r)" "well_formed (or_kind r)" "well_formed (or_id r)"
  shows "\<exists>t. embedMarker ns body r = Some t \<and> parseMarker ns t = Some r
    \<and> stripMarker ns t = stripMarker ns body"
proof -
  let ?base = "stripMarker ns body"
  from renderMarker_fields [OF assms(3-5), of ns] obtain a b c where m:
    "renderMarker ns r = Some (u ''<!-- '' @ ns @ u '':origin ''
      @ (field ''system'' a @ 32 # field ''kind'' b @ 32 # field ''id'' c) @ u '' -->'')"
    "list_all safe a" "list_all safe b" "list_all safe c"
    "decodeURIComponent a = Some (or_system r)" "decodeURIComponent b = Some (or_kind r)"
    "decodeURIComponent c = Some (or_id r)" by blast
  let ?f = "field ''system'' a @ 32 # field ''kind'' b @ 32 # field ''id'' c"
  note p = parse_marked [OF assms(1,2) m(2-7)]
  have "embedMarker ns body r = Some (marked ns ?base ?f)"
    using m(1) by (simp add: embedMarker_def marked_def Let_def)
  moreover have "stripMarker ns (marked ns ?base ?f) = ?base"
    unfolding stripMarker_def [of ns "marked ns ?base ?f"] p(2)
    by (rule strip_visible) (rule stripMarker_visible)+
  ultimately show ?thesis using p(1) by simp
qed

section \<open>Properties\<close>

text \<open>
  C20. A copy keeps its origin and its text. For any reference whose parts are well-formed
  UTF-16 (percent encoding loses nothing, whatever they contain), any namespace that is not
  empty and starts with no space, and any body whose visible text opens no comment, the body with the embedded marker is recognised as marked, gives the
  reference back, and has the same visible text; so embedding twice leaves one marker.
\<close>
theorem marker_roundtrip:
  assumes "ns_ok ns" "\<not> opens_comment (stripMarker ns body)"
    "well_formed (or_system r)" "well_formed (or_kind r)" "well_formed (or_id r)"
  shows "\<exists>t. embedMarker ns body r = Some t \<and> hasMarker ns t \<and> parseMarker ns t = Some r
    \<and> stripMarker ns t = stripMarker ns body \<and> embedMarker ns t r = Some t"
proof -
  from embed_marked [OF assms] obtain t where t: "embedMarker ns body r = Some t"
    "parseMarker ns t = Some r" "stripMarker ns t = stripMarker ns body" by blast
  have "embedMarker ns t r = embedMarker ns body r" by (simp add: embedMarker_def t(3))
  moreover have "hasMarker ns t" using t(2) by (auto simp: hasMarker_def parseMarker_def bind_eq_Some_conv)
  ultimately show ?thesis using t by simp
qed

text \<open>An emoji (two code units), a letter with an accent, a space and a percent sign.\<close>

definition sample_ref :: origin_ref where
  "sample_ref = \<lparr>or_system = [55357, 56832, 233, 32, 37], or_kind = u ''issue'', or_id = u ''7''\<rparr>"

theorem marker_roundtrip_witness:
  "\<exists>t. embedMarker DEFAULT_NAMESPACE (u ''Hello'') sample_ref = Some t
    \<and> parseMarker DEFAULT_NAMESPACE t = Some sample_ref"
proof -
  have sys: "well_formed (or_system sample_ref)" unfolding well_formed_def
    by (rule exI [of _ "[128512, 233, 32, 37]"]) code_simp
  have "well_formed (or_kind sample_ref)" "well_formed (or_id sample_ref)"
    by (simp_all add: sample_ref_def well_formed_u)
  moreover have "ns_ok DEFAULT_NAMESPACE" "\<not> opens_comment (stripMarker DEFAULT_NAMESPACE (u ''Hello''))" by code_simp+
  ultimately show ?thesis using marker_roundtrip [of DEFAULT_NAMESPACE "u ''Hello''" sample_ref] sys by blast
qed

text \<open>
  The condition on the visible text is needed. After a body that ends in an unfinished
  marker, the embedded one is not read back: the unfinished comment takes it up as its
  payload, and one malformed escape in it makes the copy look like an original.
\<close>
lemma unfinished_marker_hides_origin:
  "\<exists>t. embedMarker DEFAULT_NAMESPACE (u ''Broken <!-- devonian:origin a=%'') sample_ref = Some t
    \<and> hasMarker DEFAULT_NAMESPACE t \<and> parseMarker DEFAULT_NAMESPACE t = None"
proof -
  have "case embedMarker DEFAULT_NAMESPACE (u ''Broken <!-- devonian:origin a=%'') sample_ref of
      None \<Rightarrow> False | Some t \<Rightarrow> hasMarker DEFAULT_NAMESPACE t \<and> parseMarker DEFAULT_NAMESPACE t = None"
    by code_simp
  then show ?thesis by (auto split: option.splits)
qed

end
