(* ===== verification/Dv_Index.thy ===== *)
theory Dv_Index
  imports Prelude
begin

text \<open>
  Devonian's index of identifiers across platforms (\<^verbatim>\<open>src/devonian/src/DevonianIndex.ts\<close>).

  An entity of a model is a row of identifiers by platform; \<open>index\<close> finds the row from an
  identifier. An object is an insertion-ordered map whose keys are strings, so an identifier
  used as a key is its text. A \<open>TypeError\<close> leaves the changes made before it in place:
  \<open>storeIdentitiesFrom\<close> returns the state together with whether it threw.
\<close>

datatype ext_id = IdStr string | IdNum int

definition id_text :: "ext_id \<Rightarrow> string" where
  "id_text i = (case i of IdStr s \<Rightarrow> s | IdNum n \<Rightarrow> int_str n)"

type_synonym identifier_map = "(string, ext_id) omap"

record index_state =
  ids :: "(string, identifier_map list) omap"
  index :: "(string, (string, (string, nat) omap) omap) omap"

definition new_index :: index_state where
  "new_index = \<lparr>ids = [], index = []\<rparr>"

definition rows_of :: "index_state \<Rightarrow> string \<Rightarrow> identifier_map list" where
  "rows_of st model = (case oget (ids st) model of None \<Rightarrow> [] | Some rs \<Rightarrow> rs)"

text \<open>\<open>this.index[model]?.[platform]?.[id]\<close>\<close>

definition index_at :: "index_state \<Rightarrow> string \<Rightarrow> string \<Rightarrow> ext_id \<Rightarrow> nat option" where
  "index_at st model platform i =
     Option.bind (oget (index st) model) (\<lambda>m.
     Option.bind (oget m platform) (\<lambda>p. oget p (id_text i)))"

fun first_known :: "index_state \<Rightarrow> string \<Rightarrow> identifier_map \<Rightarrow> nat option" where
  "first_known st model [] = None"
| "first_known st model ((platform, i) # rest) =
     (case index_at st model platform i of
        Some n \<Rightarrow> Some n | None \<Rightarrow> first_known st model rest)"

definition lookupIndexFrom ::
  "index_state \<Rightarrow> string \<Rightarrow> string \<Rightarrow> ext_id \<Rightarrow> identifier_map \<Rightarrow> nat option" where
  "lookupIndexFrom st model platform localId foreignIds =
     (case index_at st model platform localId of
        Some n \<Rightarrow> Some n | None \<Rightarrow> first_known st model foreignIds)"

text \<open>\<open>this.index[model][platform][id] = i\<close>, where \<open>this.index[model]\<close> is there.\<close>

definition sub_map :: "('k, ('a, 'b) omap) omap \<Rightarrow> 'k \<Rightarrow> ('a, 'b) omap" where
  "sub_map m k = (case oget m k of None \<Rightarrow> [] | Some x \<Rightarrow> x)"

definition put_index :: "string \<Rightarrow> nat \<Rightarrow> index_state \<Rightarrow> string \<times> ext_id \<Rightarrow> index_state" where
  "put_index model i st pi =
     (let m = sub_map (index st) model; p = sub_map m (fst pi)
      in st\<lparr>index := oset model (oset (fst pi) (oset (id_text (snd pi)) i p) m) (index st)\<rparr>)"

definition ensureIndexed :: "index_state \<Rightarrow> string \<Rightarrow> nat \<Rightarrow> index_state" where
  "ensureIndexed st model i =
     (let st = (if oget (index st) model = None then st\<lparr>index := oset model [] (index st)\<rparr> else st)
      in foldl (put_index model i) st (rows_of st model ! i))"

definition set_id :: "string \<Rightarrow> nat \<Rightarrow> string \<times> ext_id \<Rightarrow> index_state \<Rightarrow> index_state" where
  "set_id model i pi st =
     st\<lparr>ids := oset model ((rows_of st model)[i := oset (fst pi) (snd pi) (rows_of st model ! i)]) (ids st)\<rparr>"

text \<open>
  The loop over the foreign identifiers of a known entity. \<open>this.index[model]![platform]!\<close>
  is \<open>undefined\<close> for a platform without identifiers of this model: the assignment throws.
\<close>

fun store_foreign :: "string \<Rightarrow> nat \<Rightarrow> identifier_map \<Rightarrow> index_state \<Rightarrow> index_state \<times> bool" where
  "store_foreign model i [] st = (st, False)"
| "store_foreign model i (pi # rest) st =
     (let st = set_id model i pi st in
      if oget (sub_map (index st) model) (fst pi) = None then (st, True)
      else store_foreign model i rest (put_index model i st pi))"

definition storeIdentitiesFrom ::
  "index_state \<Rightarrow> string \<Rightarrow> string \<Rightarrow> ext_id \<Rightarrow> identifier_map \<Rightarrow> index_state \<times> bool" where
  "storeIdentitiesFrom st model platform localId foreignIds =
     (case lookupIndexFrom st model platform localId foreignIds of
        Some i \<Rightarrow>
          (case store_foreign model i foreignIds (set_id model i (platform, localId) st) of
             (st, True) \<Rightarrow> (st, True)
           | (st, False) \<Rightarrow> (ensureIndexed st model i, False))
      | None \<Rightarrow>
          let rs = rows_of st model @ [oset platform localId foreignIds];
              st = st\<lparr>ids := oset model rs (ids st)\<rparr>
          in (ensureIndexed st model (length rs - 1), False))"

text \<open>The first \<open>TypeError\<close> ends the whole call.\<close>

fun store_all ::
  "(string \<times> string \<times> ext_id \<times> identifier_map) list \<Rightarrow> index_state \<Rightarrow> index_state \<times> bool" where
  "store_all [] st = (st, False)"
| "store_all ((model, platform, localId, foreignIds) # rest) st =
     (case storeIdentitiesFrom st model platform localId foreignIds of
        (st, True) \<Rightarrow> (st, True)
      | (st, False) \<Rightarrow> store_all rest st)"

definition equivalence_calls ::
  "(string, identifier_map list) omap \<Rightarrow> (string \<times> string \<times> ext_id \<times> identifier_map) list" where
  "equivalence_calls equivalences =
     concat (map (\<lambda>(model, things).
       concat (map (\<lambda>thing.
         concat (map (\<lambda>(platform, i).
           let filtered = odel platform thing
           in if filtered \<noteq> [] then [(model, platform, i, filtered)] else []) thing)) things))
       equivalences)"

definition storeEquivalences ::
  "index_state \<Rightarrow> (string, identifier_map list) omap \<Rightarrow> index_state \<times> bool" where
  "storeEquivalences st equivalences = store_all (equivalence_calls equivalences) st"

definition convertId :: "index_state \<Rightarrow> string \<Rightarrow> string \<Rightarrow> ext_id \<Rightarrow> string \<Rightarrow> ext_id option" where
  "convertId st model fromPlatform fromLocalId toPlatform =
     (case index_at st model fromPlatform fromLocalId of
        Some i \<Rightarrow> oget (rows_of st model ! i) toPlatform
      | None \<Rightarrow> None)"

definition convertForeignIds :: "string \<Rightarrow> ext_id \<Rightarrow> identifier_map \<Rightarrow> string \<Rightarrow> identifier_map" where
  "convertForeignIds fromPlatform fromId fromForeignIds toPlatform =
     oset fromPlatform fromId (odel toPlatform fromForeignIds)"

section \<open>Rows and the index\<close>

text \<open>The index only names rows that exist.\<close>

definition index_ok :: "index_state \<Rightarrow> bool" where
  "index_ok st \<longleftrightarrow> (\<forall>model platform i n.
     index_at st model platform i = Some n \<longrightarrow> n < length (rows_of st model))"

lemma index_at_put_index:
  "index_at (put_index model i st pi) model' platform x =
     (if model' = model \<and> platform = fst pi \<and> id_text x = id_text (snd pi) then Some i
      else index_at st model' platform x)"
  by (auto simp: put_index_def index_at_def Let_def sub_map_def split: option.split)

lemma rows_of_put_index [simp]: "rows_of (put_index model i st pi) model' = rows_of st model'"
  by (simp add: put_index_def rows_of_def Let_def)

lemma index_at_set_id [simp]: "index_at (set_id model i pi st) m p x = index_at st m p x"
  by (simp add: set_id_def index_at_def)

lemma index_set_id [simp]: "index (set_id model i pi st) = index st"
  by (simp add: set_id_def)

lemma rows_of_set_id:
  "rows_of (set_id model i pi st) model' =
     (if model' = model
      then (rows_of st model)[i := oset (fst pi) (snd pi) (rows_of st model ! i)]
      else rows_of st model')"
  by (auto simp: set_id_def rows_of_def)

lemma foldl_put_index_rows [simp]:
  "rows_of (foldl (put_index model i) st pis) model' = rows_of st model'"
  by (induction pis arbitrary: st) simp_all

lemma foldl_put_index_at:
  "index_at (foldl (put_index model i) st pis) model' platform x =
     (if model' = model \<and> (\<exists>y. (platform, y) \<in> set pis \<and> id_text y = id_text x) then Some i
      else index_at st model' platform x)"
  by (induction pis arbitrary: st) (auto simp: index_at_put_index)

lemma ensureIndexed_rows [simp]: "rows_of (ensureIndexed st model i) model' = rows_of st model'"
proof -
  let ?st = "if oget (index st) model = None then st\<lparr>index := oset model [] (index st)\<rparr> else st"
  have "rows_of ?st model' = rows_of st model'" by (simp add: rows_of_def)
  then show ?thesis by (simp only: ensureIndexed_def Let_def foldl_put_index_rows)
qed

lemma ensureIndexed_at:
  "index_at (ensureIndexed st model i) model' platform x =
     (if model' = model \<and> (\<exists>y. (platform, y) \<in> set (rows_of st model ! i) \<and> id_text y = id_text x)
      then Some i else index_at st model' platform x)"
proof -
  let ?st = "if oget (index st) model = None then st\<lparr>index := oset model [] (index st)\<rparr> else st"
  have "rows_of ?st model = rows_of st model" by (simp add: rows_of_def)
  moreover have "index_at ?st model' platform x = index_at st model' platform x"
    by (auto simp: index_at_def split: option.split)
  ultimately show ?thesis by (simp only: ensureIndexed_def Let_def foldl_put_index_at)
qed

lemma store_foreign_rows:
  "store_foreign model i fs st = (st', False) \<Longrightarrow> i < length (rows_of st model) \<Longrightarrow>
    length (rows_of st' model) = length (rows_of st model)
    \<and> rows_of st' model ! i = foldl (\<lambda>r (p, x). oset p x r) (rows_of st model ! i) fs"
proof (induction fs arbitrary: st)
  case (Cons pi fs)
  let ?st = "put_index model i (set_id model i pi st) pi"
  have "store_foreign model i fs ?st = (st', False)"
    using Cons.prems(1) by (auto simp: Let_def split: if_splits)
  from Cons.IH [OF this] Cons.prems(2) show ?case
    by (simp add: rows_of_set_id split_beta)
qed simp

lemma oget_foldl_osets:
  "owf fs \<Longrightarrow> oget (foldl (\<lambda>r (p, x). oset p x r) r fs) q
    = (case oget fs q of Some y \<Rightarrow> Some y | None \<Rightarrow> oget r q)"
proof (induction fs arbitrary: r)
  case (Cons f fs)
  obtain p x where f: "f = (p, x)" by (cases f)
  have "p \<notin> dom (oget fs)" using Cons.prems f by (simp add: dom_map_of_conv_image_fst)
  then have "oget fs p = None" by (simp add: domIff)
  with Cons f show ?case by (auto split: option.split)
qed simp

text \<open>After a call that does not throw, the identifiers of the call lead to one another.\<close>

lemma ensureIndexed_linked:
  assumes st': "st' = ensureIndexed st1 model i"
    and row: "oget (rows_of st1 model ! i) q = Some x"
  shows "oget (rows_of st' model ! i) q = Some x \<and> index_at st' model q x = Some i"
proof -
  from row have "(q, x) \<in> set (rows_of st1 model ! i)" by (rule map_of_SomeD)
  with st' row show ?thesis by (auto simp: ensureIndexed_at)
qed

lemma lookupIndexFrom_bound:
  assumes "index_ok st" "lookupIndexFrom st model platform localId foreignIds = Some i"
  shows "i < length (rows_of st model)"
proof -
  have "first_known st model fs = Some n \<Longrightarrow> \<exists>p x. index_at st model p x = Some n" for fs n
    by (induction fs) (force split: option.splits)+
  with assms have "\<exists>p x. index_at st model p x = Some i"
    by (auto simp: lookupIndexFrom_def split: option.splits)
  with assms(1) show ?thesis unfolding index_ok_def by blast
qed

lemma stored_row:
  assumes ok: "index_ok st" and owf: "owf foreignIds"
    and store: "storeIdentitiesFrom st model platform localId foreignIds = (st', False)"
  shows "\<exists>i st1 r. st' = ensureIndexed st1 model i
    \<and> (\<forall>q. oget (rows_of st1 model ! i) q =
         (case oget foreignIds q of
            Some y \<Rightarrow> if q = platform \<and> r = Map.empty then Some localId else Some y
          | None \<Rightarrow> if q = platform then Some localId else r q))"
proof (cases "lookupIndexFrom st model platform localId foreignIds")
  case None
  let ?rs = "rows_of st model @ [oset platform localId foreignIds]"
  let ?st1 = "st\<lparr>ids := oset model ?rs (ids st)\<rparr>"
  have "st' = ensureIndexed ?st1 model (length (rows_of st model))"
    using store None by (simp add: storeIdentitiesFrom_def Let_def)
  moreover have "rows_of ?st1 model ! length (rows_of st model) = oset platform localId foreignIds"
    by (simp add: rows_of_def)
  ultimately show ?thesis
    by (intro exI [of _ "length (rows_of st model)"] exI [of _ ?st1] exI [of _ Map.empty])
      (auto split: option.split)
next
  case (Some i)
  from lookupIndexFrom_bound [OF ok Some] have i: "i < length (rows_of st model)" .
  from store Some obtain st1 where st1:
    "store_foreign model i foreignIds (set_id model i (platform, localId) st) = (st1, False)"
    "st' = ensureIndexed st1 model i"
    by (auto simp: storeIdentitiesFrom_def split: prod.splits bool.splits)
  from store_foreign_rows [OF st1(1)] i
  have "rows_of st1 model ! i = foldl (\<lambda>r (p, x). oset p x r)
      (oset platform localId (rows_of st model ! i)) foreignIds"
    by (simp add: rows_of_set_id)
  then have "oget (rows_of st1 model ! i) q = (case oget foreignIds q of Some y \<Rightarrow> Some y
      | None \<Rightarrow> if q = platform then Some localId else oget (rows_of st model ! i) q)" for q
    by (simp add: oget_foldl_osets [OF owf] split: option.split)
  with st1(2) show ?thesis
    by (intro exI [of _ i] exI [of _ st1] exI [of _ "(oget (rows_of st model ! i))(platform \<mapsto> localId)"])
      (auto split: option.split)
qed

lemma stored:
  assumes ok: "index_ok st" and owf: "owf foreignIds" "platform \<notin> set (okeys foreignIds)"
    and store: "storeIdentitiesFrom st model platform localId foreignIds = (st', False)"
  shows "\<exists>i. oget (rows_of st' model ! i) platform = Some localId
    \<and> index_at st' model platform localId = Some i
    \<and> (\<forall>q x. oget foreignIds q = Some x \<longrightarrow>
      oget (rows_of st' model ! i) q = Some x \<and> index_at st' model q x = Some i)"
proof -
  have new: "oget foreignIds platform = None" using owf(2) by (simp add: map_of_eq_None_iff)
  from stored_row [OF ok owf(1) store] obtain i st1 r where
    st': "st' = ensureIndexed st1 model i" and
    row: "\<And>q. oget (rows_of st1 model ! i) q =
       (case oget foreignIds q of
          Some y \<Rightarrow> if q = platform \<and> r = Map.empty then Some localId else Some y
        | None \<Rightarrow> if q = platform then Some localId else r q)"
    by blast
  from row [of platform] new have "oget (rows_of st1 model ! i) platform = Some localId" by simp
  note here = ensureIndexed_linked [OF st' this]
  have foreign: "oget (rows_of st' model ! i) q = Some x \<and> index_at st' model q x = Some i"
    if q: "oget foreignIds q = Some x" for q x
  proof (rule ensureIndexed_linked [OF st'])
    have "q \<noteq> platform" using q new by auto
    with row [of q] q show "oget (rows_of st1 model ! i) q = Some x" by simp
  qed
  from here foreign show ?thesis by (intro exI [of _ i]) simp
qed

lemma store_foreign_throws:
  "snd (store_foreign model i fs st) \<longleftrightarrow>
    (\<exists>q \<in> set (okeys fs). oget (sub_map (index st) model) q = None)"
proof (induction fs arbitrary: st)
  case (Cons pi fs)
  have "oget (sub_map (index (put_index model i (set_id model i pi st) pi)) model) q = None \<longleftrightarrow>
      oget (sub_map (index st) model) q = None"
    if "oget (sub_map (index st) model) (fst pi) \<noteq> None" for q
    using that by (auto simp: put_index_def Let_def sub_map_def)
  then have "oget (sub_map (index st) model) (fst pi) \<noteq> None \<Longrightarrow>
    (\<exists>q \<in> set fs. oget (sub_map (index (put_index model i (set_id model i pi st) pi)) model) (fst q) = None)
      \<longleftrightarrow> (\<exists>q \<in> set fs. oget (sub_map (index st) model) (fst q) = None)"
    by simp
  then show ?case by (auto simp: Cons.IH Let_def)
qed simp

section \<open>Properties\<close>

text \<open>
  Identifiers stored together convert to one another: after \<open>storeIdentitiesFrom\<close> has
  returned, the local identifier converts to each of the foreign ones, and each of them
  back to it, whatever was known before.
\<close>
lemma stored_ids_convert:
  assumes "index_ok st" "owf foreignIds" "platform \<notin> set (okeys foreignIds)"
    and "storeIdentitiesFrom st model platform localId foreignIds = (st', False)"
    and "oget foreignIds q = Some x"
  shows "convertId st' model platform localId q = Some x
    \<and> convertId st' model q x platform = Some localId"
proof -
  from stored [OF assms(1-4)] obtain i where
    "oget (rows_of st' model ! i) platform = Some localId"
    "index_at st' model platform localId = Some i"
    "oget (rows_of st' model ! i) q = Some x" "index_at st' model q x = Some i"
    using assms(5) by (elim exE conjE) simp
  then show ?thesis by (simp add: convertId_def)
qed

text \<open>
  When storing throws. For an entity that is already known, \<open>storeIdentitiesFrom\<close> throws
  exactly when one of the foreign identifiers is on a platform that has no identifier of
  this model yet; an entity can never be linked to a platform that is new to its model.
\<close>
lemma store_throws_for_new_platform:
  assumes "lookupIndexFrom st model platform localId foreignIds = Some i"
  shows "snd (storeIdentitiesFrom st model platform localId foreignIds) \<longleftrightarrow>
    (\<exists>q \<in> set (okeys foreignIds). oget (sub_map (index st) model) q = None)"
proof -
  let ?r = "store_foreign model i foreignIds (set_id model i (platform, localId) st)"
  have "snd (storeIdentitiesFrom st model platform localId foreignIds) = snd ?r"
    using assms by (simp add: storeIdentitiesFrom_def split: prod.split bool.split)
  then show ?thesis by (simp only: store_foreign_throws index_set_id)
qed

end
