(* ===== verification/Js_Object.thy ===== *)
theory Js_Object
  imports Js_Parse "HOL-Library.Code_Target_Nat"
begin

text \<open>
  JSON documents read the way JavaScript reads them: optional members (\<open>o?.k\<close>), own keys,
  truth values, \<open>String(v)\<close> and \<open>Number(v)\<close>, and the spread of one object over another.

  A value that may be \<open>undefined\<close> is a \<open>json option\<close>. An object is its own members, in
  insertion order; the members every object inherits (\<open>toString\<close> and the like) and the
  reordering of keys that are array indices are outside the model, as are numbers that are
  not integers.
\<close>

section \<open>Members\<close>

text \<open>\<open>j?.[k]\<close>; on an array or a text no name but an index (or \<open>length\<close>) is a member.\<close>

definition member :: "string \<Rightarrow> json option \<Rightarrow> json option" where
  "member k j = (case j of Some (JObj m) \<Rightarrow> oget m k | _ \<Rightarrow> None)"

lemma member_simps [simp]:
  "member k None = None"
  "member k (Some (JObj m)) = oget m k"
  "member k (Some JNull) = None"
  "member k (Some (JStr s)) = None"
  "member k (Some (JNum n)) = None"
  "member k (Some (JBool b)) = None"
  "member k (Some (JArr xs)) = None"
  by (simp_all add: member_def)

text \<open>\<open>Object.entries(j ?? {})\<close> of an object.\<close>

definition members :: "json option \<Rightarrow> (string \<times> json) list" where
  "members j = (case j of Some (JObj m) \<Rightarrow> m | _ \<Rightarrow> [])"

lemma members_simps [simp]:
  "members None = []"
  "members (Some (JObj m)) = m"
  by (simp_all add: members_def)

text \<open>\<open>j ?? []\<close> of an array.\<close>

definition elements :: "json option \<Rightarrow> json list" where
  "elements j = (case j of Some (JArr xs) \<Rightarrow> xs | _ \<Rightarrow> [])"

lemma elements_simps [simp]:
  "elements None = []"
  "elements (Some (JArr xs)) = xs"
  by (simp_all add: elements_def)

definition text_of :: "json option \<Rightarrow> string option" where
  "text_of j = (case j of Some (JStr s) \<Rightarrow> Some s | _ \<Rightarrow> None)"

lemma text_of_simps [simp]:
  "text_of None = None"
  "text_of (Some (JStr s)) = Some s"
  "text_of (Some (JObj m)) = None"
  "text_of (Some JNull) = None"
  by (simp_all add: text_of_def)

lemma text_of_eq: "text_of j = Some s \<longleftrightarrow> j = Some (JStr s)"
  by (simp add: text_of_def split: option.splits json.splits)

text \<open>\<open>typeof j === 'object' && j !== null && !Array.isArray(j)\<close>\<close>

definition isRecord :: "json option \<Rightarrow> bool" where
  "isRecord j = (case j of Some (JObj _) \<Rightarrow> True | _ \<Rightarrow> False)"

lemma isRecord_simps [simp]:
  "\<not> isRecord None"
  "isRecord (Some (JObj m))"
  "\<not> isRecord (Some (JArr xs))"
  "\<not> isRecord (Some JNull)"
  "\<not> isRecord (Some (JStr s))"
  by (simp_all add: isRecord_def)

lemma isRecord_iff: "isRecord j \<longleftrightarrow> (\<exists>m. j = Some (JObj m))"
  by (auto simp: isRecord_def split: option.splits json.splits)

text \<open>A value used as a condition.\<close>

definition truthy_json :: "json option \<Rightarrow> bool" where
  "truthy_json j =
     (case j of
        None \<Rightarrow> False | Some JNull \<Rightarrow> False | Some (JBool b) \<Rightarrow> b | Some (JNum n) \<Rightarrow> n \<noteq> 0
      | Some (JStr s) \<Rightarrow> s \<noteq> [] | Some (JArr _) \<Rightarrow> True | Some (JObj _) \<Rightarrow> True)"

lemma truthy_json_simps [simp]:
  "\<not> truthy_json None"
  "\<not> truthy_json (Some JNull)"
  "truthy_json (Some (JBool b)) = b"
  "truthy_json (Some (JNum n)) \<longleftrightarrow> n \<noteq> 0"
  "truthy_json (Some (JStr s)) \<longleftrightarrow> s \<noteq> []"
  "truthy_json (Some (JArr xs))"
  "truthy_json (Some (JObj m))"
  by (simp_all add: truthy_json_def)

text \<open>\<open>j ?? d\<close>\<close>

definition or_else :: "json option \<Rightarrow> json option \<Rightarrow> json option" where
  "or_else j d = (if j = None \<or> j = Some JNull then d else j)"

section \<open>\<open>String(v)\<close> and \<open>Number(v)\<close>\<close>

fun js_string :: "json \<Rightarrow> string" where
  "js_string JNull = ''null''"
| "js_string (JBool b) = (if b then ''true'' else ''false'')"
| "js_string (JNum n) = int_str n"
| "js_string (JStr s) = s"
| "js_string (JArr xs) = join '','' (map (\<lambda>x. if x = JNull then [] else js_string x) xs)"
| "js_string (JObj _) = ''[object Object]''"

text \<open>
  \<open>Number(v)\<close>; \<open>None\<close> is NaN. The text of an integer has the syntax that \<open>BigInt\<close> reads; a
  text with a fraction or an exponent is outside the model.
\<close>

definition js_number :: "json option \<Rightarrow> int option" where
  "js_number j =
     (case j of
        None \<Rightarrow> None | Some JNull \<Rightarrow> Some 0 | Some (JBool b) \<Rightarrow> Some (if b then 1 else 0)
      | Some (JNum n) \<Rightarrow> Some n | Some (JStr s) \<Rightarrow> big_int s
      | Some (JArr xs) \<Rightarrow> big_int (js_string (JArr xs)) | Some (JObj _) \<Rightarrow> None)"

lemma js_number_num [simp]: "js_number (Some (JNum n)) = Some n"
  by (simp add: js_number_def)

lemma big_int_int_str: "big_int (int_str n) = Some n"
proof (cases "n < 0")
  case True
  let ?d = "nat_str (nat (- n))"
  have d: "digits ?d" "?d \<noteq> []" by simp_all
  have t: "trim (CHR ''-'' # ?d) = CHR ''-'' # ?d"
  proof -
    have "trim_start (CHR ''-'' # ?d) = CHR ''-'' # ?d"
      by (simp add: trim_start_def is_space_def code_def)
    moreover have "trim_end_of is_space (CHR ''-'' # ?d) = CHR ''-'' # ?d"
      using d by (cases ?d rule: rev_cases)
        (simp_all add: digit_not_space flip: append_Cons del: digits_nat_str)
    ultimately show ?thesis by (simp add: trim_def)
  qed
  have "\<not> digits (CHR ''-'' # ?d)" by (simp add: is_digit_def code_def)
  then show ?thesis using True d by (simp add: int_str_def big_int_def Let_def t)
next
  case False
  then show ?thesis by (simp add: int_str_def big_int_digits)
qed

lemma js_number_text [simp]: "js_number (Some (JStr (int_str n))) = Some n"
  by (simp add: js_number_def big_int_int_str)

section \<open>Spread\<close>

text \<open>\<open>{ ...a, ...b }\<close>\<close>

definition spread :: "('k, 'v) omap \<Rightarrow> ('k, 'v) omap \<Rightarrow> ('k, 'v) omap" where
  "spread a b = foldl (\<lambda>m (k, v). oset k v m) a b"

lemma spread_simps [simp]:
  "spread a [] = a"
  "spread a ((k, v) # b) = spread (oset k v a) b"
  by (simp_all add: spread_def)

lemma owf_spread [simp]: "owf a \<Longrightarrow> owf (spread a b)"
  by (induction b arbitrary: a) auto

lemma oget_spread:
  "owf b \<Longrightarrow> oget (spread a b) k = (case oget b k of Some v \<Rightarrow> Some v | None \<Rightarrow> oget a k)"
proof (induction b arbitrary: a)
  case (Cons kv b)
  obtain j v where kv: "kv = (j, v)" by fastforce
  have j: "oget b j = None" using Cons.prems by (force simp: kv map_of_eq_None_iff)
  show ?case using Cons by (auto simp: kv j split: option.splits)
qed simp

lemma spread_disjoint: "owf (a @ b) \<Longrightarrow> spread a b = a @ b"
proof (induction b arbitrary: a)
  case (Cons kv b)
  obtain k v where kv: "kv = (k, v)" by fastforce
  have "oset k v a = a @ [kv]" using Cons.prems by (simp add: kv oset_snoc)
  then show ?case using Cons.IH [of "a @ [kv]"] Cons.prems by (simp add: kv)
qed simp

lemma spread_Nil [simp]: "owf b \<Longrightarrow> spread [] b = b"
  using spread_disjoint [of "[]" b] by simp

lemma set_spread: "x \<in> set (spread a b) \<Longrightarrow> x \<in> set a \<or> x \<in> set b"
proof (induction b arbitrary: a)
  case (Cons kv b)
  obtain k v where kv: "kv = (k, v)" by fastforce
  from Cons.prems have "x \<in> set (spread (oset k v a) b)" by (simp add: kv)
  from Cons.IH [OF this] show ?case by (auto simp: kv dest: set_oset)
qed simp

text \<open>A member is smaller than its object, for functions that recurse into members.\<close>

lemma oget_size [termination_simp]:
  "oget m k = Some v \<Longrightarrow> size v < Suc (size_list (size_prod (\<lambda>_. 0) size) m)"
  by (induction m) (auto split: if_splits)

end
