(* ===== verification/Dv_Identity.thy ===== *)
theory Dv_Identity
  imports Dv_Store Dv_Marker Dv_Index Js_Object "HOL-Library.Code_Target_Nat"
begin

text \<open>
  \<open>devonian/src/atomic/IdentityMap.ts\<close>: which external record a native subject stands for.
  The mappings are ordinary resources of the store, of class \<open>identity.class\<close>, so they are
  part of its snapshots. What is read from the store is checked on every read (\<open>find\<close>): an
  invalid or conflicting mapping throws.

  An external id is a string or a number (an \<open>int\<close>: the code accepts safe integers only).
  Texts have 8-bit characters, so \<open>encodeURIComponent\<close>, which is modelled on UTF-16 code
  units in \<open>Dv_Marker\<close>, never meets a lone surrogate.
\<close>

section \<open>The mapping resources\<close>

definition VOCAB :: string where
  "VOCAB = ''https://raw.githubusercontent.com/localthought/devonian/main/vocab/''"

definition identity_class :: string where "identity_class = VOCAB @ ''Identity.json''"
definition identity_scope :: string where "identity_scope = VOCAB @ ''scope.json''"
definition identity_entity :: string where "identity_entity = VOCAB @ ''entity.json''"
definition identity_localId :: string where "identity_localId = VOCAB @ ''localId.json''"
definition identity_idType :: string where "identity_idType = VOCAB @ ''idType.json''"
definition identity_resource :: string where "identity_resource = VOCAB @ ''resource.json''"

record scope_of_ids =
  sc_scope :: string
  sc_entity :: string

definition strip_slash :: "string \<Rightarrow> string" where
  "strip_slash s = (if s \<noteq> [] \<and> last s = CHR ''/'' then butlast s else s)"

definition new_identity_map :: "platform \<Rightarrow> string \<Rightarrow> schema \<Rightarrow> string + (string \<times> schema)" where
  "new_identity_map pf baseURL sch =
     bindE (assertSubject pf baseURL) (\<lambda>_.
       case pf_url pf baseURL of
         None \<Rightarrow> Inl ''Invalid URL''
       | Some url \<Rightarrow>
           if url_protocol url \<notin> {''http:'', ''https:''} then Inl ''Identity base must be an HTTP(S) URL''
           else if url_search url \<noteq> [] \<or> url_hash url \<noteq> []
           then Inl ''Identity base URL cannot contain a query or fragment''
           else
             bindE (declare_property pf identity_scope ATOMIC_URL sch) (\<lambda>sch.
             bindE (declare_property pf identity_entity STRING sch) (\<lambda>sch.
             bindE (declare_property pf identity_localId STRING sch) (\<lambda>sch.
             bindE (declare_property pf identity_idType STRING sch) (\<lambda>sch.
             bindE (declare_property pf identity_resource ATOMIC_URL sch) (\<lambda>sch.
               Inr (strip_slash baseURL, sch)))))))"

definition safe_integer :: "int \<Rightarrow> bool" where
  "safe_integer n \<longleftrightarrow> \<bar>n\<bar> \<le> 9007199254740991"

definition type_of_id :: "ext_id \<Rightarrow> string" where
  "type_of_id i = (case i of IdStr _ \<Rightarrow> ''string'' | IdNum _ \<Rightarrow> ''number'')"

definition json_of_id :: "ext_id \<Rightarrow> json" where
  "json_of_id i = (case i of IdStr s \<Rightarrow> JStr s | IdNum n \<Rightarrow> JNum n)"

definition id_ok :: "ext_id \<Rightarrow> bool" where
  "id_ok i \<longleftrightarrow> (case i of IdStr s \<Rightarrow> s \<noteq> [] | IdNum n \<Rightarrow> safe_integer n)"

definition encode_text :: "string \<Rightarrow> string + string" where
  "encode_text s =
     (case encodeURIComponent (u s) of
        Some e \<Rightarrow> Inr (map char_of e)
      | None \<Rightarrow> Inl ''URI malformed'')"

definition key :: "platform \<Rightarrow> scope_of_ids \<Rightarrow> ext_id \<Rightarrow> string + string" where
  "key pf sc i =
     bindE (assertSubject pf (sc_scope sc)) (\<lambda>_.
       if sc_entity sc = [] \<or> \<not> id_ok i
       then Inl ''Expected an entity and a nonempty string or safe integer external ID''
       else encode_text (json_text (JArr [JStr (sc_scope sc), JStr (sc_entity sc), JStr (type_of_id i), json_of_id i])))"

section \<open>Reading the mappings\<close>

text \<open>\<open>Number(s)\<close> where \<open>String(Number(s)) === s\<close>, for an integer.\<close>

definition number_of :: "string \<Rightarrow> int option" where
  "number_of s =
     (let n = (if s \<noteq> [] \<and> hd s = CHR ''-'' then - int (dec_val (tl s)) else int (dec_val s))
      in if int_str n = s then Some n else None)"

fun check_identities :: "string list \<Rightarrow> string list \<Rightarrow> resource list \<Rightarrow> string + unit" where
  "check_identities seen subjects [] = Inr ()"
| "check_identities seen subjects (r # rs) =
     (case (oget r identity_localId, oget r identity_idType, oget r identity_resource) of
        (Some (JStr i), Some ty, Some (JStr subject)) \<Rightarrow>
          if i = [] \<or> js_string ty \<notin> {''string'', ''number''}
            \<or> (ty = JStr ''number'' \<and> (case number_of i of Some n \<Rightarrow> \<not> safe_integer n | None \<Rightarrow> True))
          then Inl ''Invalid identity mapping''
          else
            let k = json_text (JArr [ty, JStr i]) in
            if k \<in> set seen \<or> subject \<in> set subjects then Inl ''Conflicting identity mappings in snapshot''
            else check_identities (k # seen) (subject # subjects) rs
      | _ \<Rightarrow> Inl ''Invalid identity mapping'')"

definition in_scope :: "scope_of_ids \<Rightarrow> resource \<Rightarrow> bool" where
  "in_scope sc r \<longleftrightarrow> oget r identity_scope = Some (JStr (sc_scope sc)) \<and> oget r identity_entity = Some (JStr (sc_entity sc))"

definition find_mappings :: "scope_of_ids \<Rightarrow> store \<Rightarrow> string + resource list" where
  "find_mappings sc st =
     (let rs = filter (in_scope sc) (all identity_class st)
      in bindE (check_identities [] [] rs) (\<lambda>_. Inr rs))"

definition text_at :: "string \<Rightarrow> resource \<Rightarrow> string option" where
  "text_at p r = (case oget r p of Some (JStr s) \<Rightarrow> Some s | _ \<Rightarrow> None)"

definition lookup :: "platform \<Rightarrow> scope_of_ids \<Rightarrow> ext_id \<Rightarrow> store \<Rightarrow> string + string option" where
  "lookup pf sc i st =
     bindE (key pf sc i) (\<lambda>_.
     bindE (find_mappings sc st) (\<lambda>rs.
       Inr (Option.bind
         (List.find (\<lambda>r. oget r identity_localId = Some (JStr (id_text i))
            \<and> oget r identity_idType = Some (JStr (type_of_id i))) rs)
         (text_at identity_resource))))"

definition resources_of_subject :: "string \<Rightarrow> resource list \<Rightarrow> resource option" where
  "resources_of_subject subject rs = List.find (\<lambda>r. oget r identity_resource = Some (JStr subject)) rs"

definition id_of :: "resource \<Rightarrow> ext_id option" where
  "id_of r =
     (if oget r identity_idType = Some (JStr ''number'')
      then map_option IdNum (Option.bind (text_at identity_localId r) number_of)
      else map_option IdStr (text_at identity_localId r))"

definition externalId :: "scope_of_ids \<Rightarrow> string \<Rightarrow> store \<Rightarrow> string + ext_id option" where
  "externalId sc subject st =
     bindE (find_mappings sc st) (\<lambda>rs. Inr (Option.bind (resources_of_subject subject rs) id_of))"

definition subjectFor :: "platform \<Rightarrow> string \<Rightarrow> scope_of_ids \<Rightarrow> ext_id \<Rightarrow> store \<Rightarrow> string + string" where
  "subjectFor pf base sc i st =
     bindE (lookup pf sc i st) (\<lambda>found.
       case found of
         Some s \<Rightarrow> Inr s
       | None \<Rightarrow> bindE (key pf sc i) (\<lambda>k. Inr (base @ ''/resources/'' @ k)))"

section \<open>Writing the mappings\<close>

definition identity_subject :: "string \<Rightarrow> string \<Rightarrow> string" where
  "identity_subject base k = base @ ''/identities/'' @ k"

definition mapping_resource :: "string \<Rightarrow> string \<Rightarrow> scope_of_ids \<Rightarrow> ext_id \<Rightarrow> string \<Rightarrow> resource" where
  "mapping_resource base k sc i subject =
     [(''@id'', JStr (identity_subject base k)), (IS_A, JArr [JStr identity_class]),
      (identity_scope, JStr (sc_scope sc)), (identity_entity, JStr (sc_entity sc)),
      (identity_localId, JStr (id_text i)), (identity_idType, JStr (type_of_id i)),
      (identity_resource, JStr subject)]"

definition bind_id :: "platform \<Rightarrow> string \<Rightarrow> scope_of_ids \<Rightarrow> ext_id \<Rightarrow> string \<Rightarrow> store \<Rightarrow> string + store" where
  "bind_id pf base sc i subject st =
     bindE (key pf sc i) (\<lambda>k.
     bindE (assertSubject pf subject) (\<lambda>_.
     bindE (lookup pf sc i st) (\<lambda>existing.
     bindE (externalId sc subject st) (\<lambda>reverse.
       if (existing \<noteq> None \<and> existing \<noteq> Some subject) \<or> (reverse \<noteq> None \<and> reverse \<noteq> Some i)
       then Inl ''Conflicting identity mapping''
       else if existing = Some subject \<and> reverse = Some i then Inr st
       else put pf (mapping_resource base k sc i subject) st))))"

definition unbind :: "platform \<Rightarrow> scope_of_ids \<Rightarrow> string \<Rightarrow> store \<Rightarrow> string + (store \<times> ext_id option)" where
  "unbind pf sc subject st =
     bindE (assertSubject pf (sc_scope sc)) (\<lambda>_.
     bindE (assertSubject pf subject) (\<lambda>_.
       if sc_entity sc = [] then Inl ''Expected an entity''
       else
         bindE (find_mappings sc st) (\<lambda>rs.
           case resources_of_subject subject rs of
             None \<Rightarrow> Inr (st, None)
           | Some r \<Rightarrow>
               bindE (externalId sc subject st) (\<lambda>i.
                 Inr (case subject_of r of Some s \<Rightarrow> remove s st | None \<Rightarrow> st, i)))))"

section \<open>Keys\<close>

lemma u_inj: "u s = u t \<Longrightarrow> s = t"
  unfolding u_def by (rule map_injective) (auto intro: injI)

lemma safe_small: "safe n \<Longrightarrow> n < 256"
  by (simp add: safe_def)

lemma encode_text_Inr: "\<exists>e. encode_text s = Inr e"
  using encode_decode [OF well_formed_u, of s] by (auto simp: encode_text_def)

lemma encode_text_inj:
  assumes "encode_text s = Inr e" "encode_text t = Inr e"
  shows "s = t"
proof -
  obtain a where a: "encodeURIComponent (u s) = Some a" "decodeURIComponent a = Some (u s)" "list_all safe a"
    using encode_decode [OF well_formed_u] by blast
  obtain b where b: "encodeURIComponent (u t) = Some b" "decodeURIComponent b = Some (u t)" "list_all safe b"
    using encode_decode [OF well_formed_u] by blast
  have "map char_of a = (map char_of b :: string)" using assms a(1) b(1) by (simp add: encode_text_def)
  then have "map (of_char \<circ> char_of) a = (map (of_char \<circ> char_of) b :: nat list)"
    by (metis list.map_comp)
  moreover have "map (of_char \<circ> char_of) c = c" if "list_all safe c" for c :: "nat list"
    using that safe_small by (induction c) simp_all
  ultimately have "a = b" using a(3) b(3) by simp
  with a(2) b(2) show ?thesis using u_inj by simp
qed

lemma int_str_sign: "hd (int_str n) = CHR ''-'' \<longleftrightarrow> n < 0"
proof -
  have "is_digit (hd (nat_str k))" for k
    using digits_nat_str [of k] nat_str_not_Nil [of k] by (cases "nat_str k") auto
  moreover have "\<not> is_digit (CHR ''-'')" by (simp add: is_digit_def code_def)
  ultimately show ?thesis unfolding int_str_def by (metis list.sel(1))
qed

lemma number_of_int_str [simp]: "number_of (int_str n) = Some n"
proof -
  have "int_str n \<noteq> []" by (simp add: int_str_def)
  moreover have "tl (int_str n) = nat_str (nat (- n))" if "n < 0" using that by (simp add: int_str_def)
  moreover have "int_str n = nat_str (nat n)" if "\<not> n < 0" using that by (simp add: int_str_def)
  moreover have "(int_str n \<noteq> [] \<and> hd (int_str n) = CHR ''-'') = (n < 0)" using int_str_sign calculation(1) by simp
  ultimately show ?thesis
    unfolding number_of_def Let_def by (cases "n < 0") (simp_all only: if_True if_False dec_val_nat_str, simp_all)
qed

lemma int_str_inj: "int_str m = int_str n \<longleftrightarrow> m = n"
  by (metis number_of_int_str option.inject)

lemma id_text_type_inj: "id_text i = id_text j \<Longrightarrow> type_of_id i = type_of_id j \<Longrightarrow> i = j"
  by (cases i; cases j) (auto simp: id_text_def type_of_id_def int_str_inj)

lemma key_inj:
  assumes "key pf sc i = Inr k" "key pf sc' i' = Inr k"
  shows "sc = sc' \<and> i = i'"
proof -
  let ?t = "\<lambda>sc i. JArr [JStr (sc_scope sc), JStr (sc_entity sc), JStr (type_of_id i), json_of_id i]"
  from assms have "encode_text (json_text (?t sc i)) = Inr k" "encode_text (json_text (?t sc' i')) = Inr k"
    by (auto simp: key_def bindE_eq_Inr split: if_split_asm)
  then have "json_text (?t sc i) = json_text (?t sc' i')" by (rule encode_text_inj)
  moreover have "plain_json (?t sc i)" "plain_json (?t sc' i')" by (cases i; cases i'; simp add: json_of_id_def)+
  ultimately have "?t sc i = ?t sc' i'" by (metis json_text_inj)
  then show ?thesis
    by (cases i; cases i'; cases sc; cases sc') (auto simp: json_of_id_def type_of_id_def)
qed

section \<open>What the mappings say\<close>

text \<open>\<open>r\<close> maps the id \<open>i\<close> of the scope \<open>sc\<close> to the subject \<open>subj\<close>.\<close>

definition describes :: "resource \<Rightarrow> scope_of_ids \<Rightarrow> ext_id \<Rightarrow> string \<Rightarrow> bool" where
  "describes r sc i subj \<longleftrightarrow> in_scope sc r \<and> oget r identity_localId = Some (JStr (id_text i))
     \<and> oget r identity_idType = Some (JStr (type_of_id i)) \<and> oget r identity_resource = Some (JStr subj)"

definition bound :: "store \<Rightarrow> scope_of_ids \<Rightarrow> ext_id \<Rightarrow> string \<Rightarrow> bool" where
  "bound st sc i subj \<longleftrightarrow> (\<exists>r \<in> set (all identity_class st). describes r sc i subj)"

text \<open>
  The mappings of a map with base \<open>base\<close>: each maps a valid id and is stored under the key of
  that id, and no two of a scope map to the same subject.
\<close>

definition identities_ok :: "platform \<Rightarrow> string \<Rightarrow> store \<Rightarrow> bool" where
  "identities_ok pf base st \<longleftrightarrow>
     (\<forall>r \<in> set (all identity_class st). \<exists>sc i subj k. describes r sc i subj \<and> id_ok i
        \<and> key pf sc i = Inr k \<and> subject_of r = Some (identity_subject base k))
     \<and> (\<forall>sc i j subj. bound st sc i subj \<longrightarrow> bound st sc j subj \<longrightarrow> i = j)"

lemma describes_unique: "describes r sc i subj \<Longrightarrow> describes r sc' j subj' \<Longrightarrow> sc = sc' \<and> i = j \<and> subj = subj'"
  by (auto simp: describes_def in_scope_def dest: id_text_type_inj)

lemma describes_in_scope: "describes r sc i subj \<Longrightarrow> in_scope sc' r \<longleftrightarrow> sc' = sc"
  by (auto simp: describes_def in_scope_def)

lemma identities_okD: "identities_ok pf base st \<Longrightarrow> r \<in> set (all identity_class st) \<Longrightarrow>
    \<exists>sc i subj k. describes r sc i subj \<and> id_ok i \<and> key pf sc i = Inr k
      \<and> subject_of r = Some (identity_subject base k)"
  by (simp add: identities_ok_def)

lemma identities_ok_subject: "identities_ok pf base st \<Longrightarrow> bound st sc i subj \<Longrightarrow> bound st sc j subj \<Longrightarrow> i = j"
  unfolding identities_ok_def by blast

lemma describes_parts:
  assumes "describes r sc i subj"
  shows "id_of r = Some i" "text_at identity_resource r = Some subj"
  using assms by (cases i; simp add: describes_def id_of_def text_at_def id_text_def type_of_id_def)+

lemma all_mem: "store_ok pf st \<Longrightarrow> r \<in> set (all cls st) \<longleftrightarrow> has_class cls r \<and> (\<exists>s. get s st = Some r)"
  by (auto simp: all_def get_mem [symmetric] image_iff Bex_def)

lemma same_subject_same: "store_ok pf st \<Longrightarrow> r \<in> set (all c st) \<Longrightarrow> r' \<in> set (all c st) \<Longrightarrow>
    subject_of r = subject_of r' \<Longrightarrow> r = r'"
  by (metis all_mem option.inject resource_ok_def store_okD)

lemma check_identities_ok:
  assumes "\<forall>r \<in> set rs. \<exists>sc i subj. describes r sc i subj \<and> id_ok i"
    and "distinct (map id_of rs)" "distinct (map (text_at identity_resource) rs)"
    and "\<forall>r \<in> set rs. \<forall>i. id_of r = Some i \<longrightarrow> json_text (JArr [JStr (type_of_id i), JStr (id_text i)]) \<notin> set seen"
    and "\<forall>r \<in> set rs. \<forall>s. text_at identity_resource r = Some s \<longrightarrow> s \<notin> set subjects"
  shows "check_identities seen subjects rs = Inr ()"
  using assms
proof (induction rs arbitrary: seen subjects)
  case (Cons r rs)
  then obtain sc i subj where d: "describes r sc i subj" "id_ok i" by auto
  note parts = describes_parts [OF d(1)]
  let ?k = "\<lambda>i. json_text (JArr [JStr (type_of_id i), JStr (id_text i)])"
  have inj: "?k j = ?k i \<Longrightarrow> j = i" for j
    using json_text_inj [of "JArr [JStr (type_of_id j), JStr (id_text j)]" "JArr [JStr (type_of_id i), JStr (id_text i)]"]
      id_text_type_inj [of j i] by simp
  have "check_identities (?k i # seen) (subj # subjects) rs = Inr ()"
  proof (rule Cons.IH)
    show "\<forall>r \<in> set rs. \<forall>j. id_of r = Some j \<longrightarrow> ?k j \<notin> set (?k i # seen)"
    proof (intro ballI allI impI)
      fix r' j assume r': "r' \<in> set rs" "id_of r' = Some j"
      have "?k j \<notin> set seen" using Cons.prems(4) r' by auto
      moreover have "j \<noteq> i" using Cons.prems(2) r' parts(1) by force
      ultimately show "?k j \<notin> set (?k i # seen)" using inj by auto
    qed
    show "\<forall>r \<in> set rs. \<forall>s. text_at identity_resource r = Some s \<longrightarrow> s \<notin> set (subj # subjects)"
      using Cons.prems(3,5) parts(2) by (auto simp: image_iff)
  qed (use Cons.prems in auto)
  moreover have "?k i \<notin> set seen" "subj \<notin> set subjects" using Cons.prems(4,5) parts by auto
  moreover have "id_text i \<noteq> []" using d(2) by (cases i) (simp_all add: id_text_def id_ok_def int_str_def)
  moreover have "type_of_id i = ''number'' \<longrightarrow> (case number_of (id_text i) of Some n \<Rightarrow> safe_integer n | None \<Rightarrow> False)"
    using d(2) by (cases i) (simp_all add: id_text_def id_ok_def type_of_id_def)
  moreover have "type_of_id i \<in> {''string'', ''number''}" by (cases i) (simp_all add: type_of_id_def)
  ultimately show ?case
    using d(1) by (auto simp: describes_def Let_def split: option.splits)
qed simp

lemma find_mappings_ok:
  assumes "store_ok pf st" "identities_ok pf base st"
  shows "find_mappings sc st = Inr (filter (in_scope sc) (all identity_class st))"
proof -
  let ?rs = "filter (in_scope sc) (all identity_class st)"
  have "inj_on snd (set (st_resources st))" "distinct (st_resources st)"
  proof (rule inj_onI)
    fix x y assume xy: "x \<in> set (st_resources st)" "y \<in> set (st_resources st)" "snd x = snd y"
    have "subject_of (snd z) = Some (fst z)" if "z \<in> set (st_resources st)" for z
      using assms(1) that by (cases z) (auto simp: store_ok_def list_all_iff resource_ok_def)
    with xy show "x = y" by (metis option.inject prod.expand)
  qed (use assms(1) in \<open>auto simp: store_ok_def distinct_map\<close>)
  then have "distinct (map snd (st_resources st))" by (simp add: distinct_map)
  then have dist: "distinct ?rs" by (simp add: all_def)
  have desc: "\<exists>i subj k. describes r sc i subj \<and> id_ok i \<and> key pf sc i = Inr k
      \<and> subject_of r = Some (identity_subject base k)" if "r \<in> set ?rs" for r
    using identities_okD [OF assms(2)] that by (metis (no_types, lifting) describes_in_scope set_filter mem_Collect_eq)
  have "inj_on id_of (set ?rs)"
  proof (rule inj_onI)
    fix r r' assume r: "r \<in> set ?rs" "r' \<in> set ?rs" "id_of r = id_of r'"
    with desc [OF r(1)] desc [OF r(2)] have "subject_of r = subject_of r'"
      using describes_parts(1) by fastforce
    then show "r = r'" using same_subject_same [OF assms(1)] r(1,2) by auto
  qed
  moreover have "inj_on (text_at identity_resource) (set ?rs)"
  proof (rule inj_onI)
    fix r r' assume r: "r \<in> set ?rs" "r' \<in> set ?rs" "text_at identity_resource r = text_at identity_resource r'"
    obtain i subj k where 1: "describes r sc i subj" "key pf sc i = Inr k" "subject_of r = Some (identity_subject base k)"
      using desc [OF r(1)] by blast
    obtain i' subj' k' where 2: "describes r' sc i' subj'" "key pf sc i' = Inr k'" "subject_of r' = Some (identity_subject base k')"
      using desc [OF r(2)] by blast
    have "subj = subj'" using r(3) describes_parts(2) [OF 1(1)] describes_parts(2) [OF 2(1)] by simp
    then have "bound st sc i subj" "bound st sc i' subj" using 1(1) 2(1) r(1,2) unfolding bound_def by auto
    then have "i = i'" by (rule identities_ok_subject [OF assms(2)])
    then show "r = r'" using same_subject_same [OF assms(1)] r(1,2) 1(2,3) 2(2,3) by auto
  qed
  ultimately have "check_identities [] [] ?rs = Inr ()"
    using dist desc by (intro check_identities_ok) (auto simp: distinct_map, blast)
  then show ?thesis by (simp add: find_mappings_def)
qed

lemma bound_key:
  assumes "store_ok pf st" "identities_ok pf base st" "r \<in> set (all identity_class st)" "describes r sc i subj"
  shows "id_ok i \<and> (\<exists>k. key pf sc i = Inr k \<and> get (identity_subject base k) st = Some r)"
proof -
  obtain k where "id_ok i" "key pf sc i = Inr k" "subject_of r = Some (identity_subject base k)"
    using identities_okD [OF assms(2,3)] describes_unique [OF assms(4)] by metis
  moreover obtain s where "get s st = Some r" using assms(1,3) by (auto simp: all_mem)
  moreover have "subject_of r = Some s" using store_okD [OF assms(1) calculation(4)] by (simp add: resource_ok_def)
  ultimately show ?thesis by auto
qed

lemma bound_functional:
  assumes "store_ok pf st" "identities_ok pf base st" "bound st sc i s1" "bound st sc i s2"
  shows "s1 = s2"
proof -
  obtain r1 r2 where r: "r1 \<in> set (all identity_class st)" "describes r1 sc i s1"
    "r2 \<in> set (all identity_class st)" "describes r2 sc i s2" using assms(3,4) unfolding bound_def by blast
  have "r1 = r2" using bound_key [OF assms(1,2) r(1,2)] bound_key [OF assms(1,2) r(3,4)] by auto
  with r show ?thesis using describes_unique by blast
qed

lemma find_desc:
  assumes "identities_ok pf base st" "r \<in> set (filter (in_scope sc) (all identity_class st))"
  shows "\<exists>i subj. describes r sc i subj"
  using identities_okD [OF assms(1), of r] assms(2)
  by (metis (no_types, lifting) describes_in_scope set_filter mem_Collect_eq)

lemma find_Some_mem: "List.find P xs = Some x \<Longrightarrow> x \<in> set xs \<and> P x"
  by (metis find_Some_iff nth_mem)

lemma lookup_result:
  assumes "store_ok pf st" "identities_ok pf base st" "key pf sc i = Inr k"
  shows "\<exists>res. lookup pf sc i st = Inr res \<and> (\<forall>subj. res = Some subj \<longleftrightarrow> bound st sc i subj)"
proof -
  let ?rs = "filter (in_scope sc) (all identity_class st)"
  let ?P = "\<lambda>r. oget r identity_localId = Some (JStr (id_text i)) \<and> oget r identity_idType = Some (JStr (type_of_id i))"
  have look: "lookup pf sc i st = Inr (Option.bind (List.find ?P ?rs) (text_at identity_resource))"
    using find_mappings_ok [OF assms(1,2), of sc] assms(3) by (simp add: lookup_def)
  have P: "describes r sc i subj" if "r \<in> set ?rs" "?P r" "text_at identity_resource r = Some subj" for r subj
    using that by (auto simp: describes_def text_at_def split: option.split_asm json.split_asm)
  show ?thesis
  proof (cases "List.find ?P ?rs")
    case None
    then have no: "r \<in> set ?rs \<Longrightarrow> \<not> ?P r" for r unfolding find_None_iff by blast
    have "\<not> bound st sc i subj" for subj
    proof
      assume "bound st sc i subj"
      then obtain r where "r \<in> set ?rs" "?P r" unfolding bound_def describes_def by auto
      with no show False by blast
    qed
    with look None show ?thesis by simp
  next
    case (Some r)
    then have r: "r \<in> set ?rs" "?P r" using find_Some_mem by fast+
    obtain j subj where d: "describes r sc j subj" using find_desc [OF assms(2) r(1)] by blast
    then have t: "text_at identity_resource r = Some subj" by (rule describes_parts)
    then have b: "bound st sc i subj" using P [OF r t] r(1) unfolding bound_def by auto
    have "subj = s \<longleftrightarrow> bound st sc i s" for s using b bound_functional [OF assms(1,2) b] by blast
    then show ?thesis using look Some t by simp
  qed
qed

lemma externalId_result:
  assumes "store_ok pf st" "identities_ok pf base st"
  shows "\<exists>res. externalId sc subj st = Inr res \<and> (\<forall>i. res = Some i \<longleftrightarrow> bound st sc i subj)"
proof -
  let ?rs = "filter (in_scope sc) (all identity_class st)"
  have ext: "externalId sc subj st = Inr (Option.bind (resources_of_subject subj ?rs) id_of)"
    using find_mappings_ok [OF assms, of sc] by (simp add: externalId_def)
  show ?thesis
  proof (cases "resources_of_subject subj ?rs")
    case None
    then have no: "r \<in> set ?rs \<Longrightarrow> oget r identity_resource \<noteq> Some (JStr subj)" for r
      unfolding resources_of_subject_def find_None_iff by blast
    have "\<not> bound st sc i subj" for i
    proof
      assume "bound st sc i subj"
      then obtain r where "r \<in> set ?rs" "oget r identity_resource = Some (JStr subj)"
        unfolding bound_def describes_def by auto
      with no show False by blast
    qed
    with ext None show ?thesis by simp
  next
    case (Some r)
    then have r: "r \<in> set ?rs" "oget r identity_resource = Some (JStr subj)"
      unfolding resources_of_subject_def using find_Some_mem by fast+
    obtain i subj' where d: "describes r sc i subj'" using find_desc [OF assms(2) r(1)] by blast
    then have "subj' = subj" using r(2) by (simp add: describes_def)
    then have b: "bound st sc i subj" using d r(1) unfolding bound_def by auto
    have "id_of r = Some i" using d by (rule describes_parts)
    moreover have "i = j \<longleftrightarrow> bound st sc j subj" for j using b identities_ok_subject [OF assms(2) b] by blast
    ultimately show ?thesis using ext Some by simp
  qed
qed

section \<open>Binding and unbinding\<close>

lemma mapping_properties:
  "oget (mapping_resource base k sc i subj) ''@id'' = Some (JStr (identity_subject base k))"
  "oget (mapping_resource base k sc i subj) IS_A = Some (JArr [JStr identity_class])"
  "oget (mapping_resource base k sc i subj) identity_scope = Some (JStr (sc_scope sc))"
  "oget (mapping_resource base k sc i subj) identity_entity = Some (JStr (sc_entity sc))"
  "oget (mapping_resource base k sc i subj) identity_localId = Some (JStr (id_text i))"
  "oget (mapping_resource base k sc i subj) identity_idType = Some (JStr (type_of_id i))"
  "oget (mapping_resource base k sc i subj) identity_resource = Some (JStr subj)"
  "plain_object (mapping_resource base k sc i subj)"
  by (simp_all add: mapping_resource_def identity_scope_def identity_entity_def identity_localId_def
      identity_idType_def identity_resource_def IS_A_def VOCAB_def plain_object_def)

lemma mapping_describes: "describes (mapping_resource base k sc i subj) sc i subj"
  by (simp add: describes_def in_scope_def mapping_properties)

lemma mapping_class: "has_class identity_class (mapping_resource base k sc i subj)"
  by (simp add: has_class_def mapping_properties)

lemma mapping_subject: "subject_of (mapping_resource base k sc i subj) = Some (identity_subject base k)"
  by (simp add: subject_of_def mapping_properties)

lemma all_put:
  assumes "store_ok pf st" "plain_object r" "put pf r st = Inr st'"
  shows "q \<in> set (all cls st') \<longleftrightarrow>
    (q = r \<and> has_class cls r) \<or> (q \<in> set (all cls st) \<and> subject_of q \<noteq> subject_of r)"
proof -
  have ok: "store_ok pf st'" by (rule put_ok [OF assms])
  obtain s where s: "subject_of r = Some s" using assms(3) by (auto simp: put_Inr)
  have sub: "subject_of q = Some t" if "get t st = Some q" for t
    using store_okD [OF assms(1) that] by (simp add: resource_ok_def)
  have pg: "get t st' = (if t = s then Some r else get t st)" for t
    using put_get [OF assms(3), of t] s by auto
  have "(\<exists>t. get t st' = Some q) \<longleftrightarrow> q = r \<or> (\<exists>t. get t st = Some q \<and> t \<noteq> s)"
    unfolding pg by auto
  also have "(\<exists>t. get t st = Some q \<and> t \<noteq> s) \<longleftrightarrow> (\<exists>t. get t st = Some q) \<and> subject_of q \<noteq> Some s"
    using sub by auto
  finally show ?thesis unfolding all_mem [OF ok] all_mem [OF assms(1)] s by auto
qed

lemma bind_cases:
  assumes "store_ok pf st" "identities_ok pf base st" "bind_id pf base sc i subj st = Inr st'"
  obtains (same) "st' = st" "bound st sc i subj"
  | (new) k where "key pf sc i = Inr k" "put pf (mapping_resource base k sc i subj) st = Inr st'"
      "\<And>s. \<not> bound st sc i s" "\<And>j. \<not> bound st sc j subj"
proof -
  from assms(3) obtain k where k: "key pf sc i = Inr k" by (auto simp: bind_id_def bindE_eq_Inr)
  obtain e where e: "lookup pf sc i st = Inr e" "\<forall>s. e = Some s \<longleftrightarrow> bound st sc i s"
    using lookup_result [OF assms(1,2) k] by blast
  obtain r where r: "externalId sc subj st = Inr r" "\<forall>j. r = Some j \<longleftrightarrow> bound st sc j subj"
    using externalId_result [OF assms(1,2)] by blast
  from assms(3) k e(1) r(1)
  have *: "if (e \<noteq> None \<and> e \<noteq> Some subj) \<or> (r \<noteq> None \<and> r \<noteq> Some i) then False
     else if e = Some subj \<and> r = Some i then st' = st
     else put pf (mapping_resource base k sc i subj) st = Inr st'"
    by (auto simp: bind_id_def bindE_eq_Inr split: if_split_asm)
  show thesis
  proof (cases "bound st sc i subj")
    case True
    with e(2) r(2) * have "st' = st" by (auto split: if_split_asm)
    with True show ?thesis by (rule same [rotated])
  next
    case False
    with e(2) r(2) have "e \<noteq> Some subj" "r \<noteq> Some i" by auto
    with * have "e = None" "r = None" "put pf (mapping_resource base k sc i subj) st = Inr st'"
      by (auto split: if_split_asm)
    with e(2) r(2) k show ?thesis by (intro new) auto
  qed
qed

lemma bind_bound:
  assumes "store_ok pf st" "identities_ok pf base st" "bind_id pf base sc i subj st = Inr st'"
  shows "store_ok pf st' \<and> identities_ok pf base st'
    \<and> (\<forall>sc' j s. bound st' sc' j s \<longleftrightarrow> bound st sc' j s \<or> (sc' = sc \<and> j = i \<and> s = subj))
    \<and> (\<forall>t. get t st' = get t st \<or> (\<exists>k. key pf sc i = Inr k \<and> t = identity_subject base k))"
  using assms
proof (cases rule: bind_cases)
  case same
  with assms show ?thesis by auto
next
  case (new k)
  let ?M = "mapping_resource base k sc i subj"
  have ok: "store_ok pf st'" by (rule put_ok [OF assms(1) mapping_properties(8) new(2)])
  have "subject_of q \<noteq> subject_of ?M" if q: "q \<in> set (all identity_class st)" for q
  proof
    assume "subject_of q = subject_of ?M"
    with identities_okD [OF assms(2) q] obtain sc' j s where d: "describes q sc' j s" "key pf sc' j = Inr k"
      by (auto simp: mapping_subject identity_subject_def)
    with key_inj [OF _ new(1)] have "describes q sc i s" by blast
    with q new(3) show False unfolding bound_def by blast
  qed
  then have mem: "q \<in> set (all identity_class st') \<longleftrightarrow> q = ?M \<or> q \<in> set (all identity_class st)" for q
    using all_put [OF assms(1) mapping_properties(8) new(2), of q identity_class] mapping_class by blast
  have b: "bound st' sc' j s \<longleftrightarrow> bound st sc' j s \<or> (sc' = sc \<and> j = i \<and> s = subj)" for sc' j s
    unfolding bound_def using mem mapping_describes describes_unique by metis
  have "identities_ok pf base st'"
    unfolding identities_ok_def
  proof (intro conjI ballI allI impI)
    fix q assume "q \<in> set (all identity_class st')"
    moreover have "id_ok i" using new(1) by (auto simp: key_def bindE_eq_Inr split: if_split_asm)
    ultimately show "\<exists>sc i subj k. describes q sc i subj \<and> id_ok i \<and> key pf sc i = Inr k
        \<and> subject_of q = Some (identity_subject base k)"
      using mem identities_okD [OF assms(2)] new(1) mapping_describes mapping_subject by metis
  next
    fix sc' j j' s assume "bound st' sc' j s" "bound st' sc' j' s"
    then show "j = j'" using b new(4) identities_ok_subject [OF assms(2)] by metis
  qed
  moreover have "get t st' = get t st \<or> t = identity_subject base k" for t
    using put_get [OF new(2), of t] by (auto simp: mapping_subject)
  ultimately show ?thesis using ok b new(1) by blast
qed

text \<open>
  C27. Binding an external id of a scope to a subject, in a store whose mappings are consistent.
  When they are bound to each other already, the store stays as it is. When the id is bound
  to another subject, or the subject to another id, it fails with a conflict. Otherwise it
  fails only if the catalog refuses the mapping resource, and else adds exactly that mapping:
  afterwards the id is looked up as the subject and the subject's external id is the id,
  every other mapping of every scope is as before, the mappings are still consistent, and no
  resource is touched but the one that holds the mapping.
\<close>
theorem identity_bind:
  assumes "store_ok pf st" "identities_ok pf base st" "key pf sc i = Inr k" "assertSubject pf subj = Inr ()"
  shows "if bound st sc i subj then bind_id pf base sc i subj st = Inr st
    else if (\<exists>s. s \<noteq> subj \<and> bound st sc i s) \<or> (\<exists>j. j \<noteq> i \<and> bound st sc j subj)
    then bind_id pf base sc i subj st = Inl ''Conflicting identity mapping''
    else bind_id pf base sc i subj st = put pf (mapping_resource base k sc i subj) st
      \<and> (case put pf (mapping_resource base k sc i subj) st of
          Inr st' \<Rightarrow> store_ok pf st' \<and> identities_ok pf base st'
            \<and> lookup pf sc i st' = Inr (Some subj) \<and> externalId sc subj st' = Inr (Some i)
            \<and> (\<forall>sc' j s. bound st' sc' j s \<longleftrightarrow> bound st sc' j s \<or> (sc' = sc \<and> j = i \<and> s = subj))
            \<and> (\<forall>t. t \<noteq> identity_subject base k \<longrightarrow> get t st' = get t st)
        | Inl _ \<Rightarrow> True)"
proof -
  obtain e where e: "lookup pf sc i st = Inr e" "\<forall>s. e = Some s \<longleftrightarrow> bound st sc i s"
    using lookup_result [OF assms(1,2,3)] by blast
  obtain r where r: "externalId sc subj st = Inr r" "\<forall>j. r = Some j \<longleftrightarrow> bound st sc j subj"
    using externalId_result [OF assms(1,2)] by blast
  have outcome: "bind_id pf base sc i subj st =
      (if (e \<noteq> None \<and> e \<noteq> Some subj) \<or> (r \<noteq> None \<and> r \<noteq> Some i) then Inl ''Conflicting identity mapping''
       else if e = Some subj \<and> r = Some i then Inr st
       else put pf (mapping_resource base k sc i subj) st)"
    using assms(3,4) e(1) r(1) by (simp add: bind_id_def)
  have after: "store_ok pf st' \<and> identities_ok pf base st'
      \<and> lookup pf sc i st' = Inr (Some subj) \<and> externalId sc subj st' = Inr (Some i)
      \<and> (\<forall>sc' j s. bound st' sc' j s \<longleftrightarrow> bound st sc' j s \<or> (sc' = sc \<and> j = i \<and> s = subj))
      \<and> (\<forall>t. t \<noteq> identity_subject base k \<longrightarrow> get t st' = get t st)"
    if new: "bind_id pf base sc i subj st = Inr st'" for st'
  proof -
    note b = bind_bound [OF assms(1,2) new]
    then have ok: "store_ok pf st'" "identities_ok pf base st'" "bound st' sc i subj" by auto
    have "lookup pf sc i st' = Inr (Some subj)" using lookup_result [OF ok(1,2) assms(3)] ok(3) by auto
    moreover have "externalId sc subj st' = Inr (Some i)" using externalId_result [OF ok(1,2), of sc subj] ok(3) by auto
    moreover have "get t st' = get t st" if "t \<noteq> identity_subject base k" for t
    proof -
      have "get t st' = get t st \<or> (\<exists>k. key pf sc i = Inr k \<and> t = identity_subject base k)" using b by blast
      with that assms(3) show ?thesis by auto
    qed
    ultimately show ?thesis using b by blast
  qed
  let ?conflict = "(\<exists>s. s \<noteq> subj \<and> bound st sc i s) \<or> (\<exists>j. j \<noteq> i \<and> bound st sc j subj)"
  consider "bound st sc i subj" | "\<not> bound st sc i subj" ?conflict | "\<not> bound st sc i subj" "\<not> ?conflict" by argo
  then show ?thesis
  proof cases
    case 1
    then have "e = Some subj" "r = Some i" using e(2) r(2) by auto
    with 1 outcome show ?thesis by simp
  next
    case 2
    then have "(e \<noteq> None \<and> e \<noteq> Some subj) \<or> (r \<noteq> None \<and> r \<noteq> Some i)" using e(2) r(2) by auto
    with 2 outcome show ?thesis by simp
  next
    case 3
    then have "\<not> bound st sc i s" "\<not> bound st sc j subj" for s j by metis+
    then have "e = None" "r = None" using e(2) r(2) by auto
    with outcome have put: "bind_id pf base sc i subj st = put pf (mapping_resource base k sc i subj) st" by simp
    have "case put pf (mapping_resource base k sc i subj) st of
          Inr st' \<Rightarrow> store_ok pf st' \<and> identities_ok pf base st'
            \<and> lookup pf sc i st' = Inr (Some subj) \<and> externalId sc subj st' = Inr (Some i)
            \<and> (\<forall>sc' j s. bound st' sc' j s \<longleftrightarrow> bound st sc' j s \<or> (sc' = sc \<and> j = i \<and> s = subj))
            \<and> (\<forall>t. t \<noteq> identity_subject base k \<longrightarrow> get t st' = get t st)
        | Inl _ \<Rightarrow> True"
    proof (cases "put pf (mapping_resource base k sc i subj) st")
      case (Inr st')
      with put have "bind_id pf base sc i subj st = Inr st'" by simp
      from after [OF this] show ?thesis unfolding Inr sum.case .
    qed (simp only: sum.case)
    with 3 put show ?thesis by (simp only: if_False not_False_eq_True simp_thms)
  qed
qed

lemma all_remove:
  assumes "store_ok pf st"
  shows "q \<in> set (all cls (remove s st)) \<longleftrightarrow> q \<in> set (all cls st) \<and> subject_of q \<noteq> Some s"
  unfolding all_mem [OF remove_ok [OF assms]] all_mem [OF assms]
  using store_okD [OF assms] by (auto simp: get_remove resource_ok_def split: if_split_asm)

lemma unbind_bound:
  assumes "store_ok pf st" "identities_ok pf base st" "bound st sc i subj" "key pf sc i = Inr k"
  shows "store_ok pf (remove (identity_subject base k) st)" "identities_ok pf base (remove (identity_subject base k) st)"
    "bound (remove (identity_subject base k) st) sc' j s \<longleftrightarrow> bound st sc' j s \<and> \<not> (sc' = sc \<and> s = subj)"
proof -
  let ?st = "remove (identity_subject base k) st"
  show ok: "store_ok pf ?st" by (rule remove_ok [OF assms(1)])
  note mem = all_remove [OF assms(1), of _ identity_class "identity_subject base k"]
  have b: "bound ?st sc' j s \<longleftrightarrow> bound st sc' j s \<and> \<not> (sc' = sc \<and> s = subj)" for sc' j s
  proof -
    have "subject_of r = Some (identity_subject base k) \<longleftrightarrow> sc' = sc \<and> s = subj"
      if r: "r \<in> set (all identity_class st)" "describes r sc' j s" for r
    proof -
      obtain k' where k': "key pf sc' j = Inr k'" "subject_of r = Some (identity_subject base k')"
        using bound_key [OF assms(1,2) r] store_okD [OF assms(1)] by (auto simp: resource_ok_def)
      have rb: "bound st sc' j s" using r unfolding bound_def by blast
      show ?thesis
      proof
        assume "subject_of r = Some (identity_subject base k)"
        with k' have "key pf sc' j = Inr k" by (simp add: identity_subject_def)
        with key_inj [OF assms(4)] have "sc' = sc" "j = i" by auto
        with rb assms(3) bound_functional [OF assms(1,2)] show "sc' = sc \<and> s = subj" by blast
      next
        assume "sc' = sc \<and> s = subj"
        with rb assms(3) identities_ok_subject [OF assms(2)] have "j = i" by blast
        with \<open>sc' = sc \<and> s = subj\<close> k' assms(4) show "subject_of r = Some (identity_subject base k)" by simp
      qed
    qed
    then have "r \<in> set (all identity_class ?st) \<and> describes r sc' j s \<longleftrightarrow>
        r \<in> set (all identity_class st) \<and> describes r sc' j s \<and> \<not> (sc' = sc \<and> s = subj)" for r
      unfolding mem by blast
    then show ?thesis unfolding bound_def Bex_def by auto
  qed
  then show "bound ?st sc' j s \<longleftrightarrow> bound st sc' j s \<and> \<not> (sc' = sc \<and> s = subj)" .
  show "identities_ok pf base ?st"
    unfolding identities_ok_def
  proof (intro conjI ballI allI impI)
    fix r assume "r \<in> set (all identity_class ?st)"
    then have "r \<in> set (all identity_class st)" using mem by blast
    from identities_okD [OF assms(2) this]
    show "\<exists>sc i subj k. describes r sc i subj \<and> id_ok i \<and> key pf sc i = Inr k
        \<and> subject_of r = Some (identity_subject base k)" .
  next
    fix sc' i' j' s' assume "bound ?st sc' i' s'" "bound ?st sc' j' s'"
    then have "bound st sc' i' s'" "bound st sc' j' s'" unfolding b by blast+
    then show "i' = j'" by (rule identities_ok_subject [OF assms(2)])
  qed
qed

text \<open>
  Unbinding a subject gives the external id it had in that scope, if any, and removes
  exactly that mapping: afterwards the subject has no external id there and the id is looked
  up as nothing, so that \<open>subjectFor\<close> allocates by the id again; every other mapping and every
  other resource is as before, and a subject without an external id leaves the store as it is.
\<close>
lemma identity_unbind:
  assumes "store_ok pf st" "identities_ok pf base st" "unbind pf sc subj st = Inr (st', res)"
  shows "store_ok pf st' \<and> identities_ok pf base st' \<and> externalId sc subj st' = Inr None
    \<and> (\<forall>sc' j s. bound st' sc' j s \<longleftrightarrow> bound st sc' j s \<and> \<not> (sc' = sc \<and> s = subj))
    \<and> (case res of
         None \<Rightarrow> st' = st \<and> (\<forall>j. \<not> bound st sc j subj)
       | Some i \<Rightarrow> bound st sc i subj \<and> lookup pf sc i st' = Inr None
           \<and> (\<exists>k. key pf sc i = Inr k \<and> subjectFor pf base sc i st' = Inr (base @ ''/resources/'' @ k)
                \<and> (\<forall>t. get t st' = (if t = identity_subject base k then None else get t st))))"
proof -
  obtain e where e: "externalId sc subj st = Inr e" "\<forall>i. e = Some i \<longleftrightarrow> bound st sc i subj"
    using externalId_result [OF assms(1,2)] by blast
  let ?r = "resources_of_subject subj (filter (in_scope sc) (all identity_class st))"
  have er: "e = Option.bind ?r id_of"
    using e(1) find_mappings_ok [OF assms(1,2), of sc] by (simp add: externalId_def)
  have un: "case ?r of None \<Rightarrow> st' = st \<and> res = None
      | Some r \<Rightarrow> st' = (case subject_of r of Some s \<Rightarrow> remove s st | None \<Rightarrow> st) \<and> res = e"
    using assms(3) find_mappings_ok [OF assms(1,2), of sc] e(1)
    by (auto simp: unbind_def bindE_eq_Inr split: option.splits if_split_asm)
  show ?thesis
  proof (cases ?r)
    case None
    then have "st' = st" "res = None" "e = None" using un er by auto
    with assms e show ?thesis by auto
  next
    case (Some r)
    then have r: "r \<in> set (filter (in_scope sc) (all identity_class st))" "oget r identity_resource = Some (JStr subj)"
      unfolding resources_of_subject_def using find_Some_mem by fast+
    obtain i subj' where "describes r sc i subj'" using find_desc [OF assms(2) r(1)] by blast
    then have d: "describes r sc i subj" using r(2) by (simp add: describes_def)
    then have b: "bound st sc i subj" using r(1) unfolding bound_def by auto
    then have res: "res = Some i" using e(2) un Some by auto
    have ra: "r \<in> set (all identity_class st)" using r(1) by simp
    obtain k where k: "key pf sc i = Inr k" "get (identity_subject base k) st = Some r"
      using bound_key [OF assms(1,2) ra d] by blast
    have "subject_of r = Some (identity_subject base k)"
      using store_okD [OF assms(1) k(2)] by (simp add: resource_ok_def)
    then have st': "st' = remove (identity_subject base k) st" using un Some by simp
    note ub = unbind_bound [OF assms(1,2) b k(1), folded st']
    obtain l where l: "lookup pf sc i st' = Inr l" "\<forall>s. l = Some s \<longleftrightarrow> bound st' sc i s"
      using lookup_result [OF ub(1,2) k(1)] by blast
    have "\<not> bound st' sc i s" for s
      using ub(3) [of sc i s] bound_functional [OF assms(1,2) b, of s] by blast
    then have l': "l = None" using l(2) by (cases l) auto
    obtain x where x: "externalId sc subj st' = Inr x" "\<forall>j. x = Some j \<longleftrightarrow> bound st' sc j subj"
      using externalId_result [OF ub(1,2)] by blast
    have "x = None" using x(2) ub(3) [of sc _ subj] by (cases x) auto
    moreover have "subjectFor pf base sc i st' = Inr (base @ ''/resources/'' @ k)"
      using l(1) l' k(1) by (simp add: subjectFor_def)
    ultimately show ?thesis
      using ub res b l(1) l' x(1) k(1) by (auto simp: st' get_remove)
  qed
qed

definition sample_scope :: scope_of_ids where
  "sample_scope = \<lparr>sc_scope = ''https://s'', sc_entity = ''e''\<rparr>"

definition id_schema :: schema where
  "id_schema = (case new_identity_map sample_platform ''https://b/'' new_schema of Inr (_, sch) \<Rightarrow> sch | Inl _ \<Rightarrow> [])"

definition id_store :: store where
  "id_store = \<lparr>st_schema = id_schema, st_resources = []\<rparr>"

lemma id_store_ok: "store_ok pf id_store" "identities_ok pf base id_store"
  by (simp_all add: store_ok_def identities_ok_def id_store_def all_def bound_def)

lemma sample_bind:
  "\<exists>k. key sample_platform sample_scope (IdNum 7) = Inr k"
  "\<exists>st. bind_id sample_platform ''https://b'' sample_scope (IdNum 7) ''https://b/1'' id_store = Inr st
    \<and> (\<exists>st'. unbind sample_platform sample_scope ''https://b/1'' st = Inr st')"
proof -
  have "key sample_platform sample_scope (IdNum 7) = Inr ''%5B%22https%3A%2F%2Fs%22%2C%22e%22%2C%22number%22%2C7%5D''"
    by code_simp
  then show "\<exists>k. key sample_platform sample_scope (IdNum 7) = Inr k" by blast
  let ?bind = "bind_id sample_platform ''https://b'' sample_scope (IdNum 7) ''https://b/1'' id_store"
  have c: "case ?bind of Inr st \<Rightarrow> \<not> isl (unbind sample_platform sample_scope ''https://b/1'' st) | Inl _ \<Rightarrow> False"
    by code_simp
  have not_isl: "\<not> isl x \<Longrightarrow> \<exists>y. x = Inr y" for x :: "string + store \<times> ext_id option"
    by (cases x) simp_all
  show "\<exists>st. ?bind = Inr st \<and> (\<exists>st'. unbind sample_platform sample_scope ''https://b/1'' st = Inr st')"
  proof (cases ?bind)
    case (Inr st)
    with c have "\<not> isl (unbind sample_platform sample_scope ''https://b/1'' st)" by (simp only: sum.case not_False_eq_True)
    with Inr not_isl show ?thesis by blast
  qed (use c in \<open>simp only: sum.case\<close>)
qed

theorem identity_bind_witness:
  "\<exists>st. bind_id sample_platform ''https://b'' sample_scope (IdNum 7) ''https://b/1'' id_store = Inr st
    \<and> lookup sample_platform sample_scope (IdNum 7) st = Inr (Some ''https://b/1'')
    \<and> externalId sample_scope ''https://b/1'' st = Inr (Some (IdNum 7))
    \<and> bind_id sample_platform ''https://b'' sample_scope (IdNum 7) ''https://b/1'' st = Inr st"
proof -
  obtain k where k: "key sample_platform sample_scope (IdNum 7) = Inr k" using sample_bind(1) by blast
  have a: "assertSubject sample_platform ''https://b/1'' = Inr ()" by code_simp
  obtain st where st: "bind_id sample_platform ''https://b'' sample_scope (IdNum 7) ''https://b/1'' id_store = Inr st"
    using sample_bind(2) by blast
  have none: "\<not> bound id_store sc i s" for sc i s by (simp add: bound_def all_def id_store_def)
  note bind = identity_bind [OF id_store_ok k a, of "''https://b''"]
  then have put: "put sample_platform (mapping_resource ''https://b'' k sample_scope (IdNum 7) ''https://b/1'') id_store = Inr st"
    using st none by simp
  have first: "store_ok sample_platform st" "identities_ok sample_platform ''https://b'' st"
    "lookup sample_platform sample_scope (IdNum 7) st = Inr (Some ''https://b/1'')"
    "externalId sample_scope ''https://b/1'' st = Inr (Some (IdNum 7))"
    "bound st sample_scope (IdNum 7) ''https://b/1''"
    using bind none by (simp_all add: put)
  from identity_bind [OF first(1,2) k a] first st show ?thesis by auto
qed

end
