(* ===== verification/Dv_Lens.thy ===== *)
theory Dv_Lens
  imports Dv_Identity
begin

text \<open>
  \<open>devonian/src/atomic/Lens.ts\<close>: the lens between native resources and the records of a
  platform. The connector does the platform's I/O; it is a record of functions on a state of
  its own (\<open>'w\<close>, the outside world), each of which may fail. \<open>read\<close> and \<open>write\<close>, the projections
  that a user of the lens supplies, are functions that may throw.

  \<open>enqueue\<close> makes the operations of a lens run one after another, whatever becomes of each, so
  an operation is a function on the store and the world. (Code that writes to the store while
  an operation of the lens waits for its connector is not modelled.)
\<close>

section \<open>The lens\<close>

record ('x, 'w) connector =
  cn_id :: "'x \<Rightarrow> ext_id"
  cn_get :: "ext_id \<Rightarrow> 'w \<Rightarrow> (string + 'x) \<times> 'w"
  cn_create :: "'x \<Rightarrow> string \<Rightarrow> 'w \<Rightarrow> (string + 'x) \<times> 'w"
  cn_update :: "ext_id \<Rightarrow> 'x \<Rightarrow> 'w \<Rightarrow> (string + unit) \<times> 'w"
  cn_delete :: "ext_id \<Rightarrow> 'w \<Rightarrow> (string + unit) \<times> 'w"

record projection =
  pj_patch :: atomic_patch
  pj_related :: "(string \<times> atomic_patch) list"
  pj_identities :: "(scope_of_ids \<times> ext_id \<times> string) list"

record ('x, 'w) lens =
  ln_platform :: platform
  ln_base :: string
  ln_scope :: scope_of_ids
  ln_connector :: "('x, 'w) connector"
  ln_read :: "'x \<Rightarrow> string \<Rightarrow> string + projection"
  ln_write :: "resource \<Rightarrow> 'x option \<Rightarrow> string + 'x"

definition new_lens :: "('x, 'w) lens \<Rightarrow> string + ('x, 'w) lens" where
  "new_lens L =
     bindE (assertSubject (ln_platform L) (sc_scope (ln_scope L))) (\<lambda>_.
       if sc_entity (ln_scope L) = [] then Inl ''A lens requires an entity type'' else Inr L)"

text \<open>The binds inside the transaction: an error leaves the store as the binds before it made it.\<close>

fun bind_all :: "platform \<Rightarrow> string \<Rightarrow> (scope_of_ids \<times> ext_id \<times> string) list \<Rightarrow> store \<Rightarrow> (string + unit) \<times> store" where
  "bind_all pf base [] st = (Inr (), st)"
| "bind_all pf base ((sc, i, subject) # ms) st =
     (case bind_id pf base sc i subject st of
        Inl e \<Rightarrow> (Inl e, st)
      | Inr st \<Rightarrow> bind_all pf base ms st)"

definition ingest_changes :: "('x, 'w) lens \<Rightarrow> projection \<Rightarrow> ext_id \<Rightarrow> string \<Rightarrow> store \<Rightarrow> (string + unit) \<times> store" where
  "ingest_changes L pj i subject st =
     (case apply_changes (ln_platform L) (pj_related pj @ [(subject, pj_patch pj)]) st of
        (Inl e, st) \<Rightarrow> (Inl e, st)
      | (Inr _, st) \<Rightarrow> bind_all (ln_platform L) (ln_base L) (pj_identities pj @ [(ln_scope L, i, subject)]) st)"

definition ingest :: "('x, 'w) lens \<Rightarrow> 'x \<Rightarrow> store \<times> 'w \<Rightarrow> (string + string) \<times> store \<times> 'w" where
  "ingest L r s =
     (let (st, w) = s; i = cn_id (ln_connector L) r in
      case subjectFor (ln_platform L) (ln_base L) (ln_scope L) i st of
        Inl e \<Rightarrow> (Inl e, st, w)
      | Inr subject \<Rightarrow>
          (case ln_read L r subject of
             Inl e \<Rightarrow> (Inl e, st, w)
           | Inr pj \<Rightarrow>
               (case transaction (ingest_changes L pj i subject) st of
                  (Inl e, st) \<Rightarrow> (Inl e, st, w)
                | (Inr _, st) \<Rightarrow> (Inr subject, st, w))))"

definition idempotency_key :: "scope_of_ids \<Rightarrow> string \<Rightarrow> string" where
  "idempotency_key sc subject = json_text (JArr [JStr (sc_scope sc), JStr (sc_entity sc), JStr subject])"

definition publish_existing :: "('x, 'w) lens \<Rightarrow> ext_id \<Rightarrow> resource \<Rightarrow> 'w \<Rightarrow> (string + ext_id) \<times> 'w" where
  "publish_existing L i r w =
     (case cn_get (ln_connector L) i w of
        (Inl e, w) \<Rightarrow> (Inl e, w)
      | (Inr previous, w) \<Rightarrow>
          (case ln_write L r (Some previous) of
             Inl e \<Rightarrow> (Inl e, w)
           | Inr x \<Rightarrow>
               (case cn_update (ln_connector L) i x w of
                  (Inl e, w) \<Rightarrow> (Inl e, w)
                | (Inr _, w) \<Rightarrow> (Inr i, w))))"

definition publish_new :: "('x, 'w) lens \<Rightarrow> string \<Rightarrow> resource \<Rightarrow> store \<times> 'w \<Rightarrow> (string + ext_id) \<times> store \<times> 'w" where
  "publish_new L subject r s =
     (let (st, w) = s in
      case ln_write L r None of
        Inl e \<Rightarrow> (Inl e, st, w)
      | Inr x \<Rightarrow>
          (case cn_create (ln_connector L) x (idempotency_key (ln_scope L) subject) w of
             (Inl e, w) \<Rightarrow> (Inl e, st, w)
           | (Inr created, w) \<Rightarrow>
               let i = cn_id (ln_connector L) created in
               (case bind_id (ln_platform L) (ln_base L) (ln_scope L) i subject st of
                  Inl e \<Rightarrow> (Inl e, st, w)
                | Inr st \<Rightarrow> (Inr i, st, w))))"

definition publish :: "('x, 'w) lens \<Rightarrow> string \<Rightarrow> store \<times> 'w \<Rightarrow> (string + ext_id) \<times> store \<times> 'w" where
  "publish L subject s =
     (let (st, w) = s in
      case get subject st of
        None \<Rightarrow> (Inl (''Unknown resource: '' @ subject), st, w)
      | Some r \<Rightarrow>
          (case externalId (ln_scope L) subject st of
             Inl e \<Rightarrow> (Inl e, st, w)
           | Inr (Some i) \<Rightarrow> (case publish_existing L i r w of (res, w) \<Rightarrow> (res, st, w))
           | Inr None \<Rightarrow> publish_new L subject r (st, w)))"

definition ingestDelete :: "('x, 'w) lens \<Rightarrow> ext_id \<Rightarrow> store \<times> 'w \<Rightarrow> (string + unit) \<times> store \<times> 'w" where
  "ingestDelete L i s =
     (let (st, w) = s in
      case lookup (ln_platform L) (ln_scope L) i st of
        Inl e \<Rightarrow> (Inl e, st, w)
      | Inr found \<Rightarrow> (Inr (), if truthy found then remove (the found) st else st, w))"

definition delete_resource :: "('x, 'w) lens \<Rightarrow> string \<Rightarrow> store \<times> 'w \<Rightarrow> (string + unit) \<times> store \<times> 'w" where
  "delete_resource L subject s =
     (let (st, w) = s in
      case externalId (ln_scope L) subject st of
        Inl e \<Rightarrow> (Inl e, st, w)
      | Inr None \<Rightarrow> (Inr (), remove subject st, w)
      | Inr (Some i) \<Rightarrow>
          (case cn_delete (ln_connector L) i w of
             (Inl e, w) \<Rightarrow> (Inl e, st, w)
           | (Inr _, w) \<Rightarrow> (Inr (), remove subject st, w)))"

text \<open>The queue of a lens: \<open>enqueue\<close> runs an operation when the one before has settled.\<close>

datatype 'x lens_op = Ingest 'x | Publish string | IngestDelete ext_id | Delete string

datatype lens_outcome = Subject string | External ext_id | Done | Failed string

definition outcome :: "('a \<Rightarrow> lens_outcome) \<Rightarrow> (string + 'a) \<times> 's \<Rightarrow> lens_outcome \<times> 's" where
  "outcome f r = (case fst r of Inl e \<Rightarrow> Failed e | Inr x \<Rightarrow> f x, snd r)"

definition lens_run :: "('x, 'w) lens \<Rightarrow> 'x lens_op \<Rightarrow> store \<times> 'w \<Rightarrow> lens_outcome \<times> store \<times> 'w" where
  "lens_run L operation s =
     (case operation of
        Ingest x \<Rightarrow> outcome Subject (ingest L x s)
      | Publish subject \<Rightarrow> outcome External (publish L subject s)
      | IngestDelete i \<Rightarrow> outcome (\<lambda>_. Done) (ingestDelete L i s)
      | Delete subject \<Rightarrow> outcome (\<lambda>_. Done) (delete_resource L subject s))"

fun run_queue :: "('x, 'w) lens \<Rightarrow> 'x lens_op list \<Rightarrow> store \<times> 'w \<Rightarrow> lens_outcome list \<times> store \<times> 'w" where
  "run_queue L [] s = ([], s)"
| "run_queue L (operation # ops) s =
     (let (res, s) = lens_run L operation s; (rest, s) = run_queue L ops s in (res # rest, s))"

section \<open>Failures\<close>

lemma transaction_failed: "transaction f st = (Inl e, st') \<Longrightarrow> st' = st"
  by (auto simp: transaction_def split: prod.split_asm sum.split_asm)

lemma lens_failed: "lens_run L operation (st, w) = (Failed e, st', w') \<Longrightarrow> st' = st"
  by (cases operation)
    (auto simp: Let_def lens_run_def outcome_def ingest_def publish_def publish_new_def ingestDelete_def delete_resource_def
       dest!: transaction_failed split: sum.split_asm option.split_asm prod.split_asm if_split_asm)

section \<open>What the operations do to the store\<close>

text \<open>
  A projection that leaves the mappings to the map: it writes to no resource under the base's
  \<open>identities/\<close> and makes no resource an identity mapping.
\<close>

definition leaves_identities :: "string \<Rightarrow> string \<times> atomic_patch \<Rightarrow> bool" where
  "leaves_identities base c \<longleftrightarrow> patch_ok (snd c) \<and> \<not> starts_with (base @ ''/identities/'') (fst c)
     \<and> (case oget (p_set (snd c)) IS_A of Some (JArr cs) \<Rightarrow> JStr identity_class \<notin> set cs | _ \<Rightarrow> True)"

lemma identity_subject_prefix: "starts_with (base @ ''/identities/'') (identity_subject base k)"
  by (simp add: starts_with_def identity_subject_def)

lemma same_class_bound:
  assumes "\<And>q. q \<in> set (all identity_class st') \<longleftrightarrow> q \<in> set (all identity_class st)"
  shows "bound st' sc i s \<longleftrightarrow> bound st sc i s" "identities_ok pf base st' \<longleftrightarrow> identities_ok pf base st"
proof -
  have eq: "set (all identity_class st') = set (all identity_class st)" using assms by auto
  show b: "bound st' sc i s \<longleftrightarrow> bound st sc i s" for sc i s unfolding bound_def eq by (rule refl)
  show "identities_ok pf base st' \<longleftrightarrow> identities_ok pf base st" unfolding identities_ok_def eq b by (rule refl)
qed

lemma identity_place:
  assumes "store_ok pf st" "identities_ok pf base st" "r \<in> set (all identity_class st)" "get s st = Some r"
  shows "starts_with (base @ ''/identities/'') s"
  using identities_okD [OF assms(2,3)] store_okD [OF assms(1,4)] identity_subject_prefix
  by (auto simp: resource_ok_def)

lemma patch_class:
  assumes "store_ok pf st" "identities_ok pf base st" "leaves_identities base (s, p)" "patch pf s p st = Inr (st', r)"
  shows "q \<in> set (all identity_class st') \<longleftrightarrow> q \<in> set (all identity_class st)"
proof -
  have p: "patch_ok p" using assms(3) by (simp add: leaves_identities_def)
  note P = patch_Inr [OF assms(1) p assms(4)]
  have before: "\<not> has_class identity_class r0" if "get s st = Some r0" for r0
    using identity_place [OF assms(1,2) _ that] that assms(3) by (auto simp: all_mem [OF assms(1)] leaves_identities_def)
  have ne: "identity_class \<noteq> []" by (simp add: identity_class_def VOCAB_def)
  have "oget [(''@id'', JStr s)] IS_A = None" by (simp add: IS_A_def)
  then have "\<not> has_class identity_class r"
    using P(4) [of IS_A] before assms(3) ne
    by (cases "get s st") (auto simp: has_class_def patched_def leaves_identities_def split: option.splits json.splits if_split_asm)
  with before show ?thesis
    unfolding all_mem [OF P(1)] all_mem [OF assms(1)] P(3) by auto metis
qed

lemma apply_class:
  assumes "store_ok pf st" "identities_ok pf base st" "list_all (leaves_identities base) cs" "apply_staged pf cs st = Inr st'"
  shows "q \<in> set (all identity_class st') \<longleftrightarrow> q \<in> set (all identity_class st)"
  using assms
proof (induction cs arbitrary: st)
  case (Cons c cs)
  obtain s p where c: "c = (s, p)" by fastforce
  with Cons.prems(4) obtain st1 r where 1: "patch pf s p st = Inr (st1, r)" and 2: "apply_staged pf cs st1 = Inr st'"
    by (auto simp: bindE_eq_Inr)
  from Cons.prems(3) c have l: "leaves_identities base (s, p)" by simp
  then have p: "patch_ok p" by (simp add: leaves_identities_def)
  note m = patch_class [OF Cons.prems(1,2) l 1]
  have "identities_ok pf base st1" using same_class_bound(2) [of st1 st] m Cons.prems(2) by blast
  with Cons.IH [OF patch_Inr(1) [OF Cons.prems(1) p 1] _ _ 2] Cons.prems(3) m show ?case by simp
qed simp

lemma apply_changes_keeps:
  assumes "store_ok pf st" "identities_ok pf base st" "list_all (leaves_identities base) cs"
    and "apply_changes pf cs st = (Inr x, st')"
  shows "store_ok pf st' \<and> identities_ok pf base st' \<and> (\<forall>sc i s. bound st' sc i s \<longleftrightarrow> bound st sc i s)
    \<and> (\<forall>t \<in> set (okeys cs). get t st' \<noteq> None) \<and> (\<forall>t. t \<notin> set (okeys cs) \<longrightarrow> get t st' = get t st)"
proof -
  obtain staged where s: "apply_staged pf cs st = Inr staged" "st' = st\<lparr>st_resources := st_resources staged\<rparr>"
    using assms(4) by (auto simp: apply_changes_def split: sum.split_asm)
  have ok: "list_all (\<lambda>(s, p). patch_ok p) cs"
    using assms(3) by (auto simp: list_all_iff leaves_identities_def)
  note r = apply_changes_result [OF assms(1) ok assms(4)]
  have "all identity_class st' = all identity_class staged" by (simp add: s(2) all_def)
  with apply_class [OF assms(1-3) s(1)]
  have m: "q \<in> set (all identity_class st') \<longleftrightarrow> q \<in> set (all identity_class st)" for q by simp
  show ?thesis using r same_class_bound [OF m] assms(2) by simp
qed

lemma bind_all_bound:
  assumes "store_ok pf st" "identities_ok pf base st" "bind_all pf base ms st = (Inr x, st')"
  shows "store_ok pf st' \<and> identities_ok pf base st'
    \<and> (\<forall>sc i s. bound st' sc i s \<longleftrightarrow> bound st sc i s \<or> (sc, i, s) \<in> set ms)
    \<and> (\<forall>t. \<not> starts_with (base @ ''/identities/'') t \<longrightarrow> get t st' = get t st)"
  using assms
proof (induction ms arbitrary: st)
  case (Cons m ms)
  obtain sc i s where m: "m = (sc, i, s)" by (cases m)
  with Cons.prems(3) obtain st1 where 1: "bind_id pf base sc i s st = Inr st1" and 2: "bind_all pf base ms st1 = (Inr x, st')"
    by (auto split: sum.split_asm)
  note b = bind_bound [OF Cons.prems(1,2) 1]
  then have "store_ok pf st1" "identities_ok pf base st1" by auto
  note ih = Cons.IH [OF this 2]
  show ?case
  proof (intro conjI allI impI)
    fix t assume "\<not> starts_with (base @ ''/identities/'') t"
    then show "get t st' = get t st" using ih b identity_subject_prefix by metis
  qed (use ih b m in auto)
qed simp

text \<open>The place of the mappings; subjects that are bound to an id lie elsewhere.\<close>

abbreviation own_place :: "string \<Rightarrow> string \<Rightarrow> bool" where
  "own_place base \<equiv> starts_with (base @ ''/identities/'')"

definition apart :: "string \<Rightarrow> store \<Rightarrow> bool" where
  "apart base st \<longleftrightarrow> (\<forall>sc i s. bound st sc i s \<longrightarrow> \<not> own_place base s)"

text \<open>
  What a projection may do, for a subject that is not itself a mapping: it leaves the mappings
  to the map, and binds no mapping to an id.
\<close>

definition reads_ok :: "('x, 'w) lens \<Rightarrow> bool" where
  "reads_ok L \<longleftrightarrow> (\<forall>x subject pj. \<not> own_place (ln_base L) subject \<longrightarrow> ln_read L x subject = Inr pj \<longrightarrow>
     list_all (leaves_identities (ln_base L)) (pj_related pj @ [(subject, pj_patch pj)])
     \<and> list_all (\<lambda>(sc, i, s). \<not> own_place (ln_base L) s) (pj_identities pj))"

lemma apply_staged_last:
  "apply_staged pf (cs @ [(s, p)]) st = Inr st' \<Longrightarrow>
     \<exists>mid r. apply_staged pf cs st = Inr mid \<and> patch pf s p mid = Inr (st', r)"
  by (induction cs arbitrary: st) (auto simp: bindE_eq_Inr)

text \<open>The resource that the last change is for, after all of them.\<close>

lemma apply_changes_last:
  assumes "store_ok pf st" "list_all (\<lambda>(s, p). patch_ok p) (cs @ [(s, p)])"
    and "apply_changes pf (cs @ [(s, p)]) st = (Inr x, st')"
  shows "\<exists>before r. get s st' = Some r \<and> (s \<notin> set (okeys cs) \<longrightarrow> before = get s st) \<and> (\<forall>k. oget r k = patched p before s k)"
proof -
  obtain staged where staged: "apply_staged pf (cs @ [(s, p)]) st = Inr staged" "st' = st\<lparr>st_resources := st_resources staged\<rparr>"
    using assms(3) by (auto simp: apply_changes_def split: sum.split_asm)
  obtain mid r where mid: "apply_staged pf cs st = Inr mid" "patch pf s p mid = Inr (staged, r)"
    using apply_staged_last [OF staged(1)] by blast
  have ok: "list_all (\<lambda>(s, p). patch_ok p) cs" "patch_ok p" using assms(2) by auto
  note m = apply_staged_ok [OF assms(1) ok(1) mid(1)]
  then have "store_ok pf mid" by blast
  note p = patch_Inr [OF this ok(2) mid(2)]
  have "get s st' = Some r" using p(3) [of s] by (simp add: staged(2) get_def)
  moreover have "s \<notin> set (okeys cs) \<longrightarrow> get s mid = get s st" using m by blast
  ultimately show ?thesis using p(4) by blast
qed

lemma apart_subjectFor:
  assumes "store_ok pf st" "identities_ok pf base st" "apart base st" "subjectFor pf base sc i st = Inr subject"
  shows "\<not> own_place base subject"
proof -
  obtain found where found: "lookup pf sc i st = Inr found"
    "(case found of Some s \<Rightarrow> Inr s | None \<Rightarrow> bindE (key pf sc i) (\<lambda>k. Inr (base @ ''/resources/'' @ k))) = Inr subject"
    using assms(4) by (auto simp: subjectFor_def bindE_eq_Inr)
  then obtain k where k: "key pf sc i = Inr k" by (auto simp: lookup_def bindE_eq_Inr)
  show ?thesis
  proof (cases found)
    case None
    with found k show ?thesis by (auto simp: starts_with_def)
  next
    case (Some s)
    with found k lookup_result [OF assms(1,2) k] have "bound st sc i subject" by auto
    with assms(3) show ?thesis by (simp add: apart_def)
  qed
qed

lemma ingest_cases:
  assumes "ingest L x (st, w) = (Inr subject, st', w')"
  obtains pj st1 y z where
    "subjectFor (ln_platform L) (ln_base L) (ln_scope L) (cn_id (ln_connector L) x) st = Inr subject"
    "ln_read L x subject = Inr pj" "w' = w"
    "apply_changes (ln_platform L) (pj_related pj @ [(subject, pj_patch pj)]) st = (Inr y, st1)"
    "bind_all (ln_platform L) (ln_base L)
       (pj_identities pj @ [(ln_scope L, cn_id (ln_connector L) x, subject)]) st1 = (Inr z, st')"
  using assms
  by (auto simp: ingest_def Let_def transaction_def ingest_changes_def
      split: sum.split_asm prod.split_asm)

lemma ingest_keeps:
  assumes "store_ok (ln_platform L) st" "identities_ok (ln_platform L) (ln_base L) st" "apart (ln_base L) st" "reads_ok L"
    and "ingest L x (st, w) = (Inr subject, st', w')"
  shows "w' = w \<and> store_ok (ln_platform L) st' \<and> identities_ok (ln_platform L) (ln_base L) st' \<and> apart (ln_base L) st'
    \<and> (\<exists>pj before r. ln_read L x subject = Inr pj
        \<and> (\<forall>sc i s. bound st' sc i s \<longleftrightarrow> bound st sc i s \<or> (sc, i, s) \<in> set (pj_identities pj)
             \<or> (sc = ln_scope L \<and> i = cn_id (ln_connector L) x \<and> s = subject))
        \<and> get subject st' = Some r
        \<and> (subject \<notin> set (okeys (pj_related pj)) \<longrightarrow> before = get subject st)
        \<and> (\<forall>k. oget r k = patched (pj_patch pj) before subject k)
        \<and> (\<forall>t. t \<notin> insert subject (set (okeys (pj_related pj))) \<longrightarrow> \<not> own_place (ln_base L) t \<longrightarrow> get t st' = get t st))"
  using assms(5)
proof (cases rule: ingest_cases)
  case (1 pj st1 y z)
  let ?cs = "pj_related pj @ [(subject, pj_patch pj)]"
  have free: "\<not> own_place (ln_base L) subject" by (rule apart_subjectFor [OF assms(1-3) 1(1)])
  then have l: "list_all (leaves_identities (ln_base L)) ?cs"
    and ids: "list_all (\<lambda>(sc, i, s). \<not> own_place (ln_base L) s) (pj_identities pj)"
    using assms(4) 1(2) unfolding reads_ok_def by blast+
  note a = apply_changes_keeps [OF assms(1,2) l 1(4)]
  then have ok: "store_ok (ln_platform L) st1" "identities_ok (ln_platform L) (ln_base L) st1" by auto
  note b = bind_all_bound [OF ok 1(5)]
  have patches: "list_all (\<lambda>(s, p). patch_ok p) ?cs"
    using l by (auto simp: list_all_iff leaves_identities_def)
  obtain before r where r: "get subject st1 = Some r" "subject \<notin> set (okeys (pj_related pj)) \<longrightarrow> before = get subject st"
    "\<forall>k. oget r k = patched (pj_patch pj) before subject k"
    using apply_changes_last [OF assms(1) patches 1(4)] by blast
  have mapped: "bound st' sc i s \<longleftrightarrow> bound st sc i s \<or> (sc, i, s) \<in> set (pj_identities pj)
      \<or> (sc = ln_scope L \<and> i = cn_id (ln_connector L) x \<and> s = subject)" for sc i s
    using a b by auto
  then have "apart (ln_base L) st'"
    using assms(3) free ids by (fastforce simp: apart_def list_all_iff)
  moreover have "get subject st' = Some r" using b free r(1) by metis
  moreover have "get t st' = get t st" if "t \<notin> insert subject (set (okeys (pj_related pj)))" "\<not> own_place (ln_base L) t" for t
  proof -
    have "t \<notin> set (okeys ?cs)" using that(1) by simp
    then have "get t st1 = get t st" using a by blast
    then show ?thesis using b that(2) by metis
  qed
  ultimately show ?thesis using b r(2,3) mapped 1(2,3) by blast
qed

lemma remove_keeps:
  assumes "store_ok pf st" "identities_ok pf base st"
  shows "store_ok pf (remove s st) \<and> identities_ok pf base (remove s st) \<and> (apart base st \<longrightarrow> apart base (remove s st))"
proof (intro conjI)
  show "store_ok pf (remove s st)" by (rule remove_ok [OF assms(1)])
  have sub: "set (all identity_class (remove s st)) \<subseteq> set (all identity_class st)"
    using all_remove [OF assms(1)] by blast
  then have less: "bound (remove s st) sc i t \<Longrightarrow> bound st sc i t" for sc i t unfolding bound_def by blast
  then show "identities_ok pf base (remove s st)"
    using sub assms(2) unfolding identities_ok_def by (meson subsetD)
  show "apart base st \<longrightarrow> apart base (remove s st)" using less unfolding apart_def by blast
qed

lemma publish_cases:
  assumes "publish L subject (st, w) = (Inr i, st', w')"
  obtains (existing) r where "get subject st = Some r" "externalId (ln_scope L) subject st = Inr (Some i)"
      "publish_existing L i r w = (Inr i, w')" "st' = st"
  | (new) r created where "get subject st = Some r" "externalId (ln_scope L) subject st = Inr None"
      "i = cn_id (ln_connector L) created"
      "bind_id (ln_platform L) (ln_base L) (ln_scope L) i subject st = Inr st'"
  using assms
  by (auto simp: publish_def publish_new_def publish_existing_def Let_def
      split: sum.split_asm prod.split_asm option.split_asm)

lemma publish_keeps:
  assumes "store_ok (ln_platform L) st" "identities_ok (ln_platform L) (ln_base L) st"
    and "publish L subject (st, w) = (Inr i, st', w')"
  shows "store_ok (ln_platform L) st' \<and> identities_ok (ln_platform L) (ln_base L) st' \<and> bound st' (ln_scope L) i subject
    \<and> (\<forall>sc j s. bound st' sc j s \<longrightarrow> bound st sc j s \<or> s = subject)
    \<and> (\<forall>t. \<not> own_place (ln_base L) t \<longrightarrow> get t st' = get t st)"
  using assms(3)
proof (cases rule: publish_cases)
  case (existing r)
  with assms externalId_result [OF assms(1,2), of "ln_scope L" subject] show ?thesis by auto
next
  case (new r created)
  then show ?thesis using bind_bound [OF assms(1,2) new(4)] identity_subject_prefix by metis
qed

text \<open>An operation that does not publish a mapping as if it were a resource of the platform.\<close>

definition op_ok :: "string \<Rightarrow> 'x lens_op \<Rightarrow> bool" where
  "op_ok base operation = (case operation of Publish s \<Rightarrow> \<not> own_place base s | _ \<Rightarrow> True)"

lemma lens_run_keeps:
  assumes "store_ok (ln_platform L) st" "identities_ok (ln_platform L) (ln_base L) st" "apart (ln_base L) st" "reads_ok L"
    and "op_ok (ln_base L) operation" "lens_run L operation (st, w) = (res, st', w')"
  shows "store_ok (ln_platform L) st' \<and> identities_ok (ln_platform L) (ln_base L) st' \<and> apart (ln_base L) st'"
proof (cases "\<exists>e. res = Failed e")
  case True
  with assms lens_failed show ?thesis by metis
next
  case False
  show ?thesis
  proof (cases operation)
    case (Ingest x)
    with False assms(6) obtain s where "ingest L x (st, w) = (Inr s, st', w')"
      by (cases "ingest L x (st, w)") (auto simp: lens_run_def outcome_def split: sum.split_asm)
    from ingest_keeps [OF assms(1-4) this] show ?thesis by blast
  next
    case (Publish s)
    with False assms(6) obtain i where "publish L s (st, w) = (Inr i, st', w')"
      by (cases "publish L s (st, w)") (auto simp: lens_run_def outcome_def split: sum.split_asm)
    note k = publish_keeps [OF assms(1,2) this]
    have "\<not> own_place (ln_base L) s" using Publish assms(5) by (simp add: op_ok_def)
    then have "apart (ln_base L) st'" using k assms(3) unfolding apart_def by metis
    with k show ?thesis by blast
  next
    case (IngestDelete i)
    with assms(6) have "st' = st \<or> (\<exists>s. st' = remove s st)"
      by (auto simp: lens_run_def outcome_def ingestDelete_def split: sum.split_asm if_split_asm)
    with assms(1-3) remove_keeps show ?thesis by blast
  next
    case (Delete s)
    with assms(6) have "st' = st \<or> (\<exists>s. st' = remove s st)"
      by (auto simp: lens_run_def outcome_def delete_resource_def Let_def
          split: sum.split_asm option.split_asm prod.split_asm)
    with assms(1-3) remove_keeps show ?thesis by blast
  qed
qed

section \<open>The properties of a lens\<close>

text \<open>
  C28. Whatever operations are queued on a lens, and whatever its connector does, each one gets
  its outcome; the store stays valid, its identity mappings consistent, and no mapping
  becomes the subject of another; and an operation that fails leaves the store as it was, so
  that a queue whose operations all fail leaves it unchanged and the operations can be
  retried. This holds for projections that leave the mappings to the map: for a subject that
  is no mapping they write to no mapping, make no resource one and bind none to an id; and no
  mapping is published.
\<close>
theorem lens_queue:
  assumes "store_ok (ln_platform L) st" "identities_ok (ln_platform L) (ln_base L) st" "apart (ln_base L) st" "reads_ok L"
    and "list_all (op_ok (ln_base L)) ops" "run_queue L ops (st, w) = (outcomes, st', w')"
  shows "store_ok (ln_platform L) st' \<and> identities_ok (ln_platform L) (ln_base L) st' \<and> apart (ln_base L) st'
    \<and> length outcomes = length ops \<and> (list_all (\<lambda>res. \<exists>e. res = Failed e) outcomes \<longrightarrow> st' = st)"
  using assms
proof (induction ops arbitrary: st w outcomes)
  case (Cons operation ops)
  obtain res st1 w1 where 1: "lens_run L operation (st, w) = (res, st1, w1)" by (cases "lens_run L operation (st, w)")
  with Cons.prems(6) obtain rest where 2: "run_queue L ops (st1, w1) = (rest, st', w')" "outcomes = res # rest"
    by (auto simp: Let_def split: prod.split_asm)
  have ops: "op_ok (ln_base L) operation" "list_all (op_ok (ln_base L)) ops" using Cons.prems(5) by simp_all
  note k = lens_run_keeps [OF Cons.prems(1-4) ops(1) 1]
  have "res = Failed e \<Longrightarrow> st1 = st" for e using lens_failed 1 by metis
  with Cons.IH [OF _ _ _ Cons.prems(4) ops(2) 2(1)] k 2(2) show ?case by auto
qed simp

text \<open>
  C29. Ingesting an external record stores its projection and binds its id, without touching the
  connector. Afterwards the resource of the subject holds what the projection sets, nothing
  that it unsets, and otherwise what it held before (or what the changes to related resources
  that the projection lists left there, when the subject is among them); the record's id is
  looked up as the subject and the subject's external id is the record's; the mappings are
  those there were, the ones the projection lists and this one; no resource is touched but
  the subject's, the related ones and mappings; and the next record with the same id goes to
  the same subject.
\<close>
theorem lens_ingest:
  assumes "store_ok (ln_platform L) st" "identities_ok (ln_platform L) (ln_base L) st" "apart (ln_base L) st" "reads_ok L"
    and "ingest L x (st, w) = (Inr subject, st', w')" "cn_id (ln_connector L) x = i"
  shows "w' = w \<and> lookup (ln_platform L) (ln_scope L) i st' = Inr (Some subject)
    \<and> externalId (ln_scope L) subject st' = Inr (Some i)
    \<and> subjectFor (ln_platform L) (ln_base L) (ln_scope L) i st' = Inr subject
    \<and> (\<exists>pj before r. ln_read L x subject = Inr pj \<and> get subject st' = Some r
        \<and> (\<forall>k. oget r k = patched (pj_patch pj) before subject k)
        \<and> (subject \<notin> set (okeys (pj_related pj)) \<longrightarrow> before = get subject st)
        \<and> (\<forall>sc j s. bound st' sc j s \<longleftrightarrow> bound st sc j s \<or> (sc, j, s) \<in> set (pj_identities pj)
             \<or> (sc = ln_scope L \<and> j = i \<and> s = subject))
        \<and> (\<forall>t. t \<notin> insert subject (set (okeys (pj_related pj))) \<longrightarrow> \<not> own_place (ln_base L) t \<longrightarrow> get t st' = get t st))"
proof -
  note k = ingest_keeps [OF assms(1-5), unfolded assms(6)]
  then have ok: "store_ok (ln_platform L) st'" "identities_ok (ln_platform L) (ln_base L) st'"
    "bound st' (ln_scope L) i subject" by auto
  obtain k0 where k0: "key (ln_platform L) (ln_scope L) i = Inr k0"
    using ok(3) bound_key [OF ok(1,2)] unfolding bound_def by blast
  have look: "lookup (ln_platform L) (ln_scope L) i st' = Inr (Some subject)"
    using ok(3) lookup_result [OF ok(1,2) k0] by auto
  moreover have "externalId (ln_scope L) subject st' = Inr (Some i)"
    using ok(3) externalId_result [OF ok(1,2), of "ln_scope L" subject] by auto
  moreover have "subjectFor (ln_platform L) (ln_base L) (ln_scope L) i st' = Inr subject"
    using look by (simp add: subjectFor_def)
  ultimately show ?thesis using k by blast
qed

text \<open>
  Publishing creates an external record at most once: when publishing a subject has succeeded
  with an id, the subject is bound to that id, its resource is as before, and publishing it
  again, whatever has happened to the outside world, reads and updates the record of that id
  and neither creates one nor changes the store.
\<close>
lemma lens_publish_once:
  assumes "store_ok (ln_platform L) st" "identities_ok (ln_platform L) (ln_base L) st"
    and "publish L subject (st, w) = (Inr i, st', w')" "\<not> starts_with (ln_base L @ ''/identities/'') subject"
  shows "externalId (ln_scope L) subject st' = Inr (Some i)
    \<and> (\<exists>r. get subject st = Some r \<and> get subject st' = Some r
        \<and> (\<forall>w2. publish L subject (st', w2) = (case publish_existing L i r w2 of (res, w3) \<Rightarrow> (res, st', w3))))"
proof -
  note k = publish_keeps [OF assms(1-3)]
  then have ok: "store_ok (ln_platform L) st'" "identities_ok (ln_platform L) (ln_base L) st'"
    "bound st' (ln_scope L) i subject" by auto
  obtain r where r: "get subject st = Some r" using assms(3) by (cases rule: publish_cases) auto
  then have r': "get subject st' = Some r" using k assms(4) by metis
  have e: "externalId (ln_scope L) subject st' = Inr (Some i)"
    using externalId_result [OF ok(1,2), of "ln_scope L" subject] ok(3) by auto
  with r r' show ?thesis by (simp add: publish_def)
qed

text \<open>A lens whose records are numbers and whose platform keeps the list of the records created.\<close>

definition number_connector :: "(int, int list) connector" where
  "number_connector =
     \<lparr>cn_id = IdNum, cn_get = (\<lambda>i w. (case i of IdNum n \<Rightarrow> Inr n | IdStr _ \<Rightarrow> Inl ''not found'', w)),
      cn_create = (\<lambda>x _ w. (Inr x, x # w)), cn_update = (\<lambda>_ _ w. (Inr (), w)), cn_delete = (\<lambda>_ w. (Inr (), w))\<rparr>"

definition class_patch :: atomic_patch where
  "class_patch = \<lparr>p_set = [(IS_A, JArr [JStr ''https://c''])], p_unset = []\<rparr>"

definition number_lens :: "(int, int list) lens" where
  "number_lens =
     \<lparr>ln_platform = sample_platform, ln_base = ''https://b'', ln_scope = sample_scope, ln_connector = number_connector,
      ln_read = (\<lambda>x s. Inr \<lparr>pj_patch = class_patch, pj_related = [], pj_identities = []\<rparr>),
      ln_write = (\<lambda>_ _. Inr 7)\<rparr>"

lemma number_reads_ok: "reads_ok number_lens"
proof -
  have "JStr identity_class \<noteq> JStr ''https://c''" by (simp add: identity_class_def VOCAB_def)
  then show ?thesis
    by (auto simp: reads_ok_def number_lens_def leaves_identities_def class_patch_def patch_ok_def plain_object_def)
qed

lemma id_store_apart: "apart base id_store"
  by (simp add: apart_def bound_def all_def id_store_def)

lemma number_ingest: "\<exists>s st' w'. ingest number_lens 7 (id_store, []) = (Inr s, st', w')"
proof -
  have "isl (fst (ingest number_lens 7 (id_store, []))) = False" by code_simp
  then show ?thesis by (cases "ingest number_lens 7 (id_store, [])"; cases "fst (ingest number_lens 7 (id_store, []))") auto
qed

theorem lens_ingest_witness:
  "\<exists>s st' w'. ingest number_lens 7 (id_store, []) = (Inr s, st', w') \<and> w' = []
    \<and> lookup sample_platform sample_scope (IdNum 7) st' = Inr (Some s)
    \<and> (\<exists>r. get s st' = Some r \<and> oget r IS_A = Some (JArr [JStr ''https://c'']))"
proof -
  obtain s st' w' where i: "ingest number_lens 7 (id_store, []) = (Inr s, st', w')" using number_ingest by blast
  have "cn_id (ln_connector number_lens) 7 = IdNum 7" by (simp add: number_lens_def number_connector_def)
  from lens_ingest [OF id_store_ok id_store_apart number_reads_ok i this] i show ?thesis
    by (auto simp: number_lens_def patched_def class_patch_def)
qed

theorem lens_queue_witness:
  "\<exists>rs st' w'. run_queue number_lens [Ingest 7, Publish ''https://b/1''] (id_store, []) = (rs, st', w')
    \<and> length rs = 2 \<and> store_ok sample_platform st'"
proof -
  obtain rs st' w' where q: "run_queue number_lens [Ingest 7, Publish ''https://b/1''] (id_store, []) = (rs, st', w')"
    by (metis prod.exhaust)
  have p: "ln_platform number_lens = sample_platform" by (simp add: number_lens_def)
  have "length rs = 2 \<and> store_ok sample_platform st'"
    using lens_queue [OF id_store_ok id_store_apart number_reads_ok _ q]
    by (simp add: p op_ok_def number_lens_def starts_with_def)
  with q show ?thesis by blast
qed

definition class_resource :: resource where
  "class_resource = [(''@id'', JStr ''https://b/1''), (IS_A, JArr [JStr ''https://c''])]"

definition class_store :: store where
  "class_store = \<lparr>st_schema = id_schema, st_resources = [(''https://b/1'', class_resource)]\<rparr>"

lemma class_store_ok: "store_ok sample_platform class_store" "identities_ok sample_platform base class_store"
proof -
  have "validate sample_platform id_schema class_resource = Inr ()" by code_simp
  then show "store_ok sample_platform class_store"
    by (simp add: store_ok_def class_store_def resource_ok_def class_resource_def plain_object_def subject_of_def IS_A_def)
  have "JStr identity_class \<noteq> JStr ''https://c''" "identity_class \<noteq> []"
    by (simp_all add: identity_class_def VOCAB_def)
  then have "\<not> has_class identity_class class_resource"
    by (simp add: has_class_def class_resource_def IS_A_def)
  then show "identities_ok sample_platform base class_store"
    by (simp add: identities_ok_def bound_def all_def class_store_def)
qed

end
