(* ===== verification/Dv_Links.thy ===== *)
theory Dv_Links
  imports Dv_Marker "HOL-Library.List_Lexorder"
begin

text \<open>
  The correspondence of originals and copies (\<^verbatim>\<open>src/devonian/src/reflect/id-map.ts\<close>) and
  the store of agreed states (\<^verbatim>\<open>kv-store.ts\<close>), both kept as insertion-ordered maps, and
  what of the correspondence is written to a file and read back (\<^verbatim>\<open>file.ts\<close>).
\<close>

record link =
  l_system :: ustring
  l_id :: ustring

type_synonym id_map = "(ustring, link) omap"

definition link_key :: "ustring \<Rightarrow> ustring \<Rightarrow> ustring \<Rightarrow> ustring" where
  "link_key kind system i = kind @ [32] @ system @ [32] @ i"

definition counterpart :: "id_map \<Rightarrow> ustring \<Rightarrow> ustring \<Rightarrow> ustring \<Rightarrow> link option" where
  "counterpart m kind system i = oget m (link_key kind system i)"

definition record_link :: "ustring \<Rightarrow> link \<Rightarrow> link \<Rightarrow> id_map \<Rightarrow> id_map" where
  "record_link kind a b m =
     oset (link_key kind (l_system b) (l_id b)) a (oset (link_key kind (l_system a) (l_id a)) b m)"

record entry =
  e_kind :: ustring
  e_a :: link
  e_b :: link

text \<open>\<open>k.split(' ')\<close>, of which the first three parts are taken.\<close>

fun split_space :: "ustring \<Rightarrow> ustring list" where
  "split_space [] = [[]]"
| "split_space (c # s) =
     (if c = 32 then [] # split_space s
      else case split_space s of [] \<Rightarrow> [[c]] | w # ws \<Rightarrow> (c # w) # ws)"

definition key_parts :: "ustring \<Rightarrow> ustring \<times> link" where
  "key_parts k =
     (let ws = split_space k in (ws ! 0, \<lparr>l_system = ws ! 1, l_id = ws ! 2\<rparr>))"

definition link_name :: "link \<Rightarrow> ustring" where
  "link_name a = l_system a @ [58] @ l_id a"

definition pair_id :: "link \<Rightarrow> link \<Rightarrow> ustring" where
  "pair_id a b =
     (let x = link_name a; y = link_name b
      in if x \<le> y then x @ [124] @ y else y @ [124] @ x)"

fun entries_from :: "ustring list \<Rightarrow> (ustring \<times> link) list \<Rightarrow> entry list" where
  "entries_from seen [] = []"
| "entries_from seen ((k, b) # m) =
     (let (kind, a) = key_parts k; p = kind @ [124] @ pair_id a b
      in if p \<in> set seen then entries_from seen m
         else \<lparr>e_kind = kind, e_a = a, e_b = b\<rparr> # entries_from (p # seen) m)"

definition entries :: "id_map \<Rightarrow> entry list" where
  "entries m = entries_from [] m"

definition links :: "id_map \<Rightarrow> ustring \<Rightarrow> (link \<times> link) list" where
  "links m kind = map (\<lambda>e. (e_a e, e_b e)) (filter (\<lambda>e. e_kind e = kind) (entries m))"

definition load :: "entry list \<Rightarrow> id_map \<Rightarrow> id_map" where
  "load es m = foldl (\<lambda>m e. record_link (e_kind e) (e_a e) (e_b e) m) m es"

text \<open>The key-value store.\<close>

definition kv_get :: "(ustring, ustring) omap \<Rightarrow> ustring \<Rightarrow> ustring option" where
  "kv_get m k = oget m k"

definition kv_set :: "ustring \<Rightarrow> ustring \<Rightarrow> (ustring, ustring) omap \<Rightarrow> (ustring, ustring) omap" where
  "kv_set k v m = oset k v m"

section \<open>Lemmas\<close>

text \<open>Names without the characters that separate them in keys and pair identities.\<close>

definition plain_name :: "ustring \<Rightarrow> bool" where
  "plain_name s \<longleftrightarrow> 32 \<notin> set s \<and> 58 \<notin> set s \<and> 124 \<notin> set s"

definition plain_link :: "link \<Rightarrow> bool" where
  "plain_link a \<longleftrightarrow> plain_name (l_system a) \<and> 32 \<notin> set (l_id a) \<and> 124 \<notin> set (l_id a)"

lemma sep_inj:
  "x \<notin> set a \<Longrightarrow> x \<notin> set b \<Longrightarrow> a @ x # s = b @ x # t \<longleftrightarrow> a = b \<and> s = t"
  by (induction a b rule: list_induct2') auto

lemma sep_inj_append:
  "x \<notin> set a \<Longrightarrow> x \<notin> set b \<Longrightarrow> a @ [x] @ s = b @ [x] @ t \<longleftrightarrow> a = b \<and> s = t"
  by (simp add: sep_inj)

lemma link_key_inj:
  "32 \<notin> set k \<Longrightarrow> 32 \<notin> set k' \<Longrightarrow> 32 \<notin> set s \<Longrightarrow> 32 \<notin> set s' \<Longrightarrow>
    link_key k s i = link_key k' s' i' \<longleftrightarrow> k = k' \<and> s = s' \<and> i = i'"
  by (auto simp: link_key_def sep_inj)

lemma split_space_plain: "32 \<notin> set w \<Longrightarrow> split_space w = [w]"
  by (induction w) auto

lemma split_space_Cons: "32 \<notin> set w \<Longrightarrow> split_space (w @ 32 # s) = w # split_space s"
  by (induction w) auto

lemma key_parts_link_key:
  "32 \<notin> set k \<Longrightarrow> plain_link a \<Longrightarrow> key_parts (link_key k (l_system a) (l_id a)) = (k, a)"
  by (simp add: key_parts_def link_key_def split_space_Cons split_space_plain plain_link_def plain_name_def)

lemma pair_id_commute: "pair_id a b = pair_id b a"
  by (auto simp: pair_id_def Let_def)

lemma pair_id_inj:
  assumes "plain_link a" "plain_link b" "plain_link c" "plain_link d" "pair_id a b = pair_id c d"
  shows "(a = c \<and> b = d) \<or> (a = d \<and> b = c)"
proof -
  have name: "link_name x = link_name y \<longleftrightarrow> x = y" if "plain_link x" "plain_link y" for x y
    using that by (auto simp: link_name_def plain_link_def plain_name_def sep_inj)
  have bar: "124 \<notin> set (link_name x)" if "plain_link x" for x
    using that by (auto simp: link_name_def plain_link_def plain_name_def)
  note n = name [OF assms(1,3)] name [OF assms(1,4)] name [OF assms(2,3)] name [OF assms(2,4)]
  note b = bar [OF assms(1)] bar [OF assms(2)] bar [OF assms(3)] bar [OF assms(4)]
  show ?thesis using assms(5) n b by (auto simp: pair_id_def Let_def sep_inj split: if_splits)
qed

lemma counterpart_record:
  assumes "32 \<notin> set kind" "32 \<notin> set (l_system a)" "32 \<notin> set (l_system b)" "32 \<notin> set k" "32 \<notin> set s"
  shows "counterpart (record_link kind a b m) k s i =
    (if k = kind \<and> s = l_system b \<and> i = l_id b then Some a
     else if k = kind \<and> s = l_system a \<and> i = l_id a then Some b
     else counterpart m k s i)"
  using assms by (simp add: counterpart_def record_link_def link_key_inj)

text \<open>A map as links make it: plain names, and each link with its converse.\<close>

definition link_map_ok :: "id_map \<Rightarrow> bool" where
  "link_map_ok m \<longleftrightarrow> owf m \<and>
     (\<forall>(k, b) \<in> set m. \<exists>kind a. k = link_key kind (l_system a) (l_id a) \<and> plain_name kind
        \<and> plain_link a \<and> plain_link b \<and> oget m (link_key kind (l_system b) (l_id b)) = Some a)"

definition entry_id :: "entry \<Rightarrow> ustring" where
  "entry_id e = e_kind e @ [124] @ pair_id (e_a e) (e_b e)"

lemma entries_from_Cons:
  "key_parts k = (kind, a) \<Longrightarrow> entries_from seen ((k, b) # m) =
    (if kind @ [124] @ pair_id a b \<in> set seen then entries_from seen m
     else \<lparr>e_kind = kind, e_a = a, e_b = b\<rparr> # entries_from ((kind @ [124] @ pair_id a b) # seen) m)"
  by (simp add: Let_def)

lemma entries_from_sound:
  "e \<in> set (entries_from seen xs) \<Longrightarrow> \<exists>k. (k, e_b e) \<in> set xs \<and> key_parts k = (e_kind e, e_a e)"
proof (induction xs arbitrary: seen)
  case (Cons x m)
  obtain k b where x: "x = (k, b)" by (cases x)
  obtain kind a where parts: "key_parts k = (kind, a)" by (cases "key_parts k")
  from Cons.prems consider "e \<in> set (entries_from seen m)"
    | "e = \<lparr>e_kind = kind, e_a = a, e_b = b\<rparr>"
    | "e \<in> set (entries_from ((kind @ [124] @ pair_id a b) # seen) m)"
    unfolding x entries_from_Cons [OF parts] by (auto split: if_splits)
  then show ?case
  proof cases
    case 2
    then show ?thesis using x parts by (intro exI [of _ k]) simp
  qed (use Cons.IH in \<open>fastforce+\<close>)
qed simp

lemma entries_from_complete:
  "(k, b) \<in> set xs \<Longrightarrow> key_parts k = (kind, a) \<Longrightarrow> kind @ [124] @ pair_id a b \<notin> set seen \<Longrightarrow>
    \<exists>e \<in> set (entries_from seen xs). entry_id e = kind @ [124] @ pair_id a b"
proof (induction xs arbitrary: seen)
  case (Cons x m)
  obtain k' b' where x: "x = (k', b')" by (cases x)
  obtain kind' a' where parts: "key_parts k' = (kind', a')" by (cases "key_parts k'")
  let ?p = "kind' @ [124] @ pair_id a' b'" and ?q = "kind @ [124] @ pair_id a b"
  have rest: "(k, b) \<in> set m" if "?q \<noteq> ?p"
    using Cons.prems(1,2) that x parts by auto
  show ?case
  proof (cases "?p \<in> set seen")
    case True
    with Cons.prems(3) have "?q \<noteq> ?p" by metis
    from Cons.IH [OF rest [OF this] Cons.prems(2,3)] True show ?thesis
      unfolding x entries_from_Cons [OF parts] by simp
  next
    case False
    show ?thesis
    proof (cases "?q = ?p")
      case True
      with False show ?thesis unfolding x entries_from_Cons [OF parts] by (simp add: entry_id_def)
    next
      case new: False
      have "?q \<notin> set (?p # seen)" using new Cons.prems(3) by simp
      from Cons.IH [OF rest [OF new] Cons.prems(2) this] False show ?thesis
        unfolding x entries_from_Cons [OF parts] by auto
    qed
  qed
qed simp

definition entry_keys :: "entry \<Rightarrow> ustring set" where
  "entry_keys e = {link_key (e_kind e) (l_system (e_a e)) (l_id (e_a e)),
     link_key (e_kind e) (l_system (e_b e)) (l_id (e_b e))}"

definition agrees :: "id_map \<Rightarrow> entry \<Rightarrow> bool" where
  "agrees m e \<longleftrightarrow> oget m (link_key (e_kind e) (l_system (e_a e)) (l_id (e_a e))) = Some (e_b e)
     \<and> oget m (link_key (e_kind e) (l_system (e_b e)) (l_id (e_b e))) = Some (e_a e)"

lemma oget_load:
  "\<forall>e \<in> set es. agrees m e \<Longrightarrow>
    oget (load es m0) k = (if \<exists>e \<in> set es. k \<in> entry_keys e then oget m k else oget m0 k)"
proof (induction es arbitrary: m0)
  case (Cons e es)
  then have "oget (load (e # es) m0) k =
      (if \<exists>e \<in> set es. k \<in> entry_keys e then oget m k
       else oget (record_link (e_kind e) (e_a e) (e_b e) m0) k)"
    by (simp add: load_def)
  moreover have "agrees m e" using Cons.prems by simp
  ultimately show ?case by (auto simp: record_link_def entry_keys_def agrees_def)
qed (simp add: load_def)

lemma link_map_okD:
  assumes "link_map_ok m" "(k, b) \<in> set m"
  shows "\<exists>kind a. k = link_key kind (l_system a) (l_id a) \<and> plain_name kind
    \<and> plain_link a \<and> plain_link b \<and> key_parts k = (kind, a) \<and> oget m k = Some b
    \<and> oget m (link_key kind (l_system b) (l_id b)) = Some a"
proof -
  from assms obtain kind a where a: "k = link_key kind (l_system a) (l_id a)" "plain_name kind"
    "plain_link a" "plain_link b" "oget m (link_key kind (l_system b) (l_id b)) = Some a"
    unfolding link_map_ok_def by blast
  moreover have "key_parts k = (kind, a)" using a by (simp add: key_parts_link_key plain_name_def)
  moreover have "oget m k = Some b" using assms by (simp add: link_map_ok_def)
  ultimately show ?thesis by blast
qed

lemma entries_agree: "link_map_ok m \<Longrightarrow> e \<in> set (entries m) \<Longrightarrow> agrees m e"
proof -
  assume m: "link_map_ok m" and "e \<in> set (entries m)"
  then obtain k where k: "(k, e_b e) \<in> set m" "key_parts k = (e_kind e, e_a e)"
    using entries_from_sound unfolding entries_def by blast
  with link_map_okD [OF m k(1)] show "agrees m e" by (auto simp: agrees_def)
qed

lemma entries_cover:
  assumes "link_map_ok m" "(k, b) \<in> set m"
  shows "\<exists>e \<in> set (entries m). k \<in> entry_keys e"
proof -
  from link_map_okD [OF assms] obtain kind a where a: "k = link_key kind (l_system a) (l_id a)"
    "plain_name kind" "plain_link a" "plain_link b" "key_parts k = (kind, a)" by blast
  from entries_from_complete [OF assms(2) a(5), of "[]"] obtain e where
    e: "e \<in> set (entries m)" "entry_id e = kind @ [124] @ pair_id a b" by (auto simp: entries_def)
  from e(1) obtain k' where k': "(k', e_b e) \<in> set m" "key_parts k' = (e_kind e, e_a e)"
    using entries_from_sound unfolding entries_def by blast
  with link_map_okD [OF assms(1) k'(1)] have plain: "plain_name (e_kind e)" "plain_link (e_a e)" "plain_link (e_b e)"
    by auto
  then have "e_kind e = kind" "pair_id (e_a e) (e_b e) = pair_id a b"
    using e(2) a(2) by (auto simp: entry_id_def plain_name_def sep_inj)
  with pair_id_inj [OF plain(2,3) a(3,4)] a(1) have "k \<in> entry_keys e" by (auto simp: entry_keys_def)
  with e(1) show ?thesis by blast
qed

section \<open>Properties\<close>

text \<open>
  A link is found from both ends, and changes nothing else. As long as kinds and systems
  have no space in them, which the keys of the map separate by spaces, the counterpart of
  either end of a new link is the other end, and every other record keeps its counterpart,
  whatever its id.
\<close>
lemma links_symmetric:
  assumes "32 \<notin> set kind" "32 \<notin> set (l_system a)" "32 \<notin> set (l_system b)" "32 \<notin> set k" "32 \<notin> set s"
  shows "counterpart (record_link kind a b m) k s i =
    (if k = kind \<and> s = l_system b \<and> i = l_id b then Some a
     else if k = kind \<and> s = l_system a \<and> i = l_id a then Some b
     else counterpart m k s i)"
  using assms by (rule counterpart_record)

text \<open>
  C21. The correspondence survives a restart. For a map whose links are symmetric and whose
  names hold none of the separators of keys and pair identities, writing one row per pair and
  reading the rows back gives a map with the same counterparts.
\<close>
theorem links_persist:
  assumes "link_map_ok m"
  shows "counterpart (load (entries m) []) kind s i = counterpart m kind s i"
proof -
  let ?k = "link_key kind s i"
  have "oget (load (entries m) []) ?k = (if \<exists>e \<in> set (entries m). ?k \<in> entry_keys e then oget m ?k else None)"
    using oget_load [of "entries m" m "[]" ?k] entries_agree [OF assms] by simp
  moreover have "\<exists>e \<in> set (entries m). ?k \<in> entry_keys e" if "oget m ?k = Some b" for b
    using entries_cover [OF assms map_of_SomeD [OF that]] .
  ultimately show ?thesis by (cases "oget m ?k") (auto simp: counterpart_def)
qed

theorem links_persist_witness:
  "counterpart (load (entries (record_link (u ''issue'') \<lparr>l_system = u ''o/r'', l_id = u ''1''\<rparr>
     \<lparr>l_system = u ''x/y'', l_id = u ''2''\<rparr> [])) []) (u ''issue'') (u ''o/r'') (u ''1'')
   = Some \<lparr>l_system = u ''x/y'', l_id = u ''2''\<rparr>"
proof -
  let ?a = "\<lparr>l_system = u ''o/r'', l_id = u ''1''\<rparr>" and ?b = "\<lparr>l_system = u ''x/y'', l_id = u ''2''\<rparr>"
  let ?m = "record_link (u ''issue'') ?a ?b []"
  have keys: "link_key (u ''issue'') (u ''o/r'') (u ''1'') \<noteq> link_key (u ''issue'') (u ''x/y'') (u ''2'')"
    by code_simp
  have m: "?m = [(link_key (u ''issue'') (u ''o/r'') (u ''1''), ?b), (link_key (u ''issue'') (u ''x/y'') (u ''2''), ?a)]"
    using keys by (simp add: record_link_def)
  have plain: "plain_name (u ''issue'')" "plain_link ?a" "plain_link ?b" by code_simp+
  have "link_map_ok ?m"
    unfolding link_map_ok_def m using keys plain
    by (auto intro!: exI [of _ "u ''issue''"] exI [of _ ?a] exI [of _ ?b])
  from links_persist [OF this] show ?thesis using keys by (simp add: counterpart_def m)
qed

text \<open>
  Ids with a space do not survive it. The key of a record is split at its spaces when
  the rows are written, so that a linked record whose id has a space loses the rest of its id.
\<close>
lemma id_with_space_truncated:
  "entries (record_link (u ''issue'') \<lparr>l_system = u ''cal'', l_id = u ''a b''\<rparr> \<lparr>l_system = u ''x/y'', l_id = u ''2''\<rparr> [])
    = [\<lparr>e_kind = u ''issue'', e_a = \<lparr>l_system = u ''cal'', l_id = u ''a''\<rparr>, e_b = \<lparr>l_system = u ''x/y'', l_id = u ''2''\<rparr>\<rparr>,
       \<lparr>e_kind = u ''issue'', e_a = \<lparr>l_system = u ''x/y'', l_id = u ''2''\<rparr>, e_b = \<lparr>l_system = u ''cal'', l_id = u ''a b''\<rparr>\<rparr>]"
  by code_simp

end
