(* ===== verification/Js_Group.thy ===== *)
theory Js_Group
  imports Js
begin

text \<open>
  Grouping with a \<open>Map\<close>, as many functions do: look the entry of a row's key up, make it
  when there is none, change it, and put it back. The entries stay in the order in which
  their keys were first seen. Changing an entry may throw, which ends the whole loop
  (\<open>None\<close>).
\<close>

fun group_into ::
  "('r \<Rightarrow> 'k) \<Rightarrow> ('r \<Rightarrow> 'e) \<Rightarrow> ('r \<Rightarrow> 'e \<Rightarrow> 'e option) \<Rightarrow> ('k, 'e) omap \<Rightarrow> 'r list \<Rightarrow> ('k, 'e) omap option" where
  "group_into key new add m [] = Some m"
| "group_into key new add m (r # rs) =
     (case add r (oget_or (new r) m (key r)) of
        None \<Rightarrow> None
      | Some e \<Rightarrow> group_into key new add (oset (key r) e m) rs)"

fun accumulate :: "('r \<Rightarrow> 'e) \<Rightarrow> ('r \<Rightarrow> 'e \<Rightarrow> 'e option) \<Rightarrow> 'e option \<Rightarrow> 'r list \<Rightarrow> 'e option" where
  "accumulate new add e [] = e"
| "accumulate new add e (r # rs) =
     accumulate new add (add r (case e of None \<Rightarrow> new r | Some x \<Rightarrow> x)) rs"

fun add_keys :: "'k list \<Rightarrow> 'k list \<Rightarrow> 'k list" where
  "add_keys ks [] = ks"
| "add_keys ks (x # xs) = add_keys (if x \<in> set ks then ks else ks @ [x]) xs"

definition first_seen :: "'k list \<Rightarrow> 'k list" where
  "first_seen xs = add_keys [] xs"

lemma add_keys_append: "add_keys ks (xs @ ys) = add_keys (add_keys ks xs) ys"
  by (induction xs arbitrary: ks) simp_all

lemma set_add_keys [simp]: "set (add_keys ks xs) = set ks \<union> set xs"
  by (induction xs arbitrary: ks) auto

lemma distinct_add_keys: "distinct ks \<Longrightarrow> distinct (add_keys ks xs)"
  by (induction xs arbitrary: ks) auto

lemma first_seen_simps [simp]:
  "first_seen [] = []"
  "first_seen (xs @ [x]) = (if x \<in> set xs then first_seen xs else first_seen xs @ [x])"
  by (simp_all add: first_seen_def add_keys_append)

lemma set_first_seen [simp]: "set (first_seen xs) = set xs"
  by (simp add: first_seen_def)

lemma distinct_first_seen [simp]: "distinct (first_seen xs)"
  by (simp add: first_seen_def distinct_add_keys)

lemma okeys_oset: "okeys (oset k v m) = (if k \<in> set (okeys m) then okeys m else okeys m @ [k])"
  by (induction m) auto

lemma okeys_group_into:
  "group_into key new add m rs = Some m' \<Longrightarrow> okeys m' = add_keys (okeys m) (map key rs)"
  by (induction rs arbitrary: m) (auto simp: okeys_oset split: option.splits)

lemma oget_group_into:
  "group_into key new add m rs = Some m' \<Longrightarrow>
    oget m' k = accumulate new add (oget m k) (filter (\<lambda>r. key r = k) rs)"
proof (induction rs arbitrary: m)
  case (Cons r rs)
  then obtain e where e: "add r (oget_or (new r) m (key r)) = Some e"
    and rest: "group_into key new add (oset (key r) e m) rs = Some m'"
    by (auto split: option.splits)
  from Cons.IH [OF rest]
  have ih: "oget m' k = accumulate new add (oget (oset (key r) e m) k) (filter (\<lambda>r. key r = k) rs)" .
  show ?case
  proof (cases "key r = k")
    case True
    with ih e show ?thesis by (simp add: oget_or_def)
  qed (use ih in simp)
qed simp

text \<open>A number that every row adds to: the entry of a key holds the sum over its rows.\<close>

locale summing =
  fixes new :: "'r \<Rightarrow> 'e" and add :: "'r \<Rightarrow> 'e \<Rightarrow> 'e option" and total :: "'e \<Rightarrow> int"
    and part :: "'r \<Rightarrow> int"
  assumes new: "total (new r) = 0"
    and add: "add r e = Some e' \<Longrightarrow> total e' = total e + part r"
begin

lemma accumulate_total:
  "accumulate new add (Some e) rs = Some e' \<Longrightarrow> \<forall>r \<in> set rs. \<forall>x. add r x \<noteq> None \<Longrightarrow>
    total e' = total e + sum_list (map part rs)"
proof (induction rs arbitrary: e)
  case (Cons r rs)
  then have "add r e \<noteq> None" by auto
  then obtain x where x: "add r e = Some x" by (cases "add r e") auto
  with Cons have "total e' = total x + sum_list (map part rs)" by simp
  with add [OF x] show ?case by simp
qed simp

lemma group_total:
  assumes m: "group_into key new add [] rs = Some m" "oget m k = Some e"
    and ok: "\<forall>r \<in> set rs. \<forall>x. add r x \<noteq> None"
  shows "total e = sum_list (map part (filter (\<lambda>r. key r = k) rs))"
proof -
  have acc: "accumulate new add None (filter (\<lambda>r. key r = k) rs) = Some e"
    using oget_group_into [OF m(1), of k] m(2) by simp
  show ?thesis
  proof (cases "filter (\<lambda>r. key r = k) rs")
    case Nil
    with acc show ?thesis by simp
  next
    case (Cons r rs')
    then have "set (r # rs') \<subseteq> set rs" by (metis filter_is_subset)
    with ok have "\<forall>q \<in> set (r # rs'). \<forall>x. add q x \<noteq> None" by blast
    moreover have "accumulate new add (Some (new r)) (r # rs') = Some e"
      using acc Cons by simp
    ultimately show ?thesis using accumulate_total [of "new r" "r # rs'" e] new [of r] Cons by simp
  qed
qed

end

lemma group_into_total:
  "\<forall>r \<in> set rs. \<forall>x. add r x \<noteq> None \<Longrightarrow> \<exists>m'. group_into key new add m rs = Some m'"
  by (induction rs arbitrary: m) (auto split: option.split)

lemma group_into_keys:
  assumes "group_into key new add [] rs = Some m"
  shows "okeys m = first_seen (map key rs)" "owf m"
    "\<And>k e. (k, e) \<in> set m \<longleftrightarrow> oget m k = Some e"
proof -
  show keys: "okeys m = first_seen (map key rs)"
    using okeys_group_into [OF assms] by (simp add: first_seen_def)
  then show "owf m" by simp
  then show "(k, e) \<in> set m \<longleftrightarrow> oget m k = Some e" for k e by simp
qed

end
