(* ===== verification/Dv_Reconcile.thy ===== *)
theory Dv_Reconcile
  imports Js_Group
begin

text \<open>
  Three-way reconciliation of one record (\<^verbatim>\<open>src/devonian/src/reconcileRecord.ts\<close>).

  Two values are equal when their canonical texts are. The text comes from a package that
  is not part of the repository: it is the parameter \<open>stringify\<close>, a function of the value
  (\<open>None\<close> is \<open>undefined\<close>). Nothing is assumed of it.
\<close>

type_synonym stringify = "json option \<Rightarrow> string option"

text \<open>\<open>undefined\<close> (unseen), \<open>null\<close> (deleted) or the canonical properties.\<close>

datatype sync_record = Unseen | Deleted | Rec "(string, json) omap"

record sync_conflict =
  cf_property :: string
  cf_base :: "json option"
  cf_local :: "json option"
  cf_remote :: "json option"

text \<open>A property set to \<open>None\<close> is set to \<open>undefined\<close>: it is to be removed.\<close>

record sync_decision =
  to_local :: "(string, json option) omap"
  to_remote :: "(string, json option) omap"
  createLocal :: bool
  createRemote :: bool
  deleteLocal :: bool
  deleteRemote :: bool
  conflicts :: "sync_conflict list"
  agreed :: "sync_record option"

definition record_value :: "sync_record \<Rightarrow> json option" where
  "record_value r = (case r of Unseen \<Rightarrow> None | Deleted \<Rightarrow> Some JNull | Rec ps \<Rightarrow> Some (JObj ps))"

text \<open>\<open>record?.[property]\<close> and \<open>record ?? {}\<close>\<close>

definition props :: "sync_record \<Rightarrow> (string, json) omap" where
  "props r = (case r of Rec ps \<Rightarrow> ps | _ \<Rightarrow> [])"

definition equal :: "stringify \<Rightarrow> json option \<Rightarrow> json option \<Rightarrow> bool" where
  "equal stringify a b = (stringify a = stringify b)"

definition no_decision :: sync_decision where
  "no_decision = \<lparr>to_local = [], to_remote = [], createLocal = False, createRemote = False,
     deleteLocal = False, deleteRemote = False, conflicts = [], agreed = None\<rparr>"

text \<open>The body of the loop over properties.\<close>

definition decide_property ::
  "stringify \<Rightarrow> sync_record \<Rightarrow> sync_record \<Rightarrow> sync_record \<Rightarrow> sync_decision \<Rightarrow> string \<Rightarrow> sync_decision"
where
  "decide_property stringify base loc rem d p =
     (let before = oget (props base) p; here = oget (props loc) p; there = oget (props rem) p
      in if equal stringify here there then d
         else if equal stringify here before then d\<lparr>to_local := oset p there (to_local d)\<rparr>
         else if equal stringify there before then d\<lparr>to_remote := oset p here (to_remote d)\<rparr>
         else d\<lparr>conflicts := conflicts d @
                 [\<lparr>cf_property = p, cf_base = before, cf_local = here, cf_remote = there\<rparr>]\<rparr>)"

definition all_properties :: "sync_record \<Rightarrow> sync_record \<Rightarrow> sync_record \<Rightarrow> string list" where
  "all_properties base loc rem =
     first_seen (okeys (props base) @ okeys (props loc) @ okeys (props rem))"

definition reconcileRecord ::
  "stringify \<Rightarrow> sync_record \<Rightarrow> sync_record \<Rightarrow> sync_record \<Rightarrow> sync_decision" where
  "reconcileRecord stringify base loc rem =
     (let eq = \<lambda>a b. equal stringify (record_value a) (record_value b) in
      if eq loc rem then
        (if loc \<noteq> Unseen then no_decision\<lparr>agreed := Some loc\<rparr> else no_decision)
      else if loc = Deleted \<or> rem = Deleted then
        (if eq loc base \<and> rem = Deleted then no_decision\<lparr>deleteLocal := True\<rparr>
         else if eq rem base \<and> loc = Deleted then no_decision\<lparr>deleteRemote := True\<rparr>
         else no_decision\<lparr>conflicts :=
           [\<lparr>cf_property = ''@record'', cf_base = record_value base,
             cf_local = record_value loc, cf_remote = record_value rem\<rparr>]\<rparr>)
      else if base \<noteq> Unseen \<and> (loc = Unseen \<or> rem = Unseen) then no_decision
      else
        foldl (decide_property stringify base loc rem)
          (no_decision\<lparr>createLocal := base = Unseen \<and> loc = Unseen \<and> rem \<noteq> Unseen,
                       createRemote := base = Unseen \<and> rem = Unseen \<and> loc \<noteq> Unseen\<rparr>)
          (all_properties base loc rem))"

text \<open>\<open>None\<close> is the error thrown when the projections still differ.\<close>

definition acknowledgedBaseline :: "stringify \<Rightarrow> sync_record \<Rightarrow> sync_record \<Rightarrow> sync_record option" where
  "acknowledgedBaseline stringify loc rem =
     (if equal stringify (record_value loc) (record_value rem) then Some loc else None)"

section \<open>The decision, property by property\<close>

text \<open>What a host does with a decision: set or remove the properties it names.\<close>

definition apply_changes :: "(string, json option) omap \<Rightarrow> (string, json) omap \<Rightarrow> string \<Rightarrow> json option" where
  "apply_changes changes r p = (case oget changes p of Some v \<Rightarrow> v | None \<Rightarrow> oget r p)"

definition conflicting :: "sync_decision \<Rightarrow> string \<Rightarrow> bool" where
  "conflicting d p \<longleftrightarrow> p \<in> cf_property ` set (conflicts d)"

lemma decide_other:
  "p \<noteq> q \<Longrightarrow> oget (to_local (decide_property s base loc rem d q)) p = oget (to_local d) p"
  "p \<noteq> q \<Longrightarrow> oget (to_remote (decide_property s base loc rem d q)) p = oget (to_remote d) p"
  "p \<noteq> q \<Longrightarrow> conflicting (decide_property s base loc rem d q) p = conflicting d p"
  by (auto simp: decide_property_def Let_def conflicting_def)

lemma decide_flags [simp]:
  "createLocal (decide_property s base loc rem d q) = createLocal d"
  "createRemote (decide_property s base loc rem d q) = createRemote d"
  "deleteLocal (decide_property s base loc rem d q) = deleteLocal d"
  "deleteRemote (decide_property s base loc rem d q) = deleteRemote d"
  "agreed (decide_property s base loc rem d q) = agreed d"
  by (simp_all add: decide_property_def Let_def)

lemma foldl_decide_other:
  "p \<notin> set qs \<Longrightarrow>
    oget (to_local (foldl (decide_property s base loc rem) d qs)) p = oget (to_local d) p
    \<and> oget (to_remote (foldl (decide_property s base loc rem) d qs)) p = oget (to_remote d) p
    \<and> conflicting (foldl (decide_property s base loc rem) d qs) p = conflicting d p"
  by (induction qs arbitrary: d) (auto simp: decide_other)

lemma foldl_decide_flags [simp]:
  "createLocal (foldl (decide_property s base loc rem) d qs) = createLocal d"
  "createRemote (foldl (decide_property s base loc rem) d qs) = createRemote d"
  "deleteLocal (foldl (decide_property s base loc rem) d qs) = deleteLocal d"
  "deleteRemote (foldl (decide_property s base loc rem) d qs) = deleteRemote d"
  "agreed (foldl (decide_property s base loc rem) d qs) = agreed d"
  by (induction qs arbitrary: d) simp_all

definition untouched :: "sync_decision \<Rightarrow> string \<Rightarrow> bool" where
  "untouched d p \<longleftrightarrow> oget (to_local d) p = None \<and> oget (to_remote d) p = None \<and> \<not> conflicting d p"

text \<open>Each property is decided on its own, once.\<close>

lemma foldl_decide:
  fixes s base loc rem d
  defines "r \<equiv> foldl (decide_property s base loc rem) d"
    and "d1 \<equiv> decide_property s base loc rem d"
  assumes "untouched d p" "distinct qs" "p \<in> set qs"
  shows "oget (to_local (r qs)) p = oget (to_local (d1 p)) p
    \<and> oget (to_remote (r qs)) p = oget (to_remote (d1 p)) p
    \<and> conflicting (r qs) p = conflicting (d1 p) p"
  using assms(3-5) unfolding r_def d1_def
proof (induction qs arbitrary: d)
  case (Cons q qs)
  show ?case
  proof (cases "q = p")
    case True
    with Cons.prems foldl_decide_other [of p qs] show ?thesis by simp
  next
    case False
    let ?d = "decide_property s base loc rem d q"
    have un: "untouched ?d p" using Cons.prems(1) False by (simp add: untouched_def decide_other)
    then have "oget (to_local (decide_property s base loc rem ?d p)) p
        = oget (to_local (decide_property s base loc rem d p)) p
      \<and> oget (to_remote (decide_property s base loc rem ?d p)) p
        = oget (to_remote (decide_property s base loc rem d p)) p
      \<and> conflicting (decide_property s base loc rem ?d p) p
        = conflicting (decide_property s base loc rem d p) p"
      using Cons.prems(1)
      by (auto simp: decide_property_def [of s base loc rem _ p] Let_def untouched_def conflicting_def)
    with Cons.IH [OF un] Cons.prems False show ?thesis by simp
  qed
qed simp

lemma not_in_all:
  "p \<notin> set (all_properties base loc rem) \<Longrightarrow>
    oget (props base) p = None \<and> oget (props loc) p = None \<and> oget (props rem) p = None"
  by (auto simp: all_properties_def map_of_eq_None_iff)

text \<open>The outcome for one property.\<close>

lemma decided:
  fixes s base loc rem d0 p
  defines "d \<equiv> foldl (decide_property s base loc rem) d0 (all_properties base loc rem)"
    and "before \<equiv> oget (props base) p" and "here \<equiv> oget (props loc) p"
    and "there \<equiv> oget (props rem) p"
  assumes fresh: "untouched d0 p"
  shows "oget (to_local d) p =
      (if \<not> equal s here there \<and> equal s here before then Some there else None)"
    "oget (to_remote d) p =
      (if \<not> equal s here there \<and> \<not> equal s here before \<and> equal s there before
       then Some here else None)"
    "conflicting d p \<longleftrightarrow>
      \<not> equal s here there \<and> \<not> equal s here before \<and> \<not> equal s there before"
proof -
  have "oget (to_local d) p =
      (if \<not> equal s here there \<and> equal s here before then Some there else None)
    \<and> oget (to_remote d) p =
      (if \<not> equal s here there \<and> \<not> equal s here before \<and> equal s there before
       then Some here else None)
    \<and> (conflicting d p \<longleftrightarrow>
      \<not> equal s here there \<and> \<not> equal s here before \<and> \<not> equal s there before)"
  proof (cases "p \<in> set (all_properties base loc rem)")
    case True
    have "distinct (all_properties base loc rem)" by (simp add: all_properties_def)
    from foldl_decide [OF fresh this True, of s base loc rem] show ?thesis
      unfolding d_def using fresh
      by (simp add: decide_property_def Let_def untouched_def before_def here_def there_def
          conflicting_def)
  next
    case False
    with not_in_all [OF False] foldl_decide_other [OF False, of s base loc rem d0] fresh
    show ?thesis
      by (simp add: d_def before_def here_def there_def equal_def untouched_def)
  qed
  then show "oget (to_local d) p =
      (if \<not> equal s here there \<and> equal s here before then Some there else None)"
    "oget (to_remote d) p =
      (if \<not> equal s here there \<and> \<not> equal s here before \<and> equal s there before
       then Some here else None)"
    "conflicting d p \<longleftrightarrow>
      \<not> equal s here there \<and> \<not> equal s here before \<and> \<not> equal s there before"
    by simp_all
qed

text \<open>When the properties are looked at, and what the decision is when they are not.\<close>

lemma reconcile_cases:
  obtains (equal) "equal s (record_value loc) (record_value rem)"
      "reconcileRecord s base loc rem = no_decision\<lparr>agreed := if loc = Unseen then None else Some loc\<rparr>"
  | (deleted) "\<not> equal s (record_value loc) (record_value rem)" "loc = Deleted \<or> rem = Deleted"
      "to_local (reconcileRecord s base loc rem) = []" "to_remote (reconcileRecord s base loc rem) = []"
  | (unseen) "\<not> equal s (record_value loc) (record_value rem)" "loc \<noteq> Deleted" "rem \<noteq> Deleted"
      "base \<noteq> Unseen" "loc = Unseen \<or> rem = Unseen" "reconcileRecord s base loc rem = no_decision"
  | (merge) d0 where "\<not> equal s (record_value loc) (record_value rem)" "loc \<noteq> Deleted" "rem \<noteq> Deleted"
      "base = Unseen \<or> loc \<noteq> Unseen \<and> rem \<noteq> Unseen"
      "d0 = no_decision\<lparr>createLocal := base = Unseen \<and> loc = Unseen \<and> rem \<noteq> Unseen,
                       createRemote := base = Unseen \<and> rem = Unseen \<and> loc \<noteq> Unseen\<rparr>"
      "\<And>p. untouched d0 p"
      "reconcileRecord s base loc rem
        = foldl (decide_property s base loc rem) d0 (all_properties base loc rem)"
proof -
  let ?d0 = "no_decision\<lparr>createLocal := base = Unseen \<and> loc = Unseen \<and> rem \<noteq> Unseen,
                       createRemote := base = Unseen \<and> rem = Unseen \<and> loc \<noteq> Unseen\<rparr>"
  consider "equal s (record_value loc) (record_value rem)"
    | "\<not> equal s (record_value loc) (record_value rem)" "loc = Deleted \<or> rem = Deleted"
    | "\<not> equal s (record_value loc) (record_value rem)" "loc \<noteq> Deleted" "rem \<noteq> Deleted"
      "base \<noteq> Unseen" "loc = Unseen \<or> rem = Unseen"
    | "\<not> equal s (record_value loc) (record_value rem)" "loc \<noteq> Deleted" "rem \<noteq> Deleted"
      "base = Unseen \<or> loc \<noteq> Unseen \<and> rem \<noteq> Unseen" by blast
  then show thesis
  proof cases
    case 1
    then show thesis by (intro equal) (auto simp: reconcileRecord_def no_decision_def)
  next
    case 2
    then show thesis by (intro deleted) (auto simp: reconcileRecord_def no_decision_def)
  next
    case 3
    then show thesis by (intro unseen) (auto simp: reconcileRecord_def no_decision_def)
  next
    case 4
    then show thesis
      by (intro merge [of ?d0]) (auto simp: reconcileRecord_def no_decision_def untouched_def conflicting_def)
  qed
qed

section \<open>Properties\<close>

text \<open>A text of numbers, to try the statements on.\<close>

definition sample_text :: stringify where
  "sample_text = map_option (\<lambda>j. case j of JNum n \<Rightarrow> int_str n | JObj m \<Rightarrow> replicate (length m) CHR ''x'' | _ \<Rightarrow> ''-'')"

definition sample_local :: "(string, json) omap" where "sample_local = [(''a'', JNum 1)]"

definition sample_remote :: "(string, json) omap" where
  "sample_remote = [(''a'', JNum 1), (''b'', JNum 2)]"

lemma sample_differ: "\<not> equal sample_text (Some (JObj sample_local)) (Some (JObj sample_remote))"
  by (simp add: equal_def sample_text_def sample_local_def sample_remote_def)

text \<open>
  C11. Applying the decision makes the sides agree. For two present records that differ, once
  each side has taken the changes meant for it, every property that is not reported as a
  conflict has the same value on both sides; and a conflict leaves both sides as they were.
\<close>
theorem reconcile_converges:
  assumes "\<not> equal s (Some (JObj l)) (Some (JObj r))"
  shows "(if conflicting (reconcileRecord s base (Rec l) (Rec r)) p
    then apply_changes (to_local (reconcileRecord s base (Rec l) (Rec r))) l p = oget l p
      \<and> apply_changes (to_remote (reconcileRecord s base (Rec l) (Rec r))) r p = oget r p
    else equal s (apply_changes (to_local (reconcileRecord s base (Rec l) (Rec r))) l p)
      (apply_changes (to_remote (reconcileRecord s base (Rec l) (Rec r))) r p))"
proof (cases rule: reconcile_cases [of s "Rec l" "Rec r" base])
  case (merge d0)
  then show ?thesis
    by (auto simp: decided apply_changes_def props_def equal_def split: if_splits)
qed (use assms in \<open>auto simp: record_value_def\<close>)

theorem reconcile_converges_witness:
  "(if conflicting (reconcileRecord sample_text Unseen (Rec sample_local) (Rec sample_remote)) ''b''
    then apply_changes (to_local (reconcileRecord sample_text Unseen (Rec sample_local) (Rec sample_remote)))
        sample_local ''b'' = oget sample_local ''b''
      \<and> apply_changes (to_remote (reconcileRecord sample_text Unseen (Rec sample_local) (Rec sample_remote)))
        sample_remote ''b'' = oget sample_remote ''b''
    else equal sample_text
      (apply_changes (to_local (reconcileRecord sample_text Unseen (Rec sample_local) (Rec sample_remote)))
        sample_local ''b'')
      (apply_changes (to_remote (reconcileRecord sample_text Unseen (Rec sample_local) (Rec sample_remote)))
        sample_remote ''b''))"
  by (rule reconcile_converges [OF sample_differ])

text \<open>
  Only the side that has not moved is written. A change for the local side carries the
  remote value of a property whose local value is still that of the baseline, and the other
  way round; nothing is written to both sides; and a side is deleted only when the other
  is explicitly deleted and this one is still the baseline.
\<close>
lemma reconcile_writes_unchanged_side:
  "(\<forall>v. oget (to_local (reconcileRecord s base loc rem)) p = Some v \<longrightarrow>
      v = oget (props rem) p \<and> equal s (oget (props loc) p) (oget (props base) p)
      \<and> oget (to_remote (reconcileRecord s base loc rem)) p = None)
    \<and> (\<forall>v. oget (to_remote (reconcileRecord s base loc rem)) p = Some v \<longrightarrow>
      v = oget (props loc) p \<and> equal s (oget (props rem) p) (oget (props base) p))
    \<and> (deleteLocal (reconcileRecord s base loc rem) \<longrightarrow>
      rem = Deleted \<and> equal s (record_value loc) (record_value base))
    \<and> (deleteRemote (reconcileRecord s base loc rem) \<longrightarrow>
      loc = Deleted \<and> equal s (record_value rem) (record_value base))"
proof (cases rule: reconcile_cases [of s loc rem base])
  case (merge d0)
  then show ?thesis by (auto simp: decided no_decision_def split: if_splits)
next
  case deleted
  then show ?thesis by (auto simp: reconcileRecord_def Let_def no_decision_def split: if_splits)
qed (auto simp: no_decision_def)

text \<open>
  The two sides are treated alike: exchanging local and remote exchanges the changes,
  creations and deletions of the decision and leaves the conflicting properties the same.
\<close>
lemma reconcile_symmetric:
  "oget (to_local (reconcileRecord s base rem loc)) p = oget (to_remote (reconcileRecord s base loc rem)) p
    \<and> createLocal (reconcileRecord s base rem loc) = createRemote (reconcileRecord s base loc rem)
    \<and> deleteLocal (reconcileRecord s base rem loc) = deleteRemote (reconcileRecord s base loc rem)
    \<and> conflicting (reconcileRecord s base rem loc) p = conflicting (reconcileRecord s base loc rem) p"
proof (cases rule: reconcile_cases [of s loc rem base])
  case m: (merge d0)
  show ?thesis
  proof (cases rule: reconcile_cases [of s rem loc base])
    case (merge d1)
    have l: "oget (to_local (reconcileRecord s base rem loc)) p = oget (to_remote (reconcileRecord s base loc rem)) p"
      and c: "conflicting (reconcileRecord s base rem loc) p = conflicting (reconcileRecord s base loc rem) p"
      unfolding m(7) merge(7) decided [OF m(6)] decided [OF merge(6)] equal_def by auto
    have "createLocal (reconcileRecord s base rem loc) = createRemote (reconcileRecord s base loc rem)"
      "deleteLocal (reconcileRecord s base rem loc) = deleteRemote (reconcileRecord s base loc rem)"
      unfolding m(7) merge(7) by (simp_all add: m(5) merge(5) no_decision_def)
    with l c show ?thesis by blast
  next
    case equal
    with m(1) show ?thesis by (simp add: equal_def)
  next
    case deleted
    with m(2,3) show ?thesis by blast
  next
    case unseen
    with m(4) show ?thesis by blast
  qed
next
  case deleted
  have sym: "equal s a b = equal s b a" for a b by (auto simp: equal_def)
  have "\<not> equal s (record_value rem) (record_value loc)" using deleted(1) sym by blast
  moreover have "equal s a a" for a by (simp add: equal_def)
  ultimately show ?thesis using deleted(1,2)
    by (cases "loc = Deleted"; cases "rem = Deleted")
      (simp_all add: reconcileRecord_def Let_def no_decision_def conflicting_def)
next
  case equal
  then have "equal s (record_value rem) (record_value loc)" by (simp add: equal_def)
  with equal show ?thesis by (simp add: reconcileRecord_def no_decision_def conflicting_def)
next
  case unseen
  have "\<not> equal s (record_value rem) (record_value loc)" using unseen(1) by (auto simp: equal_def)
  with unseen(2-5) have "reconcileRecord s base rem loc = no_decision"
    by (auto simp: reconcileRecord_def Let_def)
  with unseen(6) show ?thesis by (simp add: no_decision_def conflicting_def)
qed

end
