(* ===== verification/Dv_Reflect.thy ===== *)
theory Dv_Reflect
  imports Dv_Links
begin

text \<open>
  The reflection of records between two systems (\<^verbatim>\<open>src/devonian/src/reflect/engine.ts\<close>).

  A side's \<open>syncables\<close> clients are parameters: what they list, and what synchronising,
  creating, waiting and changing a state do to the world \<open>'w\<close> the clients live in. An
  operation that may throw gives \<open>Inl\<close> the message, and the world it leaves either way. The
  correspondence and the ledger are the in-memory ones of \<^verbatim>\<open>Dv_Links\<close>.
\<close>

section \<open>Sides and the state of a pass\<close>

text \<open>
  A record as the engine reads it: \<open>String(record[idField])\<close>, and the fields that are \<open>None\<close>
  when they are not strings.
\<close>

record issue =
  i_id :: ustring
  i_body :: "ustring option"
  i_title :: "ustring option"
  i_state :: "ustring option"

record pending_write =
  pw_attempts :: nat
  pw_lastError :: "ustring option"

type_synonym ('a, 'w) outcome = "(ustring + 'a) \<times> 'w"

record 'w client =
  c_sync :: "'w \<Rightarrow> (unit, 'w) outcome"
  c_list :: "'w \<Rightarrow> issue list"
  c_create :: "ustring option \<Rightarrow> ustring \<Rightarrow> 'w \<Rightarrow> (unit, 'w) outcome"
  c_pending :: "'w \<Rightarrow> pending_write list"
  c_wait :: "'w \<Rightarrow> 'w"
  c_now :: "'w \<Rightarrow> int"

record 'w side =
  sd_system :: ustring
  sd_client :: "'w client"
  sd_get :: "ustring \<Rightarrow> 'w \<Rightarrow> issue option"
  sd_comments :: "ustring \<Rightarrow> 'w client"
  sd_setState :: "ustring \<Rightarrow> ustring \<Rightarrow> 'w \<Rightarrow> (unit, 'w) outcome"

record config =
  cf_bidirectional :: bool
  cf_maxAttempts :: nat
  cf_drainTimeoutMs :: nat
  cf_namespace :: ustring

definition default_config :: config where
  "default_config =
     \<lparr>cf_bidirectional = True, cf_maxAttempts = 5, cf_drainTimeoutMs = 15000,
      cf_namespace = DEFAULT_NAMESPACE\<rparr>"

record created =
  cr_kind :: ustring
  cr_from :: ustring
  cr_to :: ustring

record updated =
  up_target :: ustring
  up_state :: ustring

record failed =
  fa_kind :: ustring
  fa_from :: ustring
  fa_error :: ustring

record 'w pass_state =
  ps_world :: 'w
  ps_ids :: id_map
  ps_ledger :: "(ustring, ustring) omap"
  ps_created :: "created list"
  ps_updated :: "updated list"
  ps_errors :: "failed list"

definition bodyOf :: "issue \<Rightarrow> ustring" where
  "bodyOf r = (case i_body r of None \<Rightarrow> [] | Some b \<Rightarrow> b)"

definition stateOf :: "issue \<Rightarrow> ustring" where
  "stateOf r = (case i_state r of None \<Rightarrow> u ''open'' | Some s \<Rightarrow> s)"

definition marker_of :: "config \<Rightarrow> issue \<Rightarrow> origin_ref option" where
  "marker_of cf r = parseMarker (cf_namespace cf) (bodyOf r)"

section \<open>Waiting for a write\<close>

definition write_stuck :: "config \<Rightarrow> pending_write \<Rightarrow> bool" where
  "write_stuck cf p \<longleftrightarrow>
     cf_maxAttempts cf \<le> pw_attempts p \<and> pw_lastError p \<noteq> None \<and> pw_lastError p \<noteq> Some []"

definition timed_out :: ustring where
  "timed_out = u ''timed out waiting for write to settle''"

text \<open>The polls of \<open>drain\<close>, at most as many as the fuel.\<close>

fun drain_polls :: "config \<Rightarrow> 'w client \<Rightarrow> int \<Rightarrow> nat \<Rightarrow> 'w \<Rightarrow> (unit, 'w) outcome" where
  "drain_polls cf cl deadline 0 w = (Inl timed_out, w)"
| "drain_polls cf cl deadline (Suc n) w =
     (if c_pending cl w = [] then (Inr (), w)
      else case List.find (write_stuck cf) (c_pending cl w) of
        Some p \<Rightarrow> (Inl (u ''write failed: '' @ the (pw_lastError p)), w)
      | None \<Rightarrow>
          if deadline < c_now cl w then (Inl timed_out, w)
          else drain_polls cf cl deadline n (c_wait cl w))"

text \<open>Every wait takes at least a millisecond, so that the fuel outlasts the deadline.\<close>

definition drain :: "config \<Rightarrow> 'w client \<Rightarrow> 'w \<Rightarrow> (unit, 'w) outcome" where
  "drain cf cl w =
     drain_polls cf cl (c_now cl w + int (cf_drainTimeoutMs cf)) (cf_drainTimeoutMs cf + 2) w"

section \<open>Copies\<close>

definition copies_origin :: "config \<Rightarrow> ustring \<Rightarrow> ustring \<Rightarrow> ustring \<Rightarrow> issue \<Rightarrow> bool" where
  "copies_origin cf kind system i c =
     (case marker_of cf c of
        None \<Rightarrow> False
      | Some m \<Rightarrow> or_kind m = kind \<and> or_system m = system \<and> or_id m = i)"

text \<open>
  A marked copy of a record: embed, create, wait, and find it. \<open>title\<close> is \<open>None\<close> for a
  comment, \<open>missing\<close> the message when the copy does not appear.
\<close>

definition create_copy ::
  "config \<Rightarrow> ustring \<Rightarrow> ustring \<Rightarrow> ustring option \<Rightarrow> ustring \<Rightarrow> 'w client \<Rightarrow> issue \<Rightarrow> ustring \<Rightarrow> 'w
    \<Rightarrow> (ustring, 'w) outcome"
where
  "create_copy cf kind missing title from_system cl r i w =
     (case embedMarker (cf_namespace cf) (stripMarker (cf_namespace cf) (bodyOf r))
             \<lparr>or_system = from_system, or_kind = kind, or_id = i\<rparr> of
        None \<Rightarrow> (Inl (u ''URI malformed''), w)
      | Some body \<Rightarrow>
          (case c_create cl title body w of
             (Inl e, w) \<Rightarrow> (Inl e, w)
           | (Inr _, w) \<Rightarrow>
               (case drain cf cl w of
                  (Inl e, w) \<Rightarrow> (Inl e, w)
                | (Inr _, w) \<Rightarrow>
                    (case List.find (copies_origin cf kind from_system i) (c_list cl w) of
                       None \<Rightarrow> (Inl missing, w)
                     | Some c \<Rightarrow> (Inr (i_id c), w)))))"

text \<open>The copies a destination has already, by the id their marker names.\<close>

definition existing_copies :: "config \<Rightarrow> ustring \<Rightarrow> ustring \<Rightarrow> issue list \<Rightarrow> (ustring, ustring) omap" where
  "existing_copies cf kind from_system dests =
     foldl (\<lambda>m c. case marker_of cf c of
         None \<Rightarrow> m
       | Some mk \<Rightarrow>
           if or_kind mk = kind \<and> or_system mk = from_system then oset (or_id mk) (i_id c) m else m)
       [] dests"

definition is_echo :: "config \<Rightarrow> ustring \<Rightarrow> issue \<Rightarrow> bool" where
  "is_echo cf to_system r =
     (case marker_of cf r of None \<Rightarrow> False | Some m \<Rightarrow> or_system m = to_system)"

definition known_copy ::
  "id_map \<Rightarrow> (ustring, ustring) omap \<Rightarrow> ustring \<Rightarrow> ustring \<Rightarrow> ustring \<Rightarrow> ustring \<Rightarrow> link option"
where
  "known_copy ids existing kind from_system to_system i =
     (case counterpart ids kind from_system i of
        Some l \<Rightarrow> Some l
      | None \<Rightarrow> map_option (\<lambda>x. \<lparr>l_system = to_system, l_id = x\<rparr>) (oget existing i))"

text \<open>
  What distinguishes the copying of issues and of comments: their kind, the two systems, the
  prefixes of the ids in the summary, the creation, and the existing copies.
\<close>

record 'w copying =
  cp_kind :: ustring
  cp_from :: ustring
  cp_to :: ustring
  cp_from_prefix :: ustring
  cp_to_prefix :: ustring
  cp_create :: "issue \<Rightarrow> ustring \<Rightarrow> 'w \<Rightarrow> (ustring, 'w) outcome"
  cp_existing :: "(ustring, ustring) omap"

definition reflect_record :: "config \<Rightarrow> 'w copying \<Rightarrow> issue \<Rightarrow> 'w pass_state \<Rightarrow> 'w pass_state" where
  "reflect_record cf cp r st =
     (let i = i_id r; here = \<lparr>l_system = cp_from cp, l_id = i\<rparr> in
      if is_echo cf (cp_to cp) r then st
      else case known_copy (ps_ids st) (cp_existing cp) (cp_kind cp) (cp_from cp) (cp_to cp) i of
        Some k \<Rightarrow>
          st\<lparr>ps_ids := record_link (cp_kind cp) here \<lparr>l_system = cp_to cp, l_id = l_id k\<rparr> (ps_ids st)\<rparr>
      | None \<Rightarrow>
          (case cp_create cp r i (ps_world st) of
             (Inr toId, w) \<Rightarrow>
               st\<lparr>ps_world := w,
                  ps_ids := record_link (cp_kind cp) here \<lparr>l_system = cp_to cp, l_id = toId\<rparr> (ps_ids st),
                  ps_created := ps_created st @ [\<lparr>cr_kind = cp_kind cp, cr_from = cp_from_prefix cp @ i,
                    cr_to = cp_to_prefix cp @ toId\<rparr>]\<rparr>
           | (Inl e, w) \<Rightarrow>
               st\<lparr>ps_world := w,
                  ps_errors := ps_errors st @ [\<lparr>fa_kind = cp_kind cp, fa_from = cp_from_prefix cp @ i,
                    fa_error = e\<rparr>]\<rparr>))"

definition reflect_records :: "config \<Rightarrow> 'w copying \<Rightarrow> issue list \<Rightarrow> 'w pass_state \<Rightarrow> 'w pass_state" where
  "reflect_records cf cp rs st = foldl (\<lambda>st r. reflect_record cf cp r st) st rs"

definition title_of :: "issue \<Rightarrow> ustring" where
  "title_of r = (case i_title r of None \<Rightarrow> [] | Some t \<Rightarrow> t)"

definition issue_copying :: "config \<Rightarrow> 'w side \<Rightarrow> 'w side \<Rightarrow> 'w \<Rightarrow> 'w copying" where
  "issue_copying cf src dst w =
     \<lparr>cp_kind = u ''issue'', cp_from = sd_system src, cp_to = sd_system dst,
      cp_from_prefix = sd_system src @ u ''#'', cp_to_prefix = sd_system dst @ u ''#'',
      cp_create = (\<lambda>r i. create_copy cf (u ''issue'') (u ''created copy not found after write settled'')
        (Some (title_of r)) (sd_system src) (sd_client dst) r i),
      cp_existing = existing_copies cf (u ''issue'') (sd_system src) (c_list (sd_client dst) w)\<rparr>"

definition reflectCreates :: "config \<Rightarrow> 'w side \<Rightarrow> 'w side \<Rightarrow> 'w pass_state \<Rightarrow> 'w pass_state" where
  "reflectCreates cf src dst st =
     reflect_records cf (issue_copying cf src dst (ps_world st)) (c_list (sd_client src) (ps_world st)) st"

section \<open>States\<close>

definition endFor :: "link \<times> link \<Rightarrow> ustring \<Rightarrow> link option" where
  "endFor p system =
     (if l_system (fst p) = system then Some (fst p)
      else if l_system (snd p) = system then Some (snd p) else None)"

definition pairKey :: "ustring \<Rightarrow> ustring \<Rightarrow> ustring \<Rightarrow> ustring \<Rightarrow> ustring" where
  "pairKey sa ia sb ib =
     (let x = sa @ u ''#'' @ ia; y = sb @ u ''#'' @ ib
      in if x \<le> y then x @ u ''|'' @ y else y @ u ''|'' @ x)"

text \<open>Which side is written, and with which state.\<close>

definition decide_state :: "ustring option \<Rightarrow> ustring \<Rightarrow> ustring \<Rightarrow> bool \<Rightarrow> bool \<times> ustring" where
  "decide_state agreed aState bState aIsCopy =
     (if agreed \<noteq> None \<and> Some aState \<noteq> agreed \<and> Some bState = agreed then (False, aState)
      else if agreed \<noteq> None \<and> Some bState \<noteq> agreed \<and> Some aState = agreed then (True, bState)
      else if aIsCopy then (True, bState)
      else (False, aState))"

definition write_state ::
  "'w side \<Rightarrow> ustring \<Rightarrow> ustring \<Rightarrow> ustring \<Rightarrow> 'w pass_state \<Rightarrow> 'w pass_state"
where
  "write_state target i winner key st =
     (let name = sd_system target @ u ''#'' @ i in
      case sd_setState target i winner (ps_world st) of
        (Inr _, w) \<Rightarrow>
          st\<lparr>ps_world := w, ps_ledger := kv_set key winner (ps_ledger st),
             ps_updated := ps_updated st @ [\<lparr>up_target = name, up_state = winner\<rparr>]\<rparr>
      | (Inl e, w) \<Rightarrow>
          st\<lparr>ps_world := w,
             ps_errors := ps_errors st @ [\<lparr>fa_kind = u ''issue'', fa_from = name, fa_error = e\<rparr>]\<rparr>)"

definition reflect_pair :: "config \<Rightarrow> 'w side \<Rightarrow> 'w side \<Rightarrow> link \<times> link \<Rightarrow> 'w pass_state \<Rightarrow> 'w pass_state" where
  "reflect_pair cf a b p st =
     (case (endFor p (sd_system a), endFor p (sd_system b)) of
        (Some aEnd, Some bEnd) \<Rightarrow>
          (case (sd_get a (l_id aEnd) (ps_world st), sd_get b (l_id bEnd) (ps_world st)) of
             (Some aIssue, Some bIssue) \<Rightarrow>
               let aState = stateOf aIssue; bState = stateOf bIssue;
                   key = pairKey (sd_system a) (l_id aEnd) (sd_system b) (l_id bEnd);
                   agreed = kv_get (ps_ledger st) key
               in if aState = bState
                  then (if agreed \<noteq> Some aState then st\<lparr>ps_ledger := kv_set key aState (ps_ledger st)\<rparr> else st)
                  else case decide_state agreed aState bState (is_echo cf (sd_system b) aIssue) of
                    (True, winner) \<Rightarrow> write_state a (l_id aEnd) winner key st
                  | (False, winner) \<Rightarrow> write_state b (l_id bEnd) winner key st
           | _ \<Rightarrow> st)
      | _ \<Rightarrow> st)"

definition reflectState :: "config \<Rightarrow> 'w side \<Rightarrow> 'w side \<Rightarrow> 'w pass_state \<Rightarrow> 'w pass_state" where
  "reflectState cf a b st = foldl (\<lambda>st p. reflect_pair cf a b p st) st (links (ps_ids st) (u ''issue''))"

section \<open>Comments and the whole pass\<close>

text \<open>From here on a failed synchronisation ends the pass: the message, and the state it leaves.\<close>

definition sync_client :: "'w client \<Rightarrow> 'w pass_state \<Rightarrow> (unit, 'w pass_state) outcome" where
  "sync_client cl st = (case c_sync cl (ps_world st) of (r, w) \<Rightarrow> (r, st\<lparr>ps_world := w\<rparr>))"

definition bind_pass ::
  "('a, 'w pass_state) outcome \<Rightarrow> ('w pass_state \<Rightarrow> (unit, 'w pass_state) outcome) \<Rightarrow> (unit, 'w pass_state) outcome"
where
  "bind_pass r f = (case r of (Inl e, st) \<Rightarrow> (Inl e, st) | (Inr _, st) \<Rightarrow> f st)"

definition comment_copying ::
  "config \<Rightarrow> 'w side \<Rightarrow> ustring \<Rightarrow> 'w side \<Rightarrow> ustring \<Rightarrow> 'w \<Rightarrow> 'w copying"
where
  "comment_copying cf src srcIssue dst dstIssue w =
     (let cl = sd_comments dst dstIssue in
      \<lparr>cp_kind = u ''comment'', cp_from = sd_system src, cp_to = sd_system dst,
       cp_from_prefix = sd_system src @ u ''#'' @ srcIssue @ u ''/'',
       cp_to_prefix = sd_system dst @ u ''#'' @ dstIssue @ u ''/'',
       cp_create = (\<lambda>r i. create_copy cf (u ''comment'')
         (u ''created comment copy not found after write settled'') None (sd_system src) cl r i),
       cp_existing = existing_copies cf (u ''comment'') (sd_system src) (c_list cl w)\<rparr>)"

definition reflectCommentsOneWay ::
  "config \<Rightarrow> 'w side \<Rightarrow> ustring \<Rightarrow> 'w side \<Rightarrow> ustring \<Rightarrow> 'w pass_state \<Rightarrow> (unit, 'w pass_state) outcome"
where
  "reflectCommentsOneWay cf src srcIssue dst dstIssue st =
     bind_pass (sync_client (sd_comments src srcIssue) st) (\<lambda>st.
     bind_pass (sync_client (sd_comments dst dstIssue) st) (\<lambda>st.
       (Inr (), reflect_records cf (comment_copying cf src srcIssue dst dstIssue (ps_world st))
                  (c_list (sd_comments src srcIssue) (ps_world st)) st)))"

definition reflect_comments_of ::
  "config \<Rightarrow> 'w side \<Rightarrow> 'w side \<Rightarrow> link \<times> link \<Rightarrow> 'w pass_state \<Rightarrow> (unit, 'w pass_state) outcome"
where
  "reflect_comments_of cf a b p st =
     (case (endFor p (sd_system a), endFor p (sd_system b)) of
        (Some aEnd, Some bEnd) \<Rightarrow>
          bind_pass (reflectCommentsOneWay cf a (l_id aEnd) b (l_id bEnd) st) (\<lambda>st.
            if cf_bidirectional cf then reflectCommentsOneWay cf b (l_id bEnd) a (l_id aEnd) st
            else (Inr (), st))
      | _ \<Rightarrow> (Inr (), st))"

fun reflect_comments_loop ::
  "config \<Rightarrow> 'w side \<Rightarrow> 'w side \<Rightarrow> (link \<times> link) list \<Rightarrow> 'w pass_state \<Rightarrow> (unit, 'w pass_state) outcome"
where
  "reflect_comments_loop cf a b [] st = (Inr (), st)"
| "reflect_comments_loop cf a b (p # ps) st =
     bind_pass (reflect_comments_of cf a b p st) (reflect_comments_loop cf a b ps)"

definition reflectComments :: "config \<Rightarrow> 'w side \<Rightarrow> 'w side \<Rightarrow> 'w pass_state \<Rightarrow> (unit, 'w pass_state) outcome" where
  "reflectComments cf a b st = reflect_comments_loop cf a b (links (ps_ids st) (u ''issue'')) st"

definition reflect_pass :: "config \<Rightarrow> 'w side \<Rightarrow> 'w side \<Rightarrow> 'w pass_state \<Rightarrow> (unit, 'w pass_state) outcome" where
  "reflect_pass cf a b st =
     (let st = st\<lparr>ps_created := [], ps_updated := [], ps_errors := []\<rparr> in
      bind_pass (sync_client (sd_client a) st) (\<lambda>st.
      bind_pass (sync_client (sd_client b) st) (\<lambda>st.
        let st = reflectCreates cf a b st;
            st = (if cf_bidirectional cf then reflectCreates cf b a st else st);
            st = reflectState cf a b st
        in reflectComments cf a b st)))"

section \<open>Lemmas\<close>

definition handled :: "config \<Rightarrow> 'w copying \<Rightarrow> id_map \<Rightarrow> issue \<Rightarrow> bool" where
  "handled cf cp ids r \<longleftrightarrow>
     is_echo cf (cp_to cp) r \<or> counterpart ids (cp_kind cp) (cp_from cp) (i_id r) \<noteq> None"

definition nothing_new :: "'w pass_state \<Rightarrow> 'w pass_state \<Rightarrow> bool" where
  "nothing_new st st' \<longleftrightarrow> ps_world st' = ps_world st \<and> ps_ledger st' = ps_ledger st
     \<and> ps_created st' = ps_created st \<and> ps_updated st' = ps_updated st \<and> ps_errors st' = ps_errors st"

lemma nothing_new_trans: "nothing_new a b \<Longrightarrow> nothing_new b c \<Longrightarrow> nothing_new a c"
  by (simp add: nothing_new_def)

lemma counterpart_record_link:
  "counterpart m k s i \<noteq> None \<Longrightarrow> counterpart (record_link kind a b m) k s i \<noteq> None"
  "counterpart (record_link kind a b m) kind (l_system a) (l_id a) \<noteq> None"
  by (simp_all add: counterpart_def record_link_def)

lemma reflect_record_links:
  "counterpart (ps_ids st) k s i \<noteq> None \<Longrightarrow> counterpart (ps_ids (reflect_record cf cp r st)) k s i \<noteq> None"
  using counterpart_record_link(1)
  by (fastforce simp: reflect_record_def Let_def split: option.split sum.split prod.split)

lemma reflect_record_errors:
  "\<exists>es. ps_errors (reflect_record cf cp r st) = ps_errors st @ es"
  by (auto simp: reflect_record_def Let_def split: option.split sum.split prod.split)

lemma reflect_record_handled:
  assumes "ps_errors (reflect_record cf cp r st) = ps_errors st"
  shows "handled cf cp (ps_ids (reflect_record cf cp r st)) r"
proof (cases "is_echo cf (cp_to cp) r")
  case False
  let ?here = "\<lparr>l_system = cp_from cp, l_id = i_id r\<rparr>"
  have "counterpart (record_link (cp_kind cp) ?here b m) (cp_kind cp) (cp_from cp) (i_id r) \<noteq> None" for b m
    using counterpart_record_link(2) [of "cp_kind cp" ?here b m] by simp
  with False assms show ?thesis
    by (auto simp: handled_def reflect_record_def Let_def split: option.splits sum.splits prod.splits)
qed (simp add: handled_def)

lemma reflect_records_Cons:
  "reflect_records cf cp (r # rs) st = reflect_records cf cp rs (reflect_record cf cp r st)"
  by (simp add: reflect_records_def)

lemma reflect_records_links:
  "counterpart (ps_ids st) k s i \<noteq> None \<Longrightarrow> counterpart (ps_ids (reflect_records cf cp rs st)) k s i \<noteq> None"
proof (induction rs arbitrary: st)
  case (Cons r rs)
  show ?case unfolding reflect_records_Cons by (rule Cons.IH [OF reflect_record_links [OF Cons.prems]])
qed (simp add: reflect_records_def)

lemma reflect_records_errors: "\<exists>es. ps_errors (reflect_records cf cp rs st) = ps_errors st @ es"
proof (induction rs arbitrary: st)
  case (Cons r rs)
  from reflect_record_errors [of cf cp r st] Cons [of "reflect_record cf cp r st"] show ?case
    unfolding reflect_records_Cons by auto
qed (simp add: reflect_records_def)

lemma handled_mono:
  "handled cf cp (ps_ids st) r \<Longrightarrow> handled cf cp (ps_ids (reflect_records cf cp rs st)) r"
  unfolding handled_def using reflect_records_links by blast

lemma reflect_records_handled:
  "ps_errors (reflect_records cf cp rs st) = ps_errors st \<Longrightarrow>
    \<forall>r \<in> set rs. handled cf cp (ps_ids (reflect_records cf cp rs st)) r"
proof (induction rs arbitrary: st)
  case (Cons r rs)
  let ?st = "reflect_record cf cp r st"
  obtain es where es: "ps_errors ?st = ps_errors st @ es" using reflect_record_errors by blast
  moreover obtain fs where "ps_errors (reflect_records cf cp rs ?st) = ps_errors ?st @ fs"
    using reflect_records_errors by blast
  ultimately have same: "ps_errors ?st = ps_errors st" "ps_errors (reflect_records cf cp rs ?st) = ps_errors ?st"
    using Cons.prems unfolding reflect_records_Cons by auto
  from handled_mono [OF reflect_record_handled [OF same(1)]] Cons.IH [OF same(2)] show ?case
    unfolding reflect_records_Cons by simp
qed simp

text \<open>Records that are echoes, linked or copied already cost nothing but their link.\<close>

definition settled :: "config \<Rightarrow> 'w copying \<Rightarrow> id_map \<Rightarrow> issue \<Rightarrow> bool" where
  "settled cf cp ids r \<longleftrightarrow> handled cf cp ids r \<or> oget (cp_existing cp) (i_id r) \<noteq> None"

lemma reflect_record_settled:
  assumes "settled cf cp (ps_ids st) r"
  shows "nothing_new st (reflect_record cf cp r st)"
    "handled cf cp (ps_ids (reflect_record cf cp r st)) r"
proof -
  show "nothing_new st (reflect_record cf cp r st)"
    using assms
    by (auto simp: settled_def handled_def reflect_record_def known_copy_def nothing_new_def Let_def split: option.split)
  then show "handled cf cp (ps_ids (reflect_record cf cp r st)) r"
    by (intro reflect_record_handled) (simp add: nothing_new_def)
qed

lemma settled_mono: "settled cf cp (ps_ids st) r \<Longrightarrow> settled cf cp (ps_ids (reflect_record cf cp q st)) r"
  unfolding settled_def handled_def using reflect_record_links by blast

lemma reflect_records_settled:
  "\<forall>r \<in> set rs. settled cf cp (ps_ids st) r \<Longrightarrow> nothing_new st (reflect_records cf cp rs st)"
proof (induction rs arbitrary: st)
  case (Cons r rs)
  then have "nothing_new st (reflect_record cf cp r st)" by (intro reflect_record_settled(1)) simp
  moreover have "nothing_new (reflect_record cf cp r st) (reflect_records cf cp rs (reflect_record cf cp r st))"
    using Cons.prems by (intro Cons.IH ballI settled_mono) simp
  ultimately show ?case unfolding reflect_records_Cons by (rule nothing_new_trans)
qed (simp add: reflect_records_def nothing_new_def)

lemma existing_copies_found:
  "c \<in> set cs \<Longrightarrow> copies_origin cf kind system i c \<Longrightarrow> oget (existing_copies cf kind system cs) i \<noteq> None"
proof (induction cs rule: rev_induct)
  case (snoc x cs)
  then show ?case
    by (cases "c = x") (auto simp: existing_copies_def copies_origin_def split: option.splits)
qed simp

lemma drain_settled: "drain_polls cf cl deadline n w = (Inr x, w') \<Longrightarrow> c_pending cl w' = []"
  by (induction n arbitrary: w) (auto split: if_splits option.splits)

lemma drain_polls_fuel:
  assumes "\<And>w. c_now cl w + 1 \<le> c_now cl (c_wait cl w)"
  shows "deadline - c_now cl w + 1 < int n \<Longrightarrow> 0 < n \<Longrightarrow>
    drain_polls cf cl deadline (n + k) w = drain_polls cf cl deadline n w"
proof (induction n arbitrary: w)
  case (Suc n)
  show ?case
  proof (cases "n = 0")
    case True
    with Suc.prems show ?thesis by (auto split: option.split)
  next
    case False
    have "deadline - c_now cl (c_wait cl w) + 1 < int n" using Suc.prems(1) assms [of w] by simp
    with Suc.IH False have "drain_polls cf cl deadline (n + k) (c_wait cl w) = drain_polls cf cl deadline n (c_wait cl w)"
      by simp
    then show ?thesis by (simp split: option.split)
  qed
qed simp

text \<open>The two ends of a pair and what a state pass does to it.\<close>

lemma kv_get_set [simp]: "kv_get (kv_set k v m) k = Some v"
  by (simp add: kv_get_def kv_set_def)

lemma decide_state_cases:
  "decide_state agreed x y copy = (True, win) \<Longrightarrow> win = y"
  "decide_state agreed x y copy = (False, win) \<Longrightarrow> win = x"
  by (auto simp: decide_state_def split: if_splits)

section \<open>An example\<close>

text \<open>
  Two systems as lists of issues, whose writes settle at once: what the properties are
  applied to.
\<close>

type_synonym two_lists = "issue list \<times> issue list"

definition new_issue :: "issue list \<Rightarrow> ustring option \<Rightarrow> ustring \<Rightarrow> issue" where
  "new_issue rs t b = \<lparr>i_id = [48 + length rs], i_body = Some b, i_title = t, i_state = None\<rparr>"

definition close_issue :: "ustring \<Rightarrow> ustring \<Rightarrow> issue list \<Rightarrow> issue list" where
  "close_issue i s rs = map (\<lambda>r. if i_id r = i then r\<lparr>i_state := Some s\<rparr> else r) rs"

definition first_client :: "two_lists client" where
  "first_client =
     \<lparr>c_sync = (\<lambda>w. (Inr (), w)), c_list = fst,
      c_create = (\<lambda>t b w. (Inr (), (fst w @ [new_issue (fst w) t b], snd w))),
      c_pending = (\<lambda>_. []), c_wait = (\<lambda>w. w), c_now = (\<lambda>_. 0)\<rparr>"

definition second_client :: "two_lists client" where
  "second_client =
     \<lparr>c_sync = (\<lambda>w. (Inr (), w)), c_list = snd,
      c_create = (\<lambda>t b w. (Inr (), (fst w, snd w @ [new_issue (snd w) t b]))),
      c_pending = (\<lambda>_. []), c_wait = (\<lambda>w. w), c_now = (\<lambda>_. 0)\<rparr>"

definition first_side :: "two_lists side" where
  "first_side =
     \<lparr>sd_system = u ''o/a'', sd_client = first_client,
      sd_get = (\<lambda>i w. List.find (\<lambda>r. i_id r = i) (fst w)), sd_comments = (\<lambda>_. first_client),
      sd_setState = (\<lambda>i s w. (Inr (), (close_issue i s (fst w), snd w)))\<rparr>"

definition second_side :: "two_lists side" where
  "second_side =
     \<lparr>sd_system = u ''o/b'', sd_client = second_client,
      sd_get = (\<lambda>i w. List.find (\<lambda>r. i_id r = i) (snd w)), sd_comments = (\<lambda>_. second_client),
      sd_setState = (\<lambda>i s w. (Inr (), (fst w, close_issue i s (snd w))))\<rparr>"

definition sample_issue :: issue where
  "sample_issue = \<lparr>i_id = u ''7'', i_body = Some (u ''Text''), i_title = Some (u ''T''), i_state = Some (u ''closed'')\<rparr>"

definition pass_start :: "two_lists \<Rightarrow> two_lists pass_state" where
  "pass_start w =
     \<lparr>ps_world = w, ps_ids = [], ps_ledger = [], ps_created = [], ps_updated = [], ps_errors = []\<rparr>"

lemma find_close_issue:
  "List.find (\<lambda>r. i_id r = i) rs = Some r \<Longrightarrow>
    List.find (\<lambda>r. i_id r = i) (close_issue i s rs) = Some (r\<lparr>i_state := Some s\<rparr>)"
  by (induction rs) (auto simp: close_issue_def split: if_splits)

section \<open>Properties\<close>

text \<open>
  C22. Reflecting twice copies nothing twice. When copying the issues of one side to the other
  ran without an error, doing it again over the same source issues creates no copy, writes
  nothing, and reports nothing, whatever the clients do: every issue is an echo of the other
  side or has its counterpart on record.
\<close>
theorem reflect_twice:
  assumes "ps_errors (reflectCreates cf src dst st) = ps_errors st"
    and "c_list (sd_client src) (ps_world (reflectCreates cf src dst st)) = c_list (sd_client src) (ps_world st)"
  shows "nothing_new (reflectCreates cf src dst st) (reflectCreates cf src dst (reflectCreates cf src dst st))"
proof -
  let ?cp = "issue_copying cf src dst (ps_world st)" and ?st1 = "reflectCreates cf src dst st"
  let ?cp1 = "issue_copying cf src dst (ps_world ?st1)"
  have "\<forall>r \<in> set (c_list (sd_client src) (ps_world st)). handled cf ?cp (ps_ids ?st1) r"
    using reflect_records_handled assms(1) unfolding reflectCreates_def by blast
  then have "\<forall>r \<in> set (c_list (sd_client src) (ps_world ?st1)). settled cf ?cp1 (ps_ids ?st1) r"
    unfolding assms(2) by (simp add: settled_def handled_def issue_copying_def)
  then have "nothing_new ?st1 (reflect_records cf ?cp1 (c_list (sd_client src) (ps_world ?st1)) ?st1)"
    by (rule reflect_records_settled)
  then show ?thesis unfolding reflectCreates_def [of cf src dst ?st1] .
qed

text \<open>
  Losing the record of links makes no duplicates. When every source issue is an echo or
  has a marked copy at the destination already, a pass creates nothing and reports nothing,
  and afterwards every issue that is no echo has its counterpart on record again.
\<close>
lemma lost_links_recovered:
  assumes "\<forall>r \<in> set (c_list (sd_client src) (ps_world st)). is_echo cf (sd_system dst) r \<or>
      (\<exists>c \<in> set (c_list (sd_client dst) (ps_world st)). copies_origin cf (u ''issue'') (sd_system src) (i_id r) c)"
  shows "nothing_new st (reflectCreates cf src dst st)
    \<and> (\<forall>r \<in> set (c_list (sd_client src) (ps_world st)). is_echo cf (sd_system dst) r
         \<or> counterpart (ps_ids (reflectCreates cf src dst st)) (u ''issue'') (sd_system src) (i_id r) \<noteq> None)"
proof -
  let ?cp = "issue_copying cf src dst (ps_world st)"
  have "settled cf ?cp (ps_ids st) r" if "r \<in> set (c_list (sd_client src) (ps_world st))" for r
  proof -
    from assms that consider "is_echo cf (sd_system dst) r"
      | c where "c \<in> set (c_list (sd_client dst) (ps_world st))"
        "copies_origin cf (u ''issue'') (sd_system src) (i_id r) c" by blast
    then show ?thesis
    proof cases
      case 2
      from existing_copies_found [OF this] show ?thesis by (simp add: settled_def issue_copying_def)
    qed (simp add: settled_def handled_def issue_copying_def)
  qed
  then have same: "nothing_new st (reflectCreates cf src dst st)"
    unfolding reflectCreates_def by (intro reflect_records_settled ballI)
  then have "ps_errors (reflectCreates cf src dst st) = ps_errors st" by (simp add: nothing_new_def)
  then have "\<forall>r \<in> set (c_list (sd_client src) (ps_world st)). handled cf ?cp (ps_ids (reflectCreates cf src dst st)) r"
    using reflect_records_handled unfolding reflectCreates_def by blast
  with same show ?thesis by (simp add: handled_def issue_copying_def)
qed

text \<open>
  A reported copy exists. When the creation of a copy succeeds, the destination has no
  write pending any more, and lists a record with the id it gives, whose marker names exactly
  the original; so a link is never recorded to a record that was not seen.
\<close>
lemma created_copy_exists:
  assumes "create_copy cf kind missing title system cl r i w = (Inr toId, w')"
  shows "c_pending cl w' = [] \<and> (\<exists>c. c \<in> set (c_list cl w') \<and> i_id c = toId
    \<and> marker_of cf c = Some \<lparr>or_system = system, or_kind = kind, or_id = i\<rparr>)"
proof -
  from assms obtain w1 w2 x where d: "drain cf cl w1 = (Inr x, w2)"
    "(case List.find (copies_origin cf kind system i) (c_list cl w2) of
        None \<Rightarrow> (Inl missing, w2) | Some c \<Rightarrow> (Inr (i_id c), w2)) = (Inr toId, w')"
    by (auto simp: create_copy_def split: option.splits prod.splits sum.splits)
  then obtain c where c: "List.find (copies_origin cf kind system i) (c_list cl w2) = Some c"
    "i_id c = toId" "w2 = w'" by (auto split: option.splits)
  then have "c \<in> set (c_list cl w')" "copies_origin cf kind system i c"
    by (auto simp: find_Some_iff)
  moreover have "c_pending cl w' = []" using drain_settled [OF d(1) [unfolded drain_def]] c(3) by simp
  ultimately show ?thesis using c(2)
    by (intro conjI exI [of _ c]) (auto simp: copies_origin_def split: option.splits)
qed

text \<open>
  C23. Waiting for a write ends. If every wait takes at least a millisecond, the polls of
  \<open>drain\<close> come to their own end within the timeout: more polls would change nothing.
\<close>
theorem drain_ends:
  assumes "\<And>w. c_now cl w + 1 \<le> c_now cl (c_wait cl w)"
  shows "drain_polls cf cl (c_now cl w + int (cf_drainTimeoutMs cf)) (cf_drainTimeoutMs cf + 2 + k) w = drain cf cl w"
  unfolding drain_def by (rule drain_polls_fuel [OF assms]) simp_all

theorem drain_ends_witness:
  "\<exists>cl :: int client. c_pending cl 0 \<noteq> [] \<and> drain default_config cl 0 = (Inr (), 60)
    \<and> drain_polls default_config cl 15000 20000 0 = drain default_config cl 0"
proof -
  let ?cl = "\<lparr>c_sync = (\<lambda>w. (Inr (), w)), c_list = (\<lambda>_. []), c_create = (\<lambda>t b w. (Inr (), w)),
    c_pending = (\<lambda>w. if w < 50 then [\<lparr>pw_attempts = 0, pw_lastError = None\<rparr>] else []),
    c_wait = (\<lambda>w. w + 20), c_now = (\<lambda>w. w)\<rparr> :: int client"
  have "drain_polls default_config ?cl (c_now ?cl 0 + int (cf_drainTimeoutMs default_config))
      (cf_drainTimeoutMs default_config + 2 + 4998) 0 = drain default_config ?cl 0"
    by (rule drain_ends) simp
  moreover have "drain default_config ?cl 0 = (Inr (), 60)"
    by (simp add: drain_def default_config_def write_stuck_def eval_nat_numeral)
  ultimately show ?thesis by (intro exI [of _ ?cl]) (simp add: default_config_def)
qed

theorem reflect_twice_witness:
  "\<exists>st. length (ps_created st) = 1 \<and> nothing_new st (reflectCreates default_config first_side second_side st)"
proof -
  let ?st = "pass_start ([sample_issue], [])"
  have "ps_errors (reflectCreates default_config first_side second_side ?st) = ps_errors ?st"
    "c_list (sd_client first_side) (ps_world (reflectCreates default_config first_side second_side ?st)) =
      c_list (sd_client first_side) (ps_world ?st)"
    by code_simp+
  from reflect_twice [OF this]
  have "nothing_new (reflectCreates default_config first_side second_side ?st)
      (reflectCreates default_config first_side second_side (reflectCreates default_config first_side second_side ?st))" .
  moreover have "length (ps_created (reflectCreates default_config first_side second_side ?st)) = 1"
    by code_simp
  ultimately show ?thesis by blast
qed

text \<open>The state two ends should agree on, given what they agreed on before.\<close>

definition agreement :: "config \<Rightarrow> ustring \<Rightarrow> ustring option \<Rightarrow> issue \<Rightarrow> issue \<Rightarrow> ustring" where
  "agreement cf b_system agreed x y =
     (if agreed = Some (stateOf y) then stateOf x
      else if agreed = Some (stateOf x) then stateOf y
      else if is_echo cf b_system x then stateOf y else stateOf x)"

lemma decide_agreement:
  "stateOf x \<noteq> stateOf y \<Longrightarrow>
    snd (decide_state agreed (stateOf x) (stateOf y) (is_echo cf s x)) = agreement cf s agreed x y"
  by (auto simp: decide_state_def agreement_def)

text \<open>Both ends have the state on record for the pair.\<close>

definition pair_agrees :: "'w side \<Rightarrow> ustring \<Rightarrow> 'w side \<Rightarrow> ustring \<Rightarrow> ustring \<Rightarrow> 'w pass_state \<Rightarrow> bool" where
  "pair_agrees a i b j s st \<longleftrightarrow>
     (\<exists>x y. sd_get a i (ps_world st) = Some x \<and> sd_get b j (ps_world st) = Some y
       \<and> stateOf x = s \<and> stateOf y = s
       \<and> kv_get (ps_ledger st) (pairKey (sd_system a) i (sd_system b) j) = Some s)"

lemma reflect_pair_agrees:
  assumes "endFor p (sd_system a) = Some aEnd" "endFor p (sd_system b) = Some bEnd"
    "pair_agrees a (l_id aEnd) b (l_id bEnd) s st"
  shows "reflect_pair cf a b p st = st"
  using assms by (auto simp: reflect_pair_def pair_agrees_def Let_def)

lemma write_state_done:
  assumes "sd_setState t i s (ps_world st) = (Inr (), w)"
  shows "ps_world (write_state t i s key st) = w" "kv_get (ps_ledger (write_state t i s key st)) key = Some s"
    "ps_errors (write_state t i s key st) = ps_errors st"
  using assms by (simp_all add: write_state_def Let_def)

lemma reflect_pair_differ:
  assumes ends: "endFor p (sd_system a) = Some aEnd" "endFor p (sd_system b) = Some bEnd"
    and found: "sd_get a (l_id aEnd) (ps_world st) = Some x" "sd_get b (l_id bEnd) (ps_world st) = Some y"
    and set_a: "\<And>s. \<exists>w r. sd_setState a (l_id aEnd) s (ps_world st) = (Inr (), w)
      \<and> sd_get a (l_id aEnd) w = Some r \<and> stateOf r = s \<and> sd_get b (l_id bEnd) w = Some y"
    and set_b: "\<And>s. \<exists>w r. sd_setState b (l_id bEnd) s (ps_world st) = (Inr (), w)
      \<and> sd_get b (l_id bEnd) w = Some r \<and> stateOf r = s \<and> sd_get a (l_id aEnd) w = Some x"
    and d: "decide_state (kv_get (ps_ledger st) (pairKey (sd_system a) (l_id aEnd) (sd_system b) (l_id bEnd)))
        (stateOf x) (stateOf y) (is_echo cf (sd_system b) x) = (to_a, win)"
    and differ: "stateOf x \<noteq> stateOf y"
  shows "pair_agrees a (l_id aEnd) b (l_id bEnd) win (reflect_pair cf a b p st)"
    "ps_errors (reflect_pair cf a b p st) = ps_errors st"
proof -
  let ?key = "pairKey (sd_system a) (l_id aEnd) (sd_system b) (l_id bEnd)"
  have st': "reflect_pair cf a b p st =
      (if to_a then write_state a (l_id aEnd) win ?key st else write_state b (l_id bEnd) win ?key st)"
    using differ found ends d by (simp add: reflect_pair_def Let_def)
  have "pair_agrees a (l_id aEnd) b (l_id bEnd) win (reflect_pair cf a b p st)
      \<and> ps_errors (reflect_pair cf a b p st) = ps_errors st"
  proof (cases to_a)
    case True
    obtain w r where w: "sd_setState a (l_id aEnd) win (ps_world st) = (Inr (), w)"
      "sd_get a (l_id aEnd) w = Some r" "stateOf r = win" "sd_get b (l_id bEnd) w = Some y"
      using set_a [of win] by blast
    from d True have "win = stateOf y" by (auto dest: decide_state_cases)
    with True st' w(2-4) write_state_done [where key = ?key, OF w(1)] show ?thesis
      by (simp add: pair_agrees_def)
  next
    case False
    obtain w r where w: "sd_setState b (l_id bEnd) win (ps_world st) = (Inr (), w)"
      "sd_get b (l_id bEnd) w = Some r" "stateOf r = win" "sd_get a (l_id aEnd) w = Some x"
      using set_b [of win] by blast
    from d False have "win = stateOf x" by (auto dest: decide_state_cases)
    with False st' w(2-4) write_state_done [where key = ?key, OF w(1)] show ?thesis
      by (simp add: pair_agrees_def)
  qed
  then show "pair_agrees a (l_id aEnd) b (l_id bEnd) win (reflect_pair cf a b p st)"
    "ps_errors (reflect_pair cf a b p st) = ps_errors st" by blast+
qed

lemma reflect_pair_same:
  assumes "endFor p (sd_system a) = Some aEnd" "endFor p (sd_system b) = Some bEnd"
    "sd_get a (l_id aEnd) (ps_world st) = Some x" "sd_get b (l_id bEnd) (ps_world st) = Some y"
    "stateOf x = stateOf y"
  shows "pair_agrees a (l_id aEnd) b (l_id bEnd) (stateOf x) (reflect_pair cf a b p st)"
    "ps_errors (reflect_pair cf a b p st) = ps_errors st"
  using assms by (auto simp: reflect_pair_def pair_agrees_def Let_def)

text \<open>
  C24. A state pass brings a pair to agreement. If setting a state works and leaves the other
  side alone, then after the pass both ends of a linked pair have the same state, which is the
  one on record for the pair: that of the end that changed since they last agreed, and the
  original's when both did or nothing is known. No error is reported, and a further pass over
  the pair changes nothing at all.
\<close>
theorem states_agree:
  fixes cf :: config
  assumes ends: "endFor p (sd_system a) = Some aEnd" "endFor p (sd_system b) = Some bEnd"
    and found: "sd_get a (l_id aEnd) (ps_world st) = Some x" "sd_get b (l_id bEnd) (ps_world st) = Some y"
    and set_a: "\<And>s. \<exists>w r. sd_setState a (l_id aEnd) s (ps_world st) = (Inr (), w)
      \<and> sd_get a (l_id aEnd) w = Some r \<and> stateOf r = s \<and> sd_get b (l_id bEnd) w = Some y"
    and set_b: "\<And>s. \<exists>w r. sd_setState b (l_id bEnd) s (ps_world st) = (Inr (), w)
      \<and> sd_get b (l_id bEnd) w = Some r \<and> stateOf r = s \<and> sd_get a (l_id aEnd) w = Some x"
  shows "pair_agrees a (l_id aEnd) b (l_id bEnd)
      (if stateOf x = stateOf y then stateOf x
       else agreement cf (sd_system b)
         (kv_get (ps_ledger st) (pairKey (sd_system a) (l_id aEnd) (sd_system b) (l_id bEnd))) x y)
      (reflect_pair cf a b p st)
    \<and> ps_errors (reflect_pair cf a b p st) = ps_errors st
    \<and> reflect_pair cf a b p (reflect_pair cf a b p st) = reflect_pair cf a b p st"
proof (cases "stateOf x = stateOf y")
  case True
  note r = reflect_pair_same [OF ends found True, of cf]
  from r reflect_pair_agrees [OF ends r(1)] True show ?thesis by simp
next
  case False
  let ?agreed = "kv_get (ps_ledger st) (pairKey (sd_system a) (l_id aEnd) (sd_system b) (l_id bEnd))"
  obtain to_a win where d: "decide_state ?agreed (stateOf x) (stateOf y) (is_echo cf (sd_system b) x) = (to_a, win)"
    by fastforce
  note r = reflect_pair_differ [OF ends found set_a set_b d False]
  from decide_agreement [OF False, of ?agreed cf "sd_system b"] d False r reflect_pair_agrees [OF ends r(1)]
  show ?thesis by simp
qed

theorem states_agree_witness:
  "pair_agrees first_side (u ''7'') second_side (u ''0'') (u ''closed'')
    (reflect_pair default_config first_side second_side
      (\<lparr>l_system = u ''o/a'', l_id = u ''7''\<rparr>, \<lparr>l_system = u ''o/b'', l_id = u ''0''\<rparr>)
      (pass_start ([sample_issue], [new_issue [] None []])))"
proof -
  let ?a = "\<lparr>l_system = u ''o/a'', l_id = u ''7''\<rparr>" and ?b = "\<lparr>l_system = u ''o/b'', l_id = u ''0''\<rparr>"
  let ?y = "new_issue [] None []" and ?w = "([sample_issue], [new_issue [] None []])"
  have ids: "i_id sample_issue = u ''7''" "i_id ?y = u ''0''" by code_simp+
  have ends: "endFor (?a, ?b) (sd_system first_side) = Some ?a" "endFor (?a, ?b) (sd_system second_side) = Some ?b"
    by code_simp+
  have found: "sd_get first_side (l_id ?a) (ps_world (pass_start ?w)) = Some sample_issue"
    "sd_get second_side (l_id ?b) (ps_world (pass_start ?w)) = Some ?y"
    using ids by (simp_all add: first_side_def second_side_def pass_start_def)
  have set_a: "\<exists>w r. sd_setState first_side (l_id ?a) s (ps_world (pass_start ?w)) = (Inr (), w)
      \<and> sd_get first_side (l_id ?a) w = Some r \<and> stateOf r = s \<and> sd_get second_side (l_id ?b) w = Some ?y" for s
    using ids by (simp add: first_side_def second_side_def pass_start_def close_issue_def stateOf_def)
  have set_b: "\<exists>w r. sd_setState second_side (l_id ?b) s (ps_world (pass_start ?w)) = (Inr (), w)
      \<and> sd_get second_side (l_id ?b) w = Some r \<and> stateOf r = s \<and> sd_get first_side (l_id ?a) w = Some sample_issue" for s
    using ids by (simp add: first_side_def second_side_def pass_start_def close_issue_def stateOf_def)
  have "(if stateOf sample_issue = stateOf ?y then stateOf sample_issue
       else agreement default_config (sd_system second_side) (kv_get (ps_ledger (pass_start ?w))
         (pairKey (sd_system first_side) (l_id ?a) (sd_system second_side) (l_id ?b))) sample_issue ?y) = u ''closed''"
    by code_simp
  with states_agree [OF ends found set_a set_b, of default_config] show ?thesis by simp
qed

text \<open>
  A copy of a third system's issue is no echo: the pair that sees it copies it onward, under
  its own marker.
\<close>
lemma copy_of_third_system_reflected:
  assumes "marker_of cf r = Some m" "or_system m \<noteq> cp_to cp"
    "known_copy (ps_ids st) (cp_existing cp) (cp_kind cp) (cp_from cp) (cp_to cp) (i_id r) = None"
    "cp_create cp r (i_id r) (ps_world st) = (Inr toId, w)"
  shows "ps_world (reflect_record cf cp r st) = w"
    "length (ps_created (reflect_record cf cp r st)) = length (ps_created st) + 1"
  using assms by (simp_all add: reflect_record_def is_echo_def Let_def)

end
