(* ===== verification/Dv_Storage.thy ===== *)
theory Dv_Storage
  imports Js_Text
begin

text \<open>
  \<open>devonian/src/storage/IndexedStorage.ts\<close> over \<open>InMemory.ts\<close>: rows found by the identifiers
  other platforms gave them, or else by their values, and the upsert that keeps one row per
  entity.

  A row is a JavaScript object whose values JSON can write; its property \<open>foreignIds\<close> may be
  anything or be missing, and what the code does then (a \<open>TypeError\<close>, or the own properties of an
  array or a string) is modelled. The rows are an array that may have holes. A position is a JavaScript number: \<open>None\<close> is NaN, and a position that is
  not an array index names a property of the array that its length does not count.

  \<open>ensureRow\<close> is asynchronous: several calls may be under way. The relation \<open>step\<close> lets each
  call advance from one \<open>await\<close> to the next, in any interleaving: one scan of the rows per
  step, and the update of the rows in one step, as in the code there is no \<open>await\<close> between the
  choice of the position and \<open>setRow\<close>. A row is a value: a caller that later changes the object
  it passed in (\<open>DevonianTable\<close> passes a copy) is not modelled.
\<close>

section \<open>Rows\<close>

type_synonym row = "(string, json) omap"

type_synonym position = "int option"

record rows =
  elements :: "row option list"
  named :: "(position, row) omap"

definition no_rows :: rows where
  "no_rows = \<lparr>elements = [], named = []\<rparr>"

definition row_at :: "rows \<Rightarrow> position \<Rightarrow> row option" where
  "row_at rs p =
     (case p of
        Some n \<Rightarrow> if 0 \<le> n then (if nat n < length (elements rs) then elements rs ! nat n else None)
                  else oget (named rs) p
      | None \<Rightarrow> oget (named rs) p)"

text \<open>\<open>rows[i] = row\<close>: an index past the end extends the array with holes.\<close>

definition with_room :: "nat \<Rightarrow> row option list \<Rightarrow> row option list" where
  "with_room n xs = xs @ replicate (Suc n - length xs) None"

definition setRow :: "position \<Rightarrow> row \<Rightarrow> rows \<Rightarrow> rows" where
  "setRow p r rs =
     (case p of
        Some n \<Rightarrow>
          if 0 \<le> n then rs\<lparr>elements := (with_room (nat n) (elements rs))[nat n := Some r]\<rparr>
          else rs\<lparr>named := oset p r (named rs)\<rparr>
      | None \<Rightarrow> rs\<lparr>named := oset p r (named rs)\<rparr>)"

text \<open>
  \<open>getRow\<close> copies with \<open>JSON.parse(JSON.stringify(rows[i]))\<close>, which throws when there is no row:
  \<open>JSON.stringify(undefined)\<close> is \<open>undefined\<close> and \<open>JSON.parse(undefined)\<close> a \<open>SyntaxError\<close>.
\<close>

definition getRow :: "position \<Rightarrow> rows \<Rightarrow> string + row" where
  "getRow p rs = (case row_at rs p of Some r \<Rightarrow> Inr r | None \<Rightarrow> Inl ''SyntaxError'')"

section \<open>Finding a row\<close>

text \<open>
  \<open>a === b\<close> for a property of a row and one of a freshly parsed object: primitives are compared
  by value, objects and arrays are never the same.
\<close>

fun same_value :: "json option \<Rightarrow> json \<Rightarrow> bool" where
  "same_value (Some (JObj _)) b = False"
| "same_value (Some (JArr _)) b = False"
| "same_value (Some a) b = (a = b)"
| "same_value None b = False"

definition rowMatches :: "(string, json) omap \<Rightarrow> row option \<Rightarrow> bool" where
  "rowMatches wh r =
     (case r of None \<Rightarrow> False | Some r \<Rightarrow> list_all (\<lambda>(f, v). same_value (oget r f) v) wh)"

definition foreignIds :: "row \<Rightarrow> (string, json) omap option" where
  "foreignIds r = (case oget r ''foreignIds'' of Some (JObj m) \<Rightarrow> Some m | _ \<Rightarrow> None)"

text \<open>
  \<open>v[k]\<close> of a value that JSON can write: a member of an object, an element of an array, a
  character of a string. \<open>undefined\<close> and \<open>null\<close> have no properties to read.
\<close>

definition property :: "json option \<Rightarrow> string \<Rightarrow> string + json option" where
  "property v k =
     (case v of
        None \<Rightarrow> Inl ''TypeError''
      | Some JNull \<Rightarrow> Inl ''TypeError''
      | Some (JObj m) \<Rightarrow> Inr (oget m k)
      | Some (JArr xs) \<Rightarrow>
          Inr (if k = ''length'' then Some (JNum (int (length xs)))
               else case array_index k of Some i \<Rightarrow> if i < length xs then Some (xs ! i) else None | None \<Rightarrow> None)
      | Some (JStr s) \<Rightarrow>
          Inr (if k = ''length'' then Some (JNum (int (length s)))
               else case array_index k of Some i \<Rightarrow> if i < length s then Some (JStr [s ! i]) else None | None \<Rightarrow> None)
      | Some _ \<Rightarrow> Inr None)"

definition rowMatchesId :: "string \<Rightarrow> json \<Rightarrow> row option \<Rightarrow> string + bool" where
  "rowMatchesId platform i r =
     (case r of
        None \<Rightarrow> Inr False
      | Some r \<Rightarrow> bindE (property (oget r ''foreignIds'') platform) (\<lambda>v. Inr (same_value v i)))"

fun first_index :: "('a \<Rightarrow> bool) \<Rightarrow> 'a list \<Rightarrow> nat option" where
  "first_index P [] = None"
| "first_index P (x # xs) = (if P x then Some 0 else map_option Suc (first_index P xs))"

text \<open>The same loop when a test may throw.\<close>

fun index_where :: "('a \<Rightarrow> string + bool) \<Rightarrow> 'a list \<Rightarrow> string + nat option" where
  "index_where P [] = Inr None"
| "index_where P (x # xs) =
     bindE (P x) (\<lambda>b. if b then Inr (Some 0) else bindE (index_where P xs) (\<lambda>n. Inr (map_option Suc n)))"

definition findWhere :: "(string, json) omap \<Rightarrow> rows \<Rightarrow> position option" where
  "findWhere wh rs = map_option (\<lambda>n. Some (int n)) (first_index (rowMatches wh) (elements rs))"

text \<open>\<open>parseInt(s)\<close>: the digits at the start, hexadecimal ones after \<open>0x\<close>; \<open>None\<close> is NaN.\<close>

definition parseInt :: "string \<Rightarrow> int option" where
  "parseInt s =
     (let t = trim_start s; neg = (t \<noteq> [] \<and> hd t = CHR ''-'');
          t = (if t \<noteq> [] \<and> hd t \<in> {CHR ''-'', CHR ''+''} then tl t else t);
          n = (if starts_with ''0x'' t \<or> starts_with ''0X'' t
               then let ds = takeWhile (\<lambda>c. hex_val c \<noteq> None) (drop 2 t) in if ds = [] then None else radix_val 16 0 ds
               else let ds = takeWhile is_digit t in if ds = [] then None else Some (dec_val ds))
      in map_option (\<lambda>n. if neg then - int n else int n) n)"

text \<open>
  The position that a native identifier is, \<open>None\<close> for an identifier that is neither a string
  nor a number: \<open>findByIdMap\<close> then goes on with the next platform.
\<close>

definition native_position :: "json \<Rightarrow> position option" where
  "native_position i = (case i of JStr s \<Rightarrow> Some (parseInt s) | JNum n \<Rightarrow> Some (Some n) | _ \<Rightarrow> None)"

definition findById :: "string \<Rightarrow> string \<Rightarrow> json \<Rightarrow> rows \<Rightarrow> string + position option" where
  "findById storageId platform i rs =
     (if platform = storageId then Inr (native_position i)
      else bindE (index_where (rowMatchesId platform i) (elements rs)) (\<lambda>n. Inr (map_option (\<lambda>n. Some (int n)) n)))"

fun findByIdMap :: "string \<Rightarrow> (string, json) omap \<Rightarrow> rows \<Rightarrow> string + position option" where
  "findByIdMap storageId [] rs = Inr None"
| "findByIdMap storageId ((platform, i) # m) rs =
     bindE (findById storageId platform i rs) (\<lambda>r.
       case r of Some p \<Rightarrow> Inr (Some p) | None \<Rightarrow> findByIdMap storageId m rs)"

text \<open>
  The own enumerable properties of a value, in the order of \<open>Object.keys\<close>: those of an object,
  the elements of an array, the characters of a string, none of a number or a boolean.
\<close>

definition indexed :: "json list \<Rightarrow> (string, json) omap" where
  "indexed xs = zip (map nat_str [0..<length xs]) xs"

definition own_properties :: "json option \<Rightarrow> string + (string, json) omap" where
  "own_properties v =
     (case v of
        None \<Rightarrow> Inl ''TypeError''
      | Some JNull \<Rightarrow> Inl ''TypeError''
      | Some (JObj m) \<Rightarrow> Inr m
      | Some (JArr xs) \<Rightarrow> Inr (indexed xs)
      | Some (JStr s) \<Rightarrow> Inr (indexed (map (\<lambda>c. JStr [c]) s))
      | Some _ \<Rightarrow> Inr [])"

abbreviation id_map :: "row \<Rightarrow> string + (string, json) omap" where
  "id_map obj \<equiv> own_properties (oget obj ''foreignIds'')"

definition findObject :: "string \<Rightarrow> row \<Rightarrow> rows \<Rightarrow> string + position option" where
  "findObject storageId obj rs =
     bindE (id_map obj) (\<lambda>m.
     bindE (findByIdMap storageId m rs) (\<lambda>r.
       Inr (case r of Some p \<Rightarrow> Some p | None \<Rightarrow> findWhere (odel ''foreignIds'' obj) rs)))"

section \<open>The upsert\<close>

text \<open>
  \<open>t[k] = v\<close>, in strict mode: a primitive, \<open>null\<close> and \<open>undefined\<close> refuse it. An array takes an
  element or its \<open>length\<close>; an element past its end leaves holes, which JSON writes as \<open>null\<close>, and
  any other key names a property that JSON does not write.
\<close>

definition with_length :: "nat \<Rightarrow> json list \<Rightarrow> json list" where
  "with_length n xs = take n xs @ replicate (n - length xs) JNull"

definition put_property :: "json option \<Rightarrow> string \<Rightarrow> json \<Rightarrow> string + json" where
  "put_property t k v =
     (case t of
        Some (JObj m) \<Rightarrow> Inr (JObj (oset k v m))
      | Some (JArr xs) \<Rightarrow>
          (case array_index k of
             Some i \<Rightarrow> Inr (JArr ((with_length (max (Suc i) (length xs)) xs)[i := v]))
           | None \<Rightarrow>
               if k \<noteq> ''length'' then Inr (JArr xs)
               else case v of
                 JNum n \<Rightarrow> if 0 \<le> n \<and> n < 2 ^ 32 then Inr (JArr (with_length (nat n) xs)) else Inl ''RangeError''
               | _ \<Rightarrow> Inl ''RangeError'')
      | _ \<Rightarrow> Inl ''TypeError'')"

fun put_properties :: "json option \<Rightarrow> (string, json) omap \<Rightarrow> string + json option" where
  "put_properties t [] = Inr t"
| "put_properties t ((k, v) # kvs) = bindE (put_property t k v) (\<lambda>t. put_properties (Some t) kvs)"

definition merge_field :: "row \<Rightarrow> row \<Rightarrow> string \<Rightarrow> string + row" where
  "merge_field old obj f =
     bindE (own_properties (oget old f)) (\<lambda>kvs.
     bindE (put_properties (oget obj f) kvs) (\<lambda>t.
       Inr (case t of Some t \<Rightarrow> oset f t obj | None \<Rightarrow> obj)))"

fun merge_fields :: "row \<Rightarrow> string list \<Rightarrow> row \<Rightarrow> string + row" where
  "merge_fields old [] obj = Inr obj"
| "merge_fields old (f # fs) obj = bindE (merge_field old obj f) (merge_fields old fs)"

text \<open>What \<open>doUpsert\<close> does after it has awaited \<open>findObject\<close> and the rows.\<close>

definition commit :: "row \<Rightarrow> string list \<Rightarrow> position option \<Rightarrow> rows \<Rightarrow> string + (rows \<times> position \<times> bool)" where
  "commit obj fs found rs =
     (let p = (case found of Some p \<Rightarrow> p | None \<Rightarrow> Some (int (length (elements rs)))) in
      bindE (case row_at rs p of Some old \<Rightarrow> merge_fields old fs obj | None \<Rightarrow> Inr obj) (\<lambda>obj.
        Inr (setRow p obj rs, p, found = None)))"

definition doUpsert :: "string \<Rightarrow> row \<Rightarrow> string list \<Rightarrow> rows \<Rightarrow> string + (rows \<times> position \<times> bool)" where
  "doUpsert storageId obj fs rs =
     bindE (findObject storageId obj rs) (\<lambda>found. commit obj fs found rs)"

section \<open>Concurrent calls\<close>

text \<open>
  A call of \<open>ensureRow\<close>: not made yet; waiting for the semaphore that another call left; looking
  for a row, platform by platform and then by its values; about to update the rows; done with
  \<open>doUpsert\<close>, its \<open>then\<close> still to run; and settled, with a result or an error. A call whose
  \<open>doUpsert\<close> rejects leaves a semaphore that rejects.
\<close>

datatype phase =
    Idle
  | Waiting nat
  | Scanning "(string, json) omap"
  | Located "position option"
  | Committed position bool
  | Rejecting string
  | Ensured position bool
  | Rejected string

record call =
  cl_obj :: row
  cl_fields :: "string list"
  cl_phase :: phase

record storage =
  so_id :: string
  so_rows :: rows
  so_semaphore :: "nat option"
  so_calls :: "call list"

definition phase_of :: "storage \<Rightarrow> nat \<Rightarrow> phase" where
  "phase_of s c = cl_phase (so_calls s ! c)"

definition set_phase :: "nat \<Rightarrow> phase \<Rightarrow> storage \<Rightarrow> storage" where
  "set_phase c ph s = s\<lparr>so_calls := (so_calls s)[c := (so_calls s ! c)\<lparr>cl_phase := ph\<rparr>]\<rparr>"

text \<open>\<open>this.doUpsert(...)\<close> is called and its promise becomes the semaphore, with no \<open>await\<close> between.\<close>

definition begin_upsert :: "nat \<Rightarrow> storage \<Rightarrow> storage" where
  "begin_upsert c s =
     (set_phase c (case id_map (cl_obj (so_calls s ! c)) of
                     Inr m \<Rightarrow> Scanning m
                   | Inl e \<Rightarrow> Rejecting e) s)\<lparr>so_semaphore := Some c\<rparr>"

definition scanned :: "storage \<Rightarrow> nat \<Rightarrow> (string, json) omap \<Rightarrow> phase" where
  "scanned s c m =
     (case m of
        [] \<Rightarrow> Located (findWhere (odel ''foreignIds'' (cl_obj (so_calls s ! c))) (so_rows s))
      | (platform, i) # m \<Rightarrow>
          (case findById (so_id s) platform i (so_rows s) of
             Inl e \<Rightarrow> Rejecting e
           | Inr (Some p) \<Rightarrow> Located (Some p)
           | Inr None \<Rightarrow> Scanning m))"

definition committed :: "nat \<Rightarrow> position option \<Rightarrow> storage \<Rightarrow> storage" where
  "committed c found s =
     (case commit (cl_obj (so_calls s ! c)) (cl_fields (so_calls s ! c)) found (so_rows s) of
        Inl e \<Rightarrow> set_phase c (Rejecting e) s
      | Inr (rs, p, minted) \<Rightarrow> (set_phase c (Committed p minted) s)\<lparr>so_rows := rs\<rparr>)"

inductive step :: "storage \<Rightarrow> storage \<Rightarrow> bool" where
  enter: "c < length (so_calls s) \<Longrightarrow> phase_of s c = Idle \<Longrightarrow> so_semaphore s = None \<Longrightarrow> step s (begin_upsert c s)"
| wait: "c < length (so_calls s) \<Longrightarrow> phase_of s c = Idle \<Longrightarrow> so_semaphore s = Some d \<Longrightarrow> step s (set_phase c (Waiting d) s)"
| resume: "c < length (so_calls s) \<Longrightarrow> phase_of s c = Waiting d \<Longrightarrow> phase_of s d = Ensured p m \<Longrightarrow> step s (begin_upsert c s)"
| give_up: "c < length (so_calls s) \<Longrightarrow> phase_of s c = Waiting d \<Longrightarrow> phase_of s d = Rejected e \<Longrightarrow>
    step s (set_phase c (Rejected e) s)"
| scan: "c < length (so_calls s) \<Longrightarrow> phase_of s c = Scanning m \<Longrightarrow> step s (set_phase c (scanned s c m) s)"
| update: "c < length (so_calls s) \<Longrightarrow> phase_of s c = Located found \<Longrightarrow> step s (committed c found s)"
| settle: "c < length (so_calls s) \<Longrightarrow> phase_of s c = Committed p m \<Longrightarrow>
    step s ((set_phase c (Ensured p m) s)\<lparr>so_semaphore := None\<rparr>)"
| reject: "c < length (so_calls s) \<Longrightarrow> phase_of s c = Rejecting e \<Longrightarrow> step s (set_phase c (Rejected e) s)"

definition new_storage :: "string \<Rightarrow> rows \<Rightarrow> (row \<times> string list) list \<Rightarrow> storage" where
  "new_storage i rs calls =
     \<lparr>so_id = i, so_rows = rs, so_semaphore = None,
      so_calls = map (\<lambda>(obj, fs). \<lparr>cl_obj = obj, cl_fields = fs, cl_phase = Idle\<rparr>) calls\<rparr>"

definition settled :: "phase \<Rightarrow> bool" where
  "settled ph \<longleftrightarrow> (case ph of Ensured _ _ \<Rightarrow> True | Rejected _ \<Rightarrow> True | _ \<Rightarrow> False)"

section \<open>Lemmas: positions and scans\<close>

lemma first_index_None: "first_index P xs = None \<longleftrightarrow> (\<forall>x \<in> set xs. \<not> P x)"
  by (induction xs) auto

lemma first_index_Some: "first_index P xs = Some n \<longleftrightarrow> n < length xs \<and> P (xs ! n) \<and> (\<forall>i < n. \<not> P (xs ! i))"
proof (induction xs arbitrary: n)
  case (Cons x xs)
  then show ?case by (cases n) (auto simp: less_Suc_eq_0_disj nth_Cons split: nat.split)
qed simp

lemma with_room_simps [simp]: "n < length xs \<Longrightarrow> with_room n xs = xs" "with_room (length xs) xs = xs @ [None]"
  by (simp_all add: with_room_def)

lemma length_extend [simp]: "length (with_room n xs) = max (length xs) (Suc n)"
  by (simp add: with_room_def max_def)

lemma nth_extend: "i < length xs \<Longrightarrow> with_room n xs ! i = xs ! i"
  by (simp add: with_room_def nth_append)

text \<open>The array after an update at or just after its end.\<close>

definition put_at :: "nat \<Rightarrow> row \<Rightarrow> row option list \<Rightarrow> row option list" where
  "put_at n r xs = (with_room n xs)[n := Some r]"

lemma put_at_mem: "n \<le> length xs \<Longrightarrow> x \<in> set (put_at n r xs) \<Longrightarrow> x = Some r \<or> x \<in> set xs"
  by (cases "n < length xs") (auto simp: put_at_def dest: set_update_subset_insert [THEN subsetD])

lemma first_index_put_none:
  assumes "n \<le> length xs" "\<forall>x \<in> set xs. \<not> P x"
  shows "first_index P (put_at n r xs) = (if P (Some r) then Some n else None)"
proof (cases "P (Some r)")
  case True
  have "put_at n r xs ! i = xs ! i" if "i < n" for i using that assms(1) by (simp add: put_at_def nth_extend)
  with True assms have "first_index P (put_at n r xs) = Some n"
    unfolding first_index_Some by (auto simp: put_at_def)
  with True show ?thesis by simp
next
  case False
  then have "first_index P (put_at n r xs) = None"
    unfolding first_index_None using assms put_at_mem by metis
  with False show ?thesis by simp
qed

lemma first_index_put_same:
  assumes "first_index P xs = Some n" "P (Some r)"
  shows "first_index P (put_at n r xs) = Some n"
  using assms unfolding first_index_Some by (auto simp: put_at_def)

lemma setRow_index: "elements (setRow (Some (int n)) r rs) = put_at n r (elements rs)"
  by (simp add: setRow_def put_at_def)

lemma row_at_setRow: "row_at (setRow p r rs) q = (if p = q then Some r else row_at rs q)"
proof (cases p)
  case (Some n)
  show ?thesis
  proof (cases "0 \<le> n")
    case True
    then obtain k where n: "n = int k" by (metis nonneg_int_cases)
    show ?thesis
      unfolding Some n
      by (auto simp: row_at_def setRow_def nth_list_update nth_extend with_room_def nth_append split: option.split)
  qed (use Some in \<open>auto simp: row_at_def setRow_def split: option.split\<close>)
qed (auto simp: row_at_def setRow_def split: option.split)

section \<open>One upsert\<close>

definition primitive :: "json \<Rightarrow> bool" where
  "primitive v \<longleftrightarrow> (case v of JObj _ \<Rightarrow> False | JArr _ \<Rightarrow> False | _ \<Rightarrow> True)"

lemma same_value_iff: "same_value a b \<longleftrightarrow> a = Some b \<and> primitive b"
  by (cases a; cases "the a") (auto simp: primitive_def)

definition values_of :: "row \<Rightarrow> (string, json) omap" where
  "values_of obj = odel ''foreignIds'' obj"

text \<open>Whether a row holds an identifier: what \<open>rowMatchesId\<close> answers where it does not throw.\<close>

definition has_id :: "string \<Rightarrow> json \<Rightarrow> row option \<Rightarrow> bool" where
  "has_id platform i r =
     (case Option.bind r foreignIds of None \<Rightarrow> False | Some m \<Rightarrow> same_value (oget m platform) i)"

fun ids_index :: "(string, json) omap \<Rightarrow> row option list \<Rightarrow> nat option" where
  "ids_index [] xs = None"
| "ids_index ((k, v) # m) xs = (case first_index (has_id k v) xs of Some n \<Rightarrow> Some n | None \<Rightarrow> ids_index m xs)"

text \<open>The index of the row for an object, where no row and no identifier makes the scans throw.\<close>

definition row_index :: "row \<Rightarrow> (string, json) omap \<Rightarrow> row option list \<Rightarrow> nat option" where
  "row_index obj m xs =
     (case ids_index m xs of Some n \<Rightarrow> Some n | None \<Rightarrow> first_index (rowMatches (values_of obj)) xs)"

text \<open>An object that \<open>ensureRow\<close> can find again: by an identifier, or because its values are primitives.\<close>

definition findable :: "string \<Rightarrow> row \<Rightarrow> (string, json) omap \<Rightarrow> bool" where
  "findable sid obj m \<longleftrightarrow> owf obj \<and> foreignIds obj = Some m \<and> owf m \<and> sid \<notin> set (okeys m)
     \<and> list_all (primitive \<circ> snd) m \<and> (m \<noteq> [] \<or> list_all (primitive \<circ> snd) (values_of obj))"

definition merged_ids :: "(string, json) omap \<Rightarrow> (string, json) omap \<Rightarrow> (string, json) omap" where
  "merged_ids m old = foldl (\<lambda>n (k, v). oset k v n) m old"

lemma merged_ids_get: "oget (merged_ids m old) k = (case map_of (rev old) k of Some v \<Rightarrow> Some v | None \<Rightarrow> oget m k)"
  unfolding merged_ids_def by (induction old arbitrary: m) (auto simp: map_add_def split: option.splits)

lemma map_of_rev_same: "owf m \<Longrightarrow> map_of (rev m) = map_of m"
  by (subst map_of_inject_set) (simp_all flip: rev_map)

lemma foreignIds_Some: "foreignIds r = Some m \<longleftrightarrow> oget r ''foreignIds'' = Some (JObj m)"
  by (auto simp: foreignIds_def split: option.splits json.splits)

text \<open>The identifiers of all rows are objects with each platform once.\<close>

definition rows_ok :: "rows \<Rightarrow> bool" where
  "rows_ok rs \<longleftrightarrow> (\<forall>r. Some r \<in> set (elements rs) \<longrightarrow> (\<exists>m. foreignIds r = Some m \<and> owf m))"

definition upserted :: "row \<Rightarrow> (string, json) omap \<Rightarrow> row option \<Rightarrow> row" where
  "upserted obj m old =
     (case Option.bind old foreignIds of
        None \<Rightarrow> obj
      | Some old \<Rightarrow> oset ''foreignIds'' (JObj (merged_ids m old)) obj)"

lemma rowMatchesId_ok:
  "rows_ok rs \<Longrightarrow> x \<in> set (elements rs) \<Longrightarrow> rowMatchesId platform i x = Inr (has_id platform i x)"
proof (cases x)
  case (Some r)
  assume "rows_ok rs" "x \<in> set (elements rs)"
  with Some obtain m where "foreignIds r = Some m" unfolding rows_ok_def by blast
  with Some show ?thesis by (simp add: rowMatchesId_def has_id_def property_def) (simp add: foreignIds_Some)
qed (simp add: rowMatchesId_def has_id_def)

lemma index_where_ok: "\<forall>x \<in> set xs. P x = Inr (Q x) \<Longrightarrow> index_where P xs = Inr (first_index Q xs)"
  by (induction xs) auto

lemma findById_ok:
  "rows_ok rs \<Longrightarrow> k \<noteq> sid \<Longrightarrow>
    findById sid k v rs = Inr (map_option (\<lambda>n. Some (int n)) (first_index (has_id k v) (elements rs)))"
  by (simp add: findById_def index_where_ok [where Q = "has_id k v"] rowMatchesId_ok)

lemma findByIdMap_ok:
  "rows_ok rs \<Longrightarrow> sid \<notin> set (okeys m) \<Longrightarrow>
    findByIdMap sid m rs = Inr (map_option (\<lambda>n. Some (int n)) (ids_index m (elements rs)))"
  by (induction m) (auto simp: findById_ok split: option.split)

lemma findObject_ok:
  assumes "rows_ok rs" "foreignIds obj = Some m" "sid \<notin> set (okeys m)"
  shows "findObject sid obj rs = Inr (map_option (\<lambda>n. Some (int n)) (row_index obj m (elements rs)))"
  using assms
  by (auto simp: findObject_def own_properties_def foreignIds_Some findByIdMap_ok row_index_def findWhere_def
      values_of_def split: option.split)

lemma ids_index_append: "ids_index (a @ b) xs = (case ids_index a xs of Some n \<Rightarrow> Some n | None \<Rightarrow> ids_index b xs)"
  by (induction a) (auto split: option.split)

lemma ids_index_row: "ids_index m xs = Some n \<Longrightarrow> n < length xs \<and> xs ! n \<noteq> None"
proof (induction m)
  case (Cons kv m)
  then show ?case
    by (cases kv; cases "xs ! n") (auto simp: first_index_Some has_id_def split: option.split_asm)
qed simp

lemma row_index_row: "row_index obj m xs = Some n \<Longrightarrow> n < length xs \<and> xs ! n \<noteq> None"
  using ids_index_row
  by (auto simp: row_index_def first_index_Some rowMatches_def split: option.split_asm)

lemma merge_upserted:
  assumes "foreignIds old = Some mo" "foreignIds obj = Some m"
  shows "merge_fields old [''foreignIds''] obj = Inr (upserted obj m (Some old))"
proof -
  have "put_properties (Some (JObj n)) kvs = Inr (Some (JObj (merged_ids n kvs)))" for n kvs
    by (induction kvs arbitrary: n) (auto simp: put_property_def merged_ids_def)
  with assms show ?thesis
    by (simp add: upserted_def) (simp add: foreignIds_Some merge_field_def own_properties_def)
qed

lemma doUpsert_position:
  assumes "findable sid obj m" "rows_ok rs" "doUpsert sid obj [''foreignIds''] rs = Inr (rs', p, minted)"
  obtains n where "p = Some (int n)" "n \<le> length (elements rs)" "minted \<longleftrightarrow> findObject sid obj rs = Inr None"
    "minted \<Longrightarrow> n = length (elements rs)" "\<not> minted \<Longrightarrow> findObject sid obj rs = Inr (Some p) \<and> n < length (elements rs)"
    "rs' = setRow p (upserted obj m (row_at rs p)) rs"
proof -
  from assms(1) have f: "foreignIds obj = Some m" "sid \<notin> set (okeys m)" by (simp_all add: findable_def)
  from assms(3) obtain found where fo: "findObject sid obj rs = Inr found" and
    c: "commit obj [''foreignIds''] found rs = Inr (rs', p, minted)" by (auto simp: doUpsert_def bindE_eq_Inr)
  have p: "p = (case found of Some p \<Rightarrow> p | None \<Rightarrow> Some (int (length (elements rs))))" "minted = (found = None)"
    using c by (auto simp: commit_def Let_def bindE_eq_Inr)
  obtain n where n: "p = Some (int n)" "n \<le> length (elements rs)" "minted \<Longrightarrow> n = length (elements rs)"
    "\<not> minted \<Longrightarrow> n < length (elements rs) \<and> elements rs ! n \<noteq> None"
  proof (cases found)
    case None
    with p that show ?thesis by simp
  next
    case (Some q)
    with fo findObject_ok [OF assms(2) f] obtain n where "q = Some (int n)" "row_index obj m (elements rs) = Some n" by auto
    with row_index_row Some p that show ?thesis by force
  qed
  have "rs' = setRow p (upserted obj m (row_at rs p)) rs"
  proof (cases minted)
    case True
    then have "row_at rs p = None" using n by (simp add: row_at_def)
    with c p show ?thesis by (auto simp: commit_def Let_def upserted_def split: option.split_asm)
  next
    case False
    then obtain old where old: "elements rs ! n = Some old" using n(4) by blast
    have at: "row_at rs p = Some old" using n(1,4) False old by (simp add: row_at_def)
    have "Some old \<in> set (elements rs)" using n(4) False old by (metis nth_mem)
    then obtain mo where mo: "foreignIds old = Some mo" using assms(2) unfolding rows_ok_def by blast
    from c p at merge_upserted [OF mo f(1)] show ?thesis
      by (auto simp: commit_def Let_def split: option.split_asm)
  qed
  with n p fo that show ?thesis by (cases found) auto
qed

lemma doUpsert_total:
  assumes "findable sid obj m" "rows_ok rs"
  shows "\<exists>rs' p minted. doUpsert sid obj [''foreignIds''] rs = Inr (rs', p, minted)"
proof -
  from assms(1) have f: "foreignIds obj = Some m" "sid \<notin> set (okeys m)" by (simp_all add: findable_def)
  show ?thesis
  proof (cases "row_index obj m (elements rs)")
    case None
    then show ?thesis
      by (auto simp add: doUpsert_def findObject_ok [OF assms(2) f] commit_def Let_def row_at_def)
  next
    case (Some n)
    with row_index_row obtain old where old: "n < length (elements rs)" "elements rs ! n = Some old" by blast
    then have "Some old \<in> set (elements rs)" by (metis nth_mem)
    with assms(2) obtain mo where "foreignIds old = Some mo" unfolding rows_ok_def by blast
    from merge_upserted [OF this f(1)] Some old show ?thesis
      by (auto simp add: doUpsert_def findObject_ok [OF assms(2) f] commit_def Let_def row_at_def)
  qed
qed

lemma merged_ids_owf: "owf m \<Longrightarrow> owf (merged_ids m old)"
  unfolding merged_ids_def by (induction old arbitrary: m) (auto simp: case_prod_unfold)

lemma upserted_ids:
  assumes "findable sid obj m" "\<And>r. old = Some r \<Longrightarrow> \<exists>mo. foreignIds r = Some mo \<and> owf mo"
  shows "\<exists>m'. foreignIds (upserted obj m old) = Some m' \<and> owf m'
    \<and> (\<forall>k. oget m' k = (case Option.bind (Option.bind old foreignIds) (\<lambda>mo. oget mo k) of Some v \<Rightarrow> Some v | None \<Rightarrow> oget m k))"
proof (cases old)
  case None
  with assms(1) show ?thesis by (simp add: upserted_def findable_def)
next
  case (Some r)
  then obtain mo where mo: "foreignIds r = Some mo" "owf mo" using assms(2) by blast
  have "foreignIds (upserted obj m old) = Some (merged_ids m mo)"
    by (simp add: upserted_def Some mo foreignIds_Some)
  moreover have "owf (merged_ids m mo)" using assms(1) by (simp add: findable_def merged_ids_owf)
  ultimately show ?thesis using mo by (simp add: Some merged_ids_get map_of_rev_same)
qed

lemma upserted_values: "f \<noteq> ''foreignIds'' \<Longrightarrow> oget (upserted obj m old) f = oget obj f"
  by (simp add: upserted_def split: option.split)

text \<open>Whether the row an upsert wrote is the first that a scan finds afterwards.\<close>

lemma first_index_again:
  assumes "n \<le> length xs" "first_index P xs \<in> {None, Some n}" "first_index P xs = Some n \<Longrightarrow> P (Some r)"
  shows "first_index P (put_at n r xs) = (if P (Some r) then Some n else None)"
proof (cases "first_index P xs")
  case None
  with assms(1) show ?thesis unfolding first_index_None by (simp add: first_index_put_none)
next
  case (Some j)
  with assms show ?thesis by (simp add: first_index_put_same)
qed

lemma ids_index_again:
  assumes "n \<le> length xs" "ids_index m xs \<in> {None, Some n}"
    and "\<And>k v. (k, v) \<in> set m \<Longrightarrow> first_index (has_id k v) xs = Some n \<Longrightarrow> has_id k v (Some r)"
  shows "ids_index m (put_at n r xs) \<in> {None, Some n}"
    and "ids_index m xs = Some n \<or> (\<exists>(k, v) \<in> set m. has_id k v (Some r)) \<Longrightarrow> ids_index m (put_at n r xs) = Some n"
  using assms
proof (induction m)
  case (Cons kv m)
  obtain k v where kv: "kv = (k, v)" by fastforce
  {
    case 1
    have s: "first_index (has_id k v) xs \<in> {None, Some n}" using 1(2) kv by (auto split: option.split_asm)
    have f: "first_index (has_id k v) (put_at n r xs) = (if has_id k v (Some r) then Some n else None)"
      by (rule first_index_again [OF 1(1) s]) (use 1(3) kv in auto)
    show ?case
    proof (cases "first_index (has_id k v) xs")
      case None
      then show ?thesis using Cons.IH(1) 1 kv f by (auto split: option.split)
    next
      case (Some q)
      with s 1(3) [of k v] kv f show ?thesis by auto
    qed
  next
    case 2
    have s: "first_index (has_id k v) xs \<in> {None, Some n}" using 2(3) kv by (auto split: option.split_asm)
    have f: "first_index (has_id k v) (put_at n r xs) = (if has_id k v (Some r) then Some n else None)"
      by (rule first_index_again [OF 2(2) s]) (use 2(4) kv in auto)
    show ?case
    proof (cases "has_id k v (Some r)")
      case True
      with f kv show ?thesis by simp
    next
      case False
      then have none: "first_index (has_id k v) xs = None" using s 2(4) [of k v] kv by auto
      have "ids_index m (put_at n r xs) = Some n"
        by (rule Cons.IH(2)) (use 2 kv none False in auto)
      with f kv False show ?thesis by simp
    qed
  }
qed auto

section \<open>Upserting twice\<close>

lemma merge_same_keys:
  "okeys a = okeys m \<Longrightarrow> owf (before @ m) \<Longrightarrow> foldl (\<lambda>n (k, v). oset k v n) (before @ m) a = before @ a"
proof (induction a arbitrary: before m)
  case (Cons x a)
  obtain k v where x: "x = (k, v)" by fastforce
  with Cons.prems(1) obtain v0 m0 where m: "m = (k, v0) # m0" "okeys a = okeys m0" by (cases m) auto
  from Cons.prems(2) m have k: "k \<notin> set (okeys before)" by auto
  then have "oset k v (before @ m) = before @ (k, v) # m0" unfolding m by (induction before) auto
  moreover have "foldl (\<lambda>n (k, v). oset k v n) ((before @ [(k, v)]) @ m0) a = (before @ [(k, v)]) @ a"
    by (rule Cons.IH) (use m Cons.prems(2) in auto)
  ultimately show ?case by (simp add: x)
qed simp

lemma merge_new_keys:
  "owf (m @ b) \<Longrightarrow> foldl (\<lambda>n (k, v). oset k v n) m b = m @ b"
proof (induction b arbitrary: m)
  case (Cons x b)
  obtain k v where x: "x = (k, v)" by fastforce
  with Cons.prems have "oset k v m = m @ [x]" by (simp add: oset_snoc)
  with Cons.IH [of "m @ [x]"] Cons.prems x show ?case by simp
qed simp

lemma merged_keys: "\<exists>ks. okeys (merged_ids m old) = okeys m @ ks"
  unfolding merged_ids_def
proof (induction old arbitrary: m)
  case (Cons x old)
  have "\<exists>ks. okeys (oset k v m) = okeys m @ ks" for k :: string and v :: json by (induction m) auto
  with Cons show ?case by (auto simp: case_prod_unfold) (metis append.assoc)
qed simp

lemma merged_ids_again: "owf m \<Longrightarrow> merged_ids m (merged_ids m old) = merged_ids m old"
proof -
  assume m: "owf m"
  obtain ks where ks: "okeys (merged_ids m old) = okeys m @ ks" using merged_keys by blast
  define a b where "a = take (length m) (merged_ids m old)" and "b = drop (length m) (merged_ids m old)"
  then have ab: "merged_ids m old = a @ b" by simp
  have "okeys a = okeys m" using ks by (simp add: a_def take_map [symmetric])
  then have "foldl (\<lambda>n (k, v). oset k v n) m a = a" using merge_same_keys [of a m "[]"] m by simp
  moreover have "owf (a @ b)" using merged_ids_owf [OF m, of old] ab by simp
  ultimately show ?thesis unfolding ab by (simp add: merged_ids_def merge_new_keys)
qed

lemma upserted_again:
  assumes "findable sid obj m" "\<And>r. old = Some r \<Longrightarrow> \<exists>mo. foreignIds r = Some mo"
  shows "upserted obj m (Some (upserted obj m old)) = upserted obj m old"
proof (cases old)
  case None
  from assms(1) have f: "foreignIds obj = Some m" "owf m" by (simp_all add: findable_def)
  then have "merged_ids m m = m" using merge_same_keys [of m m "[]"] by (simp add: merged_ids_def)
  with f None show ?thesis using oset_same [of obj "''foreignIds''" "JObj m"]
    by (simp add: upserted_def) (simp add: foreignIds_Some)
next
  case (Some r)
  then obtain mo where mo: "foreignIds r = Some mo" using assms(2) by blast
  let ?r = "oset ''foreignIds'' (JObj (merged_ids m mo)) obj"
  have "upserted obj m old = ?r" by (simp add: upserted_def Some mo)
  moreover have "foreignIds ?r = Some (merged_ids m mo)" by (simp add: foreignIds_Some)
  ultimately show ?thesis
    using assms(1) merged_ids_again [of m mo] by (simp add: upserted_def findable_def oset_oset)
qed

lemma row_index_again:
  assumes n: "n \<le> length xs" and found: "row_index obj m xs = (if n = length xs then None else Some n)"
    and kept: "\<And>k v. (k, v) \<in> set m \<Longrightarrow> n < length xs \<Longrightarrow> has_id k v (xs ! n) \<Longrightarrow> has_id k v (Some r)"
    and vals: "n < length xs \<Longrightarrow> rowMatches (values_of obj) (xs ! n) \<Longrightarrow> rowMatches (values_of obj) (Some r)"
    and new: "n = length xs \<Longrightarrow> (\<exists>(k, v) \<in> set m. has_id k v (Some r)) \<or> rowMatches (values_of obj) (Some r)"
  shows "row_index obj m (put_at n r xs) = Some n"
proof -
  have ids: "ids_index m xs \<in> {None, Some n}"
    using found ids_index_row [of m xs] by (auto simp: row_index_def split: option.split_asm if_split_asm)
  have keep: "has_id k v (Some r)" if "(k, v) \<in> set m" "first_index (has_id k v) xs = Some n" for k v
    using that kept unfolding first_index_Some by blast
  note again = ids_index_again [OF n ids keep]
  show ?thesis
  proof (cases "ids_index m (put_at n r xs)")
    case (Some q)
    with again(1) show ?thesis by (simp add: row_index_def)
  next
    case None
    then have none: "ids_index m xs = None" "\<not> (\<exists>(k, v) \<in> set m. has_id k v (Some r))" using again(2) ids by auto
    have "first_index (rowMatches (values_of obj)) (put_at n r xs) = Some n"
    proof (cases "n = length xs")
      case True
      with found none(1) have "\<forall>x \<in> set xs. \<not> rowMatches (values_of obj) x"
        by (simp add: row_index_def first_index_None)
      with True new none(2) show ?thesis by (simp add: first_index_put_none)
    next
      case False
      with found none(1) have f: "first_index (rowMatches (values_of obj)) xs = Some n" by (simp add: row_index_def)
      then have "rowMatches (values_of obj) (Some r)" using vals unfolding first_index_Some by blast
      with f show ?thesis by (rule first_index_put_same)
    qed
    with None show ?thesis by (simp add: row_index_def)
  qed
qed

lemma rows_ok_setRow:
  assumes "rows_ok rs" "n \<le> length (elements rs)" "foreignIds r = Some m" "owf m"
  shows "rows_ok (setRow (Some (int n)) r rs)"
  using assms put_at_mem [OF assms(2), of _ r] unfolding rows_ok_def setRow_index by blast

lemma rowMatches_self:
  assumes "owf obj" "list_all (primitive \<circ> snd) (values_of obj)" "\<And>f. f \<noteq> ''foreignIds'' \<Longrightarrow> oget r f = oget obj f"
  shows "rowMatches (values_of obj) (Some r)"
proof -
  have "oget r g = Some v" if "(g, v) \<in> set (values_of obj)" for g v
  proof -
    have "owf (values_of obj)" using assms(1) by (simp add: values_of_def)
    then have "oget (values_of obj) g = Some v" using that by simp
    then have "g \<noteq> ''foreignIds''" "oget obj g = Some v" by (auto simp: values_of_def split: if_split_asm)
    then show ?thesis using assms(3) by simp
  qed
  with assms(2) show ?thesis by (auto simp: rowMatches_def list_all_iff same_value_iff)
qed

lemma find_upserted:
  assumes f: "findable sid obj m" and ok: "rows_ok rs" and n: "n \<le> length (elements rs)"
    and found: "findObject sid obj rs = (Inr (if n = length (elements rs) then None else Some (Some (int n))))"
  shows "findObject sid obj (setRow (Some (int n)) (upserted obj m (row_at rs (Some (int n)))) rs) = Inr (Some (Some (int n)))"
proof -
  define old where "old = row_at rs (Some (int n))"
  define r where "r = upserted obj m old"
  have old: "old = (if n < length (elements rs) then elements rs ! n else None)" by (simp add: old_def row_at_def)
  have old_ok: "\<exists>mo. foreignIds x = Some mo \<and> owf mo" if "old = Some x" for x
    using that ok old unfolding rows_ok_def by (metis nth_mem option.distinct(1))
  obtain m' where m': "foreignIds r = Some m'" "owf m'"
    "\<And>k. oget m' k = (case Option.bind (Option.bind old foreignIds) (\<lambda>mo. oget mo k) of Some v \<Rightarrow> Some v | None \<Rightarrow> oget m k)"
    using upserted_ids [OF f old_ok] unfolding r_def by blast
  from f have ids: "foreignIds obj = Some m" "owf m" "sid \<notin> set (okeys m)" "owf obj" by (simp_all add: findable_def)
  have vals: "rowMatches (values_of obj) (Some r)" if "list_all (primitive \<circ> snd) (values_of obj)"
    using rowMatches_self [OF ids(4) that] by (simp add: r_def upserted_values)
  have kept: "has_id k v (Some r)" if "has_id k v old" for k v
    using that m' by (cases old) (auto simp: has_id_def same_value_iff split: option.split_asm)
  have "row_index obj m (put_at n r (elements rs)) = Some n"
  proof (rule row_index_again [OF n])
    show "row_index obj m (elements rs) = (if n = length (elements rs) then None else Some n)"
      using found findObject_ok [OF ok ids(1,3)] by (auto split: if_split_asm)
  next
    fix k v assume "n < length (elements rs)" "has_id k v (elements rs ! n)"
    with kept old show "has_id k v (Some r)" by simp
  next
    assume "rowMatches (values_of obj) (elements rs ! n)"
    then have "list_all (primitive \<circ> snd) (values_of obj)"
      by (auto simp: rowMatches_def same_value_iff list_all_iff split: option.split_asm)
    then show "rowMatches (values_of obj) (Some r)" by (rule vals)
  next
    assume "n = length (elements rs)"
    then have old_none: "old = None" using old by simp
    have all: "has_id k v (Some r)" if "(k, v) \<in> set m" for k v
    proof -
      have "primitive v" "oget m k = Some v" using that f ids(2) by (auto simp: findable_def list_all_iff)
      with m' old_none show ?thesis by (simp add: has_id_def same_value_iff)
    qed
    show "(\<exists>(k, v) \<in> set m. has_id k v (Some r)) \<or> rowMatches (values_of obj) (Some r)"
    proof (cases m)
      case Nil
      with f have "list_all (primitive \<circ> snd) (values_of obj)" by (simp add: findable_def)
      then show ?thesis using vals by blast
    next
      case (Cons kv m0)
      then show ?thesis using all [of "fst kv" "snd kv"] by (auto simp: case_prod_unfold)
    qed
  qed
  moreover have "rows_ok (setRow (Some (int n)) r rs)" by (rule rows_ok_setRow [OF ok n m'(1,2)])
  ultimately show ?thesis
    using findObject_ok [OF _ ids(1,3)] unfolding r_def old_def by (simp add: setRow_index)
qed

text \<open>The row that an upsert is for, said without the scans that look for it.\<close>

definition carries :: "string \<times> json \<Rightarrow> row \<Rightarrow> bool" where
  "carries kv r \<longleftrightarrow> (\<exists>ids. foreignIds r = Some ids \<and> oget ids (fst kv) = Some (snd kv))"

definition has_values :: "row \<Rightarrow> row \<Rightarrow> bool" where
  "has_values obj r \<longleftrightarrow> (\<forall>f v. f \<noteq> ''foreignIds'' \<longrightarrow> oget obj f = Some v \<longrightarrow> primitive v \<and> oget r f = Some v)"

definition no_row :: "(row \<Rightarrow> bool) \<Rightarrow> rows \<Rightarrow> bool" where
  "no_row P rs \<longleftrightarrow> (\<forall>r. Some r \<in> set (elements rs) \<longrightarrow> \<not> P r)"

definition first_row :: "(row \<Rightarrow> bool) \<Rightarrow> rows \<Rightarrow> nat \<Rightarrow> bool" where
  "first_row P rs n \<longleftrightarrow> n < length (elements rs) \<and> (\<exists>r. elements rs ! n = Some r \<and> P r)
     \<and> (\<forall>i < n. \<forall>r. elements rs ! i = Some r \<longrightarrow> \<not> P r)"

text \<open>
  The first row with the first identifier that a row has at all; where no row has any of the
  identifiers, the first row with the object's values; and where there is none, a new one.
\<close>

definition row_for :: "row \<Rightarrow> (string, json) omap \<Rightarrow> rows \<Rightarrow> nat \<Rightarrow> bool \<Rightarrow> bool" where
  "row_for obj m rs n minted \<longleftrightarrow>
     (\<exists>before kv behind. m = before @ kv # behind \<and> (\<forall>x \<in> set before. no_row (carries x) rs)
        \<and> first_row (carries kv) rs n \<and> \<not> minted)
   \<or> (\<forall>x \<in> set m. no_row (carries x) rs)
        \<and> (if minted then no_row (has_values obj) rs \<and> n = length (elements rs) else first_row (has_values obj) rs n)"

lemma first_row_index:
  assumes "\<And>r. Q (Some r) \<longleftrightarrow> P r" "\<not> Q None"
  shows "first_index Q (elements rs) = None \<longleftrightarrow> no_row P rs" "first_index Q (elements rs) = Some n \<longleftrightarrow> first_row P rs n"
proof -
  have q: "Q x \<longleftrightarrow> (\<exists>r. x = Some r \<and> P r)" for x using assms by (cases x) auto
  show "first_index Q (elements rs) = None \<longleftrightarrow> no_row P rs"
    unfolding first_index_None no_row_def q by auto
  show "first_index Q (elements rs) = Some n \<longleftrightarrow> first_row P rs n"
    unfolding first_index_Some first_row_def q by blast
qed

lemma has_id_carries: "primitive v \<Longrightarrow> has_id k v (Some r) \<longleftrightarrow> carries (k, v) r"
  by (auto simp: has_id_def carries_def same_value_iff split: option.split)

lemma ids_index_row_for:
  assumes "list_all (primitive \<circ> snd) m"
  shows "case ids_index m (elements rs) of
      None \<Rightarrow> \<forall>x \<in> set m. no_row (carries x) rs
    | Some n \<Rightarrow> \<exists>before kv behind. m = before @ kv # behind \<and> (\<forall>x \<in> set before. no_row (carries x) rs)
        \<and> first_row (carries kv) rs n"
  using assms
proof (induction m)
  case (Cons kv m)
  obtain k v where kv: "kv = (k, v)" by fastforce
  have "primitive v" using Cons.prems kv by simp
  note scan = first_row_index [of "has_id k v" "carries (k, v)" rs, OF has_id_carries [OF this]]
  have none: "\<not> has_id k v None" by (simp add: has_id_def)
  show ?case
  proof (cases "first_index (has_id k v) (elements rs)")
    case (Some n)
    then have "first_row (carries kv) rs n" using scan(2) none kv by simp
    then have "kv # m = [] @ kv # m" "\<forall>x \<in> set []. no_row (carries x) rs" "first_row (carries kv) rs n" by auto
    moreover have i: "ids_index (kv # m) (elements rs) = Some n" using Some kv by simp
    ultimately show ?thesis unfolding i option.case by blast
  next
    case None
    then have no: "no_row (carries kv) rs" using scan(1) none kv by simp
    show ?thesis
    proof (cases "ids_index m (elements rs)")
      case Nil: None
      with Cons no None kv show ?thesis by simp
    next
      case (Some n)
      with Cons obtain before x behind where b: "m = before @ x # behind" "\<forall>x \<in> set before. no_row (carries x) rs"
        "first_row (carries x) rs n" by auto
      then have "kv # m = (kv # before) @ x # behind" "\<forall>x \<in> set (kv # before). no_row (carries x) rs"
        using no by auto
      moreover have i: "ids_index (kv # m) (elements rs) = Some n" using Some None kv by simp
      ultimately show ?thesis unfolding i option.case using b(3) by blast
    qed
  qed
qed simp

lemma row_index_row_for:
  assumes "findable sid obj m"
  shows "row_for obj m rs (case row_index obj m (elements rs) of Some n \<Rightarrow> n | None \<Rightarrow> length (elements rs))
    (row_index obj m (elements rs) = None)"
proof -
  from assms have f: "owf obj" "list_all (primitive \<circ> snd) m" by (simp_all add: findable_def)
  have v: "rowMatches (values_of obj) (Some r) \<longleftrightarrow> has_values obj r" for r
  proof -
    have "owf (values_of obj)" using f(1) by (simp add: values_of_def)
    then have "(g, v) \<in> set (values_of obj) \<longleftrightarrow> oget (values_of obj) g = Some v" for g v by simp
    moreover have "oget (values_of obj) g = Some v \<longleftrightarrow> g \<noteq> ''foreignIds'' \<and> oget obj g = Some v" for g v
      by (simp add: values_of_def)
    ultimately have "(g, v) \<in> set (values_of obj) \<longleftrightarrow> g \<noteq> ''foreignIds'' \<and> oget obj g = Some v" for g v by blast
    then have "(\<forall>(g, v) \<in> set (values_of obj). primitive v \<and> oget r g = Some v) \<longleftrightarrow> has_values obj r"
      unfolding has_values_def by blast
    moreover have "rowMatches (values_of obj) (Some r) \<longleftrightarrow> (\<forall>(g, v) \<in> set (values_of obj). primitive v \<and> oget r g = Some v)"
      by (auto simp: rowMatches_def list_all_iff same_value_iff)
    ultimately show ?thesis by blast
  qed
  have none: "\<not> rowMatches (values_of obj) None" by (simp add: rowMatches_def)
  note w = first_row_index [of "rowMatches (values_of obj)" "has_values obj" rs, OF v none]
  show ?thesis
  proof (cases "ids_index m (elements rs)")
    case (Some n)
    with ids_index_row_for [OF f(2), of rs] have "\<exists>before kv behind. m = before @ kv # behind
        \<and> (\<forall>x \<in> set before. no_row (carries x) rs) \<and> first_row (carries kv) rs n" by simp
    with Some show ?thesis by (simp add: row_index_def row_for_def)
  next
    case None
    with ids_index_row_for [OF f(2), of rs] have no: "\<forall>x \<in> set m. no_row (carries x) rs" by simp
    show ?thesis
    proof (cases "first_index (rowMatches (values_of obj)) (elements rs)")
      case Nil: None
      with w(1) have "no_row (has_values obj) rs" by simp
      with None Nil no show ?thesis by (simp add: row_index_def row_for_def)
    next
      case (Some n)
      then have "first_row (has_values obj) rs n" by (rule w(2) [THEN iffD1])
      with None Some no show ?thesis by (simp add: row_index_def row_for_def)
    qed
  qed
qed

text \<open>
  C30. An upsert of an object that can be found again (by a foreign identifier, or by values that
  are all primitives) keeps one row for it. The row it reports is the first row that holds the
  first of the object's identifiers that any row holds; if no row holds any of them, the first
  row with all the object's values; and a new row at the end, reported as minted, exactly when
  there is none of these. That row then has the object's values and the identifiers of both, the
  stored ones winning; every other row is untouched; and upserting the object again reports
  the same row, not minted, and changes nothing.
\<close>
theorem upsert_once:
  assumes "findable sid obj m" "rows_ok rs"
  shows "\<exists>n minted rs' r m'. doUpsert sid obj [''foreignIds''] rs = Inr (rs', Some (int n), minted)
    \<and> row_for obj m rs n minted
    \<and> row_at rs' (Some (int n)) = Some r \<and> (\<forall>f. f \<noteq> ''foreignIds'' \<longrightarrow> oget r f = oget obj f) \<and> foreignIds r = Some m'
    \<and> (\<forall>k. oget m' k = (case Option.bind (Option.bind (row_at rs (Some (int n))) foreignIds) (\<lambda>mo. oget mo k) of
         Some v \<Rightarrow> Some v | None \<Rightarrow> oget m k))
    \<and> (\<forall>q. q \<noteq> Some (int n) \<longrightarrow> row_at rs' q = row_at rs q)
    \<and> doUpsert sid obj [''foreignIds''] rs' = Inr (rs', Some (int n), False)"
proof -
  obtain rs' p minted where up: "doUpsert sid obj [''foreignIds''] rs = Inr (rs', p, minted)"
    using doUpsert_total [OF assms] by blast
  obtain n where n: "p = Some (int n)" "n \<le> length (elements rs)" "minted \<longleftrightarrow> findObject sid obj rs = Inr None"
    "minted \<Longrightarrow> n = length (elements rs)" "\<not> minted \<Longrightarrow> findObject sid obj rs = Inr (Some p) \<and> n < length (elements rs)"
    and rs': "rs' = setRow p (upserted obj m (row_at rs p)) rs"
    using doUpsert_position [OF assms up] by blast
  have old: "\<exists>mo. foreignIds r = Some mo \<and> owf mo" if "row_at rs p = Some r" for r
    using that assms(2) n(1) by (auto simp: row_at_def rows_ok_def split: if_split_asm) (metis nth_mem)
  obtain m' where m': "foreignIds (upserted obj m (row_at rs p)) = Some m'" "owf m'"
    "\<forall>k. oget m' k = (case Option.bind (Option.bind (row_at rs p) foreignIds) (\<lambda>mo. oget mo k) of
         Some v \<Rightarrow> Some v | None \<Rightarrow> oget m k)"
    using upserted_ids [OF assms(1) old] by blast
  have f: "foreignIds obj = Some m" "sid \<notin> set (okeys m)" using assms(1) by (simp_all add: findable_def)
  have "row_index obj m (elements rs) = (if minted then None else Some n)"
    using findObject_ok [OF assms(2) f] n(1,3,5) by (cases minted) auto
  then have which: "row_for obj m rs n minted"
    using row_index_row_for [OF assms(1), of rs] n(4) by (cases minted) simp_all
  have "findObject sid obj rs = Inr (if n = length (elements rs) then None else Some (Some (int n)))"
    using n by (cases minted) auto
  then have found: "findObject sid obj rs' = Inr (Some p)"
    using find_upserted [OF assms(1,2) n(2)] by (simp add: rs' n(1))
  have at: "row_at rs' p = Some (upserted obj m (row_at rs p))" by (simp add: rs' row_at_setRow)
  have "merge_fields (upserted obj m (row_at rs p)) [''foreignIds''] obj
      = Inr (upserted obj m (Some (upserted obj m (row_at rs p))))"
    by (rule merge_upserted [OF m'(1) f(1)])
  also have "\<dots> = Inr (upserted obj m (row_at rs p))"
    using upserted_again [OF assms(1), of "row_at rs p"] old by fastforce
  finally have "doUpsert sid obj [''foreignIds''] rs' = Inr (setRow p (upserted obj m (row_at rs p)) rs', p, False)"
    using found at by (simp add: doUpsert_def commit_def)
  moreover have "setRow p r (setRow p r rs) = setRow p r rs" for r
    unfolding n(1) by (simp add: setRow_def)
  ultimately have "doUpsert sid obj [''foreignIds''] rs' = Inr (rs', p, False)" by (simp add: rs')
  with up m' at which show ?thesis
    unfolding n(1) by (intro exI conjI) (assumption | simp add: upserted_values rs' row_at_setRow n(1))+
qed

definition sample_row :: row where
  "sample_row = [(''name'', JStr ''Wile''), (''foreignIds'', JObj [(''zoo'', JStr ''5'')])]"

theorem upsert_once_witness:
  "\<exists>n minted rs'. doUpsert ''d'' sample_row [''foreignIds''] no_rows = Inr (rs', Some (int n), minted)
    \<and> row_for sample_row [(''zoo'', JStr ''5'')] no_rows n minted
    \<and> doUpsert ''d'' sample_row [''foreignIds''] rs' = Inr (rs', Some (int n), False)"
proof -
  have f: "findable ''d'' sample_row [(''zoo'', JStr ''5'')]"
    by (simp add: findable_def sample_row_def foreignIds_def primitive_def)
  have ok: "rows_ok no_rows" by (simp add: rows_ok_def no_rows_def)
  show ?thesis using upsert_once [OF f ok] by blast
qed

section \<open>One move of one call\<close>

text \<open>Each call has at most one move, so a schedule, the list of the calls to move, determines a run.\<close>

definition advance :: "nat \<Rightarrow> storage \<Rightarrow> storage option" where
  "advance c s =
     (if \<not> c < length (so_calls s) then None
      else case phase_of s c of
        Idle \<Rightarrow> Some (case so_semaphore s of None \<Rightarrow> begin_upsert c s | Some d \<Rightarrow> set_phase c (Waiting d) s)
      | Waiting d \<Rightarrow>
          (case phase_of s d of
             Ensured _ _ \<Rightarrow> Some (begin_upsert c s)
           | Rejected e \<Rightarrow> Some (set_phase c (Rejected e) s)
           | _ \<Rightarrow> None)
      | Scanning m \<Rightarrow> Some (set_phase c (scanned s c m) s)
      | Located found \<Rightarrow> Some (committed c found s)
      | Committed p m \<Rightarrow> Some ((set_phase c (Ensured p m) s)\<lparr>so_semaphore := None\<rparr>)
      | Rejecting e \<Rightarrow> Some (set_phase c (Rejected e) s)
      | _ \<Rightarrow> None)"

lemma advance_step: "advance c s = Some s' \<Longrightarrow> step s s'"
  by (auto simp: advance_def intro: step.intros split: if_split_asm phase.split_asm option.split_asm)

lemma step_iff: "step s s' \<longleftrightarrow> (\<exists>c. advance c s = Some s')"
proof
  assume "step s s'"
  then show "\<exists>c. advance c s = Some s'"
    by cases (auto simp: advance_def intro!: exI)
qed (blast intro: advance_step)

fun run_schedule :: "nat list \<Rightarrow> storage \<Rightarrow> storage option" where
  "run_schedule [] s = Some s"
| "run_schedule (c # cs) s = Option.bind (advance c s) (run_schedule cs)"

lemma run_schedule_steps: "run_schedule cs s = Some s' \<Longrightarrow> step\<^sup>*\<^sup>* s s'"
  by (induction cs arbitrary: s) (auto simp: bind_eq_Some_conv intro: converse_rtranclp_into_rtranclp advance_step)

lemma run_to: "(case run_schedule cs s of None \<Rightarrow> False | Some s' \<Rightarrow> P s') \<Longrightarrow> \<exists>s'. step\<^sup>*\<^sup>* s s' \<and> P s'"
  by (auto split: option.split_asm dest: run_schedule_steps)

lemma phase_set [simp]: "c < length (so_calls s) \<Longrightarrow> phase_of (set_phase c ph s) d = (if d = c then ph else phase_of s d)"
  by (simp add: phase_of_def set_phase_def nth_list_update)

lemma phase_of_fields [simp]: "phase_of (s\<lparr>so_rows := rs\<rparr>) d = phase_of s d" "phase_of (s\<lparr>so_semaphore := q\<rparr>) d = phase_of s d"
  by (simp_all add: phase_of_def)

lemma set_phase_fields [simp]:
  "so_id (set_phase c ph s) = so_id s" "so_rows (set_phase c ph s) = so_rows s" "so_semaphore (set_phase c ph s) = so_semaphore s"
  "length (so_calls (set_phase c ph s)) = length (so_calls s)"
  "c < length (so_calls s) \<Longrightarrow> cl_obj (so_calls (set_phase c ph s) ! d) = cl_obj (so_calls s ! d)"
  "c < length (so_calls s) \<Longrightarrow> cl_fields (so_calls (set_phase c ph s) ! d) = cl_fields (so_calls s ! d)"
  by (auto simp: set_phase_def nth_list_update)

section \<open>A call that runs alone\<close>

text \<open>What a move of the call does not change while it looks for a row.\<close>

definition keeps :: "nat \<Rightarrow> storage \<Rightarrow> storage \<Rightarrow> bool" where
  "keeps c s s' \<longleftrightarrow> so_id s' = so_id s \<and> so_rows s' = so_rows s \<and> length (so_calls s') = length (so_calls s)
     \<and> cl_obj (so_calls s' ! c) = cl_obj (so_calls s ! c) \<and> cl_fields (so_calls s' ! c) = cl_fields (so_calls s ! c)"

definition scan_result :: "storage \<Rightarrow> nat \<Rightarrow> (string, json) omap \<Rightarrow> string + position option" where
  "scan_result s c m =
     bindE (findByIdMap (so_id s) m (so_rows s)) (\<lambda>r.
       Inr (case r of Some p \<Rightarrow> Some p | None \<Rightarrow> findWhere (odel ''foreignIds'' (cl_obj (so_calls s ! c))) (so_rows s)))"

definition scan_phase :: "string + position option \<Rightarrow> phase" where
  "scan_phase r = (case r of Inl e \<Rightarrow> Rejecting e | Inr found \<Rightarrow> Located found)"

lemma keeps_phase: "c < length (so_calls s) \<Longrightarrow> keeps c s (set_phase c ph s)"
  by (simp add: keeps_def)

lemma keeps_trans: "keeps c s s' \<Longrightarrow> keeps c s' s'' \<Longrightarrow> keeps c s s''"
  by (simp add: keeps_def)

lemma keeps_scan: "keeps c s s' \<Longrightarrow> scan_result s' c m = scan_result s c m"
  by (simp add: keeps_def scan_result_def cong: option.case_cong)

lemma scanning_alone:
  "c < length (so_calls s) \<Longrightarrow> phase_of s c = Scanning m \<Longrightarrow>
    \<exists>s'. step\<^sup>*\<^sup>* s s' \<and> phase_of s' c = scan_phase (scan_result s c m) \<and> keeps c s s'"
proof (induction m arbitrary: s)
  case Nil
  let ?s = "set_phase c (scanned s c []) s"
  have "step s ?s" using Nil by (intro scan)
  moreover have "phase_of ?s c = scan_phase (scan_result s c [])"
    using Nil by (simp add: scanned_def scan_result_def scan_phase_def)
  ultimately show ?case using Nil keeps_phase by (intro exI [of _ ?s]) auto
next
  case (Cons x m)
  obtain k v where x: "x = (k, v)" by fastforce
  let ?s = "set_phase c (scanned s c (x # m)) s"
  have st: "step s ?s" using Cons.prems by (intro scan)
  have keep: "keeps c s ?s" by (rule keeps_phase [OF Cons.prems(1)])
  show ?case
  proof (cases "findById (so_id s) k v (so_rows s) = Inr None")
    case True
    then have "phase_of ?s c = Scanning m" using Cons.prems by (simp add: scanned_def x)
    with Cons.IH [of ?s] Cons.prems obtain s' where s': "step\<^sup>*\<^sup>* ?s s'"
      "phase_of s' c = scan_phase (scan_result ?s c m)" "keeps c ?s s'" by auto
    have "scan_result ?s c m = scan_result s c (x # m)"
      using keeps_scan [OF keep, of m] True by (simp add: x scan_result_def)
    with s' st keep show ?thesis by (metis converse_rtranclp_into_rtranclp keeps_trans)
  next
    case False
    then have "phase_of ?s c = scan_phase (scan_result s c (x # m))"
      using Cons.prems by (auto simp: scanned_def x scan_result_def scan_phase_def split: sum.split option.split)
    with st keep show ?thesis by (intro exI [of _ ?s]) auto
  qed
qed

text \<open>
  C31. The calls of \<open>ensureRow\<close>, moved from \<open>await\<close> to \<open>await\<close>, implement the upsert: a call made
  while no other is under way can run to its end, and then it has the result, or the error, of
  \<open>doUpsert\<close> on the rows as they were, has left the rows that \<open>doUpsert\<close> leaves, and has
  released the semaphore if it succeeded.
\<close>
theorem ensureRow_alone:
  assumes "c < length (so_calls s)" "phase_of s c = Idle" "so_semaphore s = None"
  shows "\<exists>s'. step\<^sup>*\<^sup>* s s' \<and>
    (case doUpsert (so_id s) (cl_obj (so_calls s ! c)) (cl_fields (so_calls s ! c)) (so_rows s) of
       Inr (rs, p, minted) \<Rightarrow> phase_of s' c = Ensured p minted \<and> so_rows s' = rs \<and> so_semaphore s' = None
     | Inl e \<Rightarrow> phase_of s' c = Rejected e \<and> so_rows s' = so_rows s)"
proof -
  let ?obj = "cl_obj (so_calls s ! c)" and ?fs = "cl_fields (so_calls s ! c)"
  let ?s1 = "begin_upsert c s"
  have 1: "step s ?s1" using assms by (intro enter)
  show ?thesis
  proof (cases "id_map ?obj")
    case (Inl e)
    let ?s2 = "set_phase c (Rejected e) ?s1"
    have "phase_of ?s1 c = Rejecting e" "c < length (so_calls ?s1)" using assms Inl by (simp_all add: begin_upsert_def)
    then have "step ?s1 ?s2" by (intro reject)
    with 1 have "step\<^sup>*\<^sup>* s ?s2" by (meson converse_rtranclp_into_rtranclp r_into_rtranclp)
    with Inl assms show ?thesis
      by (intro exI [of _ ?s2]) (simp add: doUpsert_def findObject_def begin_upsert_def)
  next
    case (Inr m)
    have b: "c < length (so_calls ?s1)" "phase_of ?s1 c = Scanning m" "keeps c s ?s1"
      using assms Inr by (simp_all add: begin_upsert_def keeps_def)
    obtain s2 where 2: "step\<^sup>*\<^sup>* ?s1 s2" "phase_of s2 c = scan_phase (scan_result s c m)" "keeps c s s2"
      using scanning_alone [OF b(1,2)] keeps_scan [OF b(3)] keeps_trans [OF b(3)] by metis
    have f: "findObject (so_id s) ?obj (so_rows s) = scan_result s c m"
      by (simp add: findObject_def Inr scan_result_def)
    note k2 = 2(3) [unfolded keeps_def]
    have s2: "step\<^sup>*\<^sup>* s s2" using 1 2(1) by (rule converse_rtranclp_into_rtranclp)
    have len: "c < length (so_calls s2)" using assms(1) k2 by simp
    show ?thesis
    proof (cases "scan_result s c m")
      case (Inl e)
      let ?s3 = "set_phase c (Rejected e) s2"
      have "step s2 ?s3" using len 2(2) Inl by (intro reject) (simp_all add: scan_phase_def)
      with s2 have "step\<^sup>*\<^sup>* s ?s3" by (rule rtranclp.rtrancl_into_rtrancl)
      with f Inl len k2 show ?thesis by (intro exI [of _ ?s3]) (simp add: doUpsert_def)
    next
      case (Inr found)
      with f 2(2) have f: "findObject (so_id s) ?obj (so_rows s) = Inr found" "phase_of s2 c = Located found"
        by (simp_all add: scan_phase_def)
      have 3: "step s2 (committed c found s2)" using len f(2) by (rule update)
      show ?thesis
      proof (cases "commit ?obj ?fs found (so_rows s)")
        case (Inl e)
        then have c3: "committed c found s2 = set_phase c (Rejecting e) s2" by (simp add: committed_def k2)
        have "step (committed c found s2) (set_phase c (Rejected e) (committed c found s2))"
          using len by (intro reject) (simp_all add: c3)
        with s2 3 have "step\<^sup>*\<^sup>* s (set_phase c (Rejected e) (committed c found s2))" by (meson rtranclp.rtrancl_into_rtrancl)
        then show ?thesis using Inl k2 len f(1)
          by (intro exI [of _ "set_phase c (Rejected e) (committed c found s2)"]) (auto simp: doUpsert_def c3)
      next
        case (Inr x)
        then obtain rs p minted where x: "commit ?obj ?fs found (so_rows s) = Inr (rs, p, minted)" by (cases x) auto
        let ?s3 = "committed c found s2" and ?s4 = "(set_phase c (Ensured p minted) (committed c found s2))\<lparr>so_semaphore := None\<rparr>"
        have c3: "?s3 = (set_phase c (Committed p minted) s2)\<lparr>so_rows := rs\<rparr>" by (simp add: committed_def k2 x)
        have "step ?s3 ?s4" using len by (intro settle) (simp_all add: c3)
        with s2 3 have "step\<^sup>*\<^sup>* s ?s4" by (meson rtranclp.rtrancl_into_rtrancl)
        then show ?thesis using x k2 len f(1) by (intro exI [of _ ?s4]) (auto simp: doUpsert_def c3)
      qed
    qed
  qed
qed

section \<open>Every call settles\<close>

text \<open>How many moves a call has left at most.\<close>

definition platforms_of :: "row \<Rightarrow> nat" where
  "platforms_of obj = (case id_map obj of Inr m \<Rightarrow> length m | Inl _ \<Rightarrow> 0)"

definition moves_left :: "call \<Rightarrow> nat" where
  "moves_left cl =
     (case cl_phase cl of
        Idle \<Rightarrow> platforms_of (cl_obj cl) + 6
      | Waiting _ \<Rightarrow> platforms_of (cl_obj cl) + 5
      | Scanning m \<Rightarrow> length m + 4
      | Located _ \<Rightarrow> 3
      | Committed _ _ \<Rightarrow> 1
      | Rejecting _ \<Rightarrow> 1
      | _ \<Rightarrow> 0)"

definition work :: "storage \<Rightarrow> nat" where
  "work s = sum_list (map moves_left (so_calls s))"

lemma work_set_phase:
  assumes "c < length (so_calls s)" "moves_left ((so_calls s ! c)\<lparr>cl_phase := ph\<rparr>) < moves_left (so_calls s ! c)"
  shows "work (set_phase c ph s) < work s"
proof -
  have "work (set_phase c ph s) + moves_left (so_calls s ! c) = work s + moves_left ((so_calls s ! c)\<lparr>cl_phase := ph\<rparr>)"
    using assms(1) elem_le_sum_list [of c "map moves_left (so_calls s)"]
    by (simp add: work_def set_phase_def map_update sum_list_update)
  with assms(2) show ?thesis by linarith
qed

lemma work_fields [simp]: "work (s\<lparr>so_rows := rs\<rparr>) = work s" "work (s\<lparr>so_semaphore := q\<rparr>) = work s"
  by (simp_all add: work_def)

lemma step_work: "step s s' \<Longrightarrow> work s' < work s"
proof (induction rule: step.induct)
  case (enter c s)
  then show ?case by (auto simp: begin_upsert_def phase_of_def moves_left_def platforms_of_def intro!: work_set_phase split: sum.split)
next
  case (resume c s d p m)
  then show ?case by (auto simp: begin_upsert_def phase_of_def moves_left_def platforms_of_def intro!: work_set_phase split: sum.split)
next
  case (scan c s m)
  then show ?case by (auto simp: scanned_def phase_of_def moves_left_def intro!: work_set_phase split: list.split sum.split option.split)
next
  case (update c s found)
  then show ?case by (auto simp: committed_def phase_of_def moves_left_def intro!: work_set_phase split: sum.split)
qed (auto simp: phase_of_def moves_left_def intro!: work_set_phase)

text \<open>A call waits only for a call that is under way or has settled.\<close>

definition under_way :: "storage \<Rightarrow> nat \<Rightarrow> bool" where
  "under_way s d \<longleftrightarrow> d < length (so_calls s) \<and> (case phase_of s d of Idle \<Rightarrow> False | Waiting _ \<Rightarrow> False | _ \<Rightarrow> True)"

definition waits_ok :: "storage \<Rightarrow> bool" where
  "waits_ok s \<longleftrightarrow> (\<forall>d. so_semaphore s = Some d \<longrightarrow> under_way s d)
     \<and> (\<forall>c d. c < length (so_calls s) \<longrightarrow> phase_of s c = Waiting d \<longrightarrow> under_way s d)"

lemma under_way_set: "c < length (so_calls s) \<Longrightarrow> under_way (set_phase c ph s) d \<longleftrightarrow>
    (if d = c then (case ph of Idle \<Rightarrow> False | Waiting _ \<Rightarrow> False | _ \<Rightarrow> True) else under_way s d)"
  by (auto simp: under_way_def split: phase.split)

lemma under_way_fields [simp]: "under_way (s\<lparr>so_rows := rs\<rparr>) d = under_way s d" "under_way (s\<lparr>so_semaphore := q\<rparr>) d = under_way s d"
  by (simp_all add: under_way_def)

lemma waits_set_phase:
  assumes "waits_ok s" "c < length (so_calls s)" "\<not> under_way s c \<or> (\<forall>d. ph \<noteq> Idle \<and> ph \<noteq> Waiting d)"
    and "\<And>d. ph = Waiting d \<Longrightarrow> under_way s d"
  shows "waits_ok (set_phase c ph s)"
proof -
  have u: "under_way (set_phase c ph s) d" if "under_way s d" for d
    using that assms(2,3) by (auto simp: under_way_set split: phase.split)
  with assms show ?thesis unfolding waits_ok_def by (auto split: if_split_asm)
qed

lemma waits_begin:
  assumes "waits_ok s" "c < length (so_calls s)"
  shows "waits_ok (begin_upsert c s)"
proof -
  let ?ph = "case id_map (cl_obj (so_calls s ! c)) of Inr m \<Rightarrow> Scanning m | Inl e \<Rightarrow> Rejecting e"
  have "waits_ok (set_phase c ?ph s)" by (rule waits_set_phase [OF assms]) (auto split: sum.split sum.split_asm)
  moreover have "under_way (set_phase c ?ph s) c" using assms(2) by (simp add: under_way_set split: sum.split)
  ultimately show ?thesis by (simp add: begin_upsert_def waits_ok_def)
qed

lemma step_waits: "step s s' \<Longrightarrow> waits_ok s \<Longrightarrow> waits_ok s'"
proof (induction rule: step.induct)
  case (wait c s d)
  have "\<not> under_way s c" using wait(2) by (simp add: under_way_def)
  with wait show ?case by (intro waits_set_phase) (auto simp: waits_ok_def)
next
  case (scan c s m)
  then show ?case by (intro waits_set_phase) (auto simp: scanned_def split: list.split sum.split option.split list.split_asm sum.split_asm option.split_asm)
next
  case (update c s found)
  then show ?case
    by (auto simp: committed_def waits_ok_def under_way_set split: sum.split if_split_asm)
next
  case (settle c s p m)
  then have "waits_ok (set_phase c (Ensured p m) s)" by (intro waits_set_phase) auto
  then show ?case by (simp add: waits_ok_def)
qed (auto intro!: waits_begin waits_set_phase)

lemma steps_waits: "step\<^sup>*\<^sup>* s s' \<Longrightarrow> waits_ok s \<Longrightarrow> waits_ok s'"
  by (induction rule: rtranclp_induct) (auto intro: step_waits)

lemma waits_new: "waits_ok (new_storage i rs calls)"
  by (auto simp: waits_ok_def new_storage_def phase_of_def case_prod_unfold)

lemma not_stuck:
  assumes "waits_ok s" "c < length (so_calls s)" "\<not> settled (phase_of s c)"
  shows "\<exists>s'. step s s'"
proof -
  have own: "\<exists>s'. step s s'" if "d < length (so_calls s)" "\<not> settled (phase_of s d)" "\<forall>e. phase_of s d \<noteq> Waiting e" for d
    using that by (cases "phase_of s d"; cases "so_semaphore s") (auto simp: settled_def intro: step.intros)
  show ?thesis
  proof (cases "\<exists>d. phase_of s c = Waiting d")
    case True
    then obtain d where d: "phase_of s c = Waiting d" by blast
    with assms(1,2) have u: "under_way s d" unfolding waits_ok_def by blast
    show ?thesis
    proof (cases "settled (phase_of s d)")
      case True
      with assms(2) d show ?thesis by (cases "phase_of s d") (auto simp: settled_def intro: step.intros)
    next
      case False
      with own [of d] u show ?thesis by (auto simp: under_way_def split: phase.split_asm)
    qed
  qed (use own [OF assms(2,3)] in auto)
qed

text \<open>
  C32. No call of \<open>ensureRow\<close> waits for ever: however the calls interleave, no run from a fresh
  storage has more steps than six for each call and one for each platform in its object's
  \<open>foreignIds\<close>, and as long as a call has not settled some call can move; so every run that
  cannot go on has settled them all.
\<close>
theorem ensureRow_settles:
  assumes "(step ^^ k) (new_storage i rs calls) s"
  shows "k \<le> sum_list (map (\<lambda>(obj, _). platforms_of obj + 6) calls)
    \<and> ((\<exists>s'. step s s') \<or> list_all (\<lambda>cl. settled (cl_phase cl)) (so_calls s))"
proof
  have "(step ^^ k) s0 s1 \<Longrightarrow> work s1 + k \<le> work s0" for s0 s1
  proof (induction k arbitrary: s1)
    case (Suc k)
    then obtain t where "(step ^^ k) s0 t" "step t s1" by auto
    with Suc.IH [of t] step_work [of t s1] show ?case by simp
  qed simp
  from this [OF assms] have "k \<le> work (new_storage i rs calls)" by simp
  also have "\<dots> = sum_list (map (\<lambda>(obj, _). platforms_of obj + 6) calls)"
    by (simp add: work_def new_storage_def moves_left_def comp_def case_prod_unfold)
  finally show "k \<le> sum_list (map (\<lambda>(obj, _). platforms_of obj + 6) calls)" .
  have "step\<^sup>*\<^sup>* (new_storage i rs calls) s" using assms by (simp add: rtranclp_power) blast
  then have "waits_ok s" using waits_new by (rule steps_waits)
  then show "(\<exists>s'. step s s') \<or> list_all (\<lambda>cl. settled (cl_phase cl)) (so_calls s)"
    using not_stuck [of s] by (auto simp: list_all_length phase_of_def)
qed

theorem ensureRow_settles_witness:
  "1 \<le> sum_list (map (\<lambda>(obj, _). platforms_of obj + 6) [(sample_row, [''foreignIds''])])"
proof -
  let ?s = "new_storage ''d'' no_rows [(sample_row, [''foreignIds''])]"
  have "step ?s (begin_upsert 0 ?s)" by (intro enter) (simp_all add: new_storage_def phase_of_def)
  then have "(step ^^ 1) ?s (begin_upsert 0 ?s)" by (simp only: relpowp_1)
  from ensureRow_settles [OF this] show ?thesis by blast
qed

theorem ensureRow_alone_witness:
  "\<exists>s'. step\<^sup>*\<^sup>* (new_storage ''d'' no_rows [(sample_row, [''foreignIds''])]) s' \<and> phase_of s' 0 = Ensured (Some 0) True"
proof -
  let ?s = "new_storage ''d'' no_rows [(sample_row, [''foreignIds''])]"
  have s: "0 < length (so_calls ?s)" "phase_of ?s 0 = Idle" "so_semaphore ?s = None"
    "so_id ?s = ''d''" "so_rows ?s = no_rows" "cl_obj (so_calls ?s ! 0) = sample_row" "cl_fields (so_calls ?s ! 0) = [''foreignIds'']"
    by (simp_all add: new_storage_def phase_of_def)
  have d: "doUpsert ''d'' sample_row [''foreignIds''] no_rows = Inr (setRow (Some 0) sample_row no_rows, Some 0, True)"
    by code_simp
  from ensureRow_alone [OF s(1-3)] show ?thesis unfolding s(4-7) d by auto
qed

section \<open>Minted rows\<close>

text \<open>What a call that has updated the rows reports.\<close>

definition reported :: "phase \<Rightarrow> (position \<times> bool) option" where
  "reported ph = (case ph of Committed p m \<Rightarrow> Some (p, m) | Ensured p m \<Rightarrow> Some (p, m) | _ \<Rightarrow> None)"

definition minted_ok :: "storage \<Rightarrow> bool" where
  "minted_ok s \<longleftrightarrow>
     (\<forall>c < length (so_calls s). \<forall>p m. reported (phase_of s c) = Some (p, m) \<longrightarrow> row_at (so_rows s) p \<noteq> None
        \<and> (m \<longrightarrow> (\<exists>n < length (elements (so_rows s)). p = Some (int n))
            \<and> (\<forall>d < length (so_calls s). \<forall>q. reported (phase_of s d) = Some (q, True) \<longrightarrow> q = p \<longrightarrow> d = c)))"

lemma minted_set_phase:
  assumes "minted_ok s" "c < length (so_calls s)" "reported ph = reported (phase_of s c)"
  shows "minted_ok (set_phase c ph s)"
proof -
  have "reported (phase_of (set_phase c ph s) d) = reported (phase_of s d)" for d
    using assms(2,3) by simp
  then show ?thesis using assms(1) by (simp add: minted_ok_def)
qed

lemma setRow_length: "length (elements rs) \<le> length (elements (setRow p r rs))"
  by (simp add: setRow_def with_room_def split: option.split)

lemma minted_commit:
  assumes "minted_ok s" "c < length (so_calls s)" "phase_of s c = Located found"
  shows "minted_ok (committed c found s)"
proof (cases "commit (cl_obj (so_calls s ! c)) (cl_fields (so_calls s ! c)) found (so_rows s)")
  case (Inl e)
  with assms show ?thesis by (simp add: committed_def) (intro minted_set_phase, simp_all add: reported_def)
next
  case (Inr x)
  obtain rs p m where x: "x = (rs, p, m)" by (cases x)
  obtain r where rs: "rs = setRow p r (so_rows s)" and m: "m = (found = None)"
    and p: "found = None \<Longrightarrow> p = Some (int (length (elements (so_rows s))))"
    using Inr unfolding x by (auto simp: commit_def Let_def bindE_eq_Inr)
  have s': "committed c found s = (set_phase c (Committed p m) s)\<lparr>so_rows := rs\<rparr>" by (simp add: committed_def Inr x)
  let ?n = "length (elements (so_rows s))"
  have old: "row_at rs q \<noteq> None" if "row_at (so_rows s) q \<noteq> None" for q using that by (simp add: rs row_at_setRow)
  have fresh: "\<exists>k < ?n. q = Some (int k)" if "d < length (so_calls s)" "reported (phase_of s d) = Some (q, True)" for d q
    using assms(1) that unfolding minted_ok_def by blast
  have len: "?n \<le> length (elements rs)" unfolding rs by (rule setRow_length)
  have new: "m \<Longrightarrow> p = Some (int ?n) \<and> ?n < length (elements rs)" using m p by (simp add: rs setRow_index put_at_def)
  have rep: "reported (phase_of (committed c found s) d) = (if d = c then Some (p, m) else reported (phase_of s d))" for d
    using assms(2) by (simp add: s' reported_def)
  have "\<not> reported (phase_of s c) = Some y" for y using assms(3) by (simp add: reported_def)
  show ?thesis
    unfolding minted_ok_def
  proof (intro allI impI)
    fix d q k assume d: "d < length (so_calls (committed c found s))" and q: "reported (phase_of (committed c found s) d) = Some (q, k)"
    have dl: "d < length (so_calls s)" using d by (simp add: s')
    show "row_at (so_rows (committed c found s)) q \<noteq> None \<and> (k \<longrightarrow>
        (\<exists>n < length (elements (so_rows (committed c found s))). q = Some (int n)) \<and>
        (\<forall>e < length (so_calls (committed c found s)). \<forall>q'. reported (phase_of (committed c found s) e) = Some (q', True) \<longrightarrow> q' = q \<longrightarrow> e = d))"
    proof (cases "d = c")
      case True
      with q rep have qk: "q = p" "k = m" by simp_all
      have "e = d" if "e < length (so_calls s)" "reported (phase_of (committed c found s) e) = Some (p, True)" "m" for e
        using that new fresh [of e p] True rep [of e] by (auto split: if_split_asm)
      then show ?thesis using new qk by (auto simp: s' rs row_at_setRow)
    next
      case False
      with q rep have r: "reported (phase_of s d) = Some (q, k)" by simp
      with assms(1) dl have a: "row_at (so_rows s) q \<noteq> None"
        "k \<longrightarrow> (\<exists>n < ?n. q = Some (int n)) \<and> (\<forall>e < length (so_calls s). \<forall>q'. reported (phase_of s e) = Some (q', True) \<longrightarrow> q' = q \<longrightarrow> e = d)"
        unfolding minted_ok_def by blast+
      show ?thesis
      proof (intro conjI impI allI)
        show "row_at (so_rows (committed c found s)) q \<noteq> None" using old [OF a(1)] by (simp add: s')
      next
        assume k
        with a(2) len show "\<exists>n < length (elements (so_rows (committed c found s))). q = Some (int n)"
          by (auto simp: s' intro: less_le_trans)
      next
        fix e q' assume k and e: "e < length (so_calls (committed c found s))"
          "reported (phase_of (committed c found s) e) = Some (q', True)" "q' = q"
        show "e = d"
        proof (cases "e = c")
          case True
          with e rep new have "q = Some (int ?n)" by simp
          with a(2) \<open>k\<close> show ?thesis by auto
        next
          case False
          with e rep a(2) \<open>k\<close> show ?thesis by (auto simp: s')
        qed
      qed
    qed
  qed
qed

lemma step_minted: "step s s' \<Longrightarrow> minted_ok s \<Longrightarrow> minted_ok s'"
proof (induction rule: step.induct)
  case (enter c s)
  then have "minted_ok (set_phase c (case id_map (cl_obj (so_calls s ! c)) of Inr m \<Rightarrow> Scanning m | Inl e \<Rightarrow> Rejecting e) s)"
    by (intro minted_set_phase) (auto simp: reported_def split: sum.split)
  then show ?case by (simp add: begin_upsert_def minted_ok_def)
next
  case (resume c s d p m)
  then have "minted_ok (set_phase c (case id_map (cl_obj (so_calls s ! c)) of Inr m \<Rightarrow> Scanning m | Inl e \<Rightarrow> Rejecting e) s)"
    by (intro minted_set_phase) (auto simp: reported_def split: sum.split)
  then show ?case by (simp add: begin_upsert_def minted_ok_def)
next
  case (settle c s p m)
  then have "minted_ok (set_phase c (Ensured p m) s)" by (intro minted_set_phase) (auto simp: reported_def)
  then show ?case by (simp add: minted_ok_def)
next
  case (scan c s m)
  then show ?case by (intro minted_set_phase) (auto simp: reported_def scanned_def split: list.split sum.split option.split)
qed (auto intro: minted_commit minted_set_phase simp: reported_def)

text \<open>
  However the calls of \<open>ensureRow\<close> interleave, a call that has updated the rows reports a
  position at which there is a row, and a position reported as minted is an array index that no
  other call reports as minted: two calls never mint the same row.
\<close>
lemma minted_rows_apart:
  assumes "step\<^sup>*\<^sup>* (new_storage i rs calls) s" "c < length calls" "reported (phase_of s c) = Some (p, m)"
  shows "row_at (so_rows s) p \<noteq> None \<and> (if m then \<exists>n < length (elements (so_rows s)). p = Some (int n) else True)
    \<and> (\<nexists>d. d \<noteq> c \<and> d < length calls \<and> m \<and> reported (phase_of s d) = Some (p, True))"
proof -
  have new: "minted_ok (new_storage i rs calls)"
    by (auto simp: minted_ok_def new_storage_def phase_of_def reported_def case_prod_unfold)
  have len: "step\<^sup>*\<^sup>* s0 s1 \<Longrightarrow> length (so_calls s1) = length (so_calls s0)" for s0 s1
    by (induction rule: rtranclp_induct) (auto elim!: step.cases simp: begin_upsert_def committed_def split: sum.split)
  have "minted_ok s" using assms(1) new by (induction rule: rtranclp_induct) (auto intro: step_minted)
  moreover have "length (so_calls s) = length calls" using len [OF assms(1)] by (simp add: new_storage_def)
  ultimately show ?thesis using assms(2,3) unfolding minted_ok_def by auto
qed

section \<open>What goes wrong\<close>

text \<open>
  Two calls that wait for the same semaphore both go on when it is released, and neither looks
  at the semaphore again: if they upsert the same new object, neither finds the other's row
  and each mints one. Here the first call is of another object.
\<close>

definition other_row :: row where
  "other_row = [(''name'', JStr ''Daffy''), (''foreignIds'', JObj [])]"

definition race :: storage where
  "race = new_storage ''d'' no_rows [(other_row, [''foreignIds'']), (sample_row, [''foreignIds'']), (sample_row, [''foreignIds''])]"

lemma waiting_calls_mint_twice:
  "\<exists>s. step\<^sup>*\<^sup>* race s \<and> phase_of s 1 = Ensured (Some 1) True \<and> phase_of s 2 = Ensured (Some 2) True
    \<and> row_at (so_rows s) (Some 1) = Some sample_row \<and> row_at (so_rows s) (Some 2) = Some sample_row"
  by (rule run_to [where cs = "[0, 1, 2, 0, 0, 0, 1, 2, 1, 2, 1, 2, 1, 2, 1, 2]"]) code_simp

text \<open>
  A call whose \<open>doUpsert\<close> rejects never clears the semaphore it set, and every later call
  rejects with its error.
\<close>

lemma rejected_semaphore_stays:
  "\<exists>s. step\<^sup>*\<^sup>* (new_storage ''d'' no_rows [([], [''foreignIds'']), (sample_row, [''foreignIds''])]) s
    \<and> phase_of s 0 = Rejected ''TypeError'' \<and> phase_of s 1 = Rejected ''TypeError'' \<and> so_semaphore s = Some 0"
  by (rule run_to [where cs = "[0, 0, 1, 1]"]) code_simp

text \<open>An object with no values but its identifiers matches the first row there is.\<close>

lemma bare_object_matches_first_row:
  "findObject ''d'' [(''foreignIds'', JObj [(''slack'', JStr ''U1'')])] (setRow (Some 0) sample_row no_rows) = Inr (Some (Some 0))"
  by code_simp

text \<open>Reading a row that is not there throws instead of giving \<open>undefined\<close>.\<close>

lemma missing_row_throws: "getRow (Some 0) no_rows = Inl ''SyntaxError''"
  by (simp add: getRow_def row_at_def no_rows_def)

end
