(* ===== verification/Js_Date.thy ===== *)
theory Js_Date
  imports Js_Text
begin

text \<open>
  Instants and their texts: \<open>Date.parse\<close> reads back what \<open>toISOString\<close> writes, for the
  years 0 to 9999. The calendar is the proleptic Gregorian one, in eras of 400 years.
\<close>

section \<open>Years of an era\<close>

text \<open>The first day of a year of an era, and the estimate that is divided by 365.\<close>

definition year_start :: "int \<Rightarrow> int" where
  "year_start y = 365 * y + y div 4 - y div 100"

definition year_quotient :: "int \<Rightarrow> int" where
  "year_quotient doe = doe - doe div 1460 + doe div 36524 - doe div 146096"

lemma div_step: "0 < k \<Longrightarrow> (a + 1) div k \<le> a div k + (1 :: int)" "0 < k \<Longrightarrow> a div k \<le> (a + 1) div (k :: int)"
proof -
  assume "0 < k"
  then have "(a + 1) div k \<le> (a + k) div k" by (intro zdiv_mono1) auto
  also have "(a + k) div k = a div k + 1" using \<open>0 < k\<close> by (intro div_add_self2) simp
  finally show "(a + 1) div k \<le> a div k + 1" .
  from \<open>0 < k\<close> show "a div k \<le> (a + 1) div k" by (intro zdiv_mono1) auto
qed

lemma year_quotient_Suc: "0 \<le> a \<Longrightarrow> a < 146096 \<Longrightarrow> year_quotient a \<le> year_quotient (a + 1)"
proof (cases "a + 1 = 146096")
  case True
  then show ?thesis by (simp add: year_quotient_def)
next
  case False
  assume "0 \<le> a" "a < 146096"
  with False have "a div 146096 = 0" "(a + 1) div 146096 = 0" by auto
  then show ?thesis
    using div_step [of 1460 a] div_step [of 36524 a] unfolding year_quotient_def by linarith
qed

lemma year_quotient_mono: "0 \<le> a \<Longrightarrow> a + int k \<le> 146096 \<Longrightarrow> year_quotient a \<le> year_quotient (a + int k)"
proof (induction k)
  case (Suc k)
  then show ?case using year_quotient_Suc [of "a + int k"] by (simp add: algebra_simps)
qed simp

definition year_ok :: "int \<Rightarrow> bool" where
  "year_ok y \<longleftrightarrow>
     365 * y \<le> year_quotient (year_start y)
     \<and> year_quotient (if y = 399 then 146096 else year_start (y + 1) - 1) < 365 * (y + 1)
     \<and> 0 \<le> year_start y \<and> year_start (y + 1) \<le> year_start y + 366 \<and> year_start (y + 1) \<le> 146096"

lemma years_ok: "0 \<le> y \<Longrightarrow> y \<le> 399 \<Longrightarrow> year_ok y"
proof -
  have "list_all year_ok [0..399]" by code_simp
  then show "0 \<le> y \<Longrightarrow> y \<le> 399 \<Longrightarrow> year_ok y" by (simp add: list_all_iff)
qed

lemma year_exists:
  "0 \<le> doe \<Longrightarrow> doe < year_start (int k) \<Longrightarrow>
    \<exists>y. 0 \<le> y \<and> y < int k \<and> year_start y \<le> doe \<and> doe < year_start (y + 1)"
proof (induction k)
  case (Suc k)
  show ?case
  proof (cases "doe < year_start (int k)")
    case True
    from Suc.IH [OF Suc.prems(1) True] show ?thesis by force
  next
    case False
    with Suc.prems show ?thesis by (intro exI [of _ "int k"]) (simp add: add.commute)
  qed
qed (simp add: year_start_def)

lemma year_of_era:
  assumes "0 \<le> doe" "doe \<le> 146096"
  shows "\<exists>y. 0 \<le> y \<and> y \<le> 399 \<and> year_quotient doe div 365 = y
    \<and> year_start y \<le> doe \<and> doe \<le> year_start y + 365"
proof -
  obtain y where y: "0 \<le> y" "y \<le> 399" "year_start y \<le> doe"
    "doe \<le> (if y = 399 then 146096 else year_start (y + 1) - 1)"
  proof (cases "doe < year_start (int 399)")
    case True
    from year_exists [OF assms(1) this] obtain y
      where "0 \<le> y" "y < int 399" "year_start y \<le> doe" "doe < year_start (y + 1)" by blast
    then show ?thesis using that [of y] by simp
  next
    case False
    with assms(2) that [of 399] show ?thesis by simp
  qed
  note b = years_ok [OF y(1,2), unfolded year_ok_def]
  have mono: "year_quotient u \<le> year_quotient v" if "0 \<le> u" "u \<le> v" "v \<le> 146096" for u v
    using that year_quotient_mono [of u "nat (v - u)"] by simp
  have "365 * y \<le> year_quotient doe"
    using b y(3) mono [of "year_start y" doe] assms by auto
  moreover have "year_quotient doe < 365 * (y + 1)"
    using b y mono [of doe "if y = 399 then 146096 else year_start (y + 1) - 1"] assms(1)
    by (cases "y = 399") auto
  ultimately have "year_quotient doe div 365 = y"
    using int_div_pos_eq [of "year_quotient doe" 365 y "year_quotient doe - 365 * y"] by simp
  moreover have "doe \<le> year_start y + 365"
    using b y by (cases "y = 399") (auto simp: year_start_def)
  ultimately show ?thesis using y(1-3) by blast
qed

section \<open>Days and dates\<close>

text \<open>Month and day of a day of a year that starts in March.\<close>

lemma month_day_bounds:
  fixes doy :: int
  assumes "0 \<le> doy" "doy \<le> 365"
  shows "0 \<le> (5 * doy + 2) div 153" "(5 * doy + 2) div 153 \<le> 11"
    "1 \<le> doy - (153 * ((5 * doy + 2) div 153) + 2) div 5 + 1"
    "doy - (153 * ((5 * doy + 2) div 153) + 2) div 5 + 1 \<le> 31"
proof -
  have "list_all (\<lambda>doy. 0 \<le> (5 * doy + 2) div 153 \<and> (5 * doy + 2) div 153 \<le> 11
      \<and> 1 \<le> doy - (153 * ((5 * doy + 2) div 153) + 2) div 5 + 1
      \<and> doy - (153 * ((5 * doy + 2) div 153) + 2) div 5 + 1 \<le> 31) [0..365::int]"
    by code_simp
  with assms show "0 \<le> (5 * doy + 2) div 153" "(5 * doy + 2) div 153 \<le> 11"
    "1 \<le> doy - (153 * ((5 * doy + 2) div 153) + 2) div 5 + 1"
    "doy - (153 * ((5 * doy + 2) div 153) + 2) div 5 + 1 \<le> 31"
    by (auto simp: list_all_iff)
qed

lemma civil_from_days_correct:
  assumes "civil_from_days n = (y, m, d)"
  shows "days_from_civil y m d = n" "1 \<le> m" "m \<le> 12" "1 \<le> d" "d \<le> 31"
    "(n + 719468) div 146097 * 400 \<le> y" "y \<le> (n + 719468) div 146097 * 400 + 400"
proof -
  define era where "era = (n + 719468) div 146097"
  define doe where "doe = (n + 719468) mod 146097"
  have doe: "0 \<le> doe" "doe \<le> 146096" "n = era * 146097 + doe - 719468"
    by (simp_all add: era_def doe_def)
  obtain yoe where yoe: "0 \<le> yoe" "yoe \<le> 399" "year_quotient doe div 365 = yoe"
    "year_start yoe \<le> doe" "doe \<le> year_start yoe + 365"
    using year_of_era [OF doe(1,2)] by blast
  define doy where "doy = doe - year_start yoe"
  define mp where "mp = (5 * doy + 2) div 153"
  have doy_eq: "doe - (365 * yoe + yoe div 4 - yoe div 100) = doy" by (simp add: doy_def year_start_def)
  have doy: "0 \<le> doy" "doy \<le> 365" using yoe(4,5) by (simp_all add: doy_def)
  note mp = month_day_bounds [OF doy, folded mp_def]
  have e: "y = (if mp < 10 then yoe + era * 400 else yoe + era * 400 + 1)"
    "m = (if mp < 10 then mp + 3 else mp - 9)" "d = doy - (153 * mp + 2) div 5 + 1"
  proof -
    have "civil_from_days n =
        (let m = (if mp < 10 then mp + 3 else mp - 9)
         in (if m \<le> 2 then yoe + era * 400 + 1 else yoe + era * 400, m, doy - (153 * mp + 2) div 5 + 1))"
      by (simp only: civil_from_days_def Let_def era_def [symmetric] doe_def [symmetric]
          yoe(3) [unfolded year_quotient_def] doy_eq mp_def [symmetric])
    with assms mp show "y = (if mp < 10 then yoe + era * 400 else yoe + era * 400 + 1)"
      "m = (if mp < 10 then mp + 3 else mp - 9)" "d = doy - (153 * mp + 2) div 5 + 1"
      by (auto simp: Let_def split: if_splits)
  qed
  show "1 \<le> m" "m \<le> 12" "1 \<le> d" "d \<le> 31" using e mp by auto
  show "(n + 719468) div 146097 * 400 \<le> y" "y \<le> (n + 719468) div 146097 * 400 + 400"
    using e(1) yoe(1,2) by (auto simp: era_def)
  have base: "(if m \<le> 2 then y - 1 else y) = yoe + era * 400" using e mp by auto
  have month: "(if m > 2 then m - 3 else m + 9) = mp" using e mp by auto
  have era: "(yoe + era * 400) mod 400 = yoe" "(yoe + era * 400) div 400 = era" using yoe(1,2) by auto
  show "days_from_civil y m d = n"
    unfolding days_from_civil_def base month Let_def era e(3) doe(3)
    using doy_def by (simp add: year_start_def)
qed

lemma day_of_10000: "1 \<le> m \<Longrightarrow> 1 \<le> d \<Longrightarrow> days_from_civil 10000 m d \<ge> 2932897"
proof (cases "m \<le> 2")
  case True
  assume "1 \<le> m" "1 \<le> d"
  with True have "m = 1 \<or> m = 2" by auto
  with \<open>1 \<le> d\<close> show ?thesis by (auto simp: days_from_civil_def)
next
  case False
  assume "1 \<le> d"
  have "0 \<le> (153 * (m - 3) + 2) div 5" using False by (intro pos_imp_zdiv_nonneg_iff [THEN iffD2]) auto
  with False \<open>1 \<le> d\<close> show ?thesis by (simp add: days_from_civil_def)
qed

lemma civil_year:
  assumes "civil_from_days n = (y, m, d)" "0 \<le> n" "n \<le> 2932896"
  shows "0 \<le> y" "y \<le> 9999"
proof -
  note c = civil_from_days_correct [OF assms(1)]
  show "0 \<le> y" using c(6) assms(2) by linarith
  have "(n + 719468) div 146097 \<le> 24" using assms(3) by linarith
  with c(7) have le: "y \<le> 10000" by linarith
  have "y \<noteq> 10000"
  proof
    assume "y = 10000"
    then have "days_from_civil 10000 m d = n" using c(1) by simp
    moreover have "days_from_civil 10000 m d \<ge> 2932897" by (rule day_of_10000) (use c in auto)
    ultimately show False using assms(3) by simp
  qed
  with le show "y \<le> 9999" by simp
qed

section \<open>Texts\<close>

lemma digit_of: "is_digit c \<Longrightarrow> digit c = Some (int (digit_val c))"
proof -
  have "(of_char c :: int) = int (of_char c)" by (simp add: of_nat_of_char)
  moreover assume "is_digit c"
  ultimately show ?thesis by (simp add: digit_def is_digit_def digit_val_def code_def Let_def)
qed

lemma digits_value_dec: "digits s \<Longrightarrow> digits_value acc s = Some (acc * 10 ^ length s + int (dec_val s))"
proof (induction s arbitrary: acc)
  case (Cons c s)
  then show ?case by (simp add: digit_of dec_val_cons algebra_simps)
qed simp

text \<open>A number of at most \<open>k\<close> digits, padded to them.\<close>

definition number_of_width :: "nat \<Rightarrow> string \<Rightarrow> int \<Rightarrow> bool" where
  "number_of_width k s i \<longleftrightarrow> length s = k \<and> digits s \<and> int (dec_val s) = i"

lemma pad_int_width: "0 \<le> i \<Longrightarrow> i < 10 ^ Suc k \<Longrightarrow> number_of_width (Suc k) (pad_int (Suc k) i) i"
proof -
  assume i: "0 \<le> i" "i < 10 ^ Suc k"
  then have "int (nat i) < int (10 ^ Suc k)" by simp
  then have n: "nat i < 10 ^ Suc k" by (simp only: of_nat_less_iff)
  then have lead: "nat i div 10 ^ k < 10" by (simp add: less_mult_imp_div_less mult.commute)
  have padded: "pad_int (Suc k) i = [digit_char (nat i div 10 ^ k)] @ last_digits k (nat i)"
    using i(1) lead unfolding pad_int_def int_str_def
    by (simp add: pad_zero_nat_str nat_str_digit del: pad_zero.simps last_digits.simps)
  have "dec_val (pad_int (Suc k) i) = nat i div 10 ^ k * 10 ^ k + nat i mod 10 ^ k"
    unfolding padded using lead by (simp add: dec_val_cons dec_val_last_digits del: last_digits.simps)
  then have "dec_val (pad_int (Suc k) i) = nat i" by (simp only: div_mult_mod_eq)
  moreover have "length (pad_int (Suc k) i) = Suc k" "digits (pad_int (Suc k) i)"
    unfolding padded using lead by (simp_all del: last_digits.simps)
  ultimately show ?thesis using i(1) by (simp add: number_of_width_def)
qed

lemma pad_int_widths: "0 < k \<Longrightarrow> 0 \<le> i \<Longrightarrow> i < 10 ^ k \<Longrightarrow> number_of_width k (pad_int k i) i"
  using pad_int_width [of i "k - 1"] by simp

lemma pad_widths:
  "0 \<le> i \<Longrightarrow> i \<le> 9999 \<Longrightarrow> number_of_width 4 (pad_int 4 i) i"
  "0 \<le> i \<Longrightarrow> i < 1000 \<Longrightarrow> number_of_width 3 (pad_int 3 i) i"
  "0 \<le> i \<Longrightarrow> i < 100 \<Longrightarrow> number_of_width 2 (pad_int 2 i) i"
  by (rule pad_int_widths; simp)+

lemma fixed_digits_width: "number_of_width k s i \<Longrightarrow> fixed_digits k (s @ t) = Some (i, t)"
  by (auto simp: number_of_width_def fixed_digits_def digits_value_dec)

lemma expect_Cons [simp]: "expect c (c # s) = Some s"
  by (simp add: expect_def)

lemma fraction_width:
  assumes "number_of_width 3 s i" "digit c = None"
  shows "parse_fraction (CHR ''.'' # s @ c # t) = Some (i, c # t)"
proof -
  have s: "\<forall>x \<in> set s. digit x \<noteq> None" "length s = 3" "digits s" "int (dec_val s) = i"
    using assms(1) by (auto simp: number_of_width_def list_all_iff digit_of)
  then have "takeWhile (\<lambda>c. digit c \<noteq> None) (s @ c # t) = s"
    "dropWhile (\<lambda>c. digit c \<noteq> None) (s @ c # t) = c # t"
    using assms(2) by (simp_all add: takeWhile_append dropWhile_append)
  with s show ?thesis by (auto simp: parse_fraction_def Let_def digits_value_dec)
qed

lemma not_digits [simp]: "digit (CHR ''Z'') = None"
  by (simp add: digit_def Let_def)

lemma date_parse_parts:
  assumes w: "number_of_width 4 Y y" "number_of_width 2 M m" "number_of_width 2 D d"
    "number_of_width 2 H h" "number_of_width 2 I i" "number_of_width 2 S s" "number_of_width 3 F f"
    and ranges: "1 \<le> m" "m \<le> 12" "1 \<le> d" "d \<le> 31" "h < 24" "i < 60" "s < 60"
  shows "date_parse (Y @ ''-'' @ M @ ''-'' @ D @ ''T'' @ H @ '':'' @ I @ '':'' @ S @ ''.'' @ F @ ''Z'') =
    Some (days_from_civil y m d * 86400000 + ((h * 60 + i) * 60 + s) * 1000 + f)"
proof -
  note parts = w(1-6) [THEN fixed_digits_width]
  have frac: "parse_fraction (CHR ''.'' # F @ ''Z'') = Some (f, ''Z'')"
    using fraction_width [OF w(7), of "CHR ''Z''" "[]"] by simp
  have off: "parse_offset ''Z'' = Some 0" by (simp add: parse_offset_def)
  show ?thesis unfolding date_parse_def using ranges by (simp add: parts frac off)
qed

lemma seconds_of_parts:
  fixes a d s h i :: int
  shows "a = d * 86400 + s \<Longrightarrow> p = h * 60 + i \<Longrightarrow> s = p * 60 + sec \<Longrightarrow> t = a * 1000 + ms \<Longrightarrow>
    t = d * 86400000 + ((h * 60 + i) * 60 + sec) * 1000 + ms"
  by simp

text \<open>The instants whose texts have a year of four digits, from 1970 on.\<close>

definition instant_ok :: "int \<Rightarrow> bool" where
  "instant_ok at \<longleftrightarrow> 0 \<le> at \<and> at < 253402300800000"

lemma date_parse_iso_string:
  assumes "instant_ok at"
  shows "date_parse (iso_string at) = Some at"
proof -
  obtain y m d where civil: "civil_from_days (at div 86400000) = (y, m, d)" by (cases "civil_from_days (at div 86400000)") auto
  note c = civil_from_days_correct [OF civil]
  have day: "0 \<le> at div 86400000" "at div 86400000 \<le> 2932896"
    using assms unfolding instant_ok_def by linarith+
  note year = civil_year [OF civil day]
  define s where "s = at div 1000 mod 86400"
  have s: "0 \<le> s" "s < 86400" by (simp_all add: s_def)
  have hms: "0 \<le> s div 3600" "s div 3600 < 24" "0 \<le> s div 60 mod 60" "s div 60 mod 60 < 60"
    "0 \<le> s mod 60" "s mod 60 < 60" "0 \<le> at mod 1000" "at mod 1000 < 1000"
    using s by auto
  have w: "number_of_width 4 (pad_int 4 y) y" "number_of_width 2 (pad_int 2 m) m"
    "number_of_width 2 (pad_int 2 d) d" "number_of_width 2 (pad_int 2 (s div 3600)) (s div 3600)"
    "number_of_width 2 (pad_int 2 (s div 60 mod 60)) (s div 60 mod 60)"
    "number_of_width 2 (pad_int 2 (s mod 60)) (s mod 60)"
    "number_of_width 3 (pad_int 3 (at mod 1000)) (at mod 1000)"
    using c(2-5) year hms by (intro pad_widths; linarith)+
  have at: "at = at div 86400000 * 86400000 + ((s div 3600 * 60 + s div 60 mod 60) * 60 + s mod 60) * 1000 + at mod 1000"
  proof -
    have "at div 86400000 = at div 1000 div 86400" "s div 3600 = s div 60 div 60"
      using zdiv_zmult2_eq [of 86400 at 1000] zdiv_zmult2_eq [of 60 s 60] by simp_all
    then have "at div 1000 = at div 86400000 * 86400 + s" "s div 60 = s div 3600 * 60 + s div 60 mod 60"
      unfolding s_def by (simp_all only: div_mult_mod_eq)
    moreover have "s = s div 60 * 60 + s mod 60" "at = at div 1000 * 1000 + at mod 1000"
      by (simp_all only: div_mult_mod_eq)
    ultimately show ?thesis by (rule seconds_of_parts)
  qed
  have iso: "iso_string at = pad_int 4 y @ ''-'' @ pad_int 2 m @ ''-'' @ pad_int 2 d @ ''T''
      @ pad_int 2 (s div 3600) @ '':'' @ pad_int 2 (s div 60 mod 60) @ '':'' @ pad_int 2 (s mod 60)
      @ ''.'' @ pad_int 3 (at mod 1000) @ ''Z''"
    by (simp add: iso_string_def iso_seconds_def date_text_def civil s_def Let_def)
  have "date_parse (iso_string at) = Some (days_from_civil y m d * 86400000
      + ((s div 3600 * 60 + s div 60 mod 60) * 60 + s mod 60) * 1000 + at mod 1000)"
    unfolding iso by (rule date_parse_parts [OF w c(2-5) hms(2,4,6)])
  then show ?thesis by (simp only: c(1) at [symmetric])
qed

end
