(* ===== verification/Dv_Sync.thy ===== *)
theory Dv_Sync
  imports Js_Date
begin

text \<open>
  The background sync scheduler (\<^verbatim>\<open>src/devonian/src/background/BackgroundSync.ts\<close>): its
  persisted state, one check (\<open>tick\<close>), one pass (\<open>attempt\<close>), and several contexts (tabs,
  workers) that share a store and a lease, as a step relation.

  The pass itself (\<open>options.run\<close>) is the host's: its outcome is an argument. So are the
  readings of the clock. A store cell holds a state that the scheduler wrote, nothing, or
  something else.
\<close>

section \<open>State and one attempt\<close>

record sync_state =
  s_failures :: nat
  s_nextDueAt :: "string option"
  s_lastAttemptAt :: "string option"
  s_lastSuccessAt :: "string option"
  s_lastError :: "string option"
  s_paused :: "string option"

record sync_options =
  opt_name :: string
  opt_intervalMs :: int
  opt_maxBackoffMs :: int

definition max_safe :: int where "max_safe = 9007199254740991"

definition new_sync :: "string \<Rightarrow> int \<Rightarrow> int option \<Rightarrow> string + sync_options" where
  "new_sync name interval maxBackoff =
     (if name = [] then Inl ''A background sync name is required''
      else if \<not> (\<bar>interval\<bar> \<le> max_safe) \<or> interval \<le> 0 then Inl ''intervalMs must be a positive integer''
      else Inr \<lparr>opt_name = name, opt_intervalMs = interval,
        opt_maxBackoffMs = (case maxBackoff of None \<Rightarrow> max interval (60 * 60 * 1000) | Some m \<Rightarrow> m)\<rparr>)"

datatype cell = Absent | Stored sync_state | Corrupt

definition fresh_state :: sync_state where
  "fresh_state =
     \<lparr>s_failures = 0, s_nextDueAt = None, s_lastAttemptAt = None, s_lastSuccessAt = None,
      s_lastError = None, s_paused = None\<rparr>"

definition status :: "sync_options \<Rightarrow> cell \<Rightarrow> string + sync_state" where
  "status opts c =
     (case c of
        Absent \<Rightarrow> Inr fresh_state
      | Stored s \<Rightarrow> Inr s
      | Corrupt \<Rightarrow> Inl (''Corrupt background sync state: '' @ opt_name opts))"

definition is_due :: "int \<Rightarrow> sync_state \<Rightarrow> bool" where
  "is_due now s =
     (case s_nextDueAt s of None \<Rightarrow> True | Some d \<Rightarrow> num_le (date_parse d) (Some now))"

definition is_paused :: "sync_state \<Rightarrow> bool" where
  "is_paused s \<longleftrightarrow> truthy (s_paused s)"

text \<open>How a pass ends: it returns, or it throws a message, for good or not.\<close>

datatype pass = Passed | Threw string bool

definition backoff :: "sync_options \<Rightarrow> nat \<Rightarrow> int" where
  "backoff opts k = min (opt_intervalMs opts * 2 ^ (k - 1)) (opt_maxBackoffMs opts)"

definition after_failure :: "sync_options \<Rightarrow> sync_state \<Rightarrow> int \<Rightarrow> int \<Rightarrow> string \<Rightarrow> bool \<Rightarrow> sync_state" where
  "after_failure opts s started now msg permanent =
     (let k = s_failures s + 1
      in \<lparr>s_failures = k,
          s_nextDueAt = (if permanent then None else Some (iso_string (now + backoff opts k))),
          s_lastAttemptAt = Some (iso_string started),
          s_lastSuccessAt = (if truthy (s_lastSuccessAt s) then s_lastSuccessAt s else None),
          s_lastError = Some msg,
          s_paused = (if permanent then Some msg else None)\<rparr>)"

definition after_success :: "sync_options \<Rightarrow> int \<Rightarrow> int \<Rightarrow> int \<Rightarrow> sync_state" where
  "after_success opts started now later =
     \<lparr>s_failures = 0, s_nextDueAt = Some (iso_string (later + opt_intervalMs opts)),
      s_lastAttemptAt = Some (iso_string started), s_lastSuccessAt = Some (iso_string now),
      s_lastError = None, s_paused = None\<rparr>"

definition after_pass :: "sync_options \<Rightarrow> sync_state \<Rightarrow> int \<Rightarrow> int \<Rightarrow> int \<Rightarrow> pass \<Rightarrow> sync_state" where
  "after_pass opts s started now later p =
     (case p of
        Passed \<Rightarrow> after_success opts started now later
      | Threw msg permanent \<Rightarrow> after_failure opts s started now msg permanent)"

datatype tick_outcome = Ran | Not_due | Busy | Paused | Failed

record tick_result =
  r_outcome :: tick_outcome
  r_state :: sync_state
  r_error :: "string option"

definition result_of :: "tick_outcome \<Rightarrow> sync_state \<Rightarrow> string option \<Rightarrow> tick_result" where
  "result_of out s e = \<lparr>r_outcome = out, r_state = s, r_error = e\<rparr>"

text \<open>
  \<open>attempt(force)\<close> with the readings of the clock it makes: when it asks whether it is due,
  when it starts, and twice after the pass. The result, and the cell it leaves.
\<close>

definition attempt ::
  "sync_options \<Rightarrow> bool \<Rightarrow> int \<Rightarrow> int \<Rightarrow> int \<Rightarrow> int \<Rightarrow> pass \<Rightarrow> cell \<Rightarrow> string + tick_result \<times> cell"
where
  "attempt opts force asked started now later p c =
     bindE (status opts c) (\<lambda>s.
       if is_paused s then Inr (result_of Paused s None, c)
       else if \<not> force \<and> \<not> is_due asked s then Inr (result_of Not_due s None, c)
       else
         let next_state = after_pass opts s started now later p
         in Inr (case p of
                   Passed \<Rightarrow> result_of Ran next_state None
                 | Threw msg permanent \<Rightarrow>
                     result_of (if permanent then Paused else Failed) next_state (Some msg),
                 Stored next_state))"

definition tick ::
  "sync_options \<Rightarrow> bool \<Rightarrow> int \<Rightarrow> int \<Rightarrow> int \<Rightarrow> int \<Rightarrow> pass \<Rightarrow> cell \<Rightarrow> string + tick_result \<times> cell"
where
  "tick opts lease_free asked started now later p c =
     bindE (status opts c) (\<lambda>s.
       if is_paused s then Inr (result_of Paused s None, c)
       else if \<not> is_due asked s then Inr (result_of Not_due s None, c)
       else if lease_free then attempt opts False asked started now later p c
       else Inr (result_of Busy s None, c))"

definition syncNow :: "sync_options \<Rightarrow> int \<Rightarrow> int \<Rightarrow> int \<Rightarrow> int \<Rightarrow> pass \<Rightarrow> cell \<Rightarrow> string + tick_result \<times> cell" where
  "syncNow opts asked started now later p c = attempt opts True asked started now later p c"

definition resumed :: "sync_state \<Rightarrow> sync_state" where
  "resumed s = s\<lparr>s_paused := None, s_nextDueAt := None, s_failures := 0\<rparr>"

definition resume :: "sync_options \<Rightarrow> cell \<Rightarrow> string + sync_state \<times> cell" where
  "resume opts c = bindE (status opts c) (\<lambda>s. Inr (resumed s, Stored (resumed s)))"

section \<open>Several contexts\<close>

text \<open>
  A context (a tab, a worker) is idle; or its tick found a due schedule; or it waits for the
  lease, for \<open>syncNow\<close> or \<open>resume\<close>; or it holds the lease and has yet to read the state; or it
  runs a pass, with the state it read and the time it started. The events are newest first.
\<close>

datatype kind = Scheduled | Forced | Resume

datatype phase = Idle | Wants kind | Holding kind | Running kind sync_state int

datatype event = Started kind int | Succeeded int | Failed_at int | Paused_for_good | Lost_pause int | Resumed

record world =
  w_cell :: cell
  w_phase :: "nat \<Rightarrow> phase"
  w_clock :: int
  w_events :: "event list"

definition holds_lease :: "phase \<Rightarrow> bool" where
  "holds_lease p = (case p of Idle \<Rightarrow> False | Wants _ \<Rightarrow> False | Holding _ \<Rightarrow> True | Running _ _ _ \<Rightarrow> True)"

abbreviation set_phase :: "nat \<Rightarrow> phase \<Rightarrow> world \<Rightarrow> world" where
  "set_phase c p w \<equiv> w\<lparr>w_phase := (w_phase w)(c := p)\<rparr>"

definition pass_event :: "int \<Rightarrow> int \<Rightarrow> pass \<Rightarrow> event" where
  "pass_event now later p =
     (case p of
        Passed \<Rightarrow> Succeeded later
      | Threw msg permanent \<Rightarrow>
          if \<not> permanent then Failed_at now else if msg \<noteq> [] then Paused_for_good else Lost_pause now)"

text \<open>The clock of the model ends early enough for every due time to have a four-digit year.\<close>

definition clock_ok :: "sync_options \<Rightarrow> int \<Rightarrow> bool" where
  "clock_ok opts t \<longleftrightarrow> 0 \<le> t \<and> t + max (opt_intervalMs opts) (opt_maxBackoffMs opts) < 253402300800000"

inductive step :: "sync_options \<Rightarrow> world \<Rightarrow> world \<Rightarrow> bool" for opts where
  advance: "w_clock w \<le> t \<Longrightarrow> clock_ok opts t \<Longrightarrow> step opts w (w\<lparr>w_clock := t\<rparr>)"
| check: "w_phase w c = Idle \<Longrightarrow> status opts (w_cell w) = Inr s \<Longrightarrow> \<not> is_paused s \<Longrightarrow>
    is_due (w_clock w) s \<Longrightarrow> step opts w (set_phase c (Wants Scheduled) w)"
| ask: "w_phase w c = Idle \<Longrightarrow> k \<noteq> Scheduled \<Longrightarrow> step opts w (set_phase c (Wants k) w)"
| acquire: "w_phase w c = Wants k \<Longrightarrow> (\<forall>d. \<not> holds_lease (w_phase w d)) \<Longrightarrow>
    step opts w (set_phase c (Holding k) w)"
| busy: "w_phase w c = Wants Scheduled \<Longrightarrow> holds_lease (w_phase w d) \<Longrightarrow>
    step opts w (set_phase c Idle w)"
| skip: "w_phase w c = Holding k \<Longrightarrow> k \<noteq> Resume \<Longrightarrow> status opts (w_cell w) = Inr s \<Longrightarrow>
    is_paused s \<or> (k = Scheduled \<and> \<not> is_due (w_clock w) s) \<Longrightarrow> step opts w (set_phase c Idle w)"
| start: "w_phase w c = Holding k \<Longrightarrow> k \<noteq> Resume \<Longrightarrow> status opts (w_cell w) = Inr s \<Longrightarrow>
    \<not> is_paused s \<Longrightarrow> k = Forced \<or> is_due (w_clock w) s \<Longrightarrow> w_clock w \<le> t \<Longrightarrow> clock_ok opts t \<Longrightarrow>
    step opts w ((set_phase c (Running k s t) w)\<lparr>w_clock := t, w_events := Started k t # w_events w\<rparr>)"
| finish: "w_phase w c = Running k s t \<Longrightarrow> w_clock w \<le> later \<Longrightarrow> clock_ok opts later \<Longrightarrow>
    step opts w ((set_phase c Idle w)\<lparr>w_cell := Stored (after_pass opts s t (w_clock w) later p),
      w_clock := later, w_events := pass_event (w_clock w) later p # w_events w\<rparr>)"
| resume: "w_phase w c = Holding Resume \<Longrightarrow> status opts (w_cell w) = Inr s \<Longrightarrow>
    step opts w ((set_phase c Idle w)\<lparr>w_cell := Stored (resumed s), w_events := Resumed # w_events w\<rparr>)"
| corrupt: "w_phase w c = Holding k \<Longrightarrow> status opts (w_cell w) = Inl e \<Longrightarrow>
    step opts w (set_phase c Idle w)"
| die: "step opts w (set_phase c Idle w)"

inductive reachable :: "sync_options \<Rightarrow> world \<Rightarrow> bool" for opts where
  start: "clock_ok opts t \<Longrightarrow>
    reachable opts \<lparr>w_cell = Absent, w_phase = (\<lambda>_. Idle), w_clock = t, w_events = []\<rparr>"
| step: "reachable opts w \<Longrightarrow> step opts w w' \<Longrightarrow> reachable opts w'"

section \<open>Lemmas\<close>

inductive_cases stepE: "step opts w w'"

lemma status_simps [simp]:
  "status opts Absent = Inr fresh_state" "status opts (Stored s) = Inr s"
  "status opts Corrupt = Inl (''Corrupt background sync state: '' @ opt_name opts)"
  by (simp_all add: status_def)

lemma holds_lease_simps [simp]:
  "\<not> holds_lease Idle" "\<not> holds_lease (Wants k)" "holds_lease (Holding k)" "holds_lease (Running k s t)"
  by (simp_all add: holds_lease_def)

definition exclusive :: "world \<Rightarrow> bool" where
  "exclusive w \<longleftrightarrow> (\<forall>c d. holds_lease (w_phase w c) \<longrightarrow> holds_lease (w_phase w d) \<longrightarrow> c = d)"

lemma exclusive_step: "step opts w w' \<Longrightarrow> exclusive w \<Longrightarrow> exclusive w'"
  by (erule step.cases) (auto simp: exclusive_def split: if_splits)

text \<open>Nobody writes the cell while a pass runs: the pass ends on the state it began with.\<close>

definition undisturbed :: "sync_options \<Rightarrow> world \<Rightarrow> bool" where
  "undisturbed opts w \<longleftrightarrow> (\<forall>c k s t. w_phase w c = Running k s t \<longrightarrow> status opts (w_cell w) = Inr s)"

lemma undisturbed_step:
  assumes "step opts w w'" "exclusive w" "undisturbed opts w"
  shows "undisturbed opts w'"
  using assms(1)
proof cases
  case (finish c k s t later p)
  then have "\<not> holds_lease (w_phase w d)" if "d \<noteq> c" for d
    using assms(2) that by (auto simp: exclusive_def)
  then have "w_phase w d \<noteq> Running k' s' t'" if "d \<noteq> c" for d k' s' t'
    using that by (metis holds_lease_simps(4))
  with finish show ?thesis by (auto simp: undisturbed_def)
next
  case (resume c s)
  then have "\<not> holds_lease (w_phase w d)" if "d \<noteq> c" for d
    using assms(2) that by (auto simp: exclusive_def)
  then have "w_phase w d \<noteq> Running k' s' t'" if "d \<noteq> c" for d k' s' t'
    using that by (metis holds_lease_simps(4))
  with resume show ?thesis by (auto simp: undisturbed_def)
qed (use assms(3) in \<open>auto simp: undisturbed_def\<close>)

text \<open>What ended last, and how many passes in a row failed without a pause.\<close>

fun last_outcome :: "event list \<Rightarrow> event option" where
  "last_outcome [] = None"
| "last_outcome (Started k t # es) = last_outcome es"
| "last_outcome (e # es) = Some e"

fun failures_in_a_row :: "event list \<Rightarrow> nat" where
  "failures_in_a_row [] = 0"
| "failures_in_a_row (e # es) =
     (case e of
        Started k t \<Rightarrow> failures_in_a_row es
      | Succeeded t \<Rightarrow> 0
      | Resumed \<Rightarrow> 0
      | _ \<Rightarrow> failures_in_a_row es + 1)"

definition cell_matches :: "sync_options \<Rightarrow> event list \<Rightarrow> cell \<Rightarrow> bool" where
  "cell_matches opts es c \<longleftrightarrow>
     (\<exists>s. status opts c = Inr s \<and> s_failures s = failures_in_a_row es
       \<and> (case last_outcome es of
            None \<Rightarrow> True
          | Some (Succeeded t) \<Rightarrow> clock_ok opts t \<and> s_nextDueAt s = Some (iso_string (t + opt_intervalMs opts))
          | Some (Failed_at t) \<Rightarrow> clock_ok opts t \<and>
              s_nextDueAt s = Some (iso_string (t + backoff opts (failures_in_a_row es)))
          | Some Paused_for_good \<Rightarrow> is_paused s
          | _ \<Rightarrow> True))"

lemma cell_matches_start: "cell_matches opts (Started k t # es) c \<longleftrightarrow> cell_matches opts es c"
proof -
  have row: "failures_in_a_row (Started k t # es) = failures_in_a_row es" by simp
  show ?thesis unfolding cell_matches_def row by simp
qed

lemma cell_matches_pass:
  assumes "cell_matches opts es c" "status opts c = Inr s" "clock_ok opts now" "clock_ok opts later"
  shows "cell_matches opts (pass_event now later p # es) (Stored (after_pass opts s started now later p))"
  using assms
  by (auto simp: cell_matches_def pass_event_def after_pass_def after_success_def after_failure_def
      Let_def is_paused_def split: pass.splits)

lemma cell_matches_resume: "cell_matches opts (Resumed # es) (Stored (resumed s))"
  by (simp add: cell_matches_def resumed_def)

lemma clock_ok_step: "step opts w w' \<Longrightarrow> clock_ok opts (w_clock w) \<Longrightarrow> clock_ok opts (w_clock w')"
  by (erule step.cases) auto

lemma cell_matches_step:
  assumes "step opts w w'" "undisturbed opts w" "clock_ok opts (w_clock w)"
    "cell_matches opts (w_events w) (w_cell w)"
  shows "cell_matches opts (w_events w') (w_cell w')"
  using assms(1)
proof cases
  case (finish c k s t later p)
  then have "status opts (w_cell w) = Inr s" using assms(2) by (auto simp: undisturbed_def)
  from cell_matches_pass [OF assms(4) this assms(3) finish(4)] finish(1) show ?thesis by simp
qed (use assms(4) in \<open>auto simp: cell_matches_start cell_matches_resume\<close>)

text \<open>
  When passes may start, after what ended last: a scheduled one not before it is due, none
  while the schedule is paused.
\<close>

fun spaced :: "sync_options \<Rightarrow> event list \<Rightarrow> bool" where
  "spaced opts [] = True"
| "spaced opts (e # es) =
     (spaced opts es \<and>
      (case e of
         Started k t \<Rightarrow>
           (case last_outcome es of
              Some (Succeeded t') \<Rightarrow> k = Forced \<or> t' + opt_intervalMs opts \<le> t
            | Some (Failed_at t') \<Rightarrow> k = Forced \<or> t' + backoff opts (failures_in_a_row es) \<le> t
            | Some Paused_for_good \<Rightarrow> False
            | _ \<Rightarrow> True)
       | _ \<Rightarrow> True))"

definition options_ok :: "sync_options \<Rightarrow> bool" where
  "options_ok opts \<longleftrightarrow> 0 < opt_intervalMs opts \<and> 0 \<le> opt_maxBackoffMs opts"

lemma backoff_bounds:
  "options_ok opts \<Longrightarrow> 0 \<le> backoff opts k \<and> backoff opts k \<le> opt_maxBackoffMs opts"
  by (auto simp: backoff_def options_ok_def)

lemma due_after_write:
  assumes "options_ok opts" "clock_ok opts t" "s_nextDueAt s = Some (iso_string (t + d))" "is_due now s"
    "0 \<le> d" "d \<le> max (opt_intervalMs opts) (opt_maxBackoffMs opts)"
  shows "t + d \<le> now"
proof -
  have "instant_ok (t + d)" using assms(2,5,6) unfolding instant_ok_def clock_ok_def by linarith
  with assms(3,4) show ?thesis by (simp add: is_due_def date_parse_iso_string)
qed

lemma start_allowed:
  assumes "options_ok opts" "cell_matches opts es c" "status opts c = Inr s" "\<not> is_paused s"
    "k = Forced \<or> is_due now s" "now \<le> t" "spaced opts es"
  shows "spaced opts (Started k t # es)"
proof (cases "last_outcome es")
  case None
  with assms(7) show ?thesis by simp
next
  case (Some e)
  from assms(2,3) have m: "case e of Succeeded t \<Rightarrow> clock_ok opts t \<and> s_nextDueAt s = Some (iso_string (t + opt_intervalMs opts))
    | Failed_at t \<Rightarrow> clock_ok opts t \<and> s_nextDueAt s = Some (iso_string (t + backoff opts (failures_in_a_row es)))
    | Paused_for_good \<Rightarrow> is_paused s | _ \<Rightarrow> True"
    using Some by (auto simp: cell_matches_def)
  have int: "0 \<le> opt_intervalMs opts" using assms(1) by (simp add: options_ok_def)
  show ?thesis
  proof (cases e)
    case (Succeeded t')
    with Some m assms(5-7) due_after_write [OF assms(1), of t' s "opt_intervalMs opts" now] int
    show ?thesis by auto
  next
    case (Failed_at t')
    with Some m assms(5-7) backoff_bounds [OF assms(1), of "failures_in_a_row es"]
      due_after_write [OF assms(1), of t' s "backoff opts (failures_in_a_row es)" now]
    show ?thesis by (auto simp: le_max_iff_disj)
  qed (use Some m assms in auto)
qed

lemma spaced_step:
  assumes "step opts w w'" "options_ok opts" "cell_matches opts (w_events w) (w_cell w)"
    "spaced opts (w_events w)"
  shows "spaced opts (w_events w')"
  using assms(1)
proof cases
  case (start c k s t)
  with start_allowed [OF assms(2,3) start(4,5,6,7) assms(4)] show ?thesis by simp
next
  case (finish c k s t later p)
  with assms(4) show ?thesis by (auto simp: pass_event_def split: pass.splits)
qed (use assms(4) in auto)

lemma reachable_inv:
  "reachable opts w \<Longrightarrow> options_ok opts \<Longrightarrow>
    exclusive w \<and> undisturbed opts w \<and> clock_ok opts (w_clock w)
    \<and> cell_matches opts (w_events w) (w_cell w) \<and> spaced opts (w_events w)"
proof (induction rule: reachable.induct)
  case (start t)
  then show ?case by (simp add: exclusive_def undisturbed_def cell_matches_def fresh_state_def)
next
  case (step w w')
  then show ?case
    using exclusive_step undisturbed_step clock_ok_step cell_matches_step spaced_step by blast
qed

section \<open>Properties\<close>

text \<open>A run to apply the properties to: one context checks, takes the lease, starts and fails.\<close>

definition sample_options :: sync_options where
  "sample_options = \<lparr>opt_name = ''n'', opt_intervalMs = 1000, opt_maxBackoffMs = 3600000\<rparr>"

lemma sample_run:
  "\<exists>w. reachable sample_options w \<and> w_phase w 0 = Running Scheduled fresh_state 5
    \<and> w_clock w = 5 \<and> w_cell w = Absent \<and> w_events w = [Started Scheduled 5]"
proof -
  let ?w0 = "\<lparr>w_cell = Absent, w_phase = (\<lambda>_. Idle), w_clock = 0, w_events = []\<rparr>"
  have ok: "clock_ok sample_options 0" "clock_ok sample_options 5" by (simp_all add: clock_ok_def sample_options_def)
  have fresh: "\<not> is_paused fresh_state" "is_due n fresh_state" for n
    by (simp_all add: fresh_state_def is_paused_def is_due_def)
  have "reachable sample_options ?w0" by (rule reachable.start [OF ok(1)])
  then have "reachable sample_options (set_phase 0 (Wants Scheduled) ?w0)"
    by (rule reachable.step) (rule step.check [where s = fresh_state], simp_all add: fresh)
  then have "reachable sample_options (set_phase 0 (Holding Scheduled) (set_phase 0 (Wants Scheduled) ?w0))"
    by (rule reachable.step) (rule step.acquire, auto)
  then obtain w where w: "reachable sample_options w" "w_phase w 0 = Holding Scheduled" "w_cell w = Absent"
    "w_clock w = 0" "w_events w = []" by (rule that) simp_all
  then have "step sample_options w
      ((set_phase 0 (Running Scheduled fresh_state 5) w)\<lparr>w_clock := 5, w_events := Started Scheduled 5 # w_events w\<rparr>)"
    by (intro step.start) (simp_all add: fresh ok)
  from reachable.step [OF w(1) this] w show ?thesis by (intro exI conjI) (assumption, simp_all)
qed

text \<open>
  C18. Passes never overlap, and none works on an outdated state. Of all the contexts that
  share a store and a lease, also when some die in the middle, at most one holds the lease;
  and while a pass runs, the persisted state is the one it read when it began, so that no
  result is lost when it writes its own.
\<close>
theorem sync_exclusive:
  assumes "reachable opts w" "options_ok opts"
  shows "exclusive w \<and> undisturbed opts w"
  using reachable_inv [OF assms] by blast

theorem sync_exclusive_witness:
  "\<exists>w. reachable sample_options w \<and> w_phase w 0 = Running Scheduled fresh_state 5
    \<and> exclusive w \<and> undisturbed sample_options w"
  using sample_run sync_exclusive [of sample_options] by (auto simp: options_ok_def sample_options_def)

text \<open>
  C19. Scheduled passes keep their distance. In every run, a scheduled pass starts no earlier
  than the interval after the last success, or the backoff after the last failure (the
  interval doubled for every further failure in a row, up to its cap); and after a failure
  that needs a person and has a message no pass at all starts, not even a forced one, before
  \<open>resume\<close>. Of a failure that needs a person and has an empty message nothing is said: the code
  takes the schedule for not paused then (\<open>empty_message_loses_pause\<close>, below).
\<close>
theorem sync_spaced:
  assumes "reachable opts w" "options_ok opts"
  shows "spaced opts (w_events w)"
  using reachable_inv [OF assms] by blast

theorem sync_spaced_witness:
  "\<exists>w. reachable sample_options w \<and> w_events w = [Failed_at 5, Started Scheduled 5]
    \<and> spaced sample_options (w_events w)"
proof -
  obtain w where w: "reachable sample_options w" "w_phase w 0 = Running Scheduled fresh_state 5"
    "w_clock w = 5" "w_events w = [Started Scheduled 5]" using sample_run by blast
  have "clock_ok sample_options 5" by (simp add: clock_ok_def sample_options_def)
  with w(1,3) have "reachable sample_options ((set_phase 0 Idle w)\<lparr>w_cell := Stored (after_pass sample_options
      fresh_state 5 (w_clock w) 5 (Threw ''x'' False)), w_clock := 5,
      w_events := pass_event (w_clock w) 5 (Threw ''x'' False) # w_events w\<rparr>)"
    by (intro reachable.step [OF w(1) step.finish [OF w(2)]]) simp_all
  from this sync_spaced [OF this] w(3,4) show ?thesis
    by (intro exI conjI) (assumption, simp_all add: pass_event_def options_ok_def sample_options_def)
qed

text \<open>
  What is persisted after a failure. As long as the last pass failed for a while, the
  stored state counts the failures in a row and is due again exactly the backoff after the
  failure: the interval times two to the number of further failures, and never more than the
  cap.
\<close>
lemma sync_backoff:
  assumes "reachable opts w" "options_ok opts" "last_outcome (w_events w) = Some (Failed_at t)"
  shows "\<exists>s. status opts (w_cell w) = Inr s \<and> s_failures s = failures_in_a_row (w_events w)
    \<and> (\<exists>d. s_nextDueAt s = Some d \<and> date_parse d =
          Some (t + min (opt_intervalMs opts * 2 ^ (s_failures s - 1)) (opt_maxBackoffMs opts)))"
proof -
  have m: "cell_matches opts (w_events w) (w_cell w)" using reachable_inv [OF assms(1,2)] by blast
  then obtain s where s: "status opts (w_cell w) = Inr s" "s_failures s = failures_in_a_row (w_events w)"
    "clock_ok opts t" "s_nextDueAt s = Some (iso_string (t + backoff opts (failures_in_a_row (w_events w))))"
    using assms(3) by (auto simp: cell_matches_def)
  have "instant_ok (t + backoff opts (failures_in_a_row (w_events w)))"
    using s(3) backoff_bounds [OF assms(2), of "failures_in_a_row (w_events w)"]
    unfolding instant_ok_def clock_ok_def by linarith
  with s show ?thesis by (simp add: date_parse_iso_string backoff_def)
qed

text \<open>
  A pause that is lost. A failure that needs a person pauses the schedule only if its
  message is not empty: after one with an empty message the attempt reports a pause, but the
  stored state is due at once, and the next tick runs the pass again.
\<close>
lemma empty_message_loses_pause:
  "\<exists>s r c. attempt opts False t t t t (Threw [] True) Absent = Inr (result_of Paused s (Some []), Stored s)
    \<and> tick opts True t t t t Passed (Stored s) = Inr (r, c) \<and> r_outcome r = Ran"
  by (simp add: attempt_def tick_def after_pass_def after_failure_def is_paused_def is_due_def
      fresh_state_def result_of_def Let_def)

end
