(* ===== verification/Dv_Table.thy ===== *)
theory Dv_Table
  imports Dv_Storage
begin

text \<open>
  \<open>devonian/src/DevonianTable.ts\<close> and \<open>DevonianLens.ts\<close>: a table keeps the rows of one platform,
  minting a record on the platform (\<open>client.add\<close>) for a row that has no identifier there; a lens
  forwards what one table's client adds to the other table.

  The model runs the table's operations one at a time (\<open>Dv_Storage\<close> has the interleavings of the
  storage below): \<open>minting\<close> then holds the promises of those adds after which \<open>ensureRow\<close> threw,
  which the code never deletes. The client is a function on a state of its own.
\<close>

section \<open>The table\<close>

record 'w table =
  tb_platform :: string
  tb_idFieldName :: string
  tb_replicaId :: string
  tb_add :: "row \<Rightarrow> 'w \<Rightarrow> (string + row) \<times> 'w"

record 'w table_state =
  ts_rows :: rows
  ts_minting :: "(position \<times> (string + row)) list"
  ts_client :: 'w

definition native_platform :: "'w table \<Rightarrow> string" where
  "native_platform t = ''devonian-'' @ tb_replicaId t"

definition set_foreign :: "string \<Rightarrow> json \<Rightarrow> row \<Rightarrow> string + row" where
  "set_foreign platform v obj =
     bindE (put_property (oget obj ''foreignIds'') platform v) (\<lambda>ids. Inr (oset ''foreignIds'' ids obj))"

abbreviation foreign_id :: "string \<Rightarrow> row \<Rightarrow> string + json option" where
  "foreign_id platform obj \<equiv> property (oget obj ''foreignIds'') platform"

text \<open>\<open>delete v[k]\<close>, in strict mode. An element deleted from an array leaves a hole.\<close>

definition delete_property :: "json option \<Rightarrow> string \<Rightarrow> string + json" where
  "delete_property v k =
     (case v of
        None \<Rightarrow> Inl ''TypeError''
      | Some JNull \<Rightarrow> Inl ''TypeError''
      | Some (JObj m) \<Rightarrow> Inr (JObj (odel k m))
      | Some (JArr xs) \<Rightarrow>
          if k = ''length'' then Inl ''TypeError''
          else Inr (case array_index k of Some i \<Rightarrow> JArr (xs[i := JNull]) | None \<Rightarrow> JArr xs)
      | Some (JStr s) \<Rightarrow>
          if k = ''length'' \<or> (case array_index k of Some i \<Rightarrow> i < length s | None \<Rightarrow> False) then Inl ''TypeError''
          else Inr (JStr s)
      | Some v \<Rightarrow> Inr v)"

definition without_native :: "'w table \<Rightarrow> row \<Rightarrow> string + row" where
  "without_native t obj =
     bindE (delete_property (oget obj ''foreignIds'') (native_platform t)) (\<lambda>ids.
       let c = oset ''foreignIds'' ids obj in
       (case oget c (tb_idFieldName t) of
          None \<Rightarrow> Inr c
        | Some v \<Rightarrow> bindE (set_foreign (tb_platform t) v c) (\<lambda>c. Inr (odel (tb_idFieldName t) c))))"

definition ensureOnStorage :: "'w table \<Rightarrow> row \<Rightarrow> string list \<Rightarrow> rows \<Rightarrow> string + (rows \<times> position \<times> bool)" where
  "ensureOnStorage t obj fs rs = bindE (without_native t obj) (\<lambda>c. doUpsert (native_platform t) c fs rs)"

definition position_json :: "position \<Rightarrow> json" where
  "position_json p = (case p of Some n \<Rightarrow> JNum n | None \<Rightarrow> JNull)"

text \<open>The branch that asks the client for a new record, and what it leaves when the client fails.\<close>

definition mint :: "'w table \<Rightarrow> row \<Rightarrow> position \<Rightarrow> 'w table_state \<Rightarrow> (string + position) \<times> 'w table_state" where
  "mint t obj p st =
     (case set_foreign (native_platform t) (position_json p) obj of
        Inl e \<Rightarrow> (Inl e, st)
      | Inr obj \<Rightarrow>
          (case oget (ts_minting st) p of
             Some (Inl e) \<Rightarrow> (Inl e, st)
           | Some (Inr _) \<Rightarrow> (Inr p, st)
           | None \<Rightarrow>
               if foreign_id (tb_platform t) obj \<noteq> Inr None then (Inr p, st)
               else (case tb_add t obj (ts_client st) of
                  (Inl e, w) \<Rightarrow> (Inl e, st\<lparr>ts_client := w, ts_minting := oset p (Inl e) (ts_minting st)\<rparr>)
                | (Inr added, w) \<Rightarrow>
                    let st = st\<lparr>ts_client := w\<rparr>;
                        kept = st\<lparr>ts_minting := oset p (Inr added) (ts_minting st)\<rparr> in
                    if oget added (tb_idFieldName t) = None
                    then (Inl ''client did not assign a value to the platform id field'', kept)
                    else (case ensureOnStorage t added [''foreignIds''] (ts_rows st) of
                            Inl e \<Rightarrow> (Inl e, kept)
                          | Inr (rs, _, _) \<Rightarrow> (Inr p, st\<lparr>ts_rows := rs\<rparr>)))))"

definition ensureRow :: "'w table \<Rightarrow> row \<Rightarrow> 'w table_state \<Rightarrow> (string + position) \<times> 'w table_state" where
  "ensureRow t obj st =
     (case ensureOnStorage t obj [''foreignIds''] (ts_rows st) of
        Inl e \<Rightarrow> (Inl e, st)
      | Inr (rs, p, minted) \<Rightarrow>
          let st = st\<lparr>ts_rows := rs\<rparr> in
          if minted \<and> foreign_id (tb_platform t) obj = Inr None
          then mint t obj p st
          else (Inr p, st))"

definition locate :: "'w table \<Rightarrow> row \<Rightarrow> bool \<Rightarrow> 'w table_state \<Rightarrow> (string + position option) \<times> 'w table_state" where
  "locate t wh addIfMissing st =
     (if addIfMissing
      then (case ensureRow t wh st of (Inl e, st) \<Rightarrow> (Inl e, st) | (Inr p, st) \<Rightarrow> (Inr (Some p), st))
      else (findObject (native_platform t) wh (ts_rows st), st))"

definition getPlatformId :: "'w table \<Rightarrow> row \<Rightarrow> bool \<Rightarrow> 'w table_state \<Rightarrow> (string + json option) \<times> 'w table_state" where
  "getPlatformId t wh addIfMissing st =
     (case locate t wh addIfMissing st of
        (Inl e, st) \<Rightarrow> (Inl e, st)
      | (Inr None, st) \<Rightarrow> (Inr None, st)
      | (Inr (Some p), st) \<Rightarrow>
          (case oget (ts_minting st) p of
             Some (Inl e) \<Rightarrow> (Inl e, st)
           | Some (Inr _) \<Rightarrow> (Inr (Some (position_json p)), st)
           | None \<Rightarrow>
               (case getRow p (ts_rows st) of
                  Inl e \<Rightarrow> (Inl e, st)
                | Inr obj \<Rightarrow>
                    (case set_foreign (tb_platform t) (position_json p) obj of
                       Inl e \<Rightarrow> (Inl e, st)
                     | Inr obj \<Rightarrow> (foreign_id (tb_platform t) obj, st)))))"

section \<open>The lens\<close>

text \<open>
  What \<open>add-from-client\<close> of the left table does: the table stores the object, and then the lens
  ensures the translated object on the right table. The promise of the right table's \<open>ensureRow\<close> is
  not awaited, so its error is nobody's.
\<close>

definition addFromClient :: "'w table \<Rightarrow> row \<Rightarrow> 'w table_state \<Rightarrow> (string + unit) \<times> 'w table_state" where
  "addFromClient t obj st =
     (case ensureOnStorage t obj [''foreignIds''] (ts_rows st) of
        Inl e \<Rightarrow> (Inl e, st)
      | Inr (rs, _, _) \<Rightarrow> (Inr (), st\<lparr>ts_rows := rs\<rparr>))"

definition forward ::
  "'w table \<Rightarrow> 'v table \<Rightarrow> (row \<Rightarrow> string + row) \<Rightarrow> row \<Rightarrow> 'w table_state \<times> 'v table_state
    \<Rightarrow> 'w table_state \<times> 'v table_state"
where
  "forward left right leftToRight obj sts =
     (case addFromClient left obj (fst sts) of
        (Inl _, l) \<Rightarrow> (l, snd sts)
      | (Inr _, l) \<Rightarrow>
          (case leftToRight obj of
             Inl _ \<Rightarrow> (l, snd sts)
           | Inr translated \<Rightarrow> (l, snd (ensureRow right translated (snd sts)))))"

section \<open>One record per row\<close>

lemma odel_oset_oset: "k \<notin> set (okeys m) \<Longrightarrow> k \<noteq> f \<Longrightarrow> odel k (oset f x (oset k v m)) = oset f x m"
  by (induction m) (auto simp: odel_oset_new map_of_eq_None_iff)

lemma odel_absent: "k \<notin> set (okeys m) \<Longrightarrow> odel k m = m"
  by (induction m) auto

lemma odel_oset_swap: "k \<noteq> f \<Longrightarrow> odel k (oset f x m) = oset f x (odel k m)"
  by (induction m) auto

lemma values_of_oset: "values_of (oset ''foreignIds'' x obj) = values_of obj"
  unfolding values_of_def by (induction obj) auto

lemma merge_present: "(\<And>k v. (k, v) \<in> set a \<Longrightarrow> oget m k = Some v) \<Longrightarrow> foldl (\<lambda>n (k, v). oset k v n) m a = m"
  by (induction a) (auto simp: oset_same)

lemma foreignIds_oset: "foreignIds (oset ''foreignIds'' (JObj m) obj) = Some m"
  by (simp add: foreignIds_Some)

lemma foreign_simps:
  assumes "foreignIds obj = Some m"
  shows "set_foreign platform v obj = Inr (oset ''foreignIds'' (JObj (oset platform v m)) obj)"
    "foreign_id platform obj = Inr (oget m platform)"
    "delete_property (oget obj ''foreignIds'') platform = Inr (JObj (odel platform m))"
  using assms unfolding foreignIds_Some
  by (simp_all add: set_foreign_def put_property_def property_def delete_property_def)

text \<open>
  The object a client gives back when it stored what it was given and assigned the id \<open>v\<close>, and
  what the storage is then asked to keep: the object with the platform's identifier added.
\<close>

lemma without_native_plain:
  assumes "findable (native_platform t) obj m" "oget obj (tb_idFieldName t) = None"
  shows "without_native t obj = Inr obj"
proof -
  from assms(1) have m: "foreignIds obj = Some m" "native_platform t \<notin> set (okeys m)" by (simp_all add: findable_def)
  moreover have "oset ''foreignIds'' (JObj m) obj = obj" using m(1) by (simp add: foreignIds_Some oset_same)
  moreover have "tb_idFieldName t \<noteq> ''foreignIds''" using assms(2) m(1) by (auto simp: foreignIds_Some)
  ultimately show ?thesis
    using foreign_simps(3) [OF m(1)] m assms(2) by (simp add: without_native_def odel_absent)
qed

lemma without_native_added:
  assumes "foreignIds obj = Some m" "native_platform t \<notin> set (okeys m)" "tb_idFieldName t \<notin> set (okeys obj)"
    and "tb_idFieldName t \<noteq> ''foreignIds''"
  shows "without_native t (oset (tb_idFieldName t) v (oset ''foreignIds'' (JObj (oset (native_platform t) n m)) obj))
    = Inr (oset ''foreignIds'' (JObj (oset (tb_platform t) v m)) obj)"
proof -
  let ?i = "tb_idFieldName t"
  let ?a = "oset ?i v (oset ''foreignIds'' (JObj (oset (native_platform t) n m)) obj)"
  have f: "foreignIds ?a = Some (oset (native_platform t) n m)" using assms(4) by (simp add: foreignIds_Some)
  have d: "odel (native_platform t) (oset (native_platform t) n m) = m"
    using assms(2) by (simp add: odel_oset_new map_of_eq_None_iff)
  have i: "?i \<notin> set (okeys (oset ''foreignIds'' x obj))" for x
    using assms(3,4) by (simp only: set_okeys_oset insert_iff) simp
  have "odel ?i (oset ''foreignIds'' y (oset ''foreignIds'' x ?a)) = oset ''foreignIds'' y obj" for x y
    using odel_oset_oset [OF i assms(4)] by (simp add: oset_oset)
  with foreign_simps(3) [OF f] d assms(4) show ?thesis
    by (simp add: without_native_def Let_def foreign_simps(1) [OF foreignIds_oset])
qed

text \<open>
  Ensuring a row for a new object that has no identifier on the table's platform mints it
  exactly once: if the client stores what it is given and assigns an identifier that no row
  has, then \<open>ensureRow\<close> adds one row at the end, with the object's values, its identifiers and
  the one the client assigned, calls the client once, and ensuring the object again gives the
  same position without calling the client and changes nothing.
\<close>
lemma table_mints_once:
  fixes t :: "'w table"
  assumes "findable (native_platform t) obj m" "rows_ok (ts_rows st)" "findObject (native_platform t) obj (ts_rows st) = Inr None"
    and "tb_idFieldName t \<notin> set (okeys obj)" "tb_idFieldName t \<noteq> ''foreignIds''"
    and "tb_platform t \<notin> set (okeys m)" "tb_platform t \<noteq> native_platform t"
    and "n = length (elements (ts_rows st))" "oget (ts_minting st) (Some (int n)) = None"
    and "tb_add t (oset ''foreignIds'' (JObj (oset (native_platform t) (JNum (int n)) m)) obj) (ts_client st)
      = (Inr (oset (tb_idFieldName t) v (oset ''foreignIds'' (JObj (oset (native_platform t) (JNum (int n)) m)) obj)), w)"
    and "primitive v" "list_all (\<lambda>x. \<not> has_id (tb_platform t) v x) (elements (ts_rows st))"
  shows "\<exists>st'. ensureRow t obj st = (Inr (Some (int n)), st') \<and> ts_client st' = w
    \<and> row_at (ts_rows st') (Some (int n)) = Some (oset ''foreignIds'' (JObj (oset (tb_platform t) v m)) obj)
    \<and> (\<forall>q. q \<noteq> Some (int n) \<longrightarrow> row_at (ts_rows st') q = row_at (ts_rows st) q)
    \<and> ensureRow t obj st' = (Inr (Some (int n)), st')"
proof -
  let ?sid = "native_platform t" and ?rs = "ts_rows st" and ?p = "Some (int n)"
  define m2 where "m2 = oset (tb_platform t) v m"
  define c2 where "c2 = oset ''foreignIds'' (JObj m2) obj"
  define rs1 where "rs1 = setRow ?p obj ?rs"
  define rs2 where "rs2 = setRow ?p c2 rs1"
  from assms(1) have f: "foreignIds obj = Some m" "owf m" "owf obj" "?sid \<notin> set (okeys m)"
    "list_all (primitive \<circ> snd) m" by (simp_all add: findable_def)
  have m2: "m2 = m @ [(tb_platform t, v)]" using assms(6) by (simp add: m2_def oset_snoc)
  have none: "row_at ?rs ?p = None" by (simp add: row_at_def assms(8))
  let ?xs = "elements ?rs"
  \<comment> \<open>the first upsert\<close>
  have up1: "doUpsert ?sid obj [''foreignIds''] ?rs = Inr (rs1, ?p, True)"
    using none by (simp add: doUpsert_def assms(3,8) commit_def rs1_def Let_def)
  have found0: "row_index obj m ?xs = None" using assms(3) findObject_ok [OF assms(2) f(1,4)] by simp
  have x1: "elements rs1 = put_at n obj ?xs" by (simp add: rs1_def setRow_index)
  have ok1: "rows_ok rs1" unfolding rs1_def by (rule rows_ok_setRow [OF assms(2) _ f(1,2)]) (simp add: assms(8))
  have "findObject ?sid obj rs1 = Inr (Some ?p)"
    using find_upserted [OF assms(1,2), of n] assms(3,8) none by (simp add: upserted_def rs1_def)
  then have found1: "row_index obj m (elements rs1) = Some n" by (simp add: findObject_ok [OF ok1 f(1,4)])
  \<comment> \<open>the upsert of what the client gave back\<close>
  have f2: "foreignIds c2 = Some m2" "?sid \<notin> set (okeys m2)" using f(4) assms(7) by (auto simp: c2_def foreignIds_oset m2)
  have vals: "values_of c2 = values_of obj" by (simp add: c2_def values_of_oset)
  have "first_index (has_id (tb_platform t) v) ?xs = None" using assms(12) by (simp add: first_index_None list_all_iff)
  then have "row_index c2 m2 ?xs = None"
    using found0 by (simp add: row_index_def vals m2 ids_index_append split: option.split_asm)
  then have "row_index c2 m2 (put_at n obj ?xs) = Some n"
  proof (intro row_index_again)
    show "(\<exists>(k, x) \<in> set m2. has_id k x (Some obj)) \<or> rowMatches (values_of c2) (Some obj)"
    proof (cases m)
      case Nil
      with assms(1) have "list_all (primitive \<circ> snd) (values_of obj)" by (simp add: findable_def)
      with f(3) show ?thesis by (simp add: vals rowMatches_self)
    next
      case (Cons kx m')
      then have "has_id (fst kx) (snd kx) (Some obj)" using f by (auto simp: has_id_def same_value_iff)
      then show ?thesis by (auto simp: m2 Cons case_prod_unfold)
    qed
  qed (auto simp: assms(8))
  then have found2: "findObject ?sid c2 rs1 = Inr (Some ?p)" using findObject_ok [OF ok1 f2] by (simp add: x1)
  have up: "upserted c2 m2 (Some obj) = c2"
  proof -
    have "merged_ids m2 m = m2"
      unfolding merged_ids_def using f(2) assms(6) m2 by (intro merge_present) (auto simp: map_add_def split: option.split)
    with f(1) show ?thesis by (simp add: upserted_def) (simp add: c2_def oset_oset)
  qed
  have up2: "doUpsert ?sid c2 [''foreignIds''] rs1 = Inr (rs2, ?p, False)"
    using found2 merge_upserted [OF f(1) f2(1)] up
    by (simp add: doUpsert_def commit_def rs2_def Let_def) (simp add: rs1_def row_at_setRow)
  \<comment> \<open>the object again\<close>
  have look2: "oget m2 k = Some x" if "(k, x) \<in> set m" for k x
    using that f(2) assms(6) m2 by (auto simp: map_add_def split: option.split)
  have at1: "n < length (elements rs1)" "elements rs1 ! n = Some obj" using assms(8) by (auto simp: x1 put_at_def)
  have ok2: "rows_ok rs2" unfolding rs2_def
    by (rule rows_ok_setRow [OF ok1 _ f2(1)]) (use at1 f(2) in \<open>simp_all add: m2_def\<close>)
  have "row_index obj m (put_at n c2 (elements rs1)) = Some n"
  proof (rule row_index_again)
    fix k x assume kx: "(k, x) \<in> set m" "has_id k x (elements rs1 ! n)"
    with look2 [OF kx(1)] f(5) show "has_id k x (Some c2)"
      by (auto simp: has_id_def same_value_iff f2(1) list_all_iff)
  next
    assume "rowMatches (values_of obj) (elements rs1 ! n)"
    moreover have "f \<noteq> ''foreignIds''" if "(f, x) \<in> set (values_of obj)" for f x
      using that by (auto simp: values_of_def AList.delete_eq)
    ultimately show "rowMatches (values_of obj) (Some c2)"
      unfolding at1(2) by (auto simp: rowMatches_def list_all_iff c2_def)
  qed (use found1 at1 in auto)
  then have found3: "findObject ?sid obj rs2 = Inr (Some ?p)"
    using findObject_ok [OF ok2 f(1,4)] by (simp add: rs2_def setRow_index)
  have at2: "row_at rs2 ?p = Some c2" by (simp add: rs2_def row_at_setRow)
  have "merged_ids m m2 = m2" using f(2) assms(6) by (simp add: merged_ids_def m2 merge_same_keys [of m m "[]", simplified] oset_snoc)
  then have "upserted obj m (Some c2) = c2" by (simp add: upserted_def f2(1)) (simp add: c2_def)
  then have up3: "doUpsert ?sid obj [''foreignIds''] rs2 = Inr (rs2, ?p, False)"
    using found3 merge_upserted [OF f2(1) f(1)] at2
    by (simp add: doUpsert_def commit_def Let_def) (simp add: rs2_def setRow_def)
  \<comment> \<open>together\<close>
  have id: "oget obj (tb_idFieldName t) = None" using assms(4) by (simp add: map_of_eq_None_iff)
  have wn: "without_native t obj = Inr obj" by (rule without_native_plain [OF assms(1) id])
  have wa: "without_native t (oset (tb_idFieldName t) v (oset ''foreignIds'' (JObj (oset ?sid (JNum (int n)) m)) obj)) = Inr c2"
    unfolding c2_def m2_def by (rule without_native_added [OF f(1,4) assms(4,5)])
  let ?st = "st\<lparr>ts_rows := rs2, ts_client := w\<rparr>"
  have noid: "foreign_id (tb_platform t) obj = Inr None"
    "foreign_id (tb_platform t) (oset ''foreignIds'' (JObj (oset ?sid (JNum (int n)) m)) obj) = Inr None"
    using foreign_simps(2) [OF f(1)] foreign_simps(2) [OF foreignIds_oset] assms(6,7) by (simp_all add: map_of_eq_None_iff)
  have "ensureRow t obj st = (Inr ?p, ?st)"
    using up1 up2 noid f(1) assms(9,10)
    by (simp add: ensureRow_def ensureOnStorage_def wn wa mint_def foreign_simps(1) [OF f(1)] position_json_def)
  moreover have "ensureRow t obj ?st = (Inr ?p, ?st)"
    using up3 by (simp add: ensureRow_def ensureOnStorage_def wn)
  ultimately show ?thesis
    using at2 by (intro exI [of _ ?st]) (auto simp: c2_def m2_def rs2_def rs1_def row_at_setRow)
qed

text \<open>A client that gives its records the number 7.\<close>

definition sample_table :: "nat table" where
  "sample_table =
     \<lparr>tb_platform = ''foo'', tb_idFieldName = ''id'', tb_replicaId = ''r'', tb_add = (\<lambda>obj w. (Inr (oset ''id'' (JNum 7) obj), Suc w))\<rparr>"

definition sample_table_state :: "nat table_state" where
  "sample_table_state = \<lparr>ts_rows = no_rows, ts_minting = [], ts_client = 0\<rparr>"

section \<open>What goes wrong\<close>

text \<open>
  \<open>getPlatformId\<close> never gives the identifier that the platform assigned: whatever it finds, the
  identifier it returns is the position of the row.
\<close>

lemma length_no_index: "array_index ''length'' = None"
  by code_simp

lemma put_property_read: "put_property t k v = Inr t' \<Longrightarrow> property (Some t') k = Inr (Some w) \<Longrightarrow> w = v"
  by (auto simp: put_property_def property_def with_length_def nth_list_update length_no_index
      split: option.split_asm json.split_asm if_split_asm)

lemma getPlatformId_is_position:
  assumes "getPlatformId t wh addIfMissing st = (Inr (Some i), st')"
  shows "\<exists>p. locate t wh addIfMissing st = (Inr (Some p), st') \<and> i = position_json p"
  using assms
  by (auto simp: getPlatformId_def set_foreign_def bindE_eq_Inr dest: put_property_read
      split: prod.split_asm sum.split_asm option.split_asm)

text \<open>
  A client that fails leaves its rejected promise in \<open>minting\<close> and the row in the storage: the
  object is not minted by a later \<open>ensureRow\<close> either, which finds the row and succeeds.
\<close>

definition failing_table :: "nat table" where
  "failing_table = sample_table\<lparr>tb_add := (\<lambda>_ w. (Inl ''offline'', Suc w))\<rparr>"

lemma failed_mint_not_retried:
  "\<exists>st'. ensureRow failing_table sample_row sample_table_state = (Inl ''offline'', st') \<and> ts_client st' = 1
    \<and> (\<exists>st''. ensureRow failing_table sample_row st' = (Inr (Some 0), st'') \<and> ts_client st'' = 1
        \<and> getPlatformId failing_table sample_row False st'' = (Inl ''offline'', st''))"
proof -
  have "(case ensureRow failing_table sample_row sample_table_state of (r, st') \<Rightarrow>
      r = Inl ''offline'' \<and> ts_client st' = 1 \<and> (case ensureRow failing_table sample_row st' of (r, st'') \<Rightarrow>
        r = Inr (Some 0) \<and> ts_client st'' = 1 \<and>
        fst (getPlatformId failing_table sample_row False st'') = Inl ''offline''))"
    by code_simp
  moreover have "fst (getPlatformId t wh False st) = Inl e \<Longrightarrow> getPlatformId t wh False st = (Inl e, st)" for t wh st e
    by (auto simp: getPlatformId_def locate_def split: sum.split_asm option.split_asm)
  ultimately show ?thesis by (auto split: prod.split_asm)
qed

end
