(* ===== verification/Money_Amounts.thy ===== *)
theory Money_Amounts
  imports Js_Text Js_Group
begin

text \<open>
  Exact bank amounts (\<^verbatim>\<open>src/integrations/money/errors.ts\<close>, the decimal part of
  \<^verbatim>\<open>parser.ts\<close>, \<^verbatim>\<open>app/amounts.ts\<close> and the row type of \<^verbatim>\<open>app/rows.ts\<close>).

  An amount is a signed decimal string; \<open>units\<close> reads it as a whole number of \<open>1e-5\<close>
  units, and \<open>fromUnits\<close> writes such a number. \<open>units\<close> is \<open>None\<close> where \<open>BigInt\<close> throws a
  \<open>SyntaxError\<close>, and so is every function that calls it.
\<close>

section \<open>Errors\<close>

datatype statement_error =
    BALANCE_MISMATCH string string string string nat string string string string string
  | OVERLAP_WITHOUT_REFERENCES string string "string \<times> string" string
  | REPEATED_REFERENCE string
  | CONFLICTING_REFERENCE string
  | JSON_NARRATIVE nat
  | INVALID_FIELD string "nat option"
  | FILE_TOO_LARGE nat string
  | TOO_MANY_ENTRIES nat
  | MISSING_BALANCE "string option"
  | NOT_A_STATEMENT

text \<open>What a reader throws: a \<open>StatementError\<close> with its message, or another \<open>Error\<close>.\<close>

datatype money_error = StatementError statement_error string | PlainError string

fun isStatementError :: "money_error \<Rightarrow> bool" where
  "isStatementError (StatementError _ _) = True"
| "isStatementError (PlainError _) = False"

section \<open>Reading and writing amounts\<close>

abbreviation trim_zeros :: "string \<Rightarrow> string" where
  "trim_zeros \<equiv> trim_end_of (\<lambda>c. c = CHR ''0'')"

text \<open>The test \<^verbatim>\<open>/^\d{1,15},\d{0,5}$/\<close>.\<close>

definition is_mt940_amount :: "string \<Rightarrow> bool" where
  "is_mt940_amount raw =
     (let whole = takeWhile is_digit raw; rest = dropWhile is_digit raw
      in 1 \<le> length whole \<and> length whole \<le> 15
         \<and> (case rest of [] \<Rightarrow> False
            | c # fraction \<Rightarrow> c = CHR '','' \<and> digits fraction \<and> length fraction \<le> 5))"

definition decimal :: "string \<Rightarrow> bool \<Rightarrow> money_error + string" where
  "decimal raw negative =
     (if \<not> is_mt940_amount raw then Inl (PlainError ''Invalid MT940 amount'')
      else
        let parts = split_on (CHR '','') raw;
            whole = hd parts;
            fraction = (case tl parts of [] \<Rightarrow> [] | f # _ \<Rightarrow> f);
            val = strip_zeros whole
              @ (if trim_zeros fraction \<noteq> [] then CHR ''.'' # trim_zeros fraction else [])
        in Inr (if negative \<and> val \<noteq> ''0'' then CHR ''-'' # val else val))"

definition units :: "string \<Rightarrow> int option" where
  "units val =
     (let negative = starts_with ''-'' val;
          parts = split_on (CHR ''.'') (if negative then tl val else val);
          whole = hd parts;
          fraction = (case tl parts of [] \<Rightarrow> [] | f # _ \<Rightarrow> f)
      in map_option (\<lambda>n. n * (if negative then - 1 else 1))
           (big_int (whole @ pad_end 5 (CHR ''0'') fraction)))"

definition fromUnits :: "int \<Rightarrow> string" where
  "fromUnits val =
     (let negative = val < 0;
          ds = pad_zero 6 (nat_str (nat (if negative then - val else val)));
          whole = take (length ds - 5) ds;
          fraction = trim_zeros (drop (length ds - 5) ds);
          text = (if fraction \<noteq> [] then whole @ ''.'' @ fraction else whole)
      in if negative \<and> text \<noteq> ''0'' then CHR ''-'' # text else text)"

text \<open>\<^verbatim>\<open>decimalOf\<close> of \<^verbatim>\<open>parser.ts\<close>, for error data.\<close>

definition decimalOf :: "int \<Rightarrow> string" where
  "decimalOf val =
     (let negative = val < 0;
          ds = pad_zero 6 (nat_str (nat (if negative then - val else val)));
          fraction = trim_zeros (drop (length ds - 5) ds);
          text = take (length ds - 5) ds @ (if fraction \<noteq> [] then ''.'' @ fraction else [])
      in if negative then CHR ''-'' # text else text)"

definition isOut :: "string \<Rightarrow> bool option" where
  "isOut amount = map_option (\<lambda>n. n < 0) (units amount)"

definition negate :: "string \<Rightarrow> string option" where
  "negate amount = map_option (\<lambda>n. fromUnits (- n)) (units amount)"

fun sum_units :: "int \<Rightarrow> string list \<Rightarrow> int option" where
  "sum_units acc [] = Some acc"
| "sum_units acc (a # as) = (case units a of None \<Rightarrow> None | Some n \<Rightarrow> sum_units (acc + n) as)"

definition addAmounts :: "string list \<Rightarrow> string option" where
  "addAmounts amounts = map_option fromUnits (sum_units 0 amounts)"

subsection \<open>Lemmas\<close>

lemma fromUnits_parts:
  fixes n :: nat
  defines "ds \<equiv> pad_zero 6 (nat_str n)"
  shows "take (length ds - 5) ds = nat_str (n div 100000)"
    and "drop (length ds - 5) ds = last_digits 5 n"
proof -
  have "ds = nat_str (n div 100000) @ last_digits 5 n"
    using pad_zero_nat_str [of 5 n] by (simp add: ds_def)
  moreover have "length (last_digits 5 n) = 5" by (rule length_last_digits)
  ultimately show "take (length ds - 5) ds = nat_str (n div 100000)"
    "drop (length ds - 5) ds = last_digits 5 n" by (simp_all del: last_digits.simps)
qed

text \<open>The text of a number of units without its sign.\<close>

definition unsigned_text :: "nat \<Rightarrow> string" where
  "unsigned_text n =
     nat_str (n div 100000)
       @ (if trim_zeros (last_digits 5 n) \<noteq> [] then CHR ''.'' # trim_zeros (last_digits 5 n) else [])"

lemma point_not_digit: "digits s \<Longrightarrow> CHR ''.'' \<notin> set s" "digits s \<Longrightarrow> CHR '','' \<notin> set s"
  "digits s \<Longrightarrow> CHR ''-'' \<notin> set s"
  by (auto simp: list_all_iff is_digit_def code_def)

lemma digits_trim_zeros: "digits s \<Longrightarrow> digits (trim_zeros s)"
  by (auto simp: trim_end_of_def list_all_iff dest: set_dropWhileD)

lemma big_units:
  assumes "digits w" "digits f" "length f \<le> 5"
  shows "big_int (w @ pad_end 5 (CHR ''0'') f)
    = Some (int (dec_val w * 100000 + dec_val (pad_end 5 (CHR ''0'') f)))"
proof -
  have "digits (pad_end 5 (CHR ''0'') f)" using assms(2) by (auto simp: pad_end_def list_all_iff)
  moreover have "length (pad_end 5 (CHR ''0'') f) = 5" using assms(3) by (simp add: pad_end_def)
  ultimately show ?thesis using assms(1) by (simp add: big_int_digits dec_val_append)
qed

lemma not_minus: "digits w \<Longrightarrow> w \<noteq> [] \<Longrightarrow> \<not> starts_with ''-'' (w @ t)"
  by (cases w) (auto simp: is_digit_def code_def)

lemma split_unsigned:
  assumes "digits w" "digits f"
  shows "split_on (CHR ''.'') (w @ (if f \<noteq> [] then CHR ''.'' # f else []))
    = (if f \<noteq> [] then [w, f] else [w])"
  using assms by (simp add: point_not_digit split_on_append split_on_none)

lemma units_text:
  assumes "digits w" "w \<noteq> []" "digits f" "length f \<le> 5"
  defines "t \<equiv> w @ (if f \<noteq> [] then CHR ''.'' # f else [])"
  shows "units t = Some (int (dec_val w * 100000 + dec_val (pad_end 5 (CHR ''0'') f)))"
    and "units (CHR ''-'' # t) = Some (- int (dec_val w * 100000 + dec_val (pad_end 5 (CHR ''0'') f)))"
proof -
  have split: "split_on (CHR ''.'') t = (if f \<noteq> [] then [w, f] else [w])"
    unfolding t_def using assms(1,3) by (rule split_unsigned)
  have nm: "\<not> starts_with ''-'' t" unfolding t_def using assms(1,2) by (rule not_minus)
  note big = big_units [OF assms(1,3,4)]
  show "units t = Some (int (dec_val w * 100000 + dec_val (pad_end 5 (CHR ''0'') f)))"
    using nm big by (cases "f = []") (simp_all add: units_def split Let_def)
  show "units (CHR ''-'' # t) = Some (- int (dec_val w * 100000 + dec_val (pad_end 5 (CHR ''0'') f)))"
    using big by (cases "f = []") (simp_all add: units_def split Let_def)
qed

lemma length_trim_zeros: "length (trim_zeros s) \<le> length s"
  by (simp add: trim_end_of_def length_dropWhile_le [THEN order_trans])

lemma unsigned_value: "n div 100000 * 100000 + dec_val (pad_end 5 (CHR ''0'') (trim_zeros (last_digits 5 n))) = n"
  by (simp only: pad_end_trim_end length_last_digits dec_val_last_digits) simp

lemma units_unsigned_text:
  "units (unsigned_text n) = Some (int n)"
  "units (CHR ''-'' # unsigned_text n) = Some (- int n)"
proof -
  have "digits (trim_zeros (last_digits 5 n))" "length (trim_zeros (last_digits 5 n)) \<le> 5"
    using length_trim_zeros [of "last_digits 5 n"]
    by (simp_all only: digits_trim_zeros digits_last_digits length_last_digits)
  note t = units_text [OF digits_nat_str nat_str_not_Nil this, of "n div 100000"]
  from t show "units (unsigned_text n) = Some (int n)"
    "units (CHR ''-'' # unsigned_text n) = Some (- int n)"
    by (simp_all only: unsigned_text_def dec_val_nat_str unsigned_value)
qed

lemma unsigned_text_zero: "unsigned_text n = ''0'' \<longleftrightarrow> n = 0"
proof
  assume "unsigned_text n = ''0''"
  then have "units ''0'' = Some (int n)" using units_unsigned_text(1) [of n] by simp
  moreover have "units ''0'' = Some 0" by code_simp
  ultimately show "n = 0" by simp
next
  assume "n = 0"
  then show "unsigned_text n = ''0''"
    by (simp add: unsigned_text_def nat_str_digit last_digits_zero trim_end_of_def del: last_digits.simps)
qed

lemma fromUnits_text:
  "fromUnits v = (if v < 0 then CHR ''-'' # unsigned_text (nat (- v)) else unsigned_text (nat v))"
proof -
  let ?n = "nat (if v < 0 then - v else v)"
  have "fromUnits v = (if v < 0 \<and> unsigned_text ?n \<noteq> ''0'' then CHR ''-'' # unsigned_text ?n
      else unsigned_text ?n)"
    unfolding fromUnits_def Let_def fromUnits_parts unsigned_text_def by (simp only: append_Nil2 append_Cons append_Nil split: if_split) simp
  then show ?thesis by (auto simp: unsigned_text_zero)
qed

lemma decimalOf_fromUnits: "decimalOf v = fromUnits v"
  unfolding fromUnits_text decimalOf_def Let_def fromUnits_parts unsigned_text_def by simp

lemma units_fromUnits: "units (fromUnits v) = Some v"
  by (simp add: fromUnits_text units_unsigned_text)

lemma inj_fromUnits: "fromUnits v = fromUnits w \<longleftrightarrow> v = w"
  by (metis option.inject units_fromUnits)

text \<open>What a valid amount of MT940 stands for, and the text \<open>decimal\<close> gives it.\<close>

lemma comma_case:
  "(case r of [] \<Rightarrow> False | c # fraction \<Rightarrow> c = x \<and> digits fraction \<and> length fraction \<le> 5) \<Longrightarrow>
    \<exists>f. r = x # f \<and> digits f \<and> length f \<le> 5"
  by (cases r) simp_all

lemma is_mt940_amount_iff:
  "is_mt940_amount raw \<longleftrightarrow> (\<exists>w f. raw = w @ CHR '','' # f \<and> digits w \<and> digits f
    \<and> 1 \<le> length w \<and> length w \<le> 15 \<and> length f \<le> 5)"
proof
  assume "is_mt940_amount raw"
  then have parts: "1 \<le> length (takeWhile is_digit raw) \<and> length (takeWhile is_digit raw) \<le> 15
    \<and> (case dropWhile is_digit raw of [] \<Rightarrow> False
      | c # fraction \<Rightarrow> c = CHR '','' \<and> digits fraction \<and> length fraction \<le> 5)"
    unfolding is_mt940_amount_def Let_def .
  note len = parts [THEN conjunct1] parts [THEN conjunct2, THEN conjunct1]
  note rest = parts [THEN conjunct2, THEN conjunct2]
  from rest obtain f where "dropWhile is_digit raw = CHR '','' # f" "digits f" "length f \<le> 5"
    using comma_case [OF rest] by blast
  moreover have "digits (takeWhile is_digit raw)" by (auto simp: list_all_iff dest: set_takeWhileD)
  moreover have "raw = takeWhile is_digit raw @ dropWhile is_digit raw" by simp
  ultimately show "\<exists>w f. raw = w @ CHR '','' # f \<and> digits w \<and> digits f
    \<and> 1 \<le> length w \<and> length w \<le> 15 \<and> length f \<le> 5"
    using len by (intro exI [of _ "takeWhile is_digit raw"] exI [of _ f] conjI) simp_all
next
  assume "\<exists>w f. raw = w @ CHR '','' # f \<and> digits w \<and> digits f
    \<and> 1 \<le> length w \<and> length w \<le> 15 \<and> length f \<le> 5"
  then obtain w f where wf: "raw = w @ CHR '','' # f" "digits w" "digits f" "1 \<le> length w"
    "length w \<le> 15" "length f \<le> 5" by blast
  have "\<not> is_digit (CHR '','')" by (simp add: is_digit_def code_def)
  with wf have "takeWhile is_digit raw = w" "dropWhile is_digit raw = CHR '','' # f"
    by (simp_all add: list_all_iff takeWhile_append dropWhile_append)
  with wf show "is_mt940_amount raw" by (simp add: is_mt940_amount_def)
qed

lemma decimal_text:
  assumes "digits w" "digits f" "1 \<le> length w" "length w \<le> 15" "length f \<le> 5"
  shows "decimal (w @ CHR '','' # f) negative
    = Inr (fromUnits ((if negative then - 1 else 1)
        * int (dec_val w * 100000 + dec_val (pad_end 5 (CHR ''0'') f))))"
proof -
  let ?p = "pad_end 5 (CHR ''0'') f" and ?n = "dec_val w * 100000 + dec_val (pad_end 5 (CHR ''0'') f)"
  have p: "digits ?p" "length ?p = 5" using assms(2,5) by (auto simp: pad_end_def list_all_iff)
  with dec_val_less [of ?p] have "dec_val ?p < 100000" by simp
  then have dv: "?n div 100000 = dec_val w" "?n mod 100000 = dec_val ?p" by simp_all
  have "last_digits 5 ?n = last_digits 5 (dec_val ?p)"
    using last_digits_dec_val [of "last_digits 5 ?n" 5] dv by (simp only: digits_last_digits length_last_digits dec_val_last_digits) simp
  also have "\<dots> = ?p" using p by (rule last_digits_dec_val)
  finally have last: "last_digits 5 ?n = ?p" .
  have trim: "trim_zeros ?p = trim_zeros f" by (simp add: pad_end_def trim_end_append)
  have "w \<noteq> []" using assms(3) by auto
  then have unsigned: "unsigned_text ?n = strip_zeros w @ (if trim_zeros f \<noteq> [] then CHR ''.'' # trim_zeros f else [])"
    using assms(1) unfolding unsigned_text_def last trim dv(1) by (auto simp: strip_zeros_nat_str)
  have ok: "is_mt940_amount (w @ CHR '','' # f)" using assms is_mt940_amount_iff by blast
  have "split_on (CHR '','') (w @ CHR '','' # f) = [w, f]"
    using assms(1,2) by (simp add: split_on_append split_on_none point_not_digit)
  with ok have "decimal (w @ CHR '','' # f) negative
      = Inr (if negative \<and> unsigned_text ?n \<noteq> ''0'' then CHR ''-'' # unsigned_text ?n else unsigned_text ?n)"
    unfolding unsigned by (simp add: decimal_def Let_def)
  also have "\<dots> = Inr (fromUnits ((if negative then - 1 else 1) * int ?n))"
    unfolding unsigned_text_zero fromUnits_text by (auto simp del: of_nat_add of_nat_mult)
  finally show ?thesis .
qed

lemma decimal_Inr:
  assumes "decimal raw negative = Inr s"
  shows "\<exists>v. s = fromUnits v \<and> (if negative then v \<le> 0 else 0 \<le> v)"
proof -
  have "is_mt940_amount raw" using assms by (auto simp: decimal_def split: if_splits)
  then obtain w f where wf: "raw = w @ CHR '','' # f" "digits w" "digits f" "1 \<le> length w"
    "length w \<le> 15" "length f \<le> 5" unfolding is_mt940_amount_iff by blast
  note t = decimal_text [OF wf(2-6), of negative]
  show ?thesis using t assms unfolding wf(1) by fastforce
qed

end
