(* ===== verification/Money_Mt940.thy ===== *)
theory Money_Mt940
  imports Money_Amounts Js_Json
begin

text \<open>
  The MT940 reader (\<^verbatim>\<open>src/integrations/money/parser.ts\<close>).

  The variables that \<open>parseMT940\<close> closes over are the fields of \<open>mt_reader\<close>; \<open>current\<close> is a
  reference to the last element of \<open>statements\<close>, so it is the flag \<open>has_current\<close> here. Every
  \<open>throw\<close> is an \<open>Inl\<close>. A regular expression is a function that takes the text apart from the
  left: none of those used here needs to go back on a choice.
\<close>

record transaction =
  tx_date :: string
  tx_bookingDate :: string
  tx_amount :: string
  tx_code :: string
  tx_reference :: string
  tx_bankReference :: string
  tx_description :: string

record statement =
  s_account :: string
  s_number :: string
  s_currency :: string
  s_opening :: string
  s_closing :: string
  s_start :: string
  s_end :: string
  s_transactions :: "transaction list"

abbreviation failE :: "string \<Rightarrow> money_error + 'a" where
  "failE m \<equiv> Inl (PlainError m)"

section \<open>Dates, balances and transaction lines\<close>

definition mt_date :: "string \<Rightarrow> money_error + string" where
  "mt_date raw =
     (let year = dec_val (take 2 raw);
          full = (if year \<ge> 70 then 1900 + year else 2000 + year);
          result = nat_str full @ ''-'' @ take 2 (drop 2 raw) @ ''-'' @ take 2 (drop 4 raw)
      in if \<not> (digits raw \<and> length raw = 6) then failE ''Invalid MT940 date''
         else case date_parse (result @ ''T00:00:00Z'') of
           None \<Rightarrow> failE ''Invalid MT940 date''
         | Some at \<Rightarrow>
             if take 10 (iso_string at) \<noteq> result then failE ''Invalid MT940 date''
             else Inr result)"

text \<open>\<^verbatim>\<open>\d+,\d*\<close> at the front: the text matched, and what follows it.\<close>

definition take_amount :: "string \<Rightarrow> (string \<times> string) option" where
  "take_amount s =
     (let whole = takeWhile is_digit s; rest = dropWhile is_digit s
      in if whole = [] \<or> rest = [] \<or> hd rest \<noteq> CHR '','' then None
         else Some (whole @ CHR '','' # takeWhile is_digit (tl rest), dropWhile is_digit (tl rest)))"

record balance =
  b_date :: string
  b_currency :: string
  b_amount :: string

definition mt_balance :: "string \<Rightarrow> money_error + balance" where
  "mt_balance val =
     (let day = take 6 (drop 1 val); cur = take 3 (drop 7 val)
      in if val \<noteq> [] \<and> hd val \<in> set ''CD'' \<and> length day = 6 \<and> digits day
           \<and> length cur = 3 \<and> list_all is_upper_az cur
           \<and> (case take_amount (drop 10 val) of Some (_, rest) \<Rightarrow> rest = [] | None \<Rightarrow> False)
         then bindE (mt_date day) (\<lambda>d.
              bindE (decimal (drop 10 val) (hd val = CHR ''D'')) (\<lambda>a.
              Inr \<lparr>b_date = d, b_currency = cur, b_amount = a\<rparr>))
         else failE ''Invalid MT940 balance'')"

text \<open>The credit/debit mark: \<^verbatim>\<open>RC|RD|C|D\<close>.\<close>

definition take_mark :: "string \<Rightarrow> (string \<times> string) option" where
  "take_mark s =
     (if starts_with ''RC'' s \<or> starts_with ''RD'' s then Some (take 2 s, drop 2 s)
      else if starts_with ''C'' s \<or> starts_with ''D'' s then Some (take 1 s, drop 1 s)
      else None)"

record tx_line =
  l_value :: string
  l_booking :: "string option"
  l_mark :: string
  l_amount :: string
  l_code :: string
  l_rest :: string

definition match_line :: "string \<Rightarrow> tx_line option" where
  "match_line line =
     (let day = take 6 line; rest = drop 6 line;
          entry = take 4 rest;
          has_entry = (length entry = 4 \<and> digits entry);
          rest = (if has_entry then drop 4 rest else rest)
      in if \<not> (length day = 6 \<and> digits day) then None
         else Option.bind (take_mark rest) (\<lambda>(mark, rest).
           let rest = (if rest \<noteq> [] \<and> is_upper_az (hd rest) then tl rest else rest)
           in Option.bind (take_amount rest) (\<lambda>(amt, rest).
             let cd = take 4 rest; rest = drop 4 rest
             in if length cd = 4 \<and> hd cd \<in> set ''NSF''
                  \<and> list_all (\<lambda>c. is_upper_az c \<or> is_digit c) (tl cd)
                  \<and> list_all (\<lambda>c. code c \<noteq> 10 \<and> code c \<noteq> 13) rest
                then Some \<lparr>l_value = day, l_booking = (if has_entry then Some entry else None),
                       l_mark = mark, l_amount = amt, l_code = cd, l_rest = rest\<rparr>
                else None)))"

text \<open>\<open>s.split('//')\<close>\<close>

fun split_slashes :: "string \<Rightarrow> string list" where
  "split_slashes (c # d # s) =
     (if c = CHR ''/'' \<and> d = CHR ''/'' then [] # split_slashes s
      else (case split_slashes (d # s) of [] \<Rightarrow> [[c]] | t # ts \<Rightarrow> (c # t) # ts))"
| "split_slashes s = [s]"

definition booking_year :: "nat \<Rightarrow> nat \<Rightarrow> nat \<Rightarrow> nat" where
  "booking_year valueYear valueMonth month =
     (if valueMonth + 6 < month then valueYear - 1
      else if month + 6 < valueMonth then valueYear + 1 else valueYear)"

definition mt_transaction :: "string \<Rightarrow> money_error + transaction" where
  "mt_transaction val =
     (let ls = split_on newline val
      in case match_line (hd ls) of
        None \<Rightarrow> failE ''Unsupported MT940 transaction line''
      | Some m \<Rightarrow>
          bindE (mt_date (l_value m)) (\<lambda>valueDate.
          bindE (case l_booking m of
              None \<Rightarrow> Inr valueDate
            | Some entry \<Rightarrow>
                let year = booking_year (dec_val (take 4 valueDate))
                      (dec_val (take 2 (drop 5 valueDate))) (dec_val (take 2 entry))
                in mt_date (pad_zero 2 (nat_str (year mod 100)) @ entry))
            (\<lambda>booking.
              let parts = split_slashes (l_rest m)
              in if hd parts = [] \<or> length parts > 2
                 then failE ''Invalid MT940 transaction reference''
                 else bindE (decimal (l_amount m) (l_mark m = ''D'' \<or> l_mark m = ''RC'')) (\<lambda>amt.
                   Inr \<lparr>tx_date = valueDate, tx_bookingDate = booking, tx_amount = amt,
                        tx_code = l_code m, tx_reference = hd parts,
                        tx_bankReference = (case tl parts of [] \<Rightarrow> [] | b # _ \<Rightarrow> b),
                        tx_description = join [newline] (tl ls)\<rparr>))))"

section \<open>Balances and narratives\<close>

definition mt_reconcile :: "statement \<Rightarrow> string \<Rightarrow> string \<Rightarrow> money_error + unit" where
  "mt_reconcile s closing till =
     (case sum_units 0 (map tx_amount (s_transactions s)) of
        None \<Rightarrow> failE ''SyntaxError''
      | Some entries \<Rightarrow>
          (case (units (s_opening s), units closing) of
             (Some opening, Some c) \<Rightarrow>
               let expected = opening + entries
               in if expected = c then Inr ()
                  else Inl (StatementError
                    (BALANCE_MISMATCH (s_number s) (s_account s) (s_currency s) (s_opening s)
                       (length (s_transactions s)) (decimalOf entries) (decimalOf expected) closing
                       (s_start s) till)
                    ''Statement balance does not reconcile; no transactions will be imported'')
           | _ \<Rightarrow> failE ''SyntaxError''))"

definition json_shaped :: "transaction \<Rightarrow> bool" where
  "json_shaped row =
     (let narrative = trim (tx_description row)
      in (starts_with ''['' narrative \<or> starts_with ''{'' narrative) \<and> json_valid narrative)"

definition rejectJsonNarratives :: "statement list \<Rightarrow> money_error + unit" where
  "rejectJsonNarratives ss =
     (let count = length (filter json_shaped (concat (map s_transactions ss)))
      in if count \<noteq> 0
         then Inl (StatementError (JSON_NARRATIVE count)
           ''JSON-shaped bank narratives are not supported yet; the statement was not imported'')
         else Inr ())"

section \<open>Fields\<close>

record mt_field =
  f_tag :: string
  f_value :: string
  f_line :: nat

text \<open>\<^verbatim>\<open>/^(?:\{1:.*\{4:|\{4:| -\}|-\}|\{5:.*\})$/\<close>\<close>

definition ends_with :: "string \<Rightarrow> string \<Rightarrow> bool" where
  "ends_with p s \<longleftrightarrow> starts_with (rev p) (rev s)"

definition is_envelope :: "string \<Rightarrow> bool" where
  "is_envelope line \<longleftrightarrow>
     (starts_with ''{1:'' line \<and> ends_with ''{4:'' line \<and> length line \<ge> 6)
     \<or> line = ''{4:'' \<or> line = '' -}'' \<or> line = ''-}''
     \<or> (starts_with ''{5:'' line \<and> ends_with ''}'' line \<and> length line \<ge> 4)"

text \<open>\<^verbatim>\<open>/^:(\d{2}[A-Z]?):(.*)$/\<close>\<close>

definition match_field :: "string \<Rightarrow> (string \<times> string) option" where
  "match_field line =
     (let tag = take 2 (drop 1 line); rest = drop 3 line;
          letter = (if rest \<noteq> [] \<and> is_upper_az (hd rest) then take 1 rest else []);
          rest = drop (length letter) rest
      in if starts_with '':'' line \<and> length tag = 2 \<and> digits tag \<and> starts_with '':'' rest
         then Some (tag @ letter, tl rest) else None)"

fun read_fields :: "nat \<Rightarrow> mt_field list \<Rightarrow> string list \<Rightarrow> money_error + mt_field list" where
  "read_fields index fs [] = Inr fs"
| "read_fields index fs (line # lines) =
     (if is_envelope line then read_fields (index + 1) fs lines
      else case match_field line of
        Some (tag, val) \<Rightarrow>
          read_fields (index + 1) (fs @ [\<lparr>f_tag = tag, f_value = val, f_line = index + 1\<rparr>]) lines
      | None \<Rightarrow>
          if trim line \<noteq> [] then
            (if fs = [] \<or> f_tag (last fs) \<notin> {''61'', ''86''}
             then Inl (StatementError
               (INVALID_FIELD (if fs = [] then ''header'' else f_tag (last fs)) (Some (index + 1)))
               ''Unsupported MT940 header or field continuation'')
             else read_fields (index + 1)
               (butlast fs @ [(last fs)\<lparr>f_value := f_value (last fs) @ newline # line\<rparr>]) lines)
          else read_fields (index + 1) fs lines)"

record mt_reader =
  r_account :: string
  r_number :: string
  has_current :: bool
  r_closed :: bool
  r_count :: nat
  r_statements :: "statement list"

definition new_mt_reader :: mt_reader where
  "new_mt_reader = \<lparr>r_account = [], r_number = [], has_current = False, r_closed = True,
     r_count = 0, r_statements = []\<rparr>"

text \<open>\<open>current\<close>, and what a change of it does to \<open>statements\<close>.\<close>

abbreviation current :: "mt_reader \<Rightarrow> statement" where
  "current r \<equiv> last (r_statements r)"

definition set_current :: "statement \<Rightarrow> mt_reader \<Rightarrow> mt_reader" where
  "set_current s r = r\<lparr>r_statements := butlast (r_statements r) @ [s]\<rparr>"

definition open_statement :: "string \<Rightarrow> mt_reader \<Rightarrow> money_error + mt_reader" where
  "open_statement val r =
     (if \<not> r_closed r \<or> r_account r = [] \<or> r_number r = []
      then failE ''Missing or out-of-order MT940 statement fields''
      else bindE (mt_balance val) (\<lambda>opening.
        Inr (r\<lparr>r_statements := r_statements r @
            [\<lparr>s_account = r_account r, s_number = r_number r, s_currency = b_currency opening,
              s_opening = b_amount opening, s_closing = [], s_start = b_date opening, s_end = [],
              s_transactions = []\<rparr>],
          has_current := True, r_closed := False\<rparr>)))"

definition add_transaction :: "string \<Rightarrow> mt_reader \<Rightarrow> money_error + mt_reader" where
  "add_transaction val r =
     (if \<not> has_current r \<or> r_closed r then failE ''Transaction outside an open statement''
      else if r_count r + 1 > 500
      then Inl (StatementError (TOO_MANY_ENTRIES 500)
        ''Import at most 500 transactions at a time; export a shorter period'')
      else bindE (mt_transaction val) (\<lambda>row.
        Inr (set_current ((current r)\<lparr>s_transactions := s_transactions (current r) @ [row]\<rparr>)
          (r\<lparr>r_count := r_count r + 1\<rparr>))))"

definition add_narrative :: "string \<Rightarrow> mt_reader \<Rightarrow> money_error + mt_reader" where
  "add_narrative val r =
     (if \<not> has_current r \<or> r_closed r then failE ''Unsupported statement-level narrative''
      else let rows = s_transactions (current r)
        in if rows = [] then failE ''Narrative without a transaction''
           else let row = last rows;
                    row = row\<lparr>tx_description :=
                      join [newline] (filter (\<lambda>s. s \<noteq> []) [tx_description row, val])\<rparr>
             in Inr (set_current ((current r)\<lparr>s_transactions := butlast rows @ [row]\<rparr>) r))"

definition close_statement :: "string \<Rightarrow> mt_reader \<Rightarrow> money_error + mt_reader" where
  "close_statement val r =
     (if \<not> has_current r \<or> r_closed r then failE ''Closing balance without an open statement''
      else bindE (mt_balance val) (\<lambda>closing.
        if b_currency closing \<noteq> s_currency (current r) \<or> b_date closing < s_start (current r)
        then failE ''Statement currency or date range is inconsistent''
        else bindE (mt_reconcile (current r) (b_amount closing) (b_date closing)) (\<lambda>_.
          Inr ((set_current ((current r)\<lparr>s_closing := b_amount closing, s_end := b_date closing\<rparr>) r)
            \<lparr>r_closed := True\<rparr>))))"

definition mt_field_step :: "string \<Rightarrow> string \<Rightarrow> mt_reader \<Rightarrow> money_error + mt_reader" where
  "mt_field_step tag val r =
     (if tag = ''20'' then
        (if \<not> r_closed r
         then Inl (StatementError (MISSING_BALANCE (Some (r_number r)))
           ''Statement is missing its closing balance'')
         else Inr (r\<lparr>r_account := [], r_number := [], has_current := False\<rparr>))
      else if tag = ''21'' then Inr r
      else if tag = ''25'' then
        (if \<not> r_closed r then failE ''Unexpected account inside a statement''
         else if trim val = [] then failE ''Missing bank account''
         else Inr (r\<lparr>r_account := trim val\<rparr>))
      else if tag = ''28'' \<or> tag = ''28C'' then
        (if \<not> r_closed r then failE ''Unexpected statement number''
         else Inr (r\<lparr>r_number := trim val\<rparr>))
      else if tag = ''60F'' \<or> tag = ''60M'' then open_statement val r
      else if tag = ''61'' then add_transaction val r
      else if tag = ''86'' then add_narrative val r
      else if tag = ''62F'' \<or> tag = ''62M'' then close_statement val r
      else if tag = ''64'' \<or> tag = ''65'' then bindE (mt_balance val) (\<lambda>_. Inr r)
      else failE (''Unsupported MT940 field :'' @ tag @ '':''))"

text \<open>The \<open>try\<close> around a field: a plain error gets the field's tag and line.\<close>

fun run_fields :: "mt_field list \<Rightarrow> mt_reader \<Rightarrow> money_error + mt_reader" where
  "run_fields [] r = Inr r"
| "run_fields (f # fs) r =
     (case mt_field_step (f_tag f) (f_value f) r of
        Inl (StatementError d m) \<Rightarrow> Inl (StatementError d m)
      | Inl (PlainError m) \<Rightarrow> Inl (StatementError (INVALID_FIELD (f_tag f) (Some (f_line f))) m)
      | Inr r' \<Rightarrow> run_fields fs r')"

text \<open>\<open>replace(/\r\n?/g, '\n')\<close>\<close>

fun unix_lines :: "string \<Rightarrow> string" where
  "unix_lines [] = []"
| "unix_lines (c # s) =
     (if code c = 13
      then newline # (case s of [] \<Rightarrow> [] | d # s' \<Rightarrow> if d = newline then unix_lines s' else unix_lines s)
      else c # unix_lines s)"

definition parseMT940 :: "string \<Rightarrow> money_error + statement list" where
  "parseMT940 text =
     (if length text > 512000
      then Inl (StatementError (FILE_TOO_LARGE 512000 ''mt940'')
        ''Choose an MT940 file smaller than 512 KB'')
      else
        bindE (read_fields 0 [] (split_on newline (trim (unix_lines text)))) (\<lambda>fs.
        bindE (run_fields fs new_mt_reader) (\<lambda>r.
          if r_statements r = [] \<or> \<not> r_closed r
          then Inl (StatementError
            (MISSING_BALANCE (if r_number r = [] then None else Some (r_number r)))
            ''Incomplete MT940 statement: opening and closing balances are required'')
          else bindE (rejectJsonNarratives (r_statements r)) (\<lambda>_. Inr (r_statements r)))))"

section \<open>The statements that are accepted\<close>

definition balanced :: "statement \<Rightarrow> bool" where
  "balanced s \<longleftrightarrow>
     (case (units (s_opening s), units (s_closing s), sum_units 0 (map tx_amount (s_transactions s))) of
        (Some opening, Some closing, Some entries) \<Rightarrow> opening + entries = closing
      | _ \<Rightarrow> False)"

definition currency_code :: "string \<Rightarrow> bool" where
  "currency_code c \<longleftrightarrow> length c = 3 \<and> list_all is_upper_az c"

definition identified :: "statement \<Rightarrow> bool" where
  "identified s \<longleftrightarrow> s_account s \<noteq> [] \<and> s_number s \<noteq> [] \<and> currency_code (s_currency s)"

definition statement_ok :: "statement \<Rightarrow> bool" where
  "statement_ok s \<longleftrightarrow> identified s \<and> balanced s \<and> s_start s \<le> s_end s"

definition entry_count :: "statement list \<Rightarrow> nat" where
  "entry_count ss = sum_list (map (\<lambda>s. length (s_transactions s)) ss)"

text \<open>
  The invariant of the reader: the statements that are closed are accepted ones, an open
  one is the last and has its identification, and the count is that of the entries.
\<close>

definition reader_ok :: "mt_reader \<Rightarrow> bool" where
  "reader_ok r \<longleftrightarrow>
     (\<forall>s \<in> set (if r_closed r then r_statements r else butlast (r_statements r)). statement_ok s)
     \<and> (has_current r \<longrightarrow> r_statements r \<noteq> [])
     \<and> (\<not> r_closed r \<longrightarrow> has_current r \<and> identified (current r))
     \<and> r_count r = entry_count (r_statements r) \<and> r_count r \<le> 500"

lemma mt_balance_currency: "mt_balance v = Inr b \<Longrightarrow> currency_code (b_currency b)"
  by (auto simp: mt_balance_def Let_def bindE_eq_Inr currency_code_def split: if_splits)

lemma mt_reconcile_balanced:
  "mt_reconcile s closing till = Inr u \<Longrightarrow> balanced (s\<lparr>s_closing := closing, s_end := till'\<rparr>)"
  by (cases "sum_units 0 (map tx_amount (s_transactions s))"; cases "units (s_opening s)"; cases "units closing")
    (simp_all add: mt_reconcile_def balanced_def Let_def split: if_splits)

lemma open_reader:
  assumes "reader_ok r" "has_current r" "\<not> r_closed r"
  obtains ss s where "r_statements r = ss @ [s]" "\<forall>s \<in> set ss. statement_ok s" "identified s"
    "r_count r = entry_count ss + length (s_transactions s)" "r_count r \<le> 500"
proof -
  from assms have "r_statements r \<noteq> []" by (simp add: reader_ok_def)
  then obtain ss s where "r_statements r = ss @ [s]" by (cases "r_statements r" rule: rev_cases) auto
  with assms show thesis by (intro that) (auto simp: reader_ok_def entry_count_def)
qed

lemma open_statement_ok: "reader_ok r \<Longrightarrow> open_statement v r = Inr r' \<Longrightarrow> reader_ok r'"
  by (auto simp: open_statement_def reader_ok_def bindE_eq_Inr identified_def entry_count_def
      mt_balance_currency split: if_splits)

text \<open>Changing the open statement, its identification aside, keeps the invariant.\<close>

lemma set_current_ok:
  assumes "reader_ok r" "has_current r" "\<not> r_closed r"
    and "identified s'" "n = r_count r - length (s_transactions (current r)) + length (s_transactions s')" "n \<le> 500"
  shows "reader_ok (set_current s' (r\<lparr>r_count := n\<rparr>))"
proof -
  obtain ss s where
    ss: "r_statements r = ss @ [s]" "\<forall>s \<in> set ss. statement_ok s" "identified s"
    "r_count r = entry_count ss + length (s_transactions s)" "r_count r \<le> 500"
    by (rule open_reader [OF assms(1-3)])
  have "n = entry_count (ss @ [s'])" using assms(5) ss(1,4) by (simp add: entry_count_def)
  with ss assms show ?thesis by (simp add: reader_ok_def set_current_def)
qed

lemma add_transaction_ok:
  assumes "reader_ok r" "add_transaction v r = Inr r'" shows "reader_ok r'"
proof -
  from assms(2) obtain row where r': "has_current r" "\<not> r_closed r" "r_count r + 1 \<le> 500"
    "r' = set_current ((current r)\<lparr>s_transactions := s_transactions (current r) @ [row]\<rparr>)
      (r\<lparr>r_count := r_count r + 1\<rparr>)"
    by (auto simp: add_transaction_def bindE_eq_Inr not_less split: if_splits)
  obtain ss s where
    ss: "r_statements r = ss @ [s]" "\<forall>s \<in> set ss. statement_ok s" "identified s"
    "r_count r = entry_count ss + length (s_transactions s)" "r_count r \<le> 500"
    by (rule open_reader [OF assms(1) r'(1,2)])
  show ?thesis unfolding r'(4)
    by (rule set_current_ok [OF assms(1) r'(1,2)]) (use ss r'(3) in \<open>simp_all add: identified_def\<close>)
qed

lemma add_narrative_ok:
  assumes "reader_ok r" "add_narrative v r = Inr r'" shows "reader_ok r'"
proof -
  have r: "has_current r" "\<not> r_closed r" "s_transactions (current r) \<noteq> []"
    using assms(2) by (auto simp: add_narrative_def Let_def split: if_splits)
  define row where "row = (last (s_transactions (current r)))\<lparr>tx_description :=
    join [newline] (filter (\<lambda>s. s \<noteq> []) [tx_description (last (s_transactions (current r))), v])\<rparr>"
  have r': "r' = set_current
      ((current r)\<lparr>s_transactions := butlast (s_transactions (current r)) @ [row]\<rparr>) (r\<lparr>r_count := r_count r\<rparr>)"
    using assms(2) r unfolding add_narrative_def Let_def row_def by simp
  have len: "length (butlast xs @ [row]) = length xs" if "xs \<noteq> []" for xs
    using that by (cases xs rule: rev_cases) auto
  obtain ss s where
    ss: "r_statements r = ss @ [s]" "\<forall>s \<in> set ss. statement_ok s" "identified s"
    "r_count r = entry_count ss + length (s_transactions s)" "r_count r \<le> 500"
    by (rule open_reader [OF assms(1) r(1,2)])
  show ?thesis unfolding r'
  proof (rule set_current_ok [OF assms(1) r(1,2)])
    show "identified ((current r)\<lparr>s_transactions := butlast (s_transactions (current r)) @ [row]\<rparr>)"
      using ss(1,3) by (simp add: identified_def)
    show "r_count r = r_count r - length (s_transactions (current r)) + length (s_transactions
        ((current r)\<lparr>s_transactions := butlast (s_transactions (current r)) @ [row]\<rparr>))"
      using len [OF r(3)] ss(1,4) by simp
  qed (rule ss(5))
qed

lemma close_statement_ok:
  assumes "reader_ok r" "close_statement v r = Inr r'" shows "reader_ok r'"
proof -
  have r: "has_current r" "\<not> r_closed r" using assms(2) by (auto simp: close_statement_def split: if_splits)
  with assms(2) obtain b where b: "mt_balance v = Inr b"
    "(if b_currency b \<noteq> s_currency (current r) \<or> b_date b < s_start (current r)
      then failE ''Statement currency or date range is inconsistent''
      else bindE (mt_reconcile (current r) (b_amount b) (b_date b)) (\<lambda>_.
        Inr ((set_current ((current r)\<lparr>s_closing := b_amount b, s_end := b_date b\<rparr>) r)
          \<lparr>r_closed := True\<rparr>))) = Inr r'"
    unfolding close_statement_def by (auto simp: bindE_eq_Inr)
  then have r': "\<not> b_date b < s_start (current r)" "mt_reconcile (current r) (b_amount b) (b_date b) = Inr ()"
    "r' = (set_current ((current r)\<lparr>s_closing := b_amount b, s_end := b_date b\<rparr>) r)\<lparr>r_closed := True\<rparr>"
    by (auto simp: bindE_eq_Inr split: if_splits)
  obtain ss s where
    ss: "r_statements r = ss @ [s]" "\<forall>s \<in> set ss. statement_ok s" "identified s"
    "r_count r = entry_count ss + length (s_transactions s)" "r_count r \<le> 500"
    by (rule open_reader [OF assms(1) r])
  have "statement_ok (s\<lparr>s_closing := b_amount b, s_end := b_date b\<rparr>)"
    using r'(1,2) mt_reconcile_balanced [of s "b_amount b" "b_date b"] ss(1,3)
    by (auto simp: statement_ok_def identified_def not_less)
  with r r'(3) ss show ?thesis
    by (auto simp: reader_ok_def set_current_def entry_count_def)
qed

lemma reader_ok_header:
  "r\<lparr>r_account := a\<rparr> = r' \<Longrightarrow> reader_ok r \<Longrightarrow> \<not> \<not> r_closed r \<Longrightarrow> reader_ok r'"
  "r\<lparr>r_number := n\<rparr> = r' \<Longrightarrow> reader_ok r \<Longrightarrow> \<not> \<not> r_closed r \<Longrightarrow> reader_ok r'"
  "r\<lparr>r_account := a, r_number := n, has_current := False\<rparr> = r' \<Longrightarrow> reader_ok r \<Longrightarrow> \<not> \<not> r_closed r \<Longrightarrow>
    reader_ok r'"
  by (auto simp: reader_ok_def)

lemma bind_const_ok: "bindE m (\<lambda>_. Inr r) = Inr r' \<Longrightarrow> reader_ok r \<Longrightarrow> reader_ok r'"
  by (cases m) simp_all

lemma if_E: "(if b then x else y) = z \<Longrightarrow> (b \<Longrightarrow> x = z \<Longrightarrow> P) \<Longrightarrow> (\<not> b \<Longrightarrow> y = z \<Longrightarrow> P) \<Longrightarrow> P"
  by (cases b) simp_all

lemma mt_field_step_ok: "reader_ok r \<Longrightarrow> mt_field_step tag v r = Inr r' \<Longrightarrow> reader_ok r'"
  unfolding mt_field_step_def
  by (elim if_E; (erule (1) open_statement_ok add_transaction_ok add_narrative_ok close_statement_ok)?)
    (simp_all only: sum.inject sum.distinct, (erule (2) reader_ok_header | erule (1) bind_const_ok)+)

lemma run_fields_ok: "reader_ok r \<Longrightarrow> run_fields fs r = Inr r' \<Longrightarrow> reader_ok r'"
proof (induction fs arbitrary: r)
  case (Cons f fs)
  then obtain r1 where "mt_field_step (f_tag f) (f_value f) r = Inr r1" "run_fields fs r1 = Inr r'"
    by (auto split: sum.splits money_error.splits)
  with Cons mt_field_step_ok show ?case by blast
qed simp

lemma new_reader_ok: "reader_ok new_mt_reader"
  by (simp add: reader_ok_def new_mt_reader_def entry_count_def)

section \<open>What goes wrong, and where\<close>

abbreviation mt_lines :: "string \<Rightarrow> string list" where
  "mt_lines text \<equiv> split_on newline (trim (unix_lines text))"

text \<open>
  A field of the text: it starts in line \<open>n\<close> (counted from 0), which has its tag, and \<open>before\<close>
  are the fields that the lines before that one hold.
\<close>

definition field_at :: "string list \<Rightarrow> nat \<Rightarrow> mt_field list \<Rightarrow> mt_field \<Rightarrow> bool" where
  "field_at ls n before f \<longleftrightarrow>
     n < length ls \<and> f_line f = n + 1 \<and> \<not> is_envelope (ls ! n)
     \<and> (\<exists>val. match_field (ls ! n) = Some (f_tag f, val) \<and> starts_with val (f_value f))
     \<and> read_fields 0 [] (take n ls) = Inr before
     \<and> (\<exists>behind. read_fields 0 [] ls = Inr (before @ f # behind))"

text \<open>A line with content that is no field, no envelope and not the continuation of a field that may have one.\<close>

definition stray_at :: "string list \<Rightarrow> nat \<Rightarrow> string \<Rightarrow> bool" where
  "stray_at ls n tag \<longleftrightarrow>
     n < length ls \<and> \<not> is_envelope (ls ! n) \<and> match_field (ls ! n) = None \<and> trim (ls ! n) \<noteq> []
     \<and> (\<exists>before. read_fields 0 [] (take n ls) = Inr before
          \<and> (if before = [] then tag = ''header'' else tag = f_tag (last before) \<and> tag \<notin> {''61'', ''86''}))"

text \<open>Each way in which reading fails, and the error for it.\<close>

inductive mt_fails :: "string \<Rightarrow> money_error \<Rightarrow> bool" for input where
  too_large: "512000 < length input \<Longrightarrow>
    mt_fails input (StatementError (FILE_TOO_LARGE 512000 ''mt940'') ''Choose an MT940 file smaller than 512 KB'')"
| stray_line: "length input \<le> 512000 \<Longrightarrow> stray_at (mt_lines input) n tag \<Longrightarrow>
    mt_fails input (StatementError (INVALID_FIELD tag (Some (n + 1))) ''Unsupported MT940 header or field continuation'')"
| bad_field: "length input \<le> 512000 \<Longrightarrow> field_at (mt_lines input) n before f \<Longrightarrow> run_fields before new_mt_reader = Inr r \<Longrightarrow>
    mt_field_step (f_tag f) (f_value f) r = Inl (PlainError m) \<Longrightarrow>
    mt_fails input (StatementError (INVALID_FIELD (f_tag f) (Some (n + 1))) m)"
| refused_field: "length input \<le> 512000 \<Longrightarrow> field_at (mt_lines input) n before f \<Longrightarrow> run_fields before new_mt_reader = Inr r \<Longrightarrow>
    mt_field_step (f_tag f) (f_value f) r = Inl (StatementError d m) \<Longrightarrow>
    mt_fails input (StatementError d m)"
| unfinished: "length input \<le> 512000 \<Longrightarrow> read_fields 0 [] (mt_lines input) = Inr fs \<Longrightarrow> run_fields fs new_mt_reader = Inr r \<Longrightarrow>
    r_statements r = [] \<or> \<not> r_closed r \<Longrightarrow>
    mt_fails input (StatementError (MISSING_BALANCE (if r_number r = [] then None else Some (r_number r)))
      ''Incomplete MT940 statement: opening and closing balances are required'')"
| json_narrative: "length input \<le> 512000 \<Longrightarrow> read_fields 0 [] (mt_lines input) = Inr fs \<Longrightarrow> run_fields fs new_mt_reader = Inr r \<Longrightarrow>
    r_statements r \<noteq> [] \<Longrightarrow> r_closed r \<Longrightarrow>
    n = length (filter json_shaped (concat (map s_transactions (r_statements r)))) \<Longrightarrow> 0 < n \<Longrightarrow>
    mt_fails input (StatementError (JSON_NARRATIVE n)
      ''JSON-shaped bank narratives are not supported yet; the statement was not imported'')"

lemma read_fields_append:
  "read_fields i fs (a @ b) = bindE (read_fields i fs a) (\<lambda>fs. read_fields (i + length a) fs b)"
  by (induction a arbitrary: i fs) (auto split: option.split)

lemma read_one_more:
  "read_fields 0 [] (ls @ [l]) = bindE (read_fields 0 [] ls) (\<lambda>fs. read_fields (length ls) fs [l])"
  by (simp add: read_fields_append)

lemma field_at_snoc:
  assumes "field_at ls n before f" "starts_with (f_value f) (f_value g)" "f_tag g = f_tag f" "f_line g = f_line f"
    "read_fields 0 [] (ls @ [l]) = Inr (before @ g # behind)"
  shows "field_at (ls @ [l]) n before g"
  using assms by (auto simp: field_at_def nth_append starts_with_trans)

lemma read_line:
  "read_fields i fs [l] = Inr gs \<Longrightarrow> fs = gs
     \<or> (\<exists>tag val. \<not> is_envelope l \<and> match_field l = Some (tag, val) \<and> gs = fs @ [\<lparr>f_tag = tag, f_value = val, f_line = i + 1\<rparr>])
     \<or> fs \<noteq> [] \<and> gs = butlast fs @ [(last fs)\<lparr>f_value := f_value (last fs) @ newline # l\<rparr>]"
  by (auto split: if_splits option.splits)

text \<open>Every field that is read starts in a line of the text; a line that cannot be read is a stray one.\<close>

lemma read_fields_at:
  assumes "read_fields 0 [] ls = Inr (before @ f # behind)"
  shows "\<exists>n. field_at ls n before f"
  using assms
proof (induction ls arbitrary: before f behind rule: rev_induct)
  case (snoc l ls)
  note read = snoc.prems
  then obtain fs where fs: "read_fields 0 [] ls = Inr fs" "read_fields (length ls) fs [l] = Inr (before @ f # behind)"
    by (auto simp: read_one_more bindE_eq_Inr)
  have kept: "\<exists>n. field_at (ls @ [l]) n before f" if same: "fs = before @ f # rest" for rest
    using snoc.IH [OF fs(1) [unfolded same]] read by (blast intro: field_at_snoc starts_with_refl)
  consider "fs = before @ f # behind"
    | tag val where "\<not> is_envelope l" "match_field l = Some (tag, val)"
        "before @ f # behind = fs @ [\<lparr>f_tag = tag, f_value = val, f_line = length ls + 1\<rparr>]"
    | "fs \<noteq> []" "before @ f # behind = butlast fs @ [(last fs)\<lparr>f_value := f_value (last fs) @ newline # l\<rparr>]"
    using read_line [OF fs(2)] by blast
  then show ?case
  proof cases
    case 1
    then show ?thesis by (rule kept)
  next
    case 2
    show ?thesis
    proof (cases behind rule: rev_cases)
      case Nil
      with 2 have "before = fs" "f = \<lparr>f_tag = tag, f_value = val, f_line = length ls + 1\<rparr>" by auto
      then have "field_at (ls @ [l]) (length ls) before f"
        using 2(1,2) fs(1) read by (auto simp: field_at_def starts_with_refl)
      then show ?thesis ..
    next
      case (snoc rest x)
      with 2(3) have "fs = before @ f # rest" by simp
      then show ?thesis by (rule kept)
    qed
  next
    case 3
    show ?thesis
    proof (cases behind rule: rev_cases)
      case Nil
      with 3 have f: "before = butlast fs" "f = (last fs)\<lparr>f_value := f_value (last fs) @ newline # l\<rparr>" by auto
      then have "before @ last fs # [] = fs" using 3(1) by simp
      then have "read_fields 0 [] ls = Inr (before @ last fs # [])" using fs(1) by simp
      from snoc.IH [OF this] obtain n where "field_at ls n before (last fs)" ..
      then have "field_at (ls @ [l]) n before f"
        by (rule field_at_snoc [OF _ _ _ _ read]) (simp_all add: f(2) starts_with_append)
      then show ?thesis ..
    next
      case (snoc rest x)
      with 3 have "fs = before @ f # (rest @ [last fs])"
        by (metis append_Cons append_assoc append_butlast_last_id butlast_snoc)
      then show ?thesis by (rule kept)
    qed
  qed
qed simp

lemma read_fields_stray:
  "read_fields 0 [] ls = Inl e \<longleftrightarrow> (\<exists>n tag. stray_at ls n tag
     \<and> e = StatementError (INVALID_FIELD tag (Some (n + 1))) ''Unsupported MT940 header or field continuation'')"
proof
  show "read_fields 0 [] ls = Inl e \<Longrightarrow> \<exists>n tag. stray_at ls n tag
     \<and> e = StatementError (INVALID_FIELD tag (Some (n + 1))) ''Unsupported MT940 header or field continuation''"
  proof (induction ls rule: rev_induct)
    case (snoc l ls)
    show ?case
    proof (cases "read_fields 0 [] ls")
      case (Inl x)
      with snoc obtain n tag where n: "stray_at ls n tag"
        "e = StatementError (INVALID_FIELD tag (Some (n + 1))) ''Unsupported MT940 header or field continuation''"
        by (auto simp: read_one_more)
      then have "stray_at (ls @ [l]) n tag" by (auto simp: stray_at_def nth_append)
      with n show ?thesis by blast
    next
      case (Inr fs)
      with snoc.prems have "read_fields (length ls) fs [l] = Inl e" by (simp add: read_one_more)
      with Inr show ?thesis
        by (intro exI [of _ "length ls"] exI [of _ "if fs = [] then ''header'' else f_tag (last fs)"])
          (auto simp: stray_at_def split: if_splits option.splits)
    qed
  qed simp
next
  assume "\<exists>n tag. stray_at ls n tag
     \<and> e = StatementError (INVALID_FIELD tag (Some (n + 1))) ''Unsupported MT940 header or field continuation''"
  then obtain n tag where n: "stray_at ls n tag"
    "e = StatementError (INVALID_FIELD tag (Some (n + 1))) ''Unsupported MT940 header or field continuation''"
    by blast
  then obtain before where before: "read_fields 0 [] (take n ls) = Inr before" "n < length ls"
    by (auto simp: stray_at_def)
  have "read_fields 0 [] (take n ls @ ls ! n # drop (n + 1) ls) = Inl e"
    using n before unfolding read_fields_append by (auto simp: stray_at_def split: if_splits)
  then show "read_fields 0 [] ls = Inl e" using before(2) by (simp add: id_take_nth_drop [symmetric])
qed

definition reported :: "mt_field \<Rightarrow> money_error \<Rightarrow> money_error" where
  "reported f e =
     (case e of
        StatementError d m \<Rightarrow> StatementError d m
      | PlainError m \<Rightarrow> StatementError (INVALID_FIELD (f_tag f) (Some (f_line f))) m)"

lemma run_fields_error:
  "run_fields fs r = Inl e \<longleftrightarrow> (\<exists>before f behind r' x. fs = before @ f # behind \<and> run_fields before r = Inr r'
     \<and> mt_field_step (f_tag f) (f_value f) r' = Inl x \<and> e = reported f x)" (is "_ \<longleftrightarrow> ?fails fs r")
proof
  show "run_fields fs r = Inl e \<Longrightarrow> ?fails fs r"
  proof (induction fs arbitrary: r)
    case (Cons f fs)
    show ?case
    proof (cases "mt_field_step (f_tag f) (f_value f) r")
      case (Inl x)
      with Cons.prems have "e = reported f x" by (cases x; cases e) (simp_all add: reported_def)
      with Inl show ?thesis by (intro exI [of _ "[]"]) auto
    next
      case (Inr r1)
      then have "run_fields fs r1 = Inl e" using Cons.prems by simp
      from Cons.IH [OF this] obtain before g behind r' x where "fs = before @ g # behind" "run_fields before r1 = Inr r'"
        "mt_field_step (f_tag g) (f_value g) r' = Inl x" "e = reported g x" by blast
      with Inr show ?thesis by (intro exI [of _ "f # before"]) auto
    qed
  qed simp
next
  have run: "run_fields (a @ b) r = bindE (run_fields a r) (run_fields b)" for a b r
    by (induction a arbitrary: r) (auto split: sum.split money_error.split)
  show "?fails fs r \<Longrightarrow> run_fields fs r = Inl e"
    by (elim exE conjE) (rename_tac before f behind r' x, case_tac x, simp_all add: run reported_def)
qed

section \<open>Properties\<close>

text \<open>
  C14. What the MT940 reader accepts. There is at least one statement; every one has an
  account, a number and a currency of three capital letters, does not end before it starts,
  and reconciles exactly: the opening balance plus its entries is the closing balance.
  There are at most 500 entries in all, and no narrative is JSON-shaped: none is the text of an
  array or an object.
\<close>
theorem parseMT940_sound:
  assumes "parseMT940 text = Inr ss"
  shows "ss \<noteq> [] \<and> list_all statement_ok ss \<and> entry_count ss \<le> 500
    \<and> list_all (\<lambda>s. \<not> list_ex json_shaped (s_transactions s)) ss"
proof -
  from assms obtain fs r where r: "run_fields fs new_mt_reader = Inr r" "r_closed r" "ss = r_statements r"
    "ss \<noteq> []" "rejectJsonNarratives ss = Inr ()"
    by (auto simp: parseMT940_def bindE_eq_Inr split: if_splits)
  from run_fields_ok [OF new_reader_ok r(1)] r(2,3)
  have "list_all statement_ok ss \<and> entry_count ss \<le> 500" by (auto simp: reader_ok_def list_all_iff)
  moreover have "list_all (\<lambda>s. \<not> list_ex json_shaped (s_transactions s)) ss"
  proof -
    have "filter json_shaped (concat (map s_transactions ss)) = []"
      using r(5) by (simp add: rejectJsonNarratives_def Let_def split: if_splits)
    then have "\<forall>t \<in> set (concat (map s_transactions ss)). \<not> json_shaped t"
      by (simp add: filter_empty_conv)
    then show ?thesis by (auto simp: list_all_iff list_ex_iff)
  qed
  ultimately show ?thesis using r(4) by blast
qed

definition sample_mt940 :: string where
  "sample_mt940 = join [newline]
     ['':20:A'', '':25:NL01'', '':28C:1'', '':60F:C260701EUR1,'', '':61:260702D1,NMSCRef//B1'',
      '':86:Tea'', '':62F:C260702EUR0,'']"

definition sample_statements :: "statement list" where
  "sample_statements = (case parseMT940 sample_mt940 of Inr ss \<Rightarrow> ss | Inl _ \<Rightarrow> [])"

lemma sample_parses: "parseMT940 sample_mt940 = Inr sample_statements"
proof -
  have "case parseMT940 sample_mt940 of Inr ss \<Rightarrow> True | Inl _ \<Rightarrow> False" by code_simp
  then show ?thesis by (auto simp: sample_statements_def split: sum.splits)
qed

theorem parseMT940_sound_witness:
  "sample_statements \<noteq> [] \<and> list_all statement_ok sample_statements \<and> entry_count sample_statements \<le> 500"
  using parseMT940_sound [OF sample_parses] by blast

text \<open>
  C15. What the MT940 reader reports, for every text. It fails exactly in these cases, each with
  its own error: the file is too large; a line with content belongs to no field, and the
  error has the number of that line and the tag of the field before it; a field does not
  read, and the error has that field's tag and the number of the line it starts in, together
  with the reason; a field is refused for a reason with a code of its own, which is kept; the
  file ends without a closed statement; or narratives are JSON-shaped, and the error has their
  number. Every field before the one reported was read without an error.
\<close>
theorem parseMT940_errors_coded:
  "parseMT940 text = Inl e \<longleftrightarrow> mt_fails text e"
proof
  assume parse: "parseMT940 text = Inl e"
  show "mt_fails text e"
  proof (cases "512000 < length text")
    case True
    with parse show ?thesis by (auto simp: parseMT940_def intro: too_large)
  next
    case False
    then have small: "length text \<le> 512000" by simp
    consider "read_fields 0 [] (mt_lines text) = Inl e"
      | fs where "read_fields 0 [] (mt_lines text) = Inr fs" "run_fields fs new_mt_reader = Inl e"
      | fs r where "read_fields 0 [] (mt_lines text) = Inr fs" "run_fields fs new_mt_reader = Inr r"
          "(if r_statements r = [] \<or> \<not> r_closed r
            then Inl (StatementError (MISSING_BALANCE (if r_number r = [] then None else Some (r_number r)))
              ''Incomplete MT940 statement: opening and closing balances are required'')
            else bindE (rejectJsonNarratives (r_statements r)) (\<lambda>_. Inr (r_statements r))) = Inl e"
      using parse False by (auto simp: parseMT940_def bindE_eq_Inl simp del: read_fields.simps)
    then show ?thesis
    proof cases
      case 1
      then show ?thesis using small by (auto simp: read_fields_stray intro: stray_line [simplified])
    next
      case (2 fs)
      then obtain before f behind r x where run: "fs = before @ f # behind" "run_fields before new_mt_reader = Inr r"
        "mt_field_step (f_tag f) (f_value f) r = Inl x" "e = reported f x" by (auto simp: run_fields_error)
      from read_fields_at [OF 2(1) [unfolded run(1)]] obtain n where at: "field_at (mt_lines text) n before f" ..
      then have "f_line f = n + 1" by (simp add: field_at_def)
      with run at small show ?thesis
        by (cases x) (auto simp: reported_def intro: bad_field [simplified] refused_field)
    next
      case (3 fs r)
      show ?thesis
      proof (cases "r_statements r = [] \<or> \<not> r_closed r")
        case True
        with unfinished [OF small 3(1,2) True] 3(3) show ?thesis by simp
      next
        case False
        with 3(3) json_narrative [OF small 3(1,2) _ _ refl] show ?thesis
          by (auto simp: rejectJsonNarratives_def Let_def bindE_eq_Inl split: if_splits)
      qed
    qed
  qed
next
  have field: "run_fields (before @ f # behind) new_mt_reader = Inl (reported f x)"
    if "run_fields before new_mt_reader = Inr r" "mt_field_step (f_tag f) (f_value f) r = Inl x" for before f behind r x
    using that run_fields_error by blast
  assume "mt_fails text e"
  then show "parseMT940 text = Inl e"
  proof cases
    case (stray_line n tag)
    then have "read_fields 0 [] (mt_lines text) = Inl e" by (auto simp: read_fields_stray)
    with stray_line show ?thesis by (simp add: parseMT940_def)
  next
    case (bad_field n before f r m)
    then obtain behind where "read_fields 0 [] (mt_lines text) = Inr (before @ f # behind)" "f_line f = n + 1"
      by (auto simp: field_at_def)
    with bad_field field [OF bad_field(4,5), of behind] show ?thesis by (simp add: parseMT940_def reported_def)
  next
    case (refused_field n before f r d m)
    then obtain behind where "read_fields 0 [] (mt_lines text) = Inr (before @ f # behind)"
      by (auto simp: field_at_def)
    with refused_field field [OF refused_field(4,5), of behind] show ?thesis by (simp add: parseMT940_def reported_def)
  qed (auto simp: parseMT940_def rejectJsonNarratives_def Let_def)
qed

end
