(* ===== verification/Money_Identity.thy ===== *)
theory Money_Identity
  imports Money_Mt940
begin

text \<open>
  Import identities and content fingerprints (\<^verbatim>\<open>src/integrations/money/identity.ts\<close>), and
  the choice of the reader (\<^verbatim>\<open>statement.ts\<close>).

  Identities are JSON texts, so that they differ when their parts differ is a property of
  \<open>JSON.stringify\<close>, proved in \<^verbatim>\<open>Js_Json\<close>.
\<close>

text \<open>\<open>StatementFormat\<close>: \<open>''mt940''\<close> or \<open>''camt053''\<close>.\<close>

definition detectStatementFormat :: "string \<Rightarrow> string" where
  "detectStatementFormat text = (if starts_with ''<'' (trim_start text) then ''camt053'' else ''mt940'')"

record entry =
  en_statement :: statement
  en_row :: transaction
  en_index :: nat
  en_identity :: string
  en_fingerprint :: string
  en_reference :: string

definition statement_key :: "statement \<Rightarrow> json" where
  "statement_key s =
     JArr (map JStr [s_number s, s_start s, s_end s, s_opening s, s_closing s])"

definition fingerprint_of :: "string \<Rightarrow> statement \<Rightarrow> transaction \<Rightarrow> string" where
  "fingerprint_of fmt s row =
     fmt @ ''-content:'' @ json_text (JArr (map JStr
       [s_account s, s_currency s, tx_date row, tx_bookingDate row, tx_amount row, tx_code row,
        tx_reference row, tx_description row]))"

definition reference_of :: "transaction \<Rightarrow> string" where
  "reference_of row =
     (if tx_bankReference row \<noteq> [] \<and> tx_bankReference row \<noteq> ''NONREF''
      then tx_bankReference row else [])"

definition identity_json :: "string \<Rightarrow> statement \<Rightarrow> nat \<Rightarrow> transaction \<Rightarrow> json" where
  "identity_json fmt s index row =
     (let reference = reference_of row
      in JArr [JStr fmt, JStr (s_account s), JStr (s_currency s),
           if reference \<noteq> [] then JArr [JStr ''bank'', JStr reference]
           else JArr [JStr ''statement'', JStr (json_text (statement_key s)), JNum (int index)]])"

definition make_entry :: "string \<Rightarrow> statement \<Rightarrow> nat \<Rightarrow> transaction \<Rightarrow> entry" where
  "make_entry fmt s index row =
     \<lparr>en_statement = s, en_row = row, en_index = index,
      en_identity = json_text (identity_json fmt s index row),
      en_fingerprint = fingerprint_of fmt s row, en_reference = reference_of row\<rparr>"

text \<open>One turn of the inner loop: \<open>seen\<close> maps identities to fingerprints.\<close>

fun add_entries ::
  "(string, string) omap \<Rightarrow> entry list \<Rightarrow> entry list \<Rightarrow> money_error + (string, string) omap \<times> entry list"
where
  "add_entries seen out [] = Inr (seen, out)"
| "add_entries seen out (e # es) =
     (case oget seen (en_identity e) of
        Some f \<Rightarrow>
          if f \<noteq> en_fingerprint e
          then Inl (StatementError (CONFLICTING_REFERENCE (en_reference e))
            ''Conflicting bank transaction references in this file'')
          else Inl (StatementError (REPEATED_REFERENCE (en_reference e))
            ''Repeated bank transaction reference in this file; export non-overlapping statements'')
      | None \<Rightarrow> add_entries (oset (en_identity e) (en_fingerprint e) seen) (out @ [e]) es)"

definition statement_entries :: "string \<Rightarrow> statement \<Rightarrow> entry list" where
  "statement_entries fmt s =
     map (\<lambda>(index, row). make_entry fmt s index row) (enumerate 0 (s_transactions s))"

fun entries_from ::
  "string \<Rightarrow> (string, string) omap \<Rightarrow> entry list \<Rightarrow> statement list \<Rightarrow> money_error + entry list"
where
  "entries_from fmt seen out [] = Inr out"
| "entries_from fmt seen out (s # ss) =
     bindE (add_entries seen out (statement_entries fmt s)) (\<lambda>(seen, out). entries_from fmt seen out ss)"

definition entries :: "string \<Rightarrow> statement list \<Rightarrow> money_error + entry list" where
  "entries fmt ss = entries_from fmt [] [] ss"

definition OVERLAP_MESSAGE :: string where
  "OVERLAP_MESSAGE =
     ''This statement overlaps an earlier import without unique bank references. Use the original statement or export a non-overlapping period.''"

section \<open>Lemmas\<close>

text \<open>Every row of the file, in order.\<close>

definition all_entries :: "string \<Rightarrow> statement list \<Rightarrow> entry list" where
  "all_entries fmt ss = concat (map (statement_entries fmt) ss)"

lemma add_entries_append:
  "add_entries seen out (es @ fs) =
    bindE (add_entries seen out es) (\<lambda>(seen, out). add_entries seen out fs)"
  by (induction es arbitrary: seen out) (auto split: option.split)

lemma entries_from_all:
  "entries_from fmt seen out ss = bindE (add_entries seen out (all_entries fmt ss)) (\<lambda>(_, out). Inr out)"
proof (induction ss arbitrary: seen out)
  case (Cons s ss)
  then show ?case
    by (cases "add_entries seen out (statement_entries fmt s)") (auto simp: all_entries_def add_entries_append)
qed (simp add: all_entries_def)

definition seen_of :: "(string, string) omap \<Rightarrow> entry list \<Rightarrow> bool" where
  "seen_of seen out \<longleftrightarrow> map_of seen = map_of (rev (map (\<lambda>e. (en_identity e, en_fingerprint e)) out))"

lemma seen_of_snoc: "seen_of seen out \<Longrightarrow> seen_of (oset (en_identity e) (en_fingerprint e) seen) (out @ [e])"
  by (simp add: seen_of_def)

lemma seen_of_dom: "seen_of seen out \<Longrightarrow> oget seen i = None \<longleftrightarrow> i \<notin> en_identity ` set out"
  by (simp add: seen_of_def map_of_eq_None_iff image_image)

lemma add_entries_Inr:
  assumes "seen_of seen out" "distinct (map en_identity out)"
  shows "(\<exists>seen'. add_entries seen out es = Inr (seen', out @ es)) \<longleftrightarrow> distinct (map en_identity (out @ es))"
    and "add_entries seen out es = Inr r \<Longrightarrow> snd r = out @ es"
  using assms
proof (induction es arbitrary: seen out)
  case (Cons e es)
  {
    case 1
    show ?case
    proof (cases "en_identity e \<in> en_identity ` set out")
      case True
      with 1 seen_of_dom obtain f where "oget seen (en_identity e) = Some f" by (metis not_None_eq)
      with True show ?thesis by auto
    next
      case False
      then have "oget seen (en_identity e) = None" using seen_of_dom [OF 1(1)] by blast
      moreover have "distinct (map en_identity (out @ [e]))" using 1(2) False by auto
      ultimately show ?thesis using Cons.IH(1) [OF seen_of_snoc [OF 1(1)]] by simp
    qed
  next
    case 2
    then have new: "oget seen (en_identity e) = None"
      "add_entries (oset (en_identity e) (en_fingerprint e) seen) (out @ [e]) es = Inr r"
      by (auto split: option.splits if_splits)
    then have "distinct (map en_identity (out @ [e]))" using 2(2,3) seen_of_dom by auto
    from Cons.IH(2) [OF new(2) seen_of_snoc [OF 2(2)] this] show ?case by simp
  }
qed auto

lemma entries_Inr: "entries fmt ss = Inr es \<longleftrightarrow> es = all_entries fmt ss \<and> distinct (map en_identity es)"
proof -
  have start: "seen_of [] []" "distinct (map en_identity [])" by (simp_all add: seen_of_def)
  note r = add_entries_Inr [OF start, of "all_entries fmt ss"]
  show ?thesis
    using r(1) r(2)
    by (cases "add_entries [] [] (all_entries fmt ss)") (auto simp: entries_def entries_from_all)
qed

lemma identity_json_plain [simp]: "plain_json (identity_json fmt s i row)"
  by (simp add: identity_json_def Let_def)

lemma statement_key_plain [simp]: "plain_json (statement_key s)"
  by (simp add: statement_key_def)

lemma identity_inj:
  "json_text (identity_json fmt s i row) = json_text (identity_json fmt' s' i' row') \<longleftrightarrow>
    fmt = fmt' \<and> s_account s = s_account s' \<and> s_currency s = s_currency s'
    \<and> reference_of row = reference_of row'
    \<and> (reference_of row = [] \<longrightarrow> i = i' \<and> s_number s = s_number s' \<and> s_start s = s_start s'
        \<and> s_end s = s_end s' \<and> s_opening s = s_opening s' \<and> s_closing s = s_closing s')"
  unfolding json_text_inj [OF identity_json_plain identity_json_plain]
  by (auto simp: identity_json_def Let_def json_text_inj simp del: json_text.simps)
    (auto simp: statement_key_def)

lemma fingerprint_inj:
  "fingerprint_of fmt s row = fingerprint_of fmt s' row' \<longleftrightarrow>
    s_account s = s_account s' \<and> s_currency s = s_currency s' \<and> tx_date row = tx_date row'
    \<and> tx_bookingDate row = tx_bookingDate row' \<and> tx_amount row = tx_amount row'
    \<and> tx_code row = tx_code row' \<and> tx_reference row = tx_reference row'
    \<and> tx_description row = tx_description row'"
  unfolding fingerprint_of_def append_same_eq same_append_eq by (subst json_text_inj) auto

lemma in_all_entries:
  "e \<in> set (all_entries fmt ss) \<Longrightarrow>
    \<exists>s i. s \<in> set ss \<and> i < length (s_transactions s) \<and> e = make_entry fmt s i (s_transactions s ! i)"
  by (auto simp: all_entries_def statement_entries_def in_set_enumerate_eq) blast

text \<open>What an identity stands for: the reference, or else the position in the statement.\<close>

definition row_identity :: "entry \<Rightarrow> string \<times> string \<times> (string + nat \<times> string list)" where
  "row_identity e =
     (let s = en_statement e in
      (s_account s, s_currency s,
       if en_reference e \<noteq> [] then Inl (en_reference e)
       else Inr (en_index e, [s_number s, s_start s, s_end s, s_opening s, s_closing s])))"

lemma identity_row_identity:
  "e \<in> set (all_entries fmt ss) \<Longrightarrow> d \<in> set (all_entries fmt ss) \<Longrightarrow>
    en_identity e = en_identity d \<longleftrightarrow> row_identity e = row_identity d"
  by (auto dest!: in_all_entries simp: make_entry_def identity_inj row_identity_def Let_def)

lemma distinct_identities:
  "distinct (map en_identity (all_entries fmt ss)) \<longleftrightarrow> distinct (map row_identity (all_entries fmt ss))"
  using identity_row_identity unfolding distinct_map inj_on_def by blast

lemma oget_seen:
  "seen_of seen out \<Longrightarrow> distinct (map en_identity out) \<Longrightarrow> d \<in> set out \<Longrightarrow>
    oget seen (en_identity d) = Some (en_fingerprint d)"
proof -
  assume seen: "seen_of seen out" and dist: "distinct (map en_identity out)" and d: "d \<in> set out"
  let ?m = "rev (map (\<lambda>e. (en_identity e, en_fingerprint e)) out)"
  have "map fst ?m = rev (map en_identity out)" by (simp add: rev_map comp_def)
  with dist have "distinct (map fst ?m)" by (simp only: distinct_rev)
  moreover have "(en_identity d, en_fingerprint d) \<in> set ?m" using d by simp
  ultimately show ?thesis using seen unfolding seen_of_def by (simp only: map_of_is_SomeI)
qed

text \<open>The error of a row \<open>e\<close> that repeats the identity of an earlier row \<open>d\<close>.\<close>

definition repeat_error :: "entry \<Rightarrow> entry \<Rightarrow> money_error" where
  "repeat_error d e =
     (if en_fingerprint d \<noteq> en_fingerprint e
      then StatementError (CONFLICTING_REFERENCE (en_reference e))
        ''Conflicting bank transaction references in this file''
      else StatementError (REPEATED_REFERENCE (en_reference e))
        ''Repeated bank transaction reference in this file; export non-overlapping statements'')"

lemma add_entries_Inl:
  assumes "seen_of seen out" "distinct (map en_identity out)" "add_entries seen out es = Inl err"
  shows "\<exists>pre e post d. out @ es = pre @ e # post \<and> distinct (map en_identity pre) \<and> d \<in> set pre
    \<and> en_identity d = en_identity e \<and> err = repeat_error d e"
  using assms
proof (induction es arbitrary: seen out)
  case (Cons e es)
  show ?case
  proof (cases "oget seen (en_identity e)")
    case None
    with Cons.prems have "add_entries (oset (en_identity e) (en_fingerprint e) seen) (out @ [e]) es = Inl err"
      "distinct (map en_identity (out @ [e]))"
      using seen_of_dom by auto
    from Cons.IH [OF seen_of_snoc [OF Cons.prems(1)] this(2,1)] show ?thesis by simp
  next
    case (Some f)
    then have "en_identity e \<in> en_identity ` set out"
      using seen_of_dom [OF Cons.prems(1), of "en_identity e"] by auto
    then obtain d where d: "d \<in> set out" "en_identity d = en_identity e" by auto
    with oget_seen [OF Cons.prems(1,2), of d] Some have "f = en_fingerprint d" by simp
    then have "err = repeat_error d e"
      using Some Cons.prems(3) by (simp add: repeat_error_def split: if_splits)
    with d Cons.prems(2) show ?thesis
      by (intro exI [of _ out] exI [of _ e] exI [of _ es] exI [of _ d]) simp
  qed
qed simp

lemma entries_fails:
  assumes "entries fmt ss = Inl err"
  shows "\<exists>pre e post d. all_entries fmt ss = pre @ e # post \<and> distinct (map row_identity pre) \<and> d \<in> set pre
    \<and> row_identity d = row_identity e \<and> err = repeat_error d e"
proof -
  have start: "seen_of [] []" "distinct (map en_identity [])" by (simp_all add: seen_of_def)
  from assms have "add_entries [] [] (all_entries fmt ss) = Inl err"
    by (auto simp: entries_def entries_from_all bindE_eq_Inl)
  from add_entries_Inl [OF start this] obtain pre e post d where
    r: "all_entries fmt ss = pre @ e # post" "distinct (map en_identity pre)" "d \<in> set pre" "en_identity d = en_identity e"
      "err = repeat_error d e" by auto
  then have "distinct (map row_identity pre)"
    using identity_row_identity [of _ fmt ss] by (auto simp: distinct_map inj_on_def)
  moreover have "row_identity d = row_identity e" using r identity_row_identity [of d fmt ss e] by simp
  ultimately show ?thesis using r by auto
qed

section \<open>Properties\<close>

text \<open>
  C16. Identities tell rows apart. The rows of a file get entries, in order, exactly when no
  two of them share their account, currency and bank reference (or, without a reference,
  their statement and position): the JSON text of an identity never confuses two rows.
  Otherwise the file is refused for the first row that repeats an identity (the rows before
  it have different ones), as a conflict when its content differs from the earlier row's and
  as a repetition when it does not.
\<close>
theorem entries_correct:
  "case entries fmt ss of
     Inr es \<Rightarrow> es = all_entries fmt ss \<and> distinct (map row_identity es)
   | Inl err \<Rightarrow> \<exists>pre e post d. all_entries fmt ss = pre @ e # post \<and> distinct (map row_identity pre) \<and> d \<in> set pre
       \<and> row_identity d = row_identity e \<and> err = repeat_error d e"
proof (cases "entries fmt ss")
  case (Inr es)
  then show ?thesis using entries_Inr [of fmt ss es] distinct_identities by auto
next
  case (Inl err)
  then show ?thesis using entries_fails [OF Inl] by simp
qed

end
