(* ===== verification/Money_Totals.thy ===== *)
theory Money_Totals
  imports Money_Amounts
begin

text \<open>
  Sums over transactions: the totals per account and currency, the net per currency and the
  days of \<^verbatim>\<open>src/integrations/money/app/amounts.ts\<close>, over the rows of \<^verbatim>\<open>app/rows.ts\<close>.
  A \<open>Map\<close> is grouped into as in \<^verbatim>\<open>Js_Group\<close>; that every entry holds the sum over its rows
  is the \<open>summing\<close> interface, interpreted for each kind of entry.
\<close>

record txn =
  subject :: string
  account :: string
  currency :: string
  amount :: string
  valueDate :: string
  bookingDate :: string
  description :: string
  reference :: string
  txn_code :: string
  statement :: string
  sourceId :: string
  fingerprint :: string
  format :: "string option"
  category :: string
  note_text :: string

record total_entry =
  e_account :: string
  e_currency :: string
  e_in :: int
  e_out :: int
  e_count :: nat

record totals_row =
  t_account :: string
  t_currency :: string
  t_in :: string
  t_out :: string
  t_net :: string
  t_count :: nat

definition totals_key :: "txn \<Rightarrow> string" where
  "totals_key row = account row @ [char_of (0 :: nat)] @ currency row"

definition new_total :: "txn \<Rightarrow> total_entry" where
  "new_total row =
     \<lparr>e_account = account row, e_currency = currency row, e_in = 0, e_out = 0, e_count = 0\<rparr>"

definition add_total :: "txn \<Rightarrow> total_entry \<Rightarrow> total_entry option" where
  "add_total row entry =
     (case units (amount row) of
        None \<Rightarrow> None
      | Some val \<Rightarrow>
          let entry = (if val < 0 then entry\<lparr>e_out := e_out entry + val\<rparr>
                       else entry\<lparr>e_in := e_in entry + val\<rparr>)
          in Some (entry\<lparr>e_count := e_count entry + 1\<rparr>))"

definition total_of :: "total_entry \<Rightarrow> totals_row" where
  "total_of e =
     \<lparr>t_account = e_account e, t_currency = e_currency e, t_in = fromUnits (e_in e),
      t_out = fromUnits (e_out e), t_net = fromUnits (e_in e + e_out e), t_count = e_count e\<rparr>"

definition totals :: "txn list \<Rightarrow> totals_row list option" where
  "totals rows = map_option (map (total_of \<circ> snd)) (group_into totals_key new_total add_total [] rows)"

text \<open>\<open>(map.get(currency) ?? 0n) + units(amount)\<close>\<close>

definition add_currency :: "txn \<Rightarrow> int \<Rightarrow> int option" where
  "add_currency row acc = map_option (\<lambda>n. acc + n) (units (amount row))"

definition sumByCurrency :: "txn list \<Rightarrow> (string \<times> string) list option" where
  "sumByCurrency rows =
     map_option (\<lambda>m. map (\<lambda>(c, n). (c, fromUnits n)) (js_sort (\<lambda>a b. cmp_of (fst a) (fst b)) m))
       (group_into currency (\<lambda>_. 0) add_currency [] rows)"

record day_group =
  date :: string
  rows :: "txn list"
  net :: "(string \<times> string) list"

definition add_day :: "txn \<Rightarrow> txn list \<Rightarrow> txn list option" where
  "add_day row rs = Some (rs @ [row])"

definition days_map :: "txn list \<Rightarrow> (string, txn list) omap" where
  "days_map rs = the (group_into bookingDate (\<lambda>_. []) add_day [] rs)"

fun map_opt :: "('a \<Rightarrow> 'b option) \<Rightarrow> 'a list \<Rightarrow> 'b list option" where
  "map_opt f [] = Some []"
| "map_opt f (x # xs) =
     (case f x of None \<Rightarrow> None | Some y \<Rightarrow> map_option (\<lambda>ys. y # ys) (map_opt f xs))"

definition groupByDay :: "txn list \<Rightarrow> day_group list option" where
  "groupByDay rs =
     map_opt (\<lambda>(d, list). map_option (\<lambda>n. \<lparr>date = d, rows = list, net = n\<rparr>) (sumByCurrency list))
       (js_sort (\<lambda>a b. cmp_of (fst b) (fst a)) (days_map rs))"

section \<open>Lemmas\<close>

definition money :: "txn \<Rightarrow> int" where
  "money row = (case units (amount row) of None \<Rightarrow> 0 | Some n \<Rightarrow> n)"

definition good_amounts :: "txn list \<Rightarrow> bool" where
  "good_amounts rs = list_all (\<lambda>r. units (amount r) \<noteq> None) rs"

interpretation moved_in: summing new_total add_total e_in "\<lambda>r. max 0 (money r)"
  by unfold_locales (auto simp: new_total_def add_total_def money_def Let_def split: option.splits if_splits)

interpretation moved_out: summing new_total add_total e_out "\<lambda>r. min 0 (money r)"
  by unfold_locales (auto simp: new_total_def add_total_def money_def Let_def split: option.splits if_splits)

interpretation counted: summing new_total add_total "\<lambda>e. int (e_count e)" "\<lambda>r. 1"
  by unfold_locales (auto simp: new_total_def add_total_def money_def Let_def split: option.splits if_splits)

interpretation by_currency: summing "\<lambda>_. 0" add_currency "\<lambda>n. n" money
  by unfold_locales (auto simp: add_currency_def money_def)

interpretation newest_day: comparator "\<lambda>a b. cmp_of (fst b :: string) (fst a)" "\<lambda>_. True"
  by unfold_locales (auto simp: cmp_of_def split: if_splits)

interpretation currency_code: comparator "\<lambda>a b. cmp_of (fst a :: string) (fst b)" "\<lambda>_. True"
  by unfold_locales (auto simp: cmp_of_def split: if_splits)

lemma good_add_total: "good_amounts rs \<Longrightarrow> \<forall>r \<in> set rs. \<forall>e. add_total r e \<noteq> None"
  by (auto simp: good_amounts_def list_all_iff add_total_def Let_def split: option.split)

lemma good_add_currency: "good_amounts rs \<Longrightarrow> \<forall>r \<in> set rs. \<forall>e. add_currency r e \<noteq> None"
  by (auto simp: good_amounts_def list_all_iff add_currency_def)

lemma sum_units_total:
  "map units as = map Some ns \<Longrightarrow> sum_units acc as = Some (acc + sum_list ns)"
  by (induction as arbitrary: ns acc) (auto simp: Cons_eq_map_conv map_eq_Cons_conv)

lemma accumulate_pair:
  "accumulate new_total add_total (Some e) rs = Some e' \<Longrightarrow>
    \<forall>r \<in> set rs. \<forall>x. add_total r x \<noteq> None \<Longrightarrow>
    e_account e' = e_account e \<and> e_currency e' = e_currency e"
proof (induction rs arbitrary: e)
  case (Cons r rs)
  then have "add_total r e \<noteq> None" by auto
  then obtain x where x: "add_total r e = Some x" by (cases "add_total r e") auto
  then have "e_account x = e_account e \<and> e_currency x = e_currency e"
    by (auto simp: add_total_def Let_def split: option.splits if_splits)
  with Cons x show ?case by simp
qed simp

lemma total_entry_pair:
  assumes "group_into totals_key new_total add_total [] rs = Some m" "oget m k = Some e"
    and "good_amounts rs"
  shows "\<exists>r \<in> set rs. totals_key r = k \<and> e_account e = account r \<and> e_currency e = currency r"
proof -
  have acc: "accumulate new_total add_total None (filter (\<lambda>r. totals_key r = k) rs) = Some e"
    using oget_group_into [OF assms(1), of k] assms(2) by simp
  then obtain r rs' where rs: "filter (\<lambda>r. totals_key r = k) rs = r # rs'"
    by (cases "filter (\<lambda>r. totals_key r = k) rs") auto
  then have "set (r # rs') \<subseteq> {r \<in> set rs. totals_key r = k}" by (metis set_filter subset_refl)
  moreover from this have "\<forall>q \<in> set (r # rs'). \<forall>x. add_total q x \<noteq> None"
    using good_add_total [OF assms(3)] by auto
  moreover have "accumulate new_total add_total (Some (new_total r)) (r # rs') = Some e"
    using acc rs by simp
  ultimately show ?thesis using accumulate_pair [of "new_total r" "r # rs'" e]
    by (auto simp: new_total_def)
qed

text \<open>The key determines account and currency, as long as no account contains a NUL.\<close>

definition no_nul :: "txn \<Rightarrow> bool" where
  "no_nul r \<longleftrightarrow> char_of (0 :: nat) \<notin> set (account r)"

lemma totals_key_inj:
  assumes "no_nul r" "no_nul q"
  shows "totals_key r = totals_key q \<longleftrightarrow> account r = account q \<and> currency r = currency q"
proof -
  let ?z = "char_of (0 :: nat)"
  have split: "takeWhile (\<lambda>c. c \<noteq> ?z) (a @ ?z # b) = a" "dropWhile (\<lambda>c. c \<noteq> ?z) (a @ ?z # b) = ?z # b"
    if "?z \<notin> set a" for a b :: string
    using that by (induction a) auto
  show ?thesis using split [of "account r" "currency r"] split [of "account q" "currency q"] assms
    unfolding no_nul_def totals_key_def by (metis append_Cons append_Nil list.inject)
qed

definition rows_of_pair :: "string \<Rightarrow> string \<Rightarrow> txn list \<Rightarrow> txn list" where
  "rows_of_pair a c rs = filter (\<lambda>r. account r = a \<and> currency r = c) rs"

lemma totals_entries:
  assumes good: "good_amounts rs" and nul: "\<forall>r \<in> set rs. no_nul r"
  shows "\<exists>m. group_into totals_key new_total add_total [] rs = Some m
    \<and> map (\<lambda>(k, e). (e_account e, e_currency e)) m = first_seen (map (\<lambda>r. (account r, currency r)) rs)
    \<and> (\<forall>(k, e) \<in> set m. let qs = rows_of_pair (e_account e) (e_currency e) rs in
        e_in e = sum_list (map (\<lambda>r. max 0 (money r)) qs)
        \<and> e_out e = sum_list (map (\<lambda>r. min 0 (money r)) qs) \<and> e_count e = length qs)"
proof -
  from group_into_total [OF good_add_total [OF good]]
  obtain m where m: "group_into totals_key new_total add_total [] rs = Some m" by blast
  note keys = group_into_keys [OF m]
  have pair: "\<exists>r \<in> set rs. totals_key r = k \<and> e_account e = account r \<and> e_currency e = currency r"
    if "(k, e) \<in> set m" for k e
    using total_entry_pair [OF m] that keys(3) good by blast
  have firsts: "first_seen (map totals_key qs) =
      map (\<lambda>p. fst p @ [char_of (0 :: nat)] @ snd p) (first_seen (map (\<lambda>r. (account r, currency r)) qs))"
    if "set qs \<subseteq> set rs" for qs
    using that
  proof (induction qs rule: rev_induct)
    case (snoc q qs)
    have "totals_key q \<in> totals_key ` set qs \<longleftrightarrow>
        (account q, currency q) \<in> (\<lambda>r. (account r, currency r)) ` set qs"
    proof -
      have "totals_key q = totals_key r \<longleftrightarrow> account q = account r \<and> currency q = currency r"
        if "r \<in> set qs" for r
        using that snoc.prems nul by (intro totals_key_inj) auto
      then show ?thesis by (auto simp: image_iff)
    qed
    with snoc show ?case by (simp add: totals_key_def)
  qed simp
  have "map (\<lambda>(k, e). (e_account e, e_currency e)) m
      = map (\<lambda>k. (takeWhile (\<lambda>c. c \<noteq> char_of (0 :: nat)) k, tl (dropWhile (\<lambda>c. c \<noteq> char_of (0 :: nat)) k))) (okeys m)"
    unfolding map_map
  proof (rule map_cong [OF refl])
    fix ke assume ke: "ke \<in> set m"
    obtain k e where [simp]: "ke = (k, e)" by (cases ke)
    from pair [of k e] ke obtain r where r: "r \<in> set rs" "k = totals_key r"
      "e_account e = account r" "e_currency e = currency r" by auto
    have "char_of (0 :: nat) \<notin> set (account r)" using nul r(1) by (simp add: no_nul_def)
    then show "(case ke of (k, e) \<Rightarrow> (e_account e, e_currency e)) =
      ((\<lambda>k. (takeWhile (\<lambda>c. c \<noteq> char_of (0 :: nat)) k, tl (dropWhile (\<lambda>c. c \<noteq> char_of (0 :: nat)) k))) \<circ> fst) ke"
      using r by (simp add: totals_key_def takeWhile_append dropWhile_append)
  qed
  also have "\<dots> = map (\<lambda>p. p) (first_seen (map (\<lambda>r. (account r, currency r)) rs))"
    unfolding keys(1) firsts [OF subset_refl] map_map
  proof (rule map_cong [OF refl])
    fix p assume "p \<in> set (first_seen (map (\<lambda>r. (account r, currency r)) rs))"
    then obtain r where "r \<in> set rs" "p = (account r, currency r)" by auto
    with nul have "char_of (0 :: nat) \<notin> set (fst p)" by (simp add: no_nul_def)
    then show "((\<lambda>k. (takeWhile (\<lambda>c. c \<noteq> char_of (0 :: nat)) k, tl (dropWhile (\<lambda>c. c \<noteq> char_of (0 :: nat)) k)))
        \<circ> (\<lambda>p. fst p @ [char_of (0 :: nat)] @ snd p)) p = p"
      by (simp add: takeWhile_append dropWhile_append)
  qed
  finally have names: "map (\<lambda>(k, e). (e_account e, e_currency e)) m
      = first_seen (map (\<lambda>r. (account r, currency r)) rs)" by simp
  have sums: "let qs = rows_of_pair (e_account e) (e_currency e) rs in
      e_in e = sum_list (map (\<lambda>r. max 0 (money r)) qs)
      \<and> e_out e = sum_list (map (\<lambda>r. min 0 (money r)) qs) \<and> e_count e = length qs"
    if ke: "(k, e) \<in> set m" for k e
  proof -
    from pair [OF ke] obtain r where r: "r \<in> set rs" "totals_key r = k"
      "e_account e = account r" "e_currency e = currency r" by blast
    have "totals_key q = k \<longleftrightarrow> account q = e_account e \<and> currency q = e_currency e" if "q \<in> set rs" for q
      using totals_key_inj [of q r] nul that r by auto
    then have qs: "filter (\<lambda>q. totals_key q = k) rs = rows_of_pair (e_account e) (e_currency e) rs"
      unfolding rows_of_pair_def by (intro filter_cong) auto
    have e: "oget m k = Some e" using ke keys(3) by blast
    note ok = good_add_total [OF good]
    from moved_in.group_total [OF m e ok] moved_out.group_total [OF m e ok] counted.group_total [OF m e ok]
    show ?thesis unfolding qs Let_def by (simp add: sum_list_triv)
  qed
  from m names sums show ?thesis by (intro exI [of _ m]) auto
qed

lemma currency_sums:
  assumes "good_amounts rs"
  shows "\<exists>m. sumByCurrency rs = Some (map (\<lambda>(c, n). (c, fromUnits n)) m)
    \<and> map fst m = js_sort cmp_of (first_seen (map currency rs))
    \<and> (\<forall>(c, n) \<in> set m. n = sum_list (map money (filter (\<lambda>r. currency r = c) rs)))"
proof -
  from group_into_total [OF good_add_currency [OF assms]]
  obtain m where m: "group_into currency (\<lambda>_. 0) add_currency [] rs = Some m" by blast
  note keys = group_into_keys [OF m]
  let ?m = "js_sort (\<lambda>a b. cmp_of (fst a) (fst b)) m"
  have "map fst (insort_cmp (\<lambda>a b. cmp_of (fst a) (fst b)) x xs) = insort_cmp cmp_of (fst x) (map fst xs)"
    for x :: "string \<times> int" and xs
    by (induction xs) auto
  then have "map fst (js_sort (\<lambda>a b. cmp_of (fst a) (fst b)) xs) = js_sort cmp_of (map fst xs)"
    for xs :: "(string \<times> int) list"
    by (induction xs) auto
  then have "map fst ?m = js_sort cmp_of (first_seen (map currency rs))" using keys(1) by simp
  moreover have "\<forall>(c, n) \<in> set ?m. n = sum_list (map money (filter (\<lambda>r. currency r = c) rs))"
  proof -
    have "n = sum_list (map money (filter (\<lambda>r. currency r = c) rs))" if "(c, n) \<in> set m" for c n
      using by_currency.group_total [OF m _ good_add_currency [OF assms]] that keys(3) by blast
    then show ?thesis by auto
  qed
  ultimately show ?thesis using m by (intro exI [of _ ?m]) (simp add: sumByCurrency_def)
qed

lemma map_opt_Some:
  "(\<And>x. x \<in> set xs \<Longrightarrow> f x = Some (g x)) \<Longrightarrow> map_opt f xs = Some (map g xs)"
  by (induction xs) simp_all

lemma days_entries:
  shows "okeys (days_map rs) = first_seen (map bookingDate rs)"
    and "(d, list) \<in> set (days_map rs) \<Longrightarrow> list = filter (\<lambda>r. bookingDate r = d) rs"
proof -
  have "\<exists>m. group_into bookingDate (\<lambda>_. []) add_day [] rs = Some m"
    by (rule group_into_total) (simp add: add_day_def)
  then have m: "group_into bookingDate (\<lambda>_. []) add_day [] rs = Some (days_map rs)"
    by (auto simp: days_map_def)
  note keys = group_into_keys [OF m]
  from keys(1) show "okeys (days_map rs) = first_seen (map bookingDate rs)" .
  have acc: "accumulate (\<lambda>_. []) add_day (Some xs) qs = Some (xs @ qs)" for xs qs
    by (induction qs arbitrary: xs) (simp_all add: add_day_def)
  assume "(d, list) \<in> set (days_map rs)"
  then have "oget (days_map rs) d = Some list" using keys(3) by blast
  with oget_group_into [OF m, of d]
  have a: "accumulate (\<lambda>_. []) add_day None (filter (\<lambda>r. bookingDate r = d) rs) = Some list" by simp
  show "list = filter (\<lambda>r. bookingDate r = d) rs"
  proof (cases "filter (\<lambda>r. bookingDate r = d) rs")
    case (Cons q qs)
    with a acc [of "[q]" qs] show ?thesis by (simp add: add_day_def)
  qed (use a in simp)
qed

lemma mset_parts:
  "distinct ks \<Longrightarrow> mset (concat (map (\<lambda>k. filter (\<lambda>r. f r = k) rs) ks)) = mset (filter (\<lambda>r. f r \<in> set ks) rs)"
proof (induction ks)
  case (Cons k ks)
  have "mset (filter (\<lambda>r. f r = k \<or> f r \<in> set ks) qs)
      = mset (filter (\<lambda>r. f r = k) qs) + mset (filter (\<lambda>r. f r \<in> set ks) qs)" for qs
    using Cons.prems by (induction qs) auto
  with Cons show ?case by simp
qed simp

lemma good_filter: "good_amounts rs \<Longrightarrow> good_amounts (filter P rs)"
  by (auto simp: good_amounts_def list_all_iff)

section \<open>Properties\<close>

text \<open>
  C12. Amounts are exact. Every whole number of \<open>1e-5\<close> units has a text that \<open>units\<close> reads
  back, and the readers' \<open>decimalOf\<close> writes the same text as the application's \<open>fromUnits\<close>.
\<close>
theorem amount_roundtrip: "units (fromUnits v) = Some v \<and> decimalOf v = fromUnits v"
  by (simp add: units_fromUnits decimalOf_fromUnits)

text \<open>
  The amounts of MT940 that are accepted, and their values. \<open>decimal\<close> accepts exactly one
  to fifteen digits, a comma and up to five more digits, and its result is the text of that
  number of units (the fraction padded to five digits), with the sign asked for.
\<close>
lemma decimal_exact:
  "decimal raw negative = Inr s \<longleftrightarrow>
    (\<exists>w f. raw = w @ CHR '','' # f \<and> digits w \<and> digits f \<and> 1 \<le> length w \<and> length w \<le> 15
      \<and> length f \<le> 5
      \<and> s = fromUnits ((if negative then - 1 else 1)
          * int (dec_val w * 100000 + dec_val (pad_end 5 (CHR ''0'') f))))"
proof
  assume s: "decimal raw negative = Inr s"
  then have "is_mt940_amount raw" by (auto simp: decimal_def split: if_splits)
  then obtain w f where wf: "raw = w @ CHR '','' # f" "digits w" "digits f" "1 \<le> length w"
    "length w \<le> 15" "length f \<le> 5" unfolding is_mt940_amount_iff by blast
  from decimal_text [OF wf(2-6), of negative] s wf
  show "\<exists>w f. raw = w @ CHR '','' # f \<and> digits w \<and> digits f \<and> 1 \<le> length w \<and> length w \<le> 15
      \<and> length f \<le> 5
      \<and> s = fromUnits ((if negative then - 1 else 1)
          * int (dec_val w * 100000 + dec_val (pad_end 5 (CHR ''0'') f)))"
    by (intro exI [of _ w] exI [of _ f]) simp
next
  assume "\<exists>w f. raw = w @ CHR '','' # f \<and> digits w \<and> digits f \<and> 1 \<le> length w \<and> length w \<le> 15
      \<and> length f \<le> 5
      \<and> s = fromUnits ((if negative then - 1 else 1)
          * int (dec_val w * 100000 + dec_val (pad_end 5 (CHR ''0'') f)))"
  then show "decimal raw negative = Inr s" using decimal_text by blast
qed

text \<open>
  C13. Totals per account and currency. When every amount is readable and no account contains
  a NUL (the separator of the key), the totals list each pair once, in the order in which
  the pairs are first seen, with the exact sums of its rows' incoming and outgoing money,
  their net and their number.
\<close>
theorem totals_correct:
  assumes "good_amounts rs" "\<forall>r \<in> set rs. no_nul r"
  shows "\<exists>ts. totals rs = Some ts
    \<and> map (\<lambda>t. (t_account t, t_currency t)) ts = first_seen (map (\<lambda>r. (account r, currency r)) rs)
    \<and> (\<forall>t \<in> set ts. let qs = rows_of_pair (t_account t) (t_currency t) rs in
        units (t_in t) = Some (sum_list (map (\<lambda>r. max 0 (money r)) qs))
        \<and> units (t_out t) = Some (sum_list (map (\<lambda>r. min 0 (money r)) qs))
        \<and> units (t_net t) = Some (sum_list (map money qs))
        \<and> t_count t = length qs)"
proof -
  from totals_entries [OF assms] obtain m where
    m: "group_into totals_key new_total add_total [] rs = Some m" and
    names: "map (\<lambda>(k, e). (e_account e, e_currency e)) m = first_seen (map (\<lambda>r. (account r, currency r)) rs)" and
    sums: "\<forall>(k, e) \<in> set m. let qs = rows_of_pair (e_account e) (e_currency e) rs in
        e_in e = sum_list (map (\<lambda>r. max 0 (money r)) qs)
        \<and> e_out e = sum_list (map (\<lambda>r. min 0 (money r)) qs) \<and> e_count e = length qs"
    by blast
  have net: "sum_list (map (\<lambda>r. max 0 (money r)) qs) + sum_list (map (\<lambda>r. min 0 (money r)) qs)
      = sum_list (map money qs)" for qs
    by (induction qs) auto
  have "totals rs = Some (map (total_of \<circ> snd) m)" using m by (simp add: totals_def)
  moreover have "map (\<lambda>t. (t_account t, t_currency t)) (map (total_of \<circ> snd) m)
      = first_seen (map (\<lambda>r. (account r, currency r)) rs)"
    unfolding names [symmetric] by (simp add: total_of_def split_beta comp_def)
  ultimately show ?thesis using sums
    by (intro exI [of _ "map (total_of \<circ> snd) m"])
      (auto simp: total_of_def Let_def units_fromUnits net split_beta)
qed

definition txn_of :: "string \<Rightarrow> string \<Rightarrow> string \<Rightarrow> string \<Rightarrow> txn" where
  "txn_of a c d n =
     \<lparr>subject = [], account = a, currency = c, amount = n, valueDate = d, bookingDate = d,
      description = [], reference = [], txn_code = [], statement = [], sourceId = [],
      fingerprint = [], format = None, category = [], note_text = []\<rparr>"

lemma sample_zeros: "replicate 4 (CHR ''0'') = ''0000''" "replicate 5 (CHR ''0'') = ''00000''"
  by (simp_all add: eval_nat_numeral)

lemma sample_units: "units ''-8.5'' = Some (- 850000)" "units ''10'' = Some 1000000"
  using units_text(2) [of "''8''" "''5''"] units_text(1) [of "''10''" "[]"]
  by (simp_all add: is_digit_def code_def pad_end_def dec_val_def digit_val_def sample_zeros)

theorem totals_correct_witness:
  "\<exists>ts. totals [txn_of ''A'' ''EUR'' ''2026-07-01'' ''-8.5'', txn_of ''A'' ''EUR'' ''2026-07-02'' ''10''] = Some ts
    \<and> map (\<lambda>t. (t_account t, t_currency t)) ts = [(''A'', ''EUR'')]"
proof -
  have good: "good_amounts [txn_of ''A'' ''EUR'' ''2026-07-01'' ''-8.5'', txn_of ''A'' ''EUR'' ''2026-07-02'' ''10'']"
    by (simp add: good_amounts_def txn_of_def sample_units)
  have nul: "\<forall>r \<in> set [txn_of ''A'' ''EUR'' ''2026-07-01'' ''-8.5'', txn_of ''A'' ''EUR'' ''2026-07-02'' ''10''].
      no_nul r"
    by (simp add: no_nul_def txn_of_def char_of_def)
  have "first_seen [(''A'', ''EUR''), (''A'', ''EUR'')] = [(''A'', ''EUR'')]" by code_simp
  with totals_correct [OF good nul] show ?thesis by (auto simp: txn_of_def)
qed

text \<open>
  The ledger by day. The days come newest first, each day once; a day holds the rows
  booked on it, in their order; together the days hold every row once; and a day's net per
  currency is the exact sum of its rows' amounts.
\<close>
lemma groupByDay_correct:
  assumes "good_amounts rs"
  shows "\<exists>ds. groupByDay rs = Some ds
    \<and> sorted_wrt (\<lambda>d e. date e < date d) ds
    \<and> mset (concat (map rows ds)) = mset rs
    \<and> (\<forall>d \<in> set ds. rows d = filter (\<lambda>r. bookingDate r = date d) rs
        \<and> (\<forall>(c, n) \<in> set (net d).
              units n = Some (sum_list (map money (filter (\<lambda>r. currency r = c) (rows d))))))"
proof -
  define ms where "ms = js_sort (\<lambda>a b. cmp_of (fst b) (fst a)) (days_map rs)"
  have parts: "list = filter (\<lambda>r. bookingDate r = d) rs" if "(d, list) \<in> set ms" for d list
    using days_entries(2) that by (simp add: ms_def)
  define day where "day = (\<lambda>(d, list). \<lparr>date = d, rows = list, net = the (sumByCurrency list)\<rparr>)"
  have total: "\<exists>n. sumByCurrency (filter P rs) = Some n" for P
    using currency_sums [OF good_filter [OF assms]] by blast
  have "groupByDay rs = Some (map day ms)"
    unfolding groupByDay_def ms_def [symmetric]
  proof (rule map_opt_Some)
    fix x assume ms: "x \<in> set ms"
    obtain d list where d: "x = (d, list)" by (cases x)
    note x = d parts [OF ms [unfolded d]]
    from total [of "\<lambda>r. bookingDate r = d"] obtain n where "sumByCurrency list = Some n"
      unfolding x(2) by blast
    then show "(case x of (d, list) \<Rightarrow> map_option (\<lambda>n. \<lparr>date = d, rows = list, net = n\<rparr>) (sumByCurrency list))
        = Some (day x)"
      unfolding x(1) day_def by simp
  qed
  moreover have "sorted_wrt (\<lambda>d e. date e < date d) (map day ms)"
  proof -
    have "sorted_wrt (\<lambda>a b. cmp_of (fst b) (fst a) \<le> 0) ms"
      unfolding ms_def by (rule newest_day.sort_sorted) simp
    moreover have "distinct (map fst ms)"
      using distinct_first_seen [of "map bookingDate rs"] unfolding ms_def
      by (metis days_entries(1) mset_eq_imp_distinct_iff mset_js_sort mset_map)
    ultimately have "sorted_wrt (\<lambda>a b. fst b < fst a) ms"
      by (induction ms) (force simp: cmp_of_def split: if_splits)+
    then show ?thesis by (simp add: sorted_wrt_map day_def split_beta)
  qed
  moreover have "mset (concat (map rows (map day ms))) = mset rs"
  proof -
    have "map rows (map day ms) = map (\<lambda>k. filter (\<lambda>r. bookingDate r = k) rs) (map fst ms)"
      using parts by (auto simp: day_def)
    moreover have "distinct (map fst ms)" "set (map fst ms) = bookingDate ` set rs"
    proof -
      have "mset (map fst ms) = mset (okeys (days_map rs))" by (simp add: ms_def)
      with days_entries(1) have "mset (map fst ms) = mset (first_seen (map bookingDate rs))" by simp
      then show "distinct (map fst ms)" "set (map fst ms) = bookingDate ` set rs"
        using mset_eq_imp_distinct_iff mset_eq_setD by fastforce+
    qed
    moreover have "filter (\<lambda>r. bookingDate r \<in> bookingDate ` set rs) rs = rs"
      by (simp add: filter_id_conv)
    ultimately show ?thesis using mset_parts [of "map fst ms" bookingDate rs] by (simp only:)
  qed
  moreover have "\<forall>d \<in> set (map day ms). rows d = filter (\<lambda>r. bookingDate r = date d) rs
        \<and> (\<forall>(c, n) \<in> set (net d).
              units n = Some (sum_list (map money (filter (\<lambda>r. currency r = c) (rows d)))))"
  proof -
    have net: "\<forall>(c, n) \<in> set (the (sumByCurrency (filter P rs))).
        units n = Some (sum_list (map money (filter (\<lambda>r. currency r = c) (filter P rs))))" for P
    proof -
      from currency_sums [OF good_filter [OF assms, of P]] obtain m where
        m: "sumByCurrency (filter P rs) = Some (map (\<lambda>(c, n). (c, fromUnits n)) m)"
        "\<forall>(c, n) \<in> set m. n = sum_list (map money (filter (\<lambda>r. currency r = c) (filter P rs)))"
        by blast
      have "units (fromUnits n) = Some (sum_list (map money (filter (\<lambda>r. currency r = c) (filter P rs))))"
        if "(c, n) \<in> set m" for c n
        using m(2) that units_fromUnits by fastforce
      then show ?thesis unfolding m(1) by (auto simp del: filter_filter)
    qed
    have "net (day (d, list)) = the (sumByCurrency list)" "rows (day (d, list)) = list"
      "date (day (d, list)) = d" for d list by (simp_all add: day_def)
    note day = this
    have day_net: "\<forall>(c, n) \<in> set (the (sumByCurrency list)).
        units n = Some (sum_list (map money (filter (\<lambda>r. currency r = c) list)))"
      if "(d, list) \<in> set ms" for d list
      using net [of "\<lambda>r. bookingDate r = d"] parts [OF that] by simp
    show ?thesis
    proof (rule ballI)
      fix x assume "x \<in> set (map day ms)"
      then obtain d list where x: "x = day (d, list)" "(d, list) \<in> set ms" by auto
      show "rows x = filter (\<lambda>r. bookingDate r = date x) rs \<and> (\<forall>(c, n) \<in> set (net x).
          units n = Some (sum_list (map money (filter (\<lambda>r. currency r = c) (rows x)))))"
        unfolding x(1) day using parts [OF x(2)] day_net [OF x(2)] by (rule conjI)
    qed
  qed
  ultimately show ?thesis by blast
qed

end
