(* ===== verification/Money_Check.thy ===== *)
theory Money_Check
  imports Money_Identity Money_Totals
begin

text \<open>
  The preview of a statement file against the table
  (\<^verbatim>\<open>src/integrations/money/app/check.ts\<close>): which rows are new, which were imported
  before, and which block the import.
\<close>

record file_row =
  fr_date :: string
  fr_account :: string
  fr_currency :: string
  fr_amount :: string
  fr_description :: string
  fr_reference :: string

record changed_row =
  ch_mine :: txn
  ch_file :: file_row
  ch_fields :: "string list"

datatype problem_code = Coded statement_error | CHANGED_TRANSACTION | UNKNOWN_PROBLEM

record problem =
  pr_code :: problem_code
  pr_message :: string
  pr_changed :: "changed_row option"
  pr_count :: "nat option"

record preview =
  pv_format :: string
  pv_statements :: "statement list"
  pv_fresh :: "file_row list"
  pv_already :: "file_row list"
  pv_withoutReference :: nat

definition CAMT053_MAX_BYTES :: nat where "CAMT053_MAX_BYTES = 5000000"

definition simple_problem :: "problem_code \<Rightarrow> string \<Rightarrow> problem" where
  "simple_problem c m = \<lparr>pr_code = c, pr_message = m, pr_changed = None, pr_count = None\<rparr>"

fun isBlocked :: "problem \<Rightarrow> bool" where
  "isBlocked p =
     (case pr_code p of
        CHANGED_TRANSACTION \<Rightarrow> True
      | Coded (OVERLAP_WITHOUT_REFERENCES _ _ _ _) \<Rightarrow> True
      | Coded (REPEATED_REFERENCE _) \<Rightarrow> True
      | Coded (CONFLICTING_REFERENCE _) \<Rightarrow> True
      | Coded (FILE_TOO_LARGE _ _) \<Rightarrow> True
      | Coded (TOO_MANY_ENTRIES _) \<Rightarrow> True
      | Coded (JSON_NARRATIVE _) \<Rightarrow> True
      | _ \<Rightarrow> False)"

definition tooLarge :: "nat \<Rightarrow> problem option" where
  "tooLarge sz =
     (if sz \<le> CAMT053_MAX_BYTES then None
      else Some (simple_problem (Coded (FILE_TOO_LARGE CAMT053_MAX_BYTES ''camt053''))
        ''Choose a camt.053 file smaller than 5 MB''))"

definition problemOf :: "money_error \<Rightarrow> problem" where
  "problemOf err =
     (case err of
        StatementError d m \<Rightarrow> simple_problem (Coded d) m
      | PlainError m \<Rightarrow> simple_problem UNKNOWN_PROBLEM m)"

definition fileRow :: "entry \<Rightarrow> file_row" where
  "fileRow e =
     \<lparr>fr_date = tx_bookingDate (en_row e), fr_account = s_account (en_statement e),
      fr_currency = s_currency (en_statement e), fr_amount = tx_amount (en_row e),
      fr_description = tx_description (en_row e),
      fr_reference = (if tx_bankReference (en_row e) \<noteq> [] then tx_bankReference (en_row e)
                      else tx_reference (en_row e))\<rparr>"

definition differences :: "txn \<Rightarrow> file_row \<Rightarrow> string list" where
  "differences mine file =
     (if bookingDate mine \<noteq> fr_date file then [''date''] else [])
     @ (if amount mine \<noteq> fr_amount file then [''amount''] else [])
     @ (if description mine \<noteq> fr_description file then [''description''] else [])
     @ (if account mine \<noteq> fr_account file then [''account''] else [])"

record comparison =
  c_fresh :: "file_row list"
  c_already :: "file_row list"
  c_changed :: "changed_row list"
  c_without :: nat

definition overlap_problem :: "entry \<Rightarrow> txn \<Rightarrow> problem" where
  "overlap_problem e earlier =
     simple_problem (Coded (OVERLAP_WITHOUT_REFERENCES (s_number (en_statement e))
         (s_account (en_statement e)) (s_start (en_statement e), s_end (en_statement e))
         (valueDate earlier)))
       OVERLAP_MESSAGE"

definition compare_row ::
  "(string, txn) omap \<Rightarrow> (string, txn) omap \<Rightarrow> entry \<Rightarrow> comparison \<Rightarrow> problem + comparison"
where
  "compare_row bySource byFingerprint e c =
     (let c = (if en_reference e = [] then c\<lparr>c_without := c_without c + 1\<rparr> else c);
          row = fileRow e
      in case oget bySource (en_identity e) of
           Some mine \<Rightarrow>
             if fingerprint mine = [] \<or> fingerprint mine = en_fingerprint e
             then Inr (c\<lparr>c_already := c_already c @ [row]\<rparr>)
             else Inr (c\<lparr>c_changed := c_changed c @
               [\<lparr>ch_mine = mine, ch_file = row, ch_fields = differences mine row\<rparr>]\<rparr>)
         | None \<Rightarrow>
             (case (if en_reference e \<noteq> [] then None else oget byFingerprint (en_fingerprint e)) of
                Some earlier \<Rightarrow> Inl (overlap_problem e earlier)
              | None \<Rightarrow> Inr (c\<lparr>c_fresh := c_fresh c @ [row]\<rparr>)))"

fun compare_rows ::
  "(string, txn) omap \<Rightarrow> (string, txn) omap \<Rightarrow> entry list \<Rightarrow> comparison \<Rightarrow> problem + comparison"
where
  "compare_rows bySource byFingerprint [] c = Inr c"
| "compare_rows bySource byFingerprint (e # es) c =
     bindE (compare_row bySource byFingerprint e c) (compare_rows bySource byFingerprint es)"

text \<open>\<open>new Map(existing.map(row => [key(row), row]))\<close>: the last row of a key counts.\<close>

definition map_by :: "(txn \<Rightarrow> string) \<Rightarrow> txn list \<Rightarrow> (string, txn) omap" where
  "map_by key ts = foldl (\<lambda>m t. oset (key t) t m) [] ts"

definition newest_first :: "file_row list \<Rightarrow> file_row list" where
  "newest_first = js_sort (\<lambda>a b. cmp_of (fr_date b) (fr_date a))"

definition compare :: "string \<Rightarrow> statement list \<Rightarrow> txn list \<Rightarrow> problem + preview" where
  "compare fmt ss existing =
     (case entries fmt ss of
        Inl err \<Rightarrow> Inl (problemOf err)
      | Inr es \<Rightarrow>
          bindE (compare_rows (map_by sourceId existing) (map_by fingerprint existing) es
              \<lparr>c_fresh = [], c_already = [], c_changed = [], c_without = 0\<rparr>) (\<lambda>c.
            if c_changed c \<noteq> []
            then Inl \<lparr>pr_code = CHANGED_TRANSACTION,
                pr_message = nat_str (length (c_changed c))
                  @ '' imported transaction(s) differ from this file'',
                pr_changed = Some (hd (c_changed c)), pr_count = Some (length (c_changed c))\<rparr>
            else Inr \<lparr>pv_format = fmt, pv_statements = ss, pv_fresh = newest_first (c_fresh c),
                pv_already = newest_first (c_already c), pv_withoutReference = c_without c\<rparr>))"

section \<open>Lemmas\<close>

interpretation newest_row: comparator "\<lambda>a b. cmp_of (fr_date b) (fr_date a)" "\<lambda>_. True"
  by unfold_locales (auto simp: cmp_of_def split: if_splits)

lemma map_by_get: "oget (map_by key ts) k = map_of (rev (map (\<lambda>t. (key t, t)) ts)) k"
  unfolding map_by_def by (induction ts rule: rev_induct) simp_all

lemma map_by_Some: "oget (map_by key ts) k = Some t \<Longrightarrow> t \<in> set ts \<and> key t = k"
  unfolding map_by_get by (auto dest: map_of_SomeD)

lemma map_by_None: "oget (map_by key ts) k = None \<longleftrightarrow> k \<notin> key ` set ts"
  unfolding map_by_get by (simp add: map_of_eq_None_iff image_image)

text \<open>The last row of the table with a key is the one that counts.\<close>

definition latest_row :: "(txn \<Rightarrow> string) \<Rightarrow> txn list \<Rightarrow> string \<Rightarrow> txn" where
  "latest_row key ts k = last (filter (\<lambda>t. key t = k) ts)"

lemma map_by_latest:
  "oget (map_by key ts) k = (if k \<in> key ` set ts then Some (latest_row key ts k) else None)"
  unfolding map_by_get latest_row_def by (induction ts rule: rev_induct) auto

text \<open>
  Whether the table has the identity of an entry; and whether the content it has is that of
  the entry, as far as the table knows: a row without a fingerprint is not compared.
\<close>

definition known :: "txn list \<Rightarrow> entry \<Rightarrow> bool" where
  "known existing e \<longleftrightarrow> en_identity e \<in> sourceId ` set existing"

definition same_content :: "txn \<Rightarrow> entry \<Rightarrow> bool" where
  "same_content t e \<longleftrightarrow> fingerprint t = [] \<or> fingerprint t = en_fingerprint e"

definition row_changed :: "txn list \<Rightarrow> entry \<Rightarrow> bool" where
  "row_changed ts e \<longleftrightarrow> known ts e \<and> \<not> same_content (latest_row sourceId ts (en_identity e)) e"

definition overlapping :: "txn list \<Rightarrow> entry \<Rightarrow> bool" where
  "overlapping ts e \<longleftrightarrow>
     \<not> known ts e \<and> en_reference e = [] \<and> en_fingerprint e \<in> fingerprint ` set ts"

definition changed_of :: "txn list \<Rightarrow> entry \<Rightarrow> changed_row" where
  "changed_of ts e =
     (let mine = latest_row sourceId ts (en_identity e)
      in \<lparr>ch_mine = mine, ch_file = fileRow e, ch_fields = differences mine (fileRow e)\<rparr>)"

text \<open>What one row does, and what all of them do.\<close>

lemma compare_row_result:
  "compare_row (map_by sourceId ts) (map_by fingerprint ts) e c =
     (if overlapping ts e then Inl (overlap_problem e (latest_row fingerprint ts (en_fingerprint e)))
      else Inr \<lparr>c_fresh = c_fresh c @ (if known ts e then [] else [fileRow e]),
                c_already = c_already c @ (if known ts e \<and> \<not> row_changed ts e then [fileRow e] else []),
                c_changed = c_changed c @ (if row_changed ts e then [changed_of ts e] else []),
                c_without = c_without c + (if en_reference e = [] then 1 else 0)\<rparr>)"
  by (auto simp: compare_row_def Let_def map_by_latest overlapping_def known_def row_changed_def
      same_content_def changed_of_def)

lemma compare_rows_Inr:
  "compare_rows (map_by sourceId ts) (map_by fingerprint ts) es c = Inr c' \<longleftrightarrow>
     list_all (\<lambda>e. \<not> overlapping ts e) es \<and>
     c' = \<lparr>c_fresh = c_fresh c @ map fileRow (filter (\<lambda>e. \<not> known ts e) es),
           c_already = c_already c @ map fileRow (filter (\<lambda>e. known ts e \<and> \<not> row_changed ts e) es),
           c_changed = c_changed c @ map (changed_of ts) (filter (row_changed ts) es),
           c_without = c_without c + length (filter (\<lambda>e. en_reference e = []) es)\<rparr>"
  by (induction es arbitrary: c) (auto simp: compare_row_result)

lemma compare_rows_Inl:
  "compare_rows (map_by sourceId ts) (map_by fingerprint ts) es c = Inl p \<Longrightarrow>
    \<exists>pre e post. es = pre @ e # post \<and> list_all (\<lambda>d. \<not> overlapping ts d) pre \<and> overlapping ts e
      \<and> p = overlap_problem e (latest_row fingerprint ts (en_fingerprint e))"
proof (induction es arbitrary: c)
  case (Cons e es)
  show ?case
  proof (cases "overlapping ts e")
    case True
    with Cons.prems show ?thesis by (intro exI [of _ "[]"]) (simp add: compare_row_result)
  next
    case False
    with Cons.prems obtain c1 where "compare_rows (map_by sourceId ts) (map_by fingerprint ts) es c1 = Inl p"
      by (simp add: compare_row_result)
    from Cons.IH [OF this] obtain pre d post where "es = pre @ d # post" "list_all (\<lambda>d. \<not> overlapping ts d) pre"
      "overlapping ts d" "p = overlap_problem d (latest_row fingerprint ts (en_fingerprint d))" by blast
    with False show ?thesis by (intro exI [of _ "e # pre"]) auto
  qed
qed simp

lemma entries_error_blocked: "entries fmt ss = Inl err \<Longrightarrow> isBlocked (problemOf err)"
  using entries_fails [of fmt ss err]
  by (auto simp: repeat_error_def problemOf_def simple_problem_def)

lemma newest_first_sorted: "sorted_wrt (\<lambda>a b. fr_date b \<le> fr_date a) (newest_first rs)"
proof -
  have "sorted_wrt (\<lambda>a b. cmp_of (fr_date b) (fr_date a) \<le> 0) (newest_first rs)"
    unfolding newest_first_def by (rule newest_row.sort_sorted) simp
  then show ?thesis by (rule sorted_wrt_mono_rel [rotated]) (auto simp: cmp_of_def split: if_splits)
qed

text \<open>What a preview promises, and why a file is refused.\<close>

definition preview_ok :: "string \<Rightarrow> statement list \<Rightarrow> txn list \<Rightarrow> preview \<Rightarrow> entry list \<Rightarrow> bool" where
  "preview_ok fmt ss ts p es \<longleftrightarrow>
     es = all_entries fmt ss \<and> distinct (map row_identity es)
     \<and> list_all (\<lambda>e. \<not> row_changed ts e \<and> \<not> overlapping ts e) es
     \<and> mset (pv_fresh p) = mset (map fileRow (filter (\<lambda>e. \<not> known ts e) es))
     \<and> mset (pv_already p) = mset (map fileRow (filter (known ts) es))
     \<and> sorted_wrt (\<lambda>a b. fr_date b \<le> fr_date a) (pv_fresh p)
     \<and> sorted_wrt (\<lambda>a b. fr_date b \<le> fr_date a) (pv_already p)
     \<and> pv_withoutReference p = length (filter (\<lambda>e. en_reference e = []) es)"

definition refusal_ok :: "string \<Rightarrow> statement list \<Rightarrow> txn list \<Rightarrow> problem \<Rightarrow> bool" where
  "refusal_ok fmt ss ts p \<longleftrightarrow>
     isBlocked p \<and>
     ((\<exists>err. entries fmt ss = Inl err \<and> p = problemOf err)
      \<or> (\<exists>pre e post. entries fmt ss = Inr (pre @ e # post) \<and> list_all (\<lambda>d. \<not> overlapping ts d) pre
           \<and> overlapping ts e \<and> p = overlap_problem e (latest_row fingerprint ts (en_fingerprint e)))
      \<or> (\<exists>es changed. entries fmt ss = Inr es \<and> list_all (\<lambda>e. \<not> overlapping ts e) es
           \<and> changed = filter (row_changed ts) es \<and> changed \<noteq> []
           \<and> pr_code p = CHANGED_TRANSACTION \<and> pr_changed p = Some (changed_of ts (hd changed))
           \<and> pr_count p = Some (length changed)))"

lemma compare_Inr:
  assumes "compare fmt ss ts = Inr p"
  shows "preview_ok fmt ss ts p (all_entries fmt ss)"
proof -
  let ?start = "\<lparr>c_fresh = [], c_already = [], c_changed = [], c_without = 0\<rparr>"
  from assms obtain es c where c: "entries fmt ss = Inr es" "c_changed c = []"
    "compare_rows (map_by sourceId ts) (map_by fingerprint ts) es ?start = Inr c"
    "p = \<lparr>pv_format = fmt, pv_statements = ss, pv_fresh = newest_first (c_fresh c),
           pv_already = newest_first (c_already c), pv_withoutReference = c_without c\<rparr>"
    by (auto simp: compare_def bindE_eq_Inr split: sum.splits if_splits)
  have es: "es = all_entries fmt ss" "distinct (map row_identity es)"
    using c(1) entries_Inr [of fmt ss es] distinct_identities by auto
  note r = c(3) [unfolded compare_rows_Inr]
  with c(2) have none: "\<forall>e \<in> set es. \<not> row_changed ts e" by (simp add: filter_empty_conv)
  then have "filter (\<lambda>e. known ts e \<and> \<not> row_changed ts e) es = filter (known ts) es"
    by (intro filter_cong) auto
  with es(2) none r c(4) show ?thesis
    unfolding preview_ok_def es(1) [symmetric]
    by (simp add: newest_first_sorted list_all_iff) (simp add: newest_first_def)
qed

lemma compare_Inl:
  assumes "compare fmt ss ts = Inl p"
  shows "refusal_ok fmt ss ts p"
proof (cases "entries fmt ss")
  case (Inl err)
  with assms entries_error_blocked [OF Inl] show ?thesis by (simp add: compare_def refusal_ok_def)
next
  case es: (Inr es)
  let ?start = "\<lparr>c_fresh = [], c_already = [], c_changed = [], c_without = 0\<rparr>"
  show ?thesis
  proof (cases "compare_rows (map_by sourceId ts) (map_by fingerprint ts) es ?start")
    case (Inl q)
    with es assms have "q = p" by (simp add: compare_def)
    with es compare_rows_Inl [OF Inl] show ?thesis
      by (auto simp: refusal_ok_def overlap_problem_def simple_problem_def)
  next
    case (Inr c)
    note r = Inr [unfolded compare_rows_Inr]
    from assms es Inr have p: "c_changed c \<noteq> []" "p = \<lparr>pr_code = CHANGED_TRANSACTION,
        pr_message = nat_str (length (c_changed c)) @ '' imported transaction(s) differ from this file'',
        pr_changed = Some (hd (c_changed c)), pr_count = Some (length (c_changed c))\<rparr>"
      by (auto simp: compare_def split: if_splits)
    have "c_changed c = map (changed_of ts) (filter (row_changed ts) es)" using r by simp
    with p r es show ?thesis by (auto simp: refusal_ok_def hd_map)
  qed
qed

lemma map_by_unique:
  assumes "distinct (map key ts)" "t \<in> set ts"
  shows "oget (map_by key ts) (key t) = Some t"
proof -
  have "key t \<in> key ` set ts" using assms(2) by simp
  then have "oget (map_by key ts) (key t) \<noteq> None" by (simp add: map_by_None)
  then obtain u where u: "oget (map_by key ts) (key t) = Some u" by blast
  from map_by_Some [OF u] assms have "u = t" by (auto simp: distinct_map inj_on_def)
  with u show ?thesis by simp
qed

section \<open>Properties\<close>

text \<open>
  C17. What a preview promises. When a file is not refused, its rows have pairwise different
  identities; the rows shown as new are exactly those whose identity the table does not have,
  the rows shown as imported before exactly the others, each list newest first; no row
  imported before differs from the row that the table has last for its identity, so far as
  that row carries a fingerprint of its content; no new row without a bank reference has the
  content of an imported one; and the count of rows without a reference is right. A refusal
  always counts as blocked, and is for a repeated identity; or for the first row with content
  imported before under another position; or for the rows that differ from the imported
  ones, of which it shows the first and gives the number.
\<close>
theorem compare_correct:
  "case compare fmt ss ts of
     Inr p \<Rightarrow> preview_ok fmt ss ts p (all_entries fmt ss)
   | Inl p \<Rightarrow> refusal_ok fmt ss ts p"
  using compare_Inr [of fmt ss ts] compare_Inl [of fmt ss ts] by (cases "compare fmt ss ts") auto

text \<open>
  Importing the same file again adds nothing. When every row of the file is in the table
  under its identity and with its content, and no two rows of the table share an identity,
  the preview shows no new rows and all the file's rows as imported before.
\<close>
lemma reimport_adds_nothing:
  assumes "entries fmt ss = Inr es" "distinct (map sourceId ts)"
    and "list_all (\<lambda>e. (en_identity e, en_fingerprint e) \<in> (\<lambda>t. (sourceId t, fingerprint t)) ` set ts) es"
  shows "\<exists>p. compare fmt ss ts = Inr p \<and> pv_fresh p = []
    \<and> mset (pv_already p) = mset (map fileRow es)"
proof -
  have row: "known ts e \<and> \<not> row_changed ts e" if "e \<in> set es" for e
  proof -
    from that assms(3) obtain t where t: "t \<in> set ts" "sourceId t = en_identity e"
      "fingerprint t = en_fingerprint e" by (auto simp: list_all_iff)
    then have "oget (map_by sourceId ts) (en_identity e) = Some t"
      using map_by_unique [OF assms(2)] by metis
    then have "latest_row sourceId ts (en_identity e) = t" by (simp add: map_by_latest split: if_splits)
    with t show ?thesis by (auto simp: row_changed_def same_content_def known_def intro: rev_image_eqI)
  qed
  then have none: "filter (row_changed ts) es = []" "filter (\<lambda>e. \<not> known ts e) es = []"
    "filter (known ts) es = es" "\<forall>e \<in> set es. \<not> overlapping ts e"
    by (auto simp: filter_empty_conv overlapping_def intro: filter_True)
  show ?thesis
  proof (cases "compare fmt ss ts")
    case (Inl p)
    from compare_Inl [OF Inl] assms(1) none show ?thesis by (auto simp: refusal_ok_def)
  next
    case (Inr p)
    from compare_Inr [OF Inr] assms(1) have "preview_ok fmt ss ts p es"
      by (simp add: entries_Inr)
    then have "mset (pv_fresh p) = mset (map fileRow (filter (\<lambda>e. \<not> known ts e) es))"
      "mset (pv_already p) = mset (map fileRow (filter (known ts) es))"
      by (simp_all only: preview_ok_def)
    with Inr show ?thesis by (simp only: none) simp
  qed
qed

definition sample_statement :: statement where
  "sample_statement =
     \<lparr>s_account = ''NL1'', s_number = ''7'', s_currency = ''EUR'', s_opening = ''0'', s_closing = ''5'',
      s_start = ''2024-01-01'', s_end = ''2024-01-31'', s_transactions =
        [\<lparr>tx_date = ''2024-01-02'', tx_bookingDate = ''2024-01-02'', tx_amount = ''5'', tx_code = ''NTRF'',
          tx_reference = ''r'', tx_bankReference = ''B1'', tx_description = ''d''\<rparr>,
         \<lparr>tx_date = ''2024-01-03'', tx_bookingDate = ''2024-01-03'', tx_amount = ''0'', tx_code = ''NTRF'',
          tx_reference = ''r'', tx_bankReference = [], tx_description = ''e''\<rparr>]\<rparr>"

definition sample_row :: "entry \<Rightarrow> txn" where
  "sample_row e =
     \<lparr>subject = [], account = [], currency = [], amount = [], valueDate = [], bookingDate = [],
      description = [], reference = [], txn_code = [], statement = [], sourceId = en_identity e,
      fingerprint = en_fingerprint e, format = None, category = [], note_text = []\<rparr>"

end
