(* ===== verification/Money_Ledger.thy ===== *)
theory Money_Ledger
  imports Money_Totals Js_Json
begin

text \<open>
  The filters and summaries of the Transactions tab
  (\<^verbatim>\<open>src/integrations/money/app/ledger.ts\<close>), as functions over the table's rows.

  \<open>today\<close> is an ISO date. Reading an amount may throw, so a filter that looks at directions
  is an option (\<open>None\<close>: thrown).
\<close>

datatype period_kind = AllPeriods | ThisMonth | LastMonth | ThisYear | Custom

record period =
  p_kind :: period_kind
  p_from :: "string option"
  p_to :: "string option"

datatype direction = AllDirections | In | Out

record statement_key =
  k_account :: string
  k_currency :: string
  k_statement :: string
  k_format :: "string option"

record filters =
  fl_account :: string
  fl_query :: string
  fl_period :: period
  fl_direction :: direction
  fl_uncategorised :: bool
  fl_statement :: "statement_key option"

definition accountKey :: "string \<Rightarrow> string \<Rightarrow> string" where
  "accountKey a c = json_text (JArr [JStr a, JStr c])"

definition statementMatches :: "txn \<Rightarrow> statement_key \<Rightarrow> bool" where
  "statementMatches row key \<longleftrightarrow>
     account row = k_account key \<and> currency row = k_currency key
     \<and> statement row = k_statement key \<and> (k_format key = None \<or> format row = k_format key)"

text \<open>\<open>+text\<close> of digits, \<open>None\<close> being NaN, and a number in a template string.\<close>

definition number_of :: "string \<Rightarrow> int option" where
  "number_of s = (if digits s then Some (int (dec_val s)) else None)"

definition number_text :: "int option \<Rightarrow> string" where
  "number_text n = (case n of None \<Rightarrow> ''NaN'' | Some n \<Rightarrow> int_str n)"

definition pad :: "int option \<Rightarrow> string" where
  "pad n = pad_zero 2 (number_text n)"

definition month_range :: "int option \<Rightarrow> int option \<Rightarrow> string option \<times> string option" where
  "month_range year month =
     (Some (number_text year @ ''-'' @ pad month @ ''-01''),
      Some (number_text year @ ''-'' @ pad month @ ''-31''))"

text \<open>\<open>text || undefined\<close>\<close>

definition or_undefined :: "string option \<Rightarrow> string option" where
  "or_undefined s = (if truthy s then s else None)"

definition year_before :: "int option \<Rightarrow> int option" where
  "year_before year = map_option (\<lambda>y. y - 1) year"

definition periodRange :: "period \<Rightarrow> string \<Rightarrow> string option \<times> string option" where
  "periodRange period today =
     (let year = number_of (take 4 today); month = number_of (take 2 (drop 5 today))
      in case p_kind period of
           AllPeriods \<Rightarrow> (None, None)
         | ThisMonth \<Rightarrow> month_range year month
         | LastMonth \<Rightarrow>
             month_range (if month = Some 1 then year_before year else year)
               (if month = Some 1 then Some 12 else map_option (\<lambda>m. m - 1) month)
         | ThisYear \<Rightarrow> (Some (number_text year @ ''-01-01''), Some (number_text year @ ''-12-31''))
         | Custom \<Rightarrow> (or_undefined (p_from period), or_undefined (p_to period)))"

text \<open>\<open>(!from || date >= from) && (!to || date <= to)\<close>\<close>

definition in_range :: "string \<Rightarrow> string option \<times> string option \<Rightarrow> bool" where
  "in_range d r =
     ((case fst r of None \<Rightarrow> True | Some lo \<Rightarrow> lo = [] \<or> lo \<le> d)
      \<and> (case snd r of None \<Rightarrow> True | Some hi \<Rightarrow> hi = [] \<or> d \<le> hi))"

definition inPeriod :: "txn \<Rightarrow> period \<Rightarrow> string \<Rightarrow> bool" where
  "inPeriod row period today = in_range (bookingDate row) (periodRange period today)"

definition matchesQuery :: "txn \<Rightarrow> string \<Rightarrow> bool" where
  "matchesQuery row query =
     (let q = to_lower (trim query)
      in q = [] \<or> str_includes (to_lower (description row)) q
         \<or> str_includes (to_lower (reference row)) q)"

definition matchesDirection :: "txn \<Rightarrow> direction \<Rightarrow> bool option" where
  "matchesDirection row d =
     (if d = AllDirections then Some True else map_option (\<lambda>out. (d = Out) = out) (isOut (amount row)))"

text \<open>The conditions in their order: a row that fails an earlier one is not asked the next.\<close>

definition row_passes :: "filters \<Rightarrow> string \<Rightarrow> txn \<Rightarrow> bool option" where
  "row_passes f today row =
     (if \<not> inPeriod row (fl_period f) today then Some False
      else if \<not> matchesQuery row (fl_query f) then Some False
      else map_option (\<lambda>ok. ok \<and> (\<not> fl_uncategorised f \<or> category row = [])
             \<and> (case fl_statement f of None \<Rightarrow> True | Some key \<Rightarrow> statementMatches row key))
           (matchesDirection row (fl_direction f)))"

fun filter_opt :: "('a \<Rightarrow> bool option) \<Rightarrow> 'a list \<Rightarrow> 'a list option" where
  "filter_opt P [] = Some []"
| "filter_opt P (x # xs) =
     (case P x of None \<Rightarrow> None
      | Some b \<Rightarrow> map_option (\<lambda>ys. if b then x # ys else ys) (filter_opt P xs))"

definition filterExceptAccount :: "txn list \<Rightarrow> filters \<Rightarrow> string \<Rightarrow> txn list option" where
  "filterExceptAccount rs f today = filter_opt (row_passes f today) rs"

definition applyFilters :: "txn list \<Rightarrow> filters \<Rightarrow> string \<Rightarrow> txn list option" where
  "applyFilters rs f today =
     map_option (filter (\<lambda>row. fl_account f = []
         \<or> accountKey (account row) (currency row) = fl_account f))
       (filterExceptAccount rs f today)"

definition newest_cmp :: "nat \<times> txn \<Rightarrow> nat \<times> txn \<Rightarrow> int" where
  "newest_cmp a b =
     (if bookingDate (snd a) = bookingDate (snd b) then int (fst a) - int (fst b)
      else if bookingDate (snd a) < bookingDate (snd b) then 1 else - 1)"

definition sortNewestFirst :: "txn list \<Rightarrow> txn list" where
  "sortNewestFirst rs = map snd (js_sort newest_cmp (enumerate 0 rs))"

record account_option =
  o_key :: string
  o_account :: string
  o_currency :: string
  o_count :: nat

text \<open>One turn of the loop, and the entries in the order of their first row.\<close>

definition count_account ::
  "(string, account_option) omap \<Rightarrow> txn \<Rightarrow> (string, account_option) omap"
where
  "count_account m row =
     (let key = accountKey (account row) (currency row)
      in case oget m key of
           Some e \<Rightarrow> oset key (e\<lparr>o_count := o_count e + 1\<rparr>) m
         | None \<Rightarrow> oset key \<lparr>o_key = key, o_account = account row, o_currency = currency row, o_count = 1\<rparr> m)"

definition accounts :: "txn list \<Rightarrow> account_option list" where
  "accounts rs = js_sort (\<lambda>a b. int (o_count b) - int (o_count a)) (map snd (foldl count_account [] rs))"

definition period_of :: "period_kind \<Rightarrow> period" where
  "period_of k = \<lparr>p_kind = k, p_from = None, p_to = None\<rparr>"

definition defaultPeriod :: "txn list \<Rightarrow> string \<Rightarrow> period" where
  "defaultPeriod rs today =
     (if list_ex (\<lambda>row. inPeriod row (period_of ThisMonth) today) rs
      then period_of ThisMonth else period_of AllPeriods)"

definition noFilters :: "period \<Rightarrow> filters" where
  "noFilters p =
     \<lparr>fl_account = [], fl_query = [], fl_period = p, fl_direction = AllDirections,
      fl_uncategorised = False, fl_statement = None\<rparr>"

definition hasNarrowingFilters :: "filters \<Rightarrow> bool" where
  "hasNarrowingFilters f \<longleftrightarrow>
     trim (fl_query f) \<noteq> [] \<or> p_kind (fl_period f) \<noteq> AllPeriods
     \<or> fl_direction f \<noteq> AllDirections \<or> fl_uncategorised f \<or> fl_statement f \<noteq> None
     \<or> fl_account f \<noteq> []"

definition latestDate :: "txn list \<Rightarrow> string" where
  "latestDate rs = foldl (\<lambda>m r. if m < bookingDate r then bookingDate r else m) [] rs"

definition count_category :: "(string, nat) omap \<Rightarrow> txn \<Rightarrow> (string, nat) omap" where
  "count_category m row =
     (if category row \<noteq> [] then oset (category row) (oget_or 0 m (category row) + 1) m else m)"

definition category_cmp :: "string \<times> nat \<Rightarrow> string \<times> nat \<Rightarrow> int" where
  "category_cmp a b =
     (if int (snd b) - int (snd a) \<noteq> 0 then int (snd b) - int (snd a)
      else if fst a < fst b then - 1 else 1)"

definition categories :: "txn list \<Rightarrow> string list" where
  "categories rs = map fst (js_sort category_cmp (foldl count_category [] rs))"

record imported_statement =
  is_key :: statement_key
  is_entries :: nat
  is_start :: string
  is_end :: string
  is_rows :: "txn list"

definition statement_id :: "txn \<Rightarrow> string" where
  "statement_id row =
     json_text (JArr (map JStr [case format row of None \<Rightarrow> [] | Some f \<Rightarrow> f, account row,
       currency row, statement row]))"

definition new_statement :: "txn \<Rightarrow> imported_statement" where
  "new_statement row =
     \<lparr>is_key = \<lparr>k_account = account row, k_currency = currency row, k_statement = statement row,
        k_format = format row\<rparr>,
      is_entries = 0, is_start = bookingDate row, is_end = bookingDate row, is_rows = []\<rparr>"

definition add_to_statement :: "txn \<Rightarrow> imported_statement \<Rightarrow> imported_statement option" where
  "add_to_statement row e =
     Some (e\<lparr>is_entries := is_entries e + 1, is_rows := is_rows e @ [row],
        is_start := (if bookingDate row < is_start e then bookingDate row else is_start e),
        is_end := (if is_end e < bookingDate row then bookingDate row else is_end e)\<rparr>)"

text \<open>
  The entries of \<open>importedStatements\<close> before they are sorted. Its comparator answers that
  either of two statements of one account with the same end goes first, so that their order
  is up to the implementation of \<open>sort\<close>.
\<close>

definition imported_entries :: "txn list \<Rightarrow> imported_statement list" where
  "imported_entries rs = map snd (the (group_into statement_id new_statement add_to_statement [] rs))"

definition imported_cmp :: "imported_statement \<Rightarrow> imported_statement \<Rightarrow> int" where
  "imported_cmp a b =
     (if is_end a = is_end b
      then (if k_account (is_key a) < k_account (is_key b) then - 1 else 1)
      else if is_end a < is_end b then 1 else - 1)"

record stored_statement =
  st_account :: string
  st_currency :: string
  st_end :: string
  st_closing :: string

text \<open>The balance of \<open>closingBalance\<close>: amount and date.\<close>

definition better_balance ::
  "string \<Rightarrow> string \<Rightarrow> string option \<times> string option \<Rightarrow> (string \<times> string) option \<Rightarrow> stored_statement
    \<Rightarrow> (string \<times> string) option"
where
  "better_balance a c r best s =
     (if st_account s \<noteq> a \<or> st_currency s \<noteq> c then best
      else if (case fst r of None \<Rightarrow> False | Some lo \<Rightarrow> lo \<noteq> [] \<and> st_end s < lo)
           \<or> (case snd r of None \<Rightarrow> False | Some hi \<Rightarrow> hi \<noteq> [] \<and> hi < st_end s) then best
      else if (case best of None \<Rightarrow> True | Some (_, d) \<Rightarrow> d < st_end s)
           then Some (st_closing s, st_end s) else best)"

definition closingBalance ::
  "stored_statement list \<Rightarrow> string \<Rightarrow> string \<Rightarrow> period \<Rightarrow> string \<Rightarrow> (string \<times> string) option"
where
  "closingBalance ss a c period today =
     foldl (better_balance a c (periodRange period today)) None ss"

section \<open>Lemmas\<close>

interpretation newest: comparator newest_cmp "\<lambda>_. True"
  by unfold_locales (auto simp: newest_cmp_def split: if_splits)

lemma sorted_enumerate: "sorted_wrt (\<lambda>a b. fst a \<le> fst b) (enumerate n xs)"
  by (induction xs arbitrary: n) (auto simp: in_set_enumerate_eq)

lemma sortNewestFirst_day:
  "filter (\<lambda>r. bookingDate r = d) (sortNewestFirst rs) = filter (\<lambda>r. bookingDate r = d) rs"
proof -
  let ?P = "\<lambda>p :: nat \<times> txn. bookingDate (snd p) = d"
  have "sorted_wrt (\<lambda>a b. fst a \<le> fst b) (filter ?P (enumerate 0 rs))"
    using sorted_enumerate [of 0 rs] by (rule sorted_wrt_filter)
  then have "sorted_wrt (\<lambda>a b. newest_cmp a b \<le> 0) (filter ?P (enumerate 0 rs))"
    by (rule sorted_wrt_mono_rel [rotated]) (auto simp: newest_cmp_def)
  then have "filter ?P (js_sort newest_cmp (enumerate 0 rs)) = filter ?P (enumerate 0 rs)"
    by (simp add: newest.filter_sort js_sort_id)
  then have "filter (\<lambda>r. bookingDate r = d) (sortNewestFirst rs) = map snd (filter ?P (enumerate 0 rs))"
    by (simp add: sortNewestFirst_def filter_map comp_def)
  also have "\<dots> = filter (\<lambda>r. bookingDate r = d) (map snd (enumerate 0 rs))"
    by (simp only: filter_map comp_def)
  finally show ?thesis by simp
qed

lemma sortNewestFirst_sorted: "sorted_wrt (\<lambda>a b. bookingDate b \<le> bookingDate a) (sortNewestFirst rs)"
proof -
  have "sorted_wrt (\<lambda>a b. newest_cmp a b \<le> 0) (js_sort newest_cmp (enumerate 0 rs))"
    by (rule newest.sort_sorted) simp
  then show ?thesis unfolding sortNewestFirst_def sorted_wrt_map
    by (rule sorted_wrt_mono_rel [rotated]) (auto simp: newest_cmp_def split: if_splits)
qed

lemma mset_sortNewestFirst: "mset (sortNewestFirst rs) = mset rs"
proof -
  have "mset (sortNewestFirst rs) = image_mset snd (mset (enumerate 0 rs))"
    by (simp add: sortNewestFirst_def)
  also have "\<dots> = mset (map snd (enumerate 0 rs))" by (simp only: mset_map)
  finally show ?thesis by simp
qed

text \<open>Changing the entry of one key of a map whose keys and entries are functions of a list.\<close>

lemma oset_map:
  assumes "inj f" "distinct ys"
  shows "oset (f x) v (map (\<lambda>y. (f y, g y)) ys) =
    (if x \<in> set ys then map (\<lambda>y. (f y, if y = x then v else g y)) ys
     else map (\<lambda>y. (f y, g y)) ys @ [(f x, v)])"
  using assms(2)
proof (induction ys)
  case (Cons y ys)
  then show ?case using assms(1) by (auto simp: inj_eq)
qed simp

lemma oget_map: "inj f \<Longrightarrow> oget (map (\<lambda>y. (f y, g y)) ys) (f x) = (if x \<in> set ys then Some (g x) else None)"
  by (induction ys) (auto simp: inj_eq)

definition pair_key :: "string \<times> string \<Rightarrow> string" where
  "pair_key p = accountKey (fst p) (snd p)"

lemma inj_pair_key: "inj pair_key"
  by (rule injI) (auto simp: pair_key_def accountKey_def json_text_inj prod_eq_iff simp del: json_text.simps)

definition pair_of :: "txn \<Rightarrow> string \<times> string" where
  "pair_of r = (account r, currency r)"

text \<open>The entry of a pair: the number of its rows.\<close>

definition option_of :: "txn list \<Rightarrow> string \<times> string \<Rightarrow> account_option" where
  "option_of rs p =
     \<lparr>o_key = pair_key p, o_account = fst p, o_currency = snd p,
      o_count = length (filter (\<lambda>r. pair_of r = p) rs)\<rparr>"

lemma count_accounts:
  "foldl count_account [] rs = map (\<lambda>p. (pair_key p, option_of rs p)) (first_seen (map pair_of rs))"
proof (induction rs rule: rev_induct)
  case (snoc r rs)
  have key: "accountKey (account r) (currency r) = pair_key (pair_of r)"
    by (simp add: pair_key_def pair_of_def)
  have old: "option_of (rs @ [r]) p = option_of rs p" if "p \<noteq> pair_of r" for p
    using that by (simp add: option_of_def)
  show ?case
  proof (cases "pair_of r \<in> set (map pair_of rs)")
    case True
    then show ?thesis
      using snoc by (auto simp: count_account_def Let_def key oset_map oget_map inj_pair_key old)
        (simp add: option_of_def)
  next
    case False
    then have "filter (\<lambda>q. pair_of q = pair_of r) rs = []"
      by (auto simp: filter_empty_conv image_iff)
    then have "option_of (rs @ [r]) (pair_of r) =
        \<lparr>o_key = pair_key (pair_of r), o_account = account r, o_currency = currency r, o_count = 1\<rparr>"
      by (simp add: option_of_def pair_of_def)
    moreover have "option_of (rs @ [r]) p = option_of rs p" if "p \<in> set (first_seen (map pair_of rs))" for p
      using that False by (intro old) (auto simp: image_iff)
    then have "map (\<lambda>p. (pair_key p, option_of (rs @ [r]) p)) (first_seen (map pair_of rs)) =
        map (\<lambda>p. (pair_key p, option_of rs p)) (first_seen (map pair_of rs))"
      by (simp cong: map_cong)
    ultimately show ?thesis
      using False snoc by (simp add: count_account_def Let_def key oset_map oget_map inj_pair_key)
  qed
qed simp

lemma filter_opt_total: "(\<And>x. x \<in> set xs \<Longrightarrow> P x = Some (Q x)) \<Longrightarrow> filter_opt P xs = Some (filter Q xs)"
  by (induction xs) auto

lemma applyFilters_account:
  "applyFilters rs ((noFilters (period_of AllPeriods))\<lparr>fl_account := pair_key p\<rparr>) today =
    Some (filter (\<lambda>r. pair_of r = p) rs)"
proof -
  let ?f = "(noFilters (period_of AllPeriods))\<lparr>fl_account := pair_key p\<rparr>"
  have "row_passes ?f today r = Some True" for r
    by (simp add: row_passes_def noFilters_def period_of_def inPeriod_def periodRange_def in_range_def
        matchesQuery_def trim_def trim_start_def to_lower_def matchesDirection_def)
  then have "filterExceptAccount rs ?f today = Some rs"
    using filter_opt_total [of rs "row_passes ?f today" "\<lambda>_. True"] by (simp add: filterExceptAccount_def)
  moreover have "accountKey (account r) (currency r) = pair_key p \<longleftrightarrow> pair_of r = p" for r
    using inj_eq [OF inj_pair_key, of "pair_of r" p] by (simp add: pair_key_def pair_of_def)
  moreover have "pair_key p \<noteq> []" by (simp add: pair_key_def accountKey_def)
  ultimately show ?thesis by (simp add: applyFilters_def)
qed

interpretation most_rows: comparator "\<lambda>a b. int (o_count b) - int (o_count a)" "\<lambda>_. True"
  by unfold_locales auto

lemma accounts_sorted: "sorted_wrt (\<lambda>a b. o_count b \<le> o_count a) (accounts rs)"
proof -
  have "sorted_wrt (\<lambda>a b. int (o_count b) - int (o_count a) \<le> 0) (accounts rs)"
    unfolding accounts_def by (rule most_rows.sort_sorted) simp
  then show ?thesis by simp
qed

lemma mset_accounts: "mset (accounts rs) = mset (map (option_of rs) (first_seen (map pair_of rs)))"
proof -
  have "map snd (foldl count_account [] rs) = map (option_of rs) (first_seen (map pair_of rs))"
    by (simp add: count_accounts)
  then show ?thesis unfolding accounts_def mset_js_sort by (simp only:)
qed

text \<open>The sort of a list without repetitions only depends on how different elements compare.\<close>

lemma js_sort_cong:
  assumes "distinct xs" "\<And>x y. x \<in> set xs \<Longrightarrow> y \<in> set xs \<Longrightarrow> x \<noteq> y \<Longrightarrow> cmp x y \<le> 0 \<longleftrightarrow> cmp' x y \<le> (0 :: int)"
  shows "js_sort cmp xs = js_sort cmp' xs"
  using assms
proof (induction xs)
  case (Cons x xs)
  have "insort_cmp cmp x ys = insort_cmp cmp' x ys" if "set ys \<subseteq> set xs" for ys
    using that Cons.prems by (induction ys) auto
  with Cons show ?case by simp
qed simp

definition uses :: "txn list \<Rightarrow> string \<Rightarrow> nat" where
  "uses rs c = length (filter (\<lambda>r. category r = c) rs)"

definition used_categories :: "txn list \<Rightarrow> string list" where
  "used_categories rs = first_seen (filter (\<lambda>c. c \<noteq> []) (map category rs))"

lemma count_categories:
  "foldl count_category [] rs = map (\<lambda>c. (c, uses rs c)) (used_categories rs)"
proof (induction rs rule: rev_induct)
  case (snoc r rs)
  have old: "uses (rs @ [r]) c = uses rs c" if "c \<noteq> category r" for c
    using that by (simp add: uses_def)
  have key: "inj (\<lambda>c :: string. c)" by (rule injI)
  show ?case
  proof (cases "category r = []")
    case True
    then show ?thesis using snoc
      by (auto simp: count_category_def used_categories_def old intro!: map_cong)
  next
    case False
    show ?thesis
    proof (cases "category r \<in> set (map category rs)")
      case True
      with False snoc show ?thesis
        using oset_map [OF key, of "used_categories rs" "category r" _ "uses rs"]
          oget_map [OF key, of "uses rs" "used_categories rs" "category r"]
        by (auto simp: count_category_def used_categories_def oget_or_def old intro!: map_cong)
          (simp add: uses_def)
    next
      case new: False
      then have "uses rs (category r) = 0" by (auto simp: uses_def filter_empty_conv image_iff)
      then have one: "uses (rs @ [r]) (category r) = 1" by (simp add: uses_def)
      have "uses (rs @ [r]) c = uses rs c" if "c \<in> set (used_categories rs)" for c
        using that new by (intro old) (auto simp: used_categories_def image_iff)
      then have "map (\<lambda>c. (c, uses (rs @ [r]) c)) (used_categories rs) =
          map (\<lambda>c. (c, uses rs c)) (used_categories rs)"
        by (simp cong: map_cong)
      then show ?thesis
        using False new snoc one
          oset_map [OF key, of "used_categories rs" "category r" _ "uses rs"]
          oget_map [OF key, of "uses rs" "used_categories rs" "category r"]
        by (auto simp: count_category_def used_categories_def oget_or_def)
    qed
  qed
qed (simp add: used_categories_def)

text \<open>The order that \<open>category_cmp\<close> stands for on entries of different categories.\<close>

definition category_le :: "string \<times> nat \<Rightarrow> string \<times> nat \<Rightarrow> int" where
  "category_le a b =
     (if snd b < snd a then - 1 else if snd a < snd b then 1 else cmp_of (fst a) (fst b))"

interpretation most_used: comparator category_le "\<lambda>_. True"
  by unfold_locales (auto simp: category_le_def cmp_of_def split: if_splits)

lemma categories_sorted:
  "sorted_wrt (\<lambda>a b. uses rs b < uses rs a \<or> (uses rs a = uses rs b \<and> a \<le> b)) (categories rs)
    \<and> mset (categories rs) = mset (used_categories rs)"
proof -
  let ?m = "map (\<lambda>c. (c, uses rs c)) (used_categories rs)"
  have "inj_on (\<lambda>c. (c, uses rs c)) A" for A by (auto simp: inj_on_def)
  then have "distinct ?m" by (simp add: distinct_map used_categories_def)
  then have sort: "js_sort category_cmp ?m = js_sort category_le ?m"
    by (rule js_sort_cong) (auto simp: category_cmp_def category_le_def cmp_of_def split: if_splits)
  have "sorted_wrt (\<lambda>a b. category_le a b \<le> 0) (js_sort category_le ?m)"
    by (rule most_used.sort_sorted) simp
  moreover have "\<forall>p \<in> set (js_sort category_le ?m). snd p = uses rs (fst p)" by auto
  ultimately have "sorted_wrt (\<lambda>a b. uses rs (fst b) < uses rs (fst a)
      \<or> (uses rs (fst a) = uses rs (fst b) \<and> fst a \<le> fst b)) (js_sort category_le ?m)"
    by (elim sorted_wrt_mono_rel [rotated])
      (auto simp: category_le_def cmp_of_def split: if_splits)
  moreover have "mset (map fst (js_sort category_le ?m)) = mset (map fst ?m)" by (simp only: mset_map mset_js_sort)
  ultimately show ?thesis
    by (simp add: categories_def count_categories sort sorted_wrt_map comp_def)
qed

section \<open>Periods\<close>

lemma list_less_append:
  fixes a b c d :: string
  shows "length a = length b \<Longrightarrow> a @ c < b @ d \<longleftrightarrow> a < b \<or> (a = b \<and> c < d)"
  by (induction a b rule: list_induct2) auto

lemma list_le_append:
  fixes a b c d :: string
  shows "length a = length b \<Longrightarrow> a @ c \<le> b @ d \<longleftrightarrow> a < b \<or> (a = b \<and> c \<le> d)"
  unfolding le_less [of "a @ c"] le_less [of c] by (auto simp: list_less_append)

lemma digit_char_less: "a < 10 \<Longrightarrow> b < 10 \<Longrightarrow> digit_char a < digit_char b \<longleftrightarrow> a < b"
  by (simp add: digit_char_def less_char_def)

lemma last_digits_eq: "a < 10 ^ k \<Longrightarrow> b < 10 ^ k \<Longrightarrow> last_digits k a = last_digits k b \<longleftrightarrow> a = b"
  by (metis dec_val_last_digits mod_less)

lemma div_mod_less: "(a :: nat) < b \<longleftrightarrow> a div 10 < b div 10 \<or> (a div 10 = b div 10 \<and> a mod 10 < b mod 10)"
proof -
  have "a = 10 * (a div 10) + a mod 10" "b = 10 * (b div 10) + b mod 10" "a mod 10 < 10" "b mod 10 < 10"
    by simp_all
  then show ?thesis by linarith
qed

lemma last_digits_less:
  "a < 10 ^ k \<Longrightarrow> b < 10 ^ k \<Longrightarrow> last_digits k a < last_digits k b \<longleftrightarrow> a < b"
proof (induction k arbitrary: a b)
  case (Suc k)
  then have less: "a div 10 < 10 ^ k" "b div 10 < 10 ^ k" by (simp_all add: less_mult_imp_div_less mult.commute)
  have "[digit_char (a mod 10)] < [digit_char (b mod 10)] \<longleftrightarrow> a mod 10 < b mod 10"
    by (simp add: digit_char_less)
  then have "last_digits k (a div 10) @ [digit_char (a mod 10)] < last_digits k (b div 10) @ [digit_char (b mod 10)]
      \<longleftrightarrow> a div 10 < b div 10 \<or> (a div 10 = b div 10 \<and> a mod 10 < b mod 10)"
    using Suc.IH [OF less] last_digits_eq [OF less] by (simp only: list_less_append length_last_digits)
  with div_mod_less [of a b] show ?case by (simp only: last_digits.simps)
qed simp

lemma last_digits_le:
  "a < 10 ^ k \<Longrightarrow> b < 10 ^ k \<Longrightarrow> last_digits k a \<le> last_digits k b \<longleftrightarrow> a \<le> b"
  unfolding le_less by (simp add: last_digits_less last_digits_eq)

text \<open>An ISO date: year, month and day with four, two and two digits.\<close>

definition iso :: "nat \<Rightarrow> nat \<Rightarrow> nat \<Rightarrow> string" where
  "iso y m d = last_digits 4 y @ ''-'' @ last_digits 2 m @ ''-'' @ last_digits 2 d"

definition is_date :: "nat \<Rightarrow> nat \<Rightarrow> nat \<Rightarrow> bool" where
  "is_date y m d \<longleftrightarrow> 1000 \<le> y \<and> y < 10000 \<and> 1 \<le> m \<and> m \<le> 12 \<and> 1 \<le> d \<and> d \<le> 31"

lemma iso_le:
  assumes "y < 10000" "y' < 10000" "m < 100" "m' < 100" "d < 100" "d' < 100"
  shows "iso y m d \<le> iso y' m' d' \<longleftrightarrow> y < y' \<or> (y = y' \<and> (m < m' \<or> (m = m' \<and> d \<le> d')))"
  using assms
  by (simp add: iso_def list_le_append last_digits_less last_digits_eq last_digits_le del: last_digits.simps)

lemma iso_parts:
  assumes "is_date y m d"
  shows "number_of (take 4 (iso y m d)) = Some (int y)" "number_of (take 2 (drop 5 (iso y m d))) = Some (int m)"
proof -
  have "take 4 (iso y m d) = last_digits 4 y"
    by (simp add: iso_def del: last_digits.simps)
  moreover have "drop 4 (iso y m d) = ''-'' @ last_digits 2 m @ ''-'' @ last_digits 2 d"
    by (simp add: iso_def del: last_digits.simps)
  then have "drop 1 (drop 4 (iso y m d)) = last_digits 2 m @ ''-'' @ last_digits 2 d" by simp
  then have "take 2 (drop 5 (iso y m d)) = last_digits 2 m"
    by (simp del: last_digits.simps)
  ultimately show "number_of (take 4 (iso y m d)) = Some (int y)"
    "number_of (take 2 (drop 5 (iso y m d))) = Some (int m)"
    using assms by (simp_all add: number_of_def dec_val_last_digits is_date_def del: last_digits.simps)
qed

lemma month_text: "m < 100 \<Longrightarrow> pad (Some (int m)) = last_digits 2 m"
proof -
  assume "m < 100"
  then have "m div 10 < 10" by simp
  moreover have "pad_zero 2 (nat_str m) = nat_str (m div 10) @ last_digits 1 m"
    using pad_zero_nat_str [of 1 m] by (simp add: numeral_2_eq_2)
  ultimately show ?thesis
    by (simp add: pad_def number_text_def int_str_def nat_str_digit numeral_2_eq_2)
qed

lemma month_number_inj:
  fixes y z m k :: nat
  assumes "1 \<le> m" "m \<le> 12" "1 \<le> k" "k \<le> 12"
  shows "12 * y + m = 12 * z + k \<longleftrightarrow> y = z \<and> m = k"
  using assms by (cases y z rule: linorder_cases) auto

lemma month_before:
  fixes y ty m tm :: nat
  assumes "1 \<le> m" "m \<le> 12" "1 \<le> tm" "tm \<le> 12" "0 < ty"
  shows "(if tm = 1 then y = ty - 1 \<and> m = 12 else y = ty \<and> m = tm - 1) \<longleftrightarrow>
    12 * y + m + 1 = 12 * ty + tm"
proof (cases "tm = 1")
  case True
  then have "12 * y + m + 1 = 12 * ty + tm \<longleftrightarrow> 12 * y + m = 12 * (ty - 1) + 12"
    using assms(5) by auto
  with month_number_inj [of m 12 y "ty - 1"] assms True show ?thesis by simp
next
  case False
  then have "12 * y + m + 1 = 12 * ty + tm \<longleftrightarrow> 12 * y + m = 12 * ty + (tm - 1)"
    using assms(3) by auto
  with month_number_inj [of m "tm - 1" y ty] assms False show ?thesis by simp
qed

lemma length_nat_str: "10 \<le> n \<Longrightarrow> length (nat_str n) = Suc (length (nat_str (n div 10)))"
  by (subst nat_str.simps) simp

lemma year_text:
  assumes "1000 \<le> y" "y < 10000"
  shows "number_text (Some (int y)) = last_digits 4 y"
proof -
  have "10 \<le> y" "10 \<le> y div 10" "10 \<le> y div 100" "y div 1000 < 10"
    using assms by simp_all
  then have "length (nat_str y) = 4"
    using nat_str_digit [of "y div 1000"]
    by (simp add: length_nat_str div_mult2_eq [symmetric])
  then have "last_digits 4 (dec_val (nat_str y)) = nat_str y"
    by (intro last_digits_dec_val) simp_all
  then show ?thesis by (simp add: number_text_def int_str_def del: last_digits.simps)
qed

lemma day_text: "last_digits 2 1 = ''01''" "last_digits 2 31 = ''31''" "last_digits 2 12 = ''12''"
  by code_simp+

lemma month_range_iso:
  "1000 \<le> y \<Longrightarrow> y < 10000 \<Longrightarrow> m < 100 \<Longrightarrow>
    month_range (Some (int y)) (Some (int m)) = (Some (iso y m 1), Some (iso y m 31))"
  by (simp add: month_range_def month_text year_text iso_def day_text del: last_digits.simps One_nat_def)

text \<open>A stored statement that counts for an account, a currency and a range.\<close>

definition counts :: "string \<Rightarrow> string \<Rightarrow> string option \<times> string option \<Rightarrow> stored_statement \<Rightarrow> bool" where
  "counts a c r s \<longleftrightarrow> st_account s = a \<and> st_currency s = c \<and> in_range (st_end s) r"

lemma better_balance_counts:
  "better_balance a c r best s =
    (if counts a c r s \<and> (case best of None \<Rightarrow> True | Some (_, d) \<Rightarrow> d < st_end s)
     then Some (st_closing s, st_end s) else best)"
  by (auto simp: better_balance_def in_range_def counts_def split: option.splits)

lemma closing_at_end:
  "counts a c r s \<Longrightarrow> list_all P (filter (counts a c r) ss) \<Longrightarrow>
    \<exists>pre u post. ss @ [s] = pre @ u # post \<and> counts a c r u \<and> st_closing s = st_closing u
      \<and> st_end s = st_end u \<and> list_all P (filter (counts a c r) pre)
      \<and> list_all Q (filter (counts a c r) post)"
  by (rule exI [of _ ss], rule exI [of _ s], rule exI [of _ "[]"]) simp

lemma closing_fold:
  "case foldl (better_balance a c r) None ss of
     None \<Rightarrow> filter (counts a c r) ss = []
   | Some (amt, d) \<Rightarrow> \<exists>pre s post. ss = pre @ s # post \<and> counts a c r s \<and> amt = st_closing s \<and> d = st_end s
       \<and> list_all (\<lambda>t. st_end t < d) (filter (counts a c r) pre)
       \<and> list_all (\<lambda>t. st_end t \<le> d) (filter (counts a c r) post)"
proof (induction ss rule: rev_induct)
  case (snoc s ss)
  let ?best = "foldl (better_balance a c r) None ss"
  have app: "foldl (better_balance a c r) None (ss @ [s]) =
      (if counts a c r s \<and> (case ?best of None \<Rightarrow> True | Some (_, d) \<Rightarrow> d < st_end s)
       then Some (st_closing s, st_end s) else ?best)"
    using better_balance_counts [of a c r ?best s] by simp
  show ?case
  proof (cases ?best)
    case None
    with snoc have "filter (counts a c r) ss = []" by simp
    then have "list_all (\<lambda>t. st_end t < st_end s) (filter (counts a c r) ss)" by simp
    with \<open>filter (counts a c r) ss = []\<close> show ?thesis
      unfolding app None by (simp add: closing_at_end)
  next
    case (Some b)
    then obtain amt d where b: "?best = Some (amt, d)" by (cases b) auto
    with snoc obtain pre q post where q: "ss = pre @ q # post" "counts a c r q" "amt = st_closing q"
      "d = st_end q" "list_all (\<lambda>t. st_end t < d) (filter (counts a c r) pre)"
      "list_all (\<lambda>t. st_end t \<le> d) (filter (counts a c r) post)" by auto
    show ?thesis
    proof (cases "counts a c r s \<and> d < st_end s")
      case True
      with q have "list_all (\<lambda>t. st_end t < st_end s) (filter (counts a c r) ss)"
        by (fastforce simp: list_all_iff)
      with True show ?thesis unfolding app b by (simp add: closing_at_end)
    next
      case False
      then have "list_all (\<lambda>t. st_end t \<le> d) (filter (counts a c r) (post @ [s]))"
        using q(6) by auto
      moreover have "foldl (better_balance a c r) None (ss @ [s]) = Some (amt, d)"
        unfolding app b using False by auto
      moreover have "ss @ [s] = pre @ q # (post @ [s])" using q(1) by simp
      ultimately show ?thesis using q(2-5) by (simp only: option.case prod.case) blast
    qed
  qed
qed simp

text \<open>What an entry says of its rows.\<close>

definition entry_ok :: "imported_statement \<Rightarrow> bool" where
  "entry_ok e \<longleftrightarrow>
     is_rows e \<noteq> [] \<and> is_entries e = length (is_rows e)
     \<and> is_start e \<in> bookingDate ` set (is_rows e) \<and> is_end e \<in> bookingDate ` set (is_rows e)
     \<and> list_all (\<lambda>r. is_start e \<le> bookingDate r \<and> bookingDate r \<le> is_end e) (is_rows e)"

lemma accumulate_entry:
  "accumulate new_statement add_to_statement (Some e) rs = Some e' \<Longrightarrow> entry_ok e \<Longrightarrow>
    entry_ok e' \<and> is_rows e' = is_rows e @ rs"
proof (induction rs arbitrary: e)
  case (Cons r rs)
  obtain x where x: "add_to_statement r e = Some x" by (simp add: add_to_statement_def)
  then have rows: "is_rows x = is_rows e @ [r]" "is_entries x = is_entries e + 1"
    "is_start x = min (is_start e) (bookingDate r)" "is_end x = max (is_end e) (bookingDate r)"
    by (auto simp: add_to_statement_def)
  have ok: "entry_ok x" "is_rows x = is_rows e @ [r]"
    using Cons.prems(2) unfolding entry_ok_def rows
    by (auto simp: list_all_iff min_def max_def le_max_iff_disj min_le_iff_disj)
  have "accumulate new_statement add_to_statement (Some x) rs = Some e'"
    using Cons.prems(1) x by simp
  from Cons.IH [OF this ok(1)] ok(2) show ?case by simp
qed simp

lemma accumulate_new_entry:
  "accumulate new_statement add_to_statement None rs = Some e \<Longrightarrow> rs \<noteq> [] \<Longrightarrow>
    entry_ok e \<and> is_rows e = rs"
proof (cases rs)
  case (Cons r qs)
  obtain x where x: "add_to_statement r (new_statement r) = Some x" by (simp add: add_to_statement_def)
  assume acc: "accumulate new_statement add_to_statement None rs = Some e"
  from x have "entry_ok x" "is_rows x = [r]"
    by (auto simp: entry_ok_def add_to_statement_def new_statement_def)
  moreover have "accumulate new_statement add_to_statement (Some x) qs = Some e"
    using acc Cons x by simp
  ultimately show ?thesis using accumulate_entry [of x qs e] Cons by simp
qed simp

lemma imported_groups:
  "map is_rows (imported_entries rs) = map (\<lambda>i. filter (\<lambda>r. statement_id r = i) rs) (first_seen (map statement_id rs))
    \<and> list_all entry_ok (imported_entries rs)"
proof -
  have "\<forall>r \<in> set rs. \<forall>x. add_to_statement r x \<noteq> None" by (simp add: add_to_statement_def)
  from group_into_total [OF this] obtain m where
    m: "group_into statement_id new_statement add_to_statement [] rs = Some m" by blast
  note keys = group_into_keys [OF m]
  have row: "entry_ok e \<and> is_rows e = filter (\<lambda>r. statement_id r = k) rs" if "(k, e) \<in> set m" for k e
  proof -
    have "accumulate new_statement add_to_statement None (filter (\<lambda>r. statement_id r = k) rs) = Some e"
      using that keys(3) oget_group_into [OF m, of k] by simp
    moreover have "k \<in> statement_id ` set rs"
      using that keys(1) by (metis fst_conv image_eqI set_first_seen set_map)
    then have "filter (\<lambda>r. statement_id r = k) rs \<noteq> []" by (auto simp: filter_empty_conv)
    ultimately show ?thesis by (rule accumulate_new_entry)
  qed
  have "map (is_rows \<circ> snd) m = map (\<lambda>i. filter (\<lambda>r. statement_id r = i) rs) (map fst m)"
    using row by (auto simp: comp_def)
  with m keys(1) row show ?thesis by (auto simp: imported_entries_def list_all_iff comp_def)
qed

section \<open>Properties\<close>

text \<open>
  The order of the ledger. Sorting keeps every row once, puts later booking dates first,
  and leaves the rows of one day in the order in which they were imported.
\<close>
lemma sortNewestFirst_correct:
  "mset (sortNewestFirst rs) = mset rs
    \<and> sorted_wrt (\<lambda>a b. bookingDate b \<le> bookingDate a) (sortNewestFirst rs)
    \<and> filter (\<lambda>r. bookingDate r = d) (sortNewestFirst rs) = filter (\<lambda>r. bookingDate r = d) rs"
  by (simp add: mset_sortNewestFirst sortNewestFirst_sorted sortNewestFirst_day)

text \<open>
  The account menu and the account filter agree. The menu lists every pair of account and
  currency of the rows once, the pairs with most rows first; choosing an option's key shows
  exactly the rows of its account and currency, and their number is the count in the menu.
\<close>
lemma accounts_correct:
  "mset (map (\<lambda>q. (o_account q, o_currency q)) (accounts rs))
      = mset (first_seen (map (\<lambda>r. (account r, currency r)) rs))
    \<and> sorted_wrt (\<lambda>a b. o_count b \<le> o_count a) (accounts rs)
    \<and> list_all (\<lambda>q. applyFilters rs ((noFilters (period_of AllPeriods))\<lparr>fl_account := o_key q\<rparr>) today
          = Some (filter (\<lambda>r. account r = o_account q \<and> currency r = o_currency q) rs)
        \<and> o_count q = length (filter (\<lambda>r. account r = o_account q \<and> currency r = o_currency q) rs))
      (accounts rs)"
proof -
  have "mset (map (\<lambda>q. (o_account q, o_currency q)) (accounts rs)) =
      mset (map (\<lambda>q. (o_account q, o_currency q)) (map (option_of rs) (first_seen (map pair_of rs))))"
    by (simp only: mset_map mset_accounts)
  also have "\<dots> = mset (first_seen (map pair_of rs))" by (simp add: option_of_def comp_def)
  finally have pairs: "mset (map (\<lambda>q. (o_account q, o_currency q)) (accounts rs)) =
      mset (first_seen (map (\<lambda>r. (account r, currency r)) rs))"
    by (simp only: pair_of_def [abs_def])
  have "q \<in> option_of rs ` set (first_seen (map pair_of rs))" if "q \<in> set (accounts rs)" for q
    using that mset_eq_setD [OF mset_accounts [of rs]] by simp
  then have "list_all (\<lambda>q. \<exists>p. q = option_of rs p) (accounts rs)"
    by (simp only: list_all_iff) blast
  then have "list_all (\<lambda>q. applyFilters rs ((noFilters (period_of AllPeriods))\<lparr>fl_account := o_key q\<rparr>) today
          = Some (filter (\<lambda>r. account r = o_account q \<and> currency r = o_currency q) rs)
        \<and> o_count q = length (filter (\<lambda>r. account r = o_account q \<and> currency r = o_currency q) rs))
      (accounts rs)"
    by (rule list.pred_mono_strong) (auto simp: option_of_def applyFilters_account pair_of_def prod_eq_iff)
  with pairs accounts_sorted show ?thesis by blast
qed

text \<open>
  The category suggestions: the categories in use, each once, the most used first and
  equally used ones by name.
\<close>
lemma categories_correct:
  "set (categories rs) = category ` set rs - {[]} \<and> distinct (categories rs)
    \<and> sorted_wrt (\<lambda>a b. uses rs b < uses rs a \<or> (uses rs a = uses rs b \<and> a \<le> b)) (categories rs)"
proof -
  have m: "mset (categories rs) = mset (used_categories rs)" using categories_sorted by blast
  then have "set (categories rs) = set (used_categories rs)" by (rule mset_eq_setD)
  moreover have "distinct (categories rs)"
    using mset_eq_imp_distinct_iff [OF m] by (simp add: used_categories_def)
  ultimately show ?thesis using categories_sorted by (auto simp: used_categories_def)
qed

text \<open>
  Periods are calendar periods. For rows and a current date in the years 1001 to 9999,
  "this month" holds exactly the rows booked in the month of the current date, "last month"
  those booked in the month before it, also over the turn of the year, and "this year" those
  booked in its year.
\<close>
lemma periods_correct:
  assumes "is_date y m d" "is_date ty tm td" "1000 < ty" "bookingDate r = iso y m d"
  shows "inPeriod r (period_of ThisMonth) (iso ty tm td) = (12 * y + m = 12 * ty + tm)
    \<and> inPeriod r (period_of LastMonth) (iso ty tm td) = (12 * y + m + 1 = 12 * ty + tm)
    \<and> inPeriod r (period_of ThisYear) (iso ty tm td) = (y = ty)"
proof -
  note today = iso_parts [OF assms(2)]
  have bounds: "1000 \<le> y" "y < 10000" "1 \<le> m" "m \<le> 12" "1 \<le> d" "d \<le> 31"
    "ty < 10000" "1 \<le> tm" "tm \<le> 12"
    using assms(1,2) by (auto simp: is_date_def)
  have this_month: "periodRange (period_of ThisMonth) (iso ty tm td) = (Some (iso ty tm 1), Some (iso ty tm 31))"
    using assms(3) bounds by (simp add: periodRange_def period_of_def today month_range_iso)
  have last_month: "periodRange (period_of LastMonth) (iso ty tm td) =
      (if tm = 1 then (Some (iso (ty - 1) 12 1), Some (iso (ty - 1) 12 31))
       else (Some (iso ty (tm - 1) 1), Some (iso ty (tm - 1) 31)))"
    using assms(3) bounds month_range_iso [of "ty - 1" 12] month_range_iso [of ty "tm - 1"]
    by (auto simp: periodRange_def period_of_def today year_before_def of_nat_diff)
  have this_year: "periodRange (period_of ThisYear) (iso ty tm td) = (Some (iso ty 1 1), Some (iso ty 12 31))"
  proof -
    have "iso ty 1 1 = last_digits 4 ty @ ''-01-01''" "iso ty 12 31 = last_digits 4 ty @ ''-12-31''"
      by (simp_all add: iso_def day_text del: last_digits.simps One_nat_def)
    then show ?thesis
      using assms(3) bounds
      by (simp add: periodRange_def period_of_def today year_text del: last_digits.simps One_nat_def)
  qed
  have iso_nonempty: "iso a b c \<noteq> []" for a b c by (simp add: iso_def)
  have le: "iso a b c \<le> iso a' b' c' \<longleftrightarrow> a < a' \<or> (a = a' \<and> (b < b' \<or> (b = b' \<and> c \<le> c')))"
    if "a < 10000" "a' < 10000" "b \<le> 12" "b' \<le> 12" "c \<le> 31" "c' \<le> 31" for a b c a' b' c'
    using that by (intro iso_le) auto
  have "inPeriod r (period_of ThisMonth) (iso ty tm td) = (12 * y + m = 12 * ty + tm)"
    using bounds by (auto simp: inPeriod_def in_range_def assms(4) this_month iso_nonempty le)
  moreover have "inPeriod r (period_of LastMonth) (iso ty tm td) =
      (if tm = 1 then y = ty - 1 \<and> m = 12 else y = ty \<and> m = tm - 1)"
    using bounds assms(3) by (auto simp: inPeriod_def in_range_def assms(4) last_month iso_nonempty le)
  moreover have "(if tm = 1 then y = ty - 1 \<and> m = 12 else y = ty \<and> m = tm - 1) =
      (12 * y + m + 1 = 12 * ty + tm)"
    using month_before [of m tm ty y] bounds assms(3) by simp
  moreover have "inPeriod r (period_of ThisYear) (iso ty tm td) = (y = ty)"
    using bounds by (auto simp: inPeriod_def in_range_def assms(4) this_year iso_nonempty le)
  ultimately show ?thesis by blast
qed

text \<open>
  The closing balance shown for an account and currency: none when no stored statement of
  them ends within the period, and otherwise the closing balance and end date of the latest
  such statement, the first in the list among those that end on that date.
\<close>
lemma closingBalance_correct:
  "case closingBalance ss a c period today of
     None \<Rightarrow> filter (counts a c (periodRange period today)) ss = []
   | Some (amt, d) \<Rightarrow> \<exists>pre s post. ss = pre @ s # post
       \<and> counts a c (periodRange period today) s \<and> amt = st_closing s \<and> d = st_end s
       \<and> list_all (\<lambda>t. st_end t < d) (filter (counts a c (periodRange period today)) pre)
       \<and> list_all (\<lambda>t. st_end t \<le> d) (filter (counts a c (periodRange period today)) post)"
  unfolding closingBalance_def by (rule closing_fold)

text \<open>
  The statements of the rows: one entry per statement, in the order of their first rows,
  holding exactly the rows of that statement in their order, their number, and the earliest
  and latest booking date among them.
\<close>
lemma importedStatements_correct:
  "map is_rows (imported_entries rs)
      = map (\<lambda>i. filter (\<lambda>r. statement_id r = i) rs) (first_seen (map statement_id rs))
    \<and> list_all entry_ok (imported_entries rs)"
  by (rule imported_groups)

text \<open>
  The comparator that sorts them is no order: of two statements of one account with the same
  end, it puts either before the other.
\<close>
lemma imported_cmp_inconsistent:
  "is_end a = is_end b \<Longrightarrow> k_account (is_key a) = k_account (is_key b) \<Longrightarrow>
    imported_cmp a b = 1 \<and> imported_cmp b a = 1"
  by (simp add: imported_cmp_def)

end
