(* ===== verification/Sy_Scheme.thy ===== *)
theory Sy_Scheme
  imports Js_Object
begin

text \<open>
  \<open>syncables/src/pagination/validate.ts\<close>, \<open>items.ts\<close> and \<open>autodetect.ts\<close>: the pagination
  schemes an OpenAPI document declares, which of them is valid, which one applies to an
  operation, and which field of a response holds the items.

  Documents, operations, schemes and schemas are JSON values of the interfaces of
  \<open>pagination/types.ts\<close> and \<open>openapi/types.ts\<close>: a field description is an object, a role and a
  scheme name are texts, \<open>allOf\<close> is an array of schemas and \<open>autoDetect\<close> is not null.
\<close>

section \<open>\<open>validate.ts\<close>\<close>

definition SCHEME_TYPES :: "string list" where
  "SCHEME_TYPES = [''pageNumber'', ''pageToken'', ''nextLink'']"

definition REQUEST_ROLES :: "string list" where
  "REQUEST_ROLES = [''page'', ''pageSize'', ''offset'', ''pageToken'', ''cursor'']"

definition RESPONSE_ROLES :: "string list" where
  "RESPONSE_ROLES =
     [''nextPageToken'', ''nextCursor'', ''nextLink'', ''totalCount'', ''totalPages'', ''pageSize'', ''currentPage'']"

definition isExtensionKey :: "string \<Rightarrow> bool" where
  "isExtensionKey key \<longleftrightarrow> starts_with ''x-'' key"

text \<open>\<open>field.role\<close>, and \<open>scheme.request?.queryParameters ?? {}\<close> with its like.\<close>

definition role_of :: "json \<Rightarrow> string option" where
  "role_of field = text_of (member ''role'' (Some field))"

definition fields_at :: "string \<Rightarrow> string \<Rightarrow> json \<Rightarrow> (string \<times> json) list" where
  "fields_at side location scheme = members (member location (member side (Some scheme)))"

definition quoted :: "string \<Rightarrow> string" where
  "quoted s = quote_char # s @ [quote_char]"

definition role_errors :: "string \<Rightarrow> string list \<Rightarrow> string \<Rightarrow> (string \<times> json) list \<Rightarrow> string list" where
  "role_errors path roles kind fs =
     concat (map (\<lambda>(fieldName, field).
       (case role_of field of
          None \<Rightarrow> []
        | Some role \<Rightarrow>
            if role \<noteq> [] \<and> \<not> isExtensionKey role \<and> role \<notin> set roles
            then [path @ ''.'' @ fieldName @ ''.role is not a valid '' @ kind @ '' role (got '' @ quoted role @ '')'']
            else [])) fs)"

definition validatePaginationScheme :: "string \<Rightarrow> json \<Rightarrow> string list" where
  "validatePaginationScheme name scheme =
     (let path = ''paginationSchemes.'' @ name;
          type = member ''type'' (Some scheme)
      in (if \<exists>t \<in> set SCHEME_TYPES. type = Some (JStr t) then []
          else [path @ ''.type must be one of pageNumber, pageToken, or nextLink (got ''
            @ quoted (case type of None \<Rightarrow> ''undefined'' | Some t \<Rightarrow> js_string t) @ '')''])
         @ (if \<not> truthy_json (member ''request'' (Some scheme)) \<and> \<not> truthy_json (member ''response'' (Some scheme))
            then [path @ '' must define at least one of '' @ quoted ''request'' @ '' or '' @ quoted ''response''] else [])
         @ role_errors (path @ ''.request.queryParameters'') REQUEST_ROLES ''request'' (fields_at ''request'' ''queryParameters'' scheme)
         @ role_errors (path @ ''.request.bodyFields'') REQUEST_ROLES ''request'' (fields_at ''request'' ''bodyFields'' scheme)
         @ role_errors (path @ ''.response.bodyFields'') RESPONSE_ROLES ''response'' (fields_at ''response'' ''bodyFields'' scheme)
         @ role_errors (path @ ''.response.headers'') RESPONSE_ROLES ''response'' (fields_at ''response'' ''headers'' scheme))"

section \<open>\<open>items.ts\<close>\<close>

definition COMMON_ITEMS_FIELDS :: "string list" where
  "COMMON_ITEMS_FIELDS = [''items'', ''data'', ''results'', ''records'', ''content'']"

text \<open>The properties of a schema, those of its \<open>allOf\<close> branches flattened into one map.\<close>

lemma elements_member: "b \<in> set (elements j) \<Longrightarrow> \<exists>bs. j = Some (JArr bs) \<and> b \<in> set bs"
  by (cases j; cases "the j") (auto simp: elements_def)

lemma elements_size: "b \<in> set (elements (oget m k)) \<Longrightarrow> size b < Suc (size_list (size_prod (\<lambda>_. 0) size) m)"
proof -
  assume b: "b \<in> set (elements (oget m k))"
  then obtain bs where bs: "oget m k = Some (JArr bs)" "b \<in> set bs"
    using elements_member by blast
  have "size b < size (JArr bs)" using size_list_estimation' [OF bs(2), of "size b" size] by simp
  then show ?thesis using oget_size [OF bs(1)] by simp
qed

function effectiveProperties :: "json \<Rightarrow> (string, json) omap" where
  "effectiveProperties (JObj m) =
     (if truthy_json (oget m ''allOf'')
      then foldl (\<lambda>merged branch. spread merged (effectiveProperties branch)) [] (elements (oget m ''allOf''))
      else spread [] (members (oget m ''properties'')))"
| "effectiveProperties JNull = []"
| "effectiveProperties (JBool b) = []"
| "effectiveProperties (JNum n) = []"
| "effectiveProperties (JStr s) = []"
| "effectiveProperties (JArr xs) = []"
  by pat_completeness auto
termination by (relation "measure size") (auto dest: elements_size)

definition schema_properties :: "json option \<Rightarrow> (string, json) omap" where
  "schema_properties schema = (case schema of None \<Rightarrow> [] | Some s \<Rightarrow> effectiveProperties s)"

text \<open>The top-level names that a scheme claims for its own metadata.\<close>

definition metadataFieldRoots :: "json option \<Rightarrow> string list" where
  "metadataFieldRoots scheme =
     map (\<lambda>(k, _). hd (split_on (CHR ''.'') k)) (members (member ''bodyFields'' (member ''response'' scheme)))"

definition locateItemsField :: "json option \<Rightarrow> json option \<Rightarrow> string option" where
  "locateItemsField schema scheme =
     (let properties = schema_properties schema; excluded = metadataFieldRoots scheme
      in case List.find (\<lambda>(name, p). name \<notin> set excluded \<and> member ''type'' (Some p) = Some (JStr ''array'')) properties of
           Some (name, _) \<Rightarrow> Some name
         | None \<Rightarrow> List.find (\<lambda>name. name \<in> set (okeys properties) \<and> name \<notin> set excluded) COMMON_ITEMS_FIELDS)"

definition itemSchemaFor :: "json option \<Rightarrow> json option \<Rightarrow> json option" where
  "itemSchemaFor schema scheme =
     (if member ''type'' schema = Some (JStr ''array'') then member ''items'' schema
      else case locateItemsField schema scheme of
             None \<Rightarrow> None
           | Some field \<Rightarrow>
               if field = [] then None else member ''items'' (oget (schema_properties schema) field))"

section \<open>\<open>autodetect.ts\<close>\<close>

definition validSchemes :: "json \<Rightarrow> (string, json) omap" where
  "validSchemes document =
     filter (\<lambda>(name, scheme). validatePaginationScheme name scheme = [])
       (members (member ''paginationSchemes'' (member ''components'' (Some document))))"

definition queryParamNames :: "json \<Rightarrow> string list" where
  "queryParamNames operation =
     List.map_filter (\<lambda>p. if member ''in'' (Some p) = Some (JStr ''query'') then text_of (member ''name'' (Some p)) else None)
       (elements (member ''parameters'' (Some operation)))"

definition bodyFieldNames :: "json \<Rightarrow> string list" where
  "bodyFieldNames operation =
     okeys (members (member ''properties'' (member ''schema'' (member ''application/json''
       (member ''content'' (member ''requestBody'' (Some operation)))))))"

text \<open>\<open>options[k] ?? true\<close>, used as a condition.\<close>

definition option_on :: "string \<Rightarrow> json option \<Rightarrow> bool" where
  "option_on k options = truthy_json (or_else (member k options) (Some (JBool True)))"

text \<open>One dimension of the match: nothing when the scheme declares no field for it.\<close>

definition dimension :: "bool \<Rightarrow> (string \<times> json) list \<Rightarrow> string list \<Rightarrow> bool list" where
  "dimension on required declared =
     (if on \<and> required \<noteq> [] then [list_all (\<lambda>name. name \<in> set declared) (okeys required)] else [])"

definition autoDetectMatches :: "json \<Rightarrow> json \<Rightarrow> bool" where
  "autoDetectMatches scheme operation =
     (let options = member ''autoDetect'' (Some scheme);
          results =
            dimension (option_on ''matchQueryParams'' options) (fields_at ''request'' ''queryParameters'' scheme) (queryParamNames operation)
            @ dimension (option_on ''matchBodyFields'' options) (fields_at ''request'' ''bodyFields'' scheme) (bodyFieldNames operation)
      in if options = Some (JBool False) \<or> results = [] then False
         else if option_on ''requireAll'' options then list_all (\<lambda>b. b) results
         else list_ex (\<lambda>b. b) results)"

function deepMerge :: "(string, json) omap \<Rightarrow> (string, json) omap \<Rightarrow> (string, json) omap" where
  "deepMerge result [] = result"
| "deepMerge result ((key, value) # rest) =
     deepMerge
       (oset key
         (case (oget result key, value) of
            (Some (JObj existing), JObj overrides) \<Rightarrow> JObj (deepMerge existing overrides)
          | _ \<Rightarrow> value) result) rest"
  by pat_completeness auto
termination by (relation "measure (\<lambda>(b, m). size_list (size_prod (\<lambda>_. 0) size) m)") auto

definition find_entry :: "string \<Rightarrow> (string, json) omap \<Rightarrow> (string \<times> json) option" where
  "find_entry k m = map_option (\<lambda>v. (k, v)) (oget m k)"

text \<open>
  The scheme of an operation, with its name: the first explicit \<open>x-pagination\<close> application,
  its overrides merged in, or else the first valid scheme that matches by auto-detection.
\<close>

definition merge_overrides :: "json option \<Rightarrow> json \<Rightarrow> json" where
  "merge_overrides overrides base =
     (if truthy_json overrides then JObj (deepMerge (members (Some base)) (members overrides)) else base)"

definition resolveEffectiveScheme :: "json \<Rightarrow> json \<Rightarrow> (string \<times> json) option" where
  "resolveEffectiveScheme document operation =
     (let schemes = validSchemes document
      in case member ''x-pagination'' (Some operation) of
           Some (JArr (application # _)) \<Rightarrow>
             Option.bind (text_of (member ''scheme'' (Some application))) (\<lambda>name.
             Option.bind (oget schemes name) (\<lambda>base.
               Some (name, merge_overrides (member ''overrides'' (Some application)) base)))
         | _ \<Rightarrow> List.find (\<lambda>(_, scheme). autoDetectMatches scheme operation) schemes)"

section \<open>Which scheme applies\<close>

lemma find_Some_first: "List.find P xs = Some x \<Longrightarrow> \<exists>as bs. xs = as @ x # bs \<and> P x \<and> (\<forall>y \<in> set as. \<not> P y)"
proof (induction xs)
  case (Cons y xs)
  show ?case
  proof (cases "P y")
    case True
    then show ?thesis using Cons.prems by (intro exI [of _ "[]"] exI [of _ xs]) auto
  next
    case False
    then obtain as bs where "xs = as @ x # bs" "P x" "\<forall>z \<in> set as. \<not> P z" using Cons by auto
    then show ?thesis using False by (intro exI [of _ "y # as"] exI [of _ bs]) auto
  qed
qed simp

lemma find_filter_conj: "List.find Q (filter P xs) = List.find (\<lambda>x. P x \<and> Q x) xs"
  by (induction xs) auto

lemma valid_scheme_iff:
  "(name, scheme) \<in> set (validSchemes document) \<longleftrightarrow>
     (name, scheme) \<in> set (members (member ''paginationSchemes'' (member ''components'' (Some document))))
     \<and> validatePaginationScheme name scheme = []"
  by (auto simp: validSchemes_def)

lemma role_errors_none:
  "role_errors path roles kind fs = [] \<longleftrightarrow>
     (\<forall>(n, f) \<in> set fs. \<forall>r. role_of f = Some r \<longrightarrow> r = [] \<or> isExtensionKey r \<or> r \<in> set roles)"
proof (induction fs)
  case (Cons nf fs)
  then show ?case by (cases nf) (auto simp: role_errors_def split: option.splits)
qed (simp add: role_errors_def)

text \<open>What a scheme without errors satisfies.\<close>

definition scheme_valid :: "json \<Rightarrow> bool" where
  "scheme_valid scheme \<longleftrightarrow>
     (\<exists>t \<in> set SCHEME_TYPES. member ''type'' (Some scheme) = Some (JStr t))
     \<and> (truthy_json (member ''request'' (Some scheme)) \<or> truthy_json (member ''response'' (Some scheme)))
     \<and> (\<forall>(side, location, roles) \<in> {(''request'', ''queryParameters'', REQUEST_ROLES), (''request'', ''bodyFields'', REQUEST_ROLES),
            (''response'', ''bodyFields'', RESPONSE_ROLES), (''response'', ''headers'', RESPONSE_ROLES)}.
          \<forall>(n, f) \<in> set (fields_at side location scheme). \<forall>r. role_of f = Some r \<longrightarrow> r = [] \<or> isExtensionKey r \<or> r \<in> set roles)"

lemma validate_correct: "validatePaginationScheme name scheme = [] \<longleftrightarrow> scheme_valid scheme"
  unfolding validatePaginationScheme_def scheme_valid_def Let_def append_is_Nil_conv role_errors_none
  by (simp only: if_split ball_simps insert_iff simp_thms list.distinct) auto


definition schemes_declared :: "json \<Rightarrow> (string, json) omap" where
  "schemes_declared document = members (member ''paginationSchemes'' (member ''components'' (Some document)))"

definition explicit_application :: "json \<Rightarrow> json option" where
  "explicit_application operation =
     (case member ''x-pagination'' (Some operation) of Some (JArr (a # _)) \<Rightarrow> Some a | _ \<Rightarrow> None)"

lemma resolve_explicit:
  "explicit_application operation = Some a \<Longrightarrow> resolveEffectiveScheme document operation =
     Option.bind (text_of (member ''scheme'' (Some a))) (\<lambda>name.
     Option.bind (oget (validSchemes document) name) (\<lambda>base.
       Some (name, merge_overrides (member ''overrides'' (Some a)) base)))"
  by (auto simp: explicit_application_def resolveEffectiveScheme_def split: option.splits json.splits list.splits)

lemma resolve_detected:
  "explicit_application operation = None \<Longrightarrow> resolveEffectiveScheme document operation =
     List.find (\<lambda>(_, scheme). autoDetectMatches scheme operation) (validSchemes document)"
  by (auto simp: explicit_application_def resolveEffectiveScheme_def split: option.splits json.splits list.splits)

text \<open>
  C37. The scheme resolved for an operation is the right one. Without an explicit
  \<open>x-pagination\<close> it is a valid scheme that the document declares and that matches, and every
  scheme declared before it is invalid or does not match; when there is none, none matches.
  With one, it is the named scheme, which is declared and valid, with the overrides merged in.
\<close>

theorem scheme_resolved:
  "case resolveEffectiveScheme document operation of
     None \<Rightarrow>
       (case explicit_application operation of
          None \<Rightarrow> \<not> (\<exists>(n, s) \<in> set (schemes_declared document). scheme_valid s \<and> autoDetectMatches s operation)
        | Some a \<Rightarrow> \<not> (\<exists>n s. member ''scheme'' (Some a) = Some (JStr n)
            \<and> oget (filter (\<lambda>(_, s). scheme_valid s) (schemes_declared document)) n = Some s))
   | Some (name, scheme) \<Rightarrow>
       (case explicit_application operation of
          None \<Rightarrow> \<exists>before after. schemes_declared document = before @ (name, scheme) # after
            \<and> scheme_valid scheme \<and> autoDetectMatches scheme operation
            \<and> \<not> (\<exists>(n, s) \<in> set before. scheme_valid s \<and> autoDetectMatches s operation)
        | Some a \<Rightarrow> \<exists>base. member ''scheme'' (Some a) = Some (JStr name)
            \<and> (name, base) \<in> set (schemes_declared document) \<and> scheme_valid base
            \<and> scheme = merge_overrides (member ''overrides'' (Some a)) base)"
proof -
  let ?ok = "\<lambda>(n :: string, s). scheme_valid s" and ?matches = "\<lambda>(n :: string, s). autoDetectMatches s operation"
  have valid: "validSchemes document = filter ?ok (schemes_declared document)"
    by (simp add: validSchemes_def schemes_declared_def validate_correct)
  show ?thesis
  proof (cases "explicit_application operation")
    case None
    have found: "resolveEffectiveScheme document operation = List.find ?matches (filter ?ok (schemes_declared document))"
      using resolve_detected [OF None] valid by simp
    show ?thesis
    proof (cases "resolveEffectiveScheme document operation")
      case none: None
      then have "\<not> (\<exists>(n, s) \<in> set (schemes_declared document). scheme_valid s \<and> autoDetectMatches s operation)"
        using found by (auto simp: find_None_iff)
      then show ?thesis unfolding none None option.case .
    next
      case (Some ns)
      obtain name scheme where ns: "ns = (name, scheme)" by fastforce
      have "List.find (\<lambda>x. ?ok x \<and> ?matches x) (schemes_declared document) = Some (name, scheme)"
        using found Some ns unfolding find_filter_conj by simp
      from find_Some_first [OF this] obtain before after where
        "schemes_declared document = before @ (name, scheme) # after" "scheme_valid scheme" "autoDetectMatches scheme operation"
        "\<not> (\<exists>(n, s) \<in> set before. scheme_valid s \<and> autoDetectMatches s operation)" by auto
      then show ?thesis unfolding Some ns None option.case prod.case by blast
    qed
  next
    case (Some a)
    show ?thesis
    proof (cases "resolveEffectiveScheme document operation")
      case None
      then have "\<not> (\<exists>n s. member ''scheme'' (Some a) = Some (JStr n) \<and> oget (filter ?ok (schemes_declared document)) n = Some s)"
        using resolve_explicit [OF Some, of document] by (auto simp: valid bind_eq_None_conv)
      then show ?thesis unfolding None Some option.case .
    next
      case res: (Some ns)
      obtain name scheme where ns: "ns = (name, scheme)" by fastforce
      have "Option.bind (text_of (member ''scheme'' (Some a))) (\<lambda>name.
          Option.bind (oget (validSchemes document) name) (\<lambda>base.
            Some (name, merge_overrides (member ''overrides'' (Some a)) base))) = Some (name, scheme)"
        using resolve_explicit [OF Some, of document] res ns by simp
      then obtain base where b: "member ''scheme'' (Some a) = Some (JStr name)" "oget (validSchemes document) name = Some base"
        "scheme = merge_overrides (member ''overrides'' (Some a)) base"
        by (auto simp: bind_eq_Some_conv text_of_eq)
      from map_of_SomeD [OF b(2)] have "(name, base) \<in> set (schemes_declared document)" "scheme_valid base"
        unfolding valid by auto
      then show ?thesis unfolding res ns Some option.case prod.case using b by blast
    qed
  qed
qed

section \<open>Merging overrides\<close>

lemma owf_deepMerge: "owf base \<Longrightarrow> owf (deepMerge base overrides)"
  by (induction base overrides rule: deepMerge.induct) auto

definition merged_member :: "json option \<Rightarrow> json \<Rightarrow> json" where
  "merged_member existing value =
     (case (existing, value) of (Some (JObj e), JObj v) \<Rightarrow> JObj (deepMerge e v) | _ \<Rightarrow> value)"

lemma deepMerge_Cons: "deepMerge result ((key, value) # rest) = deepMerge (oset key (merged_member (oget result key) value) result) rest"
  by (simp add: merged_member_def)

declare deepMerge.simps(2) [simp del]

lemma oget_deepMerge:
  "owf overrides \<Longrightarrow> oget (deepMerge base overrides) k =
     (case oget overrides k of None \<Rightarrow> oget base k | Some v \<Rightarrow> Some (merged_member (oget base k) v))"
proof (induction overrides arbitrary: base)
  case (Cons kv rest)
  obtain j v where kv: "kv = (j, v)" by fastforce
  have j: "oget rest j = None" using Cons.prems by (force simp: kv map_of_eq_None_iff)
  show ?case using Cons by (auto simp: kv j deepMerge_Cons split: option.splits)
qed (simp add: deepMerge.simps)

lemma deepMerge_absorbed:
  "(\<And>k v. (k, v) \<in> set overrides \<Longrightarrow> \<exists>w. oget m k = Some w \<and> merged_member (Some w) v = w)
   \<Longrightarrow> deepMerge m overrides = m"
proof (induction overrides)
  case (Cons kv rest)
  obtain k v where kv: "kv = (k, v)" by fastforce
  obtain w where "oget m k = Some w" "merged_member (Some w) v = w" using Cons.prems [of k v] kv by auto
  then show ?case using Cons by (simp add: kv deepMerge_Cons oset_same)
qed simp

lemma merged_member_twice: "json_ok v \<Longrightarrow> merged_member (Some (merged_member e v)) v = merged_member e v"
proof (induction v arbitrary: e)
  case (JObj kvs)
  have kvs: "owf kvs" "\<And>k x. (k, x) \<in> set kvs \<Longrightarrow> json_ok x" using JObj.prems by (auto simp: list_all_iff)
  have twice: "deepMerge (deepMerge b kvs) kvs = deepMerge b kvs" for b
  proof (rule deepMerge_absorbed)
    fix k x assume x: "(k, x) \<in> set kvs"
    then have "oget kvs k = Some x" using kvs(1) by (simp add: map_of_is_SomeI)
    then show "\<exists>w. oget (deepMerge b kvs) k = Some w \<and> merged_member (Some w) x = w"
      using JObj.IH [OF x _ kvs(2) [OF x]] by (simp add: oget_deepMerge kvs(1))
  qed
  have self: "deepMerge kvs kvs = kvs"
  proof (rule deepMerge_absorbed)
    fix k x assume x: "(k, x) \<in> set kvs"
    then have "oget kvs k = Some x" using kvs(1) by (simp add: map_of_is_SomeI)
    moreover have "merged_member (Some x) x = x"
      using JObj.IH [OF x _ kvs(2) [OF x], of None] by (simp add: merged_member_def)
    ultimately show "\<exists>w. oget kvs k = Some w \<and> merged_member (Some w) x = w" by blast
  qed
  show ?case using twice self by (auto simp: merged_member_def split: option.splits json.splits)
qed (simp_all add: merged_member_def split: option.split json.split)

text \<open>
  Overrides are merged member by member, at every depth, and merging them a second time
  changes nothing.
\<close>

lemma deepMerge_twice:
  assumes "json_ok (JObj overrides)"
  shows "deepMerge (deepMerge base overrides) overrides = deepMerge base overrides
    \<and> oget (deepMerge base overrides) k =
      (case (oget base k, oget overrides k) of
         (b, None) \<Rightarrow> b
       | (Some (JObj b), Some (JObj v)) \<Rightarrow> Some (JObj (deepMerge b v))
       | (b, Some v) \<Rightarrow> Some v)"
proof
  have o: "owf overrides" "\<And>j x. (j, x) \<in> set overrides \<Longrightarrow> json_ok x" using assms by (auto simp: list_all_iff)
  show "deepMerge (deepMerge base overrides) overrides = deepMerge base overrides"
  proof (rule deepMerge_absorbed)
    fix j x assume x: "(j, x) \<in> set overrides"
    then have "oget overrides j = Some x" using o(1) by (simp add: map_of_is_SomeI)
    then show "\<exists>w. oget (deepMerge base overrides) j = Some w \<and> merged_member (Some w) x = w"
      using merged_member_twice [OF o(2) [OF x]] by (simp add: oget_deepMerge o(1))
  qed
  show "oget (deepMerge base overrides) k =
      (case (oget base k, oget overrides k) of
         (b, None) \<Rightarrow> b
       | (Some (JObj b), Some (JObj v)) \<Rightarrow> Some (JObj (deepMerge b v))
       | (b, Some v) \<Rightarrow> Some v)"
    unfolding oget_deepMerge [OF o(1)] merged_member_def
    by (cases "oget base k"; cases "oget overrides k") (simp_all split: json.split)
qed

end
