(* ===== verification/Sy_Pagination.thy ===== *)
theory Sy_Pagination
  imports Sy_Scheme "HOL-Library.Sublist"
begin

text \<open>
  \<open>syncables/src/pagination/request-builder.ts\<close> and \<open>response-parser.ts\<close>: the query and the
  body of one page request, the pagination state read out of a response, and the cursor of
  the next page.

  Header texts are 8-bit, as HTTP has them. Counts are integers.
\<close>

section \<open>Dotted paths\<close>

text \<open>\<open>node[segment]\<close> of an object or an array; \<open>undefined\<close> for anything that is not one.\<close>

definition child :: "json option \<Rightarrow> string \<Rightarrow> json option" where
  "child node segment =
     (case node of
        Some (JObj m) \<Rightarrow> oget m segment
      | Some (JArr xs) \<Rightarrow>
          (if segment = ''length'' then Some (JNum (int (length xs)))
           else case array_index segment of
                  Some i \<Rightarrow> if i < length xs then Some (xs ! i) else None
                | None \<Rightarrow> None)
      | _ \<Rightarrow> None)"

definition readNestedField :: "json \<Rightarrow> string \<Rightarrow> json option" where
  "readNestedField body path = foldl child (Some body) (split_on (CHR ''.'') path)"

text \<open>
  \<open>node[segment] = value\<close>. In an array an index past the end leaves holes, which are null in
  JSON; a name that is not an index is not part of the JSON text.
\<close>

definition set_child :: "string \<Rightarrow> json \<Rightarrow> json \<Rightarrow> json" where
  "set_child segment value node =
     (case node of
        JObj m \<Rightarrow> JObj (oset segment value m)
      | JArr xs \<Rightarrow>
          (case array_index segment of
             Some i \<Rightarrow> JArr ((xs @ replicate (Suc i - length xs) JNull)[i := value])
           | None \<Rightarrow> node)
      | _ \<Rightarrow> node)"

text \<open>The object that the path continues in: the child when it is one, a new one otherwise.\<close>

definition inner :: "json \<Rightarrow> string \<Rightarrow> json" where
  "inner node segment =
     (case child (Some node) segment of
        Some (JObj m) \<Rightarrow> JObj m | Some (JArr xs) \<Rightarrow> JArr xs | _ \<Rightarrow> JObj [])"

fun set_at :: "string list \<Rightarrow> json \<Rightarrow> json \<Rightarrow> json" where
  "set_at [] value node = node"
| "set_at [segment] value node = set_child segment value node"
| "set_at (segment # segments) value node = set_child segment (set_at segments value (inner node segment)) node"

definition setNestedField :: "json \<Rightarrow> string \<Rightarrow> json \<Rightarrow> json" where
  "setNestedField body path value = set_at (split_on (CHR ''.'') path) value body"

section \<open>Building a request\<close>

record page_cursor =
  pc_offset :: "int option"
  pc_page :: "int option"
  pc_token :: "string option"

definition no_cursor :: page_cursor where
  "no_cursor = \<lparr>pc_offset = None, pc_page = None, pc_token = None\<rparr>"

definition fieldsWithRole :: "json \<Rightarrow> string \<Rightarrow> string list \<Rightarrow> string list" where
  "fieldsWithRole scheme role locations =
     concat (map (\<lambda>location.
       map fst (filter (\<lambda>(_, field). role_of field = Some role) (fields_at ''request'' location scheme))) locations)"

definition put_all :: "json \<Rightarrow> string list \<Rightarrow> (string, json) omap \<Rightarrow> (string, json) omap" where
  "put_all value names values = foldl (\<lambda>m name. oset name value m) values names"

definition value_or :: "int \<Rightarrow> int option \<Rightarrow> int" where
  "value_or d x = (case x of None \<Rightarrow> d | Some n \<Rightarrow> n)"

lemma value_or_simps [simp]: "value_or d None = d" "value_or d (Some n) = n"
  by (simp_all add: value_or_def)

definition cursorValues :: "json \<Rightarrow> page_cursor \<Rightarrow> int option \<Rightarrow> string \<Rightarrow> (string, json) omap" where
  "cursorValues scheme cursor pageSize location =
     (let withRole = (\<lambda>role. fieldsWithRole scheme role [location]);
          sized = (case pageSize of None \<Rightarrow> [] | Some n \<Rightarrow> put_all (JNum n) (withRole ''pageSize'') []);
          offset = put_all (JNum (value_or 0 (pc_offset cursor))) (withRole ''offset'') sized;
          paged = put_all (JNum (value_or 1 (pc_page cursor))) (withRole ''page'') offset
      in case pc_token cursor of
           None \<Rightarrow> paged
         | Some t \<Rightarrow> put_all (JStr t) (withRole ''pageToken'' @ withRole ''cursor'') paged)"

definition buildQuery :: "json \<Rightarrow> page_cursor \<Rightarrow> int option \<Rightarrow> (string, string) omap" where
  "buildQuery scheme cursor pageSize =
     map (\<lambda>(name, value). (name, js_string value)) (cursorValues scheme cursor pageSize ''queryParameters'')"

definition buildBody :: "json \<Rightarrow> page_cursor \<Rightarrow> int option \<Rightarrow> json" where
  "buildBody scheme cursor pageSize =
     foldl (\<lambda>body (name, value). setNestedField body name value) (JObj [])
       (cursorValues scheme cursor pageSize ''bodyFields'')"

definition usesRequestBody :: "json \<Rightarrow> bool" where
  "usesRequestBody scheme \<longleftrightarrow> fields_at ''request'' ''bodyFields'' scheme \<noteq> []"

section \<open>The \<open>Link\<close> header\<close>

text \<open>\<open>header.split(/,\s*(?=<)/)\<close>: a comma, and spaces, before a \<open><\<close>.\<close>

function split_links :: "string \<Rightarrow> string list" where
  "split_links [] = [[]]"
| "split_links (c # s) =
     (if c = CHR '','' \<and> starts_with ''<'' (dropWhile is_space s)
      then [] # split_links (dropWhile is_space s)
      else (case split_links s of [] \<Rightarrow> [[c]] | p # ps \<Rightarrow> (c # p) # ps))"
  by pat_completeness auto
termination by (relation "measure length") (auto simp: le_imp_less_Suc length_dropWhile_le)

definition line_end :: "char \<Rightarrow> bool" where
  "line_end c \<longleftrightarrow> code c = 10 \<or> code c = 13"

text \<open>\<open>/^\s*<([^>]+)>(.*)/\<close>: the target of a link and its attributes.\<close>

definition link_parts :: "string \<Rightarrow> (string \<times> string) option" where
  "link_parts part =
     (case dropWhile is_space part of
        CHR ''<'' # s \<Rightarrow>
          (let url = takeWhile (\<lambda>c. c \<noteq> CHR ''>'') s; rest = dropWhile (\<lambda>c. c \<noteq> CHR ''>'') s
           in if url \<noteq> [] \<and> rest \<noteq> [] then Some (url, takeWhile (\<lambda>c. \<not> line_end c) (tl rest)) else None)
      | _ \<Rightarrow> None)"

definition word_char :: "char \<Rightarrow> bool" where
  "word_char c \<longleftrightarrow> is_digit c \<or> is_upper_az c \<or> (97 \<le> code c \<and> code c \<le> 122) \<or> c = CHR ''_''"

definition rel_char :: "char \<Rightarrow> bool" where
  "rel_char c \<longleftrightarrow> c \<noteq> quote_char \<and> c \<noteq> CHR '';'' \<and> c \<noteq> CHR '','' \<and> \<not> is_space c"

text \<open>
  \<open>/\brel\s*=\s*"?([^";,\s]+)"?/i\<close> at the front, after the word boundary: what it captures. No
  part of it can match fewer characters and let the rest match.
\<close>

definition rel_value :: "string \<Rightarrow> string option" where
  "rel_value s =
     (if to_lower (take 3 s) = ''rel''
      then (case dropWhile is_space (drop 3 s) of
              CHR ''='' # t \<Rightarrow>
                (let v = dropWhile is_space t;
                     w = (if v \<noteq> [] \<and> hd v = quote_char then tl v else v);
                     value = takeWhile rel_char w
                 in if value \<noteq> [] then Some value else None)
            | _ \<Rightarrow> None)
      else None)"

text \<open>The first place where it matches; \<open>after\<close> says whether a word character is before it.\<close>

fun find_rel :: "bool \<Rightarrow> string \<Rightarrow> string option" where
  "find_rel after [] = None"
| "find_rel after (c # s) =
     (case (if after then None else rel_value (c # s)) of
        Some v \<Rightarrow> Some v
      | None \<Rightarrow> find_rel (word_char c) s)"

fun next_link :: "string list \<Rightarrow> string option" where
  "next_link [] = None"
| "next_link (part # parts) =
     (case link_parts part of
        None \<Rightarrow> next_link parts
      | Some (url, attrs) \<Rightarrow>
          if map_option (\<lambda>r. to_lower (trim r)) (find_rel False attrs) = Some ''next'' then Some url
          else next_link parts)"

definition parseLinkHeader :: "string \<Rightarrow> string option" where
  "parseLinkHeader header = (if header = [] then None else next_link (split_links header))"

section \<open>Reading a response\<close>

definition toStringOrNull :: "json option \<Rightarrow> string option" where
  "toStringOrNull value =
     (case value of
        None \<Rightarrow> None
      | Some v \<Rightarrow> if v = JNull \<or> v = JStr [] then None else Some (js_string v))"

definition toNumberOrNull :: "json option \<Rightarrow> int option" where
  "toNumberOrNull value = (if value = None \<or> value = Some JNull then None else js_number value)"

type_synonym headers = "(string, string) omap"

text \<open>Upper case; of the 8-bit characters, those whose upper case is one 8-bit character.\<close>

definition upper_char :: "char \<Rightarrow> char" where
  "upper_char c =
     (if (97 \<le> code c \<and> code c \<le> 122) \<or> (224 \<le> code c \<and> code c \<le> 254 \<and> code c \<noteq> 247)
      then char_of (code c - 32) else c)"

definition to_upper :: "string \<Rightarrow> string" where
  "to_upper s = map upper_char s"

definition header_of :: "headers \<Rightarrow> string \<Rightarrow> string option" where
  "header_of hs name =
     (case oget hs name of
        Some v \<Rightarrow> Some v
      | None \<Rightarrow> (case oget hs (to_lower name) of Some v \<Rightarrow> Some v | None \<Rightarrow> oget hs (to_upper name)))"

definition body_role :: "json \<Rightarrow> (string, json) omap \<Rightarrow> string \<times> json \<Rightarrow> (string, json) omap" where
  "body_role body roles pf =
     (case (role_of (snd pf), readNestedField body (fst pf)) of
        (Some r, Some v) \<Rightarrow> if r = [] then roles else oset r v roles
      | _ \<Rightarrow> roles)"

definition header_role :: "headers \<Rightarrow> (string, json) omap \<Rightarrow> string \<times> json \<Rightarrow> (string, json) omap" where
  "header_role hs roles nf =
     (case (role_of (snd nf), header_of hs (fst nf)) of
        (Some r, Some raw) \<Rightarrow>
          if r = [] then roles
          else if r = ''nextLink''
          then (case parseLinkHeader raw of
                  Some parsed \<Rightarrow> if parsed \<noteq> [] then oset ''nextLink'' (JStr parsed) roles else roles
                | None \<Rightarrow> roles)
          else oset r (JStr raw) roles
      | _ \<Rightarrow> roles)"

definition extractByRole :: "json \<Rightarrow> json \<Rightarrow> headers \<Rightarrow> (string, json) omap" where
  "extractByRole scheme body hs =
     foldl (header_role hs) (foldl (body_role body) [] (fields_at ''response'' ''bodyFields'' scheme))
       (fields_at ''response'' ''headers'' scheme)"

record page_state =
  nextPageToken :: "string option"
  nextLink :: "string option"
  currentPage :: "int option"
  totalCount :: "int option"
  totalPages :: "int option"
  pageSize :: "int option"
  hasNextPage :: bool

definition deriveHasNextPage :: "string \<Rightarrow> page_state \<Rightarrow> int option \<Rightarrow> bool" where
  "deriveHasNextPage type state itemsFetchedSoFar =
     (if nextLink state \<noteq> None \<or> nextPageToken state \<noteq> None then True
      else
        (case (totalCount state, itemsFetchedSoFar) of
           (Some n, Some k) \<Rightarrow> k < n
         | _ \<Rightarrow>
             if type = ''pageNumber''
             then (case (currentPage state, totalPages state) of
                     (Some c, Some t) \<Rightarrow> c < t
                   | _ \<Rightarrow>
                       (case (currentPage state, totalCount state, pageSize state) of
                          (Some c, Some n, Some p) \<Rightarrow> c * p < n
                        | _ \<Rightarrow> False))
             else False))"

definition scheme_type :: "json \<Rightarrow> string" where
  "scheme_type scheme = (case text_of (member ''type'' (Some scheme)) of Some t \<Rightarrow> t | None \<Rightarrow> [])"

definition parsePaginationState :: "json \<Rightarrow> json \<Rightarrow> headers \<Rightarrow> int option \<Rightarrow> page_state" where
  "parsePaginationState scheme body hs itemsFetchedSoFar =
     (let roles = extractByRole scheme body hs;
          state = \<lparr>nextPageToken = toStringOrNull (or_else (oget roles ''nextPageToken'') (oget roles ''nextCursor'')),
                   nextLink = toStringOrNull (oget roles ''nextLink''),
                   currentPage = toNumberOrNull (oget roles ''currentPage''),
                   totalCount = toNumberOrNull (oget roles ''totalCount''),
                   totalPages = toNumberOrNull (oget roles ''totalPages''),
                   pageSize = toNumberOrNull (oget roles ''pageSize''),
                   hasNextPage = False\<rparr>
      in state\<lparr>hasNextPage := deriveHasNextPage (scheme_type scheme) state itemsFetchedSoFar\<rparr>)"

section \<open>The next page\<close>

definition nextCursor :: "json \<Rightarrow> page_cursor \<Rightarrow> page_state \<Rightarrow> int \<Rightarrow> page_cursor option" where
  "nextCursor scheme cursor state itemsReturned =
     (let both = [''queryParameters'', ''bodyFields'']
      in if \<not> hasNextPage state then None
         else if scheme_type scheme = ''pageToken''
         then (case nextPageToken state of Some t \<Rightarrow> Some (no_cursor\<lparr>pc_token := Some t\<rparr>) | None \<Rightarrow> None)
         else if scheme_type scheme = ''pageNumber''
         then (if fieldsWithRole scheme ''offset'' both \<noteq> []
               then Some (no_cursor\<lparr>pc_offset := Some (value_or 0 (pc_offset cursor) + itemsReturned)\<rparr>)
               else if fieldsWithRole scheme ''page'' both \<noteq> []
               then Some (no_cursor\<lparr>pc_page := Some (value_or 1 (pc_page cursor) + 1)\<rparr>)
               else None)
         else None)"

section \<open>Writing a field and reading it back\<close>

lemma child_simps [simp]: "child (Some (JObj m)) s = oget m s" "child None s = None"
  by (simp_all add: child_def)

lemma set_child_obj [simp]: "set_child s v (JObj m) = JObj (oset s v m)"
  by (simp add: set_child_def)

text \<open>Every node the path goes through is an object, or is not there yet.\<close>

fun objects_along :: "string list \<Rightarrow> json \<Rightarrow> bool" where
  "objects_along [] node = False"
| "objects_along (s # ss) node =
     (case node of
        JObj m \<Rightarrow> ss = [] \<or>
          (case oget m s of Some (JArr _) \<Rightarrow> False | Some (JObj n) \<Rightarrow> objects_along ss (JObj n) | _ \<Rightarrow> True)
      | _ \<Rightarrow> False)"

lemma objects_along_empty: "ss \<noteq> [] \<Longrightarrow> objects_along ss (JObj [])"
  by (cases ss) auto

lemma objects_along_inner:
  assumes "objects_along (s # ss) node" "ss \<noteq> []"
  shows "\<exists>m. node = JObj m \<and> objects_along ss (inner node s)
    \<and> inner node s = JObj (case oget m s of Some (JObj n) \<Rightarrow> n | _ \<Rightarrow> [])"
  using assms by (auto simp: inner_def child_def objects_along_empty split: json.splits option.splits)

lemma read_set_at: "objects_along ss node \<Longrightarrow> foldl child (Some (set_at ss v node)) ss = Some v"
proof (induction ss v node rule: set_at.induct)
  case (2 segment v node)
  then show ?case by (auto simp: set_child_def child_def split: json.splits)
next
  case (3 segment t ts v node)
  obtain m where m: "node = JObj m" "objects_along (t # ts) (inner node segment)"
    using objects_along_inner [OF 3(2)] by auto
  have "foldl child (Some (set_at (segment # t # ts) v node)) (segment # t # ts)
    = foldl child (Some (set_at (t # ts) v (inner node segment))) (t # ts)"
    by (simp add: m(1))
  then show ?case using 3(1) [OF m(2)] by simp
qed simp

lemma read_none [simp]: "foldl child None qs = None"
  by (induction qs) auto

lemma read_absent: "qs \<noteq> [] \<Longrightarrow> foldl child (Some (JObj [])) qs = None"
  by (cases qs) auto

lemma read_set_at_other:
  "objects_along ss node \<Longrightarrow> \<not> prefix ss qs \<Longrightarrow> \<not> prefix qs ss
   \<Longrightarrow> foldl child (Some (set_at ss v node)) qs = foldl child (Some node) qs"
proof (induction ss v node arbitrary: qs rule: set_at.induct)
  case (2 segment v node)
  then obtain q rest where q: "qs = q # rest" "q \<noteq> segment" by (cases qs) auto
  then show ?case using 2 by (auto simp: set_child_def child_def split: json.splits)
next
  case (3 segment t ts v node)
  obtain m where m: "node = JObj m" "objects_along (t # ts) (inner node segment)"
    "inner node segment = JObj (case oget m segment of Some (JObj n) \<Rightarrow> n | _ \<Rightarrow> [])"
    using objects_along_inner [OF 3(2)] by auto
  obtain q rest where q: "qs = q # rest" using 3 by (cases qs) auto
  show ?case
  proof (cases "q = segment")
    case False
    then show ?thesis by (simp add: q m(1))
  next
    case True
    then have rest: "\<not> prefix (t # ts) rest" "\<not> prefix rest (t # ts)" using 3(3,4) by (auto simp: q)
    then have "rest \<noteq> []" by auto
    have "foldl child (Some (set_at (segment # t # ts) v node)) qs = foldl child (Some (set_at (t # ts) v (inner node segment))) rest"
      by (simp add: q True m(1))
    also have "\<dots> = foldl child (Some (inner node segment)) rest" using 3(1) [OF m(2) rest] .
    also have "\<dots> = foldl child (oget m segment) rest"
      using 3(2) \<open>rest \<noteq> []\<close> unfolding m(3)
      by (cases rest) (auto simp: m(1) child_def split: option.splits json.splits)
    finally show ?thesis by (simp add: q True m(1))
  qed
qed simp

text \<open>
  C38. A value written at a dotted path is read back there, and no path that neither extends
  this one nor is extended by it reads anything different; as long as the path does not go
  through an array.
\<close>

theorem nested_field_roundtrip:
  assumes "objects_along (split_on (CHR ''.'') path) body"
  shows "readNestedField (setNestedField body path value) path = Some value
    \<and> (\<not> prefix (split_on (CHR ''.'') path) (split_on (CHR ''.'') other)
      \<longrightarrow> \<not> prefix (split_on (CHR ''.'') other) (split_on (CHR ''.'') path)
      \<longrightarrow> readNestedField (setNestedField body path value) other = readNestedField body other)"
  using read_set_at [OF assms] read_set_at_other [OF assms]
  by (simp add: readNestedField_def setNestedField_def)

theorem nested_field_roundtrip_witness:
  "readNestedField (setNestedField (JObj [(''total'', JNum 1)]) ''paging.next'' (JStr ''x'')) ''paging.next'' = Some (JStr ''x'')
   \<and> readNestedField (setNestedField (JObj [(''total'', JNum 1)]) ''paging.next'' (JStr ''x'')) ''total'' = Some (JNum 1)"
proof -
  have "readNestedField (JObj [(''total'', JNum 1)]) ''total'' = Some (JNum 1)"
    by (simp add: readNestedField_def child_def)
  then show ?thesis
    using nested_field_roundtrip [of "''paging.next''" "JObj [(''total'', JNum 1)]" "JStr ''x''" "''total''"] by simp
qed

section \<open>Writing a \<open>Link\<close> header and reading it back\<close>

definition link_text :: "string \<times> string \<Rightarrow> string" where
  "link_text l = ''<'' @ fst l @ ''>; rel='' @ quoted (snd l)"

definition links_text :: "(string \<times> string) list \<Rightarrow> string" where
  "links_text ls = join '', '' (map link_text ls)"

definition link_ok :: "string \<times> string \<Rightarrow> bool" where
  "link_ok l \<longleftrightarrow> fst l \<noteq> [] \<and> CHR ''<'' \<notin> set (fst l) \<and> CHR ''>'' \<notin> set (fst l)
     \<and> snd l \<noteq> [] \<and> list_all rel_char (snd l) \<and> CHR ''<'' \<notin> set (snd l)"

lemma not_bracket: "quote_char \<noteq> CHR ''<''" "CHR ''<'' \<noteq> quote_char" "CHR '';'' \<noteq> quote_char"
  by (simp_all add: char_of_def)

lemma not_spaces [simp]: "\<not> is_space (CHR ''<'')" "\<not> is_space (CHR '','')" "is_space (CHR '' '')"
  "\<not> is_space (CHR ''='')" "\<not> is_space quote_char"
  by (simp_all add: is_space_def code_def)

lemma starts_dropWhile:
  assumes "CHR ''<'' \<notin> set a" "b = [] \<or> hd b = CHR '',''"
  shows "\<not> starts_with ''<'' (dropWhile is_space (a @ b))"
proof -
  have b: "dropWhile is_space b = b" using assms(2) by (cases b) auto
  have "dropWhile is_space (a @ b) = [] \<or> hd (dropWhile is_space (a @ b)) \<in> set a \<union> {CHR '',''}"
  proof (cases "\<exists>c \<in> set a. \<not> is_space c")
    case True
    then have "dropWhile is_space a \<noteq> []" by (simp add: dropWhile_eq_Nil_conv)
    then have "hd (dropWhile is_space a) \<in> set a" by (metis hd_in_set set_dropWhileD)
    then show ?thesis using True by (auto simp: dropWhile_append)
  next
    case False
    then show ?thesis using b assms(2) by (auto simp: dropWhile_append)
  qed
  then show ?thesis using assms(1) by (cases "dropWhile is_space (a @ b)") (auto simp: starts_with_def simp del: dropWhile_eq_Nil_conv)
qed

lemma split_links_append:
  "CHR ''<'' \<notin> set a \<Longrightarrow> b = [] \<or> hd b = CHR '','' \<Longrightarrow>
   split_links (a @ b) = (a @ hd (split_links b)) # tl (split_links b)"
proof (induction a)
  case Nil
  show ?case by (cases b) (auto split: list.splits)
next
  case (Cons c a)
  have "\<not> starts_with ''<'' (dropWhile is_space (a @ b))" using starts_dropWhile Cons.prems by simp
  then show ?case using Cons by simp
qed

lemma split_links_text: "link_ok l \<Longrightarrow> b = [] \<or> hd b = CHR '','' \<Longrightarrow>
   split_links (link_text l @ b) = (link_text l @ hd (split_links b)) # tl (split_links b)"
proof -
  assume l: "link_ok l" and b: "b = [] \<or> hd b = CHR '',''"
  define a where "a = fst l @ ''>; rel='' @ quoted (snd l)"
  have a: "CHR ''<'' \<notin> set a" using l by (auto simp: a_def link_ok_def quoted_def not_bracket)
  have eq: "link_text l = CHR ''<'' # a" by (simp add: a_def link_text_def)
  show ?thesis using split_links_append [OF a b] by (simp add: eq)
qed

lemma split_links_texts:
  "list_all link_ok ls \<Longrightarrow> ls \<noteq> [] \<Longrightarrow> split_links (links_text ls) = map link_text ls"
proof (induction ls rule: induct_list012)
  case (2 l)
  then show ?case using split_links_text [of l "[]"] by (simp add: links_text_def)
next
  case (3 l k ls)
  define r where "r = links_text (k # ls)"
  have r: "starts_with ''<'' r"
    by (cases ls) (simp_all add: r_def links_text_def link_text_def)
  then have "dropWhile is_space r = r" by (cases r) (auto simp: starts_with_def)
  then have "split_links ('', '' @ r) = [] # split_links r" using r by simp
  moreover have "links_text (l # k # ls) = link_text l @ '', '' @ r"
    by (simp add: links_text_def r_def)
  ultimately show ?case using split_links_text [of l "'', '' @ r"] 3 by (simp add: r_def)
qed simp

lemma rel_value_text: "v \<noteq> [] \<Longrightarrow> list_all rel_char v \<Longrightarrow> rel_value (''rel='' @ quoted v) = Some v"
proof -
  assume v: "v \<noteq> []" "list_all rel_char v"
  have lower: "to_lower ''rel'' = ''rel''" by (simp add: to_lower_def lower_char_def code_def is_upper_az_def)
  have "takeWhile rel_char (v @ [quote_char]) = v"
    using v(2) by (simp add: rel_char_def takeWhile_append list_all_iff)
  then show ?thesis using v(1) lower by (simp add: rel_value_def quoted_def)
qed

lemma find_rel_text:
  assumes "v \<noteq> []" "list_all rel_char v"
  shows "find_rel False (''; rel='' @ quoted v) = Some v"
proof -
  have "rel_value (CHR '';'' # CHR '' '' # CHR ''r'' # s) = None" "rel_value (CHR '' '' # CHR ''r'' # CHR ''e'' # s) = None" for s
    by (simp_all add: rel_value_def to_lower_def lower_char_def code_def is_upper_az_def)
  moreover have "\<not> word_char (CHR '';'')" "\<not> word_char (CHR '' '')"
    by (simp_all add: word_char_def code_def is_upper_az_def is_digit_def)
  ultimately show ?thesis using rel_value_text [OF assms] by simp
qed

lemma trim_no_space: "list_all (\<lambda>c. \<not> is_space c) s \<Longrightarrow> trim s = s"
proof -
  assume s: "list_all (\<lambda>c. \<not> is_space c) s"
  have "trim_start s = s" using s by (cases s) (auto simp: trim_start_def)
  moreover have "trim_end_of is_space s = s" using s by (cases s rule: rev_cases) auto
  ultimately show ?thesis by (simp add: trim_def)
qed

lemma link_parts_text:
  assumes "link_ok l"
  shows "link_parts (link_text l) = Some (fst l, ''; rel='' @ quoted (snd l))"
proof -
  let ?attrs = "''; rel='' @ quoted (snd l)"
  have "CHR ''>'' \<notin> set (fst l)" using assms by (simp add: link_ok_def)
  then have u: "takeWhile (\<lambda>c. c \<noteq> CHR ''>'') (fst l @ ''>'' @ ?attrs) = fst l"
    "dropWhile (\<lambda>c. c \<noteq> CHR ''>'') (fst l @ ''>'' @ ?attrs) = ''>'' @ ?attrs"
    by (auto simp: takeWhile_append dropWhile_append)
  have "\<And>c. c \<in> set (snd l) \<Longrightarrow> \<not> line_end c"
    using assms by (auto simp: link_ok_def list_all_iff rel_char_def line_end_def is_space_def)
  then have "list_all (\<lambda>c. \<not> line_end c) ?attrs"
    by (auto simp: quoted_def list_all_iff line_end_def code_def)
  then have attrs: "takeWhile (\<lambda>c. \<not> line_end c) ?attrs = ?attrs" by (auto simp: list_all_iff takeWhile_eq_all_conv)
  have eq: "link_text l = CHR ''<'' # (fst l @ ''>'' @ ?attrs)" by (simp add: link_text_def)
  have "link_parts (link_text l) = (let url = fst l; rest = ''>'' @ ?attrs
      in if url \<noteq> [] \<and> rest \<noteq> [] then Some (url, takeWhile (\<lambda>c. \<not> line_end c) (tl rest)) else None)"
    unfolding eq link_parts_def using u by (simp add: Let_def del: append_Cons)
  also have "\<dots> = Some (fst l, ?attrs)" using assms attrs by (simp add: link_ok_def)
  finally show ?thesis .
qed

text \<open>
  C39. A \<open>Link\<close> header that lists targets with their relations is read as the first target
  whose relation is \<open>next\<close>, in any case of letters, and as no link when there is none.
\<close>

theorem link_header_roundtrip:
  assumes "list_all link_ok ls"
  shows "parseLinkHeader (links_text ls) = map_option fst (List.find (\<lambda>(url, rel). to_lower rel = ''next'') ls)"
proof (cases "ls = []")
  case True
  then show ?thesis by (simp add: parseLinkHeader_def links_text_def)
next
  case False
  have "next_link (map link_text ls) = map_option fst (List.find (\<lambda>(url, rel). to_lower rel = ''next'') ls)"
    using assms
  proof (induction ls)
    case (Cons l ls)
    have l: "snd l \<noteq> []" "list_all rel_char (snd l)" using Cons.prems by (auto simp: link_ok_def)
    then have "list_all (\<lambda>c. \<not> is_space c) (snd l)" by (auto simp: list_all_iff rel_char_def)
    then show ?case
      using Cons find_rel_text [OF l] link_parts_text [of l]
      by (simp add: trim_no_space case_prod_beta del: find_rel.simps)
  qed simp
  moreover have "links_text ls \<noteq> []"
    using False by (cases ls rule: remdups_adj.cases) (simp_all add: links_text_def link_text_def)
  ultimately show ?thesis using split_links_texts [OF assms False] by (simp add: parseLinkHeader_def)
qed

theorem link_header_roundtrip_witness:
  "parseLinkHeader (links_text [(''/a?page=1'', ''prev''), (''/a?page=3'', ''NEXT'')]) = Some ''/a?page=3''"
proof -
  have "list_all link_ok [(''/a?page=1'', ''prev''), (''/a?page=3'', ''NEXT'')]"
    by (simp add: link_ok_def rel_char_def is_space_def code_def char_of_def)
  from link_header_roundtrip [OF this] show ?thesis
    by (simp add: to_lower_def lower_char_def code_def is_upper_az_def char_of_def bit_simps)
qed

end
