(* ===== verification/Sy_Url.thy ===== *)
theory Sy_Url
  imports Js_Text Dv_Marker
begin

text \<open>
  What the Syncables library uses of URLs. The WHATWG \<open>URL\<close> class is the platform's: it is the
  record \<open>url_api\<close> over a type \<open>'u\<close> of URL objects, with the laws that the lemmas rely on in the
  locale \<open>url_laws\<close>. \<open>plain_urls\<close> is an executable instance for URLs of the form
  \<open>https://host/path?query#fragment\<close>. \<open>encodeURIComponent\<close> and its inverse are those of
  \<open>Dv_Marker\<close>, on texts of 8-bit characters.
\<close>

section \<open>Components\<close>

definition encode_component :: "string \<Rightarrow> string + string" where
  "encode_component s =
     (case encodeURIComponent (u s) of
        Some e \<Rightarrow> Inr (map char_of e)
      | None \<Rightarrow> Inl ''URI malformed'')"

definition decode_component :: "string \<Rightarrow> string + string" where
  "decode_component s =
     (case decodeURIComponent (u s) of
        Some e \<Rightarrow> Inr (map char_of e)
      | None \<Rightarrow> Inl ''URI malformed'')"

definition uri_char :: "char \<Rightarrow> bool" where
  "uri_char c \<longleftrightarrow> unreserved (of_char c) \<or> c = CHR ''%''"

lemma uri_unit: "scalar p \<Longrightarrow> list_all (\<lambda>c. (unreserved c \<or> c = 37) \<and> c < 256) (encode_unit p)"
proof (cases "unreserved p")
  case True
  then show ?thesis using unreserved_ascii [of p] by (auto simp: encode_unit_def)
next
  case False
  assume "scalar p"
  then have "list_all (\<lambda>b. b < 256) (utf8_bytes p)"
    by (auto simp: utf8_bytes_def scalar_def)
  moreover have "list_all (\<lambda>c. (unreserved c \<or> c = 37) \<and> c < 256) (percent b)" if "b < 256" for b
  proof -
    have "unreserved (hex_upper d) \<and> hex_upper d < 256" if "d < 16" for d
      using that by (auto simp: hex_upper_def unreserved_def)
    then show ?thesis using that by (simp add: percent_def)
  qed
  ultimately show ?thesis using False
    by (auto simp: encode_unit_def encode_point_def list_all_iff)
qed

lemma component_roundtrip:
  "\<exists>e. encode_component s = Inr e \<and> decode_component e = Inr s \<and> list_all uri_char e"
proof -
  from well_formed_u [of s] obtain ps where ps: "list_all scalar ps" "u s = utf16 ps" by (auto simp: well_formed_def)
  define e where "e = concat (map encode_unit ps)"
  have enc: "encodeURIComponent (u s) = Some e" using encode_utf16 [OF ps(1)] ps(2) by (simp add: e_def)
  then have dec: "decodeURIComponent e = Some (u s)" using encode_decode [OF well_formed_u, of s] by auto
  have chars: "list_all (\<lambda>c. (unreserved c \<or> c = 37) \<and> c < 256) e"
    using ps(1) uri_unit unfolding e_def list_all_iff by fastforce
  then have "\<And>c. c \<in> set e \<Longrightarrow> (of_char (char_of c) :: nat) = c" by (simp add: list_all_iff)
  then have same: "u (map char_of e) = e" by (simp add: u_def map_idI)
  have "map char_of (u s) = s" by (simp add: u_def comp_def)
  moreover have "uri_char (char_of c)" if "(unreserved c \<or> c = 37) \<and> c < 256" for c
  proof (cases "c = 37")
    case True
    then show ?thesis by (simp add: uri_char_def char_of_def bit_simps)
  next
    case False
    then show ?thesis using that by (simp add: uri_char_def)
  qed
  then have "list_all uri_char (map char_of e)" using chars by (simp add: list_all_iff)
  ultimately show ?thesis by (simp add: encode_component_def decode_component_def enc dec same)
qed

definition component :: "string \<Rightarrow> string" where
  "component s = (case encode_component s of Inr e \<Rightarrow> e | Inl _ \<Rightarrow> [])"

lemma component [simp]: "encode_component s = Inr (component s)" "decode_component (component s) = Inr s"
  "list_all uri_char (component s)"
  using component_roundtrip [of s] by (auto simp: component_def)

lemma component_inj: "component s = component t \<Longrightarrow> s = t"
  by (metis component(2) sum.inject(2))

lemma component_Nil: "component [] = []"
  by (simp add: component_def encode_component_def u_def del: component)

lemma component_not_Nil: "i \<noteq> [] \<Longrightarrow> component i \<noteq> []"
  by (metis component_Nil component_inj)

lemma uri_char_not [simp]: "\<not> uri_char (CHR ''/'')" "\<not> uri_char (CHR ''?'')" "\<not> uri_char (CHR ''#'')" "\<not> uri_char (CHR ''&'')"
  "\<not> uri_char (CHR ''='')" "\<not> uri_char (CHR ''{'')" "\<not> uri_char (CHR ''}'')"
  by (simp_all add: uri_char_def unreserved_def)

section \<open>The \<open>URL\<close> class\<close>

record 'u url_api =
  href :: "'u \<Rightarrow> string"
  set_pathname :: "string \<Rightarrow> 'u \<Rightarrow> 'u"
  set_param :: "string \<Rightarrow> string \<Rightarrow> 'u \<Rightarrow> 'u"
  get_param :: "string \<Rightarrow> 'u \<Rightarrow> string option"
  pathname :: "'u \<Rightarrow> string"
  origin :: "'u \<Rightarrow> string"
  has_userinfo :: "'u \<Rightarrow> bool"
  has_hash :: "'u \<Rightarrow> bool"
  resolve_url :: "'u \<Rightarrow> string \<Rightarrow> 'u option"

text \<open>
  The \<open>href\<close> determines a URL; \<open>searchParams.get\<close> after \<open>searchParams.set\<close> and after a new
  \<open>pathname\<close>; the \<open>pathname\<close>, which the search parameters leave; and the origin, which neither
  changes.
\<close>

locale url_laws =
  fixes api :: "'u url_api"
  assumes href_inj: "href api x = href api y \<Longrightarrow> x = y"
    and origin_pathname: "origin api (set_pathname api p x) = origin api x"
    and origin_param: "origin api (set_param api k v x) = origin api x"
    and get_set: "get_param api k (set_param api k v x) = Some v"
    and get_set_other: "k \<noteq> j \<Longrightarrow> get_param api k (set_param api j v x) = get_param api k x"
    and get_pathname: "get_param api k (set_pathname api p x) = get_param api k x"
    and pathname_param: "pathname api (set_param api k v x) = pathname api x"

definition set_params :: "'u url_api \<Rightarrow> (string \<times> string) list \<Rightarrow> 'u \<Rightarrow> 'u" where
  "set_params api q x = foldl (\<lambda>url (k, v). set_param api k v url) x q"

context url_laws
begin

lemma get_set_params: "owf q \<Longrightarrow> get_param api k (set_params api q x) = (case oget q k of Some v \<Rightarrow> Some v | None \<Rightarrow> get_param api k x)"
proof (induction q arbitrary: x)
  case (Cons kv q)
  obtain j v where kv: "kv = (j, v)" by fastforce
  have j: "oget q j = None" using Cons.prems by (force simp: kv map_of_eq_None_iff)
  show ?case using Cons by (auto simp: set_params_def kv j get_set get_set_other split: option.splits)
qed (simp add: set_params_def)

lemma pathname_set_params: "pathname api (set_params api q x) = pathname api x"
  by (induction q arbitrary: x) (auto simp: set_params_def pathname_param)

lemma origin_set_params: "origin api (set_params api q x) = origin api x"
  by (induction q arbitrary: x) (auto simp: set_params_def origin_param)

end

section \<open>URLs of the plain form\<close>

record plain_url =
  pu_host :: string
  pu_path :: "string list"
  pu_query :: "(string, string) omap"
  pu_hash :: "string option"

definition path_text :: "string list \<Rightarrow> string" where
  "path_text segs = concat (map (\<lambda>s. CHR ''/'' # component s) segs)"

definition pair_text :: "string \<times> string \<Rightarrow> string" where
  "pair_text kv = component (fst kv) @ ''='' @ component (snd kv)"

definition query_text :: "char \<Rightarrow> (string \<times> string) list \<Rightarrow> string" where
  "query_text c q = concat (map2 (\<lambda>d p. d # pair_text p) (c # replicate (length q) (CHR ''&'')) q)"

lemma query_text_simps [simp]:
  "query_text c [] = []"
  "query_text c (p # q) = c # pair_text p @ query_text (CHR ''&'') q"
  by (cases q; simp add: query_text_def)+

definition hash_text :: "string option \<Rightarrow> string" where
  "hash_text h = (case h of None \<Rightarrow> [] | Some s \<Rightarrow> CHR ''#'' # component s)"

definition plain_href :: "plain_url \<Rightarrow> string" where
  "plain_href x = ''https://'' @ component (pu_host x) @ path_text (pu_path x) @ query_text (CHR ''?'') (pu_query x) @ hash_text (pu_hash x)"

definition read_component :: "string \<Rightarrow> string" where
  "read_component s = (case decode_component s of Inr t \<Rightarrow> t | Inl _ \<Rightarrow> s)"

definition read_path :: "string \<Rightarrow> string list" where
  "read_path p = map read_component (split_on (CHR ''/'') (if starts_with ''/'' p then tl p else p))"

definition read_pair :: "string \<Rightarrow> string \<times> string" where
  "read_pair s =
     (read_component (takeWhile (\<lambda>c. c \<noteq> CHR ''='') s), read_component (tl (dropWhile (\<lambda>c. c \<noteq> CHR ''='') s)))"

text \<open>A reference from a page: an absolute URL, or a path on the same host.\<close>

definition plain_resolve :: "plain_url \<Rightarrow> string \<Rightarrow> plain_url option" where
  "plain_resolve base s =
     (let absolute = starts_with ''https://'' s;
          host = (if absolute then takeWhile (\<lambda>c. c \<noteq> CHR ''/'') (drop 8 s) else pu_host base);
          rest = (if absolute then dropWhile (\<lambda>c. c \<noteq> CHR ''/'') (drop 8 s) else s);
          before = takeWhile (\<lambda>c. c \<noteq> CHR ''#'') rest;
          hash = dropWhile (\<lambda>c. c \<noteq> CHR ''#'') rest;
          q = dropWhile (\<lambda>c. c \<noteq> CHR ''?'') before
      in if host = [] then None
         else Some \<lparr>pu_host = read_component host,
                pu_path = read_path (takeWhile (\<lambda>c. c \<noteq> CHR ''?'') before),
                pu_query = (if q = [] then [] else map read_pair (split_on (CHR ''&'') (tl q))),
                pu_hash = (if hash = [] then None else Some (read_component (tl hash)))\<rparr>)"

definition plain_urls :: "plain_url url_api" where
  "plain_urls =
     \<lparr>href = plain_href,
      set_pathname = (\<lambda>p x. x\<lparr>pu_path := read_path p\<rparr>),
      set_param = (\<lambda>k v x. x\<lparr>pu_query := oset k v (pu_query x)\<rparr>),
      get_param = (\<lambda>k x. oget (pu_query x) k),
      pathname = (\<lambda>x. path_text (pu_path x)),
      origin = (\<lambda>x. ''https://'' @ component (pu_host x)),
      has_userinfo = (\<lambda>x. False),
      has_hash = (\<lambda>x. pu_hash x \<noteq> None),
      resolve_url = plain_resolve\<rparr>"

text \<open>The text of a URL can be taken apart again: its parts hold no delimiter.\<close>

definition ends_part :: "string \<Rightarrow> bool" where
  "ends_part s \<longleftrightarrow> s = [] \<or> \<not> uri_char (hd s)"

lemma component_prefix: "component a @ r = component b @ q \<Longrightarrow> ends_part r \<Longrightarrow> ends_part q \<Longrightarrow> a = b \<and> r = q"
proof -
  assume eq: "component a @ r = component b @ q" and ends: "ends_part r" "ends_part q"
  have "takeWhile uri_char (component s @ t) = component s" if "ends_part t" for s t
    using component(3) [of s] that by (cases t) (auto simp: takeWhile_append list_all_iff ends_part_def)
  then have "component a = component b" using ends eq by metis
  then show ?thesis using eq component_inj by auto
qed

lemma ends_simps [simp]: "ends_part []" "ends_part (hash_text h)"
  "ends_part (CHR ''='' # s)" "ends_part (CHR ''/'' # s)" "ends_part (CHR ''?'' # s)" "ends_part (CHR ''&'' # s)" "ends_part (CHR ''#'' # s)"
  by (simp_all add: ends_part_def hash_text_def split: option.split)

lemma ends_query [simp]: "c \<in> {CHR ''?'', CHR ''&''} \<Longrightarrow> ends_part (query_text c q @ hash_text h)"
  by (cases q) auto

lemma hash_inj: "hash_text h = hash_text i \<Longrightarrow> h = i"
  by (cases h; cases i) (auto simp: hash_text_def intro: component_inj)

lemma hash_not [simp]: "c \<noteq> CHR ''#'' \<Longrightarrow> c # s \<noteq> hash_text h" "c \<noteq> CHR ''#'' \<Longrightarrow> hash_text h \<noteq> c # s"
  by (auto simp: hash_text_def split: option.split)

lemma query_inj:
  "c \<in> {CHR ''?'', CHR ''&''} \<Longrightarrow> query_text c p @ hash_text h = query_text c q @ hash_text i \<Longrightarrow> p = q \<and> h = i"
proof (induction p arbitrary: c q)
  case Nil
  then show ?case by (cases q) (auto dest: hash_inj)
next
  case (Cons kv p)
  from Cons.prems obtain lw q' where q: "q = lw # q'" by (cases q) auto
  have eq: "component (fst kv) @ ''='' @ component (snd kv) @ query_text (CHR ''&'') p @ hash_text h
    = component (fst lw) @ ''='' @ component (snd lw) @ query_text (CHR ''&'') q' @ hash_text i"
    using Cons.prems by (simp add: q pair_text_def)
  from component_prefix [OF eq] have one: "fst kv = fst lw"
    "component (snd kv) @ query_text (CHR ''&'') p @ hash_text h = component (snd lw) @ query_text (CHR ''&'') q' @ hash_text i"
    by auto
  from component_prefix [OF one(2)] have "snd kv = snd lw" "query_text (CHR ''&'') p @ hash_text h = query_text (CHR ''&'') q' @ hash_text i"
    by auto
  then show ?case using Cons.IH [of "CHR ''&''" q'] one(1) by (auto simp: q prod_eq_iff)
qed

lemma path_inj:
  "path_text a @ query_text (CHR ''?'') p @ hash_text h = path_text b @ query_text (CHR ''?'') q @ hash_text i \<Longrightarrow> a = b \<and> p = q \<and> h = i"
proof (induction a arbitrary: b)
  case Nil
  then show ?case using query_inj [of "CHR ''?''" p h q i]
    by (cases b; cases p) (auto simp: path_text_def dest: hash_inj)
next
  case (Cons s a)
  from Cons.prems obtain t b' where b: "b = t # b'"
    by (cases b; cases q) (auto simp: path_text_def)
  have ends: "ends_part (path_text c @ query_text (CHR ''?'') r @ hash_text j)" for c r j
    by (cases c) (simp_all add: path_text_def)
  have "component s @ path_text a @ query_text (CHR ''?'') p @ hash_text h = component t @ path_text b' @ query_text (CHR ''?'') q @ hash_text i"
    using Cons.prems by (simp add: b path_text_def)
  from component_prefix [OF this ends ends] show ?case using Cons.IH [of b'] by (simp add: b)
qed

lemma plain_href_inj: "plain_href x = plain_href y \<Longrightarrow> x = y"
proof -
  assume eq: "plain_href x = plain_href y"
  have ends: "ends_part (path_text c @ query_text (CHR ''?'') r @ hash_text j)" for c r j
    by (cases c) (simp_all add: path_text_def)
  from eq have "component (pu_host x) @ path_text (pu_path x) @ query_text (CHR ''?'') (pu_query x) @ hash_text (pu_hash x)
    = component (pu_host y) @ path_text (pu_path y) @ query_text (CHR ''?'') (pu_query y) @ hash_text (pu_hash y)"
    by (simp add: plain_href_def)
  from component_prefix [OF this ends ends] path_inj show ?thesis by (metis plain_url.equality unit_eq)
qed

interpretation plain: url_laws plain_urls
  by unfold_locales (auto simp: plain_urls_def intro: plain_href_inj)

end
