(* ===== verification/Sy_Walk.thy ===== *)
theory Sy_Walk
  imports Sy_Pagination Sy_Url
begin

text \<open>
  \<open>syncables/src/read/pages.ts\<close> and \<open>lowerCaseHeaders\<close> of \<open>transport.ts\<close>: the budget of a read,
  the walk over the pages of one list operation, and \<open>paginate\<close> of \<open>read/read.ts\<close>.

  The caller's transport, the clock and the timer are the record \<open>env\<close> over a world \<open>'w\<close>; the
  WHATWG \<open>URL\<close> class is the record \<open>url_api\<close> of \<open>Sy_Url\<close>. A response body is JSON
  whose numbers are integers, and a \<open>Retry-After\<close> in seconds is an integer.
\<close>

section \<open>The transport and the budget\<close>

record 'u request =
  rq_url :: 'u
  rq_method :: string
  rq_headers :: headers
  rq_body :: "string option"

record response =
  rs_status :: int
  rs_headers :: headers
  rs_body :: string

record ('u, 'w) env =
  transport :: "'u request \<Rightarrow> 'w \<Rightarrow> (string + response) \<times> 'w"
  now :: "'w \<Rightarrow> int"
  sleep :: "int \<Rightarrow> 'w \<Rightarrow> 'w"
  parse_date :: "string \<Rightarrow> int option"

record read_limits =
  maxRequests :: int
  maxRecords :: int
  timeoutMs :: int
  maxRetries :: int

record budget =
  limits :: read_limits
  deadline :: int
  requests :: int

datatype read_error = Exhausted string | Failed string

definition DEFAULT_READ_LIMITS :: read_limits where
  "DEFAULT_READ_LIMITS = \<lparr>maxRequests = 10000, maxRecords = 5000, timeoutMs = 30 * 60 * 1000, maxRetries = 3\<rparr>"

definition new_budget :: "('u, 'w) env \<Rightarrow> read_limits \<Rightarrow> 'w \<Rightarrow> budget" where
  "new_budget e l w = \<lparr>limits = l, deadline = now e w + timeoutMs l, requests = 0\<rparr>"

definition lowerCaseHeaders :: "headers \<Rightarrow> headers" where
  "lowerCaseHeaders hs = spread [] (map (\<lambda>(k, v). (to_lower k, v)) hs)"

text \<open>When a 429 may be retried: \<open>Retry-After\<close> in seconds from now, or an HTTP date.\<close>

definition retry_at :: "('u, 'w) env \<Rightarrow> response \<Rightarrow> 'w \<Rightarrow> int option" where
  "retry_at e response w =
     (case oget (rs_headers response) ''retry-after'' of
        None \<Rightarrow> None
      | Some s \<Rightarrow>
          if s = [] then None
          else (case js_number (Some (JStr s)) of
                  Some seconds \<Rightarrow> Some (now e w + max 0 seconds * 1000)
                | None \<Rightarrow> parse_date e s))"

text \<open>\<open>Budget.send\<close>, from its \<open>retries\<close>-th round on.\<close>

function send :: "('u, 'w) env \<Rightarrow> 'u request \<Rightarrow> int \<Rightarrow> budget \<Rightarrow> 'w \<Rightarrow> (read_error + response) \<times> budget \<times> 'w" where
  "send e request retries b w =
     (if deadline b < now e w then (Inl (Exhausted ''Read timed out''), b, w)
      else
        let b = b\<lparr>requests := requests b + 1\<rparr>
        in if maxRequests (limits b) < requests b
           then (Inl (Exhausted (''Read exceeds '' @ int_str (maxRequests (limits b)) @ '' requests; narrow its scope'')), b, w)
           else
             (case transport e request w of
                (Inl err, w) \<Rightarrow> (Inl (Failed err), b, w)
              | (Inr raw, w) \<Rightarrow>
                  let response = raw\<lparr>rs_headers := lowerCaseHeaders (rs_headers raw)\<rparr>
                  in if rs_status response \<noteq> 429 \<or> maxRetries (limits b) \<le> retries then (Inr response, b, w)
                     else
                       (case retry_at e response w of
                          None \<Rightarrow> (Inr response, b, w)
                        | Some at \<Rightarrow>
                            let delay = max 0 (at - now e w)
                            in if deadline b < now e w + delay
                               then (Inl (Failed ''API retry delay exceeds the remaining read time''), b, w)
                               else send e request (retries + 1) b (sleep e delay w))))"
  by pat_completeness auto
termination by (relation "measure (\<lambda>(e, request, retries, b, w). nat (maxRetries (limits b) - retries))") auto

declare send.simps [simp del]

section \<open>Items, paths and bodies\<close>

definition is_array :: "json option \<Rightarrow> bool" where
  "is_array j = (case j of Some (JArr _) \<Rightarrow> True | _ \<Rightarrow> False)"

lemma is_array_iff: "is_array j \<longleftrightarrow> (\<exists>xs. j = Some (JArr xs))"
  by (auto simp: is_array_def split: option.splits json.splits)

definition pageItems :: "json \<Rightarrow> json option \<Rightarrow> json option \<Rightarrow> read_error + json list" where
  "pageItems body responseSchema scheme =
     (let found =
        (case body of
           JArr xs \<Rightarrow> Some (JArr xs)
         | JObj m \<Rightarrow>
             (case (case locateItemsField responseSchema scheme of
                      Some f \<Rightarrow> Some f
                    | None \<Rightarrow> List.find (\<lambda>name. is_array (oget m name)) COMMON_ITEMS_FIELDS) of
                None \<Rightarrow> None
              | Some f \<Rightarrow> oget m f)
         | _ \<Rightarrow> None)
      in if is_array found then Inr (filter (\<lambda>j. isRecord (Some j)) (elements found))
         else Inl (Failed ''Could not locate the items array in the response''))"

text \<open>
  \<open>template.replace(/\{([^}]+)\}/g, ...)\<close>: a variable is a brace, what comes before the next
  closing brace, which is something, and that brace.
\<close>

definition path_variable :: "string \<Rightarrow> (string \<times> string) option" where
  "path_variable s =
     (case s of
        CHR ''{'' # t \<Rightarrow>
          (let name = takeWhile (\<lambda>c. c \<noteq> CHR ''}'') t; rest = dropWhile (\<lambda>c. c \<noteq> CHR ''}'') t
           in if name \<noteq> [] \<and> rest \<noteq> [] then Some (name, tl rest) else None)
      | _ \<Rightarrow> None)"

lemma tl_dropWhile_shorter: "length (tl (dropWhile P t)) < Suc (length t)"
  using length_dropWhile_le [of P t] by simp

lemma path_variable_shorter: "path_variable s = Some (n, r) \<Longrightarrow> length r < length s"
  unfolding path_variable_def Let_def
  by (auto split: list.splits char.splits bool.splits if_splits simp del: length_tl intro: tl_dropWhile_shorter)

function bindPath :: "string \<Rightarrow> (string, string) omap \<Rightarrow> read_error + string" where
  "bindPath [] values = Inr []"
| "bindPath (c # s) values =
     (case path_variable (c # s) of
        None \<Rightarrow> bindE (bindPath s values) (\<lambda>t. Inr (c # t))
      | Some (name, rest) \<Rightarrow>
          (case oget values name of
             None \<Rightarrow> Inl (Failed (''Missing value for '' @ name))
           | Some value \<Rightarrow>
               if value = [] then Inl (Failed (''Missing value for '' @ name))
               else bindE (map_sum Failed id (encode_component value)) (\<lambda>v. bindE (bindPath rest values) (\<lambda>t. Inr (v @ t)))))"
  by pat_completeness auto
termination by (relation "measure (length o fst)") (auto dest: path_variable_shorter)

text \<open>The leaves of the cursor's fields, by dotted path.\<close>

function collect_fields :: "string \<Rightarrow> (string \<times> json) list \<Rightarrow> (string \<times> json) list" where
  "collect_fields pre [] = []"
| "collect_fields pre ((key, value) # rest) =
     (case value of
        JObj m \<Rightarrow> collect_fields (pre @ key @ ''.'') m
      | _ \<Rightarrow> [(pre @ key, value)]) @ collect_fields pre rest"
  by pat_completeness auto
termination by (relation "measure (\<lambda>(p, m). size_list (size_prod (\<lambda>_. 0) size) m)") auto

definition withBody :: "json \<Rightarrow> json \<Rightarrow> json" where
  "withBody body cursorFields =
     foldl (\<lambda>merged (path, value). setNestedField merged path value) body (collect_fields [] (members (Some cursorFields)))"

section \<open>The walk\<close>

record 'u page_walk =
  pw_document :: json
  pw_operation :: json
  pw_upstream :: 'u
  pw_path :: string
  pw_method :: string
  pw_query :: "(string, string) omap"
  pw_body :: json
  pw_pageSize :: "int option"

record 'u walk_state =
  ws_cursor :: page_cursor
  ws_next :: "'u option"
  ws_items :: int
  ws_seen :: "string list"

record 'u page =
  page_url :: 'u
  page_items :: "json list"

definition walk_start :: "'u walk_state" where
  "walk_start = \<lparr>ws_cursor = no_cursor, ws_next = None, ws_items = 0, ws_seen = []\<rparr>"

definition walk_scheme :: "'u page_walk \<Rightarrow> json option" where
  "walk_scheme walk = map_option snd (resolveEffectiveScheme (pw_document walk) (pw_operation walk))"

definition response_schema :: "json \<Rightarrow> json option" where
  "response_schema operation =
     member ''schema'' (member ''application/json'' (member ''content'' (member ''200'' (member ''responses'' (Some operation)))))"

text \<open>\<open>upstream.pathname.replace(/\/$/, '')\<close>\<close>

definition drop_slash :: "string \<Rightarrow> string" where
  "drop_slash s = (if s \<noteq> [] \<and> last s = CHR ''/'' then butlast s else s)"

definition built_url :: "'u url_api \<Rightarrow> 'u page_walk \<Rightarrow> json option \<Rightarrow> page_cursor \<Rightarrow> 'u" where
  "built_url api walk scheme cursor =
     (let url = set_pathname api (drop_slash (pathname api (pw_upstream walk)) @ pw_path walk) (pw_upstream walk);
          query = spread (pw_query walk)
            (case scheme of None \<Rightarrow> [] | Some sc \<Rightarrow> buildQuery sc cursor (pw_pageSize walk))
      in set_params api query url)"

definition walk_request :: "'u url_api \<Rightarrow> 'u page_walk \<Rightarrow> 'u walk_state \<Rightarrow> 'u request" where
  "walk_request api walk s =
     (let scheme = walk_scheme walk;
          url = (case ws_next s of Some link \<Rightarrow> link | None \<Rightarrow> built_url api walk scheme (ws_cursor s))
      in \<lparr>rq_url = url, rq_method = pw_method walk,
          rq_headers = [(''accept'', ''application/json'')]
            @ (if pw_method walk = ''POST'' then [(''content-type'', ''application/json'')] else []),
          rq_body =
            (if pw_method walk = ''POST''
             then Some (json_text
               (case (ws_next s, scheme) of
                  (None, Some sc) \<Rightarrow> withBody (pw_body walk) (buildBody sc (ws_cursor s) (pw_pageSize walk))
                | _ \<Rightarrow> pw_body walk))
             else None)\<rparr>)"

definition request_key :: "'u url_api \<Rightarrow> 'u request \<Rightarrow> string" where
  "request_key api r = rq_method r @ '' '' @ href api (rq_url r) @ '' '' @ (case rq_body r of None \<Rightarrow> [] | Some b \<Rightarrow> b)"

text \<open>What follows a page: an error, the end, or the state the next page is asked for in.\<close>

definition continue_walk ::
  "'u url_api \<Rightarrow> 'u page_walk \<Rightarrow> 'u walk_state \<Rightarrow> 'u \<Rightarrow> json \<Rightarrow> headers \<Rightarrow> int \<Rightarrow> read_error + 'u walk_state option" where
  "continue_walk api walk s url body hs n =
     (case walk_scheme walk of
        None \<Rightarrow> Inr None
      | Some sc \<Rightarrow>
          let state = parsePaginationState sc (if isRecord (Some body) then body else JObj []) hs (Some (ws_items s))
          in if \<not> hasNextPage state then Inr None
             else if scheme_type sc = ''nextLink'' \<or> (nextLink state \<noteq> None \<and> nextPageToken state = None)
             then
               (case nextLink state of
                  None \<Rightarrow> Inr None
                | Some target \<Rightarrow>
                    (case resolve_url api url target of
                       None \<Rightarrow> Inl (Failed ''Invalid URL'')
                     | Some link \<Rightarrow>
                         if origin api link \<noteq> origin api (pw_upstream walk) \<or> has_userinfo api link \<or> has_hash api link
                         then Inl (Failed ''Pagination left the API origin'')
                         else Inr (Some (s\<lparr>ws_next := Some link\<rparr>))))
             else if scheme_type sc = ''pageNumber'' \<and> n = 0 then Inr None
             else
               (case nextCursor sc (ws_cursor s) state n of
                  None \<Rightarrow> Inr None
                | Some following \<Rightarrow> Inr (Some (s\<lparr>ws_cursor := following, ws_next := None\<rparr>))))"

text \<open>One round of the loop: the error before its page is yielded, or the page and what follows it.\<close>

definition walk_step ::
  "('u, 'w) env \<Rightarrow> 'u url_api \<Rightarrow> 'u page_walk \<Rightarrow> 'u walk_state \<Rightarrow> budget \<Rightarrow> 'w
   \<Rightarrow> (read_error + 'u page \<times> (read_error + 'u walk_state option)) \<times> budget \<times> 'w" where
  "walk_step e api walk s b w =
     (let rq = walk_request api walk s; where_to = pw_method walk @ '' '' @ pathname api (rq_url rq)
      in if request_key api rq \<in> set (ws_seen s) then (Inl (Failed ''Pagination repeated a page; stopping''), b, w)
         else
           (case send e rq 0 b w of
              (Inl err, b, w) \<Rightarrow> (Inl err, b, w)
            | (Inr response, b, w) \<Rightarrow>
                (if rs_status response < 200 \<or> 300 \<le> rs_status response
                 then Inl (Failed (where_to @ '' responded '' @ int_str (rs_status response)))
                 else
                   (case json_parse (rs_body response) of
                      None \<Rightarrow> Inl (Failed (where_to @ '' did not return JSON''))
                    | Some body \<Rightarrow>
                        bindE (pageItems body (response_schema (pw_operation walk)) (walk_scheme walk)) (\<lambda>items.
                          let s = s\<lparr>ws_seen := ws_seen s @ [request_key api rq], ws_items := ws_items s + int (length items)\<rparr>
                          in Inr (\<lparr>page_url = rq_url rq, page_items = items\<rparr>,
                               continue_walk api walk s (rq_url rq) body (rs_headers response) (int (length items))))), b, w)))"

section \<open>A round costs a request\<close>

text \<open>One round of \<open>send\<close>: what it returns, or the state it goes round again in.\<close>

definition send_round :: "('u, 'w) env \<Rightarrow> 'u request \<Rightarrow> int \<Rightarrow> budget \<Rightarrow> 'w
   \<Rightarrow> (read_error + response) \<times> budget \<times> 'w + budget \<times> 'w" where
  "send_round e request retries b w =
     (if deadline b < now e w then Inl (Inl (Exhausted ''Read timed out''), b, w)
      else
        let b = b\<lparr>requests := requests b + 1\<rparr>
        in if maxRequests (limits b) < requests b
           then Inl (Inl (Exhausted (''Read exceeds '' @ int_str (maxRequests (limits b)) @ '' requests; narrow its scope'')), b, w)
           else
             (case transport e request w of
                (Inl err, w) \<Rightarrow> Inl (Inl (Failed err), b, w)
              | (Inr raw, w) \<Rightarrow>
                  let response = raw\<lparr>rs_headers := lowerCaseHeaders (rs_headers raw)\<rparr>
                  in if rs_status response \<noteq> 429 \<or> maxRetries (limits b) \<le> retries then Inl (Inr response, b, w)
                     else
                       (case retry_at e response w of
                          None \<Rightarrow> Inl (Inr response, b, w)
                        | Some at \<Rightarrow>
                            let delay = max 0 (at - now e w)
                            in if deadline b < now e w + delay
                               then Inl (Inl (Failed ''API retry delay exceeds the remaining read time''), b, w)
                               else Inr (b, sleep e delay w))))"

lemma send_unfold:
  "send e rq retries b w =
     (case send_round e rq retries b w of Inl r \<Rightarrow> r | Inr (b', w') \<Rightarrow> send e rq (retries + 1) b' w')"
  by (subst send.simps) (auto simp: send_round_def Let_def split: prod.splits sum.splits option.splits)

lemma send_round_cost:
  "send_round e rq retries b w = Inl (Inr r, b', w') \<Longrightarrow>
     requests b' = requests b + 1 \<and> requests b' \<le> maxRequests (limits b) \<and> limits b' = limits b \<and> deadline b' = deadline b"
  "send_round e rq retries b w = Inr (b', w') \<Longrightarrow>
     requests b' = requests b + 1 \<and> requests b' \<le> maxRequests (limits b) \<and> limits b' = limits b \<and> deadline b' = deadline b
     \<and> retries < maxRetries (limits b)"
  by (auto simp: send_round_def Let_def split: prod.splits sum.splits option.splits if_splits)

lemma send_induct [case_names round]:
  assumes "\<And>retries b w. (\<And>b' w'. send_round e rq retries b w = Inr (b', w') \<Longrightarrow> P (retries + 1) b' w') \<Longrightarrow> P retries b w"
  shows "P retries b w"
proof (induction "nat (maxRetries (limits b) - retries)" arbitrary: retries b w rule: less_induct)
  case less
  show ?case by (rule assms, rule less.hyps) (auto dest: send_round_cost(2))
qed

lemma send_cost:
  assumes "send e rq retries b w = (Inr r, b', w')"
  shows "requests b < requests b' \<and> requests b' \<le> maxRequests (limits b) \<and> limits b' = limits b \<and> deadline b' = deadline b"
  using assms
proof (induction retries b w rule: send_induct [where e = e and rq = rq])
  case (round retries b w)
  show ?case
  proof (cases "send_round e rq retries b w")
    case (Inl x)
    then show ?thesis using round.prems send_round_cost(1) [of e rq retries b w r b' w'] by (simp add: send_unfold [of e rq retries])
  next
    case (Inr x)
    then obtain b1 w1 where x: "send_round e rq retries b w = Inr (b1, w1)" by (cases x) auto
    with round.prems have "send e rq (retries + 1) b1 w1 = (Inr r, b', w')" by (simp add: send_unfold [of e rq retries])
    from round.IH [OF x this] send_round_cost(2) [OF x] show ?thesis by auto
  qed
qed

lemma walk_step_cost:
  assumes "walk_step e api walk s b w = (Inr r, b', w')"
  shows "requests b < requests b' \<and> requests b' \<le> maxRequests (limits b) \<and> limits b' = limits b"
  using assms unfolding walk_step_def Let_def
  by (auto split: if_splits prod.splits sum.splits dest!: send_cost)

section \<open>Consuming the pages\<close>

text \<open>
  \<open>for await (const page of walkPages(...))\<close>: the consumer handles a page before the next one
  is asked for, and stops the walk by throwing.
\<close>

function run_walk ::
  "('u, 'w) env \<Rightarrow> 'u url_api \<Rightarrow> 'u page_walk \<Rightarrow> ('u page \<Rightarrow> 's \<Rightarrow> read_error option \<times> 's) \<Rightarrow> 'u walk_state \<Rightarrow> 's \<Rightarrow> budget \<Rightarrow> 'w
   \<Rightarrow> (read_error + unit) \<times> 's \<times> budget \<times> 'w" where
  "run_walk e api walk consume s x b w =
     (case walk_step e api walk s b w of
        (Inl err, b', w') \<Rightarrow> (Inl err, x, b', w')
      | (Inr (page, cont), b', w') \<Rightarrow>
          (case consume page x of
             (Some err, x') \<Rightarrow> (Inl err, x', b', w')
           | (None, x') \<Rightarrow>
               (case cont of
                  Inl err \<Rightarrow> (Inl err, x', b', w')
                | Inr None \<Rightarrow> (Inr (), x', b', w')
                | Inr (Some s') \<Rightarrow> run_walk e api walk consume s' x' b' w')))"
  by pat_completeness auto
termination
  by (relation "measure (\<lambda>(e, api, walk, consume, s, x, b, w). nat (maxRequests (limits b) - requests b))")
    (auto dest!: sym [of _ "walk_step _ _ _ _ _ _"] walk_step_cost)

declare run_walk.simps [simp del]

section \<open>\<open>paginate\<close>\<close>

definition keep_items :: "read_limits \<Rightarrow> 'u page \<Rightarrow> json list \<Rightarrow> read_error option \<times> json list" where
  "keep_items l page items =
     (let items = items @ page_items page
      in (if maxRecords l < int (length items)
          then Some (Exhausted (''Read exceeds '' @ int_str (maxRecords l) @ '' records; narrow its scope''))
          else None, items))"

definition run_paginate :: "('u, 'w) env \<Rightarrow> 'u url_api \<Rightarrow> 'u page_walk \<Rightarrow> budget \<Rightarrow> 'w \<Rightarrow> (read_error + json list) \<times> budget \<times> 'w" where
  "run_paginate e api walk b w =
     (case run_walk e api walk (keep_items (limits b)) walk_start [] b w of
        (Inl err, _, b, w) \<Rightarrow> (Inl err, b, w)
      | (Inr _, items, b, w) \<Rightarrow> (Inr items, b, w))"

section \<open>What a walk asks for\<close>

text \<open>The same environment, keeping a list of the requests handed to the transport.\<close>

definition logged :: "('u, 'w) env \<Rightarrow> ('u, 'w \<times> 'u request list) env" where
  "logged e =
     \<lparr>transport = (\<lambda>r (w, log). (fst (transport e r w), (snd (transport e r w), log @ [r]))),
      now = (\<lambda>(w, log). now e w),
      sleep = (\<lambda>d (w, log). (sleep e d w, log)),
      parse_date = parse_date e\<rparr>"

lemma send_round_logged:
  "send_round (logged e) rq retries b (w, log) = Inl (r, b', (w', log')) \<Longrightarrow>
     requests b' = requests b + 1 \<and> limits b' = limits b \<and> (log' = log @ [rq] \<and> requests b' \<le> maxRequests (limits b) \<or> log' = log)
     \<or> b' = b \<and> log' = log"
  "send_round (logged e) rq retries b (w, log) = Inr (b', (w', log')) \<Longrightarrow>
     requests b' = requests b + 1 \<and> limits b' = limits b \<and> log' = log @ [rq] \<and> requests b' \<le> maxRequests (limits b)"
  by (auto simp: send_round_def logged_def Let_def split: prod.splits sum.splits option.splits if_splits)

lemma send_logged:
  assumes "send (logged e) rq retries b (w, log) = (r, b', (w', log'))"
  shows "limits b' = limits b \<and> requests b \<le> requests b' \<and>
    (\<exists>k. log' = log @ replicate k rq \<and> (k = 0 \<or> (requests b + int k \<le> maxRequests (limits b) \<and> requests b + int k \<le> requests b')))"
proof -
  have "\<forall>w log. W = (w, log) \<longrightarrow> send (logged e) rq retries b W = (r, b', (w', log')) \<longrightarrow>
    limits b' = limits b \<and> requests b \<le> requests b' \<and>
    (\<exists>k. log' = log @ replicate k rq \<and> (k = 0 \<or> (requests b + int k \<le> maxRequests (limits b) \<and> requests b + int k \<le> requests b')))" for W
  proof (induction retries b W rule: send_induct [where e = "logged e" and rq = rq])
    case (round retries b W)
    show ?case
    proof (intro allI impI)
      fix w log assume W: "W = (w, log)" and send: "send (logged e) rq retries b W = (r, b', (w', log'))"
      show "limits b' = limits b \<and> requests b \<le> requests b' \<and>
        (\<exists>k. log' = log @ replicate k rq \<and> (k = 0 \<or> (requests b + int k \<le> maxRequests (limits b) \<and> requests b + int k \<le> requests b')))"
      proof (cases "send_round (logged e) rq retries b W")
        case (Inl x)
        then have x: "send_round (logged e) rq retries b (w, log) = Inl (r, b', (w', log'))"
          using send W by (simp add: send_unfold [of _ rq retries])
        from send_round_logged(1) [OF x]
        show ?thesis by (elim disjE conjE) (auto intro: exI [of _ 0] exI [of _ 1])
      next
        case (Inr x)
        obtain b1 w1 log1 where x: "send_round (logged e) rq retries b W = Inr (b1, (w1, log1))" using Inr by (cases x) auto
        note one = send_round_logged(2) [OF x [unfolded W]]
        have "send (logged e) rq (retries + 1) b1 (w1, log1) = (r, b', (w', log'))"
          using send x by (simp add: send_unfold [of _ rq retries])
        with round.IH [OF x] obtain k where k: "limits b' = limits b1" "requests b1 \<le> requests b'" "log' = log1 @ replicate k rq"
          "k = 0 \<or> (requests b1 + int k \<le> maxRequests (limits b1) \<and> requests b1 + int k \<le> requests b')"
          by blast
        have "log' = log @ replicate (Suc k) rq" using k(3) one by simp
        moreover have "requests b + int (Suc k) \<le> maxRequests (limits b) \<and> requests b + int (Suc k) \<le> requests b'"
          using k one by auto
        ultimately show ?thesis using k one by fastforce
      qed
    qed
  qed
  then show ?thesis using assms by blast
qed

lemma remdups_adj_append_replicate:
  "y \<notin> set xs \<Longrightarrow> remdups_adj (xs @ replicate k y) = remdups_adj xs @ (if k = 0 then [] else [y])"
proof (induction xs rule: remdups_adj.induct)
  case 1
  show ?case by (simp add: remdups_adj_replicate)
next
  case (2 x)
  show ?case using 2 remdups_adj_replicate [of k y] by (cases k) auto
qed auto

text \<open>What holds of the requests made so far.\<close>

definition log_ok :: "'u url_api \<Rightarrow> 'u page_walk \<Rightarrow> read_limits \<Rightarrow> budget \<Rightarrow> 'u request list \<Rightarrow> bool" where
  "log_ok api walk l b log \<longleftrightarrow>
     limits b = l \<and> int (length log) \<le> requests b \<and> int (length log) \<le> max 0 (maxRequests l)
     \<and> distinct (remdups_adj (map (request_key api) log))
     \<and> (\<forall>r \<in> set log. origin api (rq_url r) = origin api (pw_upstream walk) \<and> rq_method r = pw_method walk)"

definition walk_ok :: "'u url_api \<Rightarrow> 'u page_walk \<Rightarrow> 'u walk_state \<Rightarrow> 'u request list \<Rightarrow> bool" where
  "walk_ok api walk s log \<longleftrightarrow>
     request_key api ` set log \<subseteq> set (ws_seen s)
     \<and> (\<forall>link. ws_next s = Some link \<longrightarrow> origin api link = origin api (pw_upstream walk))"

lemma log_ok_step:
  assumes ok: "log_ok api walk l b log" "walk_ok api walk s log"
    and urls: "url_laws api"
    and new: "request_key api (walk_request api walk s) \<notin> set (ws_seen s)"
    and send: "send (logged e) (walk_request api walk s) 0 b (w, log) = (r, b', (w', log'))"
  shows "log_ok api walk l b' log' \<and> request_key api ` set log' \<subseteq> insert (request_key api (walk_request api walk s)) (set (ws_seen s))"
proof -
  let ?rq = "walk_request api walk s"
  obtain k where k: "limits b' = limits b" "requests b \<le> requests b'" "log' = log @ replicate k ?rq"
    "k = 0 \<or> (requests b + int k \<le> maxRequests (limits b) \<and> requests b + int k \<le> requests b')"
    using send_logged [OF send] by blast
  have "origin api (built_url api walk sc c) = origin api (pw_upstream walk)" for sc c
    by (simp add: built_url_def Let_def url_laws.origin_set_params [OF urls] url_laws.origin_pathname [OF urls])
  then have origin: "origin api (rq_url ?rq) = origin api (pw_upstream walk) \<and> rq_method ?rq = pw_method walk"
    using ok(2) by (auto simp: walk_request_def walk_ok_def Let_def split: option.split)
  have fresh: "request_key api ?rq \<notin> set (map (request_key api) log)"
    using ok(2) new by (auto simp: walk_ok_def)
  have "set (remdups_adj (map (request_key api) log)) = request_key api ` set log" by simp
  then have "distinct (remdups_adj (map (request_key api) log'))"
    using ok(1) fresh by (simp add: k(3) remdups_adj_append_replicate log_ok_def)
  moreover have "int (length log') \<le> requests b' \<and> int (length log') \<le> max 0 (maxRequests l)"
    using k ok(1) by (auto simp: log_ok_def)
  ultimately show ?thesis
    using ok origin by (auto simp: log_ok_def k walk_ok_def)
qed

lemma continue_walk_next:
  "continue_walk api walk s url body hs n = Inr (Some s') \<Longrightarrow>
     ws_seen s' = ws_seen s \<and> ws_items s' = ws_items s
     \<and> (\<forall>link. ws_next s' = Some link \<longrightarrow> origin api link = origin api (pw_upstream walk))"
  unfolding continue_walk_def Let_def
  by (auto split: option.splits if_splits)

lemma walk_step_log:
  assumes ok: "log_ok api walk l b log" "walk_ok api walk s log"
    and urls: "url_laws api"
    and step: "walk_step (logged e) api walk s b (w, log) = (r, b', (w', log'))"
  shows "log_ok api walk l b' log' \<and> (\<forall>page s'. r = Inr (page, Inr (Some s')) \<longrightarrow> walk_ok api walk s' log')"
proof (cases "request_key api (walk_request api walk s) \<in> set (ws_seen s)")
  case True
  then show ?thesis using ok step by (auto simp: walk_step_def)
next
  case False
  obtain x b1 w1 log1 where send: "send (logged e) (walk_request api walk s) 0 b (w, log) = (x, b1, (w1, log1))"
    by (metis prod_cases3)
  note log = log_ok_step [OF ok urls False send]
  show ?thesis
  proof (cases x)
    case (Inl err)
    then show ?thesis using step False send log by (auto simp: walk_step_def)
  next
    case (Inr response)
    have same: "b' = b1" "log' = log1" using step False send Inr by (auto simp: walk_step_def Let_def)
    have "walk_ok api walk s' log'" if r: "r = Inr (page, Inr (Some s'))" for page s'
    proof -
      define seen where "seen = ws_seen s @ [request_key api (walk_request api walk s)]"
      obtain t body hs n where "continue_walk api walk t (rq_url (walk_request api walk s)) body hs n = Inr (Some s')" "ws_seen t = seen"
        using step False send Inr r
        by (auto simp: walk_step_def Let_def bindE_eq_Inr seen_def split: if_splits option.splits)
      note next_state = continue_walk_next [OF this(1)]
      have "request_key api ` set log' \<subseteq> set seen" using log same by (auto simp: seen_def)
      then show ?thesis using next_state \<open>ws_seen t = seen\<close> by (simp add: walk_ok_def)
    qed
    then show ?thesis using log same by simp
  qed
qed

lemma run_walk_log:
  assumes urls: "url_laws api"
  shows "log_ok api walk l b log \<Longrightarrow> walk_ok api walk s log \<Longrightarrow>
    run_walk (logged e) api walk consume s x b (w, log) = (r, x', b', (w', log')) \<Longrightarrow> log_ok api walk l b' log'"
proof -
  have "E = logged e \<Longrightarrow> W = (w, log) \<Longrightarrow> A = api \<Longrightarrow> K = walk \<Longrightarrow> log_ok api walk l b log \<Longrightarrow> walk_ok api walk s log \<Longrightarrow>
    run_walk E A K consume s x b W = (r, x', b', (w', log')) \<Longrightarrow> log_ok api walk l b' log'" for E A K W
  proof (induction E A K consume s x b W arbitrary: w log rule: run_walk.induct)
    case (1 E A K consume s x b W)
    obtain y b1 w1 log1 where step: "walk_step (logged e) api walk s b (w, log) = (y, b1, (w1, log1))"
      by (metis prod_cases3)
    note log = walk_step_log [OF 1(6,7) urls step]
    have run: "run_walk (logged e) api walk consume s x b (w, log) = (r, x', b', (w', log'))"
      using 1(2-5,8) by simp
    show ?case
    proof (cases "\<exists>page x1 s1. y = Inr (page, Inr (Some s1)) \<and> consume page x = (None, x1)")
      case False
      then have "b' = b1 \<and> log' = log1"
        using run step by (subst (asm) run_walk.simps) (auto split: sum.splits prod.splits option.splits)
      then show ?thesis using log by simp
    next
      case True
      then obtain page x1 s1 where y: "y = Inr (page, Inr (Some s1))" "consume page x = (None, x1)" by blast
      have "run_walk (logged e) api walk consume s1 x1 b1 (w1, log1) = (r, x', b', (w', log'))"
        using run step y by (subst (asm) run_walk.simps) simp
      then show ?thesis using 1(1) log y step 1(2-5) by auto
    qed
  qed
  then show "log_ok api walk l b log \<Longrightarrow> walk_ok api walk s log \<Longrightarrow>
    run_walk (logged e) api walk consume s x b (w, log) = (r, x', b', (w', log')) \<Longrightarrow> log_ok api walk l b' log'" by blast
qed

text \<open>
  C35. Whatever the server answers, a walk ends, having made at most \<open>maxRequests\<close> requests; it
  never asks for the same page again, save for the retries of a request that follow it
  directly; and every request goes to the origin of the API, with the walk's method. The
  platform's URLs satisfy \<open>url_laws\<close>: here, that a new path or query parameter keeps the origin.
\<close>

theorem walk_bounded:
  assumes "url_laws api"
    and "0 \<le> maxRequests l"
  shows "case run_walk (logged e) api walk consume walk_start x (new_budget (logged e) l (w, [])) (w, []) of
     (r, x', b', w', log) \<Rightarrow>
       int (length log) \<le> maxRequests l
       \<and> distinct (remdups_adj (map (request_key api) log))
       \<and> list_all (\<lambda>rq. origin api (rq_url rq) = origin api (pw_upstream walk) \<and> rq_method rq = pw_method walk) log"
proof -
  let ?b = "new_budget (logged e) l (w, [])"
  obtain r x' b' w' log where run: "run_walk (logged e) api walk consume walk_start x ?b (w, []) = (r, x', b', (w', log))"
    by (metis prod_cases4)
  have "log_ok api walk l ?b []" "walk_ok api walk walk_start []"
    by (simp_all add: log_ok_def walk_ok_def new_budget_def walk_start_def)
  note log_end = run_walk_log [OF assms(1) this run]
  show ?thesis using log_end assms(2) by (simp add: run log_ok_def list_all_iff)
qed

section \<open>A server that pages faithfully\<close>

text \<open>The pages it takes to read \<open>n\<close> items: one even when there is none, and never an empty one more.\<close>

definition pages_needed :: "nat \<Rightarrow> nat \<Rightarrow> nat" where
  "pages_needed per n = max 1 ((n + per - 1) div per)"

lemma pages_needed_next: "0 < per \<Longrightarrow> Suc i * per < n \<longleftrightarrow> Suc i < pages_needed per n"
proof -
  assume per: "0 < per"
  have "Suc (Suc i) \<le> (n + per - 1) div per \<longleftrightarrow> Suc (Suc i) * per \<le> n + per - 1"
    using per by (rule less_eq_div_iff_mult_less_eq)
  then show ?thesis using per by (auto simp: pages_needed_def)
qed

lemma pages_needed_enough: "0 < per \<Longrightarrow> n \<le> pages_needed per n * per"
  using pages_needed_next [of per "pages_needed per n - 1" n] by (auto simp: pages_needed_def)

text \<open>
  What a walk needs of the other side to read everything: it is at place \<open>k\<close> (a cursor, or a
  link to follow) when it has read \<open>k\<close> items; asked there, the server returns the next items,
  at most \<open>per\<close> of them, and the state it reports leads to the place after them, or to the
  end. The worlds it answers in are \<open>fine\<close>; none of them is past the deadline.
\<close>

locale paged_source =
  fixes e :: "('u, 'w) env" and api :: "'u url_api" and walk :: "'u page_walk"
    and items :: "json list" and per :: nat
    and place :: "nat \<Rightarrow> page_cursor \<times> 'u option"
    and fine :: "'w \<Rightarrow> bool" and until :: int
  assumes per: "0 < per"
    and start: "place 0 = (no_cursor, None)"
    and in_time: "fine w \<Longrightarrow> now e w \<le> until"
    and answer: "fine w \<Longrightarrow> k = 0 \<or> k < length items \<Longrightarrow> per dvd k \<Longrightarrow> ws_cursor s = fst (place k) \<Longrightarrow> ws_next s = snd (place k) \<Longrightarrow>
        \<exists>response w' body.
          transport e (walk_request api walk s) w = (Inr response, w') \<and> fine w'
          \<and> 200 \<le> rs_status response \<and> rs_status response < 300 \<and> json_parse (rs_body response) = Some body
          \<and> pageItems body (response_schema (pw_operation walk)) (walk_scheme walk) = Inr (take per (drop k items))
          \<and> (\<forall>t url. ws_cursor t = fst (place k) \<longrightarrow> ws_next t = snd (place k) \<longrightarrow> ws_items t = int (k + length (take per (drop k items))) \<longrightarrow>
              continue_walk api walk t url body (lowerCaseHeaders (rs_headers response)) (int (length (take per (drop k items)))) =
                Inr (if k + per < length items
                     then Some (t\<lparr>ws_cursor := fst (place (k + per)), ws_next := snd (place (k + per))\<rparr>) else None))"
    and keys: "k < length items \<Longrightarrow> k' < length items \<Longrightarrow> k \<noteq> k' \<Longrightarrow> per dvd k \<Longrightarrow> per dvd k' \<Longrightarrow>
        ws_cursor s = fst (place k) \<Longrightarrow> ws_next s = snd (place k) \<Longrightarrow> ws_cursor s' = fst (place k') \<Longrightarrow> ws_next s' = snd (place k')
        \<Longrightarrow> request_key api (walk_request api walk s) \<noteq> request_key api (walk_request api walk s')"
begin

definition state_at :: "nat \<Rightarrow> 'u walk_state" where
  "state_at k = \<lparr>ws_cursor = fst (place k), ws_next = snd (place k), ws_items = int k, ws_seen = []\<rparr>"

text \<open>The state after \<open>i\<close> pages.\<close>

definition state_after :: "nat \<Rightarrow> 'u walk_state" where
  "state_after i = (state_at (i * per))\<lparr>ws_seen := map (\<lambda>j. request_key api (walk_request api walk (state_at (j * per)))) [0..<i]\<rparr>"

definition page_request :: "nat \<Rightarrow> 'u request" where
  "page_request i = walk_request api walk (state_after i)"

lemma request_of_place:
  "ws_cursor s = ws_cursor t \<Longrightarrow> ws_next s = ws_next t \<Longrightarrow> walk_request api walk s = walk_request api walk t"
  by (auto simp: walk_request_def Let_def split: option.split)

lemma send_first:
  assumes "fine w" "deadline b = until" "requests b < maxRequests (limits b)"
    and "transport e rq w = (Inr response, w')" "rs_status response < 300"
  shows "send (logged e) rq 0 b (w, log) = (Inr (response\<lparr>rs_headers := lowerCaseHeaders (rs_headers response)\<rparr>),
    b\<lparr>requests := requests b + 1\<rparr>, (w', log @ [rq]))"
  using assms in_time [OF assms(1)] by (subst send.simps) (simp add: Let_def logged_def)

lemma fresh_page:
  assumes "i = 0 \<or> i * per < length items"
  shows "request_key api (walk_request api walk (state_after i)) \<notin> set (ws_seen (state_after i))"
proof -
  have "request_key api (walk_request api walk (state_after i)) \<noteq> request_key api (walk_request api walk (state_at (j * per)))" if "j < i" for j
  proof (rule keys [of "i * per" "j * per"])
    show "j * per < length items" using assms that per by (metis mult_less_mono1 not_less_zero order.strict_trans)
    show "i * per \<noteq> j * per" using that per by simp
  qed (use assms that in \<open>auto simp: state_after_def state_at_def\<close>)
  moreover have "walk_request api walk (state_after i) = walk_request api walk (state_at (i * per))"
    by (rule request_of_place) (simp_all add: state_after_def state_at_def)
  moreover have "set (ws_seen (state_after i)) = (\<lambda>j. request_key api (walk_request api walk (state_at (j * per)))) ` {0..<i}"
    by (simp add: state_after_def)
  ultimately show ?thesis by (metis (no_types, lifting) atLeastLessThan_iff imageE)
qed

lemma page_read:
  assumes "fine w" "deadline b = until" "requests b < maxRequests (limits b)" "i = 0 \<or> i * per < length items"
  shows "\<exists>w' url. fine w' \<and> walk_step (logged e) api walk (state_after i) b (w, log) =
    (Inr (\<lparr>page_url = url, page_items = take per (drop (i * per) items)\<rparr>,
      Inr (if Suc i * per < length items then Some (state_after (Suc i)) else None)),
     b\<lparr>requests := requests b + 1\<rparr>, (w', log @ [page_request i]))"
proof -
  let ?s = "state_after i" and ?k = "i * per"
  define got where "got = take per (drop ?k items)"
  have place: "ws_cursor ?s = fst (place ?k)" "ws_next ?s = snd (place ?k)" "ws_items ?s = int ?k"
    by (simp_all add: state_after_def state_at_def)
  obtain response w' body where r:
    "transport e (walk_request api walk ?s) w = (Inr response, w')" "fine w'"
    "200 \<le> rs_status response" "rs_status response < 300" "json_parse (rs_body response) = Some body"
    "pageItems body (response_schema (pw_operation walk)) (walk_scheme walk) = Inr got"
    "\<And>t url. ws_cursor t = fst (place ?k) \<Longrightarrow> ws_next t = snd (place ?k) \<Longrightarrow> ws_items t = int (?k + length got) \<Longrightarrow>
       continue_walk api walk t url body (lowerCaseHeaders (rs_headers response)) (int (length got)) =
         Inr (if ?k + per < length items then Some (t\<lparr>ws_cursor := fst (place (?k + per)), ws_next := snd (place (?k + per))\<rparr>) else None)"
    using answer [OF assms(1) _ _ place(1,2)] assms(4) unfolding got_def by auto
  define t where "t = ?s\<lparr>ws_seen := ws_seen ?s @ [request_key api (walk_request api walk ?s)], ws_items := ws_items ?s + int (length got)\<rparr>"
  have t: "ws_cursor t = fst (place ?k)" "ws_next t = snd (place ?k)" "ws_items t = int (?k + length got)"
    by (simp_all add: t_def place)
  have after: "t\<lparr>ws_cursor := fst (place (?k + per)), ws_next := snd (place (?k + per))\<rparr> = state_after (Suc i)" if "?k + per < length items"
  proof -
    have "length got = per" using that by (simp add: got_def)
    moreover have "walk_request api walk ?s = walk_request api walk (state_at ?k)"
      by (rule request_of_place) (simp_all add: place state_at_def)
    ultimately show ?thesis by (simp add: t_def state_after_def state_at_def add.commute)
  qed
  have "Suc i * per = ?k + per" by simp
  then have cont: "continue_walk api walk t url body (lowerCaseHeaders (rs_headers response)) (int (length got)) =
    Inr (if Suc i * per < length items then Some (state_after (Suc i)) else None)" for url
    using r(7) [OF t] after by (simp only:) simp
  show ?thesis
    unfolding walk_step_def Let_def got_def [symmetric] page_request_def
    using fresh_page [OF assms(4)] send_first [OF assms(1-3) r(1,4)] r(2-6) cont [unfolded t_def]
    by (intro exI [of _ w'] exI [of _ "rq_url (walk_request api walk ?s)"]) simp
qed

lemma pages_read:
  assumes "fine w" "deadline b = until" "i < pages_needed per (length items)"
    and "requests b + int (pages_needed per (length items)) \<le> maxRequests (limits b) + int i"
    and "\<And>k pg. consume \<lparr>page_url = pg, page_items = take per (drop k items)\<rparr> (f k) = (None, f (k + per))"
  shows "\<exists>b' w'. run_walk (logged e) api walk consume (state_after i) (f (i * per)) b (w, log)
    = (Inr (), f (pages_needed per (length items) * per), b', (w', log @ map page_request [i..<pages_needed per (length items)]))"
  using assms
proof (induction "pages_needed per (length items) - i" arbitrary: i b w log rule: less_induct)
  case less
  let ?n = "pages_needed per (length items)"
  have last: "Suc i * per < length items \<longleftrightarrow> Suc i < ?n"
    by (rule pages_needed_next [OF per])
  have now: "i = 0 \<or> i * per < length items" using less.prems(3) pages_needed_next [OF per, of "i - 1"] by (cases i) simp_all
  have budget: "requests b < maxRequests (limits b)" using less.prems(3,4) by linarith
  obtain w' url where step: "fine w'" "walk_step (logged e) api walk (state_after i) b (w, log) =
    (Inr (\<lparr>page_url = url, page_items = take per (drop (i * per) items)\<rparr>,
      Inr (if Suc i < ?n then Some (state_after (Suc i)) else None)),
     b\<lparr>requests := requests b + 1\<rparr>, (w', log @ [page_request i]))"
    using page_read [OF less.prems(1,2) budget now] unfolding last by blast
  have place: "i * per + per = Suc i * per" by simp
  have from_i: "[i..<?n] = i # [Suc i..<?n]" using less.prems(3) by (rule upt_conv_Cons)
  show ?case
  proof (cases "Suc i < ?n")
    case False
    with less.prems(3) have n: "?n = Suc i" by simp
    show ?thesis
      by (subst run_walk.simps) (simp add: step less.prems(5) n add.commute)
  next
    case True
    have "\<exists>b' w''. run_walk (logged e) api walk consume (state_after (Suc i)) (f (Suc i * per)) (b\<lparr>requests := requests b + 1\<rparr>) (w', log @ [page_request i])
        = (Inr (), f (?n * per), b', (w'', (log @ [page_request i]) @ map page_request [Suc i..<?n]))"
      by (rule less.hyps) (use True less.prems step(1) in auto)
    moreover have "run_walk (logged e) api walk consume (state_after i) (f (i * per)) b (w, log)
      = run_walk (logged e) api walk consume (state_after (Suc i)) (f (Suc i * per)) (b\<lparr>requests := requests b + 1\<rparr>) (w', log @ [page_request i])"
      by (subst run_walk.simps)
        (simp only: step less.prems(5) True if_True prod.case sum.case option.case place)
    ultimately show ?thesis by (simp add: from_i)
  qed
qed

lemma paginate_complete:
  assumes "fine w" "deadline b = until" "int (length items) \<le> maxRecords (limits b)"
    and "requests b + int (pages_needed per (length items)) \<le> maxRequests (limits b)"
  shows "\<exists>b' w'. run_paginate (logged e) api walk b (w, log)
    = (Inr items, b', (w', log @ map page_request [0..<pages_needed per (length items)]))"
proof -
  have keep: "keep_items (limits b) \<lparr>page_url = pg, page_items = take per (drop k items)\<rparr> (take k items) = (None, take (k + per) items)"
    for k and pg :: 'u
  proof -
    have "take k items @ take per (drop k items) = take (k + per) items" by (simp add: take_add)
    then show ?thesis using assms(3) by (simp add: keep_items_def Let_def)
  qed
  have enough: "requests b + int (pages_needed per (length items)) \<le> maxRequests (limits b) + int 0" using assms(4) by simp
  have first: "0 < pages_needed per (length items)" by (simp add: pages_needed_def)
  obtain b' w' where run: "run_walk (logged e) api walk (keep_items (limits b)) (state_after 0) (take (0 * per) items) b (w, log)
      = (Inr (), take (pages_needed per (length items) * per) items, b', (w', log @ map page_request [0..<pages_needed per (length items)]))"
    using pages_read [of w b 0 "keep_items (limits b)" "\<lambda>k. take k items", OF assms(1,2) first enough keep] by blast
  have "state_after 0 = walk_start" by (simp add: state_after_def state_at_def walk_start_def start)
  then show ?thesis using run pages_needed_enough [OF per, of "length items"] by (simp add: run_paginate_def)
qed

end

text \<open>A concrete transport and clock, for examples: an answer for each request, in no time.\<close>

definition instant :: "('u request \<Rightarrow> response) \<Rightarrow> ('u, unit) env" where
  "instant answer = \<lparr>transport = (\<lambda>r w. (Inr (answer r), w)), now = (\<lambda>w. 0), sleep = (\<lambda>d w. w), parse_date = (\<lambda>s. None)\<rparr>"

definition sample_home :: plain_url where
  "sample_home = \<lparr>pu_host = ''api'', pu_path = [''v1''], pu_query = [], pu_hash = None\<rparr>"

definition sample_walk :: "plain_url page_walk" where
  "sample_walk = \<lparr>pw_document = JObj [], pw_operation = JObj [], pw_upstream = sample_home, pw_path = ''/items'',
     pw_method = ''GET'', pw_query = [], pw_body = JObj [], pw_pageSize = None\<rparr>"

definition sample_env :: "(plain_url, unit) env" where
  "sample_env = instant (\<lambda>r. \<lparr>rs_status = 200, rs_headers = [], rs_body = ''[]''\<rparr>)"

theorem walk_bounded_witness:
  "case run_walk (logged sample_env) plain_urls sample_walk (keep_items DEFAULT_READ_LIMITS) walk_start []
      (new_budget (logged sample_env) DEFAULT_READ_LIMITS ((), [])) ((), []) of
     (r, x', b', w', log) \<Rightarrow>
       int (length log) \<le> maxRequests DEFAULT_READ_LIMITS
       \<and> distinct (remdups_adj (map (request_key plain_urls) log))
       \<and> list_all (\<lambda>rq. origin plain_urls (rq_url rq) = origin plain_urls (pw_upstream sample_walk) \<and> rq_method rq = pw_method sample_walk) log"
proof -
  have "0 \<le> maxRequests DEFAULT_READ_LIMITS" by (simp add: DEFAULT_READ_LIMITS_def)
  from walk_bounded [OF plain.url_laws_axioms this] show ?thesis .
qed

end
