(* ===== verification/Sy_Routes.thy ===== *)
theory Sy_Routes
  imports Js_Object Sy_Url
begin

text \<open>
  \<open>syncables/src/routing/router.ts\<close> and \<open>resources/discover.ts\<close>: matching a request path to a
  path template of the document, and pairing collection paths with item paths. The URL of an
  item (\<open>itemUrl\<close> of \<open>client/client.ts\<close>) is here too, as the inverse of matching. A decoded
  parameter is a text of 8-bit characters.
\<close>

section \<open>\<open>router.ts\<close>\<close>

text \<open>\<open>path.split('/').filter(Boolean)\<close>\<close>

definition segments :: "string \<Rightarrow> string list" where
  "segments path = filter (\<lambda>s. s \<noteq> []) (split_on (CHR ''/'') path)"

text \<open>A \<open>{variable}\<close> segment, and \<open>s.slice(1, -1)\<close>.\<close>

definition is_variable :: "string \<Rightarrow> bool" where
  "is_variable s \<longleftrightarrow> s \<noteq> [] \<and> hd s = CHR ''{'' \<and> last s = CHR ''}''"

definition variable_name :: "string \<Rightarrow> string" where
  "variable_name s = butlast (tl s)"

fun match_segments :: "string list \<Rightarrow> string list \<Rightarrow> (string, string) omap \<Rightarrow> string + (string, string) omap option" where
  "match_segments (t # ts) (a # as) params =
     (if is_variable t
      then bindE (decode_component a) (\<lambda>v. match_segments ts as (oset (variable_name t) v params))
      else if t \<noteq> a then Inr None
      else match_segments ts as params)"
| "match_segments ts as params = Inr (Some params)"

definition matchTemplate :: "string \<Rightarrow> string \<Rightarrow> string + (string, string) omap option" where
  "matchTemplate template actual =
     (if length (segments template) \<noteq> length (segments actual) then Inr None
      else match_segments (segments template) (segments actual) [])"

record route_match =
  rm_template :: string
  rm_params :: "(string, string) omap"

fun findRoute :: "string list \<Rightarrow> string \<Rightarrow> string + route_match option" where
  "findRoute [] actual = Inr None"
| "findRoute (template # templates) actual =
     bindE (matchTemplate template actual) (\<lambda>params.
       case params of
         Some p \<Rightarrow> Inr (Some \<lparr>rm_template = template, rm_params = p\<rparr>)
       | None \<Rightarrow> findRoute templates actual)"

section \<open>\<open>discover.ts\<close>\<close>

record resource_route =
  collectionPath :: string
  itemPath :: string
  itemParam :: string
  updateMethod :: string

definition updateMethodFor :: "json \<Rightarrow> string \<Rightarrow> string" where
  "updateMethodFor paths item =
     (case member item (Some paths) of
        Some (JObj m) \<Rightarrow>
          if ''put'' \<notin> set (okeys m) \<and> ''patch'' \<in> set (okeys m) then ''PATCH'' else ''PUT''
      | _ \<Rightarrow> ''PUT'')"

definition isItemPath :: "string \<Rightarrow> bool" where
  "isItemPath path \<longleftrightarrow> segments path \<noteq> [] \<and> is_variable (last (segments path))"

definition extractParamName :: "string \<Rightarrow> string" where
  "extractParamName path = (if segments path = [] then [] else variable_name (last (segments path)))"

definition isDirectChild :: "string \<Rightarrow> string \<Rightarrow> bool" where
  "isDirectChild collection candidate \<longleftrightarrow>
     length (segments candidate) = length (segments collection) + 1
     \<and> list_all (\<lambda>i. segments collection ! i = segments candidate ! i) [0..<length (segments collection)]"

definition discoverResources :: "json \<Rightarrow> resource_route list" where
  "discoverResources paths =
     (let allPaths = okeys (members (Some paths))
      in List.map_filter (\<lambda>c.
           map_option (\<lambda>i. \<lparr>collectionPath = c, itemPath = i, itemParam = extractParamName i, updateMethod = updateMethodFor paths i\<rparr>)
             (List.find (\<lambda>p. isItemPath p \<and> isDirectChild c p) allPaths))
         (filter (\<lambda>p. \<not> isItemPath p) allPaths))"

section \<open>The path of an item\<close>

text \<open>\<open>s.replace(pat, by)\<close> of a text: its first occurrence. \<open>by\<close> has no dollar sign.\<close>

fun replace_first :: "string \<Rightarrow> string \<Rightarrow> string \<Rightarrow> string" where
  "replace_first pat r [] = (if pat = [] then r else [])"
| "replace_first pat r (c # s) =
     (if starts_with pat (c # s) then r @ drop (length pat) (c # s) else c # replace_first pat r s)"

text \<open>
  \<open>new URL(path, baseUrl)\<close>, of the WHATWG standard, for a path that starts with one slash and an
  HTTP(S) base: the path of the result does not depend on the base. Control characters and
  spaces at the ends are removed, tabs and newlines anywhere; the path ends before a query or
  a fragment; a backslash is a slash; each character of the path's percent-encode set is
  encoded; and the dot segments are taken out, two dots with the segment before them.
\<close>

definition path_encoded :: "char \<Rightarrow> bool" where
  "path_encoded c \<longleftrightarrow> code c \<le> 32 \<or> code c \<ge> 127 \<or> code c = 34 \<or> c \<in> set ''#<>?^`{}''"

definition encode_path_char :: "char \<Rightarrow> string" where
  "encode_path_char c =
     (if path_encoded c then map char_of (concat (map percent (utf8_bytes (code c)))) else [c])"

definition one_dot :: "string \<Rightarrow> bool" where
  "one_dot s \<longleftrightarrow> to_lower s \<in> {''.'', ''%2e''}"

definition two_dots :: "string \<Rightarrow> bool" where
  "two_dots s \<longleftrightarrow> to_lower s \<in> {''..'', ''.%2e'', ''%2e.'', ''%2e%2e''}"

fun drop_dots :: "string list \<Rightarrow> string list \<Rightarrow> string list" where
  "drop_dots done [] = done"
| "drop_dots done (s # rest) =
     drop_dots
       ((if two_dots s then butlast done else if one_dot s then done else done @ [s])
          @ (if (two_dots s \<or> one_dot s) \<and> rest = [] then [[]] else []))
       rest"

definition slashed :: "string list \<Rightarrow> string" where
  "slashed segs = concat (map (\<lambda>s. CHR ''/'' # s) segs)"

definition url_text :: "string \<Rightarrow> string" where
  "url_text s =
     filter (\<lambda>c. code c \<notin> {9, 10, 13})
       (rev (dropWhile (\<lambda>c. code c \<le> 32) (rev (dropWhile (\<lambda>c. code c \<le> 32) s))))"

definition resolved_path :: "string \<Rightarrow> string option" where
  "resolved_path reference =
     (let path = map (\<lambda>c. if c = CHR 0x5C then CHR ''/'' else c)
            (takeWhile (\<lambda>c. c \<noteq> CHR ''?'' \<and> c \<noteq> CHR ''#'') (url_text reference))
      in if starts_with ''/'' path \<and> \<not> starts_with ''//'' path
         then Some (slashed (drop_dots [] (map (\<lambda>s. concat (map encode_path_char s)) (split_on (CHR ''/'') (tl path)))))
         else None)"

definition item_path :: "resource_route \<Rightarrow> string \<Rightarrow> string" where
  "item_path route i = replace_first (''{'' @ itemParam route @ ''}'') (component i) (itemPath route)"

text \<open>The path of \<open>itemUrl\<close>'s result, for a template that starts with one slash.\<close>

definition itemUrl_path :: "resource_route \<Rightarrow> string \<Rightarrow> string option" where
  "itemUrl_path route i = resolved_path (item_path route i)"

section \<open>Lemmas\<close>

lemma split_on_sep: "split_on c (a @ c # b) = split_on c a @ split_on c b"
proof (induction a)
  case (Cons x a)
  then show ?case by (cases "split_on c a") (auto simp: split_on_not_Nil)
qed simp

lemma segments_snoc: "CHR ''/'' \<notin> set s \<Longrightarrow> s \<noteq> [] \<Longrightarrow> segments (p @ CHR ''/'' # s) = segments p @ [s]"
  by (simp add: segments_def split_on_sep split_on_none)

lemma split_on_no_sep: "s \<in> set (split_on c p) \<Longrightarrow> c \<notin> set s"
proof (induction p arbitrary: s)
  case (Cons x p)
  then show ?case by (cases "split_on c p") (auto split: if_splits)
qed simp

lemma split_on_last:
  "\<exists>p. (split_on c s = [s] \<and> c \<notin> set s) \<or> s = p @ c # last (split_on c s) \<and> split_on c s = split_on c p @ [last (split_on c s)]"
proof (cases "c \<in> set s")
  case True
  then obtain p q where s: "s = p @ c # q" "c \<notin> set q" by (meson split_list_last)
  then show ?thesis by (intro exI [of _ p]) (simp add: split_on_sep split_on_none)
next
  case False
  then show ?thesis by (simp add: split_on_none)
qed

lemma replace_first_skip:
  "(\<And>k. k < length a \<Longrightarrow> \<not> starts_with pat (drop k a @ pat @ b)) \<Longrightarrow> pat \<noteq> [] \<Longrightarrow>
   replace_first pat r (a @ pat @ b) = a @ r @ b"
proof (induction a)
  case Nil
  then show ?case by (cases pat) (auto simp: starts_with_def)
next
  case (Cons c a)
  have "\<not> starts_with pat (c # a @ pat @ b)" using Cons.prems(1) [of 0] by simp
  moreover have "replace_first pat r (a @ pat @ b) = a @ r @ b"
    using Cons.prems(1) [of "Suc _"] Cons.prems(2) by (intro Cons.IH) auto
  ultimately show ?case by simp
qed

lemma match_same: "list_all (\<lambda>s. \<not> is_variable s) ts \<Longrightarrow> match_segments (ts @ us) (ts @ vs) params = match_segments us vs params"
  by (induction ts) auto


lemma set_map_filter_iff: "x \<in> set (List.map_filter f xs) \<longleftrightarrow> (\<exists>y \<in> set xs. f y = Some x)"
  by (force simp: map_filter_def)

lemma discovered:
  assumes "r \<in> set (discoverResources paths)"
  shows "isItemPath (itemPath r)" "isDirectChild (collectionPath r) (itemPath r)"
    "itemParam r = extractParamName (itemPath r)" "\<not> isItemPath (collectionPath r)"
    "itemPath r \<in> set (okeys (members (Some paths)))" "collectionPath r \<in> set (okeys (members (Some paths)))"
proof -
  let ?all = "okeys (members (Some paths))"
  obtain c i where c: "c \<in> set ?all" "\<not> isItemPath c" "List.find (\<lambda>p. isItemPath p \<and> isDirectChild c p) ?all = Some i"
    and r: "r = \<lparr>collectionPath = c, itemPath = i, itemParam = extractParamName i, updateMethod = updateMethodFor paths i\<rparr>"
    using assms unfolding discoverResources_def Let_def set_map_filter_iff by auto
  from c(3) have "i \<in> set ?all" "isItemPath i" "isDirectChild c i" by (auto simp: find_Some_iff)
  then show "isItemPath (itemPath r)" "isDirectChild (collectionPath r) (itemPath r)"
    "itemParam r = extractParamName (itemPath r)" "\<not> isItemPath (collectionPath r)"
    "itemPath r \<in> set ?all" "collectionPath r \<in> set ?all"
    using c by (simp_all add: r)
qed

lemma segments_no_slash: "s \<in> set (segments p) \<Longrightarrow> CHR ''/'' \<notin> set s \<and> s \<noteq> []"
  by (auto simp: segments_def dest: split_on_no_sep)

lemma set_split_on: "s \<in> set (split_on c p) \<Longrightarrow> set s \<subseteq> set p"
proof (induction p arbitrary: s)
  case (Cons x p)
  show ?case
  proof (cases "x = c")
    case False
    obtain h tl where split: "split_on c p = h # tl" by (cases "split_on c p") auto
    then have "s = x # h \<or> s \<in> set tl" using Cons.prems False by simp
    then show ?thesis using Cons.IH [of h] Cons.IH [of s] split by auto
  qed (use Cons in auto)
qed simp

lemma item_path_text:
  assumes item: "itemPath r = base @ ''/{'' @ name @ ''}''" and param: "itemParam r = name" and base: "CHR ''{'' \<notin> set base"
  shows "item_path r i = base @ ''/'' @ component i"
proof -
  let ?pat = "''{'' @ name @ ''}''"
  have "\<not> starts_with ?pat (drop k (base @ ''/'') @ ?pat @ [])" if k: "k < length (base @ ''/'')" for k
  proof -
    have "(base @ ''/'') ! k \<noteq> CHR ''{''" using nth_mem [OF k] base by auto
    then show ?thesis
      unfolding starts_with_def using Cons_nth_drop_Suc [OF k, symmetric] by (simp only: append_Cons) simp
  qed
  then have "replace_first ?pat (component i) ((base @ ''/'') @ ?pat @ []) = (base @ ''/'') @ component i @ []"
    by (intro replace_first_skip) auto
  then show ?thesis by (simp add: item_path_def item param)
qed

text \<open>A segment of a path that a URL keeps as it is.\<close>

definition path_char :: "char \<Rightarrow> bool" where
  "path_char c \<longleftrightarrow> \<not> path_encoded c \<and> c \<noteq> CHR ''/'' \<and> c \<noteq> CHR 0x5C"

definition plain_segment :: "string \<Rightarrow> bool" where
  "plain_segment s \<longleftrightarrow> s \<noteq> [] \<and> list_all path_char s \<and> \<not> one_dot s \<and> \<not> two_dots s"

lemma path_char_simps:
  "path_char c \<Longrightarrow> c \<noteq> CHR ''/'' \<and> c \<noteq> CHR ''?'' \<and> c \<noteq> CHR ''#'' \<and> c \<noteq> CHR ''{'' \<and> c \<noteq> CHR 0x5C \<and> 32 < code c
    \<and> encode_path_char c = [c]"
  by (auto simp: path_char_def path_encoded_def encode_path_char_def)

lemma uri_path_char: "uri_char c \<Longrightarrow> path_char c"
  by (auto simp: path_char_def path_encoded_def uri_char_def unreserved_def code_def)

lemma split_slashed: "list_all (\<lambda>s. CHR ''/'' \<notin> set s) segs \<Longrightarrow> CHR ''/'' \<notin> set s \<Longrightarrow> split_on (CHR ''/'') (tl (slashed (segs @ [s]))) = segs @ [s]"
proof (induction segs)
  case (Cons x segs)
  obtain p where p: "slashed (segs @ [s]) = CHR ''/'' # p" by (cases segs) (auto simp: slashed_def)
  with Cons have "split_on (CHR ''/'') p = segs @ [s]" by simp
  moreover have "tl (slashed ((x # segs) @ [s])) = x @ CHR ''/'' # p" using p by (simp add: slashed_def)
  ultimately show ?case using Cons.prems by (simp add: split_on_sep split_on_none)
qed (simp add: slashed_def split_on_none)

lemma url_text_plain: "list_all (\<lambda>c. 32 < code c) s \<Longrightarrow> url_text s = s"
proof -
  assume s: "list_all (\<lambda>c. 32 < code c) s"
  have keep: "dropWhile (\<lambda>c. code c \<le> 32) t = t" if "list_all (\<lambda>c. 32 < code c) t" for t
    using that by (cases t) auto
  have "filter (\<lambda>c. code c \<notin> {9, 10, 13}) s = s" using s by (intro filter_True) (auto simp: list_all_iff)
  then show ?thesis using keep [OF s] keep [of "rev s"] s by (simp add: url_text_def)
qed

lemma resolved_slashed:
  assumes "list_all (list_all path_char) (segs @ [s])" "segs = [] \<or> hd segs \<noteq> []"
  shows "resolved_path (slashed (segs @ [s])) = Some (slashed (drop_dots [] (segs @ [s])))"
proof -
  let ?p = "slashed (segs @ [s])"
  have chars: "c = CHR ''/'' \<or> path_char c" if "c \<in> set ?p" for c
    using that assms(1) by (auto simp: slashed_def list_all_iff split: if_split_asm)
  have above: "32 < code c \<and> c \<noteq> CHR ''?'' \<and> c \<noteq> CHR ''#'' \<and> c \<noteq> CHR 0x5C" if "c \<in> set ?p" for c
    using chars [OF that] path_char_simps [of c] by (auto simp: code_def)
  have url: "url_text ?p = ?p" by (rule url_text_plain) (use above in \<open>simp add: list_all_iff\<close>)
  have until: "takeWhile (\<lambda>c. c \<noteq> CHR ''?'' \<and> c \<noteq> CHR ''#'') ?p = ?p"
    using above by (intro takeWhile_eq_all_conv [THEN iffD2]) auto
  have slashes: "map (\<lambda>c. if c = CHR 0x5C then CHR ''/'' else c) ?p = ?p"
    using above by (intro map_idI) auto
  have encoded: "map (\<lambda>s. concat (map encode_path_char s)) (segs @ [s]) = segs @ [s]"
  proof (rule map_idI)
    fix t assume "t \<in> set (segs @ [s])"
    then have "list_all path_char t" using assms(1) by (auto simp: list_all_iff)
    then show "concat (map encode_path_char t) = t" by (induction t) (auto simp: path_char_simps)
  qed
  have parts: "split_on (CHR ''/'') (tl ?p) = segs @ [s]"
    using assms(1) by (intro split_slashed) (auto simp: list_all_iff path_char_def)
  have starts: "starts_with ''/'' ?p \<and> \<not> starts_with ''//'' ?p"
  proof (cases segs)
    case Nil
    then show ?thesis using assms(1) by (cases s) (auto simp: slashed_def starts_with_def path_char_def)
  next
    case (Cons x xs)
    with assms obtain c y where "x = c # y" "path_char c" by (cases x) auto
    then show ?thesis using Cons by (auto simp: slashed_def starts_with_def path_char_def)
  qed
  show ?thesis unfolding resolved_path_def Let_def url until slashes parts encoded using starts by simp
qed

lemma drop_dots_plain:
  "list_all (\<lambda>s. \<not> one_dot s \<and> \<not> two_dots s) segs \<Longrightarrow>
   drop_dots done (segs @ [s]) =
     (if two_dots s then butlast (done @ segs) @ [[]] else if one_dot s then done @ segs @ [[]] else done @ segs @ [s])"
  by (induction segs arbitrary: "done") auto

lemma char_code: "char_of (of_char c + (32 :: nat)) = d \<Longrightarrow> (of_char c + 32 :: nat) mod 256 = of_char d"
  by auto

lemma char_E: "of_char c = (69 :: nat) \<longleftrightarrow> c = CHR ''E''" "char_of (101 :: nat) = CHR ''e''"
proof -
  show "of_char c = (69 :: nat) \<longleftrightarrow> c = CHR ''E''"
    using of_char_eq_iff [of c "CHR ''E''", where ?'a = nat] by simp
  show "char_of (101 :: nat) = CHR ''e''" by code_simp
qed

lemma lower_char_eq: "lower_char c = CHR ''e'' \<longleftrightarrow> c \<in> {CHR ''e'', CHR ''E''}"
  "lower_char c = CHR ''%'' \<longleftrightarrow> c = CHR ''%''" "lower_char c = CHR ''2'' \<longleftrightarrow> c = CHR ''2''"
  "lower_char c = CHR ''.'' \<longleftrightarrow> c = CHR ''.''"
  by (auto simp: lower_char_def is_upper_az_def code_def char_E split: if_splits dest!: char_code)

lemma dots_component: "one_dot (component i) \<longleftrightarrow> i = ''.''" "two_dots (component i) \<longleftrightarrow> i = ''..''"
proof -
  have dot: "component ''.'' = ''.''" "component ''..'' = ''..''" by code_simp+
  show "one_dot (component i) \<longleftrightarrow> i = ''.''"
  proof
    assume "one_dot (component i)"
    then have "component i \<in> set [''.'', ''%2e'', ''%2E'']"
      by (auto simp: one_dot_def to_lower_def map_eq_Cons_conv lower_char_eq)
    moreover have "list_all (\<lambda>e. decode_component e = Inr ''.'') [''.'', ''%2e'', ''%2E'']" by code_simp
    ultimately have "decode_component (component i) = Inr ''.''" unfolding list_all_iff by blast
    then show "i = ''.''" by simp
  qed (simp add: dot(1) one_dot_def to_lower_def lower_char_eq)
  show "two_dots (component i) \<longleftrightarrow> i = ''..''"
  proof
    assume "two_dots (component i)"
    then have "component i \<in> set [''..'', ''.%2e'', ''.%2E'', ''%2e.'', ''%2E.'', ''%2e%2e'', ''%2e%2E'', ''%2E%2e'', ''%2E%2E'']"
      by (auto simp: two_dots_def to_lower_def map_eq_Cons_conv lower_char_eq)
    moreover have "list_all (\<lambda>e. decode_component e = Inr ''..'')
        [''..'', ''.%2e'', ''.%2E'', ''%2e.'', ''%2E.'', ''%2e%2e'', ''%2e%2E'', ''%2E%2e'', ''%2E%2E'']" by code_simp
    ultimately have "decode_component (component i) = Inr ''..''" unfolding list_all_iff by blast
    then show "i = ''..''" by simp
  qed (simp add: dot(2) two_dots_def to_lower_def lower_char_eq)
qed

lemma segments_slashed: "list_all (\<lambda>s. CHR ''/'' \<notin> set s) segs \<Longrightarrow> segments (slashed segs) = filter (\<lambda>s. s \<noteq> []) segs"
proof (induction segs)
  case (Cons s segs)
  have "split_on (CHR ''/'') (slashed (s # segs)) = [] # split_on (CHR ''/'') (s @ slashed segs)"
    by (simp add: slashed_def)
  moreover have "segments (s @ slashed segs) = filter (\<lambda>s. s \<noteq> []) (s # segs)"
  proof (cases segs)
    case Nil
    then show ?thesis using Cons.prems by (simp add: segments_def slashed_def split_on_none)
  next
    case (Cons x xs)
    then obtain p where p: "slashed segs = CHR ''/'' # p" by (auto simp: slashed_def)
    have "segments (slashed segs) = segments p" by (simp add: p segments_def)
    then show ?thesis using Cons.IH Cons.prems by (simp add: p segments_def split_on_sep split_on_none)
  qed
  ultimately show ?case by (simp add: segments_def)
qed (simp add: slashed_def segments_def)

text \<open>The path of an item's URL: the identity is the last segment, unless it is a dot segment.\<close>

lemma itemUrl_path_eq:
  assumes "itemPath r = slashed segs @ ''/{'' @ name @ ''}''" "itemParam r = name" "list_all plain_segment segs"
  shows "itemUrl_path r i = Some (slashed
    (if i = ''..'' then butlast segs @ [[]] else segs @ [if i = ''.'' then [] else component i]))"
proof -
  have plain: "list_all path_char s \<and> s \<noteq> [] \<and> \<not> one_dot s \<and> \<not> two_dots s" if "s \<in> set segs" for s
    using that assms(3) by (auto simp: list_all_iff plain_segment_def)
  have "CHR ''{'' \<notin> set (slashed segs)"
    using plain path_char_simps by (auto simp: slashed_def list_all_iff)
  from item_path_text [OF assms(1,2) this] have spelled: "item_path r i = slashed (segs @ [component i])"
    by (simp add: slashed_def)
  have "list_all path_char (component i)"
    using component(3) [of i] uri_path_char by (auto simp: list_all_iff)
  then have "list_all (list_all path_char) (segs @ [component i])" using plain by (simp add: list_all_iff)
  moreover have "segs = [] \<or> hd segs \<noteq> []" using plain hd_in_set by blast
  ultimately have "itemUrl_path r i = Some (slashed (drop_dots [] (segs @ [component i])))"
    unfolding itemUrl_path_def spelled by (rule resolved_slashed)
  moreover have "list_all (\<lambda>s. \<not> one_dot s \<and> \<not> two_dots s) segs" using plain by (simp add: list_all_iff)
  ultimately show ?thesis by (simp add: drop_dots_plain dots_component)
qed

text \<open>
  C40. Where the URL the client builds for an item leads the router. Its path matches the item
  template of the resource, with the identity decoded again, and not the collection's path,
  for every identity but three: the empty text and a dot address the collection itself, and
  two dots what lies above it, since a URL drops its dot segments. The template is a path of
  plain segments with one variable, in the last place.
\<close>

theorem item_path_roundtrip:
  assumes "r \<in> set (discoverResources paths)"
    and "itemPath r = slashed segs @ ''/{'' @ name @ ''}''" and "list_all plain_segment segs" and "CHR ''/'' \<notin> set name"
  shows "\<exists>p. itemUrl_path r i = Some p
    \<and> matchTemplate (itemPath r) p = Inr (if i \<in> {'''', ''.'', ''..''} then None else Some [(itemParam r, i)])
    \<and> matchTemplate (collectionPath r) p = Inr (if i \<in> {'''', ''.''} \<or> i = ''..'' \<and> segs = [] then Some [] else None)"
proof -
  let ?var = "''{'' @ name @ ''}''"
  have plain: "CHR ''/'' \<notin> set s \<and> s \<noteq> [] \<and> \<not> is_variable s" if "s \<in> set segs" for s
    using that assms(3) path_char_simps by (fastforce simp: list_all_iff plain_segment_def is_variable_def dest: hd_in_set)
  then have all: "list_all (\<lambda>s. CHR ''/'' \<notin> set s) segs" "filter (\<lambda>s. s \<noteq> []) segs = segs"
    and literal: "list_all (\<lambda>s. \<not> is_variable s) segs"
    by (simp_all add: list_all_iff filter_id_conv)
  have template: "segments (itemPath r) = segs @ [?var]"
    using segments_snoc [of ?var "slashed segs"] assms(4) segments_slashed [OF all(1)] all(2) by (simp add: assms(2))
  then have param: "itemParam r = name"
    using discovered(3) [OF assms(1)] by (simp add: extractParamName_def variable_name_def)
  have "length (segments (collectionPath r)) = length segs"
    "\<And>k. k < length segs \<Longrightarrow> segments (collectionPath r) ! k = (segs @ [?var]) ! k"
    using discovered(2) [OF assms(1)] by (auto simp: isDirectChild_def template list_all_iff)
  then have collection: "segments (collectionPath r) = segs"
    by (intro nth_equalityI) (auto simp: nth_append)
  define last where "last = (if i = ''..'' then butlast segs @ [[]] else segs @ [if i = ''.'' then [] else component i])"
  have p: "itemUrl_path r i = Some (slashed last)"
    unfolding last_def by (rule itemUrl_path_eq [OF assms(2) param assms(3)])
  have no_slash: "CHR ''/'' \<notin> set (component i)"
    using component(3) [of i] by (auto simp: list_all_iff)
  have "list_all (\<lambda>s. CHR ''/'' \<notin> set s) last"
    using all(1) no_slash by (auto simp: last_def list_all_iff dest: in_set_butlastD)
  then have path: "segments (slashed last) = filter (\<lambda>s. s \<noteq> []) last" by (rule segments_slashed)
  have front: "filter (\<lambda>s. s \<noteq> []) (butlast segs) = butlast segs"
    using plain by (auto simp: filter_id_conv dest: in_set_butlastD)
  have variable: "is_variable ?var" "variable_name ?var = name" by (simp_all add: is_variable_def variable_name_def)
  have same: "match_segments segs segs [] = Inr (Some [])"
    using match_same [OF literal, of "[]" "[]" "[]"] by simp
  consider "i \<in> {'''', ''.''}" | "i = ''..''" | "i \<notin> {'''', ''.'', ''..''}" by blast
  then show ?thesis
  proof cases
    case 1
    then have "segments (slashed last) = segs" unfolding path by (auto simp: last_def all(2) component_Nil)
    then show ?thesis using p 1 same by (auto simp: matchTemplate_def template collection)
  next
    case 2
    then have "segments (slashed last) = butlast segs" unfolding path by (simp add: last_def front)
    then show ?thesis using p 2 by (cases segs rule: rev_cases) (simp_all add: matchTemplate_def template collection)
  next
    case 3
    then have "segments (slashed last) = segs @ [component i]"
      unfolding path by (simp add: last_def all(2) component_not_Nil)
    moreover have "match_segments (segs @ [?var]) (segs @ [component i]) [] = Inr (Some [(name, i)])"
      using match_same [OF literal, of "[?var]" "[component i]" "[]"] variable by simp
    ultimately show ?thesis using p 3 by (simp add: matchTemplate_def template collection param)
  qed
qed

definition sample_paths :: json where
  "sample_paths = JObj [(''/pets'', JObj []), (''/pets/{petId}'', JObj [(''patch'', JObj [])])]"

definition sample_route :: resource_route where
  "sample_route = \<lparr>collectionPath = ''/pets'', itemPath = ''/pets/{petId}'', itemParam = ''petId'', updateMethod = ''PATCH''\<rparr>"

theorem item_path_roundtrip_witness:
  "(\<exists>p. itemUrl_path sample_route ''a/b?'' = Some p
     \<and> matchTemplate (itemPath sample_route) p = Inr (Some [(itemParam sample_route, ''a/b?'')])
     \<and> matchTemplate (collectionPath sample_route) p = Inr None)
   \<and> (\<exists>p. itemUrl_path sample_route ''.'' = Some p \<and> matchTemplate (collectionPath sample_route) p = Inr (Some []))"
proof -
  have r: "sample_route \<in> set (discoverResources sample_paths)" by code_simp
  have path: "itemPath sample_route = slashed [''pets''] @ ''/{'' @ ''petId'' @ ''}''" by code_simp
  have plain: "list_all plain_segment [''pets'']" by code_simp
  have name: "CHR ''/'' \<notin> set ''petId''" by simp
  note both = item_path_roundtrip [OF r path plain name]
  show ?thesis using both [of "''a/b?''"] both [of "''.''"] by auto
qed

end
