(* ===== verification/Sy_Mock.thy ===== *)
theory Sy_Mock
  imports Sy_Scheme Sy_Pagination Sy_Routes
begin

text \<open>
  The mock server: \<open>syncables/src/fake-data/generate.ts\<close>, \<open>mock-server/store.ts\<close> and the
  handlers of \<open>mock-server/server.ts\<close>, from a request to its reply. Node's HTTP server is not
  here: a request is its method, URL, the two conditional headers and its body's text.

  What \<open>randomUUID\<close> returns is a sequence; the time of a request is the HTTP date handed to the
  handler; \<open>http_date\<close> reads one back.
\<close>

section \<open>\<open>generate.ts\<close>\<close>

text \<open>\<open>Object.entries\<close> of any value, as \<open>{ ...value }\<close> takes them.\<close>

definition own_entries :: "json option \<Rightarrow> (string, json) omap" where
  "own_entries j =
     (case j of
        Some (JObj m) \<Rightarrow> m
      | Some (JArr xs) \<Rightarrow> zip (map nat_str [0..<length xs]) xs
      | Some (JStr s) \<Rightarrow> zip (map nat_str [0..<length s]) (map (\<lambda>c. JStr [c]) s)
      | _ \<Rightarrow> [])"

text \<open>\<open>value && typeof value === 'object'\<close>\<close>

definition is_object :: "json option \<Rightarrow> bool" where
  "is_object j = (case j of Some (JObj _) \<Rightarrow> True | Some (JArr _) \<Rightarrow> True | _ \<Rightarrow> False)"

text \<open>The counter is the module's \<open>stringCounter\<close>.\<close>

definition generateString :: "json option \<Rightarrow> nat \<Rightarrow> json \<times> nat" where
  "generateString format n =
     (if format = Some (JStr ''date-time'') then (JStr ''1970-01-01T00:00:00.000Z'', n)
      else if format = Some (JStr ''date'') then (JStr ''1970-01-01'', n)
      else if format = Some (JStr ''uuid'') then (JStr ''00000000-0000-4000-8000-000000000000'', n)
      else if format = Some (JStr ''email'') then (JStr ''user@example.com'', n)
      else if format = Some (JStr ''uri'') \<or> format = Some (JStr ''url'') then (JStr ''https://example.com'', n)
      else (JStr (''string-'' @ nat_str (n + 1)), n + 1))"

definition thread :: "('a \<Rightarrow> 'b \<Rightarrow> nat \<Rightarrow> 'b \<times> nat) \<Rightarrow> 'a list \<Rightarrow> 'b \<Rightarrow> nat \<Rightarrow> 'b \<times> nat" where
  "thread f xs acc n = foldl (\<lambda>(acc, n) x. f x acc n) (acc, n) xs"

lemma thread_cong [fundef_cong]:
  "xs = ys \<Longrightarrow> (\<And>x a n. x \<in> set ys \<Longrightarrow> f x a n = g x a n) \<Longrightarrow> acc = acc' \<Longrightarrow> n = n' \<Longrightarrow> thread f xs acc n = thread g ys acc' n'"
  unfolding thread_def by (intro foldl_cong) auto

lemma elements_nonempty: "elements j \<noteq> [] \<Longrightarrow> hd (elements j) \<in> set (elements j)"
  by simp

lemma members_size: "(k, v) \<in> set (members (oget m j)) \<Longrightarrow> size v < Suc (size_list (size_prod (\<lambda>_. 0) size) m)"
proof -
  assume kv: "(k, v) \<in> set (members (oget m j))"
  then obtain ps where ps: "oget m j = Some (JObj ps)" "(k, v) \<in> set ps"
    by (cases "oget m j"; cases "the (oget m j)") (auto simp: members_def)
  have "size v < size (JObj ps)" using size_list_estimation' [OF ps(2), of "size v" "size_prod (\<lambda>_. 0) size"] by simp
  then show ?thesis using oget_size [OF ps(1)] by simp
qed

function generateFromSchema :: "json \<Rightarrow> nat \<Rightarrow> json \<times> nat" where
  "generateFromSchema (JObj m) n =
     (case oget m ''example'' of
        Some example \<Rightarrow> (example, n)
      | None \<Rightarrow>
          if elements (oget m ''enum'') \<noteq> [] then (hd (elements (oget m ''enum'')), n)
          else if truthy_json (oget m ''allOf'')
          then (let (ps, n) = thread (\<lambda>sub merged n.
                   let (v, n) = generateFromSchema sub n
                   in (if is_object (Some v) then spread merged (own_entries (Some v)) else merged, n))
                 (elements (oget m ''allOf'')) [] n
                in (JObj ps, n))
          else if elements (oget m ''oneOf'') \<noteq> [] then generateFromSchema (hd (elements (oget m ''oneOf''))) n
          else if elements (oget m ''anyOf'') \<noteq> [] then generateFromSchema (hd (elements (oget m ''anyOf''))) n
          else if oget m ''type'' = Some (JStr ''string'') then generateString (oget m ''format'') n
          else if oget m ''type'' = Some (JStr ''integer'') \<or> oget m ''type'' = Some (JStr ''number'')
          then ((case or_else (oget m ''minimum'') None of Some v \<Rightarrow> v | None \<Rightarrow> JNum 1), n)
          else if oget m ''type'' = Some (JStr ''boolean'') then (JBool True, n)
          else if oget m ''type'' = Some (JStr ''array'')
          then (case oget m ''items'' of
                  None \<Rightarrow> (JArr [JNull], n)
                | Some s \<Rightarrow> (let (v, n) = generateFromSchema s n in (JArr [v], n)))
          else if oget m ''type'' = Some (JStr ''object'') \<or> oget m ''type'' = None
          then (let (ps, n) = thread (\<lambda>(k, s) acc n. let (v, n) = generateFromSchema s n in (oset k v acc, n))
                  (members (oget m ''properties'')) [] n
                in (JObj ps, n))
          else (JNull, n))"
| "generateFromSchema JNull n = (JNull, n)"
| "generateFromSchema (JBool b) n = (if b then JObj [] else JNull, n)"
| "generateFromSchema (JNum i) n = (if i \<noteq> 0 then JObj [] else JNull, n)"
| "generateFromSchema (JStr s) n = (if s \<noteq> [] then JObj [] else JNull, n)"
| "generateFromSchema (JArr xs) n = (JObj [], n)"
  by pat_completeness auto
termination
  by (relation "measure (size o fst)")
    (auto dest: members_size elements_size elements_size [OF elements_nonempty] oget_size intro: elements_size elements_nonempty)

definition generate :: "json option \<Rightarrow> nat \<Rightarrow> json \<times> nat" where
  "generate schema n = (case schema of None \<Rightarrow> (JNull, n) | Some s \<Rightarrow> generateFromSchema s n)"

section \<open>\<open>store.ts\<close>\<close>

type_synonym data = "(string, json) omap"

record collection_meta =
  cm_version :: nat
  cm_lastModified :: string

record resource_store =
  collections :: "(string, (string, json) omap) omap"
  meta :: "(string, collection_meta) omap"

definition new_store :: resource_store where
  "new_store = \<lparr>collections = [], meta = []\<rparr>"

text \<open>\<open>this.collection(resource)\<close>: reading a collection that is not there creates it.\<close>

definition the_collection :: "string \<Rightarrow> resource_store \<Rightarrow> (string, json) omap" where
  "the_collection r st = oget_or [] (collections st) r"

definition touch_collection :: "string \<Rightarrow> resource_store \<Rightarrow> resource_store" where
  "touch_collection r st =
     (case oget (collections st) r of Some _ \<Rightarrow> st | None \<Rightarrow> st\<lparr>collections := oset r [] (collections st)\<rparr>)"

definition has_resource :: "string \<Rightarrow> resource_store \<Rightarrow> bool" where
  "has_resource r st \<longleftrightarrow> oget (collections st) r \<noteq> None"

definition list_resource :: "string \<Rightarrow> resource_store \<Rightarrow> json list \<times> resource_store" where
  "list_resource r st = (map snd (the_collection r st), touch_collection r st)"

definition get_resource :: "string \<Rightarrow> string \<Rightarrow> resource_store \<Rightarrow> json option \<times> resource_store" where
  "get_resource r i st = (oget (the_collection r st) i, touch_collection r st)"

definition touch :: "string \<Rightarrow> string \<Rightarrow> resource_store \<Rightarrow> resource_store" where
  "touch date r st =
     st\<lparr>meta := oset r \<lparr>cm_version = (case oget (meta st) r of Some c \<Rightarrow> cm_version c | None \<Rightarrow> 0) + 1, cm_lastModified = date\<rparr> (meta st)\<rparr>"

definition put_resource :: "string \<Rightarrow> string \<Rightarrow> string \<Rightarrow> json \<Rightarrow> resource_store \<Rightarrow> resource_store" where
  "put_resource date r i v st =
     touch date r (st\<lparr>collections := oset r (oset i v (the_collection r st)) (collections st)\<rparr>)"

definition delete_resource_of :: "string \<Rightarrow> string \<Rightarrow> string \<Rightarrow> resource_store \<Rightarrow> bool \<times> resource_store" where
  "delete_resource_of date r i st =
     (let c = the_collection r st; st = touch_collection r st
      in if oget c i = None then (False, st)
         else (True, touch date r (st\<lparr>collections := oset r (odel i c) (collections st)\<rparr>)))"

definition etag :: "string \<Rightarrow> resource_store \<Rightarrow> string option" where
  "etag r st = map_option (\<lambda>c. ''W/'' @ quoted (nat_str (cm_version c))) (oget (meta st) r)"

definition lastModified :: "string \<Rightarrow> resource_store \<Rightarrow> string option" where
  "lastModified r st = map_option cm_lastModified (oget (meta st) r)"

section \<open>\<open>server.ts\<close>: state and replies\<close>

record mock_server =
  ms_store :: resource_store
  ms_lists :: "(string, json list) omap"
  ms_uuids :: nat
  ms_strings :: nat

record 'u mock_env =
  me_url :: "'u url_api"
  me_uuid :: "nat \<Rightarrow> string"
  me_http_date :: "string \<Rightarrow> int option"

record reply =
  rp_status :: int
  rp_headers :: "(string, string) omap"
  rp_body :: "json option"

definition sendJson :: "int \<Rightarrow> json \<Rightarrow> (string, string) omap \<Rightarrow> reply" where
  "sendJson status body extra =
     \<lparr>rp_status = status, rp_headers = spread [(''Content-Type'', ''application/json'')] extra, rp_body = Some body\<rparr>"

definition error_reply :: "int \<Rightarrow> string \<Rightarrow> reply" where
  "error_reply status text = sendJson status (JObj [(''error'', JStr text)]) []"

definition SEED_COUNT :: nat where "SEED_COUNT = 3"
definition PAGINATED_TOTAL_COUNT :: nat where "PAGINATED_TOTAL_COUNT = 7"
definition DEFAULT_PAGE_SIZE :: int where "DEFAULT_PAGE_SIZE = 3"

text \<open>\<open>operation.responses[String(code)]?.content?.['application/json']?.schema\<close> of the first code that has one.\<close>

definition responseSchemaFor :: "json \<Rightarrow> string list \<Rightarrow> json option" where
  "responseSchemaFor operation codes =
     (case List.find truthy_json (map (\<lambda>code.
        member ''schema'' (member ''application/json'' (member ''content'' (member code (member ''responses'' (Some operation)))))) codes) of
        Some s \<Rightarrow> s
      | None \<Rightarrow> None)"

definition item_schema :: "json \<Rightarrow> string list \<Rightarrow> json option" where
  "item_schema operation codes =
     (let schema = responseSchemaFor operation codes
      in if member ''type'' schema = Some (JStr ''array'') then member ''items'' schema else schema)"

text \<open>A fake record: what the schema generates, \<open>other\<close> when that is no object, and a new id.\<close>

definition fake_record :: "'u mock_env \<Rightarrow> json option \<Rightarrow> (json \<Rightarrow> data) \<Rightarrow> mock_server \<Rightarrow> data \<times> string \<times> mock_server" where
  "fake_record e schema other s =
     (let (v, n) = generate schema (ms_strings s); i = me_uuid e (ms_uuids s)
      in (oset ''id'' (JStr i) (if is_object (Some v) then own_entries (Some v) else other v), i,
          s\<lparr>ms_strings := n, ms_uuids := ms_uuids s + 1\<rparr>))"

fun seed :: "'u mock_env \<Rightarrow> string \<Rightarrow> string \<Rightarrow> json option \<Rightarrow> nat \<Rightarrow> mock_server \<Rightarrow> mock_server" where
  "seed e date r schema 0 s = s"
| "seed e date r schema (Suc n) s =
     (let (rec0, i, s) = fake_record e schema (\<lambda>_. []) s
      in seed e date r schema n (s\<lparr>ms_store := put_resource date r i (JObj rec0) (ms_store s)\<rparr>))"

definition seedIfEmpty :: "'u mock_env \<Rightarrow> string \<Rightarrow> resource_route \<Rightarrow> json \<Rightarrow> mock_server \<Rightarrow> mock_server" where
  "seedIfEmpty e date r operation s =
     (if has_resource (collectionPath r) (ms_store s) then s
      else seed e date (collectionPath r) (item_schema operation [''200'']) SEED_COUNT s)"

definition conditionalResponseHeaders :: "string option \<Rightarrow> string option \<Rightarrow> (string, string) omap" where
  "conditionalResponseHeaders tag modified =
     (if truthy tag then [(''ETag'', the tag)] else []) @ (if truthy modified then [(''Last-Modified'', the modified)] else [])"

definition isNotModified :: "'u mock_env \<Rightarrow> headers \<Rightarrow> string option \<Rightarrow> string option \<Rightarrow> bool" where
  "isNotModified e hs tag modified =
     (let ifNoneMatch = oget hs ''if-none-match''; ifModifiedSince = oget hs ''if-modified-since''
      in if truthy ifNoneMatch then tag = ifNoneMatch
         else if truthy ifModifiedSince \<and> truthy modified
         then num_le (me_http_date e (the modified)) (me_http_date e (the ifModifiedSince))
         else False)"

section \<open>Collections and items\<close>

definition handleItemRequest ::
  "string \<Rightarrow> string \<Rightarrow> string \<Rightarrow> resource_route \<Rightarrow> json option \<Rightarrow> mock_server \<Rightarrow> reply \<times> mock_server" where
  "handleItemRequest date method i r body s =
     (let c = collectionPath r
      in if method = ''get''
         then (let (rec0, st) = get_resource c i (ms_store s)
               in (case rec0 of None \<Rightarrow> error_reply 404 ''Not Found'' | Some v \<Rightarrow> sendJson 200 v [], s\<lparr>ms_store := st\<rparr>))
         else if method = ''put'' \<or> method = ''patch''
         then (let (existing, st) = get_resource c i (ms_store s)
               in if existing = None \<and> method = ''patch'' then (error_reply 404 ''Not Found'', s\<lparr>ms_store := st\<rparr>)
                  else
                    let updated = JObj (oset ''id'' (JStr i)
                          (if method = ''patch'' then spread (own_entries existing) (own_entries body) else spread [] (own_entries body)))
                    in (sendJson 200 updated [], s\<lparr>ms_store := put_resource date c i updated st\<rparr>))
         else if method = ''delete''
         then (let (deleted, st) = delete_resource_of date c i (ms_store s)
               in (if deleted then \<lparr>rp_status = 204, rp_headers = [], rp_body = None\<rparr> else error_reply 404 ''Not Found'',
                   s\<lparr>ms_store := st\<rparr>))
         else (error_reply 405 ''Method Not Allowed'', s))"

definition handleCollectionRequest ::
  "'u mock_env \<Rightarrow> string \<Rightarrow> headers \<Rightarrow> string \<Rightarrow> resource_route \<Rightarrow> json \<Rightarrow> json option \<Rightarrow> mock_server \<Rightarrow> reply \<times> mock_server" where
  "handleCollectionRequest e date hs method r operation body s =
     (let c = collectionPath r
      in if method = ''get''
         then (let s = seedIfEmpty e date r operation s; tag = etag c (ms_store s); modified = lastModified c (ms_store s);
                   extra = conditionalResponseHeaders tag modified
               in if isNotModified e hs tag modified then (\<lparr>rp_status = 304, rp_headers = extra, rp_body = None\<rparr>, s)
                  else (let (vs, st) = list_resource c (ms_store s) in (sendJson 200 (JArr vs) extra, s\<lparr>ms_store := st\<rparr>)))
         else if method = ''post''
         then (let (v, n) = generate (item_schema operation [''201'', ''200'']) (ms_strings s);
                   given = text_of (member ''id'' body);
                   (i, k) = (if truthy given then (the given, ms_uuids s) else (me_uuid e (ms_uuids s), ms_uuids s + 1));
                   rec0 = JObj (oset ''id'' (JStr i)
                     (spread (if is_object (Some v) then own_entries (Some v) else []) (own_entries body)))
               in (sendJson 201 rec0 [], s\<lparr>ms_strings := n, ms_uuids := k, ms_store := put_resource date c i rec0 (ms_store s)\<rparr>))
         else (error_reply 405 ''Method Not Allowed'', s))"

section \<open>Paginated lists\<close>

definition fieldNameForRole :: "json \<Rightarrow> string \<Rightarrow> string option" where
  "fieldNameForRole scheme role =
     map_option fst (List.find (\<lambda>(_, field). role_of field = Some role) (fields_at ''request'' ''queryParameters'' scheme))"

text \<open>
  A JavaScript number that may fail to be finite: \<open>None\<close> is NaN or an infinity. JSON has null
  for it.
\<close>

definition number_json :: "int option \<Rightarrow> json" where
  "number_json x = (case x of Some n \<Rightarrow> JNum n | None \<Rightarrow> JNull)"

definition add_num :: "int option \<Rightarrow> int option \<Rightarrow> int option" where
  "add_num x y = (case (x, y) of (Some a, Some b) \<Rightarrow> Some (a + b) | _ \<Rightarrow> None)"

text \<open>\<open>Math.floor(x / y) + 1\<close> and \<open>Math.ceil(x / y)\<close>\<close>

definition page_of :: "int option \<Rightarrow> int option \<Rightarrow> int option" where
  "page_of x y = (case (x, y) of (Some a, Some b) \<Rightarrow> if b = 0 then None else Some (a div b + 1) | _ \<Rightarrow> None)"

definition pages_of :: "int \<Rightarrow> int option \<Rightarrow> int option" where
  "pages_of a y = (case y of Some b \<Rightarrow> if b = 0 then None else Some (- ((- a) div b)) | None \<Rightarrow> None)"

text \<open>\<open>xs.slice(from, to)\<close>; NaN counts as 0, and a negative index from the end.\<close>

definition slice_index :: "nat \<Rightarrow> int option \<Rightarrow> nat" where
  "slice_index len x =
     (let i = value_or 0 x in if i < 0 then nat (max (int len + i) 0) else min (nat i) len)"

definition js_slice :: "int option \<Rightarrow> int option \<Rightarrow> 'a list \<Rightarrow> 'a list" where
  "js_slice lo hi xs = take (slice_index (length xs) hi - slice_index (length xs) lo) (drop (slice_index (length xs) lo) xs)"

text \<open>\<open>String(Math.floor(nextOffset / pageSize) + 1)\<close>\<close>

definition page_text :: "int \<Rightarrow> int \<Rightarrow> string" where
  "page_text a b =
     (if b \<noteq> 0 then int_str (a div b + 1) else if a = 0 then ''NaN'' else if a < 0 then ''-Infinity'' else ''Infinity'')"

definition buildNextLink :: "'u url_api \<Rightarrow> 'u \<Rightarrow> int \<Rightarrow> int \<Rightarrow> string option \<Rightarrow> string option \<Rightarrow> string option \<Rightarrow> string" where
  "buildNextLink api url nextOffset n offsetParam pageParam pageSizeParam =
     (let next = (if truthy offsetParam then set_param api (the offsetParam) (int_str nextOffset) url else url);
          next = (if truthy pageParam then set_param api (the pageParam) (page_text nextOffset n) next else next);
          next = (if truthy pageSizeParam then set_param api (the pageSizeParam) (int_str n) next else next)
      in href api next)"

fun fake_items :: "'u mock_env \<Rightarrow> json option \<Rightarrow> nat \<Rightarrow> mock_server \<Rightarrow> json list \<times> mock_server" where
  "fake_items e schema 0 s = ([], s)"
| "fake_items e schema (Suc n) s =
     (let (rec0, _, s) = fake_record e schema (\<lambda>v. [(''value'', v)]) s;
          (rest, s) = fake_items e schema n s
      in (JObj rec0 # rest, s))"

text \<open>The list of a path template: generated at its first request.\<close>

definition list_items :: "'u mock_env \<Rightarrow> string \<Rightarrow> json option \<Rightarrow> mock_server \<Rightarrow> json list \<times> mock_server" where
  "list_items e template schema s =
     (case oget (ms_lists s) template of
        Some items \<Rightarrow> (items, s)
      | None \<Rightarrow>
          (let (items, s) = fake_items e schema PAGINATED_TOTAL_COUNT s
           in (items, s\<lparr>ms_lists := oset template items (ms_lists s)\<rparr>)))"

record page_facts =
  pf_total :: nat
  pf_got :: nat
  pf_offset :: "int option"
  pf_size :: "int option"
  pf_more :: bool
  pf_link :: string

text \<open>One field of the response's metadata.\<close>

definition metadata_field :: "page_facts \<Rightarrow> json \<Rightarrow> string \<times> json \<Rightarrow> json" where
  "metadata_field f body pf =
     (let path = fst pf; role = role_of (snd pf)
      in if role = Some ''totalCount'' then setNestedField body path (JNum (int (pf_total f)))
         else if role = Some ''pageSize'' then setNestedField body path (JNum (int (pf_got f)))
         else if role = Some ''currentPage'' then setNestedField body path (number_json (page_of (pf_offset f) (pf_size f)))
         else if role = Some ''totalPages'' then setNestedField body path (number_json (pages_of (int (pf_total f)) (pf_size f)))
         else if role = Some ''nextPageToken'' \<or> role = Some ''nextCursor''
         then setNestedField body path
           (if pf_more f then JStr (int_str (value_or 0 (add_num (pf_offset f) (pf_size f)))) else JNull)
         else if role = Some ''nextLink'' then setNestedField body path (if pf_more f then JStr (pf_link f) else JNull)
         else body)"

definition param_number :: "'u url_api \<Rightarrow> 'u \<Rightarrow> string \<Rightarrow> int \<Rightarrow> int option" where
  "param_number api url name d =
     (case get_param api name url of Some v \<Rightarrow> js_number (Some (JStr v)) | None \<Rightarrow> Some d)"

definition request_offset :: "'u url_api \<Rightarrow> 'u \<Rightarrow> json \<Rightarrow> int option \<Rightarrow> int option" where
  "request_offset api url scheme n =
     (let offsetParam = fieldNameForRole scheme ''offset''; pageParam = fieldNameForRole scheme ''page'';
          pageTokenParam = (case fieldNameForRole scheme ''pageToken'' of Some t \<Rightarrow> Some t | None \<Rightarrow> fieldNameForRole scheme ''cursor'')
      in if truthy offsetParam then param_number api url (the offsetParam) 0
         else if truthy pageParam
         then (case (param_number api url (the pageParam) 1, n) of (Some p, Some k) \<Rightarrow> Some ((p - 1) * k) | _ \<Rightarrow> None)
         else if truthy pageTokenParam
         then (let token = get_param api (the pageTokenParam) url
               in if truthy token then js_number (Some (JStr (the token))) else Some 0)
         else Some 0)"

definition request_size :: "'u url_api \<Rightarrow> 'u \<Rightarrow> json \<Rightarrow> int option" where
  "request_size api url scheme =
     (let pageSizeParam = fieldNameForRole scheme ''pageSize''
      in if truthy pageSizeParam then param_number api url (the pageSizeParam) DEFAULT_PAGE_SIZE else Some DEFAULT_PAGE_SIZE)"

definition list_facts :: "'u url_api \<Rightarrow> 'u \<Rightarrow> json \<Rightarrow> json list \<Rightarrow> page_facts" where
  "list_facts api url scheme items =
     (let n = request_size api url scheme; offset = request_offset api url scheme n; next = add_num offset n
      in \<lparr>pf_total = length items, pf_got = length (js_slice offset next items), pf_offset = offset, pf_size = n,
          pf_more = num_less next (Some (int (length items))),
          pf_link = buildNextLink api url (value_or 0 next) (value_or 0 n)
            (fieldNameForRole scheme ''offset'') (fieldNameForRole scheme ''page'') (fieldNameForRole scheme ''pageSize'')\<rparr>)"

text \<open>The body of a page: a generated response, with the slice and the metadata put into it.\<close>

definition list_body :: "'u url_api \<Rightarrow> 'u \<Rightarrow> json \<Rightarrow> json option \<Rightarrow> json list \<Rightarrow> json \<Rightarrow> json" where
  "list_body api url scheme responseSchema items generated =
     (let f = list_facts api url scheme items;
          slice = JArr (js_slice (pf_offset f) (add_num (pf_offset f) (pf_size f)) items);
          body = (if is_object (Some generated) then generated else JObj []);
          body = (case locateItemsField responseSchema (Some scheme) of
                    Some name \<Rightarrow> if name = [] then body else set_child name slice body
                  | None \<Rightarrow> body)
      in foldl (metadata_field f) body (fields_at ''response'' ''bodyFields'' scheme))"

definition handlePaginatedListRequest ::
  "'u mock_env \<Rightarrow> string \<Rightarrow> json \<Rightarrow> json \<Rightarrow> 'u \<Rightarrow> mock_server \<Rightarrow> reply \<times> mock_server" where
  "handlePaginatedListRequest e template operation scheme url s =
     (let responseSchema = responseSchemaFor operation [''200''];
          (items, s) = list_items e template (itemSchemaFor responseSchema (Some scheme)) s;
          (generated, n) = generate responseSchema (ms_strings s)
      in (sendJson 200 (list_body (me_url e) url scheme responseSchema items generated) [], s\<lparr>ms_strings := n\<rparr>))"

section \<open>The request handler\<close>

text \<open>\<open>Number.parseInt(code, 10) || 200\<close>\<close>

definition status_of :: "string \<Rightarrow> int" where
  "status_of code0 =
     (let ds = takeWhile is_digit (trim_start code0) in if ds = [] \<or> dec_val ds = 0 then 200 else int (dec_val ds))"

definition respondWithExample :: "json \<Rightarrow> mock_server \<Rightarrow> reply \<times> mock_server" where
  "respondWithExample operation s =
     (let codes = okeys (members (member ''responses'' (Some operation)));
          successCode = (case List.find (starts_with ''2'') codes of Some c \<Rightarrow> Some c | None \<Rightarrow> (if codes = [] then None else Some (hd codes)))
      in if \<not> truthy successCode then (\<lparr>rp_status = 204, rp_headers = [], rp_body = None\<rparr>, s)
         else
           let content = member ''application/json'' (member ''content'' (member (the successCode) (member ''responses'' (Some operation))))
           in if \<not> truthy_json content then (\<lparr>rp_status = status_of (the successCode), rp_headers = [], rp_body = None\<rparr>, s)
              else
                (case or_else (member ''example'' content) None of
                   Some v \<Rightarrow> (sendJson (status_of (the successCode)) v [], s)
                 | None \<Rightarrow>
                     (let (v, n) = generate (member ''schema'' content) (ms_strings s)
                      in (sendJson (status_of (the successCode)) v [], s\<lparr>ms_strings := n\<rparr>))))"

definition readJsonBody :: "string \<Rightarrow> json option" where
  "readJsonBody text = (if text = [] then None else json_parse text)"

record 'u http_request =
  hr_method :: string
  hr_url :: 'u
  hr_headers :: headers
  hr_body :: string
  hr_date :: string

definition handleMatched :: "'u mock_env \<Rightarrow> json \<Rightarrow> 'u http_request \<Rightarrow> route_match \<Rightarrow> mock_server \<Rightarrow> reply \<times> mock_server" where
  "handleMatched e document req rm s =
     (let method = to_lower (hr_method req); paths = member ''paths'' (Some document); template = rm_template rm;
          operation = member method (member template paths)
      in if \<not> truthy_json operation then (error_reply 405 ''Method Not Allowed'', s)
         else
           (case (if method = ''get'' then resolveEffectiveScheme document (the operation) else None) of
              Some (_, scheme) \<Rightarrow> handlePaginatedListRequest e template (the operation) scheme (hr_url req) s
            | None \<Rightarrow>
                let body = (if method = ''post'' \<or> method = ''put'' \<or> method = ''patch'' then readJsonBody (hr_body req) else None);
                    resource = List.find (\<lambda>r. collectionPath r = template \<or> itemPath r = template) (discoverResources (the paths))
                in (case resource of
                      None \<Rightarrow> respondWithExample (the operation) s
                    | Some r \<Rightarrow>
                        if itemPath r = template
                        then handleItemRequest (hr_date req) method (oget_or [] (rm_params rm) (itemParam r)) r body s
                        else handleCollectionRequest e (hr_date req) (hr_headers req) method r (the operation) body s)))"

definition handleRequest :: "'u mock_env \<Rightarrow> json \<Rightarrow> 'u http_request \<Rightarrow> mock_server \<Rightarrow> reply \<times> mock_server" where
  "handleRequest e document req s =
     (case findRoute (okeys (members (member ''paths'' (Some document)))) (pathname (me_url e) (hr_url req)) of
        Inl err \<Rightarrow> (error_reply 500 (''URIError: '' @ err), s)
      | Inr None \<Rightarrow> (error_reply 404 ''Not Found'', s)
      | Inr (Some rm) \<Rightarrow> handleMatched e document req rm s)"

definition new_server :: mock_server where
  "new_server = \<lparr>ms_store = new_store, ms_lists = [], ms_uuids = 0, ms_strings = 0\<rparr>"

section \<open>Entity tags\<close>

text \<open>What a handler does to the store is a sequence of these.\<close>

datatype store_op =
    OpRead string
  | OpPut string string string json
  | OpDelete string string string

fun store_step :: "store_op \<Rightarrow> resource_store \<Rightarrow> resource_store" where
  "store_step (OpRead r) st = touch_collection r st"
| "store_step (OpPut date r i v) st = put_resource date r i v st"
| "store_step (OpDelete date r i) st = snd (delete_resource_of date r i st)"

definition store_run :: "store_op list \<Rightarrow> resource_store \<Rightarrow> resource_store" where
  "store_run ops st = foldl (\<lambda>st x. store_step x st) st ops"

lemma store_run_simps [simp]:
  "store_run [] st = st"
  "store_run (x # ops) st = store_run ops (store_step x st)"
  "store_run (ops @ ops') st = store_run ops' (store_run ops st)"
  by (simp_all add: store_run_def)

definition version :: "string \<Rightarrow> resource_store \<Rightarrow> nat" where
  "version r st = (case oget (meta st) r of Some c \<Rightarrow> cm_version c | None \<Rightarrow> 0)"

text \<open>A collection changes only when its version grows.\<close>

lemma store_step_version:
  "version r st < version r (store_step x st)
   \<or> version r (store_step x st) = version r st \<and> the_collection r (store_step x st) = the_collection r st"
  by (cases x) (auto simp: version_def touch_def touch_collection_def put_resource_def delete_resource_of_def
      the_collection_def oget_or_def Let_def split: option.splits)

lemma store_run_version:
  "version r st < version r (store_run ops st)
   \<or> version r (store_run ops st) = version r st \<and> the_collection r (store_run ops st) = the_collection r st"
proof (induction ops arbitrary: st)
  case (Cons x ops)
  from Cons.IH [of "store_step x st"] store_step_version [of r st x] show ?case by auto
qed simp

lemma nat_str_inj: "nat_str a = nat_str b \<Longrightarrow> a = b"
  by (metis dec_val_nat_str)

definition versioned :: "resource_store \<Rightarrow> bool" where
  "versioned st \<longleftrightarrow> (\<forall>r c. oget (meta st) r = Some c \<longrightarrow> 0 < cm_version c)"

lemma versioned_step: "versioned st \<Longrightarrow> versioned (store_step x st)"
  by (cases x) (auto simp: versioned_def touch_def touch_collection_def put_resource_def delete_resource_of_def Let_def split: option.splits)

lemma versioned_run: "versioned st \<Longrightarrow> versioned (store_run ops st)"
  by (induction ops arbitrary: st) (auto simp: versioned_step)

lemma etag_version:
  assumes "versioned a" "versioned b" "etag r a = etag r b"
  shows "version r a = version r b"
proof -
  have "cm_version c = cm_version d" if "''W/'' @ quoted (nat_str (cm_version c)) = ''W/'' @ quoted (nat_str (cm_version d))" for c d
    using that nat_str_inj by (simp add: quoted_def)
  then show ?thesis using assms(3) by (auto simp: etag_def version_def split: option.splits)
qed

definition stored_by :: "mock_server \<Rightarrow> mock_server \<Rightarrow> bool" where
  "stored_by s s' \<longleftrightarrow> (\<exists>ops. ms_store s' = store_run ops (ms_store s))"

lemma stored_by_same: "ms_store s' = ms_store s \<Longrightarrow> stored_by s s'"
  unfolding stored_by_def by (intro exI [of _ "[]"]) simp

lemma stored_by_trans: "stored_by a b \<Longrightarrow> stored_by b c \<Longrightarrow> stored_by a c"
  unfolding stored_by_def by (metis store_run_simps(3))

lemma stored_by_op: "ms_store s' = store_step x (ms_store s) \<Longrightarrow> stored_by s s'"
  unfolding stored_by_def by (intro exI [of _ "[x]"]) simp

lemma stored_by_read_op: "ms_store s' = store_step x (touch_collection r (ms_store s)) \<Longrightarrow> stored_by s s'"
  unfolding stored_by_def by (intro exI [of _ "[OpRead r, x]"]) simp

lemma fake_record_store: "fake_record e schema f s = (r, i, s') \<Longrightarrow> ms_store s' = ms_store s"
  by (auto simp: fake_record_def Let_def split: prod.splits)

lemma stored_by_seed: "stored_by s (seed e date r schema n s)"
proof (induction n arbitrary: s)
  case 0
  show ?case by (simp add: stored_by_same)
next
  case (Suc n)
  obtain rec0 i s1 where f: "fake_record e schema (\<lambda>_. []) s = (rec0, i, s1)" by (metis prod_cases3)
  define s2 where "s2 = s1\<lparr>ms_store := put_resource date r i (JObj rec0) (ms_store s1)\<rparr>"
  have "stored_by s s2"
    using fake_record_store [OF f] by (intro stored_by_op [of _ "OpPut date r i (JObj rec0)"]) (simp add: s2_def)
  moreover have "seed e date r schema (Suc n) s = seed e date r schema n s2" by (simp add: f s2_def)
  ultimately show ?case using Suc stored_by_trans by metis
qed

lemma fake_items_store: "fake_items e schema n s = (items, s') \<Longrightarrow> ms_store s' = ms_store s"
proof (induction n arbitrary: items s s')
  case (Suc n)
  obtain rec0 i s1 where f: "fake_record e schema (\<lambda>v. [(''value'', v)]) s = (rec0, i, s1)" by (metis prod_cases3)
  then show ?case using Suc.prems Suc.IH fake_record_store [OF f] by (auto split: prod.splits)
qed simp

lemma list_items_store: "list_items e template schema s = (items, s') \<Longrightarrow> ms_store s' = ms_store s"
  by (auto simp: list_items_def dest: fake_items_store split: option.splits prod.splits)

lemma stored_by_item: "handleItemRequest date method i r body s = (reply, s') \<Longrightarrow> stored_by s s'"
  unfolding handleItemRequest_def Let_def
  by (auto split: if_splits prod.splits simp: get_resource_def delete_resource_of_def
      intro: stored_by_same stored_by_op [of _ "OpRead (collectionPath r)"]
        stored_by_read_op [of _ "OpPut date (collectionPath r) i _"] stored_by_op [of _ "OpDelete date (collectionPath r) i"])

lemma stored_by_collection: "handleCollectionRequest e date hs method r operation body s = (reply, s') \<Longrightarrow> stored_by s s'"
proof -
  assume h: "handleCollectionRequest e date hs method r operation body s = (reply, s')"
  let ?c = "collectionPath r" and ?s1 = "seedIfEmpty e date r operation s"
  have seeded: "stored_by s ?s1" using stored_by_seed stored_by_same by (auto simp: seedIfEmpty_def)
  have "stored_by ?s1 (?s1\<lparr>ms_store := touch_collection ?c (ms_store ?s1)\<rparr>)"
    by (rule stored_by_op [of _ "OpRead ?c"]) simp
  with seeded have "method = ''get'' \<Longrightarrow> ?thesis"
    using h stored_by_trans by (auto simp: handleCollectionRequest_def Let_def list_resource_def split: if_splits)
  moreover have "method \<noteq> ''get'' \<Longrightarrow> ?thesis"
    using h by (auto simp: handleCollectionRequest_def Let_def split: if_splits prod.splits
        intro: stored_by_same stored_by_op [of _ "OpPut date ?c _ _"])
  ultimately show ?thesis by blast
qed

lemma stored_by_request: "handleRequest e document req s = (reply, s') \<Longrightarrow> stored_by s s'"
proof -
  assume h: "handleRequest e document req s = (reply, s')"
  have list: "stored_by s s'" if "handlePaginatedListRequest e template operation scheme url s = (reply, s')" for template operation scheme url
  proof -
    obtain items s1 where items: "list_items e template (itemSchemaFor (responseSchemaFor operation [''200'']) (Some scheme)) s = (items, s1)"
      by fastforce
    from list_items_store [OF items] that show ?thesis
      by (auto simp: handlePaginatedListRequest_def items Let_def split: prod.splits intro!: stored_by_same)
  qed
  have example: "stored_by s s'" if "respondWithExample operation s = (reply, s')" for operation
    using that by (auto simp: respondWithExample_def Let_def split: if_splits option.splits prod.splits intro: stored_by_same)
  show ?thesis
    using h unfolding handleRequest_def handleMatched_def Let_def
    by (auto split: sum.splits option.splits if_splits prod.splits
        intro: list example stored_by_item stored_by_collection stored_by_same)
qed

definition serve :: "'u mock_env \<Rightarrow> json \<Rightarrow> 'u http_request list \<Rightarrow> mock_server \<Rightarrow> mock_server" where
  "serve e document reqs s = foldl (\<lambda>s req. snd (handleRequest e document req s)) s reqs"

lemma stored_by_serve: "stored_by s (serve e document reqs s)"
proof (induction reqs arbitrary: s)
  case Nil
  show ?case by (simp add: serve_def stored_by_same)
next
  case (Cons req reqs)
  have "stored_by s (snd (handleRequest e document req s))"
    using stored_by_request by (cases "handleRequest e document req s") auto
  moreover have "serve e document (req # reqs) s = serve e document reqs (snd (handleRequest e document req s))"
    by (simp add: serve_def)
  ultimately show ?case using Cons stored_by_trans by metis
qed

lemma stored_by_etag:
  assumes "s = serve e document before new_server" "stored_by s s'" "etag r (ms_store s') = etag r (ms_store s)"
  shows "the_collection r (ms_store s') = the_collection r (ms_store s)"
proof -
  obtain ops ops' where ops: "ms_store s = store_run ops new_store" "ms_store s' = store_run ops' (ms_store s)"
    using stored_by_serve [of new_server e document before] assms(1,2) by (auto simp: stored_by_def new_server_def)
  have "versioned new_store" by (simp add: versioned_def new_store_def)
  then have v: "versioned (ms_store s)" "versioned (ms_store s')" using ops versioned_run by auto
  from etag_version [OF v(2,1) assms(3)] store_run_version [of r "ms_store s" ops'] show ?thesis
    unfolding ops(2) [symmetric] by auto
qed

text \<open>What a \<open>GET\<close> with \<open>If-None-Match\<close> is answered, by the tag and the collection afterwards.\<close>

lemma conditional_get:
  assumes "oget hs ''if-none-match'' = Some tag" "tag \<noteq> []"
    and "handleCollectionRequest e date hs ''get'' (route :: resource_route) operation body s = (reply, s')"
  shows "rp_status reply = (if etag (collectionPath route) (ms_store s') = Some tag then 304 else 200)
    \<and> (rp_status reply = 200 \<longrightarrow> rp_body reply = Some (JArr (map snd (the_collection (collectionPath route) (ms_store s')))))"
proof -
  let ?c = "collectionPath route" and ?s = "seedIfEmpty e date route operation s"
  have touched: "etag ?c (touch_collection ?c st) = etag ?c st" "the_collection ?c (touch_collection ?c st) = the_collection ?c st" for st
    by (simp_all add: etag_def touch_collection_def the_collection_def oget_or_def split: option.split)
  show ?thesis
  proof (cases "etag ?c (ms_store ?s) = Some tag")
    case True
    then have "s' = ?s" "rp_status reply = 304"
      using assms by (auto simp: handleCollectionRequest_def Let_def isNotModified_def)
    with True show ?thesis by simp
  next
    case False
    then have "s' = ?s\<lparr>ms_store := touch_collection ?c (ms_store ?s)\<rparr>" "rp_status reply = 200"
      "rp_body reply = Some (JArr (map snd (the_collection ?c (ms_store ?s))))"
      using assms by (auto simp: handleCollectionRequest_def Let_def isNotModified_def list_resource_def sendJson_def)
    with False touched show ?thesis by simp
  qed
qed

text \<open>
  C36. An entity tag is never handed out twice for different contents: when the tag of a
  collection is the same before and after any sequence of requests of any kind to a server
  that started empty, the collection is the same, in the same order. So a \<open>GET\<close> of the collection
  with that tag in \<open>If-None-Match\<close> is answered \<open>304 Not Modified\<close> exactly when the tag is still the
  collection's, and then the collection is what it was when the tag was given; any other
  answer is a 200 with the collection as it is. Nothing is said of \<open>If-Modified-Since\<close>, which compares
  dates and not contents.
\<close>

theorem same_etag_same_collection:
  assumes "s = serve e document before new_server" "s' = serve e document after s"
  shows "(etag r (ms_store s') = etag r (ms_store s) \<longrightarrow> the_collection r (ms_store s') = the_collection r (ms_store s))
    \<and> (\<forall>date hs (route :: resource_route) operation body tag. collectionPath route = r \<longrightarrow> etag r (ms_store s) = Some tag \<longrightarrow>
         oget hs ''if-none-match'' = Some tag \<longrightarrow>
         (case handleCollectionRequest e date hs ''get'' route operation body s' of
            (reply, s'') \<Rightarrow>
              if etag r (ms_store s'') = Some tag
              then rp_status reply = 304 \<and> the_collection r (ms_store s'') = the_collection r (ms_store s)
              else rp_status reply = 200 \<and> rp_body reply = Some (JArr (map snd (the_collection r (ms_store s''))))))"
proof (intro conjI impI allI)
  have run: "stored_by s s'" using stored_by_serve assms(2) by simp
  then show "the_collection r (ms_store s') = the_collection r (ms_store s)" if "etag r (ms_store s') = etag r (ms_store s)"
    by (rule stored_by_etag [OF assms(1) _ that])
  fix date hs and route :: resource_route and operation body tag
  assume c: "collectionPath route = r" and tag: "etag r (ms_store s) = Some tag" and hs: "oget hs ''if-none-match'' = Some tag"
  obtain reply s'' where h: "handleCollectionRequest e date hs ''get'' route operation body s' = (reply, s'')" by fastforce
  have "tag \<noteq> []" using tag by (auto simp: etag_def)
  note answer = conditional_get [OF hs this h, unfolded c]
  have "stored_by s s''" using run stored_by_collection [OF h] by (rule stored_by_trans)
  then have "the_collection r (ms_store s'') = the_collection r (ms_store s)" if "etag r (ms_store s'') = Some tag"
    using that tag by (intro stored_by_etag [OF assms(1)]) simp_all
  with answer show "case handleCollectionRequest e date hs ''get'' route operation body s' of
      (reply, s'') \<Rightarrow>
        if etag r (ms_store s'') = Some tag
        then rp_status reply = 304 \<and> the_collection r (ms_store s'') = the_collection r (ms_store s)
        else rp_status reply = 200 \<and> rp_body reply = Some (JArr (map snd (the_collection r (ms_store s''))))"
    unfolding h by simp
qed

definition sample_document :: json where
  "sample_document = JObj [(''paths'', JObj [
     (''/pets'', JObj [(''get'', JObj [(''responses'', JObj [])]), (''post'', JObj [(''responses'', JObj [])])]),
     (''/pets/{petId}'', JObj [(''get'', JObj [(''responses'', JObj [])])])])]"

definition sample_mock :: "plain_url mock_env" where
  "sample_mock = \<lparr>me_url = plain_urls, me_uuid = nat_str, me_http_date = (\<lambda>s. None)\<rparr>"

definition sample_request :: "string \<Rightarrow> string list \<Rightarrow> plain_url http_request" where
  "sample_request method segs =
     \<lparr>hr_method = method, hr_url = \<lparr>pu_host = ''h'', pu_path = segs, pu_query = [], pu_hash = None\<rparr>, hr_headers = [], hr_body = [], hr_date = ''d''\<rparr>"

theorem same_etag_same_collection_witness:
  "the_collection ''/pets'' (ms_store (serve sample_mock sample_document [sample_request ''GET'' [''pets''], sample_request ''GET'' [''pets'', ''0'']]
     (serve sample_mock sample_document [sample_request ''GET'' [''pets'']] new_server)))
   = the_collection ''/pets'' (ms_store (serve sample_mock sample_document [sample_request ''GET'' [''pets'']] new_server))"
  by (rule same_etag_same_collection [OF refl refl, THEN conjunct1, THEN mp]) code_simp

text \<open>
  A \<open>GET\<close> with \<open>If-Modified-Since\<close> only has the dates to go by: a collection that changed again
  within the second of the date it is asked with is answered 304.
\<close>

definition dated_mock :: "plain_url mock_env" where
  "dated_mock = sample_mock\<lparr>me_http_date := (\<lambda>s. Some 0)\<rparr>"

lemma same_second_not_modified:
  "(let s = serve dated_mock sample_document [sample_request ''GET'' [''pets'']] new_server;
        s' = serve dated_mock sample_document [sample_request ''POST'' [''pets'']] s;
        route = \<lparr>collectionPath = ''/pets'', itemPath = ''/pets/{petId}'', itemParam = ''petId'', updateMethod = ''PUT''\<rparr>
    in length (the_collection ''/pets'' (ms_store s')) = length (the_collection ''/pets'' (ms_store s)) + 1
     \<and> rp_status (fst (handleCollectionRequest dated_mock ''d'' [(''if-modified-since'', ''d'')] ''get'' route JNull None s')) = 304)"
  by code_simp

text \<open>
  Reading one item of a collection that was never listed creates the collection, so the list
  that follows is not filled with sample records: it is empty.
\<close>

lemma read_prevents_seed:
  "oget (collections (ms_store s)) (collectionPath r) = None \<Longrightarrow>
   ms_store (seedIfEmpty e date r operation (snd (handleItemRequest date ''get'' i r body s))) = touch_collection (collectionPath r) (ms_store s)
   \<and> the_collection (collectionPath r) (touch_collection (collectionPath r) (ms_store s)) = []"
  by (simp add: handleItemRequest_def Let_def get_resource_def seedIfEmpty_def has_resource_def touch_collection_def the_collection_def oget_or_def)

end
