(* ===== verification/Sy_Queue.thy ===== *)
theory Sy_Queue
  imports Sy_Routes
begin

text \<open>
  The local-first writes of \<open>syncables/src/client/client.ts\<close>: \<open>create\<close>, \<open>update\<close> and \<open>remove\<close>
  change the local storage and enqueue a write; \<open>drainQueue\<close> sends the writes of one record one
  at a time, each until it succeeds or is given up. \<open>InMemoryStorageAdapter\<close> of
  \<open>client/storage.ts\<close> is the storage.

  The code's queues are arrays and its queued writes are objects, which several places hold at
  once, so both live in a heap: an array is an index into \<open>wq_arrays\<close>, a write an index into
  \<open>wq_writes\<close>. A run of \<open>drainQueue\<close> is a task, suspended at one of the function's awaits; the
  server's answers, the storage's completions and the end of a delay are the events that resume
  it. An operation of the caller is a call that is suspended at its awaits of the storage too
  (\<open>wq_callers\<close>): \<open>create\<close> and \<open>remove\<close> wait once, \<open>update\<close> twice, before they enqueue their write, so
  calls that are not awaited may enqueue in another order than they were made.

  \<open>wq_enqueued\<close> and \<open>wq_settled\<close> are histories, for the properties; no operation reads them.
\<close>

section \<open>State\<close>

datatype write_type = CreateWrite | UpdateWrite | DeleteWrite

record queued_write =
  qw_resource :: string
  qw_id :: string
  qw_type :: write_type
  qw_data :: "json option"
  qw_attempts :: nat
  qw_lastError :: "string option"

text \<open>Where a task is suspended; the key, the array and the write its local variables hold.\<close>

datatype task =
    Requesting string nat nat
  | DeletingLocal string nat nat
  | MovingOld string nat nat string json
  | Storing string nat nat string "json option"
  | Delaying string
  | Finished

text \<open>
  Where a call of \<open>create\<close>, \<open>update\<close> or \<open>remove\<close> is suspended: it has read the record to update; it
  has changed the storage and will enqueue the write of the type, id and data; it has returned.
\<close>

datatype caller =
    Reading string string "(string, json) omap" "json option"
  | Writing string string write_type "json option"
  | Returned "json option"

type_synonym local_storage = "(string, (string, json option) omap) omap"

record write_queues =
  wq_writes :: "queued_write list"
  wq_arrays :: "nat list list"
  wq_queues :: "(string, nat) omap"
  wq_draining :: "string list"
  wq_gaveUp :: "(string, nat) omap"
  wq_tasks :: "task list"
  wq_callers :: "caller list"
  wq_storage :: local_storage
  wq_enqueued :: "(string \<times> nat) list"
  wq_settled :: "(string \<times> nat) list"

record retry_options =
  baseDelayMs :: int
  maxDelayMs :: int
  maxAttempts :: "nat option"

definition no_writes :: write_queues where
  "no_writes = \<lparr>wq_writes = [], wq_arrays = [], wq_queues = [], wq_draining = [], wq_gaveUp = [], wq_tasks = [],
     wq_callers = [], wq_storage = [], wq_enqueued = [], wq_settled = []\<rparr>"

section \<open>\<open>storage.ts\<close>\<close>

definition storage_collection :: "string \<Rightarrow> local_storage \<Rightarrow> (string, json option) omap" where
  "storage_collection r st = oget_or [] st r"

definition storage_put :: "string \<Rightarrow> string \<Rightarrow> json option \<Rightarrow> local_storage \<Rightarrow> local_storage" where
  "storage_put r i v st = oset r (oset i v (storage_collection r st)) st"

definition storage_delete :: "string \<Rightarrow> string \<Rightarrow> local_storage \<Rightarrow> local_storage" where
  "storage_delete r i st = oset r (odel i (storage_collection r st)) st"

text \<open>\<open>get\<close>: a value of \<open>undefined\<close> and no value are the same to the caller.\<close>

definition storage_get :: "string \<Rightarrow> string \<Rightarrow> local_storage \<Rightarrow> json option" where
  "storage_get r i st = (case oget (storage_collection r st) i of Some v \<Rightarrow> v | None \<Rightarrow> None)"

definition storage_list :: "string \<Rightarrow> local_storage \<Rightarrow> json option list" where
  "storage_list r st = map snd (storage_collection r st)"

section \<open>Draining\<close>

definition queueKey :: "string \<Rightarrow> string \<Rightarrow> string" where
  "queueKey resource i = resource @ '':'' @ i"

definition write_at :: "write_queues \<Rightarrow> nat \<Rightarrow> queued_write" where
  "write_at s w = wq_writes s ! w"

text \<open>The head of the loop: the first write of the key's queue is attempted up to its first await, or the run ends.\<close>

definition drain_head :: "string \<Rightarrow> nat \<Rightarrow> write_queues \<Rightarrow> write_queues" where
  "drain_head k t s =
     (case oget (wq_queues s) k of
        Some q \<Rightarrow>
          (case wq_arrays s ! q of
             w # _ \<Rightarrow>
               if qw_type (write_at s w) = DeleteWrite
               then s\<lparr>wq_storage := storage_delete (qw_resource (write_at s w)) (qw_id (write_at s w)) (wq_storage s),
                      wq_tasks := (wq_tasks s)[t := DeletingLocal k q w]\<rparr>
               else s\<lparr>wq_tasks := (wq_tasks s)[t := Requesting k q w]\<rparr>
           | [] \<Rightarrow> s\<lparr>wq_queues := odel k (wq_queues s), wq_draining := removeAll k (wq_draining s), wq_tasks := (wq_tasks s)[t := Finished]\<rparr>)
      | None \<Rightarrow> s\<lparr>wq_queues := odel k (wq_queues s), wq_draining := removeAll k (wq_draining s), wq_tasks := (wq_tasks s)[t := Finished]\<rparr>)"

definition shift_array :: "nat \<Rightarrow> write_queues \<Rightarrow> write_queues" where
  "shift_array q s = s\<lparr>wq_arrays := (wq_arrays s)[q := tl (wq_arrays s ! q)]\<rparr>"

definition drop_empty :: "string \<Rightarrow> nat \<Rightarrow> write_queues \<Rightarrow> write_queues" where
  "drop_empty k q s = (if wq_arrays s ! q = [] then s\<lparr>wq_queues := odel k (wq_queues s)\<rparr> else s)"

definition settled :: "string \<Rightarrow> nat \<Rightarrow> write_queues \<Rightarrow> write_queues" where
  "settled k w s = s\<lparr>wq_settled := wq_settled s @ [(k, w)]\<rparr>"

text \<open>A create settled under another id: what is queued behind it moves to that id's queue, as copies.\<close>

definition move_rest :: "string \<Rightarrow> nat \<Rightarrow> nat \<Rightarrow> string \<Rightarrow> write_queues \<Rightarrow> string \<times> write_queues" where
  "move_rest k q w rid s =
     (let rest = wq_arrays s ! q;
          k' = queueKey (qw_resource (write_at s w)) rid;
          s = s\<lparr>wq_arrays := (wq_arrays s)[q := []], wq_queues := odel k (wq_queues s), wq_draining := removeAll k (wq_draining s)\<rparr>;
          s = s\<lparr>wq_draining := List.insert k' (wq_draining s)\<rparr>;
          existing = (case oget (wq_queues s) k' of Some a \<Rightarrow> wq_arrays s ! a | None \<Rightarrow> []);
          copies = map (\<lambda>x. (write_at s x)\<lparr>qw_id := rid\<rparr>) rest;
          refs = [length (wq_writes s)..<length (wq_writes s) + length rest]
      in (k', s\<lparr>wq_writes := wq_writes s @ copies, wq_queues := oset k' (length (wq_arrays s)) (wq_queues s),
                wq_arrays := wq_arrays s @ [existing @ refs]\<rparr>))"

definition succeed :: "string \<Rightarrow> nat \<Rightarrow> nat \<Rightarrow> string \<Rightarrow> nat \<Rightarrow> write_queues \<Rightarrow> write_queues" where
  "succeed k q w rid t s =
     (let s = settled k w (shift_array q s)
      in if rid \<noteq> qw_id (write_at s w)
         then (let (k', s) = move_rest k q w rid s in drain_head k' t s)
         else drain_head k t (drop_empty k q s))"

text \<open>The delay before a retry: \<open>min(base * 2 ** (attempts - 1), max)\<close>.\<close>

definition retry_delay :: "retry_options \<Rightarrow> nat \<Rightarrow> int" where
  "retry_delay ro attempts = min (baseDelayMs ro * 2 ^ (attempts - 1)) (maxDelayMs ro)"

definition fail_write :: "retry_options \<Rightarrow> string \<Rightarrow> nat \<Rightarrow> nat \<Rightarrow> string \<Rightarrow> nat \<Rightarrow> write_queues \<Rightarrow> write_queues" where
  "fail_write ro k q w message t s =
     (let x = write_at s w; x = x\<lparr>qw_attempts := qw_attempts x + 1, qw_lastError := Some message\<rparr>;
          s = s\<lparr>wq_writes := (wq_writes s)[w := x]\<rparr>
      in if (case maxAttempts ro of Some m \<Rightarrow> m \<le> qw_attempts x | None \<Rightarrow> False)
         then (let s = settled k w (shift_array q s); s = s\<lparr>wq_gaveUp := oset k w (wq_gaveUp s)\<rparr>
               in drain_head k t (drop_empty k q s))
         else s\<lparr>wq_tasks := (wq_tasks s)[t := Delaying k]\<rparr>)"

section \<open>Events\<close>

text \<open>
  What resumes a task: an answer of the server (no value for an empty body), a failed request,
  or the end of a storage operation or of a delay.
\<close>

datatype drain_event = Answer "json option" | RequestFailed string | Resumed

definition id_of :: "string \<Rightarrow> json \<Rightarrow> string" where
  "id_of idField record0 = (case member idField (Some record0) of Some v \<Rightarrow> js_string v | None \<Rightarrow> ''undefined'')"

fun resume :: "string \<Rightarrow> retry_options \<Rightarrow> drain_event \<Rightarrow> nat \<Rightarrow> task \<Rightarrow> write_queues \<Rightarrow> write_queues" where
  "resume idField ro (Answer answer) t (Requesting k q w) s =
     (let x = write_at s w in
      case qw_type x of
        CreateWrite \<Rightarrow>
          (if answer = None \<or> answer = Some JNull
           then fail_write ro k q w ''Cannot read properties of undefined'' t s
           else
             let created = the answer; rid = id_of idField created
             in if rid \<noteq> qw_id x
                then s\<lparr>wq_storage := storage_delete (qw_resource x) (qw_id x) (wq_storage s), wq_tasks := (wq_tasks s)[t := MovingOld k q w rid created]\<rparr>
                else s\<lparr>wq_storage := storage_put (qw_resource x) rid (Some created) (wq_storage s), wq_tasks := (wq_tasks s)[t := Storing k q w rid (Some created)]\<rparr>)
      | UpdateWrite \<Rightarrow>
          s\<lparr>wq_storage := storage_put (qw_resource x) (qw_id x) answer (wq_storage s), wq_tasks := (wq_tasks s)[t := Storing k q w (qw_id x) answer]\<rparr>
      | DeleteWrite \<Rightarrow> succeed k q w (qw_id x) t s)"
| "resume idField ro (RequestFailed message) t (Requesting k q w) s = fail_write ro k q w message t s"
| "resume idField ro Resumed t (DeletingLocal k q w) s = s\<lparr>wq_tasks := (wq_tasks s)[t := Requesting k q w]\<rparr>"
| "resume idField ro Resumed t (MovingOld k q w rid created) s =
     s\<lparr>wq_storage := storage_put (qw_resource (write_at s w)) rid (Some created) (wq_storage s), wq_tasks := (wq_tasks s)[t := Storing k q w rid (Some created)]\<rparr>"
| "resume idField ro Resumed t (Storing k q w rid v) s = succeed k q w rid t s"
| "resume idField ro Resumed t (Delaying k) s = drain_head k t s"
| "resume idField ro e t tk s = s"

section \<open>The caller's operations\<close>

definition enqueueWrite :: "string \<Rightarrow> string \<Rightarrow> write_type \<Rightarrow> json option \<Rightarrow> write_queues \<Rightarrow> write_queues" where
  "enqueueWrite resource i type data s =
     (let k = queueKey resource i; w = length (wq_writes s);
          x = \<lparr>qw_resource = resource, qw_id = i, qw_type = type, qw_data = data, qw_attempts = 0, qw_lastError = None\<rparr>;
          s = s\<lparr>wq_gaveUp := odel k (wq_gaveUp s), wq_writes := wq_writes s @ [x], wq_enqueued := wq_enqueued s @ [(k, w)]\<rparr>;
          s = (case oget (wq_queues s) k of
                 Some q \<Rightarrow> s\<lparr>wq_arrays := (wq_arrays s)[q := wq_arrays s ! q @ [w]]\<rparr>
               | None \<Rightarrow> s\<lparr>wq_arrays := wq_arrays s @ [[w]], wq_queues := oset k (length (wq_arrays s)) (wq_queues s)\<rparr>)
      in if k \<in> set (wq_draining s) then s
         else drain_head k (length (wq_tasks s)) (s\<lparr>wq_draining := List.insert k (wq_draining s), wq_tasks := wq_tasks s @ [Finished]\<rparr>))"

text \<open>\<open>create\<close> up to its await, with the id that the data hold or the random one it makes.\<close>

definition create_record :: "string \<Rightarrow> resource_route \<Rightarrow> string \<Rightarrow> (string, json) omap \<Rightarrow> write_queues \<Rightarrow> write_queues" where
  "create_record idField route random data s =
     (let i = (case oget data idField of Some (JStr i) \<Rightarrow> i | _ \<Rightarrow> random);
          record0 = JObj (oset idField (JStr i) data); c = collectionPath route
      in s\<lparr>wq_storage := storage_put c i (Some record0) (wq_storage s),
           wq_callers := wq_callers s @ [Writing c i CreateWrite (Some record0)]\<rparr>)"

definition update_record :: "resource_route \<Rightarrow> string \<Rightarrow> (string, json) omap \<Rightarrow> write_queues \<Rightarrow> write_queues" where
  "update_record route i data s =
     (let c = collectionPath route
      in s\<lparr>wq_callers := wq_callers s @ [Reading c i data (storage_get c i (wq_storage s))]\<rparr>)"

definition remove_record :: "resource_route \<Rightarrow> string \<Rightarrow> write_queues \<Rightarrow> write_queues" where
  "remove_record route i s =
     (let c = collectionPath route
      in s\<lparr>wq_storage := storage_delete c i (wq_storage s), wq_callers := wq_callers s @ [Writing c i DeleteWrite None]\<rparr>)"

text \<open>A call goes on after its await.\<close>

definition continue_call :: "string \<Rightarrow> nat \<Rightarrow> write_queues \<Rightarrow> write_queues" where
  "continue_call idField n s =
     (case wq_callers s ! n of
        Reading c i data existing \<Rightarrow>
          (let record0 = JObj (oset idField (JStr i) (spread (members existing) data))
           in s\<lparr>wq_storage := storage_put c i (Some record0) (wq_storage s),
                wq_callers := (wq_callers s)[n := Writing c i UpdateWrite (Some record0)]\<rparr>)
      | Writing c i type d \<Rightarrow> enqueueWrite c i type d (s\<lparr>wq_callers := (wq_callers s)[n := Returned d]\<rparr>)
      | Returned d \<Rightarrow> s)"

text \<open>\<open>pendingWrites\<close>: the queued writes and then those given up, of one collection or of all.\<close>

definition pendingWrites :: "string option \<Rightarrow> write_queues \<Rightarrow> queued_write list" where
  "pendingWrites path s =
     filter (\<lambda>x. case path of None \<Rightarrow> True | Some p \<Rightarrow> p = [] \<or> qw_resource x = p)
       (map (write_at s) (concat (map (\<lambda>(_, q). wq_arrays s ! q) (wq_queues s)) @ map snd (wq_gaveUp s)))"

text \<open>\<open>allowed\<close> says which events may happen: what the environment is assumed to do.\<close>

inductive queue_step :: "(write_queues \<Rightarrow> task \<Rightarrow> drain_event \<Rightarrow> bool) \<Rightarrow> string \<Rightarrow> retry_options \<Rightarrow> write_queues \<Rightarrow> write_queues \<Rightarrow> bool"
  for allowed :: "write_queues \<Rightarrow> task \<Rightarrow> drain_event \<Rightarrow> bool" and idField :: string and ro :: retry_options where
  created: "queue_step allowed idField ro s (create_record idField route random data s)"
| updated: "queue_step allowed idField ro s (update_record route i data s)"
| removed: "queue_step allowed idField ro s (remove_record route i s)"
| called: "n < length (wq_callers s) \<Longrightarrow> queue_step allowed idField ro s (continue_call idField n s)"
| resumed: "t < length (wq_tasks s) \<Longrightarrow> allowed s (wq_tasks s ! t) e \<Longrightarrow>
    queue_step allowed idField ro s (resume idField ro e t (wq_tasks s ! t) s)"

inductive queue_reachable :: "(write_queues \<Rightarrow> task \<Rightarrow> drain_event \<Rightarrow> bool) \<Rightarrow> string \<Rightarrow> retry_options \<Rightarrow> write_queues \<Rightarrow> bool"
  for allowed :: "write_queues \<Rightarrow> task \<Rightarrow> drain_event \<Rightarrow> bool" and idField :: string and ro :: retry_options where
  start: "queue_reachable allowed idField ro no_writes"
| more: "queue_reachable allowed idField ro s \<Longrightarrow> queue_step allowed idField ro s s' \<Longrightarrow> queue_reachable allowed idField ro s'"

text \<open>A server that keeps the id a create was sent with.\<close>

definition keeps_ids :: "string \<Rightarrow> write_queues \<Rightarrow> task \<Rightarrow> drain_event \<Rightarrow> bool" where
  "keeps_ids idField s tk e =
     (case (tk, e) of
        (Requesting k q w, Answer (Some created)) \<Rightarrow>
          qw_type (write_at s w) = CreateWrite \<longrightarrow> created \<noteq> JNull \<longrightarrow> id_of idField created = qw_id (write_at s w)
      | _ \<Rightarrow> True)"

section \<open>The invariant\<close>

fun task_key :: "task \<Rightarrow> string option" where
  "task_key (Requesting k q w) = Some k"
| "task_key (DeletingLocal k q w) = Some k"
| "task_key (MovingOld k q w rid v) = Some k"
| "task_key (Storing k q w rid v) = Some k"
| "task_key (Delaying k) = Some k"
| "task_key Finished = None"

definition at_head :: "write_queues \<Rightarrow> string \<Rightarrow> nat \<Rightarrow> nat \<Rightarrow> bool" where
  "at_head s k q w \<longleftrightarrow> oget (wq_queues s) k = Some q \<and> wq_arrays s ! q \<noteq> [] \<and> hd (wq_arrays s ! q) = w"

fun task_ok :: "write_queues \<Rightarrow> task \<Rightarrow> bool" where
  "task_ok s (Requesting k q w) \<longleftrightarrow> at_head s k q w"
| "task_ok s (DeletingLocal k q w) \<longleftrightarrow> at_head s k q w"
| "task_ok s (MovingOld k q w rid v) \<longleftrightarrow> False"
| "task_ok s (Storing k q w rid v) \<longleftrightarrow> at_head s k q w \<and> rid = qw_id (write_at s w)"
| "task_ok s (Delaying k) \<longleftrightarrow> oget (wq_queues s) k \<noteq> None"
| "task_ok s Finished \<longleftrightarrow> True"

definition pending :: "write_queues \<Rightarrow> string \<Rightarrow> nat list" where
  "pending s k = (case oget (wq_queues s) k of Some q \<Rightarrow> wq_arrays s ! q | None \<Rightarrow> [])"

definition history :: "(string \<times> nat) list \<Rightarrow> string \<Rightarrow> nat list" where
  "history h k = map snd (filter (\<lambda>x. fst x = k) h)"

lemma history_simps [simp]:
  "history [] k = []"
  "history (h @ [(j, w)]) k = history h k @ (if j = k then [w] else [])"
  by (simp_all add: history_def)

definition write_key :: "queued_write \<Rightarrow> string" where
  "write_key x = queueKey (qw_resource x) (qw_id x)"

definition queue_ok :: "write_queues \<Rightarrow> string \<Rightarrow> nat \<Rightarrow> bool" where
  "queue_ok s k q \<longleftrightarrow> q < length (wq_arrays s) \<and> wq_arrays s ! q \<noteq> [] \<and> k \<in> set (wq_draining s)
     \<and> (\<forall>w \<in> set (wq_arrays s ! q). w < length (wq_writes s) \<and> write_key (wq_writes s ! w) = k)"

text \<open>The running tasks, save the one in hand.\<close>

definition runs :: "(nat \<times> string) option \<Rightarrow> write_queues \<Rightarrow> nat \<Rightarrow> string \<Rightarrow> bool" where
  "runs hand s t k \<longleftrightarrow> t < length (wq_tasks s) \<and> (\<forall>k0. hand \<noteq> Some (t, k0)) \<and> task_key (wq_tasks s ! t) = Some k"

definition queues_ok :: "write_queues \<Rightarrow> bool" where
  "queues_ok s \<longleftrightarrow>
     (\<forall>k q. oget (wq_queues s) k = Some q \<longrightarrow> queue_ok s k q)
     \<and> (\<forall>k k' q. oget (wq_queues s) k = Some q \<longrightarrow> oget (wq_queues s) k' = Some q \<longrightarrow> k = k')
     \<and> (\<forall>k. history (wq_enqueued s) k = history (wq_settled s) k @ pending s k)"

definition tasks_ok :: "(nat \<times> string) option \<Rightarrow> write_queues \<Rightarrow> bool" where
  "tasks_ok hand s \<longleftrightarrow>
     (\<forall>t k. runs hand s t k \<longrightarrow> task_ok s (wq_tasks s ! t))
     \<and> (\<forall>t t' k. runs hand s t k \<longrightarrow> runs hand s t' k \<longrightarrow> t = t')
     \<and> (\<forall>k. k \<in> set (wq_draining s) \<longleftrightarrow> (\<exists>t0. hand = Some (t0, k)) \<or> (\<exists>t. runs hand s t k))
     \<and> (\<forall>t0 k0. hand = Some (t0, k0) \<longrightarrow> t0 < length (wq_tasks s) \<and> \<not> (\<exists>t. runs hand s t k0))"

definition inv :: "(nat \<times> string) option \<Rightarrow> write_queues \<Rightarrow> bool" where
  "inv hand s \<longleftrightarrow> queues_ok s \<and> tasks_ok hand s"

text \<open>What the invariant reads of a state.\<close>

lemma at_head_cong:
  "wq_queues s' = wq_queues s \<Longrightarrow> wq_arrays s' = wq_arrays s \<Longrightarrow> at_head s' k q w = at_head s k q w"
  by (simp add: at_head_def)

lemma task_ok_cong:
  "wq_queues s' = wq_queues s \<Longrightarrow> wq_arrays s' = wq_arrays s \<Longrightarrow> wq_writes s' = wq_writes s \<Longrightarrow> task_ok s' tk = task_ok s tk"
  by (cases tk) (simp_all add: at_head_def write_at_def)

lemma pending_cong:
  "wq_queues s' = wq_queues s \<Longrightarrow> wq_arrays s' = wq_arrays s \<Longrightarrow> pending s' k = pending s k"
  by (auto simp: pending_def split: option.split)

lemma queues_ok_cong:
  "wq_queues s' = wq_queues s \<Longrightarrow> wq_arrays s' = wq_arrays s \<Longrightarrow> wq_writes s' = wq_writes s \<Longrightarrow> wq_draining s' = wq_draining s
   \<Longrightarrow> wq_enqueued s' = wq_enqueued s \<Longrightarrow> wq_settled s' = wq_settled s \<Longrightarrow> queues_ok s' = queues_ok s"
  by (simp add: queues_ok_def queue_ok_def pending_cong [of s' s])

lemma tasks_ok_cong:
  assumes "wq_queues s' = wq_queues s" "wq_arrays s' = wq_arrays s" "wq_writes s' = wq_writes s" "wq_draining s' = wq_draining s"
    and "wq_tasks s' = wq_tasks s"
  shows "tasks_ok hand s' = tasks_ok hand s"
  unfolding tasks_ok_def runs_def assms(4,5) task_ok_cong [OF assms(1,2,3)] ..

lemma inv_storage [simp]:
  "inv hand (s\<lparr>wq_storage := x\<rparr>) = inv hand s"
  "inv hand (s\<lparr>wq_gaveUp := g\<rparr>) = inv hand s"
  by (simp_all add: inv_def queues_ok_cong [of "s\<lparr>wq_storage := x\<rparr>" s] tasks_ok_cong [of "s\<lparr>wq_storage := x\<rparr>" s]
      queues_ok_cong [of "s\<lparr>wq_gaveUp := g\<rparr>" s] tasks_ok_cong [of "s\<lparr>wq_gaveUp := g\<rparr>" s])

lemma tasks_ok_drops:
  assumes "tasks_ok hand s"
  shows "runs hand s t k \<Longrightarrow> task_ok s (wq_tasks s ! t)"
    and "runs hand s t k \<Longrightarrow> runs hand s t' k \<Longrightarrow> t = t'"
    and "k \<in> set (wq_draining s) \<longleftrightarrow> (\<exists>t0. hand = Some (t0, k)) \<or> (\<exists>t. runs hand s t k)"
    and "hand = Some (t0, k) \<Longrightarrow> t0 < length (wq_tasks s)"
    and "hand = Some (t0, k) \<Longrightarrow> \<not> runs hand s t k"
  using assms by (auto simp: tasks_ok_def)

lemma tasks_okI:
  assumes "\<And>t k. runs hand s t k \<Longrightarrow> task_ok s (wq_tasks s ! t)"
    and "\<And>t t' k. runs hand s t k \<Longrightarrow> runs hand s t' k \<Longrightarrow> t = t'"
    and "\<And>k. k \<in> set (wq_draining s) \<longleftrightarrow> (\<exists>t0. hand = Some (t0, k)) \<or> (\<exists>t. runs hand s t k)"
    and "\<And>t0 k. hand = Some (t0, k) \<Longrightarrow> t0 < length (wq_tasks s)"
    and "\<And>t0 k t. hand = Some (t0, k) \<Longrightarrow> \<not> runs hand s t k"
  shows "tasks_ok hand s"
  unfolding tasks_ok_def
  by (intro conjI allI impI) (erule assms(1), erule (1) assms(2), rule assms(3), erule assms(4), use assms(5) in blast)

lemma runs_unique_key: "runs hand s t k \<Longrightarrow> runs hand s t k' \<Longrightarrow> k = k'"
  by (simp add: runs_def)

text \<open>A task is taken in hand, and put back at an await, or ended.\<close>

lemma inv_take:
  assumes "inv None s" "runs None s t k"
  shows "inv (Some (t, k)) s"
proof -
  have tasks: "tasks_ok None s" using assms(1) by (simp add: inv_def)
  have runs: "runs (Some (t, k)) s t' k' \<longleftrightarrow> runs None s t' k' \<and> t' \<noteq> t" for t' k' by (auto simp: runs_def)
  have "tasks_ok (Some (t, k)) s"
  proof (rule tasks_okI)
    fix k'
    show "k' \<in> set (wq_draining s) \<longleftrightarrow> (\<exists>t0. Some (t, k) = Some (t0, k')) \<or> (\<exists>t'. runs (Some (t, k)) s t' k')"
      using assms(2) runs_unique_key [OF assms(2), of k'] tasks_ok_drops(3) [OF tasks, of k'] unfolding runs by auto
  next
    fix t0 k' t' assume "Some (t, k) = Some (t0, k')"
    then show "\<not> runs (Some (t, k)) s t' k'" using tasks_ok_drops(2) [OF tasks assms(2), of t'] unfolding runs by auto
  next
    fix t' k' assume "runs (Some (t, k)) s t' k'"
    then show "task_ok s (wq_tasks s ! t')" using tasks_ok_drops(1) [OF tasks, of t' k'] by (simp add: runs)
  next
    fix t1 t2 k' assume "runs (Some (t, k)) s t1 k'" "runs (Some (t, k)) s t2 k'"
    then show "t1 = t2" using tasks_ok_drops(2) [OF tasks] unfolding runs by blast
  next
    fix t0 k' assume "Some (t, k) = Some (t0, k')"
    then show "t0 < length (wq_tasks s)" using assms(2) by (simp add: runs_def)
  qed
  then show ?thesis using assms(1) by (simp add: inv_def)
qed

lemma inv_give:
  assumes "inv (Some (t, k)) s" "task_key tk = Some k" "task_ok s tk"
  shows "inv None (s\<lparr>wq_tasks := (wq_tasks s)[t := tk]\<rparr>)"
proof -
  let ?s = "s\<lparr>wq_tasks := (wq_tasks s)[t := tk]\<rparr>"
  have tasks: "tasks_ok (Some (t, k)) s" using assms(1) by (simp add: inv_def)
  note t = tasks_ok_drops(4) [OF tasks refl] and none = tasks_ok_drops(5) [OF tasks refl]
  have runs: "runs None ?s t' k' \<longleftrightarrow> (t' = t \<and> k' = k) \<or> runs (Some (t, k)) s t' k'" for t' k'
    using t assms(2) by (auto simp: runs_def nth_list_update)
  have not_t: "\<not> runs (Some (t, k)) s t k'" for k' by (simp add: runs_def)
  have ok: "task_ok ?s x = task_ok s x" for x by (rule task_ok_cong) simp_all
  have "tasks_ok None ?s"
  proof (rule tasks_okI)
    fix t' k' assume "runs None ?s t' k'"
    then show "task_ok ?s (wq_tasks ?s ! t')"
      using assms(3) t not_t tasks_ok_drops(1) [OF tasks, of t' k'] unfolding runs ok by (cases "t' = t") auto
  next
    fix t1 t2 k' assume "runs None ?s t1 k'" "runs None ?s t2 k'"
    then show "t1 = t2" using none tasks_ok_drops(2) [OF tasks] unfolding runs by metis
  next
    fix k'
    show "k' \<in> set (wq_draining ?s) \<longleftrightarrow> (\<exists>t0. None = Some (t0, k')) \<or> (\<exists>t'. runs None ?s t' k')"
      using tasks_ok_drops(3) [OF tasks, of k'] by (auto simp: runs)
  qed auto
  then show ?thesis using assms(1) by (simp add: inv_def queues_ok_cong [of ?s s])
qed

lemma inv_stop:
  assumes "inv (Some (t, k)) s" "oget (wq_queues s) k = None"
  shows "inv None (s\<lparr>wq_draining := removeAll k (wq_draining s), wq_tasks := (wq_tasks s)[t := Finished]\<rparr>)"
proof -
  let ?s = "s\<lparr>wq_draining := removeAll k (wq_draining s), wq_tasks := (wq_tasks s)[t := Finished]\<rparr>"
  have tasks: "tasks_ok (Some (t, k)) s" using assms(1) by (simp add: inv_def)
  note t = tasks_ok_drops(4) [OF tasks refl] and none = tasks_ok_drops(5) [OF tasks refl]
  have runs: "runs None ?s t' k' \<longleftrightarrow> runs (Some (t, k)) s t' k'" for t' k'
    using t by (auto simp: runs_def nth_list_update)
  have not_t: "\<not> runs (Some (t, k)) s t k'" for k' by (simp add: runs_def)
  have ok: "task_ok ?s x = task_ok s x" for x by (rule task_ok_cong) simp_all
  have "tasks_ok None ?s"
  proof (rule tasks_okI)
    fix t' k' assume "runs None ?s t' k'"
    then show "task_ok ?s (wq_tasks ?s ! t')"
      using not_t tasks_ok_drops(1) [OF tasks, of t' k'] unfolding runs ok by (cases "t' = t") auto
  next
    fix t1 t2 k' assume "runs None ?s t1 k'" "runs None ?s t2 k'"
    then show "t1 = t2" using tasks_ok_drops(2) [OF tasks] unfolding runs by metis
  next
    fix k'
    show "k' \<in> set (wq_draining ?s) \<longleftrightarrow> (\<exists>t0. None = Some (t0, k')) \<or> (\<exists>t'. runs None ?s t' k')"
      using none tasks_ok_drops(3) [OF tasks, of k'] by (auto simp: runs)
  qed auto
  moreover have "queues_ok ?s"
    using assms pending_cong [of ?s s] by (auto simp: inv_def queues_ok_def queue_ok_def)
  ultimately show ?thesis by (simp add: inv_def)
qed

lemma odel_missing: "oget m k = None \<Longrightarrow> odel k m = m"
  by (simp add: delete_id map_of_eq_None_iff)

lemma inv_drain_head:
  assumes "inv (Some (t, k)) s"
  shows "inv None (drain_head k t s)"
proof (cases "oget (wq_queues s) k")
  case None
  then show ?thesis using inv_stop [OF assms None] by (simp add: drain_head_def odel_missing)
next
  case (Some q)
  then have "wq_arrays s ! q \<noteq> []" using assms by (simp add: inv_def queues_ok_def queue_ok_def)
  then obtain w ws where w: "wq_arrays s ! q = w # ws" by (cases "wq_arrays s ! q") auto
  have head: "at_head s k q w" using Some w by (simp add: at_head_def)
  show ?thesis
  proof (cases "qw_type (write_at s w) = DeleteWrite")
    case True
    have "inv None ((s\<lparr>wq_storage := x\<rparr>)\<lparr>wq_tasks := (wq_tasks (s\<lparr>wq_storage := x\<rparr>))[t := DeletingLocal k q w]\<rparr>)" for x
      by (rule inv_give [of _ k]) (use assms head in \<open>simp_all add: at_head_def\<close>)
    then show ?thesis by (simp add: drain_head_def Some w True)
  next
    case False
    have "inv None (s\<lparr>wq_tasks := (wq_tasks s)[t := Requesting k q w]\<rparr>)"
      by (rule inv_give [OF assms]) (simp_all add: head)
    then show ?thesis by (simp add: drain_head_def Some w False)
  qed
qed

text \<open>What a change of another key's queue leaves.\<close>

lemma task_ok_other:
  assumes "task_ok s tk" "task_key tk = Some k" "oget (wq_queues s') k = oget (wq_queues s) k"
    and "\<And>q. oget (wq_queues s) k = Some q \<Longrightarrow> wq_arrays s' ! q = wq_arrays s ! q"
    and "\<And>q w. at_head s k q w \<Longrightarrow> qw_id (write_at s' w) = qw_id (write_at s w)"
  shows "task_ok s' tk"
proof -
  have "at_head s' k q w" if "at_head s k q w" for q w
    using that assms(3,4) by (simp add: at_head_def)
  then show ?thesis using assms by (cases tk) auto
qed

lemma tasks_ok_change:
  assumes "tasks_ok hand s" "wq_tasks s' = wq_tasks s" "wq_draining s' = wq_draining s"
    and "\<And>t k. runs hand s t k \<Longrightarrow> task_ok s (wq_tasks s ! t) \<Longrightarrow> task_ok s' (wq_tasks s ! t)"
  shows "tasks_ok hand s'"
proof -
  have runs: "runs hand s' = runs hand s" by (intro ext) (simp add: runs_def assms(2))
  show ?thesis
  proof (rule tasks_okI, unfold runs assms(2,3))
    fix t k assume "runs hand s t k"
    then show "task_ok s' (wq_tasks s ! t)" using assms(4) tasks_ok_drops(1) [OF assms(1)] by blast
  qed (fact tasks_ok_drops(2-5) [OF assms(1)])+
qed

lemma queues_ok_drops:
  assumes "queues_ok s"
  shows "oget (wq_queues s) k = Some q \<Longrightarrow> queue_ok s k q"
    and "oget (wq_queues s) k = Some q \<Longrightarrow> oget (wq_queues s) k' = Some q \<Longrightarrow> k = k'"
    and "history (wq_enqueued s) k = history (wq_settled s) k @ pending s k"
  using assms by (auto simp: queues_ok_def)

lemma inv_shift:
  assumes "inv (Some (t, k)) s" "at_head s k q w"
  shows "inv (Some (t, k)) (drop_empty k q (settled k w (shift_array q s)))"
proof -
  let ?s = "drop_empty k q (settled k w (shift_array q s))"
  have queues: "queues_ok s" and tasks: "tasks_ok (Some (t, k)) s" using assms(1) by (simp_all add: inv_def)
  have q: "oget (wq_queues s) k = Some q" using assms(2) by (simp add: at_head_def)
  then obtain ws where ws: "wq_arrays s ! q = w # ws"
    using assms(2) by (cases "wq_arrays s ! q") (auto simp: at_head_def)
  have len: "q < length (wq_arrays s)" using queues_ok_drops(1) [OF queues q] by (simp add: queue_ok_def)
  have arrays: "wq_arrays ?s = (wq_arrays s)[q := ws]"
    and same: "wq_tasks ?s = wq_tasks s" "wq_draining ?s = wq_draining s" "wq_writes ?s = wq_writes s"
      "wq_enqueued ?s = wq_enqueued s" "wq_settled ?s = wq_settled s @ [(k, w)]"
    by (simp_all add: drop_empty_def settled_def shift_array_def ws)
  have at_k: "oget (wq_queues ?s) k = (if ws = [] then None else Some q)"
    using len q by (simp add: drop_empty_def settled_def shift_array_def ws)
  have other: "oget (wq_queues ?s) j = oget (wq_queues s) j" if "j \<noteq> k" for j
    using that by (simp add: drop_empty_def settled_def shift_array_def)
  have apart: "p \<noteq> q" if "oget (wq_queues s) j = Some p" "j \<noteq> k" for j p
    using queues_ok_drops(2) [OF queues q, of j] that by auto
  have kept: "wq_arrays ?s ! p = wq_arrays s ! p" if "oget (wq_queues s) j = Some p" "j \<noteq> k" for j p
    using apart [OF that] by (simp add: arrays)
  have "tasks_ok (Some (t, k)) ?s"
  proof (rule tasks_ok_change [OF tasks same(1,2)])
    fix t' k' assume r: "runs (Some (t, k)) s t' k'" and task: "task_ok s (wq_tasks s ! t')"
    then have "k' \<noteq> k" using tasks_ok_drops(5) [OF tasks refl] by blast
    then show "task_ok ?s (wq_tasks s ! t')"
      using r by (intro task_ok_other [OF task, of k']) (auto simp: other kept runs_def write_at_def same)
  qed
  moreover have "queues_ok ?s"
    unfolding queues_ok_def
  proof (intro conjI allI impI)
    fix j p assume p: "oget (wq_queues ?s) j = Some p"
    show "queue_ok ?s j p"
    proof (cases "j = k")
      case True
      then show ?thesis
        using p queues_ok_drops(1) [OF queues q] ws unfolding True at_k
        by (auto simp: queue_ok_def arrays same split: if_splits)
    next
      case False
      then have "oget (wq_queues s) j = Some p" using p other by simp
      then show ?thesis
        using queues_ok_drops(1) [OF queues, of j p] apart [OF _ False] by (simp add: queue_ok_def arrays same)
    qed
  next
    fix j j' p assume "oget (wq_queues ?s) j = Some p" "oget (wq_queues ?s) j' = Some p"
    then have "oget (wq_queues s) j = Some p" "oget (wq_queues s) j' = Some p"
      using at_k other q by (cases "j = k"; cases "j' = k"; auto split: if_splits)+
    then show "j = j'" by (rule queues_ok_drops(2) [OF queues])
  next
    fix j
    show "history (wq_enqueued ?s) j = history (wq_settled ?s) j @ pending ?s j"
    proof (cases "j = k")
      case True
      then show ?thesis
        using queues_ok_drops(3) [OF queues, of k] len q by (simp add: same pending_def at_k arrays ws)
    next
      case False
      then have "pending ?s j = pending s j" using kept by (auto simp: pending_def other split: option.split)
      then show ?thesis using queues_ok_drops(3) [OF queues, of j] False by (simp add: same)
    qed
  qed
  ultimately show ?thesis by (simp add: inv_def)
qed

lemma inv_writes:
  assumes "inv hand s" "qw_id x = qw_id (wq_writes s ! w)" "qw_resource x = qw_resource (wq_writes s ! w)"
  shows "inv hand (s\<lparr>wq_writes := (wq_writes s)[w := x]\<rparr>)"
proof -
  let ?s = "s\<lparr>wq_writes := (wq_writes s)[w := x]\<rparr>"
  have queues: "queues_ok s" and tasks: "tasks_ok hand s" using assms(1) by (simp_all add: inv_def)
  have ids: "qw_id ((wq_writes s)[w := x] ! v) = qw_id (wq_writes s ! v)"
      "qw_resource ((wq_writes s)[w := x] ! v) = qw_resource (wq_writes s ! v)" for v
    using assms(2,3) by (metis list_update_beyond not_le nth_list_update)+
  have "tasks_ok hand ?s"
  proof (rule tasks_ok_change [OF tasks])
    fix t k assume "runs hand s t k" and task: "task_ok s (wq_tasks s ! t)"
    then show "task_ok ?s (wq_tasks s ! t)" by (intro task_ok_other [OF task, of k]) (auto simp: runs_def write_at_def ids)
  qed simp_all
  moreover have "queues_ok ?s"
    using queues pending_cong [of ?s s] unfolding queues_ok_def by (simp add: queue_ok_def write_key_def ids)
  ultimately show ?thesis by (simp add: inv_def)
qed

lemma inv_settle:
  assumes "inv (Some (t, k)) s" "at_head s k q w"
  shows "inv None (drain_head k t (drop_empty k q (settled k w (shift_array q s))))"
  by (rule inv_drain_head, rule inv_shift) (fact assms)+

lemma inv_succeed:
  assumes "inv (Some (t, k)) s" "at_head s k q w" "rid = qw_id (write_at s w)"
  shows "inv None (succeed k q w rid t s)"
proof -
  have "write_at (settled k w (shift_array q s)) w = write_at s w" by (simp add: write_at_def settled_def shift_array_def)
  then show ?thesis using inv_settle [OF assms(1,2)] assms(3) by (simp add: succeed_def Let_def)
qed

lemma inv_fail_write:
  assumes "inv (Some (t, k)) s" "at_head s k q w"
  shows "inv None (fail_write ro k q w message t s)"
proof -
  define x where "x = (write_at s w)\<lparr>qw_attempts := qw_attempts (write_at s w) + 1, qw_lastError := Some message\<rparr>"
  define s1 where "s1 = s\<lparr>wq_writes := (wq_writes s)[w := x]\<rparr>"
  have s1: "inv (Some (t, k)) s1" unfolding s1_def by (rule inv_writes [OF assms(1)]) (simp_all add: x_def write_at_def)
  have head: "at_head s1 k q w" using assms(2) by (simp add: at_head_def s1_def)
  have given: "inv None (drain_head k t (drop_empty k q ((settled k w (shift_array q s1))\<lparr>wq_gaveUp := g\<rparr>)))" for g
  proof -
    have "at_head (s1\<lparr>wq_gaveUp := g\<rparr>) k q w" using head by (simp add: at_head_def)
    moreover have "(settled k w (shift_array q s1))\<lparr>wq_gaveUp := g\<rparr> = settled k w (shift_array q (s1\<lparr>wq_gaveUp := g\<rparr>))"
      by (simp add: settled_def shift_array_def)
    ultimately show ?thesis using inv_settle [of t k "s1\<lparr>wq_gaveUp := g\<rparr>"] s1 by simp
  qed
  have "inv None (s1\<lparr>wq_tasks := (wq_tasks s1)[t := Delaying k]\<rparr>)"
    by (rule inv_give [OF s1]) (use head in \<open>simp_all add: at_head_def\<close>)
  moreover have "fail_write ro k q w message t s =
      (if (case maxAttempts ro of Some m \<Rightarrow> m \<le> qw_attempts x | None \<Rightarrow> False)
       then drain_head k t (drop_empty k q ((settled k w (shift_array q s1))\<lparr>wq_gaveUp := oset k w (wq_gaveUp (settled k w (shift_array q s1)))\<rparr>))
       else s1\<lparr>wq_tasks := (wq_tasks s1)[t := Delaying k]\<rparr>)"
    unfolding fail_write_def Let_def x_def s1_def ..
  ultimately show ?thesis using given by presburger
qed

lemma runs_has_queue:
  assumes "tasks_ok hand s" "runs hand s t k"
  shows "oget (wq_queues s) k \<noteq> None"
  using tasks_ok_drops(1) [OF assms] assms(2)
  by (cases "wq_tasks s ! t") (auto simp: runs_def at_head_def)

lemma task_ok_keep:
  assumes "task_ok s tk" "task_key tk = Some k"
    and "\<And>q w. at_head s k q w \<Longrightarrow> at_head s' k q w \<and> qw_id (write_at s' w) = qw_id (write_at s w)"
    and "oget (wq_queues s) k \<noteq> None \<Longrightarrow> oget (wq_queues s') k \<noteq> None"
  shows "task_ok s' tk"
  using assms by (cases tk) auto

lemma at_head_write:
  "queues_ok s \<Longrightarrow> at_head s k q w \<Longrightarrow> w < length (wq_writes s)"
  using queues_ok_drops(1) [of s k q] by (auto simp: at_head_def queue_ok_def)

text \<open>A write joins the queue of its key, or starts one.\<close>

lemma inv_push:
  assumes "inv None s" "oget (wq_queues s) k = Some q" "write_key x = k"
  shows "inv None (s\<lparr>wq_writes := wq_writes s @ [x], wq_enqueued := wq_enqueued s @ [(k, length (wq_writes s))],
    wq_arrays := (wq_arrays s)[q := wq_arrays s ! q @ [length (wq_writes s)]]\<rparr>)" (is "inv None ?s")
proof -
  have queues: "queues_ok s" and tasks: "tasks_ok None s" using assms(1) by (simp_all add: inv_def)
  have ok: "queue_ok s k q" by (rule queues_ok_drops(1) [OF queues assms(2)])
  have apart: "p \<noteq> q" if "oget (wq_queues s) j = Some p" "j \<noteq> k" for j p
    using queues_ok_drops(2) [OF queues assms(2), of j] that by auto
  have head: "at_head ?s j p w \<and> qw_id (write_at ?s w) = qw_id (write_at s w)" if "at_head s j p w" for j p w
    using that at_head_write [OF queues that] ok apart [of j p] assms(2)
    by (cases "j = k") (auto simp: at_head_def queue_ok_def write_at_def nth_append)
  have "tasks_ok None ?s"
  proof (rule tasks_ok_change [OF tasks])
    fix t j assume "runs None s t j" and task: "task_ok s (wq_tasks s ! t)"
    then show "task_ok ?s (wq_tasks s ! t)" by (intro task_ok_keep [OF task, of j]) (use head in \<open>auto simp: runs_def\<close>)
  qed simp_all
  moreover have "queues_ok ?s"
    unfolding queues_ok_def
  proof (intro conjI allI impI)
    fix j p assume p: "oget (wq_queues ?s) j = Some p"
    show "queue_ok ?s j p"
    proof (cases "j = k")
      case True
      then show ?thesis using p assms(2,3) ok by (auto simp: queue_ok_def nth_append)
    next
      case False
      then show ?thesis
        using p queues_ok_drops(1) [OF queues, of j p] apart [of j p] by (auto simp: queue_ok_def nth_append)
    qed
  next
    fix j j' p assume "oget (wq_queues ?s) j = Some p" "oget (wq_queues ?s) j' = Some p"
    then show "j = j'" using queues_ok_drops(2) [OF queues] by simp
  next
    fix j
    show "history (wq_enqueued ?s) j = history (wq_settled ?s) j @ pending ?s j"
    proof (cases "j = k")
      case True
      then show ?thesis using queues_ok_drops(3) [OF queues, of k] ok assms(2) by (simp add: pending_def queue_ok_def)
    next
      case False
      then have "wq_arrays ?s ! p = wq_arrays s ! p" if "oget (wq_queues s) j = Some p" for p
        using apart [OF that] by simp
      then have "pending ?s j = pending s j" by (auto simp: pending_def split: option.split)
      then show ?thesis using queues_ok_drops(3) [OF queues, of j] False by simp
    qed
  qed
  ultimately show ?thesis by (simp add: inv_def)
qed

lemma inv_new_queue:
  assumes "inv None s" "oget (wq_queues s) k = None" "write_key x = k"
  shows "inv (Some (length (wq_tasks s), k)) (s\<lparr>wq_writes := wq_writes s @ [x], wq_enqueued := wq_enqueued s @ [(k, length (wq_writes s))],
    wq_arrays := wq_arrays s @ [[length (wq_writes s)]], wq_queues := oset k (length (wq_arrays s)) (wq_queues s),
    wq_draining := List.insert k (wq_draining s), wq_tasks := wq_tasks s @ [Finished]\<rparr>)" (is "inv _ ?s")
proof -
  have queues: "queues_ok s" and tasks: "tasks_ok None s" using assms(1) by (simp_all add: inv_def)
  have no_run: "\<not> runs None s t k" for t using runs_has_queue [OF tasks] assms(2) by blast
  have bound: "p < length (wq_arrays s)" if "oget (wq_queues s) j = Some p" for j p
    using queues_ok_drops(1) [OF queues that] by (simp add: queue_ok_def)
  have runs: "runs (Some (length (wq_tasks s), k)) ?s t j \<longleftrightarrow> runs None s t j" for t j
    by (auto simp: runs_def nth_append)
  have head: "at_head ?s j p w \<and> qw_id (write_at ?s w) = qw_id (write_at s w)" if "at_head s j p w" for j p w
    using that at_head_write [OF queues that] assms(2) bound [of j p]
    by (auto simp: at_head_def write_at_def nth_append)
  have "tasks_ok (Some (length (wq_tasks s), k)) ?s"
  proof (rule tasks_okI, unfold runs)
    fix t j assume r: "runs None s t j"
    have "task_ok ?s (wq_tasks s ! t)"
      by (rule task_ok_keep [OF tasks_ok_drops(1) [OF tasks r], of j]) (use r head in \<open>auto simp: runs_def\<close>)
    then show "task_ok ?s (wq_tasks ?s ! t)" using r by (simp add: runs_def nth_append)
  next
    fix t t' j assume "runs None s t j" "runs None s t' j"
    then show "t = t'" by (rule tasks_ok_drops(2) [OF tasks])
  next
    fix j
    show "j \<in> set (wq_draining ?s) \<longleftrightarrow> (\<exists>t0. Some (length (wq_tasks s), k) = Some (t0, j)) \<or> (\<exists>t. runs None s t j)"
      using tasks_ok_drops(3) [OF tasks, of j] by auto
  qed (use no_run in auto)
  moreover have "queues_ok ?s"
    unfolding queues_ok_def
  proof (intro conjI allI impI)
    fix j p assume p: "oget (wq_queues ?s) j = Some p"
    show "queue_ok ?s j p"
    proof (cases "j = k")
      case True
      then show ?thesis using p assms(3) by (auto simp: queue_ok_def nth_append)
    next
      case False
      then show ?thesis
        using p queues_ok_drops(1) [OF queues, of j p] bound [of j p] by (auto simp: queue_ok_def nth_append)
    qed
  next
    fix j j' p assume "oget (wq_queues ?s) j = Some p" "oget (wq_queues ?s) j' = Some p"
    then show "j = j'"
      using queues_ok_drops(2) [OF queues, of j p j'] bound [of j p] bound [of j' p] by (auto split: if_splits)
  next
    fix j
    show "history (wq_enqueued ?s) j = history (wq_settled ?s) j @ pending ?s j"
    proof (cases "j = k")
      case True
      then show ?thesis using queues_ok_drops(3) [OF queues, of k] assms(2) by (simp add: pending_def)
    next
      case False
      then have "pending ?s j = pending s j" using bound [of j] by (auto simp: pending_def nth_append split: option.split)
      then show ?thesis using queues_ok_drops(3) [OF queues, of j] False by simp
    qed
  qed
  ultimately show ?thesis by (simp add: inv_def)
qed

lemma inv_enqueue:
  assumes "inv None s0"
  shows "inv None (enqueueWrite r i type data s0)"
proof -
  define k where "k = queueKey r i"
  define x where "x = \<lparr>qw_resource = r, qw_id = i, qw_type = type, qw_data = data, qw_attempts = 0, qw_lastError = None\<rparr>"
  define s where "s = s0\<lparr>wq_gaveUp := odel k (wq_gaveUp s0)\<rparr>"
  have s: "inv None s" using assms by (simp add: s_def)
  have key: "write_key x = k" by (simp add: write_key_def x_def k_def)
  show ?thesis
  proof (cases "oget (wq_queues s) k")
    case None
    then have "k \<notin> set (wq_draining s)"
      using s runs_has_queue [of None s _ k] tasks_ok_drops(3) [of None s k] by (auto simp: inv_def)
    then have "enqueueWrite r i type data s0 = drain_head k (length (wq_tasks s))
      (s\<lparr>wq_writes := wq_writes s @ [x], wq_enqueued := wq_enqueued s @ [(k, length (wq_writes s))],
         wq_arrays := wq_arrays s @ [[length (wq_writes s)]], wq_queues := oset k (length (wq_arrays s)) (wq_queues s),
         wq_draining := List.insert k (wq_draining s), wq_tasks := wq_tasks s @ [Finished]\<rparr>)"
      using None by (simp add: enqueueWrite_def Let_def s_def flip: k_def x_def)
    then show ?thesis using inv_drain_head [OF inv_new_queue [OF s None key]] by simp
  next
    case (Some q)
    then have "k \<in> set (wq_draining s)" using s queues_ok_drops(1) [of s k q] by (auto simp: inv_def queue_ok_def)
    then have "enqueueWrite r i type data s0 =
      s\<lparr>wq_writes := wq_writes s @ [x], wq_enqueued := wq_enqueued s @ [(k, length (wq_writes s))],
        wq_arrays := (wq_arrays s)[q := wq_arrays s ! q @ [length (wq_writes s)]]\<rparr>"
      using Some by (simp add: enqueueWrite_def Let_def s_def flip: k_def x_def)
    then show ?thesis using inv_push [OF s Some key] by simp
  qed
qed

lemma inv_store:
  assumes "inv (Some (t, k)) s" "task_key tk = Some k" "task_ok s tk"
  shows "inv None (s\<lparr>wq_storage := x, wq_tasks := (wq_tasks s)[t := tk]\<rparr>)"
proof -
  have "inv None ((s\<lparr>wq_storage := x\<rparr>)\<lparr>wq_tasks := (wq_tasks (s\<lparr>wq_storage := x\<rparr>))[t := tk]\<rparr>)"
    by (rule inv_give [OF _ assms(2)]) (use assms task_ok_cong [of "s\<lparr>wq_storage := x\<rparr>" s] in simp_all)
  then show ?thesis by simp
qed

lemma inv_answer:
  assumes "inv (Some (t, k)) s" "at_head s k q w" "keeps_ids idField s (Requesting k q w) (Answer answer)"
  shows "inv None (resume idField ro (Answer answer) t (Requesting k q w) s)"
proof (cases "qw_type (write_at s w)")
  case CreateWrite
  show ?thesis
  proof (cases "answer = None \<or> answer = Some JNull")
    case True
    then show ?thesis using inv_fail_write [OF assms(1,2)] by (simp add: CreateWrite)
  next
    case False
    then obtain created where created: "answer = Some created" "created \<noteq> JNull" by auto
    then have "id_of idField created = qw_id (write_at s w)"
      using assms(3) CreateWrite by (simp add: keeps_ids_def)
    then show ?thesis
      using inv_store [OF assms(1), of "Storing k q w (id_of idField created) (Some created)"] assms(2) created
      by (simp add: CreateWrite Let_def)
  qed
next
  case UpdateWrite
  show ?thesis
    using inv_store [OF assms(1), of "Storing k q w (qw_id (write_at s w)) answer"] assms(2)
    by (simp add: UpdateWrite Let_def)
next
  case DeleteWrite
  then show ?thesis using inv_succeed [OF assms(1,2) refl] by (simp add: Let_def)
qed

lemma inv_resume:
  assumes "inv None s" "t < length (wq_tasks s)" "keeps_ids idField s (wq_tasks s ! t) e"
  shows "inv None (resume idField ro e t (wq_tasks s ! t) s)"
proof (cases "task_key (wq_tasks s ! t)")
  case None
  then have "wq_tasks s ! t = Finished" by (cases "wq_tasks s ! t") auto
  then show ?thesis using assms(1) by (cases e) simp_all
next
  case (Some k)
  then have runs: "runs None s t k" using assms(2) by (simp add: runs_def)
  have task: "task_ok s (wq_tasks s ! t)" using assms(1) tasks_ok_drops(1) [OF _ runs] by (simp add: inv_def)
  note hand = inv_take [OF assms(1) runs]
  show ?thesis
  proof (cases "wq_tasks s ! t")
    case (Requesting k' q w)
    then show ?thesis
      using assms(1,3) task Some inv_answer [OF hand] inv_fail_write [OF hand] by (cases e) simp_all
  next
    case (DeletingLocal k' q w)
    then show ?thesis
      using assms(1) task Some inv_give [OF hand, of "Requesting k q w"] by (cases e) simp_all
  next
    case (Storing k' q w rid v)
    then show ?thesis using assms(1) task Some inv_succeed [OF hand] by (cases e) simp_all
  next
    case (Delaying k')
    then show ?thesis using assms(1) Some inv_drain_head [OF hand] by (cases e) simp_all
  qed (use task Some in simp_all)
qed

lemma inv_callers:
  "inv hand (s\<lparr>wq_storage := st, wq_callers := cs\<rparr>) = inv hand s" "inv hand (s\<lparr>wq_callers := cs\<rparr>) = inv hand s"
  by (simp_all add: inv_def queues_ok_cong [of "s\<lparr>wq_storage := st, wq_callers := cs\<rparr>" s] tasks_ok_cong [of "s\<lparr>wq_storage := st, wq_callers := cs\<rparr>" s]
      queues_ok_cong [of "s\<lparr>wq_callers := cs\<rparr>" s] tasks_ok_cong [of "s\<lparr>wq_callers := cs\<rparr>" s])

lemma inv_start: "inv None no_writes"
  by (simp add: inv_def queues_ok_def tasks_ok_def runs_def no_writes_def pending_def)

lemma inv_reachable: "queue_reachable (keeps_ids idField) idField ro s \<Longrightarrow> inv None s"
proof (induction rule: queue_reachable.induct)
  case start
  show ?case by (rule inv_start)
next
  case (more s s')
  from more.hyps(2) more.IH show ?case
    by cases (simp_all add: create_record_def update_record_def remove_record_def continue_call_def Let_def
        inv_callers inv_enqueue inv_resume split: caller.split)
qed

text \<open>
  C34. Writes to one record are neither lost nor reordered, with a server that keeps the ids it is
  sent: however the calls of the client, each in steps from await to await, the server's answers, its
  failures and the delays interleave, the writes enqueued for a record are those settled (applied or given up), in the
  same order, followed by those pending. A record is drained exactly when it has pending writes,
  by exactly one run, and a request that is out, or a result being stored, is that of the first
  pending write.
\<close>

theorem writes_in_order:
  assumes "queue_reachable (keeps_ids idField) idField ro s"
  shows "history (wq_enqueued s) k = history (wq_settled s) k @ pending s k
    \<and> (k \<in> set (wq_draining s) \<longleftrightarrow> pending s k \<noteq> [])
    \<and> (pending s k \<noteq> [] \<longleftrightarrow> (\<exists>!t. t < length (wq_tasks s) \<and> task_key (wq_tasks s ! t) = Some k))
    \<and> (\<forall>t q w. t < length (wq_tasks s) \<longrightarrow>
         wq_tasks s ! t = Requesting k q w \<or> wq_tasks s ! t = DeletingLocal k q w \<or> (\<exists>rid v. wq_tasks s ! t = Storing k q w rid v) \<longrightarrow>
         pending s k \<noteq> [] \<and> hd (pending s k) = w)"
proof -
  have queues: "queues_ok s" and tasks: "tasks_ok None s"
    using inv_reachable [OF assms] by (simp_all add: inv_def)
  have draining: "k \<in> set (wq_draining s) \<longleftrightarrow> (\<exists>t. runs None s t k)" using tasks_ok_drops(3) [OF tasks, of k] by simp
  have filled: "pending s k \<noteq> [] \<longleftrightarrow> oget (wq_queues s) k \<noteq> None"
    using queues_ok_drops(1) [OF queues, of k] by (auto simp: pending_def queue_ok_def split: option.split)
  have kept: "pending s k \<noteq> [] \<longleftrightarrow> (\<exists>t. runs None s t k)"
    unfolding filled using runs_has_queue [OF tasks, of _ k] queues_ok_drops(1) [OF queues, of k] draining
    by (auto simp: queue_ok_def)
  have runs: "runs None s t k \<longleftrightarrow> t < length (wq_tasks s) \<and> task_key (wq_tasks s ! t) = Some k" for t
    by (simp add: runs_def)
  have one: "pending s k \<noteq> [] \<longleftrightarrow> (\<exists>!t. runs None s t k)"
    unfolding kept using tasks_ok_drops(2) [OF tasks, of _ k] by blast
  have head: "pending s k \<noteq> [] \<and> hd (pending s k) = w" if "at_head s k q w" for q w
    using that by (simp add: at_head_def pending_def)
  have sent: "pending s k \<noteq> [] \<and> hd (pending s k) = w"
    if t: "t < length (wq_tasks s)"
      and task: "wq_tasks s ! t = Requesting k q w \<or> wq_tasks s ! t = DeletingLocal k q w \<or> (\<exists>rid v. wq_tasks s ! t = Storing k q w rid v)"
    for t q w
  proof (rule head)
    have "runs None s t k" unfolding runs using t task by auto
    then have "task_ok s (wq_tasks s ! t)" by (rule tasks_ok_drops(1) [OF tasks])
    then show "at_head s k q w" using task by auto
  qed
  show ?thesis
    using queues_ok_drops(3) [OF queues, of k] draining kept one sent unfolding runs by blast
qed

definition pets_route :: resource_route where
  "pets_route = \<lparr>collectionPath = ''/pets'', itemPath = ''/pets/{petId}'', itemParam = ''petId'', updateMethod = ''PUT''\<rparr>"

definition sample_retry :: retry_options where
  "sample_retry = \<lparr>baseDelayMs = 200, maxDelayMs = 30000, maxAttempts = None\<rparr>"

text \<open>A record is created and changed, and the server answers the create.\<close>

definition two_writes :: write_queues where
  "two_writes = continue_call ''id'' 1 (continue_call ''id'' 1 (update_record pets_route ''1'' [(''name'', JStr ''Rex'')]
     (continue_call ''id'' 0 (create_record ''id'' pets_route ''r'' [(''id'', JStr ''1'')] no_writes))))"

definition one_answered :: write_queues where
  "one_answered = resume ''id'' sample_retry (Answer (Some (JObj [(''id'', JStr ''1'')]))) 0 (wq_tasks two_writes ! 0) two_writes"

definition one_stored :: write_queues where
  "one_stored = resume ''id'' sample_retry Resumed 0 (wq_tasks one_answered ! 0) one_answered"

theorem writes_in_order_witness:
  "history (wq_enqueued one_stored) ''/pets:1'' = [0, 1] \<and> history (wq_settled one_stored) ''/pets:1'' = [0]
   \<and> hd (pending one_stored ''/pets:1'') = 1"
proof -
  have "queue_reachable (keeps_ids ''id'') ''id'' sample_retry one_stored"
    unfolding one_stored_def
  proof (rule more [OF _ resumed])
    show "queue_reachable (keeps_ids ''id'') ''id'' sample_retry one_answered"
      unfolding one_answered_def
    proof (rule more [OF _ resumed])
      show "queue_reachable (keeps_ids ''id'') ''id'' sample_retry two_writes"
        unfolding two_writes_def
        by (rule more [OF more [OF more [OF more [OF more [OF start created] called] updated] called] called]; code_simp)
    qed code_simp+
  qed code_simp+
  from writes_in_order [OF this, of "''/pets:1''"]
  have "history (wq_enqueued one_stored) ''/pets:1'' = history (wq_settled one_stored) ''/pets:1'' @ pending one_stored ''/pets:1''" by blast
  moreover have "history (wq_enqueued one_stored) ''/pets:1'' = [0, 1]" "history (wq_settled one_stored) ''/pets:1'' = [0]" by code_simp+
  ultimately have "pending one_stored ''/pets:1'' = [1]" by simp
  then show ?thesis
    using \<open>history (wq_enqueued one_stored) ''/pets:1'' = [0, 1]\<close> \<open>history (wq_settled one_stored) ''/pets:1'' = [0]\<close> by simp
qed

section \<open>What the queue does not do\<close>

text \<open>
  An update answered without a body (a 204) replaces the local record by \<open>undefined\<close>: \<open>get\<close> no
  longer finds it and \<open>list\<close> has \<open>undefined\<close> among the records.
\<close>

lemma empty_answer_loses_record:
  assumes "qw_type (write_at s w) = UpdateWrite"
  shows "storage_get (qw_resource (write_at s w)) (qw_id (write_at s w))
      (wq_storage (resume idField ro (Answer None) t (Requesting k q w) s)) = None
    \<and> None \<in> set (storage_list (qw_resource (write_at s w)) (wq_storage (resume idField ro (Answer None) t (Requesting k q w) s)))"
proof -
  have get: "oget (storage_collection r (storage_put r i None st)) i = Some None" for r i st
    by (simp add: storage_collection_def storage_put_def oget_or_def)
  then have "None \<in> set (storage_list r (storage_put r i None st))" for r i st
    using map_of_SomeD [OF get [of r i st]] by (force simp: storage_list_def)
  then show ?thesis using assms by (simp add: storage_get_def get Let_def)
qed

text \<open>A create answered without a body counts as a failure and is sent again, although it was applied.\<close>

lemma empty_answer_repeats_create:
  "qw_type (write_at s w) = CreateWrite \<Longrightarrow>
   resume idField ro (Answer None) t (Requesting k q w) s = fail_write ro k q w ''Cannot read properties of undefined'' t s"
  by (simp add: Let_def)

text \<open>
  With an id the server assigns, a write can be lost. A record is created as \<open>a\<close> and changed
  while the record \<open>9\<close> has a change out; the server answers the create with the id \<open>9\<close>, and the
  change of \<open>a\<close> moves to the queue of \<open>9\<close>, a new array that the run of \<open>9\<close> does not hold. That run
  ends with its own array empty and drops the new one: the change is neither pending nor settled.
\<close>

definition sample_event :: "drain_event \<Rightarrow> nat \<Rightarrow> write_queues \<Rightarrow> write_queues" where
  "sample_event e t s = resume ''id'' sample_retry e t (wq_tasks s ! t) s"

definition nine :: drain_event where
  "nine = Answer (Some (JObj [(''id'', JStr ''9'')]))"

definition three_writes :: write_queues where
  "three_writes = continue_call ''id'' 2 (continue_call ''id'' 2 (update_record pets_route ''a'' [(''name'', JStr ''Rex'')]
     (continue_call ''id'' 1 (create_record ''id'' pets_route ''r'' [(''id'', JStr ''a'')]
       (continue_call ''id'' 0 (continue_call ''id'' 0 (update_record pets_route ''9'' [] no_writes)))))))"

definition moved_queues :: write_queues where
  "moved_queues = sample_event Resumed 1 (sample_event Resumed 1 (sample_event nine 1 three_writes))"

definition merged_queues :: "write_queues \<Rightarrow> write_queues" where
  "merged_queues s = sample_event Resumed 1 (sample_event nine 1 (sample_event Resumed 0 (sample_event nine 0 s)))"

lemma moved_write_pending:
  "pending moved_queues ''/pets:9'' = [0, 3]
   \<and> write_at moved_queues 3 = (write_at three_writes 2)\<lparr>qw_id := ''9''\<rparr>
   \<and> wq_tasks moved_queues = [Requesting ''/pets:9'' 0 0, Requesting ''/pets:9'' 2 0]"
  by (intro conjI; code_simp)

lemma moved_write_lost:
  "wq_settled (merged_queues moved_queues) = [(''/pets:a'', 1), (''/pets:9'', 0), (''/pets:9'', 0)]
   \<and> wq_queues (merged_queues moved_queues) = [] \<and> wq_tasks (merged_queues moved_queues) = [Finished, Finished]"
  by (intro conjI; code_simp)

text \<open>
  A removal called while an update of the record has not reached its write overtakes it: the
  delete is enqueued first, and the update is sent after it.
\<close>

definition overtaken :: write_queues where
  "overtaken = foldl (\<lambda>s n. continue_call ''id'' n s)
     (remove_record pets_route ''1'' (update_record pets_route ''1'' [(''name'', JStr ''Rex'')] no_writes)) [0, 1, 0]"

lemma remove_overtakes_update:
  "map (\<lambda>(k, w). (k, qw_type (write_at overtaken w))) (wq_enqueued overtaken) = [(''/pets:1'', DeleteWrite), (''/pets:1'', UpdateWrite)]
   \<and> pending overtaken ''/pets:1'' = [0, 1]"
  by (intro conjI; code_simp)

end
