(* ===== verification/Sy_Client.thy ===== *)
theory Sy_Client
  imports Sy_Walk Sy_Mock Sy_Queue
begin

text \<open>
  The reads of \<open>syncables/src/client/client.ts\<close>: \<open>paginate\<close> and \<open>sync\<close>, which brings the local
  copy of every collection up to date with conditional requests and writes only what changed;
  and the timer of \<open>startPolling\<close>. The writes are in \<open>Sy_Queue\<close>, whose storage this is.

  The caller's \<open>fetch\<close> is a parameter, over a world \<open>'w\<close>. As the \<open>Headers\<close> class does, it
  gives the names of a response's headers in lower case. The messages of errors that the
  runtime throws are not modelled: they are the name of the error's class.
\<close>

section \<open>State\<close>

record ('u, 'w) client =
  ct_document :: json
  ct_urls :: "'u url_api"
  ct_base :: 'u
  ct_idField :: string
  ct_fetch :: "string \<Rightarrow> headers \<Rightarrow> 'w \<Rightarrow> (string + response) \<times> 'w"

record validators =
  va_etag :: "string option"
  va_modified :: "string option"

record client_state =
  cl_cache :: "(string, validators) omap"
  cl_synced :: "(string, json list) omap"
  cl_storage :: local_storage

definition new_client :: client_state where
  "new_client = \<lparr>cl_cache = [], cl_synced = [], cl_storage = []\<rparr>"

section \<open>What changed\<close>

definition CHANGE_INDICATOR_FIELDS :: "string list" where
  "CHANGE_INDICATOR_FIELDS =
     [''updatedAt'', ''updated_at'', ''modifiedAt'', ''modified_at'', ''version'', ''revision'', ''_rev'', ''etag'']"

text \<open>\<open>field in item\<close> throws on a value that is not an object; an array has none of the fields.\<close>

definition itemFingerprint :: "json \<Rightarrow> string + string" where
  "itemFingerprint item =
     (if \<not> is_object (Some item) then Inl ''TypeError''
      else
        (case List.find (\<lambda>name. member name (Some item) \<noteq> None) CHANGE_INDICATOR_FIELDS of
           Some name \<Rightarrow> Inr (name @ '':'' @ js_string (the (member name (Some item))))
         | None \<Rightarrow> Inr (json_text item)))"

text \<open>\<open>String(item[idField])\<close>\<close>

definition item_id :: "string \<Rightarrow> json \<Rightarrow> string + string" where
  "item_id idField item = (if item = JNull then Inl ''TypeError'' else Inr (id_of idField item))"

definition by_id :: "string list \<Rightarrow> json list \<Rightarrow> (string, json) omap" where
  "by_id ids items = foldl (\<lambda>m (i, item). oset i item m) [] (zip ids items)"

fun some_changed :: "string \<Rightarrow> (string, json) omap \<Rightarrow> json list \<Rightarrow> string + bool" where
  "some_changed idField previousById [] = Inr False"
| "some_changed idField previousById (item # items) =
     bindE (item_id idField item) (\<lambda>i.
       (case oget previousById i of
          None \<Rightarrow> Inr True
        | Some known \<Rightarrow>
            if \<not> truthy_json (Some known) then Inr True
            else
              bindE (itemFingerprint known) (\<lambda>a. bindE (itemFingerprint item) (\<lambda>b.
                if a \<noteq> b then Inr True else some_changed idField previousById items))))"

definition hasChanges :: "json list option \<Rightarrow> json list \<Rightarrow> string \<Rightarrow> string + bool" where
  "hasChanges previous items idField =
     (case previous of
        None \<Rightarrow> Inr True
      | Some old \<Rightarrow>
          if length old \<noteq> length items then Inr True
          else bindE (mapE (item_id idField) old) (\<lambda>ids. some_changed idField (by_id ids old) items))"

section \<open>Requests\<close>

definition absolute_url :: "('u, 'w) client \<Rightarrow> string \<Rightarrow> string + 'u" where
  "absolute_url c path = (case resolve_url (ct_urls c) (ct_base c) path of Some x \<Rightarrow> Inr x | None \<Rightarrow> Inl ''TypeError'')"

definition is_ok :: "response \<Rightarrow> bool" where
  "is_ok r \<longleftrightarrow> 200 \<le> rs_status r \<and> rs_status r < 300"

definition status_error :: "string \<Rightarrow> response \<Rightarrow> string" where
  "status_error url r = ''Request to '' @ url @ '' failed with status '' @ int_str (rs_status r)"

text \<open>\<open>text ? JSON.parse(text) : {}\<close>\<close>

definition json_body :: "response \<Rightarrow> string + json" where
  "json_body r =
     (if rs_body r = [] then Inr (JObj [])
      else case json_parse (rs_body r) of Some j \<Rightarrow> Inr j | None \<Rightarrow> Inl ''SyntaxError'')"

definition requestJsonWithHeaders :: "('u, 'w) client \<Rightarrow> string \<Rightarrow> 'w \<Rightarrow> (string + json \<times> headers) \<times> 'w" where
  "requestJsonWithHeaders c url w =
     (case ct_fetch c url [] w of
        (Inl e, w) \<Rightarrow> (Inl e, w)
      | (Inr r, w) \<Rightarrow>
          (if \<not> is_ok r then Inl (status_error url r)
           else bindE (json_body r) (\<lambda>j. Inr (if is_object (Some j) then j else JObj [], rs_headers r)), w))"

definition extractItemsFromEnvelope :: "json \<Rightarrow> json option \<Rightarrow> string + json list" where
  "extractItemsFromEnvelope body responseSchema =
     (case locateItemsField responseSchema None of
        None \<Rightarrow> Inr []
      | Some f \<Rightarrow>
          if f = [] then Inr []
          else if body = JNull then Inl ''TypeError''
          else Inr (elements (member f (Some body))))"

text \<open>\<open>operation.responses['200']?.content?....schema\<close>, where \<open>responses\<close> has to be there.\<close>

definition success_schema :: "json \<Rightarrow> string + json option" where
  "success_schema operation =
     (if or_else (member ''responses'' (Some operation)) None = None then Inl ''TypeError'' else Inr (response_schema operation))"

section \<open>\<open>fetchAllItems\<close>\<close>

definition MAX_PAGES :: nat where "MAX_PAGES = 50"

definition page_array :: "json \<Rightarrow> string option \<Rightarrow> json option" where
  "page_array body itemsField =
     (case body of
        JArr xs \<Rightarrow> Some (JArr xs)
      | _ \<Rightarrow> (if truthy itemsField then member (the itemsField) (Some body) else None))"

text \<open>The loop, with the number of rounds left.\<close>

fun fetch_pages ::
  "('u, 'w) client \<Rightarrow> string \<Rightarrow> json \<Rightarrow> string option \<Rightarrow> int option \<Rightarrow> nat \<Rightarrow> page_cursor \<Rightarrow> string option \<Rightarrow> json list \<Rightarrow> 'w
   \<Rightarrow> (string + json list) \<times> 'w" where
  "fetch_pages c path scheme itemsField n 0 cursor nextUrl items w = (Inr items, w)"
| "fetch_pages c path scheme itemsField n (Suc rounds) cursor nextUrl items w =
     (case (if truthy nextUrl then Inr (the nextUrl)
            else bindE (absolute_url c path) (\<lambda>target.
              Inr (href (ct_urls c) (set_params (ct_urls c) (buildQuery scheme cursor n) target)))) of
        Inl e \<Rightarrow> (Inl e, w)
      | Inr url \<Rightarrow>
          (case requestJsonWithHeaders c url w of
             (Inl e, w) \<Rightarrow> (Inl e, w)
           | (Inr (body, hs), w) \<Rightarrow>
               (let found = elements (page_array body itemsField); items = items @ found;
                    state = parsePaginationState scheme body hs (Some (int (length items)))
                in if \<not> hasNextPage state then (Inr items, w)
                   else if scheme_type scheme = ''nextLink''
                   then (if truthy (nextLink state)
                         then fetch_pages c path scheme itemsField n rounds cursor (nextLink state) items w
                         else (Inr items, w))
                   else
                     (case nextCursor scheme cursor state (int (length found)) of
                        None \<Rightarrow> (Inr items, w)
                      | Some following \<Rightarrow> fetch_pages c path scheme itemsField n rounds following None items w))))"

definition fetchAllItems :: "('u, 'w) client \<Rightarrow> string \<Rightarrow> json \<Rightarrow> int option \<Rightarrow> 'w \<Rightarrow> (string + json list) \<times> 'w" where
  "fetchAllItems c path operation n w =
     (case success_schema operation of
        Inl e \<Rightarrow> (Inl e, w)
      | Inr responseSchema \<Rightarrow>
          (case resolveEffectiveScheme (ct_document c) operation of
             None \<Rightarrow>
               (case absolute_url c path of
                  Inl e \<Rightarrow> (Inl e, w)
                | Inr target \<Rightarrow>
                    (case requestJsonWithHeaders c (href (ct_urls c) target) w of
                       (Inl e, w) \<Rightarrow> (Inl e, w)
                     | (Inr (body, hs), w) \<Rightarrow> (Inr (elements (page_array body (locateItemsField responseSchema None))), w)))
           | Some (_, scheme) \<Rightarrow>
               fetch_pages c path scheme (locateItemsField responseSchema (Some scheme)) n MAX_PAGES no_cursor None [] w))"

text \<open>\<open>paginate\<close>: any GET operation of the document.\<close>

definition findGetOperation :: "json \<Rightarrow> string \<Rightarrow> string + json option" where
  "findGetOperation document path =
     (let paths = member ''paths'' (Some document)
      in bindE (findRoute (okeys (members paths)) path) (\<lambda>m.
        Inr (case m of
               None \<Rightarrow> None
             | Some rm \<Rightarrow>
                 (let operation = member ''get'' (member (rm_template rm) paths)
                  in if truthy_json operation then operation else None))))"

definition client_paginate :: "('u, 'w) client \<Rightarrow> string \<Rightarrow> int option \<Rightarrow> 'w \<Rightarrow> (string + json list) \<times> 'w" where
  "client_paginate c path n w =
     (case findGetOperation (ct_document c) path of
        Inl e \<Rightarrow> (Inl e, w)
      | Inr None \<Rightarrow> (Inl (''No GET operation found for path '' @ quoted path), w)
      | Inr (Some operation) \<Rightarrow> fetchAllItems c path operation n w)"

section \<open>\<open>sync\<close>\<close>

text \<open>The validators known of a URL, as request headers.\<close>

definition conditional_headers :: "validators option \<Rightarrow> headers" where
  "conditional_headers cached =
     (case cached of
        None \<Rightarrow> []
      | Some v \<Rightarrow> (if truthy (va_etag v) then [(''If-None-Match'', the (va_etag v))] else [])
          @ (if truthy (va_modified v) then [(''If-Modified-Since'', the (va_modified v))] else []))"

text \<open>The cache after a fresh response.\<close>

definition remember :: "string \<Rightarrow> response \<Rightarrow> client_state \<Rightarrow> client_state" where
  "remember url r st =
     (let tag = oget (rs_headers r) ''etag''; modified = oget (rs_headers r) ''last-modified''
      in if truthy tag \<or> truthy modified
         then st\<lparr>cl_cache := oset url \<lparr>va_etag = (if truthy tag then tag else None), va_modified = (if truthy modified then modified else None)\<rparr>
                (cl_cache st)\<rparr>
         else st\<lparr>cl_cache := odel url (cl_cache st)\<rparr>)"

text \<open>\<open>fetchCollectionSnapshot\<close>: the items, and whether they are the ones synced last.\<close>

definition fetchCollectionSnapshot ::
  "('u, 'w) client \<Rightarrow> string \<Rightarrow> json option \<Rightarrow> client_state \<Rightarrow> 'w \<Rightarrow> (string + json list \<times> bool) \<times> client_state \<times> 'w" where
  "fetchCollectionSnapshot c path operation st w =
     (case bindE (absolute_url c path) (\<lambda>target.
             bindE (case operation of None \<Rightarrow> Inr None | Some op \<Rightarrow> success_schema op) (\<lambda>schema. Inr (href (ct_urls c) target, schema))) of
        Inl e \<Rightarrow> (Inl e, st, w)
      | Inr (url, responseSchema) \<Rightarrow>
          (case ct_fetch c url (conditional_headers (oget (cl_cache st) url)) w of
             (Inl e, w) \<Rightarrow> (Inl e, st, w)
           | (Inr r, w) \<Rightarrow>
               if rs_status r = 304 then (Inr (oget_or [] (cl_synced st) path, True), st, w)
               else if \<not> is_ok r then (Inl (status_error url r), st, w)
               else
                 (bindE (bindE (json_body r) (\<lambda>body.
                    case body of JArr xs \<Rightarrow> Inr xs | _ \<Rightarrow> extractItemsFromEnvelope body responseSchema)) (\<lambda>items. Inr (items, False)),
                  remember url r st, w)))"

fun put_items :: "string \<Rightarrow> string \<Rightarrow> json list \<Rightarrow> local_storage \<Rightarrow> (string + unit) \<times> local_storage" where
  "put_items idField path [] sto = (Inr (), sto)"
| "put_items idField path (item # items) sto =
     (case item_id idField item of
        Inl e \<Rightarrow> (Inl e, sto)
      | Inr i \<Rightarrow> put_items idField path items (storage_put path i (Some item) sto))"

fun delete_stale :: "string \<Rightarrow> string \<Rightarrow> string list \<Rightarrow> json list \<Rightarrow> local_storage \<Rightarrow> (string + unit) \<times> local_storage" where
  "delete_stale idField path nextIds [] sto = (Inr (), sto)"
| "delete_stale idField path nextIds (item # items) sto =
     (case item_id idField item of
        Inl e \<Rightarrow> (Inl e, sto)
      | Inr i \<Rightarrow> delete_stale idField path nextIds items (if i \<in> set nextIds then sto else storage_delete path i sto))"

text \<open>The writes of a changed collection: every item, and then the deletion of what is gone.\<close>

definition write_items :: "string \<Rightarrow> string \<Rightarrow> json list option \<Rightarrow> json list \<Rightarrow> local_storage \<Rightarrow> (string + unit) \<times> local_storage" where
  "write_items idField path previous items sto =
     (case put_items idField path items sto of
        (Inl e, sto) \<Rightarrow> (Inl e, sto)
      | (Inr _, sto) \<Rightarrow>
          (case previous of
             None \<Rightarrow> (Inr (), sto)
           | Some old \<Rightarrow>
               (case mapE (item_id idField) items of
                  Inl e \<Rightarrow> (Inl e, sto)
                | Inr nextIds \<Rightarrow> delete_stale idField path nextIds old sto)))"

text \<open>What \<open>performSync\<close> does with the items of a collection; whether it changed.\<close>

definition store_snapshot :: "string \<Rightarrow> string \<Rightarrow> json list \<Rightarrow> client_state \<Rightarrow> (string + bool) \<times> client_state" where
  "store_snapshot idField path items st =
     (let previous = oget (cl_synced st) path
      in case hasChanges previous items idField of
           Inl e \<Rightarrow> (Inl e, st)
         | Inr changed \<Rightarrow>
             (case (if changed then write_items idField path previous items (cl_storage st) else (Inr (), cl_storage st)) of
                (Inl e, sto) \<Rightarrow> (Inl e, st\<lparr>cl_storage := sto\<rparr>)
              | (Inr _, sto) \<Rightarrow> (Inr changed, st\<lparr>cl_storage := sto, cl_synced := oset path items (cl_synced st)\<rparr>)))"

definition sync_operation :: "('u, 'w) client \<Rightarrow> string \<Rightarrow> json option" where
  "sync_operation c path =
     (let operation = member ''get'' (member path (member ''paths'' (Some (ct_document c))))
      in if truthy_json operation then operation else None)"

text \<open>The items of a collection: all pages, or a conditional snapshot.\<close>

definition fetch_collection ::
  "('u, 'w) client \<Rightarrow> string \<Rightarrow> client_state \<Rightarrow> 'w \<Rightarrow> (string + json list \<times> bool) \<times> client_state \<times> 'w" where
  "fetch_collection c path st w =
     (case sync_operation c path of
        None \<Rightarrow> fetchCollectionSnapshot c path None st w
      | Some operation \<Rightarrow>
          if resolveEffectiveScheme (ct_document c) operation = None then fetchCollectionSnapshot c path (Some operation) st w
          else
            (case fetchAllItems c path operation None w of
               (Inl e, w) \<Rightarrow> (Inl e, st, w)
             | (Inr items, w) \<Rightarrow> (Inr (items, False), st, w)))"

definition sync_one :: "('u, 'w) client \<Rightarrow> string \<Rightarrow> client_state \<Rightarrow> 'w \<Rightarrow> (string + bool) \<times> client_state \<times> 'w" where
  "sync_one c path st w =
     (case fetch_collection c path st w of
        (Inl e, st, w) \<Rightarrow> (Inl e, st, w)
      | (Inr (items, notModified), st, w) \<Rightarrow>
          if notModified then (Inr False, st, w)
          else (case store_snapshot (ct_idField c) path items st of (r, st) \<Rightarrow> (r, st, w)))"

fun sync_routes :: "('u, 'w) client \<Rightarrow> string list \<Rightarrow> string list \<Rightarrow> client_state \<Rightarrow> 'w \<Rightarrow> (string + string list) \<times> client_state \<times> 'w" where
  "sync_routes c [] changed st w = (Inr changed, st, w)"
| "sync_routes c (path # paths) changed st w =
     (case sync_one c path st w of
        (Inl e, st, w) \<Rightarrow> (Inl e, st, w)
      | (Inr b, st, w) \<Rightarrow> sync_routes c paths (changed @ (if b then [path] else [])) st w)"

definition client_resources :: "('u, 'w) client \<Rightarrow> string list" where
  "client_resources c =
     map collectionPath (case member ''paths'' (Some (ct_document c)) of Some paths \<Rightarrow> discoverResources paths | None \<Rightarrow> [])"

definition performSync :: "('u, 'w) client \<Rightarrow> client_state \<Rightarrow> 'w \<Rightarrow> (string + string list) \<times> client_state \<times> 'w" where
  "performSync c st w = sync_routes c (client_resources c) [] st w"

section \<open>\<open>startPolling\<close>\<close>

text \<open>The timer's ticks, the ends of syncs, and \<open>stop\<close>; \<open>po_running\<close> counts the syncs that run.\<close>

record polling =
  po_stopped :: bool
  po_inFlight :: bool
  po_running :: nat

datatype poll_event = Tick | SyncEnds | Stop

definition poll_tick :: "polling \<Rightarrow> polling" where
  "poll_tick p = (if po_stopped p \<or> po_inFlight p then p else p\<lparr>po_inFlight := True, po_running := po_running p + 1\<rparr>)"

fun poll_step :: "poll_event \<Rightarrow> polling \<Rightarrow> polling" where
  "poll_step Tick p = poll_tick p"
| "poll_step SyncEnds p = (if 0 < po_running p then p\<lparr>po_inFlight := False, po_running := po_running p - 1\<rparr> else p)"
| "poll_step Stop p = p\<lparr>po_stopped := True\<rparr>"

definition startPolling :: polling where
  "startPolling = poll_tick \<lparr>po_stopped = False, po_inFlight = False, po_running = 0\<rparr>"

lemma polls_one_at_a_time:
  "po_running (foldl (\<lambda>p e. poll_step e p) startPolling es) \<le> 1"
proof -
  have "(po_inFlight p \<longleftrightarrow> po_running p = 1) \<and> po_running p \<le> 1 \<Longrightarrow>
      (po_inFlight (foldl (\<lambda>p e. poll_step e p) p es) \<longleftrightarrow> po_running (foldl (\<lambda>p e. poll_step e p) p es) = 1)
      \<and> po_running (foldl (\<lambda>p e. poll_step e p) p es) \<le> 1" for p
  proof (induction es arbitrary: p)
    case (Cons e es)
    have "(po_inFlight (poll_step e p) \<longleftrightarrow> po_running (poll_step e p) = 1) \<and> po_running (poll_step e p) \<le> 1"
      using Cons.prems by (cases e) (auto simp: poll_tick_def)
    from Cons.IH [OF this] show ?case by simp
  qed simp
  then show ?thesis by (simp add: startPolling_def poll_tick_def)
qed

end
