(* ===== verification/Sy_Synced.thy ===== *)
theory Sy_Synced
  imports Sy_Client
begin

text \<open>
  What \<open>sync\<close> achieves. The server is an interface, the locale \<open>honest_server\<close>: it answers a GET
  of a collection with its items, or with 304 to the entity tag it has now, and never has one
  tag for different items. Against such a server the local copy of a collection is, after every
  sync, what the collection was at a moment during that sync. The mock server of the library
  is one: the interpretation at the end.
\<close>

section \<open>Writing a snapshot\<close>

abbreviation stored :: "string \<Rightarrow> local_storage \<Rightarrow> string \<Rightarrow> json option option" where
  "stored path sto i \<equiv> oget (storage_collection path sto) i"

lemma stored_put: "stored p (storage_put path i v sto) j = (if p = path \<and> j = i then Some v else stored p sto j)"
  by (simp add: storage_collection_def storage_put_def oget_or_def)

lemma stored_delete: "stored p (storage_delete path i sto) j = (if p = path \<and> j = i then None else stored p sto j)"
  by (simp add: storage_collection_def storage_delete_def oget_or_def)

text \<open>Items that are objects, each with an id of its own.\<close>

definition proper_items :: "string \<Rightarrow> json list \<Rightarrow> bool" where
  "proper_items f items \<longleftrightarrow> distinct (map (id_of f) items) \<and> list_all (\<lambda>j. isRecord (Some j)) items"

lemma item_id_proper: "isRecord (Some j) \<Longrightarrow> item_id f j = Inr (id_of f j)"
  by (auto simp: item_id_def)

lemma item_ids_proper: "list_all (\<lambda>j. isRecord (Some j)) items \<Longrightarrow> mapE (item_id f) items = Inr (map (id_of f) items)"
  by (induction items) (auto simp: item_id_proper)

definition item_of :: "string \<Rightarrow> json list \<Rightarrow> string \<Rightarrow> json option" where
  "item_of f items i = oget (map (\<lambda>j. (id_of f j, j)) items) i"

lemma item_of_None: "item_of f items i = None \<longleftrightarrow> i \<notin> set (map (id_of f) items)"
  by (auto simp: item_of_def map_of_eq_None_iff image_iff)

lemma item_of_Some: "item_of f items i = Some j \<Longrightarrow> j \<in> set items \<and> id_of f j = i"
  by (auto simp: item_of_def dest!: map_of_SomeD)

lemma item_of_mem: "distinct (map (id_of f) items) \<Longrightarrow> j \<in> set items \<Longrightarrow> item_of f items (id_of f j) = Some j"
  unfolding item_of_def by (rule map_of_is_SomeI) (auto simp: comp_def)

lemma put_items_stored:
  assumes "proper_items f items"
  shows "\<exists>sto'. put_items f path items sto = (Inr (), sto')
    \<and> (\<forall>p i. stored p sto' i = (if p = path \<and> item_of f items i \<noteq> None then Some (item_of f items i) else stored p sto i))"
  using assms
proof (induction items arbitrary: sto)
  case (Cons j items)
  have j: "item_id f j = Inr (id_of f j)" "id_of f j \<notin> set (map (id_of f) items)" "proper_items f items"
    using Cons.prems by (auto simp: proper_items_def item_id_proper)
  from Cons.IH [OF j(3), of "storage_put path (id_of f j) (Some j) sto"]
  obtain sto' where sto': "put_items f path items (storage_put path (id_of f j) (Some j) sto) = (Inr (), sto')"
    "\<And>p i. stored p sto' i = (if p = path \<and> item_of f items i \<noteq> None then Some (item_of f items i)
      else stored p (storage_put path (id_of f j) (Some j) sto) i)" by blast
  have "item_of f items (id_of f j) = None" using j(2) by (simp only: item_of_None not_False_eq_True)
  then have "stored p sto' i = (if p = path \<and> item_of f (j # items) i \<noteq> None then Some (item_of f (j # items) i) else stored p sto i)" for p i
    unfolding sto'(2) stored_put by (auto simp: item_of_def)
  then show ?case using sto'(1) j(1) by simp
qed (simp add: item_of_def)

lemma delete_stale_stored:
  assumes "list_all (\<lambda>j. isRecord (Some j)) old"
  shows "\<exists>sto'. delete_stale f path ids old sto = (Inr (), sto')
    \<and> (\<forall>p i. stored p sto' i = (if p = path \<and> i \<in> set (map (id_of f) old) \<and> i \<notin> set ids then None else stored p sto i))"
  using assms
proof (induction old arbitrary: sto)
  case (Cons j old)
  define sto1 where "sto1 = (if id_of f j \<in> set ids then sto else storage_delete path (id_of f j) sto)"
  have j: "item_id f j = Inr (id_of f j)" "list_all (\<lambda>j. isRecord (Some j)) old" using Cons.prems by (auto simp: item_id_proper)
  from Cons.IH [OF j(2), of sto1] obtain sto' where sto': "delete_stale f path ids old sto1 = (Inr (), sto')"
    "\<And>p i. stored p sto' i = (if p = path \<and> i \<in> set (map (id_of f) old) \<and> i \<notin> set ids then None else stored p sto1 i)" by blast
  have "stored p sto' i = (if p = path \<and> i \<in> set (map (id_of f) (j # old)) \<and> i \<notin> set ids then None else stored p sto i)" for p i
    unfolding sto'(2) by (auto simp: sto1_def stored_delete)
  then show ?case using sto'(1) j(1) by (simp add: sto1_def)
qed simp

section \<open>Mirrors\<close>

text \<open>The storage has the items, by id, each in a version that its fingerprint does not tell apart.\<close>

definition mirrors :: "string \<Rightarrow> json list \<Rightarrow> string \<Rightarrow> local_storage \<Rightarrow> bool" where
  "mirrors f items path sto \<longleftrightarrow>
     (\<forall>i. case item_of f items i of
        None \<Rightarrow> stored path sto i = None
      | Some j \<Rightarrow> \<exists>k. stored path sto i = Some (Some k) \<and> itemFingerprint k = itemFingerprint j)"

lemma mirrors_exact: "(\<And>i. stored path sto i = map_option Some (item_of f items i)) \<Longrightarrow> mirrors f items path sto"
  by (simp add: mirrors_def split: option.split)

lemma mirrors_cong: "(\<And>i. stored path sto' i = stored path sto i) \<Longrightarrow> mirrors f items path sto' = mirrors f items path sto"
proof -
  assume "\<And>i. stored path sto' i = stored path sto i"
  then have same: "oget (storage_collection path sto') = oget (storage_collection path sto)" by (rule ext)
  show ?thesis unfolding mirrors_def same ..
qed

text \<open>A changed collection is written exactly.\<close>

lemma write_items_exact:
  assumes "proper_items f items"
    and "case previous of None \<Rightarrow> \<forall>i. stored path sto i = None
      | Some old \<Rightarrow> proper_items f old \<and> (\<forall>i. item_of f old i = None \<longrightarrow> stored path sto i = None)"
  shows "\<exists>sto'. write_items f path previous items sto = (Inr (), sto')
    \<and> (\<forall>i. stored path sto' i = map_option Some (item_of f items i))
    \<and> (\<forall>p i. p \<noteq> path \<longrightarrow> stored p sto' i = stored p sto i)"
proof -
  from put_items_stored [OF assms(1), of path sto] obtain sto1 where one: "put_items f path items sto = (Inr (), sto1)"
    "\<And>p i. stored p sto1 i = (if p = path \<and> item_of f items i \<noteq> None then Some (item_of f items i) else stored p sto i)" by blast
  show ?thesis
  proof (cases previous)
    case None
    have "stored path sto1 i = map_option Some (item_of f items i)" for i
      using assms(2) unfolding one(2) None by (cases "item_of f items i") auto
    then show ?thesis using one by (simp add: write_items_def None)
  next
    case (Some old)
    then have old: "proper_items f old" "\<And>i. item_of f old i = None \<Longrightarrow> stored path sto i = None" using assms(2) by auto
    have ids: "mapE (item_id f) items = Inr (map (id_of f) items)"
      using assms(1) by (simp add: item_ids_proper proper_items_def)
    from old(1) have "list_all (\<lambda>j. isRecord (Some j)) old" by (simp add: proper_items_def)
    from delete_stale_stored [OF this, of f path "map (id_of f) items" sto1]
    obtain sto' where two: "delete_stale f path (map (id_of f) items) old sto1 = (Inr (), sto')"
      "\<And>p i. stored p sto' i = (if p = path \<and> i \<in> set (map (id_of f) old) \<and> i \<notin> set (map (id_of f) items) then None else stored p sto1 i)"
      by blast
    have "stored path sto' i = map_option Some (item_of f items i)" for i
    proof (cases "item_of f items i")
      case None
      then show ?thesis
        using old(2) [of i] item_of_None [of f old i] item_of_None [of f items i] unfolding two(2) one(2) by auto
    next
      case (Some j)
      then show ?thesis using item_of_None [of f items i] unfolding two(2) one(2) by auto
    qed
    then show ?thesis using one two ids by (simp add: write_items_def Some)
  qed
qed

lemma by_id_item_of: "distinct (map (id_of f) items) \<Longrightarrow> by_id (map (id_of f) items) items = map (\<lambda>j. (id_of f j, j)) items"
proof -
  assume d: "distinct (map (id_of f) items)"
  have "by_id (map (id_of f) items) items = spread [] (map (\<lambda>j. (id_of f j, j)) items)"
    by (simp add: by_id_def spread_def zip_map1 zip_same_conv_map foldl_map comp_def split_beta)
  then show ?thesis using d by (simp add: comp_def)
qed

lemma fingerprint_record: "isRecord (Some j) \<Longrightarrow> \<exists>p. itemFingerprint j = Inr p"
  by (auto simp: itemFingerprint_def isRecord_iff is_object_def split: option.split)

lemma some_changed_records:
  assumes "list_all (\<lambda>j. isRecord (Some j)) items" "\<And>i k. oget m i = Some k \<Longrightarrow> isRecord (Some k)"
  shows "some_changed f m items = Inr (\<not> list_all (\<lambda>j. \<exists>k. oget m (id_of f j) = Some k \<and> itemFingerprint k = itemFingerprint j) items)"
  using assms(1)
proof (induction items)
  case (Cons j items)
  obtain p where p: "itemFingerprint j = Inr p" using Cons.prems fingerprint_record by auto
  show ?case
  proof (cases "oget m (id_of f j)")
    case (Some k)
    note k = assms(2) [OF this]
    obtain q where "itemFingerprint k = Inr q" using fingerprint_record [OF k] by blast
    moreover have "truthy_json (Some k)" using k by (auto simp: isRecord_iff)
    ultimately have "itemFingerprint k = Inr q" "truthy_json (Some k)" .
    then show ?thesis using Cons p Some by (auto simp: item_id_proper)
  qed (use Cons in \<open>simp add: item_id_proper\<close>)
qed simp

lemma distinct_subset_eq: "distinct xs \<Longrightarrow> distinct ys \<Longrightarrow> length xs = length ys \<Longrightarrow> set xs \<subseteq> set ys \<Longrightarrow> set xs = set ys"
  by (metis card_subset_eq distinct_card List.finite_set)

text \<open>Unchanged means: the same ids, with the same fingerprints.\<close>

lemma hasChanges_False:
  assumes "proper_items f old" "proper_items f items" "hasChanges (Some old) items f = Inr False"
  shows "\<forall>i. (case item_of f items i of
      None \<Rightarrow> item_of f old i = None
    | Some j \<Rightarrow> \<exists>k. item_of f old i = Some k \<and> itemFingerprint k = itemFingerprint j)"
proof -
  have rec: "list_all (\<lambda>j. isRecord (Some j)) old" "list_all (\<lambda>j. isRecord (Some j)) items"
    and d: "distinct (map (id_of f) old)" "distinct (map (id_of f) items)"
    using assms(1,2) by (simp_all add: proper_items_def)
  have known: "isRecord (Some k)" if "oget (map (\<lambda>j. (id_of f j, j)) old) i = Some k" for i k
    using map_of_SomeD [OF that] rec(1) by (auto simp: list_all_iff)
  have len: "length old = length items"
    and same: "list_all (\<lambda>j. \<exists>k. item_of f old (id_of f j) = Some k \<and> itemFingerprint k = itemFingerprint j) items"
    using assms(3) item_ids_proper [OF rec(1), of f] by_id_item_of [OF d(1)]
      some_changed_records [OF rec(2), of "map (\<lambda>j. (id_of f j, j)) old" f, OF known]
    by (auto simp: hasChanges_def item_of_def split: if_splits)
  have "id_of f j \<in> set (map (id_of f) old)" if "j \<in> set items" for j
  proof -
    from same that have "item_of f old (id_of f j) \<noteq> None" by (auto simp: list_all_iff)
    then show ?thesis by (simp add: item_of_None)
  qed
  then have "set (map (id_of f) items) \<subseteq> set (map (id_of f) old)" by auto
  then have ids: "set (map (id_of f) items) = set (map (id_of f) old)"
    by (intro distinct_subset_eq d) (use len in simp_all)
  show ?thesis
  proof
    fix i
    show "case item_of f items i of
      None \<Rightarrow> item_of f old i = None
    | Some j \<Rightarrow> \<exists>k. item_of f old i = Some k \<and> itemFingerprint k = itemFingerprint j"
    proof (cases "item_of f items i")
      case None
      then have "item_of f old i = None" unfolding item_of_None ids .
      then show ?thesis using None by simp
    next
      case (Some j)
      then show ?thesis using same item_of_Some [OF Some] by (auto simp: list_all_iff)
    qed
  qed
qed

lemma hasChanges_total:
  assumes "proper_items f items" "\<And>old. previous = Some old \<Longrightarrow> proper_items f old"
  shows "\<exists>b. hasChanges previous items f = Inr b"
proof (cases previous)
  case (Some old)
  then have rec: "list_all (\<lambda>j. isRecord (Some j)) old" "distinct (map (id_of f) old)" "list_all (\<lambda>j. isRecord (Some j)) items"
    using assms by (simp_all add: proper_items_def)
  have known: "isRecord (Some k)" if "oget (map (\<lambda>j. (id_of f j, j)) old) i = Some k" for i k
    using map_of_SomeD [OF that] rec(1) by (auto simp: list_all_iff)
  show ?thesis
    using Some item_ids_proper [OF rec(1), of f] by_id_item_of [OF rec(2)]
      some_changed_records [OF rec(3), of "map (\<lambda>j. (id_of f j, j)) old" f, OF known]
    by (auto simp: hasChanges_def)
qed (auto simp: hasChanges_def)

section \<open>A snapshot against an honest server\<close>

lemma json_parse_Nil: "json_parse [] = None"
  by code_simp

text \<open>The client's collections: each has a URL of its own, and none is paginated.\<close>

definition plain_collections :: "('u, 'w) client \<Rightarrow> bool" where
  "plain_collections c \<longleftrightarrow>
     list_all (\<lambda>path. \<not> isl (absolute_url c path)
       \<and> (case sync_operation c path of
            None \<Rightarrow> True
          | Some operation \<Rightarrow> resolveEffectiveScheme (ct_document c) operation = None \<and> \<not> isl (success_schema operation)))
       (client_resources c)
     \<and> distinct (map (\<lambda>path. map_sum id (href (ct_urls c)) (absolute_url c path)) (client_resources c))"

lemma not_isl: "\<not> isl x \<longleftrightarrow> (\<exists>y. x = Inr y)"
  by (cases x) simp_all

lemma plain_collections_iff:
  "plain_collections c \<longleftrightarrow>
     list_all (\<lambda>path. (\<exists>x. absolute_url c path = Inr x)
       \<and> (case sync_operation c path of
            None \<Rightarrow> True
          | Some operation \<Rightarrow> resolveEffectiveScheme (ct_document c) operation = None \<and> (\<exists>schema. success_schema operation = Inr schema)))
       (client_resources c)
     \<and> distinct (map (\<lambda>path. map_sum id (href (ct_urls c)) (absolute_url c path)) (client_resources c))"
  unfolding plain_collections_def not_isl ..

definition collection_url :: "('u, 'w) client \<Rightarrow> string \<Rightarrow> string" where
  "collection_url c path = (case absolute_url c path of Inr x \<Rightarrow> href (ct_urls c) x | Inl _ \<Rightarrow> [])"

text \<open>The response carries the tag, and a date only together with one.\<close>

definition tagged :: "response \<Rightarrow> string option \<Rightarrow> bool" where
  "tagged r t \<longleftrightarrow> oget (rs_headers r) ''etag'' = t \<and> (truthy t \<or> oget (rs_headers r) ''last-modified'' = None)"

locale honest_server =
  fixes c :: "('u, 'w) client"
    and good :: "'w \<Rightarrow> bool"
    and later :: "'w \<Rightarrow> 'w \<Rightarrow> bool"
    and items_at :: "string \<Rightarrow> 'w \<Rightarrow> json list"
    and tag_at :: "string \<Rightarrow> 'w \<Rightarrow> string option"
  assumes collections: "plain_collections c"
    and later_refl: "later w w"
    and later_trans: "later w1 w2 \<Longrightarrow> later w2 w3 \<Longrightarrow> later w1 w3"
    and good_later: "good w \<Longrightarrow> later w w' \<Longrightarrow> good w'"
    and answers: "path \<in> set (client_resources c) \<Longrightarrow> good w \<Longrightarrow> (\<And>v. cached = Some v \<Longrightarrow> truthy (va_etag v)) \<Longrightarrow>
      ct_fetch c (collection_url c path) (conditional_headers cached) w = (r, w') \<Longrightarrow>
      later w w' \<and> (\<exists>resp. r = Inr resp \<and>
        (rs_status resp = 200 \<and> json_parse (rs_body resp) = Some (JArr (items_at path w')) \<and> tagged resp (tag_at path w')
         \<or> rs_status resp = 304 \<and> (\<exists>v. cached = Some v \<and> va_etag v = tag_at path w')))"
    and honest: "good w \<Longrightarrow> later w w' \<Longrightarrow> tag_at path w = Some t \<Longrightarrow> tag_at path w' = Some t \<Longrightarrow> items_at path w' = items_at path w"
    and proper: "good w \<Longrightarrow> proper_items (ct_idField c) (items_at path w)"
begin

text \<open>What the client knows of a collection.\<close>

definition knows :: "string \<Rightarrow> client_state \<Rightarrow> 'w \<Rightarrow> bool" where
  "knows path st w \<longleftrightarrow>
     (case oget (cl_synced st) path of
        None \<Rightarrow> oget (cl_cache st) (collection_url c path) = None \<and> (\<forall>i. stored path (cl_storage st) i = None)
      | Some old \<Rightarrow>
          proper_items (ct_idField c) old \<and> mirrors (ct_idField c) old path (cl_storage st)
          \<and> (\<forall>v. oget (cl_cache st) (collection_url c path) = Some v \<longrightarrow> truthy (va_etag v) \<and>
               (\<exists>w0. good w0 \<and> later w0 w \<and> tag_at path w0 = va_etag v \<and> items_at path w0 = old)))"

lemma url_of: "path \<in> set (client_resources c) \<Longrightarrow> \<exists>x. absolute_url c path = Inr x \<and> href (ct_urls c) x = collection_url c path"
  using collections by (auto simp: plain_collections_iff list_all_iff collection_url_def)

lemma url_inj: "p \<in> set (client_resources c) \<Longrightarrow> q \<in> set (client_resources c) \<Longrightarrow> collection_url c p = collection_url c q \<Longrightarrow> p = q"
proof -
  assume p: "p \<in> set (client_resources c)" and q: "q \<in> set (client_resources c)" and eq: "collection_url c p = collection_url c q"
  have "inj_on (\<lambda>path. map_sum id (href (ct_urls c)) (absolute_url c path)) (set (client_resources c))"
    using collections by (simp add: plain_collections_iff distinct_map)
  moreover have "map_sum id (href (ct_urls c)) (absolute_url c p) = map_sum id (href (ct_urls c)) (absolute_url c q)"
    using url_of [OF p] url_of [OF q] eq by auto
  ultimately show "p = q" by (rule inj_onD) (fact p q)+
qed

lemma knows_cong:
  assumes "oget (cl_synced st') path = oget (cl_synced st) path"
    and "oget (cl_cache st') (collection_url c path) = oget (cl_cache st) (collection_url c path)"
    and "\<And>i. stored path (cl_storage st') i = stored path (cl_storage st) i"
  shows "knows path st' w = knows path st w"
proof -
  have same: "oget (storage_collection path (cl_storage st')) = oget (storage_collection path (cl_storage st))"
    using assms(3) by (rule ext)
  show ?thesis unfolding knows_def mirrors_def assms(1,2) same ..
qed

lemma knows_later: "knows path st w \<Longrightarrow> later w w' \<Longrightarrow> knows path st w'"
  unfolding knows_def using later_trans by (fastforce split: option.splits)

text \<open>The answer to a conditional request: nothing new, or the items there are now.\<close>

lemma snapshot:
  assumes "path \<in> set (client_resources c)" "good w" "knows path st w" "fetch_collection c path st w = (r, st', w')"
  shows "later w w' \<and> good w' \<and>
    (r = Inr (oget_or [] (cl_synced st) path, True) \<and> st' = st \<and> oget (cl_synced st) path = Some (items_at path w')
     \<or> (\<exists>resp. r = Inr (items_at path w', False) \<and> st' = remember (collection_url c path) resp st \<and> tagged resp (tag_at path w')))"
proof -
  obtain x where x: "absolute_url c path = Inr x" "href (ct_urls c) x = collection_url c path" using url_of [OF assms(1)] by blast
  let ?cached = "oget (cl_cache st) (collection_url c path)"
  obtain r1 w1 where f: "ct_fetch c (collection_url c path) (conditional_headers ?cached) w = (r1, w1)" by fastforce
  have "truthy (va_etag v)" if "?cached = Some v" for v
    using assms(3) that by (auto simp: knows_def split: option.splits)
  from answers [OF assms(1,2) this f] obtain resp where resp: "later w w1" "r1 = Inr resp"
    "rs_status resp = 200 \<and> json_parse (rs_body resp) = Some (JArr (items_at path w1)) \<and> tagged resp (tag_at path w1)
     \<or> rs_status resp = 304 \<and> (\<exists>v. ?cached = Some v \<and> va_etag v = tag_at path w1)" by blast
  obtain op schema where s: "fetch_collection c path st w = fetchCollectionSnapshot c path op st w"
    "(case op of None \<Rightarrow> Inr None | Some operation \<Rightarrow> success_schema operation) = Inr schema"
  proof (cases "sync_operation c path")
    case None
    then show ?thesis using that [of None None] by (simp add: fetch_collection_def)
  next
    case (Some operation)
    then have "resolveEffectiveScheme (ct_document c) operation = None" "\<exists>schema. success_schema operation = Inr schema"
      using collections assms(1) by (auto simp: plain_collections_iff list_all_iff)
    then show ?thesis using that [of "Some operation"] Some by (auto simp: fetch_collection_def)
  qed
  from resp(3) show ?thesis
  proof
    assume fresh: "rs_status resp = 200 \<and> json_parse (rs_body resp) = Some (JArr (items_at path w1)) \<and> tagged resp (tag_at path w1)"
    then have "rs_body resp \<noteq> []" by (auto simp: json_parse_Nil)
    then have "fetchCollectionSnapshot c path op st w = (Inr (items_at path w1, False), remember (collection_url c path) resp st, w1)"
      using fresh unfolding fetchCollectionSnapshot_def x(1) bindE_simps s(2) x(2)
      by (simp add: f resp(2) is_ok_def json_body_def)
    then show ?thesis using assms(4) fresh resp(1) good_later [OF assms(2)] unfolding s(1) by auto
  next
    assume same: "rs_status resp = 304 \<and> (\<exists>v. ?cached = Some v \<and> va_etag v = tag_at path w1)"
    then obtain v where v: "?cached = Some v" "va_etag v = tag_at path w1" by blast
    then obtain old w0 where old: "oget (cl_synced st) path = Some old" "truthy (va_etag v)" "good w0" "later w0 w"
      "tag_at path w0 = va_etag v" "items_at path w0 = old"
      using assms(3) unfolding knows_def by (auto split: option.splits)
    obtain t where t: "va_etag v = Some t" using old(2) by (cases "va_etag v") (simp_all add: truthy_def)
    have "items_at path w1 = old"
      using honest [OF old(3) later_trans [OF old(4) resp(1)], of path t] old(5,6) v(2) t by simp
    moreover have "fetchCollectionSnapshot c path op st w = (Inr (oget_or [] (cl_synced st) path, True), st, w1)"
      using same unfolding fetchCollectionSnapshot_def x(1) bindE_simps s(2) x(2) by (simp add: f resp(2))
    ultimately show ?thesis using assms(4) old(1) resp(1) good_later [OF assms(2)] unfolding s(1) by auto
  qed
qed

lemma snapshot_stored:
  assumes "good w" "knows path st w" "tag = tag_at path w"
  shows "\<exists>b st'. store_snapshot (ct_idField c) path (items_at path w) (st\<lparr>cl_cache := cache\<rparr>) = (Inr b, st')
    \<and> cl_cache st' = cache \<and> cl_synced st' = oset path (items_at path w) (cl_synced st)
    \<and> mirrors (ct_idField c) (items_at path w) path (cl_storage st')
    \<and> (\<forall>p i. p \<noteq> path \<or> \<not> b \<longrightarrow> stored p (cl_storage st') i = stored p (cl_storage st) i)"
proof -
  let ?f = "ct_idField c" and ?items = "items_at path w" and ?old = "oget (cl_synced st) path" and ?sto = "cl_storage st"
  have items: "proper_items ?f ?items" by (rule proper [OF assms(1)])
  have old: "proper_items ?f old" "mirrors ?f old path ?sto" if "?old = Some old" for old
    using assms(2) that by (auto simp: knows_def)
  obtain b where b: "hasChanges ?old ?items ?f = Inr b" using hasChanges_total [OF items old(1)] by blast
  show ?thesis
  proof (cases b)
    case True
    have "case ?old of None \<Rightarrow> \<forall>i. stored path ?sto i = None
      | Some old \<Rightarrow> proper_items ?f old \<and> (\<forall>i. item_of ?f old i = None \<longrightarrow> stored path ?sto i = None)"
    proof (cases ?old)
      case None
      then show ?thesis using assms(2) by (simp add: knows_def)
    next
      case (Some old0)
      have "stored path ?sto i = None" if "item_of ?f old0 i = None" for i
        using spec [OF old(2) [OF Some, unfolded mirrors_def], of i] that by simp
      then show ?thesis using old(1) [OF Some] Some by simp
    qed
    from write_items_exact [OF items this] obtain sto' where sto': "write_items ?f path ?old ?items ?sto = (Inr (), sto')"
      "\<And>i. stored path sto' i = map_option Some (item_of ?f ?items i)" "\<And>p i. p \<noteq> path \<Longrightarrow> stored p sto' i = stored p ?sto i" by blast
    have "mirrors ?f ?items path sto'" by (rule mirrors_exact [OF sto'(2)])
    then show ?thesis using b True sto' by (intro exI [of _ True]) (simp add: store_snapshot_def)
  next
    case False
    then obtain old0 where Some: "?old = Some old0" using b by (auto simp: hasChanges_def split: option.splits)
    have "mirrors ?f ?items path ?sto"
      unfolding mirrors_def
    proof
      fix i
      have known: "case item_of ?f ?items i of
          None \<Rightarrow> item_of ?f old0 i = None
        | Some j \<Rightarrow> \<exists>k. item_of ?f old0 i = Some k \<and> itemFingerprint k = itemFingerprint j"
        using hasChanges_False [OF old(1) [OF Some] items] b False Some by simp
      show "case item_of ?f ?items i of None \<Rightarrow> stored path ?sto i = None
        | Some j \<Rightarrow> \<exists>k. stored path ?sto i = Some (Some k) \<and> itemFingerprint k = itemFingerprint j"
        using known spec [OF old(2) [OF Some, unfolded mirrors_def], of i] by (cases "item_of ?f ?items i") auto
    qed
    then show ?thesis using b False by (intro exI [of _ False]) (simp add: store_snapshot_def)
  qed
qed

lemma sync_one_knows:
  assumes "path \<in> set (client_resources c)" "good w" "\<And>p. p \<in> set (client_resources c) \<Longrightarrow> knows p st w"
  shows "\<exists>b st' w'. sync_one c path st w = (Inr b, st', w') \<and> later w w' \<and> good w'
    \<and> (\<forall>p \<in> set (client_resources c). knows p st' w')
    \<and> mirrors (ct_idField c) (items_at path w') path (cl_storage st')
    \<and> (\<forall>p i. p \<noteq> path \<or> \<not> b \<longrightarrow> stored p (cl_storage st') i = stored p (cl_storage st) i)"
proof -
  obtain r st1 w' where f: "fetch_collection c path st w = (r, st1, w')" by (metis prod_cases3)
  from snapshot [OF assms(1,2) assms(3) [OF assms(1)] f]
  have w': "later w w'" "good w'"
    and cases: "r = Inr (oget_or [] (cl_synced st) path, True) \<and> st1 = st \<and> oget (cl_synced st) path = Some (items_at path w')
      \<or> (\<exists>resp. r = Inr (items_at path w', False) \<and> st1 = remember (collection_url c path) resp st \<and> tagged resp (tag_at path w'))"
    by auto
  from cases show ?thesis
  proof
    assume same: "r = Inr (oget_or [] (cl_synced st) path, True) \<and> st1 = st \<and> oget (cl_synced st) path = Some (items_at path w')"
    then have "sync_one c path st w = (Inr False, st, w')" by (simp add: sync_one_def f)
    moreover have "mirrors (ct_idField c) (items_at path w') path (cl_storage st)"
      using assms(3) [OF assms(1)] same by (simp add: knows_def)
    ultimately show ?thesis using w' assms(3) knows_later by blast
  next
    assume "\<exists>resp. r = Inr (items_at path w', False) \<and> st1 = remember (collection_url c path) resp st \<and> tagged resp (tag_at path w')"
    then obtain resp where r: "r = Inr (items_at path w', False)" "st1 = remember (collection_url c path) resp st"
      "tagged resp (tag_at path w')" by blast
    define cache where "cache = cl_cache st1"
    have st1: "st1 = st\<lparr>cl_cache := cache\<rparr>" unfolding cache_def r(2) by (simp add: remember_def Let_def)
    have cached: "oget cache (collection_url c p) = oget (cl_cache st) (collection_url c p)" if "p \<in> set (client_resources c)" "p \<noteq> path" for p
      using url_inj [OF that(1) assms(1)] that(2) unfolding cache_def r(2) by (auto simp: remember_def Let_def)
    have tag: "truthy (va_etag v) \<and> tag_at path w' = va_etag v" if "oget cache (collection_url c path) = Some v" for v
      using that r(3) unfolding cache_def r(2) tagged_def by (auto simp: remember_def Let_def truthy_def split: if_splits option.splits)
    from snapshot_stored [OF w'(2) knows_later [OF assms(3) [OF assms(1)] w'(1)] refl, of cache]
    obtain b st' where st': "store_snapshot (ct_idField c) path (items_at path w') st1 = (Inr b, st')"
      "cl_cache st' = cache" "cl_synced st' = oset path (items_at path w') (cl_synced st)"
      "mirrors (ct_idField c) (items_at path w') path (cl_storage st')"
      "\<And>p i. p \<noteq> path \<or> \<not> b \<Longrightarrow> stored p (cl_storage st') i = stored p (cl_storage st) i"
      unfolding st1 by blast
    have "knows p st' w'" if "p \<in> set (client_resources c)" for p
    proof (cases "p = path")
      case True
      then show ?thesis
        using st'(2,3,4) tag w'(2) later_refl proper [OF w'(2)] unfolding knows_def by auto
    next
      case False
      have "knows p st' w' = knows p st w'" by (rule knows_cong) (use False st' cached [OF that False] in auto)
      then show ?thesis using knows_later [OF assms(3) [OF that] w'(1)] by simp
    qed
    moreover have "sync_one c path st w = (Inr b, st', w')" by (simp add: sync_one_def f r(1) st'(1))
    ultimately show ?thesis using w' st'(4,5) by blast
  qed
qed

lemma sync_routes_knows:
  assumes "set paths \<subseteq> set (client_resources c)" "distinct paths" "good w" "\<And>p. p \<in> set (client_resources c) \<Longrightarrow> knows p st w"
  shows "\<exists>new st' w'. sync_routes c paths changed st w = (Inr (changed @ new), st', w') \<and> later w w' \<and> good w'
    \<and> (\<forall>p \<in> set (client_resources c). knows p st' w')
    \<and> (\<forall>p \<in> set paths. \<exists>w1. later w w1 \<and> later w1 w' \<and> mirrors (ct_idField c) (items_at p w1) p (cl_storage st'))
    \<and> (\<forall>p i. p \<notin> set paths \<or> p \<notin> set new \<longrightarrow> stored p (cl_storage st') i = stored p (cl_storage st) i)"
  using assms
proof (induction paths arbitrary: changed st w)
  case Nil
  then show ?case using later_refl by auto
next
  case (Cons path paths)
  have path: "path \<in> set (client_resources c)" "path \<notin> set paths" and rest: "set paths \<subseteq> set (client_resources c)" "distinct paths"
    using Cons.prems(1,2) by auto
  from sync_one_knows [OF path(1) Cons.prems(3,4)] obtain b st1 w1 where one: "sync_one c path st w = (Inr b, st1, w1)"
    "later w w1" "good w1" "\<And>p. p \<in> set (client_resources c) \<Longrightarrow> knows p st1 w1"
    "mirrors (ct_idField c) (items_at path w1) path (cl_storage st1)"
    "\<And>p i. p \<noteq> path \<or> \<not> b \<Longrightarrow> stored p (cl_storage st1) i = stored p (cl_storage st) i" by blast
  let ?changed = "changed @ (if b then [path] else [])"
  from Cons.IH [OF rest one(3,4), of ?changed] obtain new st' w' where two: "sync_routes c paths ?changed st1 w1 = (Inr (?changed @ new), st', w')"
    "later w1 w'" "good w'" "\<forall>p \<in> set (client_resources c). knows p st' w'"
    "\<forall>p \<in> set paths. \<exists>w2. later w1 w2 \<and> later w2 w' \<and> mirrors (ct_idField c) (items_at p w2) p (cl_storage st')"
    "\<And>p i. p \<notin> set paths \<or> p \<notin> set new \<Longrightarrow> stored p (cl_storage st') i = stored p (cl_storage st1) i" by blast
  have run: "sync_routes c (path # paths) changed st w = (Inr (changed @ ((if b then [path] else []) @ new)), st', w')"
    using one(1) two(1) by simp
  have "mirrors (ct_idField c) (items_at path w1) path (cl_storage st')"
    using one(5) mirrors_cong [OF two(6)] path(2) by blast
  then have "\<exists>w2. later w w2 \<and> later w2 w' \<and> mirrors (ct_idField c) (items_at p w2) p (cl_storage st')" if "p \<in> set (path # paths)" for p
    using that two(2,5) one(2) later_trans by (metis set_ConsD)
  moreover have "stored p (cl_storage st') i = stored p (cl_storage st) i"
    if "p \<notin> set (path # paths) \<or> p \<notin> set ((if b then [path] else []) @ new)" for p i
    using that one(6) [of p i] two(6) [of p i] by (auto split: if_splits)
  ultimately show ?case using run two(3,4) later_trans [OF one(2) two(2)] by blast
qed

end

section \<open>Syncing again and again\<close>

text \<open>A client that starts empty, while the server moves on and the client syncs.\<close>

inductive syncing :: "('u, 'w) client \<Rightarrow> ('w \<Rightarrow> bool) \<Rightarrow> ('w \<Rightarrow> 'w \<Rightarrow> bool) \<Rightarrow> client_state \<Rightarrow> 'w \<Rightarrow> bool"
  for c :: "('u, 'w) client" and good :: "'w \<Rightarrow> bool" and later :: "'w \<Rightarrow> 'w \<Rightarrow> bool" where
  fresh: "good w \<Longrightarrow> syncing c good later new_client w"
| moved: "syncing c good later st w \<Longrightarrow> later w w' \<Longrightarrow> syncing c good later st w'"
| synced: "syncing c good later st w \<Longrightarrow> performSync c st w = (r, st', w') \<Longrightarrow> syncing c good later st' w'"

context honest_server
begin

lemma perform_knows:
  assumes "good w" "\<And>p. p \<in> set (client_resources c) \<Longrightarrow> knows p st w"
  shows "\<exists>changed st' w'. performSync c st w = (Inr changed, st', w') \<and> later w w' \<and> good w'
    \<and> (\<forall>p \<in> set (client_resources c). knows p st' w')
    \<and> (\<forall>p \<in> set (client_resources c). \<exists>w1. later w w1 \<and> later w1 w' \<and> mirrors (ct_idField c) (items_at p w1) p (cl_storage st'))
    \<and> (\<forall>p i. p \<notin> set changed \<longrightarrow> stored p (cl_storage st') i = stored p (cl_storage st) i)"
proof -
  have "distinct (client_resources c)"
    using collections by (auto simp: plain_collections_iff distinct_map)
  from sync_routes_knows [OF subset_refl this assms, of "[]"] show ?thesis
    unfolding performSync_def append_Nil by blast
qed

lemma knows_syncing: "syncing c good later st w \<Longrightarrow> good w \<and> (\<forall>p \<in> set (client_resources c). knows p st w)"
proof (induction rule: syncing.induct)
  case (fresh w)
  then show ?case by (simp add: knows_def new_client_def storage_collection_def oget_or_def)
next
  case (moved st w w')
  then show ?case using knows_later good_later by blast
next
  case (synced st w r st' w')
  then show ?case using perform_knows [of w st] by auto
qed

lemma sync_mirrored:
  assumes "syncing c good later st w" "performSync c st w = (r, st', w')"
  shows "\<exists>changed. r = Inr changed
    \<and> list_all (\<lambda>p. \<exists>w1. later w w1 \<and> later w1 w' \<and> mirrors (ct_idField c) (items_at p w1) p (cl_storage st')) (client_resources c)
    \<and> list_all (\<lambda>p. p \<in> set changed \<or> stored p (cl_storage st') = stored p (cl_storage st)) (client_resources c)"
  using perform_knows [of w st] knows_syncing [OF assms(1)] assms(2) by (auto simp: list_all_iff fun_eq_iff)

end

end
