(* ===== verification/Sy_Records.thy ===== *)
theory Sy_Records
  imports Sy_Mock
begin

text \<open>
  What the mock server's store holds, whatever requests come: records with their own ids, whose
  text can be read back.
\<close>

section \<open>What the server stores\<close>

lemma json_ok_obj: "json_ok (JObj m) \<longleftrightarrow> owf m \<and> (\<forall>k v. (k, v) \<in> set m \<longrightarrow> json_ok v)"
  by (auto simp: list_all_iff)

lemma json_ok_spread: "json_ok (JObj a) \<Longrightarrow> json_ok (JObj b) \<Longrightarrow> json_ok (JObj (spread a b))"
  unfolding json_ok_obj by (auto dest: set_spread)

lemma distinct_indices: "distinct (map nat_str ns) \<longleftrightarrow> distinct ns"
  by (simp add: distinct_map inj_on_def) (metis nat_str_inj)

lemma json_ok_entries: "(\<And>v. j = Some v \<Longrightarrow> json_ok v) \<Longrightarrow> json_ok (JObj (own_entries j))"
proof -
  assume j: "\<And>v. j = Some v \<Longrightarrow> json_ok v"
  have indexed: "json_ok (JObj (zip (map nat_str [0..<length xs]) xs))" if "list_all json_ok xs" for xs
    using that by (auto simp: distinct_indices list_all_iff dest!: set_zip_rightD)
  show ?thesis
  proof (cases j)
    case (Some v)
    then show ?thesis
      using j [OF Some] indexed by (cases v) (auto simp: own_entries_def list_all_iff distinct_indices dest!: set_zip_rightD)
  qed (simp add: own_entries_def)
qed

lemma json_ok_member: "json_ok (JObj m) \<Longrightarrow> oget m k = Some v \<Longrightarrow> json_ok v"
  unfolding json_ok_obj by (meson map_of_SomeD)

lemma json_ok_elements: "json_ok (JObj m) \<Longrightarrow> x \<in> set (elements (oget m k)) \<Longrightarrow> json_ok x"
proof -
  assume m: "json_ok (JObj m)" and x: "x \<in> set (elements (oget m k))"
  then obtain xs where xs: "oget m k = Some (JArr xs)" "x \<in> set xs" by (auto simp: elements_def split: option.splits json.splits)
  show ?thesis using json_ok_member [OF m xs(1)] xs(2) by (simp add: list_all_iff)
qed

lemma json_ok_members: "json_ok (JObj m) \<Longrightarrow> (i, x) \<in> set (members (oget m k)) \<Longrightarrow> json_ok x"
proof -
  assume m: "json_ok (JObj m)" and x: "(i, x) \<in> set (members (oget m k))"
  then obtain ps where ps: "oget m k = Some (JObj ps)" "(i, x) \<in> set ps" by (auto simp: members_def split: option.splits json.splits)
  show ?thesis using json_ok_member [OF m ps(1)] ps(2) unfolding json_ok_obj by blast
qed

lemma thread_keeps:
  assumes "\<And>x a n. x \<in> set xs \<Longrightarrow> P a \<Longrightarrow> P (fst (f x a n))" "P acc"
  shows "P (fst (thread f xs acc n))"
  using assms
proof (induction xs arbitrary: acc n)
  case (Cons x xs)
  obtain acc' n' where x: "f x acc n = (acc', n')" by fastforce
  have "P acc'" using Cons.prems(1) [of x acc n] Cons.prems(2) x by simp
  then have "P (fst (thread f xs acc' n'))" by (rule Cons.IH [rotated]) (use Cons.prems(1) in auto)
  then show ?case by (simp add: thread_def x)
qed (simp add: thread_def)

lemma generated_ok: "json_ok s \<Longrightarrow> json_ok (fst (generateFromSchema s n))"
proof (induction s arbitrary: n rule: measure_induct_rule [of size])
  case (less s)
  show ?case
  proof (cases s)
    case (JObj m)
    have ok: "json_ok (JObj m)" using less.prems JObj by simp
    have sub: "json_ok (fst (generateFromSchema x k))" if "json_ok x" "size x < size (JObj m)" for x k
      using less.IH [of x k] that JObj by simp
    have element: "json_ok (fst (generateFromSchema x k))" if "x \<in> set (elements (oget m a))" for x k a
      by (rule sub) (use json_ok_elements [OF ok that] elements_size [OF that] in simp_all)
    have first: "json_ok (fst (generateFromSchema (hd (elements (oget m a))) k))" if "elements (oget m a) \<noteq> []" for k a
      by (rule element [of _ a]) (use that in simp)
    have merged: "json_ok (JObj (fst (thread (\<lambda>sub merged n. let (v, n) = generateFromSchema sub n
        in (if is_object (Some v) then spread merged (own_entries (Some v)) else merged, n)) (elements (oget m a)) [] k)))" for k a
    proof (rule thread_keeps [where P = "\<lambda>b. json_ok (JObj b)"])
      fix x b j assume x: "x \<in> set (elements (oget m a))" and b: "json_ok (JObj b)"
      have "json_ok (JObj (spread b (own_entries (Some (fst (generateFromSchema x j))))))"
        by (intro json_ok_spread b json_ok_entries) (use element [OF x] in auto)
      then show "json_ok (JObj (fst (let (v, n) = generateFromSchema x j
          in (if is_object (Some v) then spread b (own_entries (Some v)) else b, n))))"
        using b by (simp add: Let_def split_beta)
    qed simp
    have properties: "json_ok (JObj (fst (thread (\<lambda>(k, s) acc n. let (v, n) = generateFromSchema s n in (oset k v acc, n))
        (members (oget m a)) [] k)))" for k a
    proof (rule thread_keeps [where P = "\<lambda>b. json_ok (JObj b)"])
      fix x b j assume x: "x \<in> set (members (oget m a))" and b: "json_ok (JObj b)"
      obtain i y where y: "x = (i, y)" by fastforce
      have "json_ok (fst (generateFromSchema y j))"
        by (rule sub) (use json_ok_members [OF ok] members_size x y in auto)
      then have "json_ok (JObj (oset i (fst (generateFromSchema y j)) b))" by (rule json_ok_oset [OF b])
      then show "json_ok (JObj (fst ((\<lambda>(k, s) acc n. let (v, n) = generateFromSchema s n in (oset k v acc, n)) x b j)))"
        by (simp add: y Let_def split_beta del: json_ok.simps)
    qed simp
    have chosen: "json_ok (hd (elements (oget m a)))" if "elements (oget m a) \<noteq> []" for a
      by (rule json_ok_elements [OF ok, of _ a]) (use that in simp)
    have minimum: "json_ok (case or_else (oget m a) None of Some v \<Rightarrow> v | None \<Rightarrow> JNum 1)" for a
      using json_ok_member [OF ok, of a] by (auto simp: or_else_def split: option.split)
    have items: "json_ok (fst (case oget m a of None \<Rightarrow> (JArr [JNull], k)
        | Some s \<Rightarrow> (let (v, n) = generateFromSchema s k in (JArr [v], n))))" for a k
      using sub [OF json_ok_member [OF ok]] oget_size [of m a] by (auto simp: Let_def split_beta split: option.split)
    have texts: "json_ok (fst (generateString f k))" for f k by (simp add: generateString_def)
    have object: "json_ok (fst (let (ps, n) = x in (JObj ps, n)))" if "json_ok (JObj (fst x))" for x :: "(string, json) omap \<times> nat"
      using that by (simp add: Let_def split_beta)
    have choice: "json_ok (fst (if b then x else y))" if "b \<Longrightarrow> json_ok (fst x)" "json_ok (fst y)" for b and x y :: "json \<times> nat"
      using that by simp
    show ?thesis
    proof (cases "oget m ''example''")
      case None
      show ?thesis
        unfolding JObj generateFromSchema.simps None option.case
        by (intro choice object merged properties texts items first; (erule chosen | rule minimum | simp add: chosen minimum))
    next
      case (Some v)
      then show ?thesis using json_ok_member [OF ok Some] by (simp add: JObj)
    qed
  qed auto
qed

text \<open>A record holds its id, and its text can be read back.\<close>

definition own_record :: "string \<Rightarrow> json \<Rightarrow> bool" where
  "own_record i v \<longleftrightarrow> json_ok v \<and> (\<exists>m. v = JObj m \<and> oget m ''id'' = Some (JStr i))"

definition own_records :: "resource_store \<Rightarrow> bool" where
  "own_records st \<longleftrightarrow> (\<forall>r. owf (the_collection r st) \<and> (\<forall>i v. (i, v) \<in> set (the_collection r st) \<longrightarrow> own_record i v))"

lemma own_recordI: "json_ok (JObj m) \<Longrightarrow> own_record i (JObj (oset ''id'' (JStr i) m))"
  by (simp add: own_record_def json_ok_oset del: json_ok.simps(2))

lemma collection_touched [simp]: "the_collection p (touch_collection r st) = the_collection p st"
  by (auto simp: the_collection_def touch_collection_def oget_or_def split: option.split)

lemma collection_put: "the_collection p (put_resource d r i v st) = (if p = r then oset i v (the_collection r st) else the_collection p st)"
  by (simp add: put_resource_def touch_def the_collection_def oget_or_def)

lemma collection_deleted: "the_collection p (snd (delete_resource_of d r i st)) = (if p = r then odel i (the_collection r st) else the_collection p st)"
proof (cases "oget (the_collection r st) i")
  case None
  then have "odel i (the_collection r st) = the_collection r st" by (simp add: map_of_eq_None_iff)
  then show ?thesis using None by (simp add: delete_resource_of_def Let_def)
next
  case (Some v)
  then show ?thesis by (simp add: delete_resource_of_def Let_def touch_def)
      (simp add: the_collection_def oget_or_def touch_collection_def split: option.split)
qed

lemma own_touched [simp]: "own_records (touch_collection r st) = own_records st"
  by (simp add: own_records_def)

lemma own_put: "own_records st \<Longrightarrow> own_record i v \<Longrightarrow> own_records (put_resource d r i v st)"
  unfolding own_records_def collection_put by (auto dest: set_oset)

lemma own_deleted: "own_records st \<Longrightarrow> own_records (snd (delete_resource_of d r i st))"
  unfolding own_records_def collection_deleted by (auto dest: set_odel)

definition fits :: "json option \<Rightarrow> bool" where
  "fits j \<longleftrightarrow> (\<forall>v. j = Some v \<longrightarrow> json_ok v)"

lemma fits_simps [simp]: "fits None" "fits (Some v) = json_ok v"
  by (simp_all add: fits_def)

lemma fits_member: "fits j \<Longrightarrow> fits (member k j)"
  unfolding fits_def member_def using json_ok_member by (auto split: option.splits json.splits simp del: json_ok.simps)

lemma fits_entries: "fits j \<Longrightarrow> json_ok (JObj (own_entries j))"
  unfolding fits_def by (rule json_ok_entries) simp

lemma generate_ok: "fits schema \<Longrightarrow> generate schema n = (v, k) \<Longrightarrow> json_ok v"
  using generated_ok by (auto simp: generate_def split: option.splits) (metis fst_conv)

lemma fits_schema: "fits operation \<Longrightarrow> fits (item_schema (the operation) codes)" if "operation \<noteq> None"
proof -
  assume op: "fits operation"
  have "fits (responseSchemaFor (the operation) codes)"
    unfolding responseSchemaFor_def
    using fits_member op that by (auto split: option.split simp: find_Some_iff fits_def [of "Some _"])
  then show ?thesis using fits_member by (simp add: item_schema_def Let_def)
qed

section \<open>Every request keeps them\<close>

lemma fake_record_own:
  assumes "fits schema" "\<And>v. json_ok v \<Longrightarrow> json_ok (JObj (other v))" "fake_record e schema other s = (m, i, s')"
  shows "own_record i (JObj m)"
proof -
  obtain v n where v: "generate schema (ms_strings s) = (v, n)" by fastforce
  have "json_ok v" by (rule generate_ok [OF assms(1) v])
  then have "json_ok (JObj (if is_object (Some v) then own_entries (Some v) else other v))"
    using assms(2) json_ok_entries [of "Some v"] by auto
  from own_recordI [OF this] show ?thesis using assms(3) unfolding fake_record_def v Let_def prod.case by (auto simp only: prod.inject)
qed

lemma own_seed: "fits schema \<Longrightarrow> own_records (ms_store s) \<Longrightarrow> own_records (ms_store (seed e d r schema n s))"
proof (induction n arbitrary: s)
  case (Suc n)
  obtain m i s1 where f: "fake_record e schema (\<lambda>_. []) s = (m, i, s1)" by (metis prod_cases3)
  have "own_record i (JObj m)" by (rule fake_record_own [OF Suc.prems(1) _ f]) simp
  then have "own_records (put_resource d r i (JObj m) (ms_store s1))"
    using Suc.prems(2) fake_record_store [OF f] by (simp add: own_put)
  then show ?case using Suc.IH [of "s1\<lparr>ms_store := put_resource d r i (JObj m) (ms_store s1)\<rparr>"] Suc.prems(1) by (simp add: f)
qed simp

lemma own_get: "own_records st \<Longrightarrow> get_resource r i st = (v, st') \<Longrightarrow> fits v \<and> own_records st'"
proof -
  assume st: "own_records st" and g: "get_resource r i st = (v, st')"
  have "json_ok x" if "oget (the_collection r st) i = Some x" for x
    using st map_of_SomeD [OF that] by (auto simp: own_records_def own_record_def)
  then show ?thesis using g st by (auto simp: get_resource_def fits_def)
qed

lemma own_item:
  assumes "own_records (ms_store s)" "fits body" "handleItemRequest d verb i r body s = (reply, s')"
  shows "own_records (ms_store s')"
proof -
  let ?c = "collectionPath r"
  obtain v st where g: "get_resource ?c i (ms_store s) = (v, st)" by fastforce
  from own_get [OF assms(1) g] have v: "fits v" "own_records st" by auto
  have "own_record i (JObj (oset ''id'' (JStr i) (spread (own_entries v) (own_entries body))))"
    by (intro own_recordI json_ok_spread fits_entries v assms(2))
  moreover have "own_record i (JObj (oset ''id'' (JStr i) (spread [] (own_entries body))))"
    by (intro own_recordI json_ok_spread fits_entries assms(2)) simp
  ultimately have put: "own_records (put_resource d ?c i (JObj (oset ''id'' (JStr i)
      (if b then spread (own_entries v) (own_entries body) else spread [] (own_entries body)))) st)" for b
    using own_put [OF v(2)] by simp
  have deleted: "own_records st'" if "delete_resource_of d ?c i (ms_store s) = (b, st')" for b st'
    using own_deleted [OF assms(1), of d ?c i] that by simp
  show ?thesis
    using assms(3) v(2) put [of True] put [of False] assms(1) deleted
    unfolding handleItemRequest_def Let_def g prod.case by (auto split: if_splits prod.splits)
qed

lemma own_collection:
  assumes "own_records (ms_store s)" "fits body" "json_ok operation" "handleCollectionRequest e d hs verb r operation body s = (reply, s')"
  shows "own_records (ms_store s')"
proof -
  let ?c = "collectionPath r"
  have schema: "fits (item_schema operation codes)" for codes
    using fits_schema [of "Some operation" codes] assms(3) by simp
  have seeded: "own_records (ms_store (seedIfEmpty e d r operation s))"
    by (auto simp: seedIfEmpty_def intro: own_seed schema assms(1))
  obtain v n where g: "generate (item_schema operation [''201'', ''200'']) (ms_strings s) = (v, n)" by fastforce
  have "json_ok v" by (rule generate_ok [OF schema g])
  then have posted: "own_records (put_resource d ?c i (JObj (oset ''id'' (JStr i)
      (spread (if is_object (Some v) then own_entries (Some v) else []) (own_entries body)))) (ms_store s))" for i
    using json_ok_entries [of "Some v"]
    by (intro own_put assms(1) own_recordI json_ok_spread fits_entries assms(2)) auto
  show ?thesis
    using assms(4) seeded posted assms(1)
    by (auto simp: handleCollectionRequest_def g list_resource_def Let_def split: if_splits)
qed

lemma own_request:
  assumes "json_ok document" "own_records (ms_store s)" "handleRequest e document req s = (reply, s')"
  shows "own_records (ms_store s')"
proof -
  have doc: "fits (Some document)" using assms(1) by simp
  have body: "fits (readJsonBody x)" for x
    using json_parse_ok by (auto simp: readJsonBody_def fits_def)
  have same: ?thesis if "ms_store s' = ms_store s" using that assms(2) by simp
  have list: ?thesis if "handlePaginatedListRequest e template operation scheme url s = (reply, s')" for template operation scheme url
  proof -
    obtain items s1 where items: "list_items e template (itemSchemaFor (responseSchemaFor operation [''200'']) (Some scheme)) s = (items, s1)"
      by fastforce
    from list_items_store [OF items] that show ?thesis
      by (intro same) (auto simp: handlePaginatedListRequest_def items Let_def split: prod.splits)
  qed
  have example: ?thesis if "respondWithExample operation s = (reply, s')" for operation
    using that by (intro same) (auto simp: respondWithExample_def Let_def split: if_splits option.splits prod.splits)
  have item: ?thesis if "handleItemRequest d verb i r b s = (reply, s')" "fits b" for d verb i r b
    by (rule own_item [OF assms(2) that(2,1)])
  have collection: ?thesis
    if "handleCollectionRequest e d hs verb r y b s = (reply, s')" "fits b" "json_ok y" for d hs verb r y b
    by (rule own_collection [OF assms(2) that(2,3,1)])
  have matched: ?thesis if h: "handleMatched e document req rm s = (reply, s')" for rm
  proof -
    define verb where "verb = to_lower (hr_method req)"
    define operation where "operation = member verb (member (rm_template rm) (member ''paths'' (Some document)))"
    define b where "b = (if verb = ''post'' \<or> verb = ''put'' \<or> verb = ''patch'' then readJsonBody (hr_body req) else None)"
    have op: "fits operation" unfolding operation_def by (intro fits_member doc)
    have b: "fits b" using body by (simp add: b_def)
    have "truthy_json operation \<Longrightarrow> operation \<noteq> None" by (cases operation) auto
    then show ?thesis
      using h op b unfolding handleMatched_def Let_def
      unfolding verb_def [symmetric] unfolding operation_def [symmetric] b_def [symmetric]
      by (auto split: if_splits option.splits prod.splits intro: list example item collection same)
  qed
  show ?thesis
    using assms(3) unfolding handleRequest_def by (auto split: sum.splits option.splits intro: matched same)
qed

lemma own_served: "json_ok document \<Longrightarrow> own_records (ms_store s) \<Longrightarrow> own_records (ms_store (serve e document reqs s))"
proof (induction reqs arbitrary: s)
  case (Cons req reqs)
  obtain reply s1 where h: "handleRequest e document req s = (reply, s1)" by fastforce
  have "serve e document (req # reqs) s = serve e document reqs s1" by (simp add: serve_def h)
  then show ?case using Cons.IH [OF Cons.prems(1) own_request [OF Cons.prems h]] by simp
qed (simp add: serve_def)

lemma own_new: "own_records (ms_store new_server)"
  by (simp add: own_records_def new_server_def new_store_def the_collection_def oget_or_def)

end
