(* ===== verification/Sy_Honest.thy ===== *)
theory Sy_Honest
  imports Sy_Synced Sy_Records
begin

text \<open>
  The mock server of \<open>mock-server/server.ts\<close> as the honest server of the client of
  \<open>client/client.ts\<close>: a GET of a collection answers with its records and their entity tag, or
  with 304 to the tag it has now, and a tag never comes back for different records.
\<close>

section \<open>The mock server behind \<open>fetch\<close>\<close>

definition get_request :: "'u \<Rightarrow> headers \<Rightarrow> 'u http_request" where
  "get_request x hs = \<lparr>hr_method = ''GET'', hr_url = x, hr_headers = lowerCaseHeaders hs, hr_body = [], hr_date = ''Thu, 01 Jan 1970 00:00:00 GMT''\<rparr>"

definition mock_fetch :: "'u mock_env \<Rightarrow> json \<Rightarrow> 'u \<Rightarrow> string \<Rightarrow> headers \<Rightarrow> mock_server \<Rightarrow> (string + response) \<times> mock_server" where
  "mock_fetch e document base url hs s =
     (case resolve_url (me_url e) base url of
        None \<Rightarrow> (Inl ''TypeError'', s)
      | Some x \<Rightarrow>
          let (reply, s') = handleRequest e document (get_request x hs) s
          in (Inr \<lparr>rs_status = rp_status reply, rs_headers = lowerCaseHeaders (rp_headers reply),
                   rs_body = (case rp_body reply of Some v \<Rightarrow> json_text v | None \<Rightarrow> [])\<rparr>, s'))"

definition mock_client :: "'u mock_env \<Rightarrow> json \<Rightarrow> 'u \<Rightarrow> ('u, mock_server) client" where
  "mock_client e document base =
     \<lparr>ct_document = document, ct_urls = me_url e, ct_base = base, ct_idField = ''id'', ct_fetch = mock_fetch e document base\<rparr>"

definition served :: "'u mock_env \<Rightarrow> json \<Rightarrow> mock_server \<Rightarrow> bool" where
  "served e document s \<longleftrightarrow> (\<exists>reqs. s = serve e document reqs new_server)"

definition serves :: "'u mock_env \<Rightarrow> json \<Rightarrow> mock_server \<Rightarrow> mock_server \<Rightarrow> bool" where
  "serves e document s s' \<longleftrightarrow> (\<exists>reqs. s' = serve e document reqs s)"

definition records_at :: "string \<Rightarrow> mock_server \<Rightarrow> json list" where
  "records_at path s = map snd (the_collection path (ms_store s))"

text \<open>Every collection's URL leads to the handler of that collection.\<close>

definition routed :: "'u mock_env \<Rightarrow> json \<Rightarrow> 'u \<Rightarrow> string \<Rightarrow> bool" where
  "routed e document base path \<longleftrightarrow>
     (case resolve_url (me_url e) base (collection_url (mock_client e document base) path) of
        None \<Rightarrow> False
      | Some x \<Rightarrow>
          findRoute (okeys (members (member ''paths'' (Some document)))) (pathname (me_url e) x)
            = Inr (Some \<lparr>rm_template = path, rm_params = []\<rparr>)
          \<and> sync_operation (mock_client e document base) path \<noteq> None
          \<and> (case List.find (\<lambda>r. collectionPath r = path \<or> itemPath r = path) (discoverResources (the (member ''paths'' (Some document)))) of
               None \<Rightarrow> False
             | Some r \<Rightarrow> itemPath r \<noteq> path \<and> collectionPath r = path))"

definition mock_ready :: "'u mock_env \<Rightarrow> json \<Rightarrow> 'u \<Rightarrow> bool" where
  "mock_ready e document base \<longleftrightarrow>
     json_ok document \<and> plain_collections (mock_client e document base)
     \<and> list_all (routed e document base) (client_resources (mock_client e document base))"

section \<open>Serving a collection\<close>

lemma serve_append: "serve e document (xs @ ys) s = serve e document ys (serve e document xs s)"
  by (simp add: serve_def)

lemma serve_one: "handleRequest e document req s = (reply, s') \<Longrightarrow> serves e document s s'"
  unfolding serves_def by (intro exI [of _ "[req]"]) (simp add: serve_def)

lemma serves_refl: "serves e document s s"
  unfolding serves_def by (intro exI [of _ "[]"]) (simp add: serve_def)

lemma serves_trans: "serves e document s1 s2 \<Longrightarrow> serves e document s2 s3 \<Longrightarrow> serves e document s1 s3"
  unfolding serves_def by (metis serve_append)

lemma served_later: "served e document s \<Longrightarrow> serves e document s s' \<Longrightarrow> served e document s'"
  unfolding served_def serves_def by (metis serve_append)

lemma versioned_served: "served e document s \<Longrightarrow> versioned (ms_store s)"
proof -
  assume "served e document s"
  then obtain ops where "ms_store s = store_run ops new_store"
    using stored_by_serve [of new_server e document] by (auto simp: served_def stored_by_def new_server_def)
  moreover have "versioned new_store" by (simp add: versioned_def new_store_def)
  ultimately show ?thesis using versioned_run by simp
qed

lemma tag_honest:
  assumes "served e document s" "serves e document s s'" "etag r (ms_store s) = etag r (ms_store s')"
  shows "records_at r s' = records_at r s"
proof -
  obtain ops where ops: "ms_store s' = store_run ops (ms_store s)"
    using assms(2) stored_by_serve [of s e document] by (auto simp: serves_def stored_by_def)
  have "version r (ms_store s') = version r (ms_store s)"
    using etag_version [OF versioned_served [OF assms(1)] versioned_served [OF served_later [OF assms(1,2)]] assms(3)] by simp
  then show ?thesis using store_run_version [of r "ms_store s" ops] by (auto simp: ops records_at_def)
qed

lemma records_own:
  assumes "json_ok document" "served e document s"
  shows "own_records (ms_store s)"
  using assms own_served own_new by (auto simp: served_def)

lemma records_proper:
  assumes "json_ok document" "served e document s"
  shows "proper_items ''id'' (records_at r s) \<and> json_ok (JArr (records_at r s))"
proof -
  let ?c = "the_collection r (ms_store s)"
  have own: "owf ?c" "\<And>i v. (i, v) \<in> set ?c \<Longrightarrow> own_record i v"
    using records_own [OF assms] by (auto simp: own_records_def)
  have "id_of ''id'' v = i" if "(i, v) \<in> set ?c" for i v
    using own(2) [OF that] by (auto simp: own_record_def id_of_def)
  then have "map (id_of ''id'') (records_at r s) = map fst ?c" by (auto simp: records_at_def)
  then have "distinct (map (id_of ''id'') (records_at r s))" using own(1) by simp
  moreover have "isRecord (Some v) \<and> json_ok v" if "v \<in> set (records_at r s)" for v
    using that own(2) by (fastforce simp: records_at_def own_record_def)
  ultimately show ?thesis by (simp add: proper_items_def list_all_iff)
qed

text \<open>The headers of a collection's answer, and of the request for it.\<close>

lemma lower_names:
  "to_lower ''ETag'' = ''etag''" "to_lower ''Last-Modified'' = ''last-modified''" "to_lower ''Content-Type'' = ''content-type''"
  "to_lower ''If-None-Match'' = ''if-none-match''" "to_lower ''If-Modified-Since'' = ''if-modified-since''"
  by code_simp+

lemma etag_truthy: "etag r st = Some t \<Longrightarrow> truthy (Some t)"
  by (auto simp: etag_def truthy_def quoted_def)

lemma answer_tagged:
  "tagged \<lparr>rs_status = n, rs_headers = lowerCaseHeaders (spread [(''Content-Type'', ''application/json'')]
     (conditionalResponseHeaders (etag r st) (lastModified r st))), rs_body = b\<rparr> (etag r st)"
proof (cases "oget (meta st) r")
  case None
  then show ?thesis by (simp add: tagged_def etag_def lastModified_def conditionalResponseHeaders_def truthy_def lowerCaseHeaders_def lower_names)
next
  case (Some c)
  then show ?thesis
    by (auto simp: tagged_def etag_def lastModified_def conditionalResponseHeaders_def truthy_def lowerCaseHeaders_def lower_names quoted_def)
qed

lemma not_modified:
  assumes "\<And>v. cached = Some v \<Longrightarrow> truthy (va_etag v)"
  shows "isNotModified e (lowerCaseHeaders (conditional_headers cached)) tag modified
    \<longleftrightarrow> (\<exists>v. cached = Some v \<and> va_etag v = tag)"
proof (cases cached)
  case None
  then show ?thesis by (simp add: isNotModified_def conditional_headers_def lowerCaseHeaders_def truthy_def)
next
  case (Some v)
  then have "truthy (va_etag v)" using assms by simp
  then obtain t where t: "va_etag v = Some t" "truthy (Some t)" by (cases "va_etag v") (auto simp: truthy_def)
  have "oget (lowerCaseHeaders (conditional_headers (Some v))) ''if-none-match'' = Some t"
    using t by (auto simp: conditional_headers_def lowerCaseHeaders_def lower_names)
  then show ?thesis using Some t by (auto simp: isNotModified_def)
qed

lemma get_collection:
  assumes "mock_ready e document base" "path \<in> set (client_resources (mock_client e document base))"
    and "mock_fetch e document base (collection_url (mock_client e document base) path) hs s = (r, s')"
  shows "serves e document s s' \<and>
    r = Inr (if isNotModified e (lowerCaseHeaders hs) (etag path (ms_store s')) (lastModified path (ms_store s'))
      then \<lparr>rs_status = 304, rs_headers = lowerCaseHeaders (conditionalResponseHeaders (etag path (ms_store s')) (lastModified path (ms_store s'))), rs_body = []\<rparr>
      else \<lparr>rs_status = 200, rs_headers = lowerCaseHeaders (spread [(''Content-Type'', ''application/json'')]
          (conditionalResponseHeaders (etag path (ms_store s')) (lastModified path (ms_store s')))),
        rs_body = json_text (JArr (records_at path s'))\<rparr>)"
proof -
  let ?c = "mock_client e document base" and ?paths = "member ''paths'' (Some document)"
  have routed: "routed e document base path" using assms(1,2) by (simp add: mock_ready_def list_all_iff)
  then obtain x where x: "resolve_url (me_url e) base (collection_url ?c path) = Some x"
    "findRoute (okeys (members ?paths)) (pathname (me_url e) x) = Inr (Some \<lparr>rm_template = path, rm_params = []\<rparr>)"
    "sync_operation ?c path \<noteq> None"
    by (auto simp: routed_def split: option.splits)
  from routed obtain rt where rt: "List.find (\<lambda>r. collectionPath r = path \<or> itemPath r = path) (discoverResources (the ?paths)) = Some rt"
    "itemPath rt \<noteq> path" "collectionPath rt = path"
    by (auto simp: routed_def split: option.splits)
  obtain op where op: "sync_operation ?c path = Some op" using x(3) by blast
  then have get: "member ''get'' (member path ?paths) = Some op" "truthy_json (Some op)"
    by (auto simp: sync_operation_def mock_client_def Let_def split: if_splits)
  have plain: "resolveEffectiveScheme document op = None"
    using assms(1,2) op by (auto simp: mock_ready_def plain_collections_iff list_all_iff mock_client_def)
  have lower: "to_lower ''GET'' = ''get''" by code_simp
  let ?rq = "get_request x hs"
  have fetch: "r = Inr \<lparr>rs_status = rp_status rep, rs_headers = lowerCaseHeaders (rp_headers rep),
      rs_body = (case rp_body rep of Some v \<Rightarrow> json_text v | None \<Rightarrow> [])\<rparr>" "s'' = s'"
    if "handleRequest e document ?rq s = (rep, s'')" for rep s''
    using assms(3) that by (auto simp: mock_fetch_def x(1))
  have handled: "handleRequest e document ?rq s = handleCollectionRequest e (hr_date ?rq) (lowerCaseHeaders hs) ''get'' rt op None s"
    unfolding handleRequest_def x(2) handleMatched_def Let_def
    using rt by (simp add: get_request_def x(2) lower get plain)
  define s1 where "s1 = seedIfEmpty e (hr_date ?rq) rt op s"
  define s2 where "s2 = s1\<lparr>ms_store := touch_collection path (ms_store s1)\<rparr>"
  have same: "etag path (ms_store s2) = etag path (ms_store s1)" "lastModified path (ms_store s2) = lastModified path (ms_store s1)"
    "records_at path s2 = records_at path s1"
    by (auto simp: s2_def etag_def lastModified_def records_at_def touch_collection_def the_collection_def oget_or_def split: option.split)
  let ?tag = "etag path (ms_store s1)" and ?modified = "lastModified path (ms_store s1)"
  show ?thesis
  proof (cases "isNotModified e (lowerCaseHeaders hs) ?tag ?modified")
    case True
    then have h: "handleRequest e document ?rq s = (\<lparr>rp_status = 304, rp_headers = conditionalResponseHeaders ?tag ?modified, rp_body = None\<rparr>, s1)"
      by (simp add: handled handleCollectionRequest_def Let_def rt(3) flip: s1_def)
    then show ?thesis using fetch [OF h] serve_one [OF h] True by auto
  next
    case False
    then have h: "handleRequest e document ?rq s = (sendJson 200 (JArr (records_at path s1)) (conditionalResponseHeaders ?tag ?modified), s2)"
      by (simp add: handled handleCollectionRequest_def Let_def rt(3) list_resource_def s2_def records_at_def flip: s1_def)
    then show ?thesis using fetch [OF h] serve_one [OF h] False same by (auto simp: sendJson_def)
  qed
qed

lemma mock_honest:
  assumes "mock_ready e document base"
  shows "honest_server (mock_client e document base) (served e document) (serves e document) records_at (\<lambda>path s. etag path (ms_store s))"
proof
  have doc: "json_ok document" using assms by (simp add: mock_ready_def)
  show "plain_collections (mock_client e document base)" using assms by (simp add: mock_ready_def)
  show "serves e document w w" for w by (rule serves_refl)
  show "serves e document w1 w2 \<Longrightarrow> serves e document w2 w3 \<Longrightarrow> serves e document w1 w3" for w1 w2 w3 by (rule serves_trans)
  show "served e document w \<Longrightarrow> serves e document w w' \<Longrightarrow> served e document w'" for w w' by (rule served_later)
  show "served e document w \<Longrightarrow> serves e document w w' \<Longrightarrow> etag path (ms_store w) = Some t \<Longrightarrow> etag path (ms_store w') = Some t
      \<Longrightarrow> records_at path w' = records_at path w" for w w' path t
    by (rule tag_honest) simp_all
  show "served e document w \<Longrightarrow> proper_items (ct_idField (mock_client e document base)) (records_at path w)" for w path
    using records_proper [OF doc, of e w path] by (simp add: mock_client_def)
  fix path w cached r w'
  assume path: "path \<in> set (client_resources (mock_client e document base))" and w: "served e document w"
    and cached: "\<And>v. cached = Some v \<Longrightarrow> truthy (va_etag v)"
    and f: "ct_fetch (mock_client e document base) (collection_url (mock_client e document base) path) (conditional_headers cached) w = (r, w')"
  have "mock_fetch e document base (collection_url (mock_client e document base) path) (conditional_headers cached) w = (r, w')"
    using f by (simp add: mock_client_def)
  note got = get_collection [OF assms path this]
  have nm: "isNotModified e (lowerCaseHeaders (conditional_headers cached)) (etag path (ms_store w')) (lastModified path (ms_store w'))
      \<longleftrightarrow> (\<exists>v. cached = Some v \<and> va_etag v = etag path (ms_store w'))"
    by (rule not_modified) (rule cached)
  from got have later: "serves e document w w'" and
    r: "r = Inr (if \<exists>v. cached = Some v \<and> va_etag v = etag path (ms_store w')
      then \<lparr>rs_status = 304, rs_headers = lowerCaseHeaders (conditionalResponseHeaders (etag path (ms_store w')) (lastModified path (ms_store w'))), rs_body = []\<rparr>
      else \<lparr>rs_status = 200, rs_headers = lowerCaseHeaders (spread [(''Content-Type'', ''application/json'')]
          (conditionalResponseHeaders (etag path (ms_store w')) (lastModified path (ms_store w')))),
        rs_body = json_text (JArr (records_at path w'))\<rparr>)"
    unfolding nm by blast+
  have "json_parse (json_text (JArr (records_at path w'))) = Some (JArr (records_at path w'))"
    by (rule json_parse_text) (use records_proper [OF doc served_later [OF w later]] in blast)
  then show "serves e document w w' \<and> (\<exists>resp. r = Inr resp \<and>
      (rs_status resp = 200 \<and> json_parse (rs_body resp) = Some (JArr (records_at path w')) \<and> tagged resp (etag path (ms_store w'))
       \<or> rs_status resp = 304 \<and> (\<exists>v. cached = Some v \<and> va_etag v = etag path (ms_store w'))))"
    using later r answer_tagged by (simp del: json_text.simps)
qed

section \<open>A client in sync\<close>

definition pets_home :: plain_url where
  "pets_home = \<lparr>pu_host = ''h'', pu_path = [], pu_query = [], pu_hash = None\<rparr>"

definition pets_client :: "(plain_url, mock_server) client" where
  "pets_client = mock_client sample_mock sample_document pets_home"

lemma pets_ready: "mock_ready sample_mock sample_document pets_home"
  by code_simp

interpretation mock_pets: honest_server pets_client "served sample_mock sample_document" "serves sample_mock sample_document"
  records_at "\<lambda>path s. etag path (ms_store s)"
  unfolding pets_client_def by (rule mock_honest [OF pets_ready])

text \<open>
  C33. A client that starts empty, in whatever way the server moves on between and during its
  syncs, is in sync after each of them: no sync fails, and for every collection the local
  storage then has exactly the items, under their ids, that the collection had at one moment
  during that sync, each in a version with the same fingerprint; the collections that the sync
  does not report as changed are as they were. The server is any that answers
  a \<open>GET\<close> of a collection with all its items, or with 304 to the tag it has now, and never has one
  tag for different items. Collections that are read page by page (\<open>fetchAllItems\<close>) are outside
  this theorem: it is about clients all of whose collections are read with one request.
\<close>

theorem sync_mirrors:
  assumes "honest_server c good later items_at tag_at"
    and "syncing c good later st w" and "performSync c st w = (r, st', w')"
  shows "\<exists>changed. r = Inr changed
    \<and> list_all (\<lambda>p. \<exists>w1. later w w1 \<and> later w1 w' \<and> mirrors (ct_idField c) (items_at p w1) p (cl_storage st')) (client_resources c)
    \<and> list_all (\<lambda>p. p \<in> set changed \<or> stored p (cl_storage st') = stored p (cl_storage st)) (client_resources c)"
  by (rule honest_server.sync_mirrored [OF assms])

theorem sync_mirrors_witness:
  "case performSync pets_client new_client new_server of (r, st', w') \<Rightarrow>
     \<exists>changed. r = Inr changed
     \<and> list_all (\<lambda>p. \<exists>w1. serves sample_mock sample_document new_server w1 \<and> serves sample_mock sample_document w1 w'
          \<and> mirrors (ct_idField pets_client) (records_at p w1) p (cl_storage st')) (client_resources pets_client)
     \<and> list_all (\<lambda>p. p \<in> set changed \<or> stored p (cl_storage st') = stored p (cl_storage new_client)) (client_resources pets_client)"
proof -
  obtain r st' w' where sync: "performSync pets_client new_client new_server = (r, st', w')" by (metis prod_cases3)
  have "served sample_mock sample_document new_server"
    unfolding served_def by (intro exI [of _ "[]"]) (simp add: serve_def)
  then have "syncing pets_client (served sample_mock sample_document) (serves sample_mock sample_document) new_client new_server"
    by (rule fresh)
  from sync_mirrors [OF mock_pets.honest_server_axioms this sync] show ?thesis unfolding sync prod.case .
qed

section \<open>When a body cannot be read\<close>

text \<open>
  The validators of a response are remembered before its body is read. After a body that is
  not JSON the next sync sends them, is told that nothing changed, and leaves the collection
  empty for as long as it does not change, although the server has items.
\<close>

lemma unread_body_remembered:
  assumes "absolute_url c path = Inr x" "ct_fetch c (href (ct_urls c) x) (conditional_headers (oget (cl_cache st) (href (ct_urls c) x))) w = (Inr r, w')"
    and "rs_status r = 200" "rs_body r \<noteq> []" "json_parse (rs_body r) = None" "oget (rs_headers r) ''etag'' = Some t" "t \<noteq> []"
    and "oget (cl_synced st) path = None"
    and "ct_fetch c (href (ct_urls c) x) (conditional_headers (oget (cl_cache (remember (href (ct_urls c) x) r st)) (href (ct_urls c) x))) w' = (Inr r', w'')"
    and "rs_status r' = 304"
  shows "fetchCollectionSnapshot c path None st w = (Inl ''SyntaxError'', remember (href (ct_urls c) x) r st, w')
    \<and> fetchCollectionSnapshot c path None (remember (href (ct_urls c) x) r st) w' = (Inr ([], True), remember (href (ct_urls c) x) r st, w'')
    \<and> oget (conditional_headers (oget (cl_cache (remember (href (ct_urls c) x) r st)) (href (ct_urls c) x))) ''If-None-Match'' = Some t"
  using assms by (simp add: fetchCollectionSnapshot_def is_ok_def json_body_def remember_def Let_def truthy_def oget_or_def conditional_headers_def)

end
