(* ===== verification/Sy_Served.thy ===== *)
theory Sy_Served
  imports Sy_Walk Sy_Mock
begin

text \<open>
  The two ends of the Syncables library together: \<open>paginate\<close> of \<open>read/read.ts\<close> walking the pages
  that the mock server's \<open>handlePaginatedListRequest\<close> serves, for each way of paging by cursor:
  page tokens, cursors, offsets and page numbers.
\<close>

section \<open>The mock server as a transport\<close>

definition mock_transport :: "'u mock_env \<Rightarrow> json \<Rightarrow> ('u, mock_server) env" where
  "mock_transport e document =
     \<lparr>transport = (\<lambda>rq s.
        let (reply, s') = handleRequest e document
              \<lparr>hr_method = rq_method rq, hr_url = rq_url rq, hr_headers = rq_headers rq,
               hr_body = (case rq_body rq of Some b \<Rightarrow> b | None \<Rightarrow> []), hr_date = []\<rparr> s
        in (Inr \<lparr>rs_status = rp_status reply, rs_headers = rp_headers reply,
                 rs_body = (case rp_body reply of Some v \<Rightarrow> json_text v | None \<Rightarrow> [])\<rparr>, s')),
      now = (\<lambda>_. 0), sleep = (\<lambda>_ s. s), parse_date = (\<lambda>_. None)\<rparr>"

section \<open>Ways of paging\<close>

datatype style = Token | Cursor | Offset | Page

definition style_type :: "style \<Rightarrow> string" where
  "style_type y = (case y of Token \<Rightarrow> ''pageToken'' | Cursor \<Rightarrow> ''pageToken'' | _ \<Rightarrow> ''pageNumber'')"

definition style_role :: "style \<Rightarrow> string" where
  "style_role y = (case y of Token \<Rightarrow> ''pageToken'' | Cursor \<Rightarrow> ''cursor'' | Offset \<Rightarrow> ''offset'' | Page \<Rightarrow> ''page'')"

definition style_meta :: "style \<Rightarrow> string" where
  "style_meta y = (case y of Token \<Rightarrow> ''nextPageToken'' | Cursor \<Rightarrow> ''nextCursor'' | _ \<Rightarrow> ''totalCount'')"

definition with_role :: "string \<Rightarrow> json" where
  "with_role r = JObj [(''role'', JStr r)]"

text \<open>A scheme that pages with the parameter \<open>t\<close>, sizes pages with \<open>z\<close> and reports at the path \<open>p\<close>.\<close>

definition styled :: "style \<Rightarrow> string \<Rightarrow> string \<Rightarrow> string \<Rightarrow> json" where
  "styled y t z p =
     JObj [(''type'', JStr (style_type y)),
           (''request'', JObj [(''queryParameters'', JObj [(t, with_role (style_role y)), (z, with_role ''pageSize'')])]),
           (''response'', JObj [(''bodyFields'', JObj [(p, with_role (style_meta y))])])]"

definition cursor_at :: "style \<Rightarrow> nat \<Rightarrow> nat \<Rightarrow> page_cursor" where
  "cursor_at y per k =
     (if k = 0 then no_cursor
      else case y of
             Offset \<Rightarrow> no_cursor\<lparr>pc_offset := Some (int k)\<rparr>
           | Page \<Rightarrow> no_cursor\<lparr>pc_page := Some (int (k div per) + 1)\<rparr>
           | _ \<Rightarrow> no_cursor\<lparr>pc_token := Some (int_str (int k))\<rparr>)"

lemma role_of_with_role [simp]: "role_of (with_role r) = Some r"
  by (simp add: role_of_def with_role_def)

lemma styled_fields [simp]:
  "fields_at ''request'' ''queryParameters'' (styled y t z p) = [(t, with_role (style_role y)), (z, with_role ''pageSize'')]"
  "fields_at ''request'' ''bodyFields'' (styled y t z p) = []"
  "fields_at ''response'' ''bodyFields'' (styled y t z p) = [(p, with_role (style_meta y))]"
  "fields_at ''response'' ''headers'' (styled y t z p) = []"
  "scheme_type (styled y t z p) = style_type y"
  by (simp_all add: fields_at_def styled_def scheme_type_def)

lemma style_role_simps [simp]: "style_role y \<noteq> ''pageSize''"
  by (cases y) (simp_all add: style_role_def)

lemma styled_names [simp]:
  "fieldNameForRole (styled y t z p) r =
     (if style_role y = r then Some t else if r = ''pageSize'' then Some z else None)"
  by (auto simp: fieldNameForRole_def)

lemma styled_with_role [simp]:
  "fieldsWithRole (styled y t z p) r [''queryParameters''] =
     (if style_role y = r then [t] else []) @ (if r = ''pageSize'' then [z] else [])"
  "fieldsWithRole (styled y t z p) r [''queryParameters'', ''bodyFields''] =
     (if style_role y = r then [t] else []) @ (if r = ''pageSize'' then [z] else [])"
  by (auto simp: fieldsWithRole_def)

text \<open>The value of the paging parameter at a place; nothing for a token at the start.\<close>

definition param_at :: "style \<Rightarrow> nat \<Rightarrow> nat \<Rightarrow> string option" where
  "param_at y per k =
     (case y of
        Offset \<Rightarrow> Some (int_str (int k))
      | Page \<Rightarrow> Some (int_str (int (k div per) + 1))
      | _ \<Rightarrow> if k = 0 then None else Some (int_str (int k)))"

lemma buildQuery_styled:
  assumes "t \<noteq> z"
  shows "buildQuery (styled y t z p) (cursor_at y per k) (Some n) =
    (z, int_str n) # (case param_at y per k of None \<Rightarrow> [] | Some v \<Rightarrow> [(t, v)])"
  using assms
  by (cases y; cases "k = 0")
    (simp_all add: buildQuery_def cursorValues_def put_all_def Let_def style_role_def cursor_at_def no_cursor_def param_at_def)

section \<open>One page\<close>

lemma slice_page: "k \<le> length items \<Longrightarrow> js_slice (Some (int k)) (Some (int k + int per)) items = take per (drop k items)"
  by (auto simp: js_slice_def slice_index_def Let_def min_def nat_int_add)

lemma request_size_styled:
  "z \<noteq> [] \<Longrightarrow> get_param api z url = Some (int_str per) \<Longrightarrow> request_size api url (styled y t z p) = Some per"
  by (simp add: request_size_def param_number_def)

lemma int_str_not_Nil [simp]: "int_str n \<noteq> []"
  by (simp add: int_str_def)

lemma request_offset_styled:
  assumes "t \<noteq> []" "get_param api t url = param_at y per k" "per dvd k" "0 < per"
  shows "request_offset api url (styled y t z p) (Some (int per)) = Some (int k)"
proof -
  have "int (k div per) * int per = int k" using assms(3) by (metis dvd_div_mult_self of_nat_mult)
  then show ?thesis using assms(1,2)
    by (cases y) (auto simp: request_offset_def Let_def style_role_def param_number_def param_at_def split: if_splits)
qed

text \<open>What the metadata field is set to, \<open>rest\<close> saying whether there is another page.\<close>

definition meta_value :: "style \<Rightarrow> nat \<Rightarrow> nat \<Rightarrow> bool \<Rightarrow> json" where
  "meta_value y whole next rest =
     (case y of
        Token \<Rightarrow> if rest then JStr (int_str (int next)) else JNull
      | Cursor \<Rightarrow> if rest then JStr (int_str (int next)) else JNull
      | _ \<Rightarrow> JNum (int whole))"

lemma list_body_styled:
  assumes "t \<noteq> []" "z \<noteq> []" "get_param api z url = Some (int_str (int per))" "get_param api t url = param_at y per k"
    and "per dvd k" "0 < per" "k \<le> length items" "locateItemsField schema (Some (styled y t z p)) = Some f" "f \<noteq> []"
  shows "list_body api url (styled y t z p) schema items (JObj g) =
    setNestedField (JObj (oset f (JArr (take per (drop k items))) g)) p
      (meta_value y (length items) (k + per) (k + per < length items))"
proof -
  have facts: "request_size api url (styled y t z p) = Some (int per)"
    "request_offset api url (styled y t z p) (Some (int per)) = Some (int k)"
    using request_size_styled [OF assms(2,3)] request_offset_styled [OF assms(1,4,5,6)] by simp_all
  define F where "F = list_facts api url (styled y t z p) items"
  have F: "pf_total F = length items" "pf_offset F = Some (int k)" "pf_size F = Some (int per)"
    "pf_more F \<longleftrightarrow> k + per < length items"
    by (auto simp: F_def list_facts_def facts Let_def add_num_def)
  have meta: "metadata_field F body (p, with_role (style_meta y)) = setNestedField body p (meta_value y (length items) (k + per) (k + per < length items))" for body
    by (cases y) (simp_all add: metadata_field_def style_meta_def meta_value_def F add_num_def Let_def)
  have slice: "js_slice (pf_offset F) (add_num (pf_offset F) (pf_size F)) items = take per (drop k items)"
    using slice_page [OF assms(7)] by (simp add: F add_num_def)
  show ?thesis
    unfolding list_body_def F_def [symmetric] Let_def slice assms(8)
    using assms(9) meta by (simp add: is_object_def)
qed

text \<open>Setting the metadata leaves an object, in which the items are still where they were.\<close>

lemma set_at_object: "\<exists>m'. set_at ss v (JObj m) = JObj m'"
  by (cases ss rule: remdups_adj.cases) auto

lemma objects_along_oset: "s \<noteq> f \<Longrightarrow> objects_along (s # ss) (JObj (oset f v m)) = objects_along (s # ss) (JObj m)"
  by simp

lemma metadata_keeps:
  assumes "objects_along (split_on (CHR ''.'') p) (JObj g)" "hd (split_on (CHR ''.'') p) \<noteq> f"
  shows "\<exists>m. setNestedField (JObj (oset f xs g)) p v = JObj m \<and> oget m f = Some xs"
    and "readNestedField (setNestedField (JObj (oset f xs g)) p v) p = Some v"
proof -
  obtain s ss where path: "split_on (CHR ''.'') p = s # ss" by (cases "split_on (CHR ''.'') p") auto
  have s: "s \<noteq> f" using assms(2) path by simp
  have along: "objects_along (s # ss) (JObj (oset f xs g))"
    using assms(1) by (simp only: path objects_along_oset [OF s])
  obtain m where m: "set_at (s # ss) v (JObj (oset f xs g)) = JObj m" using set_at_object by blast
  have "foldl child (Some (set_at (s # ss) v (JObj (oset f xs g)))) [f] = foldl child (Some (JObj (oset f xs g))) [f]"
    using s by (intro read_set_at_other along) auto
  then have "oget m f = Some xs" by (simp add: m)
  then show "\<exists>m. setNestedField (JObj (oset f xs g)) p v = JObj m \<and> oget m f = Some xs"
    using m by (auto simp: setNestedField_def path)
  show "readNestedField (setNestedField (JObj (oset f xs g)) p v) p = Some v"
    using read_set_at [OF along] by (simp add: setNestedField_def readNestedField_def path)
qed

lemma set_at_ok: "json_ok node \<Longrightarrow> json_ok v \<Longrightarrow> objects_along ss node \<Longrightarrow> json_ok (set_at ss v node)"
proof (induction ss v node rule: set_at.induct)
  case (2 segment v node)
  then show ?case by (auto split: json.splits simp del: json_ok.simps intro: json_ok_oset)
next
  case (3 segment s ss v node)
  obtain m where m: "node = JObj m" "objects_along (s # ss) (inner node segment)"
    "inner node segment = JObj (case oget m segment of Some (JObj n) \<Rightarrow> n | _ \<Rightarrow> [])"
    using objects_along_inner [OF 3(4)] by auto
  have "json_ok (inner node segment)"
  proof (cases "\<exists>n. oget m segment = Some (JObj n)")
    case True
    then obtain n where n: "oget m segment = Some (JObj n)" by blast
    then have "(segment, JObj n) \<in> set m" by (rule map_of_SomeD)
    moreover have "\<forall>kv \<in> set m. json_ok (snd kv)" using 3(2) by (simp add: m(1) list_all_iff)
    ultimately have "json_ok (JObj n)" by (metis snd_conv)
    then show ?thesis unfolding m(3) n by simp
  next
    case False
    then show ?thesis unfolding m(3) by (auto split: option.splits json.splits)
  qed
  then have "json_ok (set_at (s # ss) v (inner node segment))" using 3(1,3) m(2) by blast
  then show ?case using 3(2) by (simp add: m(1) json_ok_oset del: json_ok.simps)
qed simp

lemma find_holds: "List.find P xs = Some x \<Longrightarrow> P x"
  by (induction xs) (auto split: if_splits)

lemma located_not_metadata: "locateItemsField schema (Some scheme) = Some f \<Longrightarrow> f \<notin> set (metadataFieldRoots (Some scheme))"
  unfolding locateItemsField_def Let_def
  by (auto split: option.splits dest!: find_holds)

lemma metadata_roots_styled: "metadataFieldRoots (Some (styled y t z p)) = [hd (split_on (CHR ''.'') p)]"
  by (simp add: metadataFieldRoots_def styled_def)

lemma state_styled:
  assumes "readNestedField body p = Some (meta_value y whole next rest)"
  shows "parsePaginationState (styled y t z p) body hs (Some n) =
    \<lparr>nextPageToken = (if (y = Token \<or> y = Cursor) \<and> rest then Some (int_str (int next)) else None), nextLink = None,
     currentPage = None, totalCount = (if y = Token \<or> y = Cursor then None else Some (int whole)), totalPages = None, pageSize = None,
     hasNextPage = (if y = Token \<or> y = Cursor then rest else n < int whole)\<rparr>"
  by (cases y; cases rest)
    (simp_all add: parsePaginationState_def extractByRole_def body_role_def style_meta_def assms meta_value_def or_else_def
      toStringOrNull_def toNumberOrNull_def deriveHasNextPage_def style_type_def Let_def int_str_def)

lemma next_styled:
  assumes "0 < per" "per dvd k" "hasNextPage state"
    and "y = Token \<or> y = Cursor \<Longrightarrow> nextPageToken state = Some (int_str (int (k + per)))"
  shows "nextCursor (styled y t z p) (cursor_at y per k) state (int per) = Some (cursor_at y per (k + per))"
proof -
  have "int ((k + per) div per) = int (k div per) + 1" using assms(1) by (simp add: div_add_self2)
  then show ?thesis using assms
    by (cases y; cases "k = 0") (simp_all add: nextCursor_def style_type_def style_role_def cursor_at_def no_cursor_def Let_def)
qed

section \<open>The whole list\<close>

text \<open>
  A document whose operation \<open>op\<close> lists records in pages of \<open>per\<close>, in one of the styles, and a
  walk over it: the path of the walk is routed to the operation, its response schema \<open>rs\<close> is of
  an object with the items in the field \<open>f\<close>, and neither the walk's own query nor the base URL
  has the paging parameter already.
\<close>

definition listing ::
  "'u mock_env \<Rightarrow> json \<Rightarrow> 'u page_walk \<Rightarrow> string \<Rightarrow> style \<Rightarrow> string \<Rightarrow> string \<Rightarrow> string \<Rightarrow> json \<Rightarrow> string \<Rightarrow> nat \<Rightarrow> bool" where
  "listing e document walk template y t z p rs f per \<longleftrightarrow>
     t \<noteq> z \<and> t \<noteq> [] \<and> z \<noteq> [] \<and> f \<noteq> [] \<and> 0 < per
     \<and> pw_document walk = document \<and> pw_method walk = ''GET'' \<and> pw_pageSize walk = Some (int per)
     \<and> owf (pw_query walk) \<and> oget (pw_query walk) t = None \<and> oget (pw_query walk) z = None
     \<and> get_param (me_url e) t (pw_upstream walk) = None
     \<and> (\<exists>params. findRoute (okeys (members (member ''paths'' (Some document))))
          (pathname (me_url e) (set_pathname (me_url e) (drop_slash (pathname (me_url e) (pw_upstream walk)) @ pw_path walk) (pw_upstream walk)))
          = Inr (Some \<lparr>rm_template = template, rm_params = params\<rparr>))
     \<and> member ''get'' (member template (member ''paths'' (Some document))) = Some (pw_operation walk)
     \<and> truthy_json (Some (pw_operation walk))
     \<and> (\<exists>name. resolveEffectiveScheme document (pw_operation walk) = Some (name, styled y t z p))
     \<and> response_schema (pw_operation walk) = Some rs \<and> truthy_json (Some rs)
     \<and> locateItemsField (Some rs) (Some (styled y t z p)) = Some f
     \<and> (\<forall>n. \<exists>g. fst (generate (Some rs) n) = JObj g \<and> json_ok (JObj g) \<and> objects_along (split_on (CHR ''.'') p) (JObj g))"

definition listed_items :: "'u mock_env \<Rightarrow> string \<Rightarrow> json \<Rightarrow> json \<Rightarrow> mock_server \<Rightarrow> json list" where
  "listed_items e template rs scheme s = fst (list_items e template (itemSchemaFor (Some rs) (Some scheme)) s)"

lemma listed_items_stay:
  "listed_items e template rs scheme (snd (list_items e template (itemSchemaFor (Some rs) (Some scheme)) s)\<lparr>ms_strings := n\<rparr>)
   = listed_items e template rs scheme s"
  by (auto simp: listed_items_def list_items_def split: option.splits prod.splits)

lemma json_ok_page:
  assumes "json_ok (JObj g)" "list_all json_ok xs" "json_ok v" "objects_along (split_on (CHR ''.'') p) (JObj g)" "hd (split_on (CHR ''.'') p) \<noteq> f"
  shows "json_ok (setNestedField (JObj (oset f (JArr xs) g)) p v)"
proof -
  obtain s ss where path: "split_on (CHR ''.'') p = s # ss" by (cases "split_on (CHR ''.'') p") auto
  have s: "s \<noteq> f" using assms(5) path by simp
  have along: "objects_along (s # ss) (JObj (oset f (JArr xs) g))"
    using assms(4) by (simp only: path objects_along_oset [OF s])
  have "json_ok (JObj (oset f (JArr xs) g))" using assms(1,2) by (intro json_ok_oset) simp_all
  from set_at_ok [OF this assms(3) along] show ?thesis by (simp add: setNestedField_def path)
qed

lemma meta_value_ok: "json_ok (meta_value y a b c)"
  by (cases y) (simp_all add: meta_value_def)

locale served_list = url_laws "me_url e"
  for e :: "'u mock_env" +
  fixes document :: json and walk :: "'u page_walk" and template :: string
    and y :: style and t z p :: string and rs :: json and f :: string and per :: nat and items :: "json list" and until :: int
  assumes until: "0 \<le> until"
    and listing: "listing e document walk template y t z p rs f per"
    and items: "list_all (\<lambda>j. isRecord (Some j) \<and> json_ok j) items"
begin

definition fine :: "mock_server \<Rightarrow> bool" where
  "fine s \<longleftrightarrow> listed_items e template rs (styled y t z p) s = items"

definition place :: "nat \<Rightarrow> page_cursor \<times> 'u option" where
  "place k = (cursor_at y per k, None)"

lemma facts:
  "t \<noteq> z" "t \<noteq> []" "z \<noteq> []" "f \<noteq> []" "0 < per" "pw_document walk = document" "pw_method walk = ''GET''"
  "pw_pageSize walk = Some (int per)" "owf (pw_query walk)" "oget (pw_query walk) t = None" "oget (pw_query walk) z = None"
  "get_param (me_url e) t (pw_upstream walk) = None" "response_schema (pw_operation walk) = Some rs" "truthy_json (Some rs)"
  "locateItemsField (Some rs) (Some (styled y t z p)) = Some f" "truthy_json (Some (pw_operation walk))"
  "member ''get'' (member template (member ''paths'' (Some document))) = Some (pw_operation walk)"
  using listing by (auto simp: listing_def)

lemma scheme: "walk_scheme walk = Some (styled y t z p)"
  "\<exists>name. resolveEffectiveScheme document (pw_operation walk) = Some (name, styled y t z p)"
  using listing by (auto simp: listing_def walk_scheme_def)

definition url_at :: "nat \<Rightarrow> 'u" where
  "url_at k = built_url (me_url e) walk (Some (styled y t z p)) (cursor_at y per k)"

lemma request_at:
  "ws_cursor s = fst (place k) \<Longrightarrow> ws_next s = snd (place k) \<Longrightarrow>
   walk_request (me_url e) walk s = \<lparr>rq_url = url_at k, rq_method = ''GET'', rq_headers = [(''accept'', ''application/json'')], rq_body = None\<rparr>"
  by (simp add: walk_request_def place_def scheme(1) facts url_at_def Let_def)

lemma query_at:
  "get_param (me_url e) z (url_at k) = Some (int_str (int per))"
  "get_param (me_url e) t (url_at k) = param_at y per k"
proof -
  define bq where "bq = buildQuery (styled y t z p) (cursor_at y per k) (Some (int per))"
  have bq: "bq = (z, int_str (int per)) # (case param_at y per k of None \<Rightarrow> [] | Some v \<Rightarrow> [(t, v)])"
    unfolding bq_def using buildQuery_styled [OF facts(1)] .
  then have owf_bq: "owf bq" using facts(1) by (auto split: option.split)
  have "get_param (me_url e) x (url_at k) =
      (case oget bq x of Some v \<Rightarrow> Some v
       | None \<Rightarrow> (case oget (pw_query walk) x of Some v \<Rightarrow> Some v | None \<Rightarrow> get_param (me_url e) x (pw_upstream walk)))" for x
    unfolding url_at_def built_url_def Let_def
    by (simp add: facts(8) bq_def [symmetric] get_set_params facts(9) get_pathname oget_spread [OF owf_bq] split: option.split)
  then show "get_param (me_url e) z (url_at k) = Some (int_str (int per))" "get_param (me_url e) t (url_at k) = param_at y per k"
    using facts(1,10,12) by (auto simp: bq split: option.splits)
qed

lemma routed: "\<exists>params. findRoute (okeys (members (member ''paths'' (Some document)))) (pathname (me_url e) (url_at k))
    = Inr (Some \<lparr>rm_template = template, rm_params = params\<rparr>)"
  using listing by (simp add: listing_def url_at_def built_url_def Let_def pathname_set_params)

lemma keys_differ:
  assumes "k \<noteq> k'" "per dvd k" "per dvd k'"
  shows "url_at k \<noteq> url_at k'"
proof
  assume "url_at k = url_at k'"
  then have same: "param_at y per k = param_at y per k'" using query_at(2) by metis
  have inj: "int_str a = int_str b \<Longrightarrow> a = b" for a b by (metis js_number_text option.inject)
  have "k div per \<noteq> k' div per" using assms by (metis dvd_div_mult_self)
  then show False using same assms(1) by (cases y) (auto simp: param_at_def dest!: inj split: if_splits)
qed

end

lemma get_lower: "to_lower ''GET'' = ''get''"
  by code_simp

context served_list
begin

lemma served:
  assumes "fine s" "k \<le> length items" "per dvd k"
  shows "\<exists>g s'. fine s' \<and> json_ok (JObj g) \<and> objects_along (split_on (CHR ''.'') p) (JObj g)
    \<and> transport (mock_transport e document)
        \<lparr>rq_url = url_at k, rq_method = ''GET'', rq_headers = [(''accept'', ''application/json'')], rq_body = None\<rparr> s =
      (Inr \<lparr>rs_status = 200, rs_headers = [(''Content-Type'', ''application/json'')],
            rs_body = json_text (setNestedField (JObj (oset f (JArr (take per (drop k items))) g)) p
              (meta_value y (length items) (k + per) (k + per < length items)))\<rparr>, s')"
proof -
  let ?sc = "styled y t z p" and ?req = "\<lparr>hr_method = ''GET'', hr_url = url_at k, hr_headers = [(''accept'', ''application/json'')], hr_body = [], hr_date = []\<rparr>"
  obtain its s1 where list: "list_items e template (itemSchemaFor (Some rs) (Some ?sc)) s = (its, s1)" by fastforce
  then have its: "its = items" using assms(1) by (simp add: fine_def listed_items_def)
  obtain v n where gen: "generate (Some rs) (ms_strings s1) = (v, n)" by fastforce
  obtain g where g: "v = JObj g" "json_ok (JObj g)" "objects_along (split_on (CHR ''.'') p) (JObj g)"
    using listing gen unfolding listing_def by (metis fst_conv)
  have schema: "responseSchemaFor (pw_operation walk) [''200''] = Some rs"
    using facts(13,14) by (simp add: responseSchemaFor_def response_schema_def)
  have body: "list_body (me_url e) (url_at k) ?sc (Some rs) items (JObj g) =
      setNestedField (JObj (oset f (JArr (take per (drop k items))) g)) p (meta_value y (length items) (k + per) (k + per < length items))"
    using list_body_styled [OF facts(2,3) query_at assms(3) facts(5) assms(2) facts(15) facts(4)] .
  define s' where "s' = s1\<lparr>ms_strings := n\<rparr>"
  have page: "handlePaginatedListRequest e template (pw_operation walk) ?sc (url_at k) s =
      (sendJson 200 (setNestedField (JObj (oset f (JArr (take per (drop k items))) g)) p
        (meta_value y (length items) (k + per) (k + per < length items))) [], s')"
    by (simp add: handlePaginatedListRequest_def schema list gen g(1) its body s'_def)
  obtain params where route: "findRoute (okeys (members (member ''paths'' (Some document)))) (pathname (me_url e) (url_at k))
    = Inr (Some \<lparr>rm_template = template, rm_params = params\<rparr>)" using routed by blast
  obtain name where resolved: "resolveEffectiveScheme document (pw_operation walk) = Some (name, ?sc)" using scheme(2) by blast
  have handled: "handleRequest e document ?req s =
      (sendJson 200 (setNestedField (JObj (oset f (JArr (take per (drop k items))) g)) p
        (meta_value y (length items) (k + per) (k + per < length items))) [], s')"
    by (simp add: handleRequest_def route handleMatched_def get_lower facts(16,17) resolved page)
  moreover have "fine s'"
    using listed_items_stay [where e = e and template = template and rs = rs and scheme = ?sc and s = s and n = n] assms(1) by (simp add: fine_def list s'_def)
  ultimately show ?thesis using g(2,3)
    by (intro exI [of _ g] exI [of _ s']) (simp add: mock_transport_def handled sendJson_def)
qed

lemma continues:
  assumes "k \<le> length items" "per dvd k" "readNestedField body p = Some (meta_value y (length items) (k + per) (k + per < length items))"
    and "isRecord (Some body)" "ws_cursor s = fst (place k)" "ws_next s = snd (place k)" "ws_items s = int (k + got)"
    and got: "got = length (take per (drop k items))"
  shows "continue_walk (me_url e) walk s url body hs (int got) =
    Inr (if k + per < length items then Some (s\<lparr>ws_cursor := fst (place (k + per)), ws_next := snd (place (k + per))\<rparr>) else None)"
proof -
  have full: "got = per" if "k + per < length items" using that by (simp add: got)
  have counted: "int (k + got) < int (length items) \<longleftrightarrow> k + per < length items"
    using assms(1) facts(5) by (auto simp: got)
  define m where "m = int (k + got)"
  have m: "ws_items s = m" by (simp only: m_def assms(7))
  define state where "state = parsePaginationState (styled y t z p) body hs (Some m)"
  note st = state_styled [OF assms(3), where hs = hs and n = m and t = t and z = z, folded state_def]
  have has: "hasNextPage state \<longleftrightarrow> k + per < length items" using counted by (simp add: st m_def)
  have link: "nextLink state = None" by (simp add: st)
  have token: "nextPageToken state = Some (int_str (int (k + per)))" if "y = Token \<or> y = Cursor" "k + per < length items"
    using that by (simp add: st)
  have type: "style_type y \<noteq> ''nextLink''" by (cases y) (simp_all add: style_type_def)
  show ?thesis
  proof (cases "k + per < length items")
    case False
    then show ?thesis using assms(4) has
      by (simp add: continue_walk_def scheme(1) m state_def [symmetric] Let_def)
  next
    case True
    have next_cursor: "nextCursor (styled y t z p) (cursor_at y per k) state (int per) = Some (cursor_at y per (k + per))"
      using next_styled [OF facts(5) assms(2)] has token True by blast
    show ?thesis using True assms(4-6) has link type facts(5) next_cursor full [OF True]
      by (simp add: continue_walk_def scheme(1) m state_def [symmetric] Let_def place_def)
  qed
qed

end

sublocale served_list \<subseteq> paged_source "mock_transport e document" "me_url e" walk items per place fine until
proof unfold_locales
  show "0 < per" by (rule facts(5))
  show "place 0 = (no_cursor, None)" by (simp add: place_def cursor_at_def)
  show "now (mock_transport e document) w \<le> until" for w using until by (simp add: mock_transport_def)
next
  fix w k and s :: "'u walk_state"
  assume w: "fine w" and k: "k = 0 \<or> k < length items" "per dvd k" and s: "ws_cursor s = fst (place k)" "ws_next s = snd (place k)"
  let ?got = "take per (drop k items)" and ?meta = "meta_value y (length items) (k + per) (k + per < length items)"
  have le: "k \<le> length items" using k(1) by auto
  obtain g w' where r: "fine w'" "json_ok (JObj g)" "objects_along (split_on (CHR ''.'') p) (JObj g)"
    "transport (mock_transport e document) (walk_request (me_url e) walk s) w =
      (Inr \<lparr>rs_status = 200, rs_headers = [(''Content-Type'', ''application/json'')],
        rs_body = json_text (setNestedField (JObj (oset f (JArr ?got) g)) p ?meta)\<rparr>, w')"
    using served [OF w le k(2)] request_at [OF s] by auto
  define body where "body = setNestedField (JObj (oset f (JArr ?got) g)) p ?meta"
  have f: "hd (split_on (CHR ''.'') p) \<noteq> f"
    using located_not_metadata [OF facts(15)] by (auto simp: metadata_roots_styled)
  obtain m where m: "body = JObj m" "oget m f = Some (JArr ?got)"
    using metadata_keeps(1) [OF r(3) f] unfolding body_def by blast
  have read: "readNestedField body p = Some ?meta" using metadata_keeps(2) [OF r(3) f] by (simp add: body_def)
  have "list_all json_ok ?got" using items by (auto simp: list_all_iff dest: in_set_takeD in_set_dropD)
  then have "json_ok body" unfolding body_def by (intro json_ok_page r(2,3) f meta_value_ok)
  then have parse: "json_parse (json_text body) = Some body" by (rule json_parse_text)
  have "filter (\<lambda>j. isRecord (Some j)) ?got = ?got"
    using items by (intro filter_True) (auto simp: list_all_iff dest: in_set_takeD in_set_dropD)
  then have got: "pageItems body (response_schema (pw_operation walk)) (walk_scheme walk) = Inr ?got"
    by (simp add: pageItems_def m scheme(1) facts(13,15) is_array_def)
  show "\<exists>response w' body. transport (mock_transport e document) (walk_request (me_url e) walk s) w = (Inr response, w') \<and> fine w'
      \<and> 200 \<le> rs_status response \<and> rs_status response < 300 \<and> json_parse (rs_body response) = Some body
      \<and> pageItems body (response_schema (pw_operation walk)) (walk_scheme walk) = Inr ?got
      \<and> (\<forall>t url. ws_cursor t = fst (place k) \<longrightarrow> ws_next t = snd (place k) \<longrightarrow> ws_items t = int (k + length ?got) \<longrightarrow>
          continue_walk (me_url e) walk t url body (lowerCaseHeaders (rs_headers response)) (int (length ?got)) =
            Inr (if k + per < length items then Some (t\<lparr>ws_cursor := fst (place (k + per)), ws_next := snd (place (k + per))\<rparr>) else None))"
    using r(1,4) parse got continues [OF le k(2) read _ _ _ _ refl] m(1)
    unfolding body_def [symmetric]
    by (intro exI [of _ "\<lparr>rs_status = 200, rs_headers = [(''Content-Type'', ''application/json'')], rs_body = json_text body\<rparr>"]
        exI [of _ w'] exI [of _ body]) (simp add: body_def)
next
  fix k k' and s s' :: "'u walk_state"
  assume k: "k \<noteq> k'" "per dvd k" "per dvd k'" and s: "ws_cursor s = fst (place k)" "ws_next s = snd (place k)"
    "ws_cursor s' = fst (place k')" "ws_next s' = snd (place k')"
  show "request_key (me_url e) (walk_request (me_url e) walk s) \<noteq> request_key (me_url e) (walk_request (me_url e) walk s')"
    using keys_differ [OF k] href_inj by (auto simp: request_key_def request_at [OF s(1,2)] request_at [OF s(3,4)])
qed

context served_list
begin

lemma all_read:
  assumes "fine s" "until = timeoutMs l" "int (length items) \<le> maxRecords l"
    "int (pages_needed per (length items)) \<le> maxRequests l"
  shows "\<exists>b' s' log. run_paginate (logged (mock_transport e document)) (me_url e) walk
      (new_budget (logged (mock_transport e document)) l (s, [])) (s, []) = (Inr items, b', (s', log))
    \<and> length log = pages_needed per (length items)"
proof -
  have "\<exists>b' s'. run_paginate (logged (mock_transport e document)) (me_url e) walk
      (new_budget (logged (mock_transport e document)) l (s, [])) (s, [])
    = (Inr items, b', (s', [] @ map page_request [0..<pages_needed per (length items)]))"
    using assms by (intro paginate_complete) (simp_all add: new_budget_def mock_transport_def logged_def)
  then show ?thesis by auto
qed

end

section \<open>Everything is read, once\<close>

text \<open>
  C5. The reader gets everything the server has: \<open>paginate\<close> against the mock server returns
  exactly the items of the list, each once and in order, whichever of the four styles the
  scheme has, whatever the names of its parameters and of the metadata field, and whatever the
  page size, when the limits leave room for it. It makes no request too many: as many as it
  takes to hold the items in full pages and a last one, and a single request when there is no
  item.
\<close>

theorem paginate_reads_all:
  assumes "url_laws (me_url e)"
    and "listing e document walk template y t z p rs f per"
    and "items = listed_items e template rs (styled y t z p) s"
    and "list_all (\<lambda>j. isRecord (Some j) \<and> json_ok j) items"
    and "int (length items) \<le> maxRecords l" and "int (pages_needed per (length items)) \<le> maxRequests l" and "0 \<le> timeoutMs l"
  shows "case run_paginate (logged (mock_transport e document)) (me_url e) walk
      (new_budget (logged (mock_transport e document)) l (s, [])) (s, []) of
    (result, b', s', log) \<Rightarrow> result = Inr items \<and> length log = max 1 ((length items + per - 1) div per)"
proof -
  have served: "served_list e document walk template y t z p rs f per items (timeoutMs l)"
    using assms by (simp add: served_list_def served_list_axioms_def)
  have "served_list.fine e template y t z p rs items s"
    unfolding served_list.fine_def [OF served] using assms(3) by (rule sym)
  from served_list.all_read [OF served this refl assms(5,6)] show ?thesis by (auto simp: pages_needed_def)
qed

definition list_operation_doc :: json where
  "list_operation_doc = JObj [(''responses'', JObj [(''200'', JObj [(''content'', JObj [(''application/json'', JObj [(''schema'',
     JObj [(''type'', JStr ''object''), (''properties'', JObj [
       (''pets'', JObj [(''type'', JStr ''array''), (''items'', JObj [(''type'', JStr ''object'')])]),
       (''total'', JObj [(''type'', JStr ''integer'')])])])])])])]),
     (''parameters'', JArr [JObj [(''in'', JStr ''query''), (''name'', JStr ''page'')], JObj [(''in'', JStr ''query''), (''name'', JStr ''size'')]])]"

definition list_schema :: json where
  "list_schema = JObj [(''type'', JStr ''object''), (''properties'', JObj [
       (''pets'', JObj [(''type'', JStr ''array''), (''items'', JObj [(''type'', JStr ''object'')])]),
       (''total'', JObj [(''type'', JStr ''integer'')])])]"

definition list_document :: json where
  "list_document = JObj [
     (''paths'', JObj [(''/v1/pets'', JObj [(''get'', list_operation_doc)])]),
     (''components'', JObj [(''paginationSchemes'', JObj [(''pages'', styled Page ''page'' ''size'' ''total'')])])]"

definition list_walk :: "plain_url page_walk" where
  "list_walk = \<lparr>pw_document = list_document, pw_operation = list_operation_doc, pw_upstream = sample_home, pw_path = ''/pets'',
     pw_method = ''GET'', pw_query = [(''sort'', ''name'')], pw_body = JObj [], pw_pageSize = Some 3\<rparr>"

lemma sample_listing: "listing sample_mock list_document list_walk ''/v1/pets'' Page ''page'' ''size'' ''total'' list_schema ''pets'' 3"
proof -
  have route: "findRoute (okeys (members (member ''paths'' (Some list_document))))
      (pathname plain_urls (set_pathname plain_urls (drop_slash (pathname plain_urls sample_home) @ ''/pets'') sample_home))
      = Inr (Some \<lparr>rm_template = ''/v1/pets'', rm_params = []\<rparr>)"
    by code_simp
  have resolve: "resolveEffectiveScheme list_document list_operation_doc = Some (''pages'', styled Page ''page'' ''size'' ''total'')"
    by code_simp
  have items: "locateItemsField (Some list_schema) (Some (styled Page ''page'' ''size'' ''total'')) = Some ''pets''"
    by code_simp
  have generated: "fst (generate (Some list_schema) n) = JObj [(''pets'', JArr [JObj []]), (''total'', JNum 1)]" for n
    by (simp add: generate_def list_schema_def thread_def or_else_def)
  show ?thesis
    unfolding listing_def list_walk_def
    using route resolve items generated
    by (auto simp: sample_mock_def list_operation_doc_def list_schema_def list_document_def response_schema_def
        plain_urls_def sample_home_def)
qed

definition list_items_served :: "json list" where
  "list_items_served = map (\<lambda>n. JObj [(''id'', JStr (nat_str n))]) [0..<7]"

lemma sample_items:
  "listed_items sample_mock ''/v1/pets'' list_schema (styled Page ''page'' ''size'' ''total'') new_server = list_items_served"
  by code_simp

lemma sample_items_ok: "list_all (\<lambda>j. isRecord (Some j) \<and> json_ok j) list_items_served"
  by code_simp

interpretation served_pets: served_list sample_mock list_document list_walk "''/v1/pets''" Page "''page''" "''size''" "''total''"
  list_schema "''pets''" 3 list_items_served 1000
  using sample_listing sample_items_ok plain.url_laws_axioms
  by (simp add: served_list_def served_list_axioms_def sample_mock_def)

theorem paginate_reads_all_witness:
  "case run_paginate (logged (mock_transport sample_mock list_document)) (me_url sample_mock) list_walk
      (new_budget (logged (mock_transport sample_mock list_document)) DEFAULT_READ_LIMITS (new_server, [])) (new_server, []) of
    (result, b', s', log) \<Rightarrow> result = Inr (map (\<lambda>n. JObj [(''id'', JStr (nat_str n))]) [0..<7]) \<and> length log = 3"
proof -
  have "url_laws (me_url sample_mock)" using plain.url_laws_axioms by (simp add: sample_mock_def)
  from paginate_reads_all [OF this sample_listing sample_items [symmetric] sample_items_ok, of DEFAULT_READ_LIMITS]
  show ?thesis by (simp add: DEFAULT_READ_LIMITS_def list_items_served_def pages_needed_def del: upt_rec_numeral)
qed

end
