(* ===== verification/Ts_Observations.thy ===== *)
theory Ts_Observations
  imports Js
begin

text \<open>
  The observation log's data model
  (\<^verbatim>\<open>src/integrations/timesheets/app/observations.ts\<close>): the mask-diff of a read against
  the mirror, the fold of the resulting incrementals, and the coverage of a range field.

  Records are the source's interfaces; an optional property is an \<open>option\<close>. An instant
  stays a string and is read by \<open>ms\<close>, which is NaN (\<open>None\<close>) for text that is no instant.
  The literal \<open>v: 1\<close> and the provenance field \<open>query\<close> are not represented.
\<close>

unbundle bit_operations_syntax

section \<open>Data\<close>

datatype scope =
    RangeScope (sc_collection: string) (params: "(string, string) omap") (field: string)
      (sc_from: string) (sc_to: string)
  | IdScope (sc_collection: string) (sc_id: string)

datatype observation_kind = List | Point | WriteResponse

record canonical_record =
  cr_id :: string
  cr_fields :: "(string, json) omap"

record observation_header =
  obs_id :: string
  device :: string
  sentAt :: string
  receivedAt :: string
  kind :: observation_kind
  scope :: scope
  mask :: "string list"
  complete :: bool

record observation = observation_header +
  obs_records :: "canonical_record list"

record incremental = observation_header +
  upserts :: "canonical_record list"
  absent :: "string list"
  unchanged :: nat
  digest :: string

record mirror_record =
  mr_id :: string
  mr_collection :: string
  mr_fields :: "(string, json) omap"
  lastSeenAt :: string
  absentSince :: "string option"
  deletedAt :: "string option"

record coverage_segment =
  cov_key :: string
  cov_from :: string
  cov_to :: string
  confirmedAt :: string

record mirror =
  records :: "(string, mirror_record) omap"
  coverage :: "coverage_segment list"

definition emptyMirror :: mirror where
  "emptyMirror = \<lparr>records = [], coverage = []\<rparr>"

definition recordKey :: "string \<Rightarrow> string \<Rightarrow> string" where
  "recordKey collection i = collection @ ''/'' @ i"

definition ms :: "string \<Rightarrow> int option" where
  "ms instant = date_parse instant"

text \<open>
  A NaN difference is \<open>!== 0\<close> and is returned, and \<open>sort\<close> takes it as 0: hence the
  first case.
\<close>

definition compare_position :: "string \<times> string \<Rightarrow> string \<times> string \<Rightarrow> int" where
  "compare_position a b =
     (case (ms (fst a), ms (fst b)) of
        (Some x, Some y) \<Rightarrow>
          if x - y \<noteq> 0 then x - y
          else if fst a \<noteq> fst b then (if fst a < fst b then - 1 else 1)
          else if snd a = snd b then 0
          else if snd a < snd b then - 1 else 1
      | _ \<Rightarrow> 0)"

definition position :: "'a observation_header_scheme \<Rightarrow> string \<times> string" where
  "position h = (receivedAt h, obs_id h)"

definition comparePositions ::
  "'a observation_header_scheme \<Rightarrow> 'a observation_header_scheme \<Rightarrow> int" where
  "comparePositions a b = compare_position (position a) (position b)"

text \<open>\<open>undefined\<close> never reaches \<open>stableStringify\<close> from this file (\<open>?? null\<close>).\<close>

fun stableStringify :: "json \<Rightarrow> string" where
  "stableStringify JNull = ''null''"
| "stableStringify (JBool b) = (if b then ''true'' else ''false'')"
| "stableStringify (JNum n) = int_str n"
| "stableStringify (JStr s) = json_quote s"
| "stableStringify (JArr vs) = ''['' @ join '','' (map stableStringify vs) @ '']''"
| "stableStringify (JObj kvs) =
     ''{'' @ join '','' (map (\<lambda>(k, s). json_quote k @ '':'' @ s)
        (sort_key fst (map (\<lambda>(k, v). (k, stableStringify v)) kvs))) @ ''}''"

definition fnv1a :: "string \<Rightarrow> string" where
  "fnv1a text =
     hex_str 8 (unat (foldl (\<lambda>hash c. (hash XOR word_of_nat (of_char c)) * 0x01000193)
       (0x811c9dc5 :: 32 word) text))"

definition coverageKey :: "scope \<Rightarrow> string" where
  "coverageKey s =
     (let ps = join ''&'' (map (\<lambda>k. k @ ''='' @ oget_or [] (params s) k) (sort (okeys (params s))))
      in sc_collection s @ ''?'' @ ps @ ''#'' @ field s)"

section \<open>The mask-diff\<close>

definition inScope :: "scope \<Rightarrow> mirror_record \<Rightarrow> bool" where
  "inScope s r =
     (if mr_collection r \<noteq> sc_collection s then False
      else
        case s of
          IdScope _ i \<Rightarrow> mr_id r = i
        | RangeScope _ ps f a b \<Rightarrow>
            if \<exists>(k, v) \<in> set ps. oget (mr_fields r) k \<noteq> Some (JStr v) then False
            else
              (case oget (mr_fields r) f of
                 Some (JStr at) \<Rightarrow> num_le (ms a) (ms at) \<and> num_less (ms at) (ms b)
               | _ \<Rightarrow> False))"

definition pick :: "(string, json) omap \<Rightarrow> string list \<Rightarrow> (string, json) omap" where
  "pick fs m = foldl (\<lambda>out f. oset f (oget_or JNull fs f) out) [] m"

definition same_record :: "string list \<Rightarrow> mirror_record option \<Rightarrow> (string, json) omap \<Rightarrow> bool" where
  "same_record m previous masked =
     (case previous of
        None \<Rightarrow> False
      | Some p \<Rightarrow> \<not> truthy (absentSince p) \<and> \<not> truthy (deletedAt p)
          \<and> list_all (\<lambda>f. stableStringify (oget_or JNull (mr_fields p) f)
               = stableStringify (oget_or JNull masked f)) m)"

text \<open>The loop over the records read: the upserts and the number of unchanged records.\<close>

fun diff_records ::
  "mirror \<Rightarrow> string \<Rightarrow> string list \<Rightarrow> canonical_record list \<Rightarrow> canonical_record list \<times> nat"
where
  "diff_records mir c m [] = ([], 0)"
| "diff_records mir c m (r # rs) =
     (let masked = pick (cr_fields r) m;
          previous = oget (records mir) (recordKey c (cr_id r));
          (ups, n) = diff_records mir c m rs
      in if same_record m previous masked then (ups, n + 1)
         else (\<lparr>cr_id = cr_id r, cr_fields = masked\<rparr> # ups, n))"

definition is_id_scope :: "scope \<Rightarrow> bool" where
  "is_id_scope s = (case s of IdScope _ _ \<Rightarrow> True | _ \<Rightarrow> False)"

definition absent_ids :: "mirror \<Rightarrow> observation \<Rightarrow> string list" where
  "absent_ids mir ob =
     (if complete ob then
        sort (map mr_id (filter (\<lambda>r. \<not> truthy (deletedAt r)
            \<and> (\<not> truthy (absentSince r) \<or> is_id_scope (scope ob))
            \<and> mr_id r \<notin> cr_id ` set (obs_records ob) \<and> inScope (scope ob) r)
          (map snd (records mir))))
      else [])"

definition record_json :: "canonical_record \<Rightarrow> json" where
  "record_json r = JObj [(''id'', JStr (cr_id r)), (''fields'', JObj (cr_fields r))]"

definition diffObservation :: "mirror \<Rightarrow> observation \<Rightarrow> incremental" where
  "diffObservation mir ob =
     (let (ups, n) = diff_records mir (sc_collection (scope ob)) (mask ob) (obs_records ob)
      in observation_header.extend (observation_header.truncate ob)
           \<lparr>upserts = ups, absent = absent_ids mir ob, unchanged = n,
            digest = fnv1a (stableStringify (JArr (map record_json
              (js_sort (\<lambda>a b. cmp_of (cr_id a) (cr_id b)) (obs_records ob)))))\<rparr>)"

definition isEmpty :: "incremental \<Rightarrow> bool" where
  "isEmpty i = (upserts i = [] \<and> absent i = [])"

section \<open>Coverage\<close>

text \<open>
  \<open>bounds\<close>: the first string seen for each instant that bounds a span. A bound that is no
  instant is left out; \<open>addCoverage\<close> never stores one.
\<close>

definition note_bound :: "string \<Rightarrow> (int, string) omap \<Rightarrow> (int, string) omap" where
  "note_bound s m =
     (case ms s of None \<Rightarrow> m | Some t \<Rightarrow> if oget m t = None then oset t s m else m)"

definition bounds_of :: "coverage_segment list \<Rightarrow> (int, string) omap" where
  "bounds_of spans = foldl (\<lambda>m s. note_bound (cov_to s) (note_bound (cov_from s) m)) [] spans"

text \<open>The latest of the confirmations; the first of those at the same instant.\<close>

fun latest_of :: "string \<Rightarrow> string list \<Rightarrow> string" where
  "latest_of x [] = x"
| "latest_of x (y # ys) = latest_of (if num_less (ms x) (ms y) then y else x) ys"

definition covers :: "int \<Rightarrow> int \<Rightarrow> coverage_segment \<Rightarrow> bool" where
  "covers a b s = (num_le (ms (cov_from s)) (Some a) \<and> num_le (Some b) (ms (cov_to s)))"

text \<open>
  One turn of the loop over neighbouring points \<open>a, b\<close>. \<open>merged\<close> is kept newest first, so
  \<open>merged.at(-1)\<close> is its head.
\<close>

definition merge_span ::
  "string \<Rightarrow> coverage_segment list \<Rightarrow> (int, string) omap \<Rightarrow> coverage_segment list
    \<Rightarrow> int \<times> int \<Rightarrow> coverage_segment list"
where
  "merge_span key spans bounds merged ab =
     (case filter (covers (fst ab) (snd ab)) spans of
        [] \<Rightarrow> merged
      | s # ss \<Rightarrow>
          let conf = latest_of (confirmedAt s) (map confirmedAt ss);
              seg = \<lparr>cov_key = key, cov_from = oget_or [] bounds (fst ab),
                     cov_to = oget_or [] bounds (snd ab), confirmedAt = conf\<rparr>
          in case merged of
               [] \<Rightarrow> [seg]
             | prev # before \<Rightarrow>
                 if ms (cov_to prev) = Some (fst ab) \<and> confirmedAt prev = conf
                 then prev\<lparr>cov_to := oget_or [] bounds (snd ab)\<rparr> # before
                 else seg # prev # before)"

definition addCoverage ::
  "coverage_segment list \<Rightarrow> string \<Rightarrow> string \<Rightarrow> string \<Rightarrow> string \<Rightarrow> coverage_segment list" where
  "addCoverage cov key a b at =
     (if \<not> num_less (ms a) (ms b) then cov
      else
        let own = filter (\<lambda>c. cov_key c = key) cov;
            others = filter (\<lambda>c. cov_key c \<noteq> key) cov;
            spans = own @ [\<lparr>cov_key = key, cov_from = a, cov_to = b, confirmedAt = at\<rparr>];
            bounds = bounds_of spans;
            points = sort (okeys bounds);
            merged = foldl (merge_span key spans bounds) [] (zip points (tl points))
        in others @ rev merged)"

definition mergeCoverage :: "coverage_segment list \<Rightarrow> coverage_segment list \<Rightarrow> coverage_segment list" where
  "mergeCoverage a b =
     foldl (\<lambda>acc s. addCoverage acc (cov_key s) (cov_from s) (cov_to s) (confirmedAt s)) a b"

definition compare_segments :: "coverage_segment \<Rightarrow> coverage_segment \<Rightarrow> int" where
  "compare_segments a b =
     (if cov_key a < cov_key b then - 1
      else if cov_key b < cov_key a then 1
      else case (ms (cov_from a), ms (cov_from b)) of (Some x, Some y) \<Rightarrow> x - y | _ \<Rightarrow> 0)"

definition sortCoverage :: "coverage_segment list \<Rightarrow> coverage_segment list" where
  "sortCoverage cov = js_sort compare_segments cov"

section \<open>The fold\<close>

text \<open>\<open>{...(previous?.fields ?? {}), ...upsert.fields}\<close>\<close>

definition spread :: "(string, json) omap \<Rightarrow> (string, json) omap \<Rightarrow> (string, json) omap" where
  "spread old new = foldl (\<lambda>m (k, v). oset k v m) old new"

definition apply_upsert ::
  "string \<Rightarrow> string \<Rightarrow> (string, mirror_record) omap \<Rightarrow> canonical_record \<Rightarrow> (string, mirror_record) omap"
where
  "apply_upsert c received recs u =
     (let key = recordKey c (cr_id u);
          old = (case oget recs key of None \<Rightarrow> [] | Some p \<Rightarrow> mr_fields p)
      in oset key \<lparr>mr_id = cr_id u, mr_collection = c, mr_fields = spread old (cr_fields u),
                   lastSeenAt = received, absentSince = None, deletedAt = None\<rparr> recs)"

definition apply_absent ::
  "scope \<Rightarrow> string \<Rightarrow> (string, mirror_record) omap \<Rightarrow> string \<Rightarrow> (string, mirror_record) omap" where
  "apply_absent s received recs i =
     (let key = recordKey (sc_collection s) i in
      case oget recs key of
        None \<Rightarrow> recs
      | Some r \<Rightarrow>
          if is_id_scope s
          then oset key (r\<lparr>deletedAt := Some received, absentSince := None\<rparr>) recs
          else if \<not> truthy (deletedAt r) \<and> \<not> truthy (absentSince r)
          then oset key (r\<lparr>absentSince := Some received\<rparr>) recs
          else recs)"

definition applyIncremental :: "mirror \<Rightarrow> incremental \<Rightarrow> mirror" where
  "applyIncremental mir i =
     (let s = scope i;
          recs = foldl (apply_upsert (sc_collection s) (receivedAt i)) (records mir) (upserts i);
          recs = foldl (apply_absent s (receivedAt i)) recs (absent i)
      in \<lparr>records = recs,
          coverage =
            (if complete i \<and> \<not> is_id_scope s
             then addCoverage (coverage mir) (coverageKey s) (sc_from s) (sc_to s) (receivedAt i)
             else coverage mir)\<rparr>)"

definition fold_log :: "mirror \<Rightarrow> incremental list \<Rightarrow> mirror" where
  "fold_log base is =
     (let m = foldl applyIncremental base (js_sort comparePositions is)
      in m\<lparr>coverage := sortCoverage (coverage m)\<rparr>)"

definition coverage_json :: "coverage_segment \<Rightarrow> json" where
  "coverage_json c = JObj [(''key'', JStr (cov_key c)), (''from'', JStr (cov_from c)),
     (''to'', JStr (cov_to c)), (''confirmedAt'', JStr (confirmedAt c))]"

text \<open>An optional property that is not there is not a key of the object.\<close>

definition opt_entry :: "string \<Rightarrow> string option \<Rightarrow> (string \<times> json) list" where
  "opt_entry k v = (case v of None \<Rightarrow> [] | Some s \<Rightarrow> [(k, JStr s)])"

definition mirror_record_json :: "mirror_record \<Rightarrow> json" where
  "mirror_record_json r = JObj ([(''id'', JStr (mr_id r)), (''collection'', JStr (mr_collection r)),
     (''fields'', JObj (mr_fields r)), (''lastSeenAt'', JStr (lastSeenAt r))]
     @ opt_entry ''absentSince'' (absentSince r) @ opt_entry ''deletedAt'' (deletedAt r))"

definition mirrorDigest :: "mirror \<Rightarrow> string" where
  "mirrorDigest m = stableStringify (JObj
     [(''records'', JObj (map (\<lambda>(k, r). (k, mirror_record_json r)) (records m))),
      (''coverage'', JArr (map coverage_json (sortCoverage (coverage m))))])"

section \<open>Confirmations, instant by instant\<close>

text \<open>
  What coverage means: for each key and instant, the latest confirmation of a segment over
  it. \<open>omax\<close> is the maximum with \<open>None\<close> (not covered) below every instant.
\<close>

definition omax :: "int option \<Rightarrow> int option \<Rightarrow> int option" where
  "omax a b = (case a of None \<Rightarrow> b | Some x \<Rightarrow> (case b of None \<Rightarrow> a | Some y \<Rightarrow> Some (max x y)))"

lemma omax_simps [simp]:
  "omax None b = b" "omax a None = a" "omax (Some x) (Some y) = Some (max x y)" "omax a a = a"
  by (auto simp: omax_def split: option.split)

lemma omax_comm: "omax a b = omax b a"
  by (auto simp: omax_def split: option.split)

lemma omax_assoc: "omax (omax a b) c = omax a (omax b c)"
  by (auto simp: omax_def split: option.split)

lemma omax_left_comm: "omax a (omax b c) = omax b (omax a c)"
  by (auto simp: omax_def split: option.split)

lemmas omax_ac = omax_comm omax_assoc omax_left_comm

definition spans_instant :: "int \<Rightarrow> coverage_segment \<Rightarrow> bool" where
  "spans_instant t s = (num_le (ms (cov_from s)) (Some t) \<and> num_less (Some t) (ms (cov_to s)))"

fun latest :: "coverage_segment list \<Rightarrow> string \<Rightarrow> int \<Rightarrow> int option" where
  "latest [] k t = None"
| "latest (s # cov) k t =
     (if cov_key s = k \<and> spans_instant t s then omax (ms (confirmedAt s)) (latest cov k t)
      else latest cov k t)"

lemma latest_append: "latest (xs @ ys) k t = omax (latest xs k t) (latest ys k t)"
  by (induction xs) (auto simp: omax_assoc)

lemma latest_rev [simp]: "latest (rev xs) k t = latest xs k t"
  by (induction xs) (auto simp: latest_append omax_comm)

lemma latest_filter_key:
  "latest (filter (\<lambda>c. cov_key c = key) xs) k t = (if k = key then latest xs k t else None)"
  "latest (filter (\<lambda>c. cov_key c \<noteq> key) xs) k t = (if k = key then None else latest xs k t)"
  by (induction xs) auto

text \<open>A segment that can be stored: a span that is not empty, confirmed at some instant.\<close>

definition seg_ok :: "coverage_segment \<Rightarrow> bool" where
  "seg_ok s \<longleftrightarrow> num_less (ms (cov_from s)) (ms (cov_to s)) \<and> ms (confirmedAt s) \<noteq> None"

definition ends_before :: "coverage_segment \<Rightarrow> coverage_segment \<Rightarrow> bool" where
  "ends_before s s' = num_le (ms (cov_to s)) (ms (cov_from s'))"

definition cov_ok :: "coverage_segment list \<Rightarrow> bool" where
  "cov_ok cov \<longleftrightarrow> (\<forall>s \<in> set cov. seg_ok s)
     \<and> (\<forall>k. sorted_wrt ends_before (filter (\<lambda>c. cov_key c = k) cov))"

lemma seg_okD:
  assumes "seg_ok s"
  obtains a b c where "ms (cov_from s) = Some a" "ms (cov_to s) = Some b" "a < b"
    "ms (confirmedAt s) = Some c"
  using assms that by (auto simp: seg_ok_def num_less_iff)

section \<open>The sweep of \<open>addCoverage\<close>\<close>

text \<open>\<open>bounds\<close> names every bound of a span by a string that denotes it.\<close>

definition bound_values :: "coverage_segment list \<Rightarrow> int set" where
  "bound_values spans = {t. \<exists>s \<in> set spans. ms (cov_from s) = Some t \<or> ms (cov_to s) = Some t}"

definition names_instants :: "(int, string) omap \<Rightarrow> bool" where
  "names_instants m \<longleftrightarrow> (\<forall>t s. oget m t = Some s \<longrightarrow> ms s = Some t)"

lemma note_bound:
  "names_instants m \<Longrightarrow> names_instants (note_bound s m)"
  "dom (oget (note_bound s m)) = dom (oget m) \<union> set_option (ms s)"
  "owf m \<Longrightarrow> owf (note_bound s m)"
  by (auto simp: note_bound_def names_instants_def split: option.splits)

lemma bound_values_simps [simp]:
  "bound_values [] = {}"
  "bound_values (s # spans)
    = set_option (ms (cov_from s)) \<union> set_option (ms (cov_to s)) \<union> bound_values spans"
  by (auto simp: bound_values_def)

lemma bounds_of_foldl:
  defines "f \<equiv> \<lambda>m s. note_bound (cov_to s) (note_bound (cov_from s) m)"
  shows "names_instants m \<Longrightarrow> names_instants (foldl f m spans)"
    "dom (oget (foldl f m spans)) = dom (oget m) \<union> bound_values spans"
    "owf m \<Longrightarrow> owf (foldl f m spans)"
  unfolding f_def
  by (induction spans arbitrary: m) (simp_all add: note_bound Un_ac)

lemma bounds_of:
  "names_instants (bounds_of spans)" "dom (oget (bounds_of spans)) = bound_values spans"
  "owf (bounds_of spans)"
proof -
  have "names_instants []" by (simp add: names_instants_def)
  then show "names_instants (bounds_of spans)" "dom (oget (bounds_of spans)) = bound_values spans"
    "owf (bounds_of spans)"
    unfolding bounds_of_def by (simp_all add: bounds_of_foldl(1,2)) (rule bounds_of_foldl(3), simp)
qed

lemma bounds_name:
  assumes "t \<in> bound_values spans"
  shows "ms (oget_or [] (bounds_of spans) t) = Some t"
proof -
  from assms have "t \<in> dom (oget (bounds_of spans))" by (simp add: bounds_of)
  then obtain s where "oget (bounds_of spans) t = Some s" by auto
  then show ?thesis using bounds_of(1) [of spans] by (simp add: names_instants_def oget_or_def)
qed

lemma points_of_bounds:
  "set (sort (okeys (bounds_of spans))) = bound_values spans"
  "sorted_wrt (<) (sort (okeys (bounds_of spans)))"
proof -
  show "set (sort (okeys (bounds_of spans))) = bound_values spans"
    using bounds_of(2) [of spans] by (simp add: dom_map_of_conv_image_fst)
  show "sorted_wrt (<) (sort (okeys (bounds_of spans)))"
    using bounds_of(3) [of spans] by (simp add: strict_sorted_iff)
qed

lemma latest_of_max:
  "ms x = Some a \<Longrightarrow> (\<forall>y \<in> set ys. ms y \<noteq> None) \<Longrightarrow>
    ms (latest_of x ys) = foldr (\<lambda>y. omax (ms y)) ys (Some a)"
proof (induction ys arbitrary: x a)
  case (Cons y ys)
  then obtain b where b: "ms y = Some b" by auto
  have shift: "foldr (\<lambda>y. omax (ms y)) zs (omax u v) = omax u (foldr (\<lambda>y. omax (ms y)) zs v)"
    for zs u v by (induction zs) (simp_all add: omax_left_comm)
  show ?case
  proof (cases "a < b")
    case True
    have "foldr (\<lambda>y. omax (ms y)) ys (Some b) = foldr (\<lambda>y. omax (ms y)) ys (omax (Some b) (Some a))"
      using True by simp
    with True Cons b show ?thesis by (simp only: shift) simp
  next
    case False
    have "foldr (\<lambda>y. omax (ms y)) ys (Some a) = foldr (\<lambda>y. omax (ms y)) ys (omax (Some b) (Some a))"
      using False by simp
    with False Cons b show ?thesis by (simp only: shift) simp
  qed
qed simp

text \<open>
  The state of the sweep at point \<open>x\<close>: the segments merged so far (newest first) lie before
  \<open>x\<close>, do not overlap, and say for every earlier instant what the spans say.
\<close>

definition swept :: "string \<Rightarrow> coverage_segment list \<Rightarrow> coverage_segment list \<Rightarrow> int \<Rightarrow> bool" where
  "swept key spans merged x \<longleftrightarrow>
     (\<forall>s \<in> set merged. seg_ok s \<and> cov_key s = key \<and> num_le (ms (cov_to s)) (Some x))
     \<and> sorted_wrt (\<lambda>s s'. ends_before s' s) merged
     \<and> (\<forall>t < x. latest merged key t = latest spans key t)"

lemma latest_past: "(\<forall>s \<in> set m. num_le (ms (cov_to s)) (Some x)) \<Longrightarrow> x \<le> t \<Longrightarrow> latest m k t = None"
  by (induction m) (auto simp: spans_instant_def num_le_def num_less_def split: option.splits)

lemma latest_before:
  "(\<forall>s \<in> set m. \<not> num_le (ms (cov_from s)) (Some t)) \<Longrightarrow> latest m k t = None"
  by (induction m) (auto simp: spans_instant_def)

lemma latest_filter_spans:
  "(\<forall>s \<in> set spans. cov_key s = key) \<Longrightarrow>
    latest spans key t = foldr (\<lambda>c. omax (ms c)) (map confirmedAt (filter (spans_instant t) spans)) None"
  by (induction spans) auto

text \<open>Between neighbouring points, a span covers all or nothing.\<close>

lemma covers_iff_spans:
  assumes "seg_ok s" "s \<in> set spans" "x \<le> t" "t < y"
    and gap: "\<forall>v \<in> bound_values spans. v \<le> x \<or> y \<le> v"
  shows "covers x y s \<longleftrightarrow> spans_instant t s"
proof -
  obtain a b where ab: "ms (cov_from s) = Some a" "ms (cov_to s) = Some b"
    using assms(1) by (rule seg_okD)
  then have "a \<le> x \<or> y \<le> a" "b \<le> x \<or> y \<le> b"
    using gap assms(2) by (auto simp: bound_values_def)
  with ab assms(3,4) show ?thesis by (auto simp: covers_def spans_instant_def)
qed

lemma merge_span_step:
  assumes sw: "swept key spans merged x" and xy: "x < y"
    and spans: "\<forall>s \<in> set spans. seg_ok s \<and> cov_key s = key"
    and gap: "\<forall>v \<in> bound_values spans. v \<le> x \<or> y \<le> v"
    and xyb: "x \<in> bound_values spans" "y \<in> bound_values spans"
  shows "swept key spans (merge_span key spans (bounds_of spans) merged (x, y)) y"
proof -
  let ?F = "filter (covers x y) spans"
  have inside: "latest spans key t = foldr (\<lambda>c. omax (ms c)) (map confirmedAt ?F) None"
    if "x \<le> t" "t < y" for t
  proof -
    have "?F = filter (spans_instant t) spans"
      using spans that gap by (intro filter_cong) (auto simp: covers_iff_spans)
    then show ?thesis using spans by (simp add: latest_filter_spans)
  qed
  have past: "latest merged key t = None" if "x \<le> t" for t
    using sw that by (intro latest_past [of _ x]) (auto simp: swept_def)
  have le: "num_le u (Some x) \<Longrightarrow> num_le u (Some y)" for u
    using xy by (auto simp: num_le_def split: option.splits)
  show ?thesis
  proof (cases ?F)
    case Nil
    have "latest merged key t = latest spans key t" if "t < y" for t
      using that sw Nil past [of t] inside [of t] by (cases "t < x") (auto simp: swept_def)
    with Nil sw le show ?thesis by (auto simp: merge_span_def swept_def)
  next
    case (Cons s ss)
    have "set (s # ss) \<subseteq> set spans" unfolding Cons [symmetric] by (rule filter_is_subset)
    then have mem: "s \<in> set spans" "set ss \<subseteq> set spans" by simp_all
    define conf where "conf = latest_of (confirmedAt s) (map confirmedAt ss)"
    obtain a where a: "ms (confirmedAt s) = Some a" using spans mem(1) by (auto elim: seg_okD)
    have "ms conf = foldr (\<lambda>y. omax (ms y)) (map confirmedAt ss) (Some a)"
      unfolding conf_def using a spans mem(2) by (intro latest_of_max) (auto simp: seg_ok_def)
    moreover have "foldr (\<lambda>y. omax (ms y)) zs (Some a) = omax (Some a) (foldr (\<lambda>y. omax (ms y)) zs None)"
      for zs by (induction zs) (simp_all add: omax_left_comm)
    ultimately have conf: "ms conf = foldr (\<lambda>c. omax (ms c)) (map confirmedAt ?F) None"
      using Cons a by simp
    then have conf_in: "latest spans key t = ms conf" if "x \<le> t" "t < y" for t
      using inside that by simp
    have conf_ok: "ms conf \<noteq> None" using conf Cons a by (auto simp: omax_def split: option.split)
    let ?b = "\<lambda>v. oget_or [] (bounds_of spans) v"
    have b: "ms (?b x) = Some x" "ms (?b y) = Some y" using xyb by (simp_all add: bounds_name)
    define seg where "seg = \<lparr>cov_key = key, cov_from = ?b x, cov_to = ?b y, confirmedAt = conf\<rparr>"
    have seg: "seg_ok seg" "cov_key seg = key" "ms (cov_to seg) = Some y" "ms (cov_from seg) = Some x"
      "confirmedAt seg = conf"
      using b xy conf_ok by (simp_all add: seg_def seg_ok_def)
    have seg_span: "spans_instant t seg \<longleftrightarrow> x \<le> t \<and> t < y" for t
      using seg by (simp add: spans_instant_def)
    have push: "swept key spans (seg # merged) y"
      unfolding swept_def
    proof (rule conjI [OF _ conjI], rule ballI)
      show "seg_ok u \<and> cov_key u = key \<and> num_le (ms (cov_to u)) (Some y)"
        if "u \<in> set (seg # merged)" for u using that seg sw le by (auto simp: swept_def)
      show "sorted_wrt (\<lambda>s s'. ends_before s' s) (seg # merged)"
        using sw seg by (auto simp: swept_def ends_before_def)
      have "latest (seg # merged) key t = latest spans key t" if "t < y" for t
        using that sw past [of t] conf_in [of t] seg(2,5)
        by (cases "t < x") (auto simp: swept_def seg_span)
      then show "\<forall>t < y. latest (seg # merged) key t = latest spans key t" by blast
    qed
    show ?thesis
    proof (cases merged)
      case Nil
      with push Cons show ?thesis by (simp add: merge_span_def seg_def conf_def Let_def)
    next
      case prev: (Cons p before)
      show ?thesis
      proof (cases "ms (cov_to p) = Some x \<and> confirmedAt p = conf")
        case False
        then have "merge_span key spans (bounds_of spans) merged (x, y) = seg # merged"
          using Cons prev by (auto simp: merge_span_def seg_def conf_def Let_def)
        with push show ?thesis by simp
      next
        case True
        let ?p = "p\<lparr>cov_to := ?b y\<rparr>"
        obtain pa where pa: "ms (cov_from p) = Some pa" "pa < x"
        proof -
          from sw prev have "seg_ok p" by (auto simp: swept_def)
          then show thesis by (rule seg_okD) (use that True in auto)
        qed
        have span_p: "spans_instant t ?p \<longleftrightarrow> spans_instant t p \<or> (x \<le> t \<and> t < y)" for t
          using pa b xy True by (auto simp: spans_instant_def)
        have "swept key spans (?p # before) y"
          unfolding swept_def
        proof (rule conjI [OF _ conjI], rule ballI)
          show "seg_ok u \<and> cov_key u = key \<and> num_le (ms (cov_to u)) (Some y)"
            if "u \<in> set (?p # before)" for u
          proof (cases "u = ?p")
            case True
            with sw prev pa b xy show ?thesis by (auto simp: swept_def seg_ok_def)
          next
            case False
            with that sw prev le show ?thesis by (auto simp: swept_def)
          qed
          show "sorted_wrt (\<lambda>s s'. ends_before s' s) (?p # before)"
            using sw prev by (auto simp: swept_def ends_before_def)
          have "latest (?p # before) key t = latest spans key t" if "t < y" for t
          proof (cases "t < x")
            case True
            then have "latest (?p # before) key t = latest (p # before) key t"
              using span_p [of t] by simp
            also have "\<dots> = latest spans key t"
              using True sw unfolding swept_def prev by blast
            finally show ?thesis .
          next
            case False
            with past [of t] prev have "latest before key t = None"
              using sw by (intro latest_past [of _ x]) (auto simp: swept_def)
            with False that conf_in [of t] sw prev True span_p [of t] show ?thesis
              by (auto simp: swept_def)
          qed
          then show "\<forall>t < y. latest (?p # before) key t = latest spans key t" by blast
        qed
        with Cons prev True show ?thesis
          by (simp add: merge_span_def conf_def Let_def)
      qed
    qed
  qed
qed

lemma merge_spans:
  assumes "swept key spans merged x" "sorted_wrt (<) (x # xs)"
    and "\<forall>s \<in> set spans. seg_ok s \<and> cov_key s = key"
    and "\<forall>v \<in> bound_values spans. v \<le> x \<or> v \<in> set xs"
    and "set (x # xs) \<subseteq> bound_values spans"
  shows "swept key spans (foldl (merge_span key spans (bounds_of spans)) merged (zip (x # xs) xs))
    (last (x # xs))"
  using assms
proof (induction xs arbitrary: x merged)
  case (Cons y ys)
  have "swept key spans (merge_span key spans (bounds_of spans) merged (x, y)) y"
  proof (rule merge_span_step)
    show "\<forall>v \<in> bound_values spans. v \<le> x \<or> y \<le> v"
      using Cons.prems(2,4) by (metis less_imp_le order_refl set_ConsD sorted_wrt.simps(2))
  qed (use Cons.prems in auto)
  then have "swept key spans (foldl (merge_span key spans (bounds_of spans))
      (merge_span key spans (bounds_of spans) merged (x, y)) (zip (y # ys) ys)) (last (y # ys))"
  proof (rule Cons.IH)
    show "\<forall>v \<in> bound_values spans. v \<le> y \<or> v \<in> set ys"
      using Cons.prems(2,4) by fastforce
  qed (use Cons.prems in auto)
  then show ?case by simp
qed simp

section \<open>What \<open>addCoverage\<close> does\<close>

lemma sweep_result:
  assumes spans: "\<forall>s \<in> set spans. seg_ok s \<and> cov_key s = key"
  defines "ps \<equiv> sort (okeys (bounds_of spans))"
  defines "m \<equiv> foldl (merge_span key spans (bounds_of spans)) [] (zip ps (tl ps))"
  shows "(\<forall>s \<in> set m. seg_ok s \<and> cov_key s = key) \<and> sorted_wrt (\<lambda>s s'. ends_before s' s) m
    \<and> (\<forall>t. latest m key t = latest spans key t)"
proof (cases ps)
  case Nil
  then have "bound_values spans = {}" using points_of_bounds(1) [of spans] by (simp add: ps_def)
  then have "spans = []" using spans by (cases spans) (auto elim: seg_okD)
  with Nil show ?thesis by (simp add: m_def)
next
  case (Cons x xs)
  have set: "set (x # xs) = bound_values spans" and sorted: "sorted_wrt (<) (x # xs)"
    using points_of_bounds [of spans] unfolding ps_def [symmetric] Cons by blast+
  have first: "\<forall>v \<in> bound_values spans. x \<le> v"
    using sorted unfolding set [symmetric] by auto
  have "latest spans key t = None" if "t < x" for t
  proof (rule latest_before, rule ballI)
    fix s assume s: "s \<in> set spans"
    then obtain a where a: "ms (cov_from s) = Some a" using spans by (auto elim: seg_okD)
    with s have "a \<in> bound_values spans" by (auto simp: bound_values_def)
    with first that a show "\<not> num_le (ms (cov_from s)) (Some t)" by auto
  qed
  then have "swept key spans [] x" by (simp add: swept_def)
  from merge_spans [OF this sorted spans]
  have "swept key spans (foldl (merge_span key spans (bounds_of spans)) [] (zip (x # xs) xs))
      (last (x # xs))" unfolding set [symmetric] by auto
  then have sw: "swept key spans m (last (x # xs))" by (simp add: m_def Cons)
  have last: "\<forall>v \<in> bound_values spans. v \<le> last (x # xs)"
  proof
    fix v assume "v \<in> bound_values spans"
    with set obtain i where i: "i < length (x # xs)" "v = (x # xs) ! i" by (metis in_set_conv_nth)
    then show "v \<le> last (x # xs)"
      using sorted_wrt_nth_less [OF sorted, of i "length (x # xs) - 1"]
      by (cases "i = length (x # xs) - 1") (auto simp: last_conv_nth simp del: nth_Cons_Suc)
  qed
  have "latest m key t = latest spans key t" if "last (x # xs) \<le> t" for t
  proof -
    have "latest m key t = None"
      using sw that by (intro latest_past [of _ "last (x # xs)"]) (auto simp: swept_def)
    moreover have "num_le (ms (cov_to s)) (Some (last (x # xs)))" if s: "s \<in> set spans" for s
    proof -
      from s spans obtain b where b: "ms (cov_to s) = Some b" by (auto elim: seg_okD)
      with s have "b \<in> bound_values spans" by (auto simp: bound_values_def)
      with last b show ?thesis by auto
    qed
    then have "latest spans key t = None"
      using that by (intro latest_past [of _ "last (x # xs)"]) auto
    ultimately show ?thesis by simp
  qed
  with sw show ?thesis unfolding swept_def by (metis not_le)
qed

lemma addCoverage_result:
  assumes cov: "\<forall>s \<in> set cov. seg_ok s" and conf: "ms at \<noteq> None"
  shows "latest (addCoverage cov key a b at) k t =
      (if k = key \<and> spans_instant t \<lparr>cov_key = key, cov_from = a, cov_to = b, confirmedAt = at\<rparr>
       then omax (ms at) (latest cov k t) else latest cov k t)"
    and "cov_ok cov \<Longrightarrow> cov_ok (addCoverage cov key a b at)"
proof -
  let ?new = "\<lparr>cov_key = key, cov_from = a, cov_to = b, confirmedAt = at\<rparr>"
  let ?own = "filter (\<lambda>c. cov_key c = key) cov" and ?others = "filter (\<lambda>c. cov_key c \<noteq> key) cov"
  define spans where "spans = ?own @ [?new]"
  define m where "m = foldl (merge_span key spans (bounds_of spans)) []
    (zip (sort (okeys (bounds_of spans))) (tl (sort (okeys (bounds_of spans)))))"
  have "latest (addCoverage cov key a b at) k t =
      (if k = key \<and> spans_instant t ?new then omax (ms at) (latest cov k t) else latest cov k t)
    \<and> (cov_ok cov \<longrightarrow> cov_ok (addCoverage cov key a b at))"
  proof (cases "num_less (ms a) (ms b)")
    case False
    then have "\<not> spans_instant t ?new"
      by (auto simp: spans_instant_def num_le_def num_less_def split: option.splits)
    with False show ?thesis by (simp add: addCoverage_def)
  next
    case True
    have "\<forall>s \<in> set spans. seg_ok s \<and> cov_key s = key"
      using True cov conf by (auto simp: spans_def seg_ok_def)
    from sweep_result [OF this] have m: "\<forall>s \<in> set m. seg_ok s \<and> cov_key s = key"
      "sorted_wrt (\<lambda>s s'. ends_before s' s) m" "\<And>t. latest m key t = latest spans key t"
      by (auto simp: m_def)
    have add: "addCoverage cov key a b at = ?others @ rev m"
      using True by (simp add: addCoverage_def Let_def m_def spans_def)
    have other: "latest m k t = None" if "k \<noteq> key"
      using m(1) that by (induction m) auto
    have "latest (?others @ rev m) k t =
      (if k = key \<and> spans_instant t ?new then omax (ms at) (latest cov k t) else latest cov k t)"
      using m(3) [of t] other
      by (auto simp: latest_append latest_filter_key spans_def omax_comm)
    moreover have "cov_ok (?others @ rev m)" if ok: "cov_ok cov"
      unfolding cov_ok_def
    proof (intro conjI allI)
      show "\<forall>s \<in> set (?others @ rev m). seg_ok s" using cov m(1) by auto
      show "sorted_wrt ends_before (filter (\<lambda>c. cov_key c = k') (?others @ rev m))" for k'
      proof (cases "k' = key")
        case True
        then have "filter (\<lambda>c. cov_key c = k') (?others @ rev m) = rev m"
          using m(1) by (auto simp: filter_id_conv filter_empty_conv)
        with m(2) show ?thesis by (simp add: sorted_wrt_rev)
      next
        case False
        then have "filter (\<lambda>c. cov_key c = k') (rev m) = []"
          using m(1) by (auto simp: filter_empty_conv)
        moreover have "filter (\<lambda>c. cov_key c = k') ?others = filter (\<lambda>c. cov_key c = k') cov"
          using False by (auto intro: filter_cong)
        ultimately show ?thesis using ok by (simp add: cov_ok_def)
      qed
    qed
    ultimately show ?thesis by (simp add: add)
  qed
  then show "latest (addCoverage cov key a b at) k t =
      (if k = key \<and> spans_instant t ?new then omax (ms at) (latest cov k t) else latest cov k t)"
    "cov_ok cov \<Longrightarrow> cov_ok (addCoverage cov key a b at)" by simp_all
qed

lemma cov_ok_seg: "cov_ok cov \<Longrightarrow> \<forall>s \<in> set cov. seg_ok s"
  by (simp add: cov_ok_def)

lemma mergeCoverage_result:
  assumes "cov_ok a" "\<forall>s \<in> set b. seg_ok s"
  shows "cov_ok (mergeCoverage a b)"
    and "latest (mergeCoverage a b) k t = omax (latest a k t) (latest b k t)"
proof -
  have "cov_ok (mergeCoverage a b)
      \<and> latest (mergeCoverage a b) k t = omax (latest a k t) (latest b k t)"
    using assms
  proof (induction b arbitrary: a)
    case (Cons s b)
    then have conf: "ms (confirmedAt s) \<noteq> None" by (auto simp: seg_ok_def)
    note add = addCoverage_result [OF cov_ok_seg [OF Cons.prems(1)] conf, of "cov_key s" "cov_from s" "cov_to s"]
    from Cons.IH [OF add(2) [OF Cons.prems(1)]] Cons.prems(2) show ?case
      by (auto simp: mergeCoverage_def add(1) spans_instant_def omax_ac)
  qed (simp add: mergeCoverage_def)
  then show "cov_ok (mergeCoverage a b)"
    "latest (mergeCoverage a b) k t = omax (latest a k t) (latest b k t)" by simp_all
qed

end
