(* ===== verification/Ts_Fold.thy ===== *)
theory Ts_Fold
  imports Ts_Observations "HOL-Library.Product_Lexorder"
begin

text \<open>
  What the fold and the mask-diff of
  \<^verbatim>\<open>src/integrations/timesheets/app/observations.ts\<close> guarantee: the fold does not depend on
  the order in which a device holds the incrementals, a snapshot of a prefix may stand for
  the prefix, and a read that has been diffed and applied has nothing new to say.
\<close>

section \<open>Positions are totally ordered\<close>

definition dated :: "'a observation_header_scheme \<Rightarrow> bool" where
  "dated i = (ms (receivedAt i) \<noteq> None)"

text \<open>\<open>compare_position\<close> orders by instant, then text, then identifier.\<close>

definition position_key :: "string \<times> string \<Rightarrow> int \<times> string \<times> string" where
  "position_key p = (the (ms (fst p)), p)"

lemma compare_position_le:
  assumes "ms (fst a) = Some x" "ms (fst b) = Some y"
  shows "compare_position a b \<le> 0 \<longleftrightarrow> position_key a \<le> position_key b"
  using assms
  by (cases a; cases b) (auto simp: compare_position_def position_key_def less_eq_prod_def)

lemma comparePositions_le:
  "dated i \<Longrightarrow> dated j \<Longrightarrow>
    comparePositions i j \<le> 0 \<longleftrightarrow> position_key (position i) \<le> position_key (position j)"
  by (auto simp: dated_def comparePositions_def position_def compare_position_le)

interpretation positions: comparator comparePositions dated
proof
  show "comparePositions x y \<le> 0 \<or> comparePositions y x \<le> 0"
    if "dated x" "dated y" for x y :: "'a observation_header_scheme"
    using that by (simp add: comparePositions_le linear)
  show "comparePositions x z \<le> 0"
    if "dated x" "dated y" "dated z" "comparePositions x y \<le> 0" "comparePositions y z \<le> 0"
    for x y z :: "'a observation_header_scheme"
    using that by (simp add: comparePositions_le)
qed

lemma comparePositions_antisym:
  "dated x \<Longrightarrow> dated y \<Longrightarrow> comparePositions x y \<le> 0 \<Longrightarrow> comparePositions y x \<le> 0
    \<Longrightarrow> position x = position y"
  by (auto simp: comparePositions_le position_key_def dest: order.antisym)

lemma sort_positions_unique:
  assumes "mset xs = mset ys" "\<forall>x \<in> set xs. dated x" "inj_on position (set xs)"
  shows "js_sort comparePositions xs = js_sort comparePositions ys"
proof (rule sorted_perm_unique [where P = "\<lambda>x y. comparePositions x y \<le> 0"])
  have ys: "\<forall>y \<in> set ys. dated y" using assms(1,2) mset_eq_setD by metis
  show "sorted_wrt (\<lambda>x y. comparePositions x y \<le> 0) (js_sort comparePositions xs)"
    by (rule positions.sort_sorted [OF assms(2)])
  show "sorted_wrt (\<lambda>x y. comparePositions x y \<le> 0) (js_sort comparePositions ys)"
    by (rule positions.sort_sorted [OF ys])
  show "x = y" if "x \<in> set (js_sort comparePositions xs)" "y \<in> set (js_sort comparePositions xs)"
    "comparePositions x y \<le> 0" "comparePositions y x \<le> 0" for x y
    using that assms(2,3) comparePositions_antisym [of x y] by (auto dest: inj_onD)
qed (use assms(1) in simp)

section \<open>Coverage up to the order of keys\<close>

text \<open>
  Two coverage lists are equivalent when they hold the same segments of each key in the
  same order; sorting brings equivalent lists into one form.
\<close>

definition same_coverage :: "coverage_segment list \<Rightarrow> coverage_segment list \<Rightarrow> bool" where
  "same_coverage c c' \<longleftrightarrow> (\<forall>k. filter (\<lambda>s. cov_key s = k) c = filter (\<lambda>s. cov_key s = k) c')"

lemma same_coverage_set: "same_coverage c c' \<Longrightarrow> set c = set c'"
proof -
  assume same: "same_coverage c c'"
  have "s \<in> set c \<longleftrightarrow> s \<in> set c'" for s
  proof -
    have "s \<in> set d \<longleftrightarrow> s \<in> set (filter (\<lambda>u. cov_key u = cov_key s) d)" for d by auto
    with same show ?thesis unfolding same_coverage_def by metis
  qed
  then show ?thesis by blast
qed

lemma same_coverage_mset: "same_coverage c c' \<Longrightarrow> mset c = mset c'"
proof (rule multiset_eqI)
  fix s :: coverage_segment assume same: "same_coverage c c'"
  have "count (mset cov) s = count (mset (filter (\<lambda>u. cov_key u = cov_key s) cov)) s" for cov
    by simp
  with same show "count (mset c) s = count (mset c') s" by (metis same_coverage_def)
qed

lemma same_coverage_ok: "same_coverage c c' \<Longrightarrow> cov_ok c \<Longrightarrow> cov_ok c'"
  unfolding cov_ok_def using same_coverage_set [of c c'] unfolding same_coverage_def by metis

lemma addCoverage_same:
  assumes "same_coverage c c'"
  shows "same_coverage (addCoverage c key a b at) (addCoverage c' key a b at)"
proof -
  have own: "filter (\<lambda>s. cov_key s = key) c = filter (\<lambda>s. cov_key s = key) c'"
    using assms by (simp add: same_coverage_def)
  have others: "filter (\<lambda>s. cov_key s = k) (filter (\<lambda>s. cov_key s \<noteq> key) c)
      = filter (\<lambda>s. cov_key s = k) (filter (\<lambda>s. cov_key s \<noteq> key) c')" for k
  proof (cases "k = key")
    case False
    have "filter (\<lambda>s. cov_key s = k) (filter (\<lambda>s. cov_key s \<noteq> key) d)
        = filter (\<lambda>s. cov_key s = k) d"
      for d :: "coverage_segment list" using False by (auto intro: filter_cong)
    with assms show ?thesis by (simp only: same_coverage_def)
  qed (simp add: filter_empty_conv)
  from assms own others show ?thesis by (simp add: same_coverage_def addCoverage_def Let_def)
qed

lemma compare_segments_le:
  assumes "seg_ok a" "seg_ok b"
  shows "compare_segments a b \<le> 0 \<longleftrightarrow> cov_key a < cov_key b
    \<or> cov_key a = cov_key b \<and> num_le (ms (cov_from a)) (ms (cov_from b))"
  using assms by (auto simp: compare_segments_def elim!: seg_okD)

interpretation segments: comparator compare_segments seg_ok
proof
  show "compare_segments x y \<le> 0 \<or> compare_segments y x \<le> 0" if "seg_ok x" "seg_ok y" for x y
    using that by (auto simp: compare_segments_le elim!: seg_okD)
  show "compare_segments x z \<le> 0"
    if "seg_ok x" "seg_ok y" "seg_ok z" "compare_segments x y \<le> 0" "compare_segments y z \<le> 0"
    for x y z
    using that by (auto simp: compare_segments_le elim!: seg_okD)
qed

text \<open>The segments of one key are sorted already, so sorting leaves them alone.\<close>

lemma sortCoverage_same:
  assumes "cov_ok c"
  shows "same_coverage (sortCoverage c) c"
  unfolding same_coverage_def sortCoverage_def
proof
  fix k
  let ?F = "filter (\<lambda>s. cov_key s = k) c"
  have ok: "\<forall>s \<in> set c. seg_ok s" using assms by (rule cov_ok_seg)
  have "sorted_wrt (\<lambda>x y. compare_segments x y \<le> 0) ?F"
  proof (rule sorted_wrt_mono_rel [of _ ends_before])
    show "sorted_wrt ends_before ?F" using assms by (simp add: cov_ok_def)
    fix x y assume xy: "x \<in> set ?F" "y \<in> set ?F" "ends_before x y"
    with ok have "seg_ok x" "seg_ok y" by auto
    then show "compare_segments x y \<le> 0" using xy
      by (auto simp: compare_segments_le ends_before_def elim!: seg_okD)
  qed
  then have "js_sort compare_segments ?F = ?F" by (rule js_sort_id)
  then show "filter (\<lambda>s. cov_key s = k) (js_sort compare_segments c) = ?F"
    using segments.filter_sort [OF ok] by simp
qed

lemma sortCoverage_unique:
  assumes "cov_ok c" "same_coverage c c'"
  shows "sortCoverage c = sortCoverage c'"
  unfolding sortCoverage_def
proof (rule sorted_perm_unique [where P = "\<lambda>x y. compare_segments x y \<le> 0"])
  have ok: "\<forall>s \<in> set c. seg_ok s" "\<forall>s \<in> set c'. seg_ok s"
    using cov_ok_seg [OF assms(1)] cov_ok_seg [OF same_coverage_ok [OF assms(2,1)]] by simp_all
  show "sorted_wrt (\<lambda>x y. compare_segments x y \<le> 0) (js_sort compare_segments c)"
    "sorted_wrt (\<lambda>x y. compare_segments x y \<le> 0) (js_sort compare_segments c')"
    by (rule segments.sort_sorted [OF ok(1)], rule segments.sort_sorted [OF ok(2)])
  show "x = y" if xy: "x \<in> set (js_sort compare_segments c)" "y \<in> set (js_sort compare_segments c)"
    "compare_segments x y \<le> 0" "compare_segments y x \<le> 0" for x y
  proof (rule ccontr)
    assume "x \<noteq> y"
    have okxy: "seg_ok x" "seg_ok y" using xy ok by auto
    with xy(3,4) have key: "cov_key x = cov_key y" and from_eq: "ms (cov_from x) = ms (cov_from y)"
      by (auto simp: compare_segments_le elim!: seg_okD)
    let ?F = "filter (\<lambda>s. cov_key s = cov_key x) c"
    have mem: "x \<in> set ?F" "y \<in> set ?F" using xy(1,2) key by auto
    have "sorted_wrt ends_before ?F" using assms(1) by (simp add: cov_ok_def)
    then have "ends_before x y \<or> ends_before y x"
      using mem \<open>x \<noteq> y\<close> by (rule sorted_wrt_either)
    with okxy from_eq show False by (auto simp: ends_before_def elim!: seg_okD)
  qed
qed (simp add: same_coverage_mset [OF assms(2)])

section \<open>The fold\<close>

definition same_mirror :: "mirror \<Rightarrow> mirror \<Rightarrow> bool" where
  "same_mirror m m' \<longleftrightarrow> records m = records m' \<and> same_coverage (coverage m) (coverage m')"

lemma applyIncremental_ok:
  "dated i \<Longrightarrow> cov_ok (coverage m) \<Longrightarrow> cov_ok (coverage (applyIncremental m i))"
  by (simp add: applyIncremental_def Let_def dated_def addCoverage_result(2) cov_ok_seg)

lemma foldl_apply_ok:
  "(\<forall>i \<in> set is. dated i) \<Longrightarrow> cov_ok (coverage m) \<Longrightarrow> cov_ok (coverage (foldl applyIncremental m is))"
  by (induction "is" arbitrary: m) (simp_all add: applyIncremental_ok)

lemma applyIncremental_same: "same_mirror m m' \<Longrightarrow> same_mirror (applyIncremental m i) (applyIncremental m' i)"
  by (auto simp: same_mirror_def applyIncremental_def Let_def addCoverage_same)

lemma foldl_apply_same:
  "same_mirror m m' \<Longrightarrow> same_mirror (foldl applyIncremental m is) (foldl applyIncremental m' is)"
  by (induction "is" arbitrary: m m') (simp_all add: applyIncremental_same)

lemma fold_log_same:
  assumes "same_mirror (foldl applyIncremental m xs) (foldl applyIncremental m' ys)"
    "cov_ok (coverage (foldl applyIncremental m xs))"
    "js_sort comparePositions is = xs" "js_sort comparePositions js = ys"
  shows "fold_log m is = fold_log m' js"
  using assms sortCoverage_unique [of "coverage (foldl applyIncremental m xs)"]
  by (auto simp: fold_log_def Let_def same_mirror_def intro: mirror.equality)

lemma fold_log_prefix:
  assumes "cov_ok (coverage base)" "\<forall>i \<in> set xs \<union> set ys. dated i"
    and before: "\<forall>x \<in> set xs. \<forall>y \<in> set ys. comparePositions x y \<le> 0"
  shows "fold_log (fold_log base xs) ys = fold_log base (xs @ ys)"
proof -
  let ?xs = "js_sort comparePositions xs" and ?ys = "js_sort comparePositions ys"
  let ?m = "foldl applyIncremental base ?xs"
  have ok: "cov_ok (coverage ?m)" using assms(1,2) by (intro foldl_apply_ok) auto
  have "same_mirror (fold_log base xs) ?m"
    using sortCoverage_same [OF ok] by (simp add: fold_log_def Let_def same_mirror_def)
  then have same: "same_mirror (foldl applyIncremental (fold_log base xs) ?ys)
      (foldl applyIncremental base (?xs @ ?ys))"
    unfolding foldl_append by (rule foldl_apply_same)
  have "cov_ok (coverage (fold_log base xs))"
    using same_coverage_ok [of "coverage ?m"] ok sortCoverage_same [OF ok]
    by (simp add: fold_log_def Let_def same_coverage_def)
  then have "cov_ok (coverage (foldl applyIncremental (fold_log base xs) ?ys))"
    using assms(2) by (intro foldl_apply_ok) auto
  from fold_log_same [OF same this refl] js_sort_append [OF before] show ?thesis by simp
qed

section \<open>The mask-diff and the fold fit together\<close>

text \<open>
  Every record is stored under the key of its collection and id, as \<open>applyIncremental\<close>
  stores it.
\<close>

definition well_keyed :: "(string, mirror_record) omap \<Rightarrow> bool" where
  "well_keyed recs \<longleftrightarrow> owf recs
     \<and> (\<forall>k r. oget recs k = Some r \<longrightarrow> k = recordKey (mr_collection r) (mr_id r))"

lemma recordKey_inj [simp]: "recordKey c i = recordKey c j \<longleftrightarrow> i = j"
  by (simp add: recordKey_def)

lemma set_omap: "owf m \<Longrightarrow> v \<in> snd ` set m \<longleftrightarrow> (\<exists>k. oget m k = Some v)"
  by force

lemma oget_foldl_oset:
  "oget (foldl (\<lambda>m (k, v). oset k v m) m new) = (\<lambda>k. case oget (rev new) k of None \<Rightarrow> oget m k | Some v \<Rightarrow> Some v)"
  by (induction new arbitrary: m) (auto simp: fun_eq_iff map_add_def split: option.split)

lemma pick_oget: "oget (pick fs m) f = (if f \<in> set m then Some (oget_or JNull fs f) else None)"
proof -
  have "oget (foldl (\<lambda>out f. oset f (oget_or JNull fs f) out) out m) f
      = (if f \<in> set m then Some (oget_or JNull fs f) else oget out f)" for out
    by (induction m arbitrary: out) auto
  then show ?thesis by (simp add: pick_def)
qed

lemma pick_owf: "owf (pick fs m)"
proof -
  have "owf out \<Longrightarrow> owf (foldl (\<lambda>out f. oset f (oget_or JNull fs f) out) out m)" for out
    by (induction m arbitrary: out) simp_all
  then show ?thesis by (simp add: pick_def)
qed

lemma map_of_rev: "owf m \<Longrightarrow> oget (rev m) = oget m"
  by (simp add: map_of_inject_set rev_map distinct_map)

lemma spread_pick:
  "oget (spread old (pick fs m)) f = (if f \<in> set m then Some (oget_or JNull fs f) else oget old f)"
  by (simp add: spread_def oget_foldl_oset map_of_rev [OF pick_owf] pick_oget)

text \<open>What the records are after the upserts, and after the absences.\<close>

definition upserted :: "string \<Rightarrow> string \<Rightarrow> (string, mirror_record) omap \<Rightarrow> canonical_record \<Rightarrow> mirror_record"
where
  "upserted c received recs u =
     \<lparr>mr_id = cr_id u, mr_collection = c,
      mr_fields = spread (case oget recs (recordKey c (cr_id u)) of None \<Rightarrow> [] | Some p \<Rightarrow> mr_fields p)
        (cr_fields u),
      lastSeenAt = received, absentSince = None, deletedAt = None\<rparr>"

lemma apply_upsert_oget:
  "oget (apply_upsert c received recs u)
    = (oget recs)(recordKey c (cr_id u) \<mapsto> upserted c received recs u)"
  by (simp add: apply_upsert_def upserted_def Let_def fun_upd_def)

lemma foldl_upserts_oget:
  assumes "distinct (map cr_id us)"
  shows "oget (foldl (apply_upsert c received) recs us) k
    = (case List.find (\<lambda>u. recordKey c (cr_id u) = k) us of
         None \<Rightarrow> oget recs k | Some u \<Rightarrow> Some (upserted c received recs u))"
  using assms
proof (induction us arbitrary: recs)
  case (Cons u us)
  let ?recs = "apply_upsert c received recs u"
  have same: "upserted c received ?recs v = upserted c received recs v" if "v \<in> set us" for v
  proof -
    from that Cons.prems have "cr_id v \<noteq> cr_id u" by (auto simp: image_iff)
    then have "oget ?recs (recordKey c (cr_id v)) = oget recs (recordKey c (cr_id v))"
      by (simp add: apply_upsert_oget)
    then show ?thesis by (simp add: upserted_def)
  qed
  have none: "List.find (\<lambda>v. recordKey c (cr_id v) = recordKey c (cr_id u)) us = None"
    using Cons.prems by (auto simp: find_None_iff image_iff)
  have find_in: "v \<in> set us" if "List.find P us = Some v" for P v
    using that by (induction us) (auto split: if_splits)
  show ?case
    using Cons none
    by (auto simp: apply_upsert_oget same find_in split: option.split dest: find_in)
qed simp

lemma apply_upsert_well_keyed: "well_keyed recs \<Longrightarrow> well_keyed (apply_upsert c received recs u)"
proof -
  assume wk: "well_keyed recs"
  have "owf (apply_upsert c received recs u)"
    using wk by (simp add: apply_upsert_def well_keyed_def Let_def)
  moreover have "k = recordKey (mr_collection r) (mr_id r)"
    if "oget (apply_upsert c received recs u) k = Some r" for k r
    using that wk unfolding apply_upsert_oget well_keyed_def
    by (auto simp: upserted_def split: if_splits)
  ultimately show ?thesis by (simp add: well_keyed_def)
qed

definition marked :: "scope \<Rightarrow> string \<Rightarrow> mirror_record \<Rightarrow> mirror_record" where
  "marked s received r =
     (if is_id_scope s then r\<lparr>deletedAt := Some received, absentSince := None\<rparr>
      else if \<not> truthy (deletedAt r) \<and> \<not> truthy (absentSince r) then r\<lparr>absentSince := Some received\<rparr>
      else r)"

lemma apply_absent_oget:
  "oget (apply_absent s received recs i) k =
     (if k = recordKey (sc_collection s) i then map_option (marked s received) (oget recs k)
      else oget recs k)"
  by (auto simp: apply_absent_def marked_def Let_def split: option.split)

lemma apply_absent_well_keyed: "well_keyed recs \<Longrightarrow> well_keyed (apply_absent s received recs i)"
proof -
  assume wk: "well_keyed recs"
  then have "owf (apply_absent s received recs i)"
    by (auto simp: apply_absent_def well_keyed_def Let_def split: option.split)
  moreover have "k = recordKey (mr_collection r) (mr_id r)"
    if "oget (apply_absent s received recs i) k = Some r" for k r
    using that wk unfolding apply_absent_oget well_keyed_def
    by (auto simp: marked_def split: if_splits)
  ultimately show ?thesis by (simp add: well_keyed_def)
qed

lemma marked_idem: "marked s received (marked s received r) = marked s received r"
  by (auto simp: marked_def)

lemma foldl_absents_oget:
  "oget (foldl (apply_absent s received) recs is) k =
     (if \<exists>i \<in> set is. k = recordKey (sc_collection s) i
      then map_option (marked s received) (oget recs k) else oget recs k)"
  by (induction "is" arbitrary: recs)
    (auto simp: apply_absent_oget option.map_comp comp_def marked_idem)

lemma applyIncremental_well_keyed: "well_keyed (records m) \<Longrightarrow> well_keyed (records (applyIncremental m i))"
proof -
  have "well_keyed recs \<Longrightarrow> well_keyed (foldl (apply_upsert c received) recs us)" for c received recs us
    by (induction us arbitrary: recs) (simp_all add: apply_upsert_well_keyed)
  moreover have "well_keyed recs \<Longrightarrow> well_keyed (foldl (apply_absent s received) recs is)" for s received recs "is"
    by (induction "is" arbitrary: recs) (simp_all add: apply_absent_well_keyed)
  ultimately show "well_keyed (records m) \<Longrightarrow> ?thesis"
    by (simp add: applyIncremental_def Let_def)
qed

lemma diffObservation_simps [simp]:
  "scope (diffObservation m ob) = scope ob"
  "receivedAt (diffObservation m ob) = receivedAt ob"
  "complete (diffObservation m ob) = complete ob"
  "obs_id (diffObservation m ob) = obs_id ob"
  "absent (diffObservation m ob) = absent_ids m ob"
  "upserts (diffObservation m ob)
    = fst (diff_records m (sc_collection (scope ob)) (mask ob) (obs_records ob))"
  by (simp_all add: diffObservation_def observation_header.defs split: prod.split)

definition unchanged_record :: "mirror \<Rightarrow> string \<Rightarrow> string list \<Rightarrow> canonical_record \<Rightarrow> bool" where
  "unchanged_record mir c m r =
     same_record m (oget (records mir) (recordKey c (cr_id r))) (pick (cr_fields r) m)"

lemma diff_records_fst:
  "fst (diff_records mir c m rs) =
     map (\<lambda>r. \<lparr>cr_id = cr_id r, cr_fields = pick (cr_fields r) m\<rparr>)
       (filter (\<lambda>r. \<not> unchanged_record mir c m r) rs)"
  by (induction rs) (auto simp: Let_def unchanged_record_def split: prod.splits)

lemma find_distinct:
  "distinct (map f us) \<Longrightarrow> u \<in> set us \<Longrightarrow> List.find (\<lambda>v. f v = f u) us = Some u"
  by (induction us) (auto simp: image_iff)

lemma not_in_absent: "r \<in> set (obs_records ob) \<Longrightarrow> cr_id r \<notin> set (absent_ids m ob)"
  by (auto simp: absent_ids_def) (metis image_eqI)+

text \<open>The record of an id that was read, once the read is applied.\<close>

lemma applied_record:
  assumes distinct: "distinct (map cr_id (obs_records ob))" and r: "r \<in> set (obs_records ob)"
  defines "c \<equiv> sc_collection (scope ob)"
  shows "oget (records (applyIncremental m (diffObservation m ob))) (recordKey c (cr_id r)) =
    (if unchanged_record m c (mask ob) r then oget (records m) (recordKey c (cr_id r))
     else Some (upserted c (receivedAt ob) (records m)
       \<lparr>cr_id = cr_id r, cr_fields = pick (cr_fields r) (mask ob)\<rparr>))"
proof -
  let ?us = "map (\<lambda>r. \<lparr>cr_id = cr_id r, cr_fields = pick (cr_fields r) (mask ob)\<rparr>)
       (filter (\<lambda>r. \<not> unchanged_record m c (mask ob) r) (obs_records ob))"
  let ?u = "\<lparr>cr_id = cr_id r, cr_fields = pick (cr_fields r) (mask ob)\<rparr>"
  have ids: "map cr_id ?us = map cr_id (filter (\<lambda>r. \<not> unchanged_record m c (mask ob) r) (obs_records ob))"
    by simp
  have dist: "distinct (map cr_id ?us)" unfolding ids using distinct by (rule distinct_map_filter)
  have absent: "\<not> (\<exists>i \<in> set (absent_ids m ob). recordKey c (cr_id r) = recordKey (sc_collection (scope ob)) i)"
    using not_in_absent [OF r, of m] by (auto simp: c_def)
  have "oget (records (applyIncremental m (diffObservation m ob))) (recordKey c (cr_id r))
      = oget (foldl (apply_upsert c (receivedAt ob)) (records m) ?us) (recordKey c (cr_id r))"
    using absent
    by (simp add: applyIncremental_def Let_def foldl_absents_oget diff_records_fst c_def)
  also have "\<dots> = (if unchanged_record m c (mask ob) r then oget (records m) (recordKey c (cr_id r))
     else Some (upserted c (receivedAt ob) (records m) ?u))"
  proof (cases "unchanged_record m c (mask ob) r")
    case True
    have "r' = r" if "r' \<in> set (obs_records ob)" "cr_id r' = cr_id r" for r'
      using that distinct r by (auto simp: distinct_map dest: inj_onD)
    with True have "List.find (\<lambda>u. recordKey c (cr_id u) = recordKey c (cr_id r)) ?us = None"
      by (auto simp: find_None_iff)
    with True show ?thesis by (simp add: foldl_upserts_oget [OF dist])
  next
    case False
    then have "?u \<in> set ?us" using r by auto
    from find_distinct [OF dist this]
    have "List.find (\<lambda>u. recordKey c (cr_id u) = recordKey c (cr_id r)) ?us = Some ?u" by simp
    with False show ?thesis by (simp add: foldl_upserts_oget [OF dist])
  qed
  finally show ?thesis .
qed

text \<open>Its fields: the ones read, and outside the mask the earlier ones.\<close>

lemma applied_fields:
  assumes "distinct (map cr_id (obs_records ob))" "r \<in> set (obs_records ob)"
  defines "key \<equiv> recordKey (sc_collection (scope ob)) (cr_id r)"
  obtains p where "oget (records (applyIncremental m (diffObservation m ob))) key = Some p"
    "\<not> truthy (absentSince p)" "\<not> truthy (deletedAt p)"
    "\<And>f. stableStringify (oget_or JNull (mr_fields p) f) = stableStringify
       (if f \<in> set (mask ob) then oget_or JNull (cr_fields r) f
        else oget_or JNull (case oget (records m) key of None \<Rightarrow> [] | Some q \<Rightarrow> mr_fields q) f)"
proof (cases "unchanged_record m (sc_collection (scope ob)) (mask ob) r")
  case True
  with applied_record [OF assms(1,2), of m]
  have eq: "oget (records (applyIncremental m (diffObservation m ob))) key = oget (records m) key"
    by (simp add: key_def)
  from True obtain p where p: "oget (records m) key = Some p" "\<not> truthy (absentSince p)"
    "\<not> truthy (deletedAt p)"
    "\<forall>f \<in> set (mask ob). stableStringify (oget_or JNull (mr_fields p) f)
      = stableStringify (oget_or JNull (pick (cr_fields r) (mask ob)) f)"
    by (auto simp: unchanged_record_def same_record_def key_def list_all_iff split: option.splits)
  show thesis
  proof (rule that [of p])
    fix f
    show "stableStringify (oget_or JNull (mr_fields p) f) = stableStringify
       (if f \<in> set (mask ob) then oget_or JNull (cr_fields r) f
        else oget_or JNull (case oget (records m) key of None \<Rightarrow> [] | Some q \<Rightarrow> mr_fields q) f)"
      using p(1,4) by (auto simp: oget_or_def pick_oget)
  qed (use p eq in simp_all)
next
  case False
  with applied_record [OF assms(1,2), of m] show thesis
    by (intro that) (auto simp: key_def upserted_def oget_or_def spread_pick)
qed

lemma diff_then_apply_empty:
  assumes wk: "well_keyed (records m)" and distinct: "distinct (map cr_id (obs_records ob))"
    and received: "receivedAt ob \<noteq> []"
  shows "isEmpty (diffObservation (applyIncremental m (diffObservation m ob)) ob)"
proof -
  let ?c = "sc_collection (scope ob)" and ?m = "applyIncremental m (diffObservation m ob)"
  have "unchanged_record ?m ?c (mask ob) r" if r: "r \<in> set (obs_records ob)" for r
  proof -
    obtain p where "oget (records ?m) (recordKey ?c (cr_id r)) = Some p"
      "\<not> truthy (absentSince p)" "\<not> truthy (deletedAt p)"
      "\<And>f. stableStringify (oget_or JNull (mr_fields p) f) = stableStringify
         (if f \<in> set (mask ob) then oget_or JNull (cr_fields r) f
          else oget_or JNull (case oget (records m) (recordKey ?c (cr_id r)) of None \<Rightarrow> [] | Some q \<Rightarrow> mr_fields q) f)"
      using applied_fields [OF distinct r, of m] by blast
    then show ?thesis
      by (auto simp: unchanged_record_def same_record_def list_all_iff oget_or_def pick_oget)
  qed
  then have ups: "upserts (diffObservation ?m ob) = []"
    by (simp add: diff_records_fst filter_empty_conv)
  let ?due = "\<lambda>r. \<not> truthy (deletedAt r) \<and> (\<not> truthy (absentSince r) \<or> is_id_scope (scope ob))
    \<and> mr_id r \<notin> cr_id ` set (obs_records ob) \<and> inScope (scope ob) r"
  have "\<not> ?due r" if "r \<in> snd ` set (records ?m)" "complete ob" for r
  proof
    assume due: "?due r"
    have wk': "well_keyed (records ?m)" by (rule applyIncremental_well_keyed [OF wk])
    from that(1) wk' obtain k where k: "oget (records ?m) k = Some r"
      by (auto simp: well_keyed_def set_omap)
    with wk' have key: "k = recordKey (mr_collection r) (mr_id r)" by (auto simp: well_keyed_def)
    have coll: "mr_collection r = ?c" using due by (auto simp: inScope_def split: if_splits)
    let ?ups = "foldl (apply_upsert ?c (receivedAt ob)) (records m) (upserts (diffObservation m ob))"
    have find: "List.find (\<lambda>u. recordKey ?c (cr_id u) = k) (upserts (diffObservation m ob)) = None"
      using due by (auto simp: find_None_iff diff_records_fst key coll image_iff)
    have "distinct (map cr_id (upserts (diffObservation m ob)))"
      using distinct by (simp add: diff_records_fst comp_def distinct_map_filter)
    from foldl_upserts_oget [OF this] find
    have ups_k: "oget ?ups k = oget (records m) k" by simp
    have recs: "records ?m = foldl (apply_absent (scope ob) (receivedAt ob)) ?ups (absent_ids m ob)"
      by (simp add: applyIncremental_def Let_def)
    show False
    proof (cases "\<exists>i \<in> set (absent_ids m ob). k = recordKey ?c i")
      case True
      with k ups_k obtain q where "r = marked (scope ob) (receivedAt ob) q"
        unfolding recs foldl_absents_oget by auto
      then show False using due received by (auto simp: marked_def split: if_splits)
    next
      case False
      with k ups_k have old: "oget (records m) k = Some r"
        unfolding recs foldl_absents_oget by (simp only: if_False)
      then have "r \<in> snd ` set (records m)" using wk by (auto simp: well_keyed_def set_omap)
      then have "mr_id r \<in> set (absent_ids m ob)"
        using due that(2) by (auto simp: absent_ids_def)
      with False show False by (auto simp: key coll)
    qed
  qed
  then have "absent_ids ?m ob = []" by (auto simp: absent_ids_def filter_empty_conv)
  with ups show ?thesis by (simp add: isEmpty_def)
qed

section \<open>Properties\<close>

text \<open>Incrementals and a mirror to try the statements on.\<close>

definition sample_header :: "string \<Rightarrow> string \<Rightarrow> observation_header" where
  "sample_header i at =
     \<lparr>obs_id = i, device = ''d'', sentAt = at, receivedAt = at, kind = List,
      scope = RangeScope ''timeEntry'' [] ''start'' ''2026-09-01'' ''2026-09-08'',
      mask = [''start''], complete = True\<rparr>"

definition sample_incremental :: "string \<Rightarrow> string \<Rightarrow> incremental" where
  "sample_incremental i at =
     observation_header.extend (sample_header i at)
       \<lparr>upserts = [\<lparr>cr_id = ''e1'', cr_fields = [(''start'', JStr ''2026-09-02'')]\<rparr>],
        absent = [], unchanged = 0, digest = []\<rparr>"

definition sample_record :: canonical_record where
  "sample_record = \<lparr>cr_id = ''e1'', cr_fields = [(''start'', JStr ''2026-09-02'')]\<rparr>"

definition sample_observation :: observation where
  "sample_observation =
     observation_header.extend (sample_header ''o'' ''2026-09-09T10:00:00Z'')
       \<lparr>obs_records = [sample_record]\<rparr>"

lemma sample_incremental_simps [simp]:
  "receivedAt (sample_incremental i at) = at" "obs_id (sample_incremental i at) = i"
  by (simp_all add: sample_incremental_def sample_header_def observation_header.defs)

lemma sample_dates:
  "ms ''2026-09-01'' = Some 1788220800000" "ms ''2026-09-08'' = Some 1788825600000"
  "ms ''2026-09-09'' = Some 1788912000000" "ms ''2026-09-10'' = Some 1788998400000"
  by code_simp+

text \<open>
  C9. The mirror is a function of the set of incrementals. Folding two arrangements of the
  same incrementals gives the same mirror, records and coverage, as long as the received
  times are instants and no two different incrementals share a position.
\<close>
theorem fold_permutation:
  assumes "mset is = mset js" "\<forall>i \<in> set is. dated i" "inj_on position (set is)"
  shows "fold_log base is = fold_log base js"
  unfolding fold_log_def using sort_positions_unique [OF assms] by simp

theorem fold_permutation_witness:
  "fold_log emptyMirror [sample_incremental ''a'' ''2026-09-09'', sample_incremental ''b'' ''2026-09-09'']
    = fold_log emptyMirror [sample_incremental ''b'' ''2026-09-09'', sample_incremental ''a'' ''2026-09-09'']"
  by (rule fold_permutation) (auto simp: dated_def position_def sample_dates)

text \<open>
  A snapshot may stand for what it absorbed. Folding the incrementals of a prefix and
  then the rest onto the resulting snapshot gives the mirror of folding them all, when
  every incremental of the rest sorts after the prefix and the base's coverage is sound.
\<close>
lemma fold_of_snapshot:
  assumes "cov_ok (coverage base)" "\<forall>i \<in> set xs \<union> set ys. dated i"
    and "\<forall>x \<in> set xs. \<forall>y \<in> set ys. comparePositions x y \<le> 0"
  shows "fold_log (fold_log base xs) ys = fold_log base (xs @ ys)"
  using assms by (rule fold_log_prefix)

text \<open>
  A read has nothing to say twice. Once the difference of a read from the mirror is
  folded in, diffing the same read again stores nothing: no upsert and no absence.
\<close>
lemma diff_idempotent:
  assumes "well_keyed (records m)" "distinct (map cr_id (obs_records ob))" "receivedAt ob \<noteq> []"
  shows "isEmpty (diffObservation (applyIncremental m (diffObservation m ob)) ob)"
  using assms by (rule diff_then_apply_empty)

text \<open>
  The mask is respected. After a read is applied, every record it returned is in the
  mirror, neither absent nor deleted; its masked fields are those of the read (null when
  the read had none) and every other field keeps its earlier value. Values are compared as
  the code compares them, by their canonical JSON text.
\<close>
lemma diff_respects_mask:
  assumes "distinct (map cr_id (obs_records ob))" "r \<in> set (obs_records ob)"
  shows "\<exists>p. oget (records (applyIncremental m (diffObservation m ob)))
        (recordKey (sc_collection (scope ob)) (cr_id r)) = Some p
    \<and> \<not> truthy (absentSince p) \<and> \<not> truthy (deletedAt p)
    \<and> (\<forall>f. stableStringify (oget_or JNull (mr_fields p) f) = stableStringify
        (if f \<in> set (mask ob) then oget_or JNull (cr_fields r) f
         else oget_or JNull (case oget (records m) (recordKey (sc_collection (scope ob)) (cr_id r)) of
                None \<Rightarrow> [] | Some q \<Rightarrow> mr_fields q) f))"
  using applied_fields [OF assms, of m] by blast

text \<open>
  What coverage says. After \<open>addCoverage\<close>, the latest confirmation of every instant of
  \<open>[from, to)\<close> under the key is the later of the new one and the earlier one, and nothing
  changes for any other instant or key; and the segments of each key stay sorted, not
  empty and disjoint.
\<close>
lemma addCoverage_instants:
  assumes "cov_ok cov" "ms at \<noteq> None"
  shows "cov_ok (addCoverage cov key a b at)
    \<and> latest (addCoverage cov key a b at) k t =
      (if k = key \<and> num_le (ms a) (Some t) \<and> num_less (Some t) (ms b)
       then omax (ms at) (latest cov k t) else latest cov k t)"
  using addCoverage_result [OF cov_ok_seg [OF assms(1)] assms(2)] assms(1)
  by (simp add: spans_instant_def)

text \<open>
  Merging coverage. For every key and instant, the merge of two coverages knows the
  later of their confirmations; so, read instant by instant, merging is commutative,
  associative and idempotent.
\<close>
lemma mergeCoverage_instants:
  assumes "cov_ok a" "cov_ok b"
  shows "cov_ok (mergeCoverage a b)
    \<and> latest (mergeCoverage a b) k t = omax (latest a k t) (latest b k t)
    \<and> latest (mergeCoverage a b) k t = latest (mergeCoverage b a) k t
    \<and> latest (mergeCoverage a a) k t = latest a k t"
  using assms by (simp add: mergeCoverage_result cov_ok_seg omax_comm)

text \<open>
  As lists of segments, merging is not commutative: of two confirmations of one span at
  the same instant, written differently, each order keeps its own.
\<close>
lemma mergeCoverage_not_commutative:
  "\<exists>a b. cov_ok a \<and> cov_ok b \<and> sortCoverage (mergeCoverage a b) \<noteq> sortCoverage (mergeCoverage b a)"
proof -
  define seg where "seg c = \<lparr>cov_key = ''k'', cov_from = ''2026-09-01'', cov_to = ''2026-09-08'',
    confirmedAt = c\<rparr>" for c
  have noon: "ms ''2026-09-09T00:00:00Z'' = Some 1788912000000" by code_simp
  have ok: "cov_ok [seg ''2026-09-09'']" "cov_ok [seg ''2026-09-09T00:00:00Z'']"
    by (simp_all add: cov_ok_def seg_ok_def seg_def sample_dates noon)
  have merge: "mergeCoverage [seg c] [seg d] = [seg c]"
    if "ms c = Some 1788912000000" "ms d = Some 1788912000000" for c d
    using that
    by (simp add: mergeCoverage_def addCoverage_def seg_def sample_dates bounds_of_def note_bound_def
        merge_span_def covers_def oget_or_def)
  then have "sortCoverage (mergeCoverage [seg ''2026-09-09''] [seg ''2026-09-09T00:00:00Z''])
      \<noteq> sortCoverage (mergeCoverage [seg ''2026-09-09T00:00:00Z''] [seg ''2026-09-09''])"
    by (simp add: sortCoverage_def sample_dates noon seg_def)
  with ok show ?thesis by blast
qed

end
