(* ===== verification/Ts_Timeline.thy ===== *)
theory Ts_Timeline
  imports Ts_Observations
begin

text \<open>
  The timeline of the timesheet app. The map stage turns a time entry into a claim
  (\<^verbatim>\<open>devonian/clockify/lens/claims.ts\<close>), the coverage says which time is unknown
  (the last part of \<^verbatim>\<open>app/clockifyObserve.ts\<close>), and the sweep turns claims and coverage
  into segments per local day (\<^verbatim>\<open>app/timeline/sweep.ts\<close>, with the day arithmetic of
  \<^verbatim>\<open>app/model/time.ts\<close> and \<^verbatim>\<open>app/timeZone.ts\<close>); all paths are under
  \<^verbatim>\<open>src/integrations/timesheets/\<close>.

  The time zone database is reached through \<open>Intl.DateTimeFormat\<close> and is no part of the
  repository: a zone is the parameter \<open>wall\<close>, the function \<open>wallClock(_, timeZone)\<close> from an
  instant to the digits of its wall clock, both in epoch milliseconds.
\<close>

section \<open>Claims\<close>

datatype badge = Break | Holiday | TimeOff

datatype time_label = Worked (projectId: "string option") | DidNotWork (badge: "badge option")

record time_claim =
  entryId :: string
  claim_from :: string
  claim_to :: string
  label :: time_label
  is_open :: bool
  is_locked :: bool
  customFields :: bool

definition BADGES :: "string \<Rightarrow> badge option" where
  "BADGES t =
     (if t = ''BREAK'' then Some Break
      else if t = ''HOLIDAY'' then Some Holiday
      else if t = ''TIME_OFF'' then Some TimeOff
      else None)"

definition at_value :: "json option \<Rightarrow> int option" where
  "at_value v = (case v of Some (JStr s) \<Rightarrow> date_parse s | _ \<Rightarrow> None)"

definition nullish :: "json option \<Rightarrow> bool" where
  "nullish v = (v = None \<or> v = Some JNull)"

definition str_of :: "json option \<Rightarrow> string" where
  "str_of v = (case v of Some (JStr s) \<Rightarrow> s | _ \<Rightarrow> [])"

definition clockifyClaim :: "mirror_record \<Rightarrow> int \<Rightarrow> time_claim option" where
  "clockifyClaim entry now =
     (let get = oget (mr_fields entry);
          running = nullish (get ''end'')
      in case (at_value (get ''start''), if running then Some now else at_value (get ''end'')) of
           (Some a, Some b) \<Rightarrow>
             if \<not> b > a then None
             else
               let bdg = (case get ''type'' of Some (JStr t) \<Rightarrow> BADGES t | _ \<Rightarrow> None)
               in Some
                    \<lparr>entryId = mr_id entry,
                     claim_from = str_of (get ''start''),
                     claim_to = (if running then iso_whole_seconds now else str_of (get ''end'')),
                     label =
                       (case bdg of
                          Some g \<Rightarrow> DidNotWork (Some g)
                        | None \<Rightarrow>
                            Worked (case get ''projectId'' of
                                      Some (JStr p) \<Rightarrow> if p \<noteq> [] then Some p else None
                                    | _ \<Rightarrow> None)),
                     is_open = running,
                     is_locked = (get ''isLocked'' = Some (JBool True)),
                     customFields =
                       (case get ''customFieldValues'' of Some (JArr vs) \<Rightarrow> vs \<noteq> [] | _ \<Rightarrow> False)\<rparr>
         | _ \<Rightarrow> None)"

section \<open>Which time is unknown\<close>

record interval =
  ifrom :: int
  iupto :: int

definition TIME_ENTRY :: string where "TIME_ENTRY = ''timeEntry''"
definition HOUR :: int where "HOUR = 3600000"
definition DAY :: int where "DAY = 86400000"
definition MARGIN_MS :: int where "MARGIN_MS = 24 * HOUR"
definition MAX_ZONE_OFFSET_MS :: int where "MAX_ZONE_OFFSET_MS = 14 * HOUR"

record settings =
  workspaceId :: string
  userId :: string

definition rangeScope :: "settings \<Rightarrow> string \<Rightarrow> string \<Rightarrow> scope" where
  "rangeScope c a b =
     RangeScope TIME_ENTRY [(''workspaceId'', workspaceId c), (''userId'', userId c)] ''start'' a b"

definition timeEntries :: "mirror \<Rightarrow> mirror_record list" where
  "timeEntries m = filter (\<lambda>r. mr_collection r = TIME_ENTRY) (map snd (records m))"

definition absenceCandidates :: "mirror \<Rightarrow> mirror_record list" where
  "absenceCandidates m =
     js_sort (\<lambda>a b. if mr_id a < mr_id b then - 1 else 1)
       (filter (\<lambda>r. truthy (absentSince r) \<and> \<not> truthy (deletedAt r)) (timeEntries m))"

definition span :: "mirror_record \<Rightarrow> int \<Rightarrow> interval option" where
  "span r now =
     (case oget (mr_fields r) ''start'' of
        Some (JStr s) \<Rightarrow>
          (case (ms s, case oget (mr_fields r) ''end'' of Some (JStr e) \<Rightarrow> ms e | _ \<Rightarrow> Some now) of
             (Some a, Some b) \<Rightarrow> if b > a then Some \<lparr>ifrom = a, iupto = b\<rparr> else None
           | _ \<Rightarrow> None)
      | _ \<Rightarrow> None)"

definition longestEntryMs :: "mirror \<Rightarrow> int \<Rightarrow> int" where
  "longestEntryMs m now =
     foldl (\<lambda>longest r.
         if truthy (deletedAt r) then longest
         else case span r now of None \<Rightarrow> longest | Some s \<Rightarrow> max longest (iupto s - ifrom s))
       MARGIN_MS (timeEntries m)"

text \<open>\<open>merged\<close> is kept newest first.\<close>

definition union_step :: "interval list \<Rightarrow> interval \<Rightarrow> interval list" where
  "union_step merged i =
     (case merged of
        [] \<Rightarrow> [i]
      | prev # before \<Rightarrow>
          if ifrom i \<le> iupto prev then prev\<lparr>iupto := max (iupto prev) (iupto i)\<rparr> # before
          else i # merged)"

definition union_intervals :: "interval list \<Rightarrow> interval list" where
  "union_intervals is = rev (foldl union_step [] (js_sort (\<lambda>a b. ifrom a - ifrom b) is))"

definition subtract :: "interval list \<Rightarrow> interval \<Rightarrow> interval list" where
  "subtract is ct = concat (map (\<lambda>i.
     if iupto ct \<le> ifrom i \<or> ifrom ct \<ge> iupto i then [i]
     else (if ifrom ct > ifrom i then [\<lparr>ifrom = ifrom i, iupto = ifrom ct\<rparr>] else [])
        @ (if iupto ct < iupto i then [\<lparr>ifrom = iupto ct, iupto = iupto i\<rparr>] else [])) is)"

text \<open>A stored segment's bounds are instants (\<open>cov_ok\<close>); any other would be NaN here.\<close>

definition cov_interval :: "coverage_segment \<Rightarrow> interval option" where
  "cov_interval s =
     (case (ms (cov_from s), ms (cov_to s)) of
        (Some a, Some b) \<Rightarrow> Some \<lparr>ifrom = a, iupto = b\<rparr> | _ \<Rightarrow> None)"

definition erode :: "int \<Rightarrow> interval list \<Rightarrow> interval \<Rightarrow> interval list" where
  "erode longest unknown covered =
     (let a = ifrom covered + longest
      in if a < iupto covered then subtract unknown \<lparr>ifrom = a, iupto = iupto covered\<rparr> else unknown)"

definition add_candidate :: "interval \<Rightarrow> int \<Rightarrow> interval list \<Rightarrow> mirror_record \<Rightarrow> interval list" where
  "add_candidate window now unknown r =
     (case span r now of
        None \<Rightarrow> unknown
      | Some s \<Rightarrow>
          let ct = \<lparr>ifrom = max (ifrom s) (ifrom window), iupto = min (iupto s) (iupto window)\<rparr>
          in if ifrom ct < iupto ct
             then js_sort (\<lambda>a b. ifrom a - ifrom b) (subtract unknown ct @ [ct])
             else unknown)"

definition covered_intervals :: "mirror \<Rightarrow> settings \<Rightarrow> interval list" where
  "covered_intervals m c =
     union_intervals (List.map_filter cov_interval
       (filter (\<lambda>s. cov_key s = coverageKey (rangeScope c [] [])) (coverage m)))"

definition unknownIntervals :: "mirror \<Rightarrow> settings \<Rightarrow> interval \<Rightarrow> int \<Rightarrow> interval list" where
  "unknownIntervals m c window now =
     (let unknown = foldl (erode (longestEntryMs m now)) [window] (covered_intervals m c);
          unknown = foldl (add_candidate window now) unknown (absenceCandidates m)
      in filter (\<lambda>i. iupto i > ifrom i) unknown)"

section \<open>Local days\<close>

definition zoneOffsetMs :: "(int \<Rightarrow> int) \<Rightarrow> int \<Rightarrow> int" where
  "zoneOffsetMs wall at = wall at - at div 1000 * 1000"

text \<open>A \<open>Set\<close> of offsets keeps the first of equal ones.\<close>

fun dedup :: "'a list \<Rightarrow> 'a list" where
  "dedup [] = []"
| "dedup (x # xs) = x # dedup (filter (\<lambda>y. y \<noteq> x) xs)"

definition instantsOf :: "(int \<Rightarrow> int) \<Rightarrow> int \<Rightarrow> int list" where
  "instantsOf wall w =
     (let offsets = dedup [zoneOffsetMs wall (w - MAX_ZONE_OFFSET_MS - 12 * HOUR),
                           zoneOffsetMs wall w,
                           zoneOffsetMs wall (w + MAX_ZONE_OFFSET_MS + 12 * HOUR)];
          candidates = map (\<lambda>off. w - off) offsets;
          valid = filter (\<lambda>at. wall at = w) candidates
      in js_sort (\<lambda>a b. a - b) (if valid \<noteq> [] then valid else candidates))"

definition keyOfUtc :: "int \<Rightarrow> string" where
  "keyOfUtc utcMidnight = date_text (utcMidnight div DAY)"

text \<open>
  \<open>Date.parse\<close> of a day key; keys are made by \<open>keyOfUtc\<close>, for which it is not NaN.
\<close>

definition utcOfKey :: "string \<Rightarrow> int" where
  "utcOfKey key = (case date_parse (key @ ''T00:00:00Z'') of Some t \<Rightarrow> t | None \<Rightarrow> 0)"

definition dayKey :: "(int \<Rightarrow> int) \<Rightarrow> int \<Rightarrow> string" where
  "dayKey wall at = keyOfUtc (wall at div DAY * DAY)"

definition addDays :: "string \<Rightarrow> int \<Rightarrow> string" where
  "addDays key n = keyOfUtc (utcOfKey key + n * DAY)"

definition startOfDay :: "(int \<Rightarrow> int) \<Rightarrow> string \<Rightarrow> int" where
  "startOfDay wall key =
     (let is = instantsOf wall (utcOfKey key)
      in if dayKey wall (hd is) = key then hd is else Max (set is))"

record local_day = interval +
  day :: string

text \<open>
  The loop over days, \<open>day\<close> being its variable. It ends when a day starts at \<open>to\<close> or
  later; a zone in which none does would keep it running, which is the value \<open>None\<close>.
\<close>

partial_function (option) days_from ::
  "(int \<Rightarrow> int) \<Rightarrow> int \<Rightarrow> string \<Rightarrow> local_day list option"
where
  "days_from wall b d =
     (let start = startOfDay wall d in
      if start \<ge> b then Some []
      else Option.bind (days_from wall b (addDays d 1)) (\<lambda>ds.
        Some (\<lparr>ifrom = start, iupto = min b (startOfDay wall (addDays d 1)), day = d\<rparr> # ds)))"

declare days_from.simps [code]

definition daysOf :: "(int \<Rightarrow> int) \<Rightarrow> int \<Rightarrow> int \<Rightarrow> local_day list option" where
  "daysOf wall a b = days_from wall b (dayKey wall a)"

section \<open>The sweep\<close>

datatype segment_state = StWorked | StDidNotWork | StUnknown | StConflict

datatype conflict_kind = WhichProject | WhetherWorked | Duplicate

text \<open>
  Everything of a \<open>Segment\<close> but its bounds. An optional flag is a \<open>bool\<close>. \<open>shapeKey\<close>
  compares the JSON text of two segments: equal shapes are built by the same branch of
  \<open>classify\<close>, with their properties in the same order, so their texts are equal exactly
  when the shapes are.
\<close>

record shape =
  state :: segment_state
  shape_label :: "time_label option"
  conflict :: "(conflict_kind \<times> time_label list) option"
  duplicate :: bool
  shape_open :: bool
  entryIds :: "string list"
  readOnly :: "string list"

record segment = interval +
  seg_shape :: shape

definition mine :: "settings \<Rightarrow> mirror_record \<Rightarrow> bool" where
  "mine st r =
     (let same = \<lambda>k v. (case oget (mr_fields r) k of
          None \<Rightarrow> True | Some JNull \<Rightarrow> True | Some j \<Rightarrow> j = JStr v)
      in same ''workspaceId'' (workspaceId st) \<and> same ''userId'' (userId st))"

definition compare_claims :: "time_claim \<Rightarrow> time_claim \<Rightarrow> int" where
  "compare_claims a b =
     (case (date_parse (claim_from a), date_parse (claim_from b)) of
        (Some x, Some y) \<Rightarrow> if x - y \<noteq> 0 then x - y else cmp_of (entryId a) (entryId b)
      | _ \<Rightarrow> cmp_of (entryId a) (entryId b))"

definition claimsOf :: "mirror \<Rightarrow> settings \<Rightarrow> int \<Rightarrow> time_claim list" where
  "claimsOf m st now =
     js_sort compare_claims (List.map_filter (\<lambda>r. clockifyClaim r now)
       (filter (\<lambda>r. \<not> truthy (deletedAt r) \<and> \<not> truthy (absentSince r) \<and> mine st r) (timeEntries m)))"

definition badge_text :: "badge option \<Rightarrow> string" where
  "badge_text b =
     (case b of None \<Rightarrow> '''' | Some Break \<Rightarrow> ''break'' | Some Holiday \<Rightarrow> ''holiday''
      | Some TimeOff \<Rightarrow> ''timeOff'')"

definition labelKey :: "time_label \<Rightarrow> string" where
  "labelKey l =
     (case l of
        Worked p \<Rightarrow> ''0'' @ (case p of None \<Rightarrow> ''1'' | Some p \<Rightarrow> ''0'' @ p)
      | DidNotWork b \<Rightarrow> ''1'' @ badge_text b)"

definition labels_of :: "time_claim list \<Rightarrow> time_label list" where
  "labels_of active =
     js_sort (\<lambda>a b. cmp_of (labelKey a) (labelKey b))
       (map snd (foldl (\<lambda>m c. oset (labelKey (label c)) (label c) m) [] active))"

definition worked :: "time_label \<Rightarrow> bool" where
  "worked l = (case l of Worked _ \<Rightarrow> True | DidNotWork _ \<Rightarrow> False)"

definition reasons_of :: "bool \<Rightarrow> time_claim \<Rightarrow> string list" where
  "reasons_of forceProjects c =
     (if is_open c then [''running''] else []) @
     (if is_locked c then [''locked''] else []) @
     (if \<not> worked (label c) then [''entryType''] else []) @
     (if customFields c then [''customFields''] else []) @
     (if forceProjects \<and> label c = Worked None then [''forceProjects''] else [])"

definition classify :: "time_claim list \<Rightarrow> bool \<Rightarrow> bool \<Rightarrow> shape" where
  "classify active unknown forceProjects =
     (let base = \<lparr>state = StUnknown, shape_label = None, conflict = None, duplicate = False,
                  shape_open = False, entryIds = [], readOnly = []\<rparr>
      in if unknown then base\<lparr>readOnly := [''unknown'']\<rparr>
         else if active = [] then
           base\<lparr>state := StDidNotWork, shape_label := Some (DidNotWork None)\<rparr>
         else
           let labels = labels_of active;
               wk = filter worked labels;
               sh = base\<lparr>entryIds := sort (map entryId active),
                         readOnly := sort (dedup (concat (map (reasons_of forceProjects) active))),
                         shape_open := (\<exists>c \<in> set active. is_open c)\<rparr>
           in if wk = [] then sh\<lparr>state := StDidNotWork, shape_label := Some (labels ! 0)\<rparr>
              else if length labels = 1 then
                sh\<lparr>state := StWorked, shape_label := Some (labels ! 0),
                   duplicate := length active > 1\<rparr>
              else
                sh\<lparr>state := StConflict,
                   conflict := Some (if length wk < length labels then WhetherWorked
                                     else WhichProject, labels)\<rparr>)"

text \<open>\<open>out\<close> is kept newest first.\<close>

definition merge_step :: "segment list \<Rightarrow> segment \<Rightarrow> segment list" where
  "merge_step out s =
     (case out of
        [] \<Rightarrow> [s]
      | prev # before \<Rightarrow>
          if iupto prev = ifrom s \<and> seg_shape prev = seg_shape s
          then prev\<lparr>iupto := iupto s\<rparr> # before else s # out)"

definition merge_segments :: "segment list \<Rightarrow> segment list" where
  "merge_segments ss = rev (foldl merge_step [] ss)"

record clipped_claim = interval +
  claim :: time_claim

record timeline_day = interval +
  day_key :: string
  segments :: "segment list"

record timeline_conflict = interval +
  con_entryIds :: "string list"
  con_fields :: "string list"
  con_kind :: conflict_kind
  candidates :: "time_label list"

record timeline =
  days :: "timeline_day list"
  unknown :: "interval list"
  conflicts :: "timeline_conflict list"

text \<open>
  Applied only to segments that are conflicts or duplicates; \<open>s.conflict!\<close> is never
  \<open>undefined\<close> there.
\<close>

definition conflict_of :: "segment \<Rightarrow> timeline_conflict" where
  "conflict_of s =
     (let sh = seg_shape s;
          c = (case conflict sh of Some c \<Rightarrow> c | None \<Rightarrow> (Duplicate, []))
      in \<lparr>ifrom = ifrom s, iupto = iupto s, con_entryIds = entryIds sh,
          con_fields =
            (if duplicate sh then [''start'', ''end'']
             else if fst c = WhichProject then [''projectId''] else [''type'']),
          con_kind = (if duplicate sh then Duplicate else fst c),
          candidates =
            (if duplicate sh then (case shape_label sh of Some l \<Rightarrow> [l] | None \<Rightarrow> []) else snd c)\<rparr>)"

definition clip_claims :: "interval \<Rightarrow> time_claim list \<Rightarrow> clipped_claim list" where
  "clip_claims rng cs =
     filter (\<lambda>c. iupto c > ifrom c)
       (List.map_filter (\<lambda>c.
          case (date_parse (claim_from c), date_parse (claim_to c)) of
            (Some a, Some b) \<Rightarrow>
              Some \<lparr>ifrom = max (ifrom rng) a, iupto = min (iupto rng) b, claim = c\<rparr>
          | _ \<Rightarrow> None) cs)"

definition sweep_points ::
  "interval \<Rightarrow> local_day list \<Rightarrow> clipped_claim list \<Rightarrow> interval list \<Rightarrow> int list" where
  "sweep_points rng ds cs us =
     sort (filter (\<lambda>p. ifrom rng \<le> p \<and> p \<le> iupto rng) (dedup
       ([ifrom rng, iupto rng] @ concat (map (\<lambda>d. [ifrom d, iupto d]) ds)
        @ concat (map (\<lambda>c. [ifrom c, iupto c]) cs) @ concat (map (\<lambda>u. [ifrom u, iupto u]) us))))"

definition atom :: "clipped_claim list \<Rightarrow> interval list \<Rightarrow> bool \<Rightarrow> int \<times> int \<Rightarrow> segment" where
  "atom cs us forceProjects ab =
     (let active = map claim (filter (\<lambda>c. ifrom c \<le> fst ab \<and> iupto c \<ge> snd ab) cs);
          isUnknown = (\<exists>u \<in> set us. ifrom u \<le> fst ab \<and> iupto u \<ge> snd ab)
      in \<lparr>ifrom = fst ab, iupto = snd ab, seg_shape = classify active isUnknown forceProjects\<rparr>)"

definition atoms_of ::
  "clipped_claim list \<Rightarrow> interval list \<Rightarrow> bool \<Rightarrow> int list \<Rightarrow> segment list" where
  "atoms_of cs us forceProjects points =
     map (atom cs us forceProjects) (zip points (tl points))"

definition buildTimeline ::
  "(int \<Rightarrow> int) \<Rightarrow> mirror \<Rightarrow> settings \<Rightarrow> interval \<Rightarrow> int \<Rightarrow> bool \<Rightarrow> timeline option" where
  "buildTimeline wall m st window now forceProjects =
     map_option (\<lambda>ds.
       let rng = \<lparr>ifrom = (case ds of [] \<Rightarrow> ifrom window | d # _ \<Rightarrow> ifrom d), iupto = now\<rparr>;
           us = unknownIntervals m st rng now;
           cs = clip_claims rng (claimsOf m st now);
           atoms = atoms_of cs us forceProjects (sweep_points rng ds cs us)
       in \<lparr>days = map (\<lambda>d. \<lparr>ifrom = ifrom d, iupto = iupto d, day_key = day d,
                 segments = merge_segments
                   (filter (\<lambda>a. ifrom a \<ge> ifrom d \<and> iupto a \<le> iupto d) atoms)\<rparr>) ds,
           unknown = unknownIntervals m st window now,
           conflicts = map conflict_of (merge_segments
             (filter (\<lambda>a. state (seg_shape a) = StConflict \<or> duplicate (seg_shape a)) atoms))\<rparr>)
       (daysOf wall (ifrom window) now)"

end
