(* ===== verification/Ts_Sweep.thy ===== *)
theory Ts_Sweep
  imports Ts_Timeline
begin

text \<open>
  What the timeline of \<^verbatim>\<open>src/integrations/timesheets/app/timeline/sweep.ts\<close> shows, instant
  by instant: the unknown time is what no read can vouch for, and the segments of a day tile
  the day, each instant being what the claims and the unknown time at that instant make it.
\<close>

section \<open>Intervals as sets of instants\<close>

definition mem :: "int \<Rightarrow> 'a interval_scheme \<Rightarrow> bool" where
  "mem t i \<longleftrightarrow> ifrom i \<le> t \<and> t < iupto i"

definition in_some :: "int \<Rightarrow> 'a interval_scheme list \<Rightarrow> bool" where
  "in_some t is \<longleftrightarrow> (\<exists>i \<in> set is. mem t i)"

lemma in_some_simps [simp]:
  "\<not> in_some t []"
  "in_some t (i # is) \<longleftrightarrow> mem t i \<or> in_some t is"
  "in_some t (is @ js) \<longleftrightarrow> in_some t is \<or> in_some t js"
  "in_some t (rev is) \<longleftrightarrow> in_some t is"
  "in_some t (js_sort cmp is) \<longleftrightarrow> in_some t is"
  by (auto simp: in_some_def)

lemma subtract_simps [simp]:
  "subtract [] c = []"
  "subtract (i # is) c = subtract [i] c @ subtract is c"
  by (simp_all add: subtract_def)

lemma in_some_subtract [simp]: "in_some t (subtract is c) \<longleftrightarrow> in_some t is \<and> \<not> mem t c"
proof -
  have one: "in_some t (subtract [i] c) \<longleftrightarrow> mem t i \<and> \<not> mem t c" for i
    by (auto simp: subtract_def mem_def)
  show ?thesis
    by (induction "is") (use one in \<open>auto simp del: subtract_simps(2) simp: subtract_simps(2)
        [of _ "_ # _"] subtract_def\<close>)
qed

text \<open>\<open>union_intervals\<close>: the same instants, in disjoint intervals with gaps between them.\<close>

definition apart :: "interval \<Rightarrow> interval \<Rightarrow> bool" where
  "apart i j \<longleftrightarrow> iupto i < ifrom j"

lemma union_step_inv:
  assumes "\<forall>i \<in> set is. ifrom i \<le> iupto i" "sorted_wrt (\<lambda>i j. ifrom i \<le> ifrom j) is"
    and "\<forall>m \<in> set merged. ifrom m \<le> iupto m" "sorted_wrt (\<lambda>i j. apart j i) merged"
    and "\<forall>m \<in> set merged. \<forall>i \<in> set is. ifrom m \<le> ifrom i"
  shows "(\<forall>m \<in> set (foldl union_step merged is). ifrom m \<le> iupto m)
    \<and> sorted_wrt (\<lambda>i j. apart j i) (foldl union_step merged is)
    \<and> (in_some t (foldl union_step merged is) \<longleftrightarrow> in_some t merged \<or> in_some t is)"
  using assms
proof (induction "is" arbitrary: merged)
  case (Cons i "is")
  have le: "ifrom i \<le> iupto i" using Cons.prems(1) by simp
  show ?case
  proof (cases merged)
    case Nil
    from Cons.IH [of "[i]"] Cons.prems Nil show ?thesis by (auto simp: union_step_def)
  next
    case prev: (Cons p before)
    have p: "ifrom p \<le> iupto p" "ifrom p \<le> ifrom i" "\<forall>m \<in> set before. apart m p"
      using Cons.prems prev by auto
    show ?thesis
    proof (cases "ifrom i \<le> iupto p")
      case True
      let ?p = "p\<lparr>iupto := max (iupto p) (iupto i)\<rparr>"
      have mem: "mem t ?p \<longleftrightarrow> mem t p \<or> mem t i" using True p(1,2) le by (auto simp: mem_def)
      from Cons.IH [of "?p # before"] Cons.prems prev p mem True show ?thesis
        by (auto simp: union_step_def apart_def)
    next
      case False
      from p prev False have "\<forall>m \<in> set merged. apart m i"
        by (auto simp: apart_def)
      moreover have step: "union_step merged i = i # merged"
        using prev False by (simp add: union_step_def)
      ultimately show ?thesis
        using Cons.IH [of "i # merged"] Cons.prems by (simp add: step) blast
    qed
  qed
qed simp

interpretation by_from: comparator "\<lambda>a b. ifrom a - ifrom b" "\<lambda>_. True"
  by unfold_locales auto

lemma union_intervals:
  assumes "\<forall>i \<in> set is. ifrom i \<le> iupto i"
  shows "in_some t (union_intervals is) \<longleftrightarrow> in_some t is"
    and "sorted_wrt apart (union_intervals is)"
proof -
  let ?s = "js_sort (\<lambda>a b. ifrom a - ifrom b) is"
  have "sorted_wrt (\<lambda>i j. ifrom i \<le> ifrom j) ?s"
    using by_from.sort_sorted [of "is"] by simp
  from union_step_inv [OF _ this, of "[]" t] assms
  show "in_some t (union_intervals is) \<longleftrightarrow> in_some t is" "sorted_wrt apart (union_intervals is)"
    by (simp_all add: union_intervals_def sorted_wrt_rev)
qed

section \<open>Unknown time\<close>

lemma foldl_erode:
  "in_some t (foldl (erode longest) us cs) \<longleftrightarrow>
     in_some t us \<and> \<not> (\<exists>c \<in> set cs. ifrom c + longest \<le> t \<and> t < iupto c)"
  by (induction cs arbitrary: us) (auto simp: erode_def Let_def mem_def)

lemma foldl_candidates:
  "in_some t (foldl (add_candidate window now) us rs) \<longleftrightarrow>
     in_some t us \<or> mem t window \<and> (\<exists>r \<in> set rs. \<exists>s. span r now = Some s \<and> mem t s)"
proof (induction rs arbitrary: us)
  case (Cons r rs)
  have "in_some t (add_candidate window now us r) \<longleftrightarrow>
      in_some t us \<or> mem t window \<and> (\<exists>s. span r now = Some s \<and> mem t s)"
    by (auto simp: add_candidate_def Let_def mem_def split: option.split)
  with Cons show ?case by auto
qed simp

lemma in_some_nonempty: "in_some t (filter (\<lambda>i. iupto i > ifrom i) is) \<longleftrightarrow> in_some t is"
  by (auto simp: in_some_def mem_def)

lemma unknownIntervals_instants:
  "in_some t (unknownIntervals m c window now) \<longleftrightarrow> mem t window \<and>
     (\<not> (\<exists>i \<in> set (covered_intervals m c). ifrom i + longestEntryMs m now \<le> t \<and> t < iupto i)
      \<or> (\<exists>r \<in> set (absenceCandidates m). \<exists>s. span r now = Some s \<and> mem t s))"
  by (auto simp: unknownIntervals_def Let_def in_some_nonempty foldl_candidates foldl_erode)

text \<open>Unknown time never reaches beyond the window.\<close>

definition inside :: "interval \<Rightarrow> interval \<Rightarrow> bool" where
  "inside w i \<longleftrightarrow> ifrom w \<le> ifrom i \<and> iupto i \<le> iupto w"

lemma subtract_inside: "(\<forall>i \<in> set is. inside w i) \<Longrightarrow> \<forall>i \<in> set (subtract is c). inside w i"
  by (auto simp: subtract_def inside_def split: if_splits)

lemma unknownIntervals_inside: "\<forall>i \<in> set (unknownIntervals m c w now). inside w i"
proof -
  have A: "(\<forall>i \<in> set us. inside w i) \<Longrightarrow> \<forall>i \<in> set (foldl (erode longest) us cs). inside w i"
    for longest us cs
  proof (induction cs arbitrary: us)
    case (Cons c cs)
    have "\<forall>i \<in> set (erode longest us c). inside w i"
      using Cons.prems subtract_inside [OF Cons.prems] by (simp add: erode_def Let_def)
    from Cons.IH [OF this] show ?case by simp
  qed simp
  have B: "(\<forall>i \<in> set us. inside w i) \<Longrightarrow> \<forall>i \<in> set (foldl (add_candidate w now) us rs). inside w i"
    for us rs
  proof (induction rs arbitrary: us)
    case (Cons r rs)
    have "\<forall>i \<in> set (subtract us ct). inside w i" for ct
      using Cons.prems by (rule subtract_inside)
    then have "\<forall>i \<in> set (add_candidate w now us r). inside w i"
      using Cons.prems by (auto simp: add_candidate_def Let_def inside_def split: option.split)
    from Cons.IH [OF this] show ?case by simp
  qed simp
  have "\<forall>i \<in> set [w]. inside w i" by (simp add: inside_def)
  from B [OF A [OF this]] have "\<forall>i \<in> set (foldl (add_candidate w now)
      (foldl (erode (longestEntryMs m now)) [w] (covered_intervals m c)) (absenceCandidates m)). inside w i" .
  then show ?thesis by (simp add: unknownIntervals_def Let_def)
qed

section \<open>Segments that tile an interval\<close>

fun tiles :: "int \<Rightarrow> int \<Rightarrow> segment list \<Rightarrow> bool" where
  "tiles a b [] \<longleftrightarrow> a = b"
| "tiles a b (s # ss) \<longleftrightarrow> ifrom s = a \<and> a < iupto s \<and> tiles (iupto s) b ss"

lemma tiles_snoc: "tiles a b (ss @ [s]) \<longleftrightarrow> tiles a (ifrom s) ss \<and> ifrom s < iupto s \<and> iupto s = b"
  by (induction ss arbitrary: a) auto

lemma tiles_le: "tiles a b ss \<Longrightarrow> a \<le> b"
  by (induction ss arbitrary: a) (auto, fastforce)

definition shape_at :: "segment list \<Rightarrow> int \<Rightarrow> shape \<Rightarrow> bool" where
  "shape_at ss t sh \<longleftrightarrow> (\<exists>s \<in> set ss. mem t s \<and> seg_shape s = sh)"

lemma shape_at_simps [simp]:
  "\<not> shape_at [] t sh"
  "shape_at (s # ss) t sh \<longleftrightarrow> mem t s \<and> seg_shape s = sh \<or> shape_at ss t sh"
  "shape_at (ss @ ss') t sh \<longleftrightarrow> shape_at ss t sh \<or> shape_at ss' t sh"
  by (auto simp: shape_at_def)

lemma merge_segments:
  "tiles a b ss \<Longrightarrow> tiles a b (merge_segments ss)
    \<and> (\<forall>t sh. shape_at (merge_segments ss) t sh \<longleftrightarrow> shape_at ss t sh)
    \<and> successively (\<lambda>s s'. seg_shape s \<noteq> seg_shape s') (merge_segments ss)"
proof (induction ss arbitrary: b rule: rev_induct)
  case (snoc s ss)
  then have s: "tiles a (ifrom s) ss" "ifrom s < iupto s" "iupto s = b" by (simp_all add: tiles_snoc)
  note IH = snoc.IH [OF s(1)]
  have step: "merge_segments (ss @ [s]) = rev (merge_step (rev (merge_segments ss)) s)"
    by (simp add: merge_segments_def)
  show ?case
  proof (cases "merge_segments ss" rule: rev_cases)
    case Nil
    with IH s step show ?thesis by (auto simp: merge_step_def)
  next
    case prev: (snoc before p)
    have p: "tiles a (ifrom p) before" "ifrom p < iupto p" "iupto p = ifrom s"
      using IH prev by (simp_all add: tiles_snoc)
    show ?thesis
    proof (cases "seg_shape p = seg_shape s")
      case True
      have mem: "mem t (p\<lparr>iupto := b\<rparr>) \<longleftrightarrow> mem t p \<or> mem t s" for t
        using p s by (auto simp: mem_def)
      have "merge_segments (ss @ [s]) = before @ [p\<lparr>iupto := b\<rparr>]"
        using True p s by (simp add: step prev merge_step_def)
      moreover have "successively (\<lambda>s s'. seg_shape s \<noteq> seg_shape s') (before @ [p\<lparr>iupto := b\<rparr>])"
        using IH prev by (auto simp: successively_append_iff)
      moreover have "shape_at (before @ [p]) t sh \<longleftrightarrow> shape_at ss t sh" for t sh
        using IH prev by simp
      then have "shape_at (before @ [p\<lparr>iupto := b\<rparr>]) t sh \<longleftrightarrow> shape_at (ss @ [s]) t sh" for t sh
        using True by (auto simp: mem)
      ultimately show ?thesis using p s by (simp add: tiles_snoc)
    next
      case False
      have "merge_segments (ss @ [s]) = before @ [p, s]"
        using False by (simp add: step prev merge_step_def)
      moreover have "successively (\<lambda>s s'. seg_shape s \<noteq> seg_shape s') (before @ [p, s])"
        using IH prev False by (auto simp: successively_append_iff)
      moreover have "tiles a b (before @ [p, s])"
        using p s tiles_snoc [of a b "before @ [p]" s] by (simp add: tiles_snoc)
      moreover have "shape_at (before @ [p]) t sh \<longleftrightarrow> shape_at ss t sh" for t sh
        using IH prev by simp
      then have "shape_at (before @ [p, s]) t sh \<longleftrightarrow> shape_at (ss @ [s]) t sh" for t sh
        by auto
      ultimately show ?thesis by simp
    qed
  qed
qed (simp add: merge_segments_def)

section \<open>The sweep over neighbouring points\<close>

lemma set_dedup [simp]: "set (dedup xs) = set xs"
  by (induction xs rule: dedup.induct) auto

lemma distinct_dedup [simp]: "distinct (dedup xs)"
  by (induction xs rule: dedup.induct) auto

definition neighbours :: "int list \<Rightarrow> (int \<times> int) list" where
  "neighbours ps = zip ps (tl ps)"

lemma neighbours_simps [simp]:
  "neighbours [] = []" "neighbours [x] = []"
  "neighbours (x # y # ps) = (x, y) # neighbours (y # ps)"
  by (simp_all add: neighbours_def)

lemma neighbours_filter:
  "sorted_wrt (<) ps \<Longrightarrow> filter (\<lambda>ab. u \<le> fst ab \<and> snd ab \<le> v) (neighbours ps)
    = neighbours (filter (\<lambda>p. u \<le> p \<and> p \<le> v) ps)"
proof (induction ps rule: induct_list012)
  case (3 x y ps)
  have IH: "filter (\<lambda>ab. u \<le> fst ab \<and> snd ab \<le> v) (neighbours (y # ps))
    = neighbours (filter (\<lambda>p. u \<le> p \<and> p \<le> v) (y # ps))" using 3 by simp
  show ?case
  proof (cases "y \<le> v")
    case True
    with IH 3(3) show ?thesis by (cases "u \<le> x") auto
  next
    case False
    then have "filter (\<lambda>p. u \<le> p \<and> p \<le> v) (y # ps) = []"
      using 3(3) by (auto simp: filter_empty_conv)
    with IH 3(3) False show ?thesis by auto
  qed
qed auto

lemma neighbours_gap:
  "sorted_wrt (<) ps \<Longrightarrow> (x, y) \<in> set (neighbours ps) \<Longrightarrow>
    x < y \<and> (\<forall>p \<in> set ps. p \<le> x \<or> y \<le> p)"
proof (induction ps rule: induct_list012)
  case (3 z w ps)
  show ?case
  proof (cases "(x, y) = (z, w)")
    case True
    with 3(3) show ?thesis by auto
  next
    case False
    with 3(4) have xy: "(x, y) \<in> set (neighbours (w # ps))" by auto
    then have "x \<in> set (w # ps)" unfolding neighbours_def by (rule set_zip_leftD)
    with 3(3) have "z < x" by auto
    with 3(2) [OF _ xy] 3(3) show ?thesis by auto
  qed
qed auto

lemma strict_sorted_last: "sorted_wrt (<) qs \<Longrightarrow> v \<in> set qs \<Longrightarrow> v \<le> (last qs :: int)"
  by (induction qs) (auto intro: less_imp_le last_in_set)

lemma neighbours_at:
  "sorted_wrt (<) (x # ps) \<Longrightarrow> x \<le> t \<Longrightarrow> t < last (x # ps)
    \<Longrightarrow> \<exists>(a, b) \<in> set (neighbours (x # ps)). a \<le> t \<and> t < b"
proof (induction ps arbitrary: x)
  case (Cons y ps)
  then show ?case by (cases "t < y") auto
qed simp

lemma tiles_neighbours:
  assumes "\<And>a b. ifrom (f (a, b)) = a \<and> iupto (f (a, b)) = b"
  shows "sorted_wrt (<) (x # ps) \<Longrightarrow> tiles x (last (x # ps)) (map f (neighbours (x # ps)))"
  by (induction ps arbitrary: x) (use assms in auto)

lemma sorted_ends:
  fixes qs :: "int list"
  assumes "sorted_wrt (<) qs" "u \<in> set qs" "v \<in> set qs" "\<forall>q \<in> set qs. u \<le> q \<and> q \<le> v"
  obtains rest where "qs = u # rest" "last (u # rest) = v"
proof -
  from assms(2) obtain x rest where qs: "qs = x # rest" by (cases qs) auto
  with assms have "x = u" by (metis list.set_intros(1) nle_le not_less order.strict_iff_order
        set_ConsD sorted_wrt.simps(2))
  moreover have "last qs = v"
  proof -
    have "last qs \<in> set qs" using qs by simp
    moreover have "v \<le> last qs" using assms(1,3) by (rule strict_sorted_last)
    ultimately show ?thesis using assms(4) by (metis nle_le)
  qed
  ultimately show thesis using that qs by simp
qed

text \<open>What an instant should be: the claims and the unknown time at that instant.\<close>

definition shape_of :: "clipped_claim list \<Rightarrow> interval list \<Rightarrow> bool \<Rightarrow> int \<Rightarrow> shape" where
  "shape_of cs us forceProjects t =
     classify (map claim (filter (mem t) cs)) (in_some t us) forceProjects"

lemma atom_shape:
  assumes gap: "\<forall>p \<in> set ps. p \<le> x \<or> y \<le> p" and t: "x \<le> t" "t < y"
    and cs: "\<forall>c \<in> set cs. ifrom c \<in> set ps \<and> iupto c \<in> set ps"
    and us: "\<forall>u \<in> set us. ifrom u \<in> set ps \<and> iupto u \<in> set ps"
  shows "seg_shape (atom cs us fp (x, y)) = shape_of cs us fp t"
proof -
  have iff: "ifrom i \<le> x \<and> y \<le> iupto i \<longleftrightarrow> mem t i"
    if "ifrom i \<in> set ps" "iupto i \<in> set ps" for i :: "'a interval_scheme"
    using that gap t by (force simp: mem_def)
  have "filter (\<lambda>c. ifrom c \<le> x \<and> iupto c \<ge> y) cs = filter (mem t) cs"
    using cs iff by (intro filter_cong) auto
  moreover have "(\<exists>u \<in> set us. ifrom u \<le> x \<and> iupto u \<ge> y) \<longleftrightarrow> in_some t us"
  proof -
    have "ifrom u \<le> x \<and> y \<le> iupto u \<longleftrightarrow> mem t u" if "u \<in> set us" for u
      using us that gap t by (force simp: mem_def)
    then show ?thesis by (auto simp: in_some_def)
  qed
  ultimately show ?thesis by (simp add: atom_def shape_of_def Let_def)
qed

lemma sweep_day:
  fixes fp :: bool
  assumes ps: "sorted_wrt (<) ps"
    and cs: "\<forall>c \<in> set cs. ifrom c \<in> set ps \<and> iupto c \<in> set ps"
    and us: "\<forall>u \<in> set us. ifrom u \<in> set ps \<and> iupto u \<in> set ps"
    and ab: "a \<in> set ps" "b \<in> set ps" "a < b"
  defines "ss \<equiv> merge_segments (filter (\<lambda>s. ifrom s \<ge> a \<and> iupto s \<le> b) (atoms_of cs us fp ps))"
  shows "tiles a b ss" "successively (\<lambda>s s'. seg_shape s \<noteq> seg_shape s') ss"
    "\<forall>t. a \<le> t \<and> t < b \<longrightarrow> shape_at ss t (shape_of cs us fp t)"
proof -
  let ?f = "atom cs us fp" and ?qs = "filter (\<lambda>p. a \<le> p \<and> p \<le> b) ps"
  have f: "ifrom (?f (x, y)) = x \<and> iupto (?f (x, y)) = y" for x y by (simp add: atom_def Let_def)
  have "filter (\<lambda>s. ifrom s \<ge> a \<and> iupto s \<le> b) (atoms_of cs us fp ps)
      = map ?f (filter (\<lambda>ab. a \<le> fst ab \<and> snd ab \<le> b) (neighbours ps))"
    by (simp add: atoms_of_def neighbours_def filter_map comp_def f split_beta
        atom_def Let_def)
  also have "\<dots> = map ?f (neighbours ?qs)" by (simp only: neighbours_filter [OF ps])
  finally have ss: "ss = merge_segments (map ?f (neighbours ?qs))" by (simp add: ss_def)
  have sorted: "sorted_wrt (<) ?qs" using ps by (rule sorted_wrt_filter)
  obtain rest where qs: "?qs = a # rest" "last (a # rest) = b"
    by (rule sorted_ends [OF sorted, of a b]) (use ab in auto)
  have tiles: "tiles a b (map ?f (neighbours ?qs))"
    using tiles_neighbours [of ?f a rest, OF f] sorted qs by simp
  note merged = merge_segments [OF tiles]
  show "tiles a b ss" "successively (\<lambda>s s'. seg_shape s \<noteq> seg_shape s') ss"
    using merged by (simp_all add: ss)
  show "\<forall>t. a \<le> t \<and> t < b \<longrightarrow> shape_at ss t (shape_of cs us fp t)"
  proof (intro allI impI)
    fix t assume t: "a \<le> t \<and> t < b"
    with neighbours_at [of a rest t] sorted qs obtain x y where
      xy: "(x, y) \<in> set (neighbours ?qs)" "x \<le> t" "t < y" by auto
    then have "(x, y) \<in> set (neighbours ps)"
      unfolding neighbours_filter [OF ps, of a b, symmetric] by simp
    then have "\<forall>p \<in> set ps. p \<le> x \<or> y \<le> p" using neighbours_gap [OF ps] by blast
    from atom_shape [OF this xy(2,3) cs us, of fp]
    have "shape_at (map ?f (neighbours ?qs)) t (shape_of cs us fp t)"
      using xy f [of x y] by (auto simp: shape_at_def mem_def intro!: bexI [of _ "(x, y)"])
    with merged show "shape_at ss t (shape_of cs us fp t)" by (simp add: ss)
  qed
qed

section \<open>Days\<close>

definition chained :: "local_day list \<Rightarrow> bool" where
  "chained ds = successively (\<lambda>d e. iupto d = ifrom e) ds"

lemma days_from_chain:
  "days_from wall b d = Some ds \<Longrightarrow>
    (startOfDay wall d \<ge> b \<longrightarrow> ds = []) \<and> (startOfDay wall d < b \<longrightarrow>
      ds \<noteq> [] \<and> ifrom (hd ds) = startOfDay wall d \<and> chained ds \<and> iupto (last ds) = b)"
proof (induction wall b d ds rule: days_from.raw_induct [rotated 1, consumes 1, case_names step])
  case (step rec wall b d ds)
  let ?next = "addDays d 1"
  show ?case
  proof (cases "startOfDay wall d < b")
    case True
    with step(2) obtain ds' where ds': "rec wall b ?next = Some ds'"
      "ds = \<lparr>ifrom = startOfDay wall d, iupto = min b (startOfDay wall ?next), day = d\<rparr> # ds'"
      by (auto simp: Let_def bind_eq_Some_conv)
    from step(1) [OF ds'(1)] ds'(2) True show ?thesis
      by (cases ds') (auto simp: chained_def min_def)
  next
    case False
    with step(2) show ?thesis by (simp add: Let_def)
  qed
qed

lemma chained_bounds:
  "chained ds \<Longrightarrow> \<forall>d \<in> set ds. ifrom d < iupto d \<Longrightarrow> d \<in> set ds
    \<Longrightarrow> ifrom (hd ds) \<le> ifrom d \<and> iupto d \<le> iupto (last ds)"
proof (induction ds arbitrary: d)
  case (Cons e ds)
  show ?case
  proof (cases ds)
    case Nil
    with Cons.prems show ?thesis by simp
  next
    case (Cons f fs)
    with Cons.prems have ds: "chained ds" "iupto e = ifrom (hd ds)" "\<forall>d \<in> set ds. ifrom d < iupto d"
      by (auto simp: chained_def)
    note IH = Cons.IH [OF ds(1,3)]
    have "f \<in> set ds" using Cons by simp
    from IH [OF this] have "ifrom f < iupto (last ds)" using ds(3) \<open>f \<in> set ds\<close> by fastforce
    then show ?thesis using Cons Cons.prems ds(2) IH [of d] by auto
  qed
qed simp

lemma daysOf_chain:
  assumes "daysOf wall a b = Some ds" "ds \<noteq> []"
  shows "chained ds" "iupto (last ds) = b"
  using days_from_chain [of wall b "dayKey wall a" ds] assms
  by (cases "startOfDay wall (dayKey wall a) < b"; simp add: daysOf_def)+

lemma clip_claims_inside:
  "c \<in> set (clip_claims rng cs) \<Longrightarrow> ifrom rng \<le> ifrom c \<and> ifrom c < iupto c \<and> iupto c \<le> iupto rng"
  by (auto simp: clip_claims_def List.map_filter_def split: option.splits)

lemma sweep_points_set:
  "p \<in> set (sweep_points rng ds cs us) \<longleftrightarrow> ifrom rng \<le> p \<and> p \<le> iupto rng \<and>
     (p = ifrom rng \<or> p = iupto rng \<or> (\<exists>d \<in> set ds. p = ifrom d \<or> p = iupto d)
      \<or> (\<exists>c \<in> set cs. p = ifrom c \<or> p = iupto c) \<or> (\<exists>u \<in> set us. p = ifrom u \<or> p = iupto u))"
  by (auto simp: sweep_points_def)

lemma sweep_points_sorted: "sorted_wrt (<) (sweep_points rng ds cs us)"
  by (simp add: sweep_points_def strict_sorted_iff)

definition timeline_range :: "timeline \<Rightarrow> int \<Rightarrow> interval" where
  "timeline_range tml now = \<lparr>ifrom = ifrom (hd (days tml)), iupto = now\<rparr>"

lemma timeline_day:
  assumes build: "buildTimeline wall m st window now fp = Some tml"
    and nonempty: "\<forall>d \<in> set (days tml). ifrom d < iupto d" and d: "d \<in> set (days tml)"
  defines "rng \<equiv> timeline_range tml now"
  shows "tiles (ifrom d) (iupto d) (segments d)"
    and "successively (\<lambda>s s'. seg_shape s \<noteq> seg_shape s') (segments d)"
    and "\<forall>t. mem t d \<longrightarrow> shape_at (segments d) t
      (shape_of (clip_claims rng (claimsOf m st now)) (unknownIntervals m st rng now) fp t)"
proof -
  from build obtain ds where ds: "daysOf wall (ifrom window) now = Some ds"
    by (auto simp: buildTimeline_def)
  define r where "r = \<lparr>ifrom = (case ds of [] \<Rightarrow> ifrom window | e # _ \<Rightarrow> ifrom e), iupto = now\<rparr>"
  define us where "us = unknownIntervals m st r now"
  define cs where "cs = clip_claims r (claimsOf m st now)"
  define ps where "ps = sweep_points r ds cs us"
  define seg where "seg e = merge_segments
      (filter (\<lambda>a. ifrom a \<ge> ifrom e \<and> iupto a \<le> iupto e) (atoms_of cs us fp ps))" for e :: local_day
  have days: "days tml = map (\<lambda>e. \<lparr>ifrom = ifrom e, iupto = iupto e, day_key = day e, segments = seg e\<rparr>) ds"
    using build ds by (auto simp: buildTimeline_def Let_def r_def us_def cs_def ps_def seg_def)
  with d obtain e where e: "e \<in> set ds" "ifrom d = ifrom e" "iupto d = iupto e" "segments d = seg e"
    by auto
  then have ne: "ds \<noteq> []" by auto
  have rng: "rng = r" using ne days by (cases ds) (auto simp: rng_def timeline_range_def r_def)
  have pos: "\<forall>e \<in> set ds. ifrom e < iupto e" using nonempty days by auto
  note chain = daysOf_chain [OF ds ne]
  have r: "ifrom r = ifrom (hd ds)" "iupto r = iupto (last ds)"
    using ne chain(2) by (auto simp: r_def split: list.split)
  have in_r: "ifrom r \<le> ifrom e" "iupto e \<le> iupto r" "ifrom e < iupto e"
    using chained_bounds [OF chain(1) pos e(1)] pos e(1) r by auto
  have us_in: "ifrom r \<le> ifrom u \<and> iupto u \<le> iupto r \<and> ifrom u < iupto u" if "u \<in> set us" for u
  proof -
    have "inside r u" using unknownIntervals_inside that by (auto simp: us_def)
    moreover have "ifrom u < iupto u" using that by (auto simp: us_def unknownIntervals_def Let_def)
    ultimately show ?thesis by (simp add: inside_def)
  qed
  have cs_ps: "\<forall>c \<in> set cs. ifrom c \<in> set ps \<and> iupto c \<in> set ps"
  proof
    fix c assume c: "c \<in> set cs"
    then have "ifrom r \<le> ifrom c \<and> ifrom c < iupto c \<and> iupto c \<le> iupto r"
      unfolding cs_def by (rule clip_claims_inside)
    with c show "ifrom c \<in> set ps \<and> iupto c \<in> set ps"
      unfolding ps_def sweep_points_set by auto
  qed
  have us_ps: "\<forall>u \<in> set us. ifrom u \<in> set ps \<and> iupto u \<in> set ps"
  proof
    fix u assume "u \<in> set us"
    with us_in [OF this] show "ifrom u \<in> set ps \<and> iupto u \<in> set ps"
      unfolding ps_def sweep_points_set by auto
  qed
  have e_ps: "ifrom e \<in> set ps" "iupto e \<in> set ps"
    using in_r e(1) unfolding ps_def sweep_points_set by auto
  note day = sweep_day [OF _ cs_ps us_ps e_ps in_r(3), of fp, folded seg_def]
  have sorted: "sorted_wrt (<) ps" unfolding ps_def by (rule sweep_points_sorted)
  show "tiles (ifrom d) (iupto d) (segments d)"
    "successively (\<lambda>s s'. seg_shape s \<noteq> seg_shape s') (segments d)"
    using day(1,2) [OF sorted] e by simp_all
  show "\<forall>t. mem t d \<longrightarrow> shape_at (segments d) t
      (shape_of (clip_claims rng (claimsOf m st now)) (unknownIntervals m st rng now) fp t)"
    using day(3) [OF sorted] e by (simp add: rng us_def cs_def mem_def)
qed

section \<open>Known means covered\<close>

lemma longest_pos: "MARGIN_MS \<le> longestEntryMs m now"
proof -
  have "acc \<le> foldl (\<lambda>longest r. if truthy (deletedAt r) then longest
      else case span r now of None \<Rightarrow> longest | Some s \<Rightarrow> max longest (iupto s - ifrom s)) acc rs"
    for acc rs
  proof (induction rs arbitrary: acc)
    case (Cons r rs)
    let ?acc = "if truthy (deletedAt r) then acc
      else case span r now of None \<Rightarrow> acc | Some s \<Rightarrow> max acc (iupto s - ifrom s)"
    have "acc \<le> ?acc" by (simp split: option.split)
    with Cons [of ?acc] show ?case by (simp only: foldl_Cons)
  qed simp
  then show ?thesis by (simp add: longestEntryMs_def)
qed

text \<open>Between disjoint intervals with gaps, a stretch is covered by one of them or not at all.\<close>

lemma covered_stretch:
  assumes "sorted_wrt apart is" "0 \<le> L"
  shows "(\<exists>i \<in> set is. ifrom i + L \<le> t \<and> t < iupto i) \<longleftrightarrow> (\<forall>s. t - L \<le> s \<and> s \<le> t \<longrightarrow> in_some s is)"
proof
  assume "\<exists>i \<in> set is. ifrom i + L \<le> t \<and> t < iupto i"
  then show "\<forall>s. t - L \<le> s \<and> s \<le> t \<longrightarrow> in_some s is"
    by (force simp: in_some_def mem_def)
next
  assume all: "\<forall>s. t - L \<le> s \<and> s \<le> t \<longrightarrow> in_some s is"
  with assms(2) have "in_some t is" by simp
  then obtain i where i: "i \<in> set is" "mem t i" by (auto simp: in_some_def)
  have "ifrom i + L \<le> t"
  proof (rule ccontr)
    assume "\<not> ifrom i + L \<le> t"
    with all i(2) have "in_some (ifrom i - 1) is" by (auto simp: mem_def)
    then obtain j where j: "j \<in> set is" "mem (ifrom i - 1) j" by (auto simp: in_some_def)
    then have "i \<noteq> j" by (auto simp: mem_def)
    with sorted_wrt_either [OF assms(1) i(1) j(1)] i(2) j(2) show False
      by (auto simp: apart_def mem_def)
  qed
  with i show "\<exists>i \<in> set is. ifrom i + L \<le> t \<and> t < iupto i" by (auto simp: mem_def)
qed

lemma latest_None: "(\<forall>s \<in> set cov. seg_ok s) \<Longrightarrow> latest cov k t = None \<longleftrightarrow>
    (\<forall>s \<in> set cov. cov_key s = k \<longrightarrow> \<not> spans_instant t s)"
proof (induction cov)
  case (Cons s cov)
  then obtain c where "ms (confirmedAt s) = Some c" by (auto elim: seg_okD)
  moreover have "omax (Some c) x \<noteq> None" for x by (cases x) simp_all
  ultimately show ?case using Cons by auto
qed simp

lemma covered_intervals:
  assumes "cov_ok (coverage m)"
  shows "in_some t (covered_intervals m c) \<longleftrightarrow>
      latest (coverage m) (coverageKey (rangeScope c [] [])) t \<noteq> None"
    and "sorted_wrt apart (covered_intervals m c)"
proof -
  let ?key = "coverageKey (rangeScope c [] [])"
  let ?is = "List.map_filter cov_interval (filter (\<lambda>s. cov_key s = ?key) (coverage m))"
  have ok: "\<forall>s \<in> set (coverage m). seg_ok s" using assms by (rule cov_ok_seg)
  then have le: "\<forall>i \<in> set ?is. ifrom i \<le> iupto i"
    by (auto simp: List.map_filter_def cov_interval_def elim!: seg_okD split: option.splits)
  have seg: "\<exists>i. cov_interval s = Some i \<and> (mem t i \<longleftrightarrow> spans_instant t s)"
    if "s \<in> set (coverage m)" for s
  proof -
    from ok that have "seg_ok s" by blast
    then show ?thesis by (rule seg_okD) (simp add: cov_interval_def mem_def spans_instant_def)
  qed
  have "in_some t ?is \<longleftrightarrow> (\<exists>s \<in> set (coverage m). cov_key s = ?key \<and> spans_instant t s)"
  proof
    assume "in_some t ?is"
    then obtain s i where "s \<in> set (coverage m)" "cov_key s = ?key" "cov_interval s = Some i" "mem t i"
      by (auto simp: in_some_def List.map_filter_def)
    with seg [of s] show "\<exists>s \<in> set (coverage m). cov_key s = ?key \<and> spans_instant t s" by auto
  next
    assume "\<exists>s \<in> set (coverage m). cov_key s = ?key \<and> spans_instant t s"
    then obtain s where s: "s \<in> set (coverage m)" "cov_key s = ?key" "spans_instant t s" by blast
    with seg [of s] obtain i where "cov_interval s = Some i" "mem t i" by auto
    with s show "in_some t ?is" by (force simp: in_some_def List.map_filter_def)
  qed
  then show "in_some t (covered_intervals m c) \<longleftrightarrow>
      latest (coverage m) (coverageKey (rangeScope c [] [])) t \<noteq> None"
    using union_intervals(1) [OF le] latest_None [OF ok] by (auto simp: covered_intervals_def)
  show "sorted_wrt apart (covered_intervals m c)"
    using union_intervals(2) [OF le] by (simp add: covered_intervals_def)
qed

section \<open>Properties\<close>

definition sample_settings :: settings where
  "sample_settings = \<lparr>workspaceId = ''w'', userId = ''u''\<rparr>"

text \<open>The zone of the samples: UTC.\<close>

definition utc :: "int \<Rightarrow> int" where
  "utc at = at div 1000 * 1000"

lemma sample_days: "daysOf utc 0 1000 = Some [\<lparr>ifrom = 0, iupto = 1000, day = ''1970-01-01''\<rparr>]"
proof -
  have "dayKey utc 0 = ''1970-01-01''" "addDays ''1970-01-01'' 1 = ''1970-01-02''"
    "startOfDay utc ''1970-01-01'' = 0" "startOfDay utc ''1970-01-02'' = 86400000"
    by code_simp+
  then show ?thesis by (simp add: daysOf_def days_from.simps)
qed

definition sample_timeline :: timeline where
  "sample_timeline = the (buildTimeline utc emptyMirror sample_settings \<lparr>ifrom = 0, iupto = 0\<rparr> 1000 False)"

lemma sample_timeline:
  "buildTimeline utc emptyMirror sample_settings \<lparr>ifrom = 0, iupto = 0\<rparr> 1000 False = Some sample_timeline"
  "\<forall>d \<in> set (days sample_timeline). ifrom d < iupto d"
  "days sample_timeline \<noteq> []"
  by (simp_all add: buildTimeline_def sample_timeline_def sample_days Let_def)

text \<open>
  C10. A day of the timeline is tiled. When every local day of the zone has a positive
  length, the segments of each day run from its first instant to its last without gap or
  overlap, no two neighbours could be joined, and at every instant of the day the segment
  there has the shape that \<open>classify\<close> gives to the claims covering that instant and to
  whether the instant is unknown.
\<close>
theorem timeline_correct:
  assumes "buildTimeline wall m st window now fp = Some tml"
    and "\<forall>d \<in> set (days tml). ifrom d < iupto d" and "d \<in> set (days tml)"
  shows "tiles (ifrom d) (iupto d) (segments d)
    \<and> successively (\<lambda>s s'. seg_shape s \<noteq> seg_shape s') (segments d)
    \<and> (\<forall>t. mem t d \<longrightarrow> shape_at (segments d) t
        (shape_of (clip_claims (timeline_range tml now) (claimsOf m st now))
          (unknownIntervals m st (timeline_range tml now) now) fp t))"
  using timeline_day [OF assms] by blast

theorem timeline_correct_witness:
  "tiles (ifrom (hd (days sample_timeline))) (iupto (hd (days sample_timeline)))
      (segments (hd (days sample_timeline)))
    \<and> successively (\<lambda>s s'. seg_shape s \<noteq> seg_shape s') (segments (hd (days sample_timeline)))"
proof -
  have "hd (days sample_timeline) \<in> set (days sample_timeline)" using sample_timeline(3) by simp
  from timeline_correct [OF sample_timeline(1,2) this] show ?thesis by blast
qed

text \<open>
  The days of the timeline follow one another without a gap and end at \<open>now\<close>.
\<close>
lemma timeline_days:
  assumes "buildTimeline wall m st window now fp = Some tml" "days tml \<noteq> []"
  shows "successively (\<lambda>d e. iupto d = ifrom e) (days tml) \<and> iupto (last (days tml)) = now"
proof -
  let ?b = "\<lambda>d. (ifrom d, iupto d)"
  from assms(1) obtain ds where ds: "daysOf wall (ifrom window) now = Some ds"
    by (auto simp: buildTimeline_def)
  with assms(1) have days: "map ?b (days tml) = map ?b ds"
    by (auto simp: buildTimeline_def Let_def)
  with assms(2) have "ds \<noteq> []" by auto
  note chain = daysOf_chain [OF ds this]
  from chain(1) have "successively (\<lambda>x y. snd x = fst y) (map ?b ds)"
    by (simp add: chained_def successively_map)
  then have "successively (\<lambda>x y. snd x = fst y) (map ?b (days tml))" unfolding days .
  moreover have "snd (last (map ?b (days tml))) = now"
    unfolding days using chain(2) \<open>ds \<noteq> []\<close> by (simp add: last_map)
  ultimately show ?thesis using assms(2) by (simp add: successively_map last_map)
qed

text \<open>
  Unknown time is what no read can vouch for. An instant of the window is unknown
  exactly when some start within the longest entry before it was not covered by a complete
  read of this user's entries, or an entry that is only an absence candidate spans it; and
  no instant outside the window is reported.
\<close>
lemma unknown_time:
  assumes "cov_ok (coverage m)"
  shows "in_some t (unknownIntervals m c window now) \<longleftrightarrow> mem t window \<and>
     (\<not> (\<forall>s. t - longestEntryMs m now \<le> s \<and> s \<le> t \<longrightarrow>
           latest (coverage m) (coverageKey (rangeScope c [] [])) s \<noteq> None)
      \<or> (\<exists>r \<in> set (absenceCandidates m). \<exists>s. span r now = Some s \<and> mem t s))"
proof -
  have "0 \<le> longestEntryMs m now"
    using longest_pos [of m now] by (simp add: MARGIN_MS_def HOUR_def)
  from covered_stretch [OF covered_intervals(2) [OF assms] this, of c t] show ?thesis
    unfolding unknownIntervals_instants covered_intervals(1) [OF assms] by blast
qed

end
