(* ===== verification/Willow_Encoding.thy ===== *)
theory Willow_Encoding
  imports Prelude
begin

text \<open>
  The byte-level building blocks of Willow's encodings
  (\<^verbatim>\<open>src/integrations/willow-drop/encoding.ts\<close>): a \<open>Reader\<close> over the bytes of a drop,
  compact U64s, absolute and relative paths, UTF-8 and base64.

  A byte is \<open>8 word\<close>; a \<open>Uint8Array\<close> is a list of bytes; a \<open>bigint\<close> U64 is a
  \<open>nat\<close>, which, like a bigint, has no upper bound of its own. The mutable \<open>Reader\<close> is a
  record passed and returned; every \<open>throw new DropError\<close> is an \<open>Inl\<close>.
\<close>

unbundle bit_operations_syntax

section \<open>The reader\<close>

type_synonym bytes = "8 word list"
type_synonym path = "bytes list"

definition MCL :: nat where "MCL = 4096"
definition MCC :: nat where "MCC = 4096"
definition MPL :: nat where "MPL = 4096"

datatype drop_error = DropError (err_message: string) (err_entry: "nat option")

text \<open>The constructor: an entry index is also put in front of the message.\<close>

definition new_DropError :: "string \<Rightarrow> nat option \<Rightarrow> drop_error" where
  "new_DropError msg entry =
     (case entry of
        None \<Rightarrow> DropError msg None
      | Some e \<Rightarrow> DropError (''Entry '' @ nat_str (e + 1) @ '': '' @ msg) (Some e))"

record reader =
  rbytes :: bytes
  roffset :: nat

type_synonym 'a reads = "drop_error + 'a \<times> reader"

definition new_reader :: "bytes \<Rightarrow> reader" where
  "new_reader bs = \<lparr>rbytes = bs, roffset = 0\<rparr>"

definition remaining :: "reader \<Rightarrow> nat" where
  "remaining r = length (rbytes r) - roffset r"

definition fail :: "string \<Rightarrow> drop_error + 'a" where
  "fail msg = Inl (new_DropError msg None)"

definition peek :: "reader \<Rightarrow> drop_error + 8 word" where
  "peek r =
     (if roffset r \<ge> length (rbytes r) then fail ''the drop ends in the middle of an entry''
      else Inr (rbytes r ! roffset r))"

definition byte :: "reader \<Rightarrow> 8 word reads" where
  "byte r = bindE (peek r) (\<lambda>v. Inr (v, r\<lparr>roffset := roffset r + 1\<rparr>))"

definition take_bytes :: "nat \<Rightarrow> reader \<Rightarrow> bytes reads" where
  "take_bytes count r =
     (if count > remaining r then fail ''the drop ends in the middle of an entry''
      else Inr (take count (drop (roffset r) (rbytes r)),
                r\<lparr>roffset := roffset r + count\<rparr>))"

text \<open>Sequencing of reads: the reader moves on only when the read succeeds.\<close>

definition thenR :: "'a reads \<Rightarrow> ('a \<Rightarrow> reader \<Rightarrow> 'b reads) \<Rightarrow> 'b reads" where
  "thenR m f = bindE m (\<lambda>(x, r). f x r)"

lemma thenR_cong [fundef_cong]:
  "m = m' \<Longrightarrow> (\<And>x r. m' = Inr (x, r) \<Longrightarrow> f x r = f' x r) \<Longrightarrow> thenR m f = thenR m' f'"
  by (cases m') (auto simp: thenR_def)

text \<open>
  \<open>[8, 4, 2, 1][i]\<close>: \<open>None\<close> is JavaScript's \<open>undefined\<close>, out of range.
\<close>

definition cu64_sizes :: "nat \<Rightarrow> nat option" where
  "cu64_sizes i = (if i < 4 then Some ([8, 4, 2, 1] ! i) else None)"

definition be_value :: "bytes \<Rightarrow> nat" where
  "be_value bs = foldl (\<lambda>value b. push_bit 8 value OR unat b) 0 bs"

definition cu64 :: "8 word \<Rightarrow> nat \<Rightarrow> nat \<Rightarrow> reader \<Rightarrow> nat reads" where
  "cu64 tagByte width offset r =
     (let max = push_bit width 1 - 1;
          tag = drop_bit (8 - offset - width) (unat tagByte) AND max
      in case cu64_sizes (max - tag) of
           None \<Rightarrow> Inr (tag, r)
         | Some n \<Rightarrow> thenR (take_bytes n r) (\<lambda>bs r. Inr (be_value bs, r)))"

definition cu64Standalone :: "reader \<Rightarrow> nat reads" where
  "cu64Standalone r = thenR (byte r) (\<lambda>tagByte r. cu64 tagByte 8 0 r)"

definition small :: "nat \<Rightarrow> nat \<Rightarrow> string \<Rightarrow> drop_error + nat" where
  "small value limit what =
     (if value > limit then fail (what @ '' exceeds '' @ nat_str limit) else Inr value)"

definition total_length :: "path \<Rightarrow> nat" where
  "total_length p = foldl (\<lambda>sum c. sum + length c) 0 p"

section \<open>Decoding paths\<close>

text \<open>
  The loop \<open>for (let i = 1; i < count; i++)\<close>: \<open>n\<close> more components whose length precedes
  them.
\<close>

fun decode_lengths :: "nat \<Rightarrow> nat \<Rightarrow> path \<Rightarrow> reader \<Rightarrow> (nat \<times> path) reads" where
  "decode_lengths 0 accumulated path r = Inr ((accumulated, path), r)"
| "decode_lengths (Suc n) accumulated path r =
     thenR (cu64Standalone r) (\<lambda>v r.
       bindE (small v MCL ''a path component'') (\<lambda>len.
         thenR (take_bytes len r) (\<lambda>c r.
           decode_lengths n (accumulated + len) (path @ [c]) r)))"

definition decodeComponents :: "reader \<Rightarrow> path \<Rightarrow> nat \<Rightarrow> nat \<Rightarrow> path reads" where
  "decodeComponents r prefix count totalLength =
     (let accumulated = total_length prefix in
      if count = 0 then
        (if totalLength > accumulated
         then fail ''a path claims more bytes than its components hold''
         else Inr (prefix, r))
      else
        thenR (decode_lengths (count - 1) accumulated prefix r) (\<lambda>(accumulated, path) r.
          let last = int totalLength - int accumulated in
          if last < 0 \<or> last > int MCL
          then fail ''a path has an invalid final component length''
          else thenR (take_bytes (nat last) r) (\<lambda>c r. Inr (path @ [c], r))))"

definition decodeRelativePath :: "reader \<Rightarrow> path \<Rightarrow> path reads" where
  "decodeRelativePath r previous =
     thenR (cu64Standalone r) (\<lambda>v r.
     bindE (small v MCC ''a path prefix'') (\<lambda>prefixCount.
     thenR (byte r) (\<lambda>header r.
     thenR (cu64 header 4 0 r) (\<lambda>v r.
     bindE (small v MPL ''a path'') (\<lambda>suffixLength.
     thenR (cu64 header 4 4 r) (\<lambda>v r.
     bindE (small v MCC ''a path'') (\<lambda>suffixCount.
       if prefixCount > length previous
       then fail ''a path reuses more components than exist''
       else
         let prefix = take prefixCount previous;
             prefixLength = total_length prefix
         in if prefixLength + suffixLength > MPL \<or> prefixCount + suffixCount > MCC
            then fail ''a path exceeds the Willow25 limits''
            else decodeComponents r prefix suffixCount (prefixLength + suffixLength))))))))"

section \<open>Encoding\<close>

definition tagFor :: "nat \<Rightarrow> nat \<Rightarrow> nat" where
  "tagFor n width =
     (let maxInline = push_bit width 1 - 4;
          max = push_bit width 1 - 1
      in if n < maxInline then n
         else if n < 256 then max - 3
         else if n < 65536 then max - 2
         else if n < 4294967296 then max - 1
         else max)"

text \<open>The bytes of \<open>n\<close>, most significant first: \<open>i\<close> from \<open>size - 1\<close> down to 0.\<close>

fun be_bytes :: "nat \<Rightarrow> nat \<Rightarrow> bytes" where
  "be_bytes 0 n = []"
| "be_bytes (Suc i) n = word_of_nat (drop_bit (i * 8) n AND 255) # be_bytes i n"

definition cu64Bytes :: "nat \<Rightarrow> nat \<Rightarrow> bytes" where
  "cu64Bytes n width =
     (case cu64_sizes (push_bit width 1 - 1 - tagFor n width) of
        None \<Rightarrow> []
      | Some sz \<Rightarrow> be_bytes sz n)"

definition encodeCu64Standalone :: "nat \<Rightarrow> bytes" where
  "encodeCu64Standalone n = word_of_nat (tagFor n 8) # cu64Bytes n 8"

fun encode_components :: "path \<Rightarrow> bytes" where
  "encode_components [] = []"
| "encode_components [c] = c"
| "encode_components (c # cs) = encodeCu64Standalone (length c) @ c @ encode_components cs"

definition encodePath :: "path \<Rightarrow> bytes" where
  "encodePath p =
     (let len = total_length p; count = length p
      in word_of_nat (push_bit 4 (tagFor len 4) OR tagFor count 4)
           # cu64Bytes len 4 @ cu64Bytes count 4 @ encode_components p)"


section \<open>UTF-8 and base64\<close>

text \<open>
  \<open>utf8Text\<close> builds a string with \<open>String.fromCodePoint\<close>; the model returns the code
  points. \<open>utf8_lead\<close> is the chain of tests on the leading byte: how many continuation
  bytes follow, the bits the leading byte carries, and the least code point of that length.
\<close>

definition utf8_lead :: "nat \<Rightarrow> (nat \<times> nat \<times> nat) option" where
  "utf8_lead b =
     (if 0xc2 \<le> b \<and> b \<le> 0xdf then Some (1, b AND 0x1f, 0x80)
      else if 0xe0 \<le> b \<and> b \<le> 0xef then Some (2, b AND 0x0f, 0x800)
      else if 0xf0 \<le> b \<and> b \<le> 0xf4 then Some (3, b AND 0x07, 0x10000)
      else if 0x80 \<le> b then None
      else Some (0, b, 0))"

fun utf8_cont :: "nat \<Rightarrow> bytes \<Rightarrow> nat \<Rightarrow> nat option" where
  "utf8_cont 0 rest code = Some code"
| "utf8_cont (Suc k) [] code = None"
| "utf8_cont (Suc k) (c # rest) code =
     (if unat c AND 0xc0 \<noteq> 0x80 then None
      else utf8_cont k rest (push_bit 6 code OR (unat c AND 0x3f)))"

function utf8Text :: "bytes \<Rightarrow> nat list option" where
  "utf8Text [] = Some []"
| "utf8Text (b # rest) =
     (case utf8_lead (unat b) of
        None \<Rightarrow> None
      | Some (need, code, lo) \<Rightarrow>
          if need > length rest \<and> need > 0 then None
          else
            (case utf8_cont need rest code of
               None \<Rightarrow> None
             | Some code \<Rightarrow>
                 if (need > 0 \<and> code < lo) \<or> code > 0x10ffff \<or> (code \<ge> 0xd800 \<and> code \<le> 0xdfff)
                 then None
                 else map_option ((#) code) (utf8Text (drop need rest))))"
  by pat_completeness auto
termination
  by (relation "measure length") auto

definition BASE64 :: string where
  "BASE64 = ''ABCDEFGHIJKLMNOPQRSTUVWXYZabcdefghijklmnopqrstuvwxyz0123456789+/''"

fun base64 :: "bytes \<Rightarrow> string" where
  "base64 [] = []"
| "base64 (b0 # rest) =
     (let b1 = (if length rest > 0 then unat (rest ! 0) else 0);
          b2 = (if length rest > 1 then unat (rest ! 1) else 0);
          n = (push_bit 16 (unat b0) OR push_bit 8 b1) OR b2
      in [BASE64 ! drop_bit 18 n, BASE64 ! (drop_bit 12 n AND 63),
          if length rest > 0 then BASE64 ! (drop_bit 6 n AND 63) else CHR ''='',
          if length rest > 1 then BASE64 ! (n AND 63) else CHR ''='']
         @ base64 (drop 2 rest))"

section \<open>What the reader does\<close>

text \<open>\<open>ahead\<close> is what is still to be read; reads are described by it and by \<open>advance\<close>.\<close>

definition ahead :: "reader \<Rightarrow> bytes" where
  "ahead r = drop (roffset r) (rbytes r)"

definition advance :: "nat \<Rightarrow> reader \<Rightarrow> reader" where
  "advance n r = r\<lparr>roffset := roffset r + n\<rparr>"

lemma advance_0 [simp]: "advance 0 r = r"
  by (simp add: advance_def)

lemma advance_advance [simp]: "advance m (advance n r) = advance (n + m) r"
  by (simp add: advance_def add.assoc)

lemma ahead_advance [simp]: "ahead (advance n r) = drop n (ahead r)"
  by (simp add: ahead_def advance_def add.commute)

lemma rbytes_advance [simp]: "rbytes (advance n r) = rbytes r"
  by (simp add: advance_def)

lemma ahead_new_reader [simp]: "ahead (new_reader bs) = bs"
  by (simp add: ahead_def new_reader_def)

lemma remaining_ahead: "remaining r = length (ahead r)"
  by (simp add: remaining_def ahead_def)

lemma thenR_simps [simp]:
  "thenR (Inl e) f = Inl e"
  "thenR (Inr (x, r)) f = f x r"
  by (simp_all add: thenR_def)

lemma thenR_eq_Inr:
  "thenR m f = Inr y \<longleftrightarrow> (\<exists>x r. m = Inr (x, r) \<and> f x r = Inr y)"
  by (auto simp: thenR_def bindE_eq_Inr split: prod.splits)

lemma fail_neq_Inr [simp]: "fail msg \<noteq> Inr x"
  by (simp add: fail_def)

lemma peek_ahead:
  "peek r = (case ahead r of
     [] \<Rightarrow> fail ''the drop ends in the middle of an entry'' | b # _ \<Rightarrow> Inr b)"
proof (cases "roffset r < length (rbytes r)")
  case True
  then have "ahead r = rbytes r ! roffset r # drop (Suc (roffset r)) (rbytes r)"
    by (simp add: ahead_def Cons_nth_drop_Suc)
  with True show ?thesis by (simp add: peek_def)
qed (simp add: peek_def ahead_def)

lemma byte_ahead:
  "byte r = (case ahead r of
     [] \<Rightarrow> fail ''the drop ends in the middle of an entry''
   | b # _ \<Rightarrow> Inr (b, advance 1 r))"
  by (simp add: byte_def peek_ahead advance_def fail_def split: list.split)

lemma take_bytes_ahead:
  "take_bytes n r =
     (if n > length (ahead r) then fail ''the drop ends in the middle of an entry''
      else Inr (take n (ahead r), advance n r))"
  by (simp add: take_bytes_def remaining_ahead ahead_def advance_def)

lemma byte_Cons [simp]: "ahead r = b # rest \<Longrightarrow> byte r = Inr (b, advance 1 r)"
  by (simp add: byte_ahead)

lemma take_bytes_append [simp]:
  "ahead r = bs @ rest \<Longrightarrow> n = length bs \<Longrightarrow> take_bytes n r = Inr (bs, advance n r)"
  by (simp add: take_bytes_ahead)

section \<open>Compact U64s\<close>

lemma be_value_eq: "foldl (\<lambda>value b. push_bit 8 value OR unat b) a bs
    = a * 256 ^ length bs + be_value bs"
proof (induction bs arbitrary: a)
  case (Cons b bs)
  have step: "push_bit 8 v OR unat b = v * 256 + unat b" for v
    using push_bit_or_add [of "unat b" 8 v] by simp
  show ?case
    using Cons.IH [of "a * 256 + unat b"] Cons.IH [of "unat b"] step [of a] step [of 0]
    by (simp add: be_value_def algebra_simps)
qed (simp add: be_value_def)

lemma be_value_Cons [simp]: "be_value (b # bs) = unat b * 256 ^ length bs + be_value bs"
  using be_value_eq [of "unat b" bs] by (simp add: be_value_def)

lemma be_value_Nil [simp]: "be_value [] = 0"
  by (simp add: be_value_def)

lemma length_be_bytes [simp]: "length (be_bytes k n) = k"
  by (induction k) simp_all

lemma be_value_be_bytes: "be_value (be_bytes k n) = n mod 256 ^ k"
proof (induction k)
  case (Suc k)
  have "unat (word_of_nat (drop_bit (k * 8) n AND 255) :: 8 word) = n div 256 ^ k mod 256"
    by (simp add: and_255 drop_bit_eq_div unat_of_nat power_mult mult.commute [of k 8])
  then show ?case
    using Suc mod_mult2_eq [of n "256 ^ k" 256] by (simp add: mult.commute)
qed simp

lemma be_value_less: "be_value bs < 256 ^ length bs"
proof (induction bs)
  case (Cons b bs)
  have "unat b \<le> 255" using unat_byte_less [of b] by linarith
  then have "unat b * 256 ^ length bs \<le> 255 * 256 ^ length bs" by simp
  with Cons have "unat b * 256 ^ length bs + be_value bs < 255 * 256 ^ length bs + 256 ^ length bs"
    by (rule add_le_less_mono [rotated])
  then show ?case by simp
qed simp

lemma push_bit_1: "push_bit w 1 = (2 :: nat) ^ w"
  by (simp add: push_bit_eq_mult)

lemma cu64_sizes_simps [simp]:
  "cu64_sizes 0 = Some 8" "cu64_sizes (Suc 0) = Some 4"
  "cu64_sizes 2 = Some 2" "cu64_sizes 3 = Some 1"
  by (simp_all add: cu64_sizes_def numeral_2_eq_2 numeral_3_eq_3)

lemma cu64_unfold:
  "cu64 tb w off r =
     (let tag = drop_bit (8 - off - w) (unat tb) mod 2 ^ w
      in case cu64_sizes (2 ^ w - 1 - tag) of
           None \<Rightarrow> Inr (tag, r)
         | Some n \<Rightarrow> thenR (take_bytes n r) (\<lambda>bs r. Inr (be_value bs, r)))"
  unfolding cu64_def Let_def and_pow_minus_1 by (simp add: push_bit_1)

lemma tagFor_unfold:
  "tagFor n w =
     (if n < 2 ^ w - 4 then n else if n < 256 then 2 ^ w - 1 - 3
      else if n < 65536 then 2 ^ w - 1 - 2 else if n < 4294967296 then 2 ^ w - 1 - 1
      else 2 ^ w - 1 - 0)"
  by (simp add: tagFor_def push_bit_1 Let_def)

lemma tagFor_cases:
  assumes "2 \<le> w"
  obtains (inline) "n < 2 ^ w - 4" "tagFor n w = n"
  | (bytes) k s where "\<not> n < 2 ^ w - 4" "tagFor n w = 2 ^ w - 1 - k" "k < 4"
      "cu64_sizes k = Some s" "n < 2 ^ 64 \<Longrightarrow> n < 256 ^ s"
proof -
  consider "n < 2 ^ w - 4"
    | "\<not> n < 2 ^ w - 4" "n < 256" | "\<not> n < 2 ^ w - 4" "\<not> n < 256" "n < 65536"
    | "\<not> n < 2 ^ w - 4" "\<not> n < 256" "\<not> n < 65536" "n < 4294967296"
    | "\<not> n < 2 ^ w - 4" "\<not> n < 256" "\<not> n < 65536" "\<not> n < 4294967296" by blast
  then show thesis
  proof cases
    case 1
    then show ?thesis using inline by (simp add: tagFor_unfold)
  next
    case 2
    then show ?thesis using bytes [of 3 1] by (simp add: tagFor_unfold)
  next
    case 3
    then show ?thesis using bytes [of 2 2] by (simp add: tagFor_unfold)
  next
    case 4
    then show ?thesis using bytes [of 1 4] by (simp add: tagFor_unfold)
  next
    case 5
    then show ?thesis using bytes [of 0 8] by (simp add: tagFor_unfold)
  qed
qed

lemma pow2_ge_4: "2 \<le> w \<Longrightarrow> (4 :: nat) \<le> 2 ^ w"
  using power_increasing [of 2 w "2 :: nat"] by simp

lemma tagFor_less: "2 \<le> w \<Longrightarrow> tagFor n w < 2 ^ w"
  by (erule tagFor_cases [of w n]) auto

text \<open>
  The tag of \<open>n\<close>, wherever it stands in the tag byte, and its bytes ahead: the reader
  returns \<open>n\<close> and has read exactly those bytes.
\<close>

lemma cu64_read:
  assumes w: "2 \<le> w" and n: "n < 2 ^ 64"
    and tag: "drop_bit (8 - off - w) (unat tb) mod 2 ^ w = tagFor n w"
    and ahead: "ahead r = cu64Bytes n w @ rest"
  shows "cu64 tb w off r = Inr (n, advance (length (cu64Bytes n w)) r)"
  using w
proof (cases rule: tagFor_cases [of w n])
  case inline
  then have "cu64_sizes (2 ^ w - 1 - n) = None" by (simp add: cu64_sizes_def)
  with inline tag show ?thesis
    by (simp add: cu64_unfold cu64Bytes_def push_bit_1)
next
  case (bytes k s)
  have "2 ^ w - 1 - tagFor n w = k"
    using bytes(2,3) pow2_ge_4 [OF w] by simp
  with bytes(4) have sizes: "cu64_sizes (2 ^ w - 1 - tagFor n w) = Some s" by simp
  then have bs: "cu64Bytes n w = be_bytes s n" by (simp add: cu64Bytes_def push_bit_1)
  have "cu64 tb w off r = thenR (take_bytes s r) (\<lambda>bs r. Inr (be_value bs, r))"
    using sizes tag by (simp add: cu64_unfold)
  also have "\<dots> = Inr (n, advance s r)"
    using ahead bs bytes(5) n by (simp add: be_value_be_bytes)
  finally show ?thesis by (simp add: bs)
qed

section \<open>Codecs\<close>

text \<open>
  The contract between an encoder and the reader that inverts it, whatever follows the
  encoding. A codec is prefix-free, so encodings can be concatenated without separators.
\<close>

locale byte_codec =
  fixes enc :: "'a \<Rightarrow> bytes" and dec :: "reader \<Rightarrow> 'a reads" and valid :: "'a \<Rightarrow> bool"
  assumes dec_enc: "valid x \<Longrightarrow> ahead r = enc x @ rest
    \<Longrightarrow> dec r = Inr (x, advance (length (enc x)) r)"
begin

lemma dec_new: "valid x \<Longrightarrow> dec (new_reader (enc x @ rest))
    = Inr (x, advance (length (enc x)) (new_reader (enc x @ rest)))"
  by (rule dec_enc) simp_all

lemma prefix_free:
  assumes "valid x" "valid y" "enc x @ u = enc y @ v"
  shows "x = y \<and> u = v"
proof -
  have "x = y" using dec_new [OF assms(1), of u] dec_new [OF assms(2), of v] assms(3) by simp
  with assms(3) show ?thesis by simp
qed

lemma enc_inj: "valid x \<Longrightarrow> valid y \<Longrightarrow> enc x = enc y \<Longrightarrow> x = y"
  using prefix_free [of x y "[]" "[]"] by simp

end

lemma cu64Standalone_read:
  assumes "n < 2 ^ 64" "ahead r = encodeCu64Standalone n @ rest"
  shows "cu64Standalone r = Inr (n, advance (length (encodeCu64Standalone n)) r)"
proof -
  have "tagFor n 8 < 256" using tagFor_less [of 8 n] by simp
  then show ?thesis
    using assms cu64_read [of 8 n 0 "word_of_nat (tagFor n 8)" "advance 1 r" rest]
    by (simp add: cu64Standalone_def encodeCu64Standalone_def unat_of_nat)
qed

interpretation cu64_codec: byte_codec encodeCu64Standalone cu64Standalone "\<lambda>n. n < 2 ^ 64"
  by unfold_locales (rule cu64Standalone_read)

section \<open>Paths\<close>

lemma foldl_length: "foldl (\<lambda>sum c. sum + length c) a p = a + length (concat p)"
  by (induction p arbitrary: a) simp_all

lemma total_length_concat: "total_length p = length (concat p)"
  by (simp add: total_length_def foldl_length)

lemma total_length_simps [simp]:
  "total_length [] = 0"
  "total_length (c # p) = length c + total_length p"
  "total_length (p @ q) = total_length p + total_length q"
  by (simp_all add: total_length_concat)

lemma component_le_total: "c \<in> set p \<Longrightarrow> length c \<le> total_length p"
  by (induction p) auto

text \<open>Every component but the last is preceded by its length.\<close>

definition encode_lengths :: "path \<Rightarrow> bytes" where
  "encode_lengths cs = concat (map (\<lambda>c. encodeCu64Standalone (length c) @ c) cs)"

lemma encode_components_snoc: "encode_components (cs @ [c]) = encode_lengths cs @ c"
proof (induction cs)
  case (Cons d cs)
  then show ?case by (cases "cs @ [c]") (simp_all add: encode_lengths_def)
qed (simp add: encode_lengths_def)

definition path_ok :: "path \<Rightarrow> bool" where
  "path_ok p \<longleftrightarrow> length p \<le> MCC \<and> total_length p \<le> MPL"

lemmas limits_def = MCL_def MCC_def MPL_def

lemma decode_lengths_read:
  assumes "\<forall>c \<in> set cs. length c \<le> MCL" "ahead r = encode_lengths cs @ rest"
  shows "decode_lengths (length cs) acc p r
    = Inr ((acc + total_length cs, p @ cs), advance (length (encode_lengths cs)) r)"
  using assms
proof (induction cs arbitrary: acc p r)
  case (Cons c cs)
  let ?n = "length (encodeCu64Standalone (length c))"
  have c: "length c \<le> MCL" "length c < 2 ^ 64" using Cons.prems(1) by (auto simp: MCL_def)
  have "cu64Standalone r = Inr (length c, advance ?n r)"
    by (rule cu64Standalone_read) (use c Cons.prems(2) in \<open>simp_all add: encode_lengths_def\<close>)
  moreover have "take_bytes (length c) (advance ?n r) = Inr (c, advance (length c) (advance ?n r))"
    by (rule take_bytes_append) (use Cons.prems(2) in \<open>simp_all add: encode_lengths_def\<close>)
  ultimately show ?case
    using c(1) Cons.IH [of "advance (?n + length c) r" "acc + length c" "p @ [c]"] Cons.prems
    by (simp add: small_def encode_lengths_def algebra_simps)
qed (simp add: encode_lengths_def)

lemma decodeComponents_read:
  assumes "total_length prefix + total_length suf \<le> MPL"
    and "ahead r = encode_components suf @ rest"
  shows "decodeComponents r prefix (length suf) (total_length prefix + total_length suf)
    = Inr (prefix @ suf, advance (length (encode_components suf)) r)"
proof (cases suf rule: rev_cases)
  case Nil
  then show ?thesis by (simp add: decodeComponents_def)
next
  case (snoc cs c)
  have len: "length d \<le> MCL" if "d \<in> set suf" for d
    using component_le_total [OF that] assms(1) by (simp add: limits_def)
  have "decode_lengths (length cs) (total_length prefix) prefix r
      = Inr ((total_length prefix + total_length cs, prefix @ cs),
             advance (length (encode_lengths cs)) r)"
    by (rule decode_lengths_read) (use len assms(2) snoc in \<open>auto simp: encode_components_snoc\<close>)
  then show ?thesis
    using assms(2) len [of c]
    by (simp add: snoc encode_components_snoc decodeComponents_def take_bytes_ahead Let_def)
qed

lemma header_tags:
  assumes "a < 16" "b < 16"
  shows "unat (word_of_nat (push_bit 4 a OR b) :: 8 word) = a * 16 + b"
proof -
  have eq: "push_bit 4 a OR b = a * 16 + b" using push_bit_or_add [of b 4 a] assms(2) by simp
  show ?thesis unfolding eq unat_of_nat using assms by simp
qed

lemma decodeRelativePath_read:
  assumes k: "k \<le> length previous" "k + length suf \<le> MCC"
    and len: "total_length (take k previous) + total_length suf \<le> MPL"
    and ahead: "ahead r = encodeCu64Standalone k @ encodePath suf @ rest"
  shows "decodeRelativePath r previous
    = Inr (take k previous @ suf, advance (length (encodeCu64Standalone k @ encodePath suf)) r)"
proof -
  let ?l = "total_length suf" and ?c = "length suf"
  let ?tb = "word_of_nat (push_bit 4 (tagFor ?l 4) OR tagFor ?c 4) :: 8 word"
  let ?L = "cu64Bytes ?l 4" and ?C = "cu64Bytes ?c 4"
  define r1 r2 r3 r4 where "r1 = advance (length (encodeCu64Standalone k)) r"
    and "r2 = advance 1 r1" and "r3 = advance (length ?L) r2" and "r4 = advance (length ?C) r3"
  have small: "k < 2 ^ 64" "k \<le> MCC" "?l < 2 ^ 64" "?l \<le> MPL" "?c < 2 ^ 64" "?c \<le> MCC"
    using k len by (auto simp: limits_def)
  have tags: "tagFor ?l 4 < 16" "tagFor ?c 4 < 16" using tagFor_less [of 4] by simp_all
  have tb: "unat ?tb = tagFor ?l 4 * 16 + tagFor ?c 4" by (rule header_tags [OF tags])
  have a1: "ahead r1 = ?tb # ?L @ ?C @ encode_components suf @ rest"
    using ahead by (simp add: r1_def encodePath_def Let_def)
  have a2: "ahead r2 = ?L @ ?C @ encode_components suf @ rest" by (simp add: r2_def a1)
  have a3: "ahead r3 = ?C @ encode_components suf @ rest" by (simp add: r3_def a2)
  have a4: "ahead r4 = encode_components suf @ rest" by (simp add: r4_def a3)
  have "cu64Standalone r = Inr (k, r1)"
    using cu64Standalone_read [OF small(1) ahead] by (simp add: r1_def)
  moreover have "byte r1 = Inr (?tb, r2)" by (simp add: r2_def a1)
  moreover have "cu64 ?tb 4 0 r2 = Inr (?l, r3)"
    unfolding r3_def by (rule cu64_read [OF _ small(3) _ a2]) (use tb tags in \<open>simp_all add: drop_bit_eq_div\<close>)
  moreover have "cu64 ?tb 4 4 r3 = Inr (?c, r4)"
    unfolding r4_def by (rule cu64_read [OF _ small(5) _ a3]) (use tb tags in simp_all)
  moreover have "decodeComponents r4 (take k previous) ?c (total_length (take k previous) + ?l)
      = Inr (take k previous @ suf, advance (length (encode_components suf)) r4)"
    by (rule decodeComponents_read [OF len a4])
  moreover have "advance (length (encode_components suf)) r4
      = advance (length (encodeCu64Standalone k @ encodePath suf)) r"
    by (simp add: r4_def r3_def r2_def r1_def encodePath_def Let_def add.assoc)
  ultimately show ?thesis
    using small k len by (simp add: decodeRelativePath_def small_def Let_def)
qed

text \<open>A path on its own is relative to nothing; its codec is prefix-free.\<close>

lemma path_read:
  assumes "path_ok p" "ahead r = (encodeCu64Standalone 0 @ encodePath p) @ rest"
  shows "decodeRelativePath r [] = Inr (p, advance (length (encodeCu64Standalone 0 @ encodePath p)) r)"
  using decodeRelativePath_read [of 0 "[]" p r rest] assms by (simp add: path_ok_def)

interpretation path_codec: byte_codec
  "\<lambda>p. encodeCu64Standalone 0 @ encodePath p" "\<lambda>r. decodeRelativePath r []" path_ok
  by unfold_locales (rule path_read)

lemma encodePath_prefix_free:
  "path_ok p \<Longrightarrow> path_ok q \<Longrightarrow> encodePath p @ u = encodePath q @ v \<Longrightarrow> p = q \<and> u = v"
  using path_codec.prefix_free [of p q u v] by simp

section \<open>What a read consumes\<close>

text \<open>
  \<open>consumes r r'\<close>: the bytes are the same and the offset has moved forward, never past the
  end. Every read that succeeds consumes.
\<close>

definition consumes :: "reader \<Rightarrow> reader \<Rightarrow> bool" where
  "consumes r r' \<longleftrightarrow> (\<exists>n \<le> length (ahead r). r' = advance n r)"

named_theorems reads_consume

lemma consumes_refl [simp]: "consumes r r"
  unfolding consumes_def by (rule exI [of _ 0]) simp

lemma consumes_advance: "n \<le> length (ahead r) \<Longrightarrow> consumes r (advance n r)"
  by (auto simp: consumes_def)

lemma consumes_trans [trans]: "consumes r r' \<Longrightarrow> consumes r' r'' \<Longrightarrow> consumes r r''"
proof -
  assume "consumes r r'" "consumes r' r''"
  then obtain m n where "m \<le> length (ahead r)" "r' = advance m r"
    "n \<le> length (ahead r')" "r'' = advance n r'" by (auto simp: consumes_def)
  then show "consumes r r''" unfolding consumes_def by (intro exI [of _ "m + n"]) auto
qed

lemma consumes_rbytes: "consumes r r' \<Longrightarrow> rbytes r' = rbytes r"
  by (auto simp: consumes_def)

lemma consumes_ahead: "consumes r r' \<Longrightarrow> length (ahead r') \<le> length (ahead r)"
  by (auto simp: consumes_def)

lemma byte_consumes [reads_consume]:
  "byte r = Inr (b, r') \<Longrightarrow> consumes r r'"
  by (auto simp: byte_ahead fail_def intro!: consumes_advance split: list.splits)

lemma byte_shortens: "byte r = Inr (b, r') \<Longrightarrow> length (ahead r') < length (ahead r)"
  by (auto simp: byte_ahead fail_def split: list.splits)

lemma take_bytes_consumes [reads_consume]:
  "take_bytes n r = Inr (bs, r') \<Longrightarrow> consumes r r'"
  by (auto simp: take_bytes_ahead fail_def intro!: consumes_advance split: if_splits)

lemma take_bytes_length: "take_bytes n r = Inr (bs, r') \<Longrightarrow> length bs = n"
  by (auto simp: take_bytes_ahead fail_def split: if_splits)

lemma cu64_consumes [reads_consume]:
  "cu64 tb w off r = Inr (v, r') \<Longrightarrow> consumes r r'"
  by (auto simp: cu64_def Let_def thenR_eq_Inr dest: take_bytes_consumes split: option.splits)

lemma cu64Standalone_consumes [reads_consume]:
  "cu64Standalone r = Inr (v, r') \<Longrightarrow> consumes r r'"
  by (auto simp: cu64Standalone_def thenR_eq_Inr dest!: reads_consume intro: consumes_trans)

lemma small_eq_Inr: "small v limit what = Inr n \<longleftrightarrow> v \<le> limit \<and> n = v"
  by (auto simp: small_def)

lemma decode_lengths_consumes [reads_consume]:
  "decode_lengths n acc p r = Inr (x, r') \<Longrightarrow> consumes r r'"
proof (induction n arbitrary: acc p r)
  case (Suc n)
  then show ?case
    by (auto simp: thenR_eq_Inr bindE_eq_Inr small_eq_Inr dest!: reads_consume Suc.IH
        intro: consumes_trans)
qed simp

lemma decode_lengths_result:
  "decode_lengths n acc p r = Inr ((acc', p'), r')
    \<Longrightarrow> length p' = length p + n \<and> acc' + total_length p = acc + total_length p'"
proof (induction n arbitrary: acc p r)
  case (Suc n)
  then show ?case
    by (fastforce simp: thenR_eq_Inr bindE_eq_Inr small_eq_Inr dest!: take_bytes_length Suc.IH)
qed simp

lemma decodeComponents_consumes [reads_consume]:
  "decodeComponents r prefix count n = Inr (p, r') \<Longrightarrow> consumes r r'"
  by (auto simp: decodeComponents_def Let_def thenR_eq_Inr dest!: reads_consume
      intro: consumes_trans split: if_splits)

lemma decodeComponents_result:
  "decodeComponents r prefix count n = Inr (p, r') \<Longrightarrow> total_length prefix \<le> n
    \<Longrightarrow> length p = length prefix + count \<and> total_length p \<le> n"
  by (auto simp: decodeComponents_def Let_def thenR_eq_Inr split: if_splits
      dest!: decode_lengths_result take_bytes_length)

lemma decodeRelativePath_consumes [reads_consume]:
  "decodeRelativePath r previous = Inr (p, r') \<Longrightarrow> consumes r r'"
  by (auto simp: decodeRelativePath_def Let_def thenR_eq_Inr bindE_eq_Inr small_eq_Inr
      dest!: reads_consume split: if_splits) (meson consumes_trans)

lemma decodeRelativePath_ok:
  "decodeRelativePath r previous = Inr (p, r') \<Longrightarrow> path_ok p"
  by (auto simp: decodeRelativePath_def Let_def thenR_eq_Inr bindE_eq_Inr small_eq_Inr
      path_ok_def dest!: decodeComponents_result split: if_splits)

section \<open>Properties\<close>

text \<open>
  C1. A path encoded relative to the previous one (how many components to keep, then the
  rest) is decoded to the path, and the reader stops exactly behind its encoding, whatever
  follows: for every path that stays within the Willow25 limits.
\<close>
theorem relative_path_roundtrip:
  assumes "k \<le> length previous" "k + length suf \<le> MCC"
    and "total_length (take k previous) + total_length suf \<le> MPL"
  shows "decodeRelativePath (new_reader (encodeCu64Standalone k @ encodePath suf @ rest)) previous
    = Inr (take k previous @ suf,
           advance (length (encodeCu64Standalone k @ encodePath suf))
             (new_reader (encodeCu64Standalone k @ encodePath suf @ rest)))"
  using assms by (intro decodeRelativePath_read) simp_all

theorem relative_path_roundtrip_witness:
  "decodeRelativePath
      (new_reader (encodeCu64Standalone 1 @ encodePath [[116, 111]] @ [7])) [[110], [104, 105]]
    = Inr (take 1 [[110], [104, 105]] @ [[116, 111]],
           advance (length (encodeCu64Standalone 1 @ encodePath [[116, 111]]))
             (new_reader (encodeCu64Standalone 1 @ encodePath [[116, 111]] @ [7])))"
proof (rule relative_path_roundtrip [where k = 1 and previous = "[[110], [104, 105]]"
      and suf = "[[116, 111]]" and rest = "[7]"])
  show "1 \<le> length [[110 :: 8 word], [104, 105]]" by simp
  show "1 + length [[116 :: 8 word, 111]] \<le> MCC" by (simp add: limits_def)
  show "total_length (take 1 [[110], [104, 105]]) + total_length [[116, 111]] \<le> MPL"
    by (simp add: limits_def)
qed

text \<open>
  Whatever the bytes, a path the decoder accepts is within the Willow25 limits on
  components and total length, and the reader has only moved forward over its own bytes,
  never past the end.
\<close>
lemma decoded_path_bounded:
  assumes "decodeRelativePath r previous = Inr (p, r')"
  shows "length p \<le> MCC \<and> total_length p \<le> MPL \<and> rbytes r' = rbytes r
    \<and> (\<exists>n \<le> length (ahead r). r' = advance n r)"
  using decodeRelativePath_ok [OF assms] decodeRelativePath_consumes [OF assms]
    consumes_rbytes [OF decodeRelativePath_consumes [OF assms]]
  unfolding path_ok_def consumes_def by blast

end
