(* ===== verification/Willow_William3.thy ===== *)
theory Willow_William3
  imports Willow_Encoding "HOL-Library.While_Combinator"
begin

text \<open>
  WILLIAM3, the payload digest of Willow'25
  (\<^verbatim>\<open>src/integrations/willow-drop/william3.ts\<close>): BLAKE3's compression function with
  other constants, over a tree of 1024-byte chunks.

  A \<open>Uint32Array\<close> element is a \<open>32 word\<close>, whose \<open>+\<close> is the source's
  \<open>(a + b) >>> 0\<close>. The arrays a function writes into (\<open>s\<close>, \<open>cv\<close>) are passed and
  returned. The lemmas show that a digest has 32 bytes and that \<open>label\<close> hashes the
  left-complete binary tree whose leaves are the chunks of the input.
\<close>

unbundle bit_operations_syntax

type_synonym u32 = "32 word"

section \<open>The compression function\<close>

definition CHUNK_SIZE :: nat where "CHUNK_SIZE = 1024"
definition BLOCK_LEN :: nat where "BLOCK_LEN = 64"

definition IV :: "u32 list" where
  "IV = [0xc88f633b, 0x4168fbf2, 0x6ba32583, 0xb0ff1847, 0xac57e47d, 0xa8931330,
         0x796a4645, 0x6b28a3ee]"

definition MSG_SCHEDULE :: "nat list list" where
  "MSG_SCHEDULE =
    [[0, 1, 2, 3, 4, 5, 6, 7, 8, 9, 10, 11, 12, 13, 14, 15],
     [2, 6, 3, 10, 7, 0, 4, 13, 1, 11, 12, 5, 9, 14, 15, 8],
     [3, 4, 10, 12, 13, 2, 7, 14, 6, 5, 9, 0, 11, 15, 8, 1],
     [10, 7, 12, 9, 14, 3, 13, 15, 4, 0, 11, 2, 5, 8, 1, 6],
     [12, 13, 9, 11, 15, 10, 14, 8, 7, 2, 5, 3, 0, 1, 6, 4],
     [9, 14, 11, 5, 8, 12, 15, 1, 13, 3, 0, 10, 2, 6, 4, 7],
     [11, 15, 5, 0, 1, 9, 8, 6, 14, 10, 2, 12, 3, 4, 7, 13]]"

definition CHUNK_START :: u32 where "CHUNK_START = 1"
definition CHUNK_END :: u32 where "CHUNK_END = 2"
definition PARENT :: u32 where "PARENT = 4"
definition ROOT :: u32 where "ROOT = 8"

definition rotr :: "u32 \<Rightarrow> nat \<Rightarrow> u32" where
  "rotr x n = drop_bit n x OR push_bit (32 - n) x"

definition g :: "u32 list \<Rightarrow> nat \<Rightarrow> nat \<Rightarrow> nat \<Rightarrow> nat \<Rightarrow> u32 \<Rightarrow> u32 \<Rightarrow> u32 list" where
  "g s a b c d x y =
     (let s = s[a := s ! a + s ! b + x];
          s = s[d := rotr (s ! d XOR s ! a) 16];
          s = s[c := s ! c + s ! d];
          s = s[b := rotr (s ! b XOR s ! c) 12];
          s = s[a := s ! a + s ! b + y];
          s = s[d := rotr (s ! d XOR s ! a) 8];
          s = s[c := s ! c + s ! d];
          s = s[b := rotr (s ! b XOR s ! c) 7]
      in s)"

definition message_words :: "bytes \<Rightarrow> u32 list" where
  "message_words block =
     map (\<lambda>i. ucast (block ! (i * 4)) OR (push_bit 8 (ucast (block ! (i * 4 + 1)))
       OR (push_bit 16 (ucast (block ! (i * 4 + 2))) OR push_bit 24 (ucast (block ! (i * 4 + 3))))))
       [0..<16]"

definition round :: "u32 list \<Rightarrow> u32 list \<Rightarrow> nat list \<Rightarrow> u32 list" where
  "round m s schedule =
     (let s = g s 0 4 8 12 (m ! (schedule ! 0)) (m ! (schedule ! 1));
          s = g s 1 5 9 13 (m ! (schedule ! 2)) (m ! (schedule ! 3));
          s = g s 2 6 10 14 (m ! (schedule ! 4)) (m ! (schedule ! 5));
          s = g s 3 7 11 15 (m ! (schedule ! 6)) (m ! (schedule ! 7));
          s = g s 0 5 10 15 (m ! (schedule ! 8)) (m ! (schedule ! 9));
          s = g s 1 6 11 12 (m ! (schedule ! 10)) (m ! (schedule ! 11));
          s = g s 2 7 8 13 (m ! (schedule ! 12)) (m ! (schedule ! 13));
          s = g s 3 4 9 14 (m ! (schedule ! 14)) (m ! (schedule ! 15))
      in s)"

definition compress :: "u32 list \<Rightarrow> bytes \<Rightarrow> nat \<Rightarrow> nat \<Rightarrow> u32 \<Rightarrow> u32 list" where
  "compress cv block blockLen counter flags =
     (let m = message_words block;
          s = cv @ [IV ! 0, IV ! 1, IV ! 2, IV ! 3,
                    word_of_nat (counter AND 0xffffffff),
                    word_of_nat (drop_bit 32 counter AND 0xffffffff),
                    word_of_nat blockLen, flags];
          s = foldl (round m) s MSG_SCHEDULE
      in map (\<lambda>i. s ! i XOR s ! (i + 8)) [0..<8])"

section \<open>Hashing a sequence of blocks\<close>

text \<open>
  The loop of \<open>hash1\<close>; the argument \<open>input\<close> is \<open>input.subarray(offset)\<close>. A block is
  padded with zeros to \<open>BLOCK_LEN\<close> bytes.
\<close>

function absorb :: "u32 list \<Rightarrow> u32 \<Rightarrow> nat \<Rightarrow> u32 \<Rightarrow> u32 \<Rightarrow> bytes \<Rightarrow> u32 list" where
  "absorb cv blockFlags counter flags flagsEnd input =
     (if input = [] then cv
      else
        let rest = length input;
            n = min rest BLOCK_LEN;
            block = take n input @ replicate (BLOCK_LEN - n) 0;
            blockFlags = (if rest \<le> BLOCK_LEN then blockFlags OR flagsEnd else blockFlags)
        in absorb (compress cv block n counter blockFlags) flags counter flags flagsEnd
             (drop BLOCK_LEN input))"
  by pat_completeness auto
termination
  by (relation "measure (\<lambda>(_, _, _, _, _, input). length input)") (auto simp: BLOCK_LEN_def)

declare absorb.simps [simp del]

definition out_bytes :: "u32 \<Rightarrow> bytes" where
  "out_bytes w = [ucast (w AND 0xff), ucast (drop_bit 8 w AND 0xff),
                  ucast (drop_bit 16 w AND 0xff), ucast (drop_bit 24 w AND 0xff)]"

definition hash1 :: "bytes \<Rightarrow> nat \<Rightarrow> u32 \<Rightarrow> u32 \<Rightarrow> u32 \<Rightarrow> bytes" where
  "hash1 input counter flags flagsStart flagsEnd =
     (let blockFlags = flags OR flagsStart;
          cv = (if input = []
                then compress IV (replicate BLOCK_LEN 0) 0 counter (blockFlags OR flagsEnd)
                else absorb IV blockFlags counter flags flagsEnd input)
      in concat (map (\<lambda>i. out_bytes (cv ! i)) [0..<8]))"

definition hashChunk :: "bytes \<Rightarrow> bool \<Rightarrow> bytes" where
  "hashChunk chunk isRoot =
     hash1 chunk 0 0 CHUNK_START (CHUNK_END OR (if isRoot then ROOT else 0))"

text \<open>\<open>dst.set(src, off)\<close>, for a source that fits (any other is a RangeError).\<close>

definition u8_set :: "bytes \<Rightarrow> bytes \<Rightarrow> nat \<Rightarrow> bytes" where
  "u8_set dst src off = take off dst @ src @ drop (off + length src) dst"

definition hashInner :: "bytes \<Rightarrow> bytes \<Rightarrow> nat \<Rightarrow> bool \<Rightarrow> bytes" where
  "hashInner left right len isRoot =
     (let block = replicate BLOCK_LEN 0;
          block = u8_set block left 0;
          block = u8_set block right 32
      in hash1 block len (PARENT OR (if isRoot then ROOT else 0)) 0 0)"

section \<open>The tree\<close>

text \<open>\<open>let left = 1; while (left * 2 < chunks) left *= 2\<close>\<close>

definition left_chunks :: "nat \<Rightarrow> nat" where
  "left_chunks chunks = while (\<lambda>left. left * 2 < chunks) (\<lambda>left. left * 2) 1"

lemma left_chunks_pow2:
  assumes "1 < chunks"
  shows "\<exists>k. left_chunks chunks = 2 ^ k \<and> 2 ^ k < chunks \<and> chunks \<le> 2 * 2 ^ k"
  unfolding left_chunks_def
proof (rule while_rule [where P = "\<lambda>l. \<exists>k. l = 2 ^ k \<and> 2 ^ k < chunks"
      and r = "measure (\<lambda>l. chunks - l)"])
  show "\<exists>k. (1 :: nat) = 2 ^ k \<and> 2 ^ k < chunks"
    using assms by (intro exI [of _ 0]) simp
  show "\<exists>k. s * 2 = 2 ^ k \<and> 2 ^ k < chunks"
    if "\<exists>k. s = 2 ^ k \<and> 2 ^ k < chunks" "s * 2 < chunks" for s
  proof -
    from that obtain k where "s = 2 ^ k" by blast
    with that show ?thesis by (intro exI [of _ "Suc k"]) simp
  qed
  show "\<exists>k. s = 2 ^ k \<and> 2 ^ k < chunks \<and> chunks \<le> 2 * 2 ^ k"
    if "\<exists>k. s = 2 ^ k \<and> 2 ^ k < chunks" "\<not> s * 2 < chunks" for s
    using that by auto
  show "(s * 2, s) \<in> measure (\<lambda>l. chunks - l)"
    if "\<exists>k. s = 2 ^ k \<and> 2 ^ k < chunks" "s * 2 < chunks" for s
  proof -
    from that obtain k where "s = 2 ^ k" by blast
    then have "0 < s" by simp
    with that(2) show ?thesis by simp
  qed
qed auto

lemma left_chunks_bounds:
  assumes "\<not> chunks \<le> 1"
  shows "0 < left_chunks chunks" "left_chunks chunks < chunks" "chunks \<le> 2 * left_chunks chunks"
proof -
  from left_chunks_pow2 [of chunks] assms obtain k
    where "left_chunks chunks = 2 ^ k" "2 ^ k < chunks" "chunks \<le> 2 * 2 ^ k" by auto
  then show "0 < left_chunks chunks" "left_chunks chunks < chunks"
    "chunks \<le> 2 * left_chunks chunks" by simp_all
qed

function label :: "bytes \<Rightarrow> nat \<Rightarrow> bool \<Rightarrow> bytes" where
  "label bs chunks isRoot =
     (if chunks \<le> 1 then hashChunk bs isRoot
      else
        let left = left_chunks chunks;
            split = left * CHUNK_SIZE
        in hashInner (label (take split bs) left False)
             (label (drop split bs) (chunks - left) False) (length bs) isRoot)"
  by pat_completeness auto
termination
  by (relation "measure (\<lambda>(_, chunks, _). chunks)") (simp_all add: left_chunks_bounds)

declare label.simps [simp del]

text \<open>\<open>Math.ceil(n / 1024)\<close> on naturals.\<close>

definition chunk_count :: "bytes \<Rightarrow> nat" where
  "chunk_count bs = max 1 ((length bs + (CHUNK_SIZE - 1)) div CHUNK_SIZE)"

definition william3 :: "bytes \<Rightarrow> bytes" where
  "william3 bs = label bs (chunk_count bs) True"

section \<open>Digests have 32 bytes\<close>

lemma length_compress [simp]: "length (compress cv block n counter flags) = 8"
  by (simp add: compress_def Let_def)

lemma length_out_bytes [simp]: "length (out_bytes w) = 4"
  by (simp add: out_bytes_def)

lemma length_hash1 [simp]: "length (hash1 input counter flags flagsStart flagsEnd) = 32"
  by (simp add: hash1_def Let_def length_concat comp_def sum_list_triv)

lemma length_hashChunk [simp]: "length (hashChunk chunk isRoot) = 32"
  by (simp add: hashChunk_def)

lemma length_hashInner [simp]: "length (hashInner l r n isRoot) = 32"
  by (simp add: hashInner_def Let_def)

lemma length_label [simp]: "length (label bs chunks isRoot) = 32"
  by (subst label.simps) (simp add: Let_def)

section \<open>The tree that is hashed\<close>

text \<open>
  The reference: a binary tree over chunks, hashed node by node. A tree is left-complete
  when every left subtree is a perfect tree and no smaller than its sibling, so that the
  number of leaves determines its shape.
\<close>

datatype bab_tree = Leaf bytes | Node bab_tree bab_tree

fun leaves :: "bab_tree \<Rightarrow> bytes list" where
  "leaves (Leaf c) = [c]"
| "leaves (Node l r) = leaves l @ leaves r"

fun perfect :: "nat \<Rightarrow> bab_tree \<Rightarrow> bool" where
  "perfect 0 t = (\<exists>c. t = Leaf c)"
| "perfect (Suc h) t = (\<exists>l r. t = Node l r \<and> perfect h l \<and> perfect h r)"

fun left_complete :: "bab_tree \<Rightarrow> bool" where
  "left_complete (Leaf c) = True"
| "left_complete (Node l r) =
     ((\<exists>h. perfect h l) \<and> left_complete r \<and> length (leaves r) \<le> length (leaves l))"

fun tree_digest :: "bab_tree \<Rightarrow> bool \<Rightarrow> bytes" where
  "tree_digest (Leaf c) isRoot = hashChunk c isRoot"
| "tree_digest (Node l r) isRoot =
     hashInner (tree_digest l False) (tree_digest r False)
       (length (concat (leaves l)) + length (concat (leaves r))) isRoot"

text \<open>
  \<open>chunking bs cs\<close>: the chunks are the input cut every \<open>CHUNK_SIZE\<close> bytes, the last
  chunk being what is left; the empty input is one empty chunk.
\<close>

definition chunking :: "bytes \<Rightarrow> bytes list \<Rightarrow> bool" where
  "chunking bs cs \<longleftrightarrow> concat cs = bs \<and> cs \<noteq> [] \<and> (\<forall>c \<in> set (butlast cs). length c = CHUNK_SIZE)
     \<and> length (last cs) \<le> CHUNK_SIZE \<and> (length cs > 1 \<longrightarrow> last cs \<noteq> [])"

lemma perfect_leaves: "perfect h t \<Longrightarrow> length (leaves t) = 2 ^ h"
  by (induction h arbitrary: t) auto

lemma leaves_nonempty: "leaves t \<noteq> []"
  by (induction t) simp_all

text \<open>
  \<open>fits bs n\<close>: \<open>bs\<close> is \<open>n\<close> chunks long, the last of them possibly short but, with more
  than one chunk, never empty.
\<close>

definition fits :: "bytes \<Rightarrow> nat \<Rightarrow> bool" where
  "fits bs n \<longleftrightarrow> 0 < n \<and> length bs \<le> n * CHUNK_SIZE \<and> (1 < n \<longrightarrow> (n - 1) * CHUNK_SIZE < length bs)"

lemma fits_chunk_count: "fits bs (chunk_count bs)"
proof -
  have c: "(m + 1023) div 1024 \<le> 1 \<longleftrightarrow> m \<le> 1024" for m :: nat by linarith
  have "m \<le> (m + 1023) div 1024 * 1024" for m :: nat by linarith
  moreover have "1 < (m + 1023) div 1024 \<Longrightarrow> ((m + 1023) div 1024 - 1) * 1024 < m" for m :: nat
    by linarith
  ultimately show ?thesis
    using c [of "length bs"] by (auto simp: fits_def chunk_count_def CHUNK_SIZE_def max_def)
qed

lemma fits_split:
  assumes "fits bs n" "0 < l" "l < n"
  shows "length (take (l * CHUNK_SIZE) bs) = l * CHUNK_SIZE" "fits (take (l * CHUNK_SIZE) bs) l"
    "fits (drop (l * CHUNK_SIZE) bs) (n - l)"
proof -
  have "l * CHUNK_SIZE \<le> (n - 1) * CHUNK_SIZE" using assms(3) by (intro mult_right_mono) auto
  moreover have "(n - 1) * CHUNK_SIZE < length bs" using assms by (auto simp: fits_def)
  ultimately have len: "l * CHUNK_SIZE < length bs" by (rule le_less_trans)
  then show 1: "length (take (l * CHUNK_SIZE) bs) = l * CHUNK_SIZE" by simp
  have "1 < l \<Longrightarrow> (l - 1) * CHUNK_SIZE < l * CHUNK_SIZE" by (simp add: CHUNK_SIZE_def)
  with 1 assms(2) show "fits (take (l * CHUNK_SIZE) bs) l" unfolding fits_def by simp
  show "fits (drop (l * CHUNK_SIZE) bs) (n - l)"
    using assms len by (auto simp: fits_def diff_mult_distrib)
qed

lemma label_leaf: "chunks \<le> 1 \<Longrightarrow> label bs chunks isRoot = hashChunk bs isRoot"
  by (subst label.simps) simp

lemma label_node:
  "\<not> chunks \<le> 1 \<Longrightarrow> label bs chunks isRoot =
     hashInner (label (take (left_chunks chunks * CHUNK_SIZE) bs) (left_chunks chunks) False)
       (label (drop (left_chunks chunks * CHUNK_SIZE) bs) (chunks - left_chunks chunks) False)
       (length bs) isRoot"
  by (subst label.simps) (simp add: Let_def)

lemma left_chunks_double: "left_chunks (2 ^ Suc h) = 2 ^ h"
proof -
  have "1 < (2 :: nat) ^ Suc h" by (rule one_less_power) simp_all
  from left_chunks_pow2 [OF this] obtain k where k: "left_chunks (2 ^ Suc h) = 2 ^ k"
    and lt: "(2 :: nat) ^ k < 2 ^ Suc h" and le: "(2 :: nat) ^ Suc h \<le> 2 * 2 ^ k" by blast
  from lt have "k < Suc h" by (rule power_less_imp_less_exp [rotated]) simp
  moreover from le have "(2 :: nat) ^ Suc h \<le> 2 ^ Suc k" by simp
  then have "Suc h \<le> Suc k" by (rule power_le_imp_le_exp [rotated]) simp
  ultimately have "k = h" by simp
  with k show ?thesis by simp
qed

text \<open>A full power of two of chunks is hashed as a perfect tree.\<close>

lemma label_perfect:
  assumes "length bs = 2 ^ h * CHUNK_SIZE"
  shows "\<exists>t. perfect h t \<and> concat (leaves t) = bs \<and> (\<forall>c \<in> set (leaves t). length c = CHUNK_SIZE)
    \<and> label bs (2 ^ h) isRoot = tree_digest t isRoot"
  using assms
proof (induction h arbitrary: bs isRoot)
  case 0
  then show ?case by (intro exI [of _ "Leaf bs"]) (simp add: label_leaf)
next
  case (Suc h)
  let ?k = "2 ^ h * CHUNK_SIZE"
  have "length (take ?k bs) = ?k" "length (drop ?k bs) = ?k" using Suc.prems by simp_all
  from Suc.IH [OF this(1), of False] Suc.IH [OF this(2), of False] obtain l r
    where lr: "perfect h l" "concat (leaves l) = take ?k bs"
      "\<forall>c \<in> set (leaves l). length c = CHUNK_SIZE"
      "label (take ?k bs) (2 ^ h) False = tree_digest l False"
      "perfect h r" "concat (leaves r) = drop ?k bs" "\<forall>c \<in> set (leaves r). length c = CHUNK_SIZE"
      "label (drop ?k bs) (2 ^ h) False = tree_digest r False" by auto
  have "\<not> (2 :: nat) ^ Suc h \<le> 1" using one_less_power [of "2 :: nat" "Suc h"] by simp
  from label_node [OF this, of bs isRoot]
  have "label bs (2 ^ Suc h) isRoot
      = hashInner (tree_digest l False) (tree_digest r False) (length bs) isRoot"
    unfolding left_chunks_double using lr(4,8) by simp
  moreover have "length bs = length (concat (leaves l)) + length (concat (leaves r))"
    by (simp add: lr(2,6))
  moreover have "concat (leaves (Node l r)) = bs" using lr(2,6) by simp
  moreover have "\<forall>c \<in> set (leaves (Node l r)). length c = CHUNK_SIZE"
    using lr(3,7) by (simp add: ball_Un)
  moreover have "perfect (Suc h) (Node l r)" using lr(1,5) by simp
  ultimately show ?case by (intro exI [of _ "Node l r"] conjI) (simp_all only: tree_digest.simps)
qed

lemma chunking_append:
  assumes "concat cs = bs" "\<forall>c \<in> set cs. length c = CHUNK_SIZE" "cs \<noteq> []"
    and "chunking bs' cs'" "bs' \<noteq> []"
  shows "chunking (bs @ bs') (cs @ cs')"
proof -
  have "last cs' \<noteq> []"
    using assms(4,5) by (cases cs') (auto simp: chunking_def)
  then show ?thesis
    using assms by (auto simp: chunking_def butlast_append)
qed

lemma label_tree:
  "fits bs n \<Longrightarrow> \<exists>t. left_complete t \<and> chunking bs (leaves t) \<and> length (leaves t) = n
    \<and> label bs n isRoot = tree_digest t isRoot"
proof (induction n arbitrary: bs isRoot rule: less_induct)
  case (less n)
  show ?case
  proof (cases "n \<le> 1")
    case True
    with less.prems have n: "n = 1" by (auto simp: fits_def)
    with less.prems have "length bs \<le> CHUNK_SIZE" by (simp add: fits_def)
    with n show ?thesis by (intro exI [of _ "Leaf bs"]) (simp add: label_leaf chunking_def)
  next
    case False
    let ?l = "left_chunks n"
    let ?k = "?l * CHUNK_SIZE"
    note b = left_chunks_bounds [OF False]
    note split = fits_split [OF less.prems b(1,2)]
    from False left_chunks_pow2 [of n] obtain h where h: "?l = 2 ^ h" by auto
    from label_perfect [of "take ?k bs" h False] split(1) h obtain l where l: "perfect h l"
      "concat (leaves l) = take ?k bs" "\<forall>c \<in> set (leaves l). length c = CHUNK_SIZE"
      "label (take ?k bs) ?l False = tree_digest l False" by auto
    from b have "n - ?l < n" by simp
    from less.IH [OF this split(3), of False] obtain r where r: "left_complete r"
      "chunking (drop ?k bs) (leaves r)" "length (leaves r) = n - ?l"
      "label (drop ?k bs) (n - ?l) False = tree_digest r False" by blast
    have len: "length (leaves l) = ?l" using perfect_leaves [OF l(1)] h by simp
    have bs: "concat (leaves l) @ concat (leaves r) = bs"
      using l(2) r(2) by (simp add: chunking_def)
    have "?k \<le> (n - 1) * CHUNK_SIZE" using b(2) by (intro mult_right_mono) auto
    moreover have "(n - 1) * CHUNK_SIZE < length bs" using less.prems False by (auto simp: fits_def)
    ultimately have "?k < length bs" by (rule le_less_trans)
    then have "drop ?k bs \<noteq> []" by simp
    from chunking_append [OF l(2,3) leaves_nonempty r(2) this]
    have "chunking bs (leaves (Node l r))" by simp
    moreover have "left_complete (Node l r)" using l(1) r(1,3) len b(3) by auto
    moreover have "label bs n isRoot = tree_digest (Node l r) isRoot"
      using label_node [OF False, of bs isRoot] l(4) r(4) bs
      by (metis length_append tree_digest.simps(2))
    ultimately show ?thesis using len r(3) b(2) by (intro exI [of _ "Node l r"]) simp
  qed
qed

section \<open>Properties\<close>

text \<open>
  C8. The WILLIAM3 digest is the root label of a left-complete tree whose leaves, in order,
  are the input cut into 1024-byte chunks (the last one shorter, and empty only for the
  empty input); it has 32 bytes. In particular the recursion on \<open>chunks\<close> and the doubling
  loop terminate, and no chunk is skipped or hashed twice.
\<close>
theorem william3_tree:
  "\<exists>t. left_complete t \<and> chunking bs (leaves t) \<and> william3 bs = tree_digest t True
    \<and> length (william3 bs) = 32"
  using label_tree [OF fits_chunk_count, of bs True] by (auto simp: william3_def)

end
