(* ===== verification/Willow_Drop.thy ===== *)
theory Willow_Drop
  imports Willow_William3
begin

text \<open>
  The drop decoder and verifier (\<^verbatim>\<open>src/integrations/willow-drop/drop.ts\<close>).

  Ed25519 verification comes from a package that is not part of the repository. It is the
  parameter \<open>verify key message signature\<close> of every definition that reaches it; an
  exception it throws counts as \<open>False\<close>, as in the source's \<open>signed\<close>. Nothing is
  assumed of it: the theorems say which verifications a decoded drop has passed.
\<close>

unbundle bit_operations_syntax

type_synonym verifier = "bytes \<Rightarrow> bytes \<Rightarrow> bytes \<Rightarrow> bool"

section \<open>Entries\<close>

definition MAX_ENTRIES :: nat where "MAX_ENTRIES = 1000"

datatype capability =
    Communal
  | Owned (userKey: bytes) (initialAuthorisation: bytes)

record entry_fields =
  namespace :: bytes
  subspace :: bytes
  ent_path :: path
  timestamp :: nat
  payloadLength :: nat
  payloadDigest :: bytes

record drop_entry = entry_fields +
  cap :: capability
  communal :: bool
  payload :: "bytes option"

definition DEFAULT_ID :: bytes where
  "DEFAULT_ID =
    [0x93, 0x4e, 0x60, 0x21, 0x33, 0x9e, 0x1f, 0x01, 0x3b, 0xa9, 0x49, 0x00, 0xed, 0xc2,
     0x5d, 0x8d, 0x74, 0xc0, 0xb4, 0xe5, 0x73, 0x76, 0x89, 0x10, 0xae, 0x0f, 0x50, 0x7d,
     0x8c, 0x81, 0x73, 0x18]"

definition DEFAULT_ENTRY :: drop_entry where
  "DEFAULT_ENTRY =
     \<lparr>namespace = DEFAULT_ID, subspace = DEFAULT_ID, ent_path = [], timestamp = 0,
      payloadLength = 0, payloadDigest = william3 [], cap = Communal, communal = True,
      payload = None\<rparr>"

text \<open>\<open>namespace[31] % 2 === 0\<close>; a namespace always has 32 bytes.\<close>

definition isCommunal :: "bytes \<Rightarrow> bool" where
  "isCommunal ns = (unat (ns ! 31) mod 2 = 0)"

definition encodeEntry :: "('a entry_fields_scheme) \<Rightarrow> bytes" where
  "encodeEntry e =
     namespace e @ subspace e @ encodePath (ent_path e) @ encodeCu64Standalone (timestamp e)
       @ encodeCu64Standalone (payloadLength e) @ payloadDigest e"

section \<open>Decoding\<close>

definition decodeToken :: "reader \<Rightarrow> capability \<Rightarrow> (capability \<times> bytes) reads" where
  "decodeToken r previous =
     thenR (byte r) (\<lambda>header r.
     thenR (cu64 header 3 1 r) (\<lambda>shared r.
     thenR (cu64 header 4 4 r) (\<lambda>delegations r.
       if delegations > 0
       then fail ''its write capability carries delegations, which this importer does not decode yet''
       else if shared > 1
       then fail ''its capability reuses delegations that do not exist''
       else
         thenR
           (if header AND 0x80 \<noteq> 0 then
              (if shared = 0 then
                 thenR (take_bytes 32 r) (\<lambda>key r.
                 thenR (take_bytes 64 r) (\<lambda>auth r. Inr (Owned key auth, r)))
               else
                 (case previous of
                    Owned _ _ \<Rightarrow> Inr (previous, r)
                  | Communal \<Rightarrow>
                      fail ''its owned capability claims to repeat a communal one''))
            else Inr (Communal, r))
           (\<lambda>capability r.
              thenR (take_bytes 64 r) (\<lambda>signature r. Inr ((capability, signature), r))))))"

text \<open>
  The authorisation check: the receiver that must have signed the entry, or the reason
  there is none.
\<close>

definition receiver_of :: "verifier \<Rightarrow> bytes \<Rightarrow> bytes \<Rightarrow> capability \<Rightarrow> drop_error + bytes" where
  "receiver_of verify ns sub capability =
     (case capability of
        Communal \<Rightarrow>
          if \<not> isCommunal ns then fail ''it uses a communal capability in an owned namespace''
          else Inr sub
      | Owned key auth \<Rightarrow>
          if isCommunal ns then fail ''it uses an owned capability in a communal namespace''
          else if \<not> verify ns (3 # key) auth
          then fail ''its owned capability is not signed by the namespace's key''
          else Inr key)"

definition decode_payload :: "8 word \<Rightarrow> nat \<Rightarrow> bytes \<Rightarrow> reader \<Rightarrow> (bytes option) reads" where
  "decode_payload header len digest r =
     (let mode = header AND 0x03 in
      if mode = 0x01 then
        (if len > remaining r then fail ''the drop ends in the middle of a payload''
         else thenR (take_bytes len r) (\<lambda>p r.
           if william3 p \<noteq> digest then fail ''its payload does not match its digest''
           else Inr (Some p, r)))
      else if mode = 0x03 then
        (if remaining r > 0
         then bindE (peek r) (\<lambda>b.
           if b AND 0x80 \<noteq> 0
           then fail ''it carries partial payload slices, which this importer does not verify yet''
           else Inr (None, r))
         else Inr (None, r))
      else if mode = 0x02
      then fail (''it carries a partial payload prefix ('' @ nat_str CHUNK_SIZE
             @ ''-byte chunks), which this importer does not verify yet'')
      else Inr (None, r))"

text \<open>\<open>header & bit ? reader.take(32) : previous\<close>\<close>

definition take_unless_same :: "bool \<Rightarrow> bytes \<Rightarrow> reader \<Rightarrow> bytes reads" where
  "take_unless_same given previous r = (if given then take_bytes 32 r else Inr (previous, r))"

lemma take_unless_same_length:
  "take_unless_same given previous r = Inr (bs, r') \<Longrightarrow> length previous = 32 \<Longrightarrow> length bs = 32"
  by (auto simp: take_unless_same_def dest: take_bytes_length split: if_splits)

definition decodeEntry :: "verifier \<Rightarrow> reader \<Rightarrow> 8 word \<Rightarrow> drop_entry \<Rightarrow> drop_entry reads" where
  "decodeEntry verify r header previous =
     (if header AND 0xc0 \<noteq> 0x40
      then fail ''it does not start with an entry header; continuation slices are not supported''
      else
        thenR (take_unless_same (header AND 0x20 \<noteq> 0) (namespace previous) r) (\<lambda>ns r.
        thenR (take_unless_same (header AND 0x10 \<noteq> 0) (subspace previous) r) (\<lambda>sub r.
        thenR (decodeRelativePath r (ent_path previous)) (\<lambda>p r.
        thenR (cu64 header 2 4 r) (\<lambda>ts r.
        thenR (cu64Standalone r) (\<lambda>len r.
        thenR (take_bytes 32 r) (\<lambda>digest r.
        thenR (decodeToken r (cap previous)) (\<lambda>(capability, signature) r.
        let fields = \<lparr>namespace = ns, subspace = sub, ent_path = p, timestamp = ts,
                      payloadLength = len, payloadDigest = digest\<rparr> in
        bindE (receiver_of verify ns sub capability) (\<lambda>receiver.
          if \<not> verify receiver (encodeEntry fields) signature
          then fail ''its authorisation signature does not verify''
          else
            thenR (decode_payload header len digest r) (\<lambda>pl r.
              Inr (entry_fields.extend fields
                     \<lparr>cap = capability, communal = isCommunal ns, payload = pl\<rparr>, r)))))))))))"

text \<open>The \<open>catch\<close> of the loop: an error without an entry index gets one.\<close>

definition name_entry :: "nat \<Rightarrow> drop_error \<Rightarrow> drop_error" where
  "name_entry index e =
     (if err_entry e = None then new_DropError (err_message e) (Some index) else e)"

definition map_error :: "('e \<Rightarrow> 'f) \<Rightarrow> 'e + 'a \<Rightarrow> 'f + 'a" where
  "map_error f m = (case m of Inl e \<Rightarrow> Inl (f e) | Inr x \<Rightarrow> Inr x)"

text \<open>
  The loop of \<open>decodeDrop\<close>. It ends after at most \<open>MAX_ENTRIES + 1\<close> headers, since an
  entry beyond \<open>MAX_ENTRIES\<close> is an error.
\<close>

function decode_entries ::
  "verifier \<Rightarrow> drop_entry list \<Rightarrow> drop_entry \<Rightarrow> reader \<Rightarrow> (drop_entry list) reads" where
  "decode_entries verify entries previous r =
     thenR (byte r) (\<lambda>header r.
       if header = 0 then Inr (entries, r)
       else
         thenR
           (map_error (name_entry (length entries))
             (if length entries \<ge> MAX_ENTRIES
              then fail (''a drop may hold at most '' @ nat_str MAX_ENTRIES @ '' entries'')
              else decodeEntry verify r header previous))
           (\<lambda>previous r. decode_entries verify (entries @ [previous]) previous r))"
  by pat_completeness auto
termination
proof (relation "measure (\<lambda>(_, entries, _, _). MAX_ENTRIES + 1 - length entries)")
qed (auto simp: map_error_def fail_def split: if_splits)

definition decodeDrop :: "verifier \<Rightarrow> bytes \<Rightarrow> drop_error + drop_entry list" where
  "decodeDrop verify bs =
     bindE (decode_entries verify [] DEFAULT_ENTRY (new_reader bs)) (\<lambda>(entries, r).
       if remaining r > 0 then fail ''there are bytes after the end of the drop''
       else Inr entries)"

declare decode_entries.simps [simp del]

section \<open>What a decoded entry satisfies\<close>

definition cap_ok :: "capability \<Rightarrow> bool" where
  "cap_ok c = (case c of Communal \<Rightarrow> True | Owned key auth \<Rightarrow> length key = 32 \<and> length auth = 64)"

definition entry_wf :: "drop_entry \<Rightarrow> bool" where
  "entry_wf e \<longleftrightarrow> length (namespace e) = 32 \<and> length (subspace e) = 32 \<and> path_ok (ent_path e)
     \<and> timestamp e < 2 ^ 64 \<and> payloadLength e < 2 ^ 64 \<and> length (payloadDigest e) = 32
     \<and> cap_ok (cap e) \<and> communal e = isCommunal (namespace e)
     \<and> (\<forall>p. payload e = Some p \<longrightarrow> length p = payloadLength e \<and> william3 p = payloadDigest e)"

text \<open>
  Meadowcap's rule: a communal entry is signed by its subspace; an owned one by the holder
  of a capability that the namespace's key has signed.
\<close>

definition authorised :: "verifier \<Rightarrow> drop_entry \<Rightarrow> bytes \<Rightarrow> bool" where
  "authorised verify e signature =
     (case cap e of
        Communal \<Rightarrow> communal e \<and> verify (subspace e) (encodeEntry e) signature
      | Owned key auth \<Rightarrow> \<not> communal e \<and> verify (namespace e) (3 # key) auth
          \<and> verify key (encodeEntry e) signature)"

lemma encodeEntry_extend [simp]:
  "encodeEntry (entry_fields.extend f x) = encodeEntry f"
  by (simp add: encodeEntry_def entry_fields.defs)

lemma cu64_bound: "cu64 tb w off r = Inr (v, r') \<Longrightarrow> w \<le> 8 \<Longrightarrow> v < 2 ^ 64"
proof -
  assume c: "cu64 tb w off r = Inr (v, r')" and w: "w \<le> 8"
  define tag where "tag = drop_bit (8 - off - w) (unat tb) mod 2 ^ w"
  have "(2 :: nat) ^ w \<le> 2 ^ 8" using w by (intro power_increasing) auto
  moreover have "tag < 2 ^ w" by (simp add: tag_def)
  ultimately have tag: "tag < 2 ^ 64" by simp
  show ?thesis
  proof (cases "cu64_sizes (2 ^ w - 1 - tag)")
    case None
    with c tag show ?thesis by (simp add: cu64_unfold tag_def Let_def)
  next
    case (Some n)
    then have n: "n \<le> 8" by (auto simp: cu64_sizes_def less_Suc_eq numeral_eq_Suc split: if_splits)
    from c Some obtain bs where "take_bytes n r = Inr (bs, r')" "v = be_value bs"
      by (auto simp: cu64_unfold tag_def Let_def thenR_eq_Inr)
    then have "v < 256 ^ n" using be_value_less [of bs] take_bytes_length by simp
    moreover have "(256 :: nat) ^ n \<le> 256 ^ 8" using n by (intro power_increasing) auto
    ultimately show ?thesis by simp
  qed
qed

lemma cu64Standalone_bound: "cu64Standalone r = Inr (v, r') \<Longrightarrow> v < 2 ^ 64"
  by (auto simp: cu64Standalone_def thenR_eq_Inr dest: cu64_bound)

lemma decodeToken_ok:
  "decodeToken r previous = Inr ((c, s), r') \<Longrightarrow> cap_ok previous \<Longrightarrow> cap_ok c \<and> length s = 64"
  by (auto simp: decodeToken_def thenR_eq_Inr cap_ok_def dest!: take_bytes_length
      split: if_splits capability.splits)

lemma decode_payload_ok:
  "decode_payload h len digest r = Inr (pl, r')
    \<Longrightarrow> \<forall>p. pl = Some p \<longrightarrow> length p = len \<and> william3 p = digest"
  by (auto simp: decode_payload_def Let_def thenR_eq_Inr bindE_eq_Inr dest!: take_bytes_length
      split: if_splits)

lemma receiver_of_ok:
  "receiver_of verify ns sub c = Inr k \<longleftrightarrow>
     (case c of Communal \<Rightarrow> isCommunal ns \<and> k = sub
      | Owned key auth \<Rightarrow> \<not> isCommunal ns \<and> verify ns (3 # key) auth \<and> k = key)"
  by (auto simp: receiver_of_def split: capability.splits)

text \<open>Everything a successful \<open>decodeEntry\<close> has checked.\<close>

lemma decodeEntry_ok:
  assumes d: "decodeEntry verify r header previous = Inr (e, r')" and prev: "entry_wf previous"
  shows "entry_wf e \<and> (\<exists>signature. length signature = 64 \<and> authorised verify e signature)"
proof -
  from d obtain ns r1 sub r2 p r3 ts r4 len r5 digest r6 c s r7 k pl where
    ns: "(take_unless_same (header AND 0x20 \<noteq> 0) (namespace previous) r) = Inr (ns, r1)"
    and sub: "take_unless_same (header AND 0x10 \<noteq> 0) (subspace previous) r1 = Inr (sub, r2)"
    and p: "decodeRelativePath r2 (ent_path previous) = Inr (p, r3)"
    and ts: "cu64 header 2 4 r3 = Inr (ts, r4)"
    and len: "cu64Standalone r4 = Inr (len, r5)"
    and digest: "take_bytes 32 r5 = Inr (digest, r6)"
    and tok: "decodeToken r6 (cap previous) = Inr ((c, s), r7)"
    and k: "receiver_of verify ns sub c = Inr k"
    and pl: "decode_payload header len digest r7 = Inr (pl, r')"
    and sig: "verify k (encodeEntry \<lparr>namespace = ns, subspace = sub, ent_path = p, timestamp = ts,
        payloadLength = len, payloadDigest = digest\<rparr>) s"
    and e: "e = entry_fields.extend \<lparr>namespace = ns, subspace = sub, ent_path = p, timestamp = ts,
        payloadLength = len, payloadDigest = digest\<rparr> \<lparr>cap = c, communal = isCommunal ns, payload = pl\<rparr>"
    unfolding decodeEntry_def Let_def
    by (auto simp: thenR_eq_Inr bindE_eq_Inr split: if_split_asm)
  have "length ns = 32" using take_unless_same_length [OF ns] prev by (simp add: entry_wf_def)
  moreover have "length sub = 32" using take_unless_same_length [OF sub] prev by (simp add: entry_wf_def)
  moreover have "cap_ok c \<and> length s = 64"
    using decodeToken_ok [OF tok] prev by (simp add: entry_wf_def)
  ultimately have "entry_wf e"
    using decodeRelativePath_ok [OF p] cu64_bound [OF ts] cu64Standalone_bound [OF len]
      take_bytes_length [OF digest] decode_payload_ok [OF pl]
    by (simp add: e entry_wf_def entry_fields.defs)
  moreover have "authorised verify e s"
  proof -
    have "encodeEntry e = encodeEntry \<lparr>namespace = ns, subspace = sub, ent_path = p, timestamp = ts,
        payloadLength = len, payloadDigest = digest\<rparr>" unfolding e by (rule encodeEntry_extend)
    with sig have "verify k (encodeEntry e) s" by simp
    then show ?thesis using k
      by (cases c) (auto simp: authorised_def receiver_of_ok e entry_fields.defs)
  qed
  ultimately show ?thesis using \<open>cap_ok c \<and> length s = 64\<close> by blast
qed

lemma DEFAULT_ENTRY_wf: "entry_wf DEFAULT_ENTRY"
  by (simp add: entry_wf_def DEFAULT_ENTRY_def DEFAULT_ID_def isCommunal_def path_ok_def cap_ok_def
      limits_def william3_def)

section \<open>What a decoded drop satisfies\<close>

definition entry_verified :: "verifier \<Rightarrow> drop_entry \<Rightarrow> bool" where
  "entry_verified verify e \<longleftrightarrow> entry_wf e
     \<and> (\<exists>signature. length signature = 64 \<and> authorised verify e signature)"

lemma map_error_eq_Inr [simp]: "map_error f m = Inr x \<longleftrightarrow> m = Inr x"
  by (cases m) (simp_all add: map_error_def)

lemma decode_entries_sound:
  assumes "decode_entries verify es previous r = Inr (es', r')" "entry_wf previous"
    and "length es \<le> MAX_ENTRIES" "\<forall>e \<in> set es. entry_verified verify e"
  shows "length es' \<le> MAX_ENTRIES \<and> (\<forall>e \<in> set es'. entry_verified verify e)"
  using assms
proof (induction verify es previous r rule: decode_entries.induct)
  case (1 verify es previous r)
  from "1.prems"(1) obtain header r1 where byte: "byte r = Inr (header, r1)"
    by (subst (asm) decode_entries.simps) (auto simp: thenR_eq_Inr)
  show ?case
  proof (cases "header = 0")
    case True
    with "1.prems" byte show ?thesis by (subst (asm) decode_entries.simps) simp
  next
    case False
    with "1.prems"(1) byte obtain e r2 where n: "length es < MAX_ENTRIES"
      and e: "decodeEntry verify r1 header previous = Inr (e, r2)"
      and rec: "decode_entries verify (es @ [e]) e r2 = Inr (es', r')"
      by (subst (asm) decode_entries.simps) (auto simp: thenR_eq_Inr split: if_splits)
    have ok: "entry_verified verify e"
      using decodeEntry_ok [OF e "1.prems"(2)] by (simp add: entry_verified_def)
    show ?thesis
      by (rule "1.IH" [OF byte False _ rec])
        (use n e ok "1.prems" in \<open>auto simp: entry_verified_def\<close>)
  qed
qed

text \<open>The errors of the readers name no entry: the loop is what names it.\<close>

lemma fail_message: "fail msg = Inl e \<longleftrightarrow> e = DropError msg None"
  by (auto simp: fail_def new_DropError_def)

lemma fail_eq: "fail what = Inl (DropError what None)"
  by (simp add: fail_message)

definition unnamed :: "drop_error + 'a \<Rightarrow> bool" where
  "unnamed m \<longleftrightarrow> (\<forall>e. m = Inl e \<longrightarrow> err_entry e = None)"

named_theorems unnamed_intros

lemma unnamed_fail [unnamed_intros, simp]: "unnamed (fail msg)"
  by (simp add: unnamed_def fail_message)

lemma unnamed_Inr [unnamed_intros, simp]: "unnamed (Inr x)"
  by (simp add: unnamed_def)

lemma unnamed_bindE [unnamed_intros]:
  "unnamed m \<Longrightarrow> (\<And>x. unnamed (f x)) \<Longrightarrow> unnamed (bindE m f)"
  by (cases m) (simp_all add: unnamed_def)

lemma unnamed_thenR [unnamed_intros]:
  "unnamed m \<Longrightarrow> (\<And>x r. unnamed (f x r)) \<Longrightarrow> unnamed (thenR m f)"
  by (auto simp: thenR_def intro!: unnamed_bindE)

lemma unnamed_if [unnamed_intros]: "unnamed a \<Longrightarrow> unnamed b \<Longrightarrow> unnamed (if c then a else b)"
  by simp

lemma unnamed_peek [unnamed_intros]: "unnamed (peek r)"
  by (simp add: peek_def)

lemma unnamed_byte [unnamed_intros]: "unnamed (byte r)"
  by (simp add: byte_def unnamed_intros)

lemma unnamed_take_bytes [unnamed_intros]: "unnamed (take_bytes n r)"
  by (simp add: take_bytes_def)

lemma unnamed_cu64 [unnamed_intros]: "unnamed (cu64 tb w off r)"
  by (auto simp: cu64_def Let_def intro!: unnamed_intros split: option.split)

lemma unnamed_cu64Standalone [unnamed_intros]: "unnamed (cu64Standalone r)"
  unfolding cu64Standalone_def by (intro unnamed_intros)

lemma unnamed_small [unnamed_intros]: "unnamed (small v limit what)"
  by (simp add: small_def)

lemma unnamed_decode_lengths [unnamed_intros]: "unnamed (decode_lengths n acc p r)"
  by (induction n arbitrary: acc p r) (auto intro!: unnamed_intros)

lemma unnamed_decodeComponents [unnamed_intros]: "unnamed (decodeComponents r prefix count n)"
  by (auto simp: decodeComponents_def Let_def intro!: unnamed_intros)

lemma unnamed_decodeRelativePath [unnamed_intros]: "unnamed (decodeRelativePath r previous)"
  by (auto simp: decodeRelativePath_def Let_def intro!: unnamed_intros)

lemma unnamed_decodeToken [unnamed_intros]: "unnamed (decodeToken r previous)"
  unfolding decodeToken_def by (intro unnamed_intros) (auto intro!: unnamed_intros split: capability.split)

lemma unnamed_receiver_of [unnamed_intros]: "unnamed (receiver_of verify ns sub c)"
  by (simp add: receiver_of_def split: capability.split)

lemma unnamed_decode_payload [unnamed_intros]: "unnamed (decode_payload h len digest r)"
  by (auto simp: decode_payload_def Let_def intro!: unnamed_intros)

lemma unnamed_take_unless_same [unnamed_intros]: "unnamed (take_unless_same given previous r)"
  by (simp add: take_unless_same_def unnamed_intros)

lemma unnamed_decodeEntry [unnamed_intros]: "unnamed (decodeEntry verify r header previous)"
  unfolding decodeEntry_def Let_def by (intro unnamed_intros) (auto intro!: unnamed_intros)

text \<open>
  How far decoding has come: the entries \<open>es\<close> are read from the bytes, each against the one
  before it, and the reader stands behind the last of them.
\<close>

inductive decoded_so_far :: "verifier \<Rightarrow> bytes \<Rightarrow> drop_entry list \<Rightarrow> reader \<Rightarrow> bool" for verify bs where
  at_start: "decoded_so_far verify bs [] (new_reader bs)"
| one_more: "decoded_so_far verify bs es r \<Longrightarrow> length es < MAX_ENTRIES \<Longrightarrow> byte r = Inr (header, r1) \<Longrightarrow>
    header \<noteq> 0 \<Longrightarrow> decodeEntry verify r1 header (last (DEFAULT_ENTRY # es)) = Inr (e, r2) \<Longrightarrow>
    decoded_so_far verify bs (es @ [e]) r2"

text \<open>What stops the decoder behind the entries \<open>es\<close>, and the error it throws there.\<close>

definition stops_with :: "verifier \<Rightarrow> drop_entry list \<Rightarrow> reader \<Rightarrow> drop_error \<Rightarrow> bool" where
  "stops_with verify es r e \<longleftrightarrow>
     (case ahead r of
        [] \<Rightarrow> e = DropError ''the drop ends in the middle of an entry'' None
      | header # rest \<Rightarrow>
          if header = 0 then rest \<noteq> [] \<and> e = DropError ''there are bytes after the end of the drop'' None
          else \<exists>what.
            e = DropError (''Entry '' @ nat_str (length es + 1) @ '': '' @ what) (Some (length es)) \<and>
            (if length es = MAX_ENTRIES then what = ''a drop may hold at most 1000 entries''
             else decodeEntry verify (advance 1 r) header (last (DEFAULT_ENTRY # es)) = fail what))"

lemma decoded_length: "decoded_so_far verify bs es r \<Longrightarrow> length es \<le> MAX_ENTRIES"
  by (induction rule: decoded_so_far.induct) auto

lemma name_entry_new: "name_entry i (DropError what None)
    = DropError (''Entry '' @ nat_str (i + 1) @ '': '' @ what) (Some i)"
  by (simp add: name_entry_def new_DropError_def)

lemma at_most_message: "''a drop may hold at most '' @ nat_str MAX_ENTRIES @ '' entries''
    = ''a drop may hold at most 1000 entries''"
  by (simp add: MAX_ENTRIES_def) code_simp

text \<open>One turn of the loop: an end, an error, or one entry more.\<close>

lemma decode_entries_turn:
  assumes "length es \<le> MAX_ENTRIES"
  shows "decode_entries verify es p r =
     (case ahead r of
        [] \<Rightarrow> fail ''the drop ends in the middle of an entry''
      | header # _ \<Rightarrow>
          if header = 0 then Inr (es, advance 1 r)
          else if length es = MAX_ENTRIES
          then Inl (name_entry (length es) (DropError ''a drop may hold at most 1000 entries'' None))
          else case decodeEntry verify (advance 1 r) header p of
                 Inl e \<Rightarrow> Inl (name_entry (length es) e)
               | Inr (x, r2) \<Rightarrow> decode_entries verify (es @ [x]) x r2)"
proof (cases "ahead r")
  case (Cons header rest)
  show ?thesis
  proof (cases "length es = MAX_ENTRIES")
    case True
    with Cons show ?thesis
      by (subst decode_entries.simps)
        (simp add: map_error_def fail_eq at_most_message [symmetric] name_entry_def)
  next
    case False
    with Cons assms show ?thesis
      by (subst decode_entries.simps)
        (cases "decodeEntry verify (advance 1 r) header p", simp_all add: map_error_def split: prod.split)
  qed
qed (subst decode_entries.simps, simp add: byte_ahead fail_eq)

lemma ends_ahead: "remaining r > 0 \<longleftrightarrow> ahead r \<noteq> []"
  by (simp add: remaining_ahead)

lemma decoded_so_far_result:
  assumes "decoded_so_far verify bs es r"
  shows "decode_entries verify [] DEFAULT_ENTRY (new_reader bs)
    = decode_entries verify es (last (DEFAULT_ENTRY # es)) r"
  using assms
proof (induction rule: decoded_so_far.induct)
  case (one_more es r header r1 e r2)
  from one_more.hyps(3) have "\<exists>rest. ahead r = header # rest" "r1 = advance 1 r"
    by (auto simp: byte_ahead fail_message split: list.splits)
  then obtain rest where r: "ahead r = header # rest" "r1 = advance 1 r" by blast
  note turn = decode_entries_turn [of es verify "last (DEFAULT_ENTRY # es)" r]
  have "decode_entries verify es (last (DEFAULT_ENTRY # es)) r = decode_entries verify (es @ [e]) e r2"
    using turn one_more.hyps r by simp
  with one_more.IH show ?case by simp
qed simp

text \<open>Where the loop ends when it is behind \<open>es\<close>: it stops there, or reads one entry more.\<close>

lemma decode_entries_ends:
  assumes "decoded_so_far verify bs es r"
  shows "\<exists>es' r'. decoded_so_far verify bs es' r' \<and>
    (case decode_entries verify es (last (DEFAULT_ENTRY # es)) r of
       Inl e \<Rightarrow> stops_with verify es' r' e
     | Inr (res, r2) \<Rightarrow> (\<exists>rest. ahead r' = 0 # rest) \<and> res = es' \<and> r2 = advance 1 r')"
  using assms
proof (induction "MAX_ENTRIES - length es" arbitrary: es r rule: less_induct)
  case less
  note len = decoded_length [OF less.prems]
  note turn = decode_entries_turn [OF len, of verify "last (DEFAULT_ENTRY # es)" r]
  show ?case
  proof (cases "ahead r")
    case Nil
    then show ?thesis using less.prems turn by (force simp: stops_with_def fail_eq)
  next
    case (Cons header rest)
    consider "header = 0" | "header \<noteq> 0" "length es = MAX_ENTRIES"
      | e' where "header \<noteq> 0" "length es < MAX_ENTRIES"
          "decodeEntry verify (advance 1 r) header (last (DEFAULT_ENTRY # es)) = Inl e'"
      | x r2 where "header \<noteq> 0" "length es < MAX_ENTRIES"
          "decodeEntry verify (advance 1 r) header (last (DEFAULT_ENTRY # es)) = Inr (x, r2)"
      using len by (cases "decodeEntry verify (advance 1 r) header (last (DEFAULT_ENTRY # es))") fastforce+
    then show ?thesis
    proof cases
      case 1
      with Cons turn less.prems show ?thesis by force
    next
      case 2
      with Cons turn less.prems show ?thesis by (force simp: stops_with_def name_entry_new)
    next
      case 3
      have "unnamed (decodeEntry verify (advance 1 r) header (last (DEFAULT_ENTRY # es)))"
        by (rule unnamed_decodeEntry)
      with 3(3) obtain what where e': "e' = DropError what None" by (cases e') (auto simp: unnamed_def)
      with 3 Cons turn have "decode_entries verify es (last (DEFAULT_ENTRY # es)) r
          = Inl (DropError (''Entry '' @ nat_str (length es + 1) @ '': '' @ what) (Some (length es)))"
        by (simp add: name_entry_new)
      moreover from 3 Cons e' have "stops_with verify es r
          (DropError (''Entry '' @ nat_str (length es + 1) @ '': '' @ what) (Some (length es)))"
        by (simp add: stops_with_def fail_eq)
      ultimately show ?thesis using less.prems by force
    next
      case 4
      have "decoded_so_far verify bs (es @ [x]) r2"
        by (rule one_more [OF less.prems 4(2) _ 4(1,3)]) (use Cons in simp)
      from less.hyps [OF _ this] 4 Cons turn show ?thesis by simp
    qed
  qed
qed

lemma stops_with_error:
  assumes "decoded_so_far verify bs es r" "stops_with verify es r e"
  shows "decodeDrop verify bs = Inl e"
proof -
  note turn = decode_entries_turn [OF decoded_length [OF assms(1)], of verify "last (DEFAULT_ENTRY # es)" r]
  show ?thesis
    using assms(2) unfolding decodeDrop_def decoded_so_far_result [OF assms(1)] turn
    by (auto simp: stops_with_def fail_eq remaining_ahead name_entry_new split: list.splits if_split_asm)
qed

section \<open>Every well-formed, signed drop is accepted\<close>

text \<open>
  An encoder, to state it: every field in full, nothing shared with the entry before.
\<close>

definition encode_cap :: "capability \<Rightarrow> bytes" where
  "encode_cap c = (case c of Communal \<Rightarrow> [0x00] | Owned key auth \<Rightarrow> 0x80 # key @ auth)"

definition entry_header :: "drop_entry \<Rightarrow> 8 word" where
  "entry_header e =
     word_of_nat (0x70 + tagFor (timestamp e) 2 * 4 + (if payload e = None then 0 else 1))"

definition encode_drop_entry :: "drop_entry \<Rightarrow> bytes \<Rightarrow> bytes" where
  "encode_drop_entry e signature =
     entry_header e # namespace e @ subspace e @ encodeCu64Standalone 0 @ encodePath (ent_path e)
       @ cu64Bytes (timestamp e) 2 @ encodeCu64Standalone (payloadLength e) @ payloadDigest e
       @ encode_cap (cap e) @ signature
       @ (case payload e of None \<Rightarrow> [] | Some p \<Rightarrow> p)"

definition encode_drop :: "(drop_entry \<times> bytes) list \<Rightarrow> bytes" where
  "encode_drop es = concat (map (\<lambda>(e, s). encode_drop_entry e s) es) @ [0]"

lemma entry_header_bits:
  "entry_header e \<noteq> 0" "entry_header e AND 0xc0 = 0x40"
  "entry_header e AND 0x20 \<noteq> 0" "entry_header e AND 0x10 \<noteq> 0"
  "entry_header e AND 0x03 = (if payload e = None then 0 else 1)"
  "drop_bit (8 - 4 - 2) (unat (entry_header e)) mod 2 ^ 2 = tagFor (timestamp e) 2"
proof -
  have "tagFor (timestamp e) 2 < 4" using tagFor_less [of 2] by simp
  then consider "tagFor (timestamp e) 2 = 0" | "tagFor (timestamp e) 2 = 1"
    | "tagFor (timestamp e) 2 = 2" | "tagFor (timestamp e) 2 = 3" by linarith
  then have all: "entry_header e \<noteq> 0 \<and> entry_header e AND 0xc0 = 0x40
    \<and> entry_header e AND 0x20 \<noteq> 0 \<and> entry_header e AND 0x10 \<noteq> 0
    \<and> entry_header e AND 0x03 = (if payload e = None then 0 else 1)
    \<and> drop_bit (8 - 4 - 2) (unat (entry_header e)) mod 2 ^ 2 = tagFor (timestamp e) 2"
    by cases (simp_all add: entry_header_def drop_bit_eq_div)
  then show "entry_header e \<noteq> 0" "entry_header e AND 0xc0 = 0x40"
    "entry_header e AND 0x20 \<noteq> 0" "entry_header e AND 0x10 \<noteq> 0"
    "entry_header e AND 0x03 = (if payload e = None then 0 else 1)"
    "drop_bit (8 - 4 - 2) (unat (entry_header e)) mod 2 ^ 2 = tagFor (timestamp e) 2" by simp_all
qed

lemma decodeToken_read:
  assumes "cap_ok c" "length s = 64" "ahead r = encode_cap c @ s @ rest"
  shows "decodeToken r previous = Inr ((c, s), advance (length (encode_cap c @ s)) r)"
proof (cases c)
  case Communal
  have "cu64 (0 :: 8 word) 3 1 r' = Inr (0, r')" "cu64 (0 :: 8 word) 4 4 r' = Inr (0, r')" for r'
    by (simp_all add: cu64_def cu64_sizes_def push_bit_1)
  with Communal assms show ?thesis
    by (simp add: decodeToken_def encode_cap_def take_bytes_ahead)
next
  case (Owned key auth)
  have "drop_bit 4 (128 :: nat) = 8" "(8 :: nat) AND 7 = 0" "(128 :: nat) AND 15 = 0"
    by (simp_all add: drop_bit_eq_div)
  then have "cu64 (0x80 :: 8 word) 3 1 r' = Inr (0, r')" "cu64 (0x80 :: 8 word) 4 4 r' = Inr (0, r')" for r'
    by (simp_all add: cu64_def cu64_sizes_def push_bit_1)
  moreover have "(0x80 :: 8 word) \<noteq> 0" by simp
  ultimately show ?thesis using Owned assms
    by (simp add: decodeToken_def encode_cap_def take_bytes_ahead cap_ok_def add.commute)
qed

lemma decode_payload_read:
  assumes "entry_wf e"
    and "ahead r = (case payload e of None \<Rightarrow> [] | Some p \<Rightarrow> p) @ rest"
  shows "decode_payload (entry_header e) (payloadLength e) (payloadDigest e) r
    = Inr (payload e, advance (length (case payload e of None \<Rightarrow> [] | Some p \<Rightarrow> p)) r)"
proof (cases "payload e")
  case None
  with assms show ?thesis by (simp add: decode_payload_def entry_header_bits)
next
  case (Some p)
  with assms have "length p = payloadLength e" "william3 p = payloadDigest e" "ahead r = p @ rest"
    by (simp_all add: entry_wf_def)
  with Some show ?thesis
    by (simp add: decode_payload_def entry_header_bits remaining_ahead take_bytes_ahead)
qed

lemma authorised_receiver:
  assumes "authorised verify e s" "entry_wf e"
  obtains k where "receiver_of verify (namespace e) (subspace e) (cap e) = Inr k"
    "verify k (encodeEntry e) s"
  using assms that by (cases "cap e") (auto simp: authorised_def receiver_of_ok entry_wf_def)

lemma decodeEntry_read:
  assumes wf: "entry_wf e" and s: "length s = 64" and auth: "authorised verify e s"
    and ahead: "ahead r = encode_drop_entry e s @ rest"
  shows "byte r = Inr (entry_header e, advance 1 r)"
    and "decodeEntry verify (advance 1 r) (entry_header e) previous
      = Inr (e, advance (length (encode_drop_entry e s)) r)"
proof -
  show "byte r = Inr (entry_header e, advance 1 r)"
    using ahead by (simp add: encode_drop_entry_def)
  let ?h = "entry_header e" and ?ns = "namespace e" and ?sub = "subspace e"
  let ?p = "encodeCu64Standalone 0 @ encodePath (ent_path e)" and ?ts = "cu64Bytes (timestamp e) 2"
  let ?len = "encodeCu64Standalone (payloadLength e)" and ?dig = "payloadDigest e"
  let ?tok = "encode_cap (cap e) @ s" and ?pl = "case payload e of None \<Rightarrow> [] | Some p \<Rightarrow> p"
  define r1 r2 r3 r4 r5 r6 r7 where "r1 = advance (length ?ns) (advance 1 r)"
    and "r2 = advance (length ?sub) r1" and "r3 = advance (length ?p) r2"
    and "r4 = advance (length ?ts) r3" and "r5 = advance (length ?len) r4"
    and "r6 = advance (length ?dig) r5" and "r7 = advance (length ?tok) r6"
  have a0: "ahead (advance 1 r) = ?ns @ ?sub @ ?p @ ?ts @ ?len @ ?dig @ ?tok @ ?pl @ rest"
    using ahead by (simp add: encode_drop_entry_def)
  have a1: "ahead r1 = ?sub @ ?p @ ?ts @ ?len @ ?dig @ ?tok @ ?pl @ rest"
    unfolding r1_def ahead_advance [of "length ?ns"] a0 by simp
  have a2: "ahead r2 = ?p @ ?ts @ ?len @ ?dig @ ?tok @ ?pl @ rest"
    unfolding r2_def ahead_advance a1 by simp
  have a3: "ahead r3 = ?ts @ ?len @ ?dig @ ?tok @ ?pl @ rest"
    unfolding r3_def ahead_advance a2 by simp
  have a4: "ahead r4 = ?len @ ?dig @ ?tok @ ?pl @ rest"
    unfolding r4_def ahead_advance a3 by simp
  have a5: "ahead r5 = ?dig @ ?tok @ ?pl @ rest" unfolding r5_def ahead_advance a4 by simp
  have a6: "ahead r6 = ?tok @ ?pl @ rest" unfolding r6_def ahead_advance a5 by simp
  have a7: "ahead r7 = ?pl @ rest" unfolding r7_def ahead_advance a6 by simp
  have len: "length ?ns = 32" "length ?sub = 32" "length ?dig = 32" using wf by (auto simp: entry_wf_def)
  note bits = entry_header_bits [of e]
  have "take_unless_same (?h AND 0x20 \<noteq> 0) (namespace previous) (advance 1 r) = Inr (?ns, r1)"
    using bits(3) take_bytes_append [OF a0, of 32] len(1) by (simp add: take_unless_same_def r1_def)
  moreover have "take_unless_same (?h AND 0x10 \<noteq> 0) (subspace previous) r1 = Inr (?sub, r2)"
    using bits(4) take_bytes_append [OF a1, of 32] len(2) by (simp add: take_unless_same_def r2_def)
  moreover have "decodeRelativePath r2 (ent_path previous) = Inr (ent_path e, r3)"
    using decodeRelativePath_read [of 0 "ent_path previous" "ent_path e" r2] a2 wf
    by (simp add: r3_def entry_wf_def path_ok_def)
  moreover have "cu64 ?h 2 4 r3 = Inr (timestamp e, r4)"
    unfolding r4_def by (rule cu64_read [OF _ _ bits(6) a3]) (use wf in \<open>simp_all add: entry_wf_def\<close>)
  moreover have "cu64Standalone r4 = Inr (payloadLength e, r5)"
    unfolding r5_def by (rule cu64Standalone_read [OF _ a4]) (use wf in \<open>simp add: entry_wf_def\<close>)
  moreover have "take_bytes 32 r5 = Inr (?dig, r6)"
    using take_bytes_append [OF a5, of 32] len(3) by (simp add: r6_def)
  moreover have "decodeToken r6 (cap previous) = Inr ((cap e, s), r7)"
    unfolding r7_def by (rule decodeToken_read) (use wf s a6 in \<open>simp_all add: entry_wf_def\<close>)
  moreover obtain k where "receiver_of verify ?ns ?sub (cap e) = Inr k" "verify k (encodeEntry e) s"
    using authorised_receiver [OF auth wf] .
  moreover have "decode_payload ?h (payloadLength e) ?dig r7 = Inr (payload e, advance (length ?pl) r7)"
    by (rule decode_payload_read [OF wf a7])
  moreover have "advance (length ?pl) r7 = advance (length (encode_drop_entry e s)) r"
    by (simp add: r7_def r6_def r5_def r4_def r3_def r2_def r1_def encode_drop_entry_def add.assoc)
  moreover have "communal e = isCommunal ?ns" using wf by (simp add: entry_wf_def)
  ultimately show "decodeEntry verify (advance 1 r) ?h previous
      = Inr (e, advance (length (encode_drop_entry e s)) r)"
    using bits(2) by (simp add: decodeEntry_def encodeEntry_def entry_fields.defs)
qed

lemma decode_entries_read:
  assumes "\<forall>(e, s) \<in> set es. entry_wf e \<and> length s = 64 \<and> authorised verify e s"
    and "length es0 + length es \<le> MAX_ENTRIES" and "ahead r = encode_drop es @ rest"
  shows "decode_entries verify es0 previous r
    = Inr (es0 @ map fst es, advance (length (encode_drop es)) r)"
  using assms
proof (induction es arbitrary: es0 previous r)
  case Nil
  then have "byte r = Inr (0, advance 1 r)" by (simp add: encode_drop_def)
  then show ?case by (subst decode_entries.simps) (simp add: encode_drop_def)
next
  case (Cons es1 es)
  obtain e s where es1: "es1 = (e, s)" by (cases es1)
  have ahead: "ahead r = encode_drop_entry e s @ encode_drop es @ rest"
    using Cons.prems(3) by (simp add: encode_drop_def es1)
  have wf: "entry_wf e" "length s = 64" "authorised verify e s"
    using Cons.prems(1) by (simp_all add: es1)
  note read = decodeEntry_read [OF wf ahead]
  let ?r = "advance (length (encode_drop_entry e s)) r"
  have "decode_entries verify es0 previous r = decode_entries verify (es0 @ [e]) e ?r"
    using read(1) read(2) [of previous] entry_header_bits(1) [of e] Cons.prems(2)
    by (subst decode_entries.simps) (simp add: map_error_def)
  also have "\<dots> = Inr ((es0 @ [e]) @ map fst es, advance (length (encode_drop es)) ?r)"
    by (rule Cons.IH) (use Cons.prems ahead in auto)
  finally show ?case by (simp add: es1 encode_drop_def add.assoc)
qed

lemma decodeDrop_read:
  assumes "\<forall>(e, s) \<in> set es. entry_wf e \<and> length s = 64 \<and> authorised verify e s"
    and "length es \<le> MAX_ENTRIES"
  shows "decodeDrop verify (encode_drop es) = Inr (map fst es)"
  using decode_entries_read [of es verify "[]" "new_reader (encode_drop es)" "[]" DEFAULT_ENTRY] assms
  by (simp add: decodeDrop_def remaining_ahead)

text \<open>An entry to try the decoder on: one empty file, signed by anyone.\<close>

definition sample_entry :: drop_entry where
  "sample_entry = DEFAULT_ENTRY\<lparr>ent_path := [[0x61]], timestamp := 300, payload := Some []\<rparr>"

lemma sample_entry_ok:
  "entry_wf sample_entry" "authorised (\<lambda>_ _ _. True) sample_entry s"
  using DEFAULT_ENTRY_wf
  by (simp_all add: sample_entry_def entry_wf_def authorised_def path_ok_def limits_def
      DEFAULT_ENTRY_def)

section \<open>Properties\<close>

text \<open>
  C2. Soundness. Every entry of a decoded drop is well-formed (32-byte identifiers and digest,
  a path within the Willow25 limits, 64-bit numbers), its payload, if present, has the
  declared length and hashes to the declared digest, its capability's kind fits its
  namespace, and a 64-byte signature over exactly this entry has been verified for the
  receiver of that capability; and there are at most \<open>MAX_ENTRIES\<close> of them.
\<close>
theorem decodeDrop_sound:
  assumes "decodeDrop verify bs = Inr es"
  shows "length es \<le> MAX_ENTRIES \<and> (\<forall>e \<in> set es. entry_verified verify e)"
  using assms decode_entries_sound [OF _ DEFAULT_ENTRY_wf]
  by (fastforce simp: decodeDrop_def bindE_eq_Inr split: prod.splits if_splits)

theorem decodeDrop_sound_witness:
  "length [sample_entry] \<le> MAX_ENTRIES \<and> entry_verified (\<lambda>_ _ _. True) sample_entry"
proof -
  have "decodeDrop (\<lambda>_ _ _. True) (encode_drop [(sample_entry, replicate 64 0)]) = Inr [sample_entry]"
    by (subst decodeDrop_read, simp_all add: sample_entry_ok MAX_ENTRIES_def)
  from decodeDrop_sound [OF this] show ?thesis by simp
qed

text \<open>
  C3. Completeness. A drop of at most \<open>MAX_ENTRIES\<close> well-formed, authorised entries, encoded
  field by field and closed by a zero byte, is decoded to exactly those entries, in order.
\<close>
theorem decodeDrop_complete:
  assumes "\<forall>(e, s) \<in> set es. entry_wf e \<and> length s = 64 \<and> authorised verify e s"
    and "length es \<le> MAX_ENTRIES"
  shows "decodeDrop verify (encode_drop es) = Inr (map fst es)"
  using assms by (rule decodeDrop_read)

theorem decodeDrop_complete_witness:
  "decodeDrop (\<lambda>_ _ _. True) (encode_drop [(sample_entry, replicate 64 0)]) = Inr [sample_entry]"
  using decodeDrop_complete [of "[(sample_entry, replicate 64 0)]" "\<lambda>_ _ _. True"]
  by (simp add: sample_entry_ok MAX_ENTRIES_def)

text \<open>
  C4. Errors. Decoding fails with an error exactly when, behind the entries that do decode, that
  is the one thing wrong: the bytes end where a header is due; there are bytes after the
  closing zero; or there is one entry too many or an entry that does not decode or verify,
  and then the error carries the index of just this entry, the number of entries decoded
  before it, and its message names that entry and gives that entry's own reason.
\<close>
theorem decodeDrop_error:
  "decodeDrop verify bs = Inl e \<longleftrightarrow> (\<exists>es r. decoded_so_far verify bs es r \<and> stops_with verify es r e)"
proof
  assume e: "decodeDrop verify bs = Inl e"
  let ?all = "decode_entries verify [] DEFAULT_ENTRY (new_reader bs)"
  obtain es r where so_far: "decoded_so_far verify bs es r"
    and ends: "case ?all of Inl e \<Rightarrow> stops_with verify es r e
      | Inr (res, r2) \<Rightarrow> (\<exists>rest. ahead r = 0 # rest) \<and> res = es \<and> r2 = advance 1 r"
    using decode_entries_ends [OF at_start, of verify bs] by auto
  have "stops_with verify es r e"
    using e ends by (cases ?all) (auto simp: decodeDrop_def fail_eq remaining_ahead stops_with_def split: if_split_asm)
  with so_far show "\<exists>es r. decoded_so_far verify bs es r \<and> stops_with verify es r e" by blast
qed (blast intro: stops_with_error)

text \<open>
  What a signature covers. Two well-formed entries with the same signed bytes agree in
  every field the signature is meant to cover: no field can be shifted into another.
\<close>
lemma encodeEntry_injective:
  assumes "entry_wf e" "entry_wf f" "encodeEntry e = encodeEntry f"
  shows "entry_fields.truncate e = entry_fields.truncate f"
proof -
  let ?tail = "\<lambda>e. encodeCu64Standalone (timestamp e) @ encodeCu64Standalone (payloadLength e)
    @ payloadDigest e"
  have eq: "namespace e @ subspace e @ encodePath (ent_path e) @ ?tail e
      = namespace f @ subspace f @ encodePath (ent_path f) @ ?tail f"
    using assms(3) by (simp add: encodeEntry_def)
  with assms(1,2) have ids: "namespace e = namespace f" "subspace e = subspace f"
    and rest: "encodePath (ent_path e) @ ?tail e = encodePath (ent_path f) @ ?tail f"
    by (auto simp: entry_wf_def)
  have "ent_path e = ent_path f \<and> ?tail e = ?tail f"
    using assms(1,2) rest by (intro encodePath_prefix_free) (auto simp: entry_wf_def)
  moreover from this have "timestamp e = timestamp f \<and>
      encodeCu64Standalone (payloadLength e) @ payloadDigest e
      = encodeCu64Standalone (payloadLength f) @ payloadDigest f"
    using assms(1,2) by (intro cu64_codec.prefix_free) (auto simp: entry_wf_def)
  moreover from this have "payloadLength e = payloadLength f \<and> payloadDigest e = payloadDigest f"
    using assms(1,2) by (intro cu64_codec.prefix_free) (auto simp: entry_wf_def)
  ultimately show ?thesis using ids by (simp add: entry_fields.defs)
qed

end
