(* ===== verification/Willow_Text.thy ===== *)
theory Willow_Text
  imports Willow_Encoding
begin

text \<open>
  What \<open>utf8Text\<close> and \<open>base64\<close> of \<^verbatim>\<open>src/integrations/willow-drop/encoding.ts\<close>
  compute: \<open>utf8Text\<close> accepts exactly the UTF-8 encodings of Unicode scalar values (no
  overlong forms, no surrogates, nothing beyond U+10FFFF), and \<open>base64\<close> loses nothing.
\<close>

unbundle bit_operations_syntax

section \<open>UTF-8 is decoded exactly\<close>

definition scalar_value :: "nat \<Rightarrow> bool" where
  "scalar_value cp \<longleftrightarrow> cp \<le> 0x10ffff \<and> \<not> (0xd800 \<le> cp \<and> cp \<le> 0xdfff)"

definition utf8_bytes :: "nat \<Rightarrow> nat list" where
  "utf8_bytes cp =
     (if cp < 0x80 then [cp]
      else if cp < 0x800 then [0xc0 + cp div 64, 0x80 + cp mod 64]
      else if cp < 0x10000 then [0xe0 + cp div 4096, 0x80 + cp div 64 mod 64, 0x80 + cp mod 64]
      else [0xf0 + cp div 262144, 0x80 + cp div 4096 mod 64, 0x80 + cp div 64 mod 64,
            0x80 + cp mod 64])"

definition utf8_encode :: "nat list \<Rightarrow> bytes" where
  "utf8_encode cps = concat (map (\<lambda>cp. map word_of_nat (utf8_bytes cp)) cps)"

lemma and_push_bit: "(c :: nat) AND push_bit n m = push_bit n (drop_bit n c AND m)"
  by (intro bit_eqI) (auto simp: bit_and_iff bit_push_bit_iff bit_drop_bit_eq)

lemma mod_in_block: "k * m \<le> b \<Longrightarrow> b < k * m + m \<Longrightarrow> b mod m = b - k * (m :: nat)"
  by (metis add_diff_inverse_nat diff_less_mono add_diff_cancel_left' mod_less mod_mult_self3 not_less)

lemma and_0xc0: "c < 256 \<Longrightarrow> c AND 0xc0 = (0x80 :: nat) \<longleftrightarrow> 0x80 \<le> c \<and> c < 0xc0"
proof -
  assume c: "c < 256"
  have "c AND push_bit 6 3 = push_bit 6 (drop_bit 6 c AND 3)"
    by (rule and_push_bit)
  moreover have "drop_bit 6 c AND 3 = c div 64 mod 4"
    using and_pow_minus_1 [of "drop_bit 6 c" 2] by (simp add: drop_bit_eq_div)
  moreover have "c div 64 mod 4 = c div 64" using c by simp
  ultimately have "c AND 0xc0 = c div 64 * 64" by (simp add: push_bit_eq_mult)
  moreover have "c div 64 * 64 = 0x80 \<longleftrightarrow> c div 64 = 2" by linarith
  moreover have "c div 64 = 2 \<longleftrightarrow> 0x80 \<le> c \<and> c < 0xc0" by linarith
  ultimately show ?thesis by simp
qed

lemma utf8_cont_Suc:
  "utf8_cont (Suc k) (c # rest) code =
     (if 0x80 \<le> unat c \<and> unat c < 0xc0
      then utf8_cont k rest (code * 64 + (unat c - 0x80)) else None)"
proof -
  have "unat c AND 0x3f = unat c mod 64" using and_pow_minus_1 [of "unat c" 6] by simp
  then have "push_bit 6 code OR (unat c AND 0x3f) = code * 64 + unat c mod 64"
    using push_bit_or_add [of "unat c mod 64" 6 code] by simp
  moreover have "0x80 \<le> unat c \<Longrightarrow> unat c < 0xc0 \<Longrightarrow> unat c mod 64 = unat c - 0x80"
    using mod_in_block [of 2 64 "unat c"] by simp
  ultimately show ?thesis by (simp add: and_0xc0)
qed

lemma utf8_lead_unfold:
  assumes "b < 256"
  shows "utf8_lead b =
     (if b < 0x80 then Some (0, b, 0)
      else if 0xc2 \<le> b \<and> b \<le> 0xdf then Some (1, b - 0xc0, 0x80)
      else if 0xe0 \<le> b \<and> b \<le> 0xef then Some (2, b - 0xe0, 0x800)
      else if 0xf0 \<le> b \<and> b \<le> 0xf4 then Some (3, b - 0xf0, 0x10000)
      else None)"
proof -
  have "b AND 0x1f = b mod 32" "b AND 0x0f = b mod 16" "b AND 0x07 = b mod 8"
    using and_pow_minus_1 [of b 5] and_pow_minus_1 [of b 4] and_pow_minus_1 [of b 3] by simp_all
  moreover have "0xc2 \<le> b \<Longrightarrow> b \<le> 0xdf \<Longrightarrow> b mod 32 = b - 0xc0"
    using mod_in_block [of 6 32 b] by simp
  moreover have "0xe0 \<le> b \<Longrightarrow> b \<le> 0xef \<Longrightarrow> b mod 16 = b - 0xe0"
    using mod_in_block [of 14 16 b] by simp
  moreover have "0xf0 \<le> b \<Longrightarrow> b \<le> 0xf4 \<Longrightarrow> b mod 8 = b - 0xf0"
    using mod_in_block [of 30 8 b] by simp
  ultimately show ?thesis by (auto simp: utf8_lead_def)
qed

lemmas utf8_read_simps = utf8_lead_unfold utf8_cont_Suc numeral_2_eq_2 numeral_3_eq_3

declare utf8_cont.simps(3) [simp del]

lemma unat_byte_of_nat: "n < 256 \<Longrightarrow> unat (word_of_nat n :: 8 word) = n"
  by (simp add: unat_of_nat)

lemma div_64: "cp div 4096 = cp div 64 div (64 :: nat)" "cp div 262144 = cp div 64 div 64 div (64 :: nat)"
  by (simp_all flip: div_mult2_eq)

lemma utf8_join:
  "(cp div 64 * 64 + cp mod 64 :: nat) = cp"
  "((cp div 4096 * 64 + cp div 64 mod 64) * 64 + cp mod 64 :: nat) = cp"
  "(((cp div 262144 * 64 + cp div 4096 mod 64) * 64 + cp div 64 mod 64) * 64 + cp mod 64 :: nat) = cp"
  "(4096 * (cp div 4096) + cp div 64 mod 64 * 64 + cp mod 64 :: nat) = cp"
  "(262144 * (cp div 262144) + 4096 * (cp div 4096 mod 64) + cp div 64 mod 64 * 64 + cp mod 64 :: nat) = cp"
proof -
  show 1: "(cp div 64 * 64 + cp mod 64 :: nat) = cp" by simp
  show 2: "((cp div 4096 * 64 + cp div 64 mod 64) * 64 + cp mod 64 :: nat) = cp"
    unfolding div_64 by simp
  show 3: "(((cp div 262144 * 64 + cp div 4096 mod 64) * 64 + cp div 64 mod 64) * 64 + cp mod 64 :: nat) = cp"
    unfolding div_64 by simp
  show "(4096 * (cp div 4096) + cp div 64 mod 64 * 64 + cp mod 64 :: nat) = cp"
  proof -
    have "4096 * a + b * 64 + m = (a * 64 + b) * 64 + m" for a b m :: nat by simp
    then show ?thesis by (simp only: 2)
  qed
  show "(262144 * (cp div 262144) + 4096 * (cp div 4096 mod 64) + cp div 64 mod 64 * 64 + cp mod 64 :: nat) = cp"
  proof -
    have "262144 * a + 4096 * b + c * 64 + m = ((a * 64 + b) * 64 + c) * 64 + m"
      for a b c m :: nat by simp
    then show ?thesis by (simp only: 3)
  qed
qed

lemma utf8_cont_Some:
  "utf8_cont k rest code = Some code' \<Longrightarrow> k \<le> length rest"
proof (induction k rest code rule: utf8_cont.induct)
  case (3 k c rest code)
  then show ?case by (auto simp: utf8_cont.simps(3) split: if_splits)
qed simp_all

lemma utf8Text_head:
  assumes "utf8_lead (unat b) = Some (need, code, lo)" "utf8_cont need rest code = Some cp"
    and "scalar_value cp" "need > 0 \<Longrightarrow> lo \<le> cp"
  shows "utf8Text (b # rest) = map_option ((#) cp) (utf8Text (drop need rest))"
  using assms utf8_cont_Some [OF assms(2)] by (auto simp: scalar_value_def)

lemma utf8Text_encode_one:
  assumes "scalar_value cp"
  shows "utf8Text (map word_of_nat (utf8_bytes cp) @ rest) = map_option ((#) cp) (utf8Text rest)"
proof -
  have m: "n mod 64 < 64" for n :: nat by simp
  have w: "unat (word_of_nat (0x80 + n mod 64) :: 8 word) = 0x80 + n mod 64" for n
    by (rule unat_byte_of_nat) (use m [of n] in linarith)
  consider "cp < 0x80" | "0x80 \<le> cp" "cp < 0x800" | "0x800 \<le> cp" "cp < 0x10000"
    | "0x10000 \<le> cp" "cp \<le> 0x10ffff"
    using assms unfolding scalar_value_def by linarith
  then show ?thesis
  proof cases
    case 1
    then have "utf8_lead (unat (word_of_nat cp :: 8 word)) = Some (0, cp, 0)"
      by (simp add: unat_byte_of_nat utf8_lead_unfold)
    from utf8Text_head [OF this _ assms, of rest] 1 show ?thesis by (simp add: utf8_bytes_def)
  next
    case 2
    then have "cp div 64 < 32" "2 \<le> cp div 64" by linarith+
    then have "utf8_lead (unat (word_of_nat (0xc0 + cp div 64) :: 8 word)) = Some (1, cp div 64, 0x80)"
      by (simp add: unat_byte_of_nat utf8_lead_unfold del: of_nat_add)
    from utf8Text_head [OF this _ assms, of "word_of_nat (0x80 + cp mod 64) # rest"] 2
    show ?thesis by (simp add: utf8_bytes_def utf8_cont_Suc w utf8_join del: of_nat_add)
  next
    case 3
    then have "cp div 4096 < 16" by linarith
    then have "utf8_lead (unat (word_of_nat (0xe0 + cp div 4096) :: 8 word)) = Some (2, cp div 4096, 0x800)"
      by (simp add: unat_byte_of_nat utf8_lead_unfold del: of_nat_add)
    from utf8Text_head [OF this _ assms, of "word_of_nat (0x80 + cp div 64 mod 64) #
        word_of_nat (0x80 + cp mod 64) # rest"] 3
    show ?thesis
      by (simp add: utf8_bytes_def utf8_cont_Suc numeral_2_eq_2 w utf8_join del: of_nat_add)
  next
    case 4
    then have "cp div 262144 < 5" by linarith
    then have "utf8_lead (unat (word_of_nat (0xf0 + cp div 262144) :: 8 word))
        = Some (3, cp div 262144, 0x10000)"
      by (simp add: unat_byte_of_nat utf8_lead_unfold del: of_nat_add)
    from utf8Text_head [OF this _ assms, of "word_of_nat (0x80 + cp div 4096 mod 64) #
        word_of_nat (0x80 + cp div 64 mod 64) # word_of_nat (0x80 + cp mod 64) # rest"] 4
    show ?thesis
      by (simp add: utf8_bytes_def utf8_cont_Suc numeral_3_eq_3 w utf8_join del: of_nat_add)
  qed
qed

lemma utf8_bytes_split:
  fixes x y z u :: nat
  shows "2 \<le> x \<Longrightarrow> x < 32 \<Longrightarrow> y < 64 \<Longrightarrow> utf8_bytes (x * 64 + y) = [0xc0 + x, 0x80 + y]"
    and "x < 16 \<Longrightarrow> y < 64 \<Longrightarrow> z < 64 \<Longrightarrow> 0x800 \<le> (x * 64 + y) * 64 + z
      \<Longrightarrow> utf8_bytes ((x * 64 + y) * 64 + z) = [0xe0 + x, 0x80 + y, 0x80 + z]"
    and "y < 64 \<Longrightarrow> z < 64 \<Longrightarrow> u < 64 \<Longrightarrow> 0x10000 \<le> ((x * 64 + y) * 64 + z) * 64 + u
      \<Longrightarrow> utf8_bytes (((x * 64 + y) * 64 + z) * 64 + u) = [0xf0 + x, 0x80 + y, 0x80 + z, 0x80 + u]"
proof -
  have d: "(a * 64 + b) div 64 = a" "(a * 64 + b) mod 64 = b" if "b < 64" for a b :: nat
    using that by simp_all
  show "2 \<le> x \<Longrightarrow> x < 32 \<Longrightarrow> y < 64 \<Longrightarrow> utf8_bytes (x * 64 + y) = [0xc0 + x, 0x80 + y]"
    unfolding utf8_bytes_def by (simp only: d) simp
  show "x < 16 \<Longrightarrow> y < 64 \<Longrightarrow> z < 64 \<Longrightarrow> 0x800 \<le> (x * 64 + y) * 64 + z
      \<Longrightarrow> utf8_bytes ((x * 64 + y) * 64 + z) = [0xe0 + x, 0x80 + y, 0x80 + z]"
    unfolding utf8_bytes_def div_64 by (simp only: d) simp
  show "y < 64 \<Longrightarrow> z < 64 \<Longrightarrow> u < 64 \<Longrightarrow> 0x10000 \<le> ((x * 64 + y) * 64 + z) * 64 + u
      \<Longrightarrow> utf8_bytes (((x * 64 + y) * 64 + z) * 64 + u) = [0xf0 + x, 0x80 + y, 0x80 + z, 0x80 + u]"
    unfolding utf8_bytes_def div_64 by (simp only: d) simp
qed

lemma utf8_cont_SucE:
  assumes "utf8_cont (Suc k) rest code = Some cp"
  obtains c y rest' where "rest = c # rest'" "unat c = 0x80 + y" "y < 64"
    "utf8_cont k rest' (code * 64 + y) = Some cp"
proof -
  from assms obtain c rest' where "rest = c # rest'" "0x80 \<le> unat c" "unat c < 0xc0"
    "utf8_cont k rest' (code * 64 + (unat c - 0x80)) = Some cp"
    by (cases rest) (auto simp: utf8_cont_Suc split: if_splits)
  then show thesis by (intro that [of c rest' "unat c - 0x80"]) simp_all
qed

lemma utf8_decode_one:
  assumes "b < 256" "utf8_lead b = Some (need, code, lo)" "utf8_cont need rest code = Some cp"
    and "need > 0 \<Longrightarrow> lo \<le> cp"
  shows "b # map unat (take need rest) = utf8_bytes cp"
proof -
  consider "need = 0" "code = b" "b < 0x80"
    | "need = 1" "lo = 0x80" "code = b - 0xc0" "0xc2 \<le> b" "b \<le> 0xdf"
    | "need = 2" "lo = 0x800" "code = b - 0xe0" "0xe0 \<le> b" "b \<le> 0xef"
    | "need = 3" "lo = 0x10000" "code = b - 0xf0" "0xf0 \<le> b" "b \<le> 0xf4"
    using assms(2) utf8_lead_unfold [OF assms(1)] by (auto split: if_splits)
  then show ?thesis
  proof cases
    case 1
    with assms show ?thesis by (simp add: utf8_bytes_def)
  next
    case 2
    with assms(3) obtain c x r where "rest = c # r" "unat c = 0x80 + x" "x < 64" "cp = code * 64 + x"
      by (auto elim!: utf8_cont_SucE)
    with 2 utf8_bytes_split(1) [of code x] show ?thesis by simp
  next
    case 3
    with assms(3) obtain c d x y r where "rest = c # d # r" "unat c = 0x80 + x" "x < 64"
      "unat d = 0x80 + y" "y < 64" "cp = (code * 64 + x) * 64 + y"
      by (auto simp: numeral_2_eq_2 elim!: utf8_cont_SucE)
    with 3 assms(4) utf8_bytes_split(2) [of code x y] show ?thesis by simp
  next
    case 4
    with assms(3) obtain c d e x y z r where "rest = c # d # e # r" "unat c = 0x80 + x" "x < 64"
      "unat d = 0x80 + y" "y < 64" "unat e = 0x80 + z" "z < 64"
      "cp = ((code * 64 + x) * 64 + y) * 64 + z"
      by (auto simp: numeral_3_eq_3 elim!: utf8_cont_SucE)
    with 4 assms(4) utf8_bytes_split(3) [of x y z code] show ?thesis by simp
  qed
qed

lemma utf8Text_one:
  assumes "utf8Text (b # rest) = Some cps"
  obtains cp cps' rest' where "cps = cp # cps'" "scalar_value cp"
    "b # rest = map word_of_nat (utf8_bytes cp) @ rest'" "utf8Text rest' = Some cps'"
    "length rest' \<le> length rest"
proof -
  from assms obtain need code lo cp cps' where lead: "utf8_lead (unat b) = Some (need, code, lo)"
    and cont: "utf8_cont need rest code = Some cp"
    and cp: "need > 0 \<Longrightarrow> lo \<le> cp" "scalar_value cp"
    and cps: "cps = cp # cps'" "utf8Text (drop need rest) = Some cps'"
    by (auto simp: scalar_value_def split: option.splits if_splits)
  have "utf8_bytes cp = unat b # map unat (take need rest)"
    using utf8_decode_one [OF _ lead cont cp(1)] by simp
  then have "map word_of_nat (utf8_bytes cp) = b # take need rest" by (simp add: comp_def)
  then have "b # rest = map word_of_nat (utf8_bytes cp) @ drop need rest" by simp
  then show thesis using cps cp(2) by (intro that [of cp cps' "drop need rest"]) simp_all
qed

text \<open>
  C6. \<open>utf8Text\<close> returns a string exactly for the UTF-8 encoding of a sequence of Unicode
  scalar values, and then it returns that sequence: overlong forms, surrogates, truncated
  sequences and code points beyond U+10FFFF are all \<open>null\<close>.
\<close>
theorem utf8Text_exact:
  "utf8Text bs = Some cps \<longleftrightarrow> list_all scalar_value cps \<and> bs = utf8_encode cps"
  unfolding list_all_iff
proof
  show "utf8Text bs = Some cps \<Longrightarrow> (\<forall>cp \<in> set cps. scalar_value cp) \<and> bs = utf8_encode cps"
  proof (induction bs arbitrary: cps rule: length_induct)
    case (1 bs)
    show ?case
    proof (cases bs)
      case Nil
      with 1 show ?thesis by (simp add: utf8_encode_def)
    next
      case (Cons b rest)
      with 1 obtain cp cps' rest' where cps: "cps = cp # cps'" "scalar_value cp"
        "b # rest = map word_of_nat (utf8_bytes cp) @ rest'" "utf8Text rest' = Some cps'"
        "length rest' \<le> length rest" by (metis utf8Text_one)
      then have "length rest' < length bs" using Cons by (metis le_imp_less_Suc length_Cons)
      with 1 cps(4) have "(\<forall>cp \<in> set cps'. scalar_value cp) \<and> rest' = utf8_encode cps'"
        by blast
      moreover note cps
      ultimately show ?thesis using Cons by (simp add: utf8_encode_def)
    qed
  qed
  show "(\<forall>cp \<in> set cps. scalar_value cp) \<and> bs = utf8_encode cps \<Longrightarrow> utf8Text bs = Some cps"
  proof (induction cps arbitrary: bs)
    case (Cons cp cps)
    then show ?case
      using utf8Text_encode_one [of cp "utf8_encode cps"] by (simp add: utf8_encode_def)
  qed (simp add: utf8_encode_def)
qed

section \<open>base64 loses nothing\<close>

definition b64_val :: "char \<Rightarrow> nat option" where
  "b64_val c = map_of (zip BASE64 [0..<64]) c"

fun unbase64 :: "string \<Rightarrow> bytes option" where
  "unbase64 [] = Some []"
| "unbase64 (a # b # c # d # rest) =
     (case (b64_val a, b64_val b) of
        (Some x, Some y) \<Rightarrow>
          (let b0 = word_of_nat (x * 4 + y div 16) in
           case b64_val c of
             None \<Rightarrow> if c = CHR ''='' \<and> d = CHR ''='' \<and> rest = [] then Some [b0] else None
           | Some z \<Rightarrow>
               (let b1 = word_of_nat (y mod 16 * 16 + z div 4) in
                case b64_val d of
                  None \<Rightarrow> if d = CHR ''='' \<and> rest = [] then Some [b0, b1] else None
                | Some w \<Rightarrow>
                    map_option ((@) [b0, b1, word_of_nat (z mod 4 * 64 + w)]) (unbase64 rest)))
      | _ \<Rightarrow> None)"
| "unbase64 _ = None"

lemma length_BASE64 [simp]: "length BASE64 = 64"
  by (simp add: BASE64_def)

lemma b64_val_nth: "n < 64 \<Longrightarrow> b64_val (BASE64 ! n) = Some n"
proof -
  have "distinct BASE64" by (simp add: BASE64_def)
  then show "n < 64 \<Longrightarrow> b64_val (BASE64 ! n) = Some n"
    by (simp add: b64_val_def map_of_zip_nth)
qed

lemma b64_val_pad: "b64_val CHR ''='' = None"
  by (auto simp: b64_val_def map_of_eq_None_iff BASE64_def dest!: set_zip_leftD)

lemma base64_groups:
  fixes b0 b1 b2 :: nat
  assumes "b0 < 256" "b1 < 256" "b2 < 256"
  defines "n \<equiv> (push_bit 16 b0 OR push_bit 8 b1) OR b2"
  shows "drop_bit 18 n = b0 div 4" "drop_bit 12 n AND 63 = b0 mod 4 * 16 + b1 div 16"
    "drop_bit 6 n AND 63 = b1 mod 16 * 4 + b2 div 64" "n AND 63 = b2 mod 64"
proof -
  let ?A = "b0 div 4" and ?B = "b0 mod 4 * 16 + b1 div 16"
    and ?C = "b1 mod 16 * 4 + b2 div 64" and ?D = "b2 mod 64"
  have lt: "?B < 64" "?C < 64" "?D < 64" using assms by linarith+
  have "push_bit 16 b0 OR push_bit 8 b1 = push_bit 8 (push_bit 8 b0 OR b1)"
    by (simp add: push_bit_or)
  also have "\<dots> = push_bit 8 (b0 * 256 + b1)" using push_bit_or_add [of b1 8 b0] assms(2) by simp
  finally have "n = (b0 * 256 + b1) * 256 + b2"
    unfolding n_def using push_bit_or_add [of b2 8 "b0 * 256 + b1"] assms(3) by simp
  also have "\<dots> = ((?A * 64 + ?B) * 64 + ?C) * 64 + ?D"
  proof -
    have "((p * 4 + q) * 256 + (s * 16 + t)) * 256 + (u * 64 + v)
        = ((p * 64 + (q * 16 + s)) * 64 + (t * 4 + u)) * 64 + v" for p q s t u v :: nat
      by (simp add: algebra_simps)
    from this [of "b0 div 4" "b0 mod 4" "b1 div 16" "b1 mod 16" "b2 div 64" "b2 mod 64"]
    show ?thesis by (simp only: div_mult_mod_eq)
  qed
  finally have n: "n = ((?A * 64 + ?B) * 64 + ?C) * 64 + ?D" .
  have d: "(a * 64 + b) div 64 = a" "(a * 64 + b) mod 64 = b" if "b < 64" for a b :: nat
    using that by simp_all
  have m: "x AND 63 = x mod 64" for x :: nat using and_pow_minus_1 [of x 6] by simp
  have e: "drop_bit 6 x = x div 64" "drop_bit 12 x = x div 64 div 64"
    "drop_bit 18 x = x div 64 div 64 div 64" for x :: nat
    by (simp_all add: drop_bit_eq_div flip: div_mult2_eq)
  show "drop_bit 18 n = ?A" "drop_bit 12 n AND 63 = ?B" "drop_bit 6 n AND 63 = ?C" "n AND 63 = ?D"
    unfolding m e n by (simp_all only: d lt)
qed

lemma base64_join:
  fixes a b c :: nat
  assumes "a < 256" "b < 256" "c < 256"
  shows "a div 4 < 64" "a mod 4 * 16 + b div 16 < 64" "b mod 16 * 4 + c div 64 < 64"
    "a div 4 * 4 + (a mod 4 * 16 + b div 16) div 16 = a"
    "(a mod 4 * 16 + b div 16) mod 16 * 16 + (b mod 16 * 4 + c div 64) div 4 = b"
    "(b mod 16 * 4 + c div 64) mod 4 * 64 + c mod 64 = c"
proof -
  show "a div 4 < 64" "a mod 4 * 16 + b div 16 < 64" "b mod 16 * 4 + c div 64 < 64"
    using assms by linarith+
  have d: "(x * m + y) div m = x" "(x * m + y) mod m = y" if "y < m" for x y m :: nat
    using that by simp_all
  have "b div 16 < 16" "c div 64 < 4" using assms by linarith+
  then show "a div 4 * 4 + (a mod 4 * 16 + b div 16) div 16 = a"
    "(a mod 4 * 16 + b div 16) mod 16 * 16 + (b mod 16 * 4 + c div 64) div 4 = b"
    "(b mod 16 * 4 + c div 64) mod 4 * 64 + c mod 64 = c"
    by (simp_all only: d) simp_all
qed

text \<open>C7. base64, with its padding, loses nothing: a decoder recovers the bytes.\<close>
theorem base64_lossless: "unbase64 (base64 bs) = Some bs"
proof (induction bs rule: base64.induct)
  case 1
  show ?case by simp
next
  case (2 b0 rest)
  let ?b1 = "if length rest > 0 then unat (rest ! 0) else 0"
  let ?b2 = "if length rest > 1 then unat (rest ! 1) else 0"
  have lt: "unat b0 < 256" "?b1 < 256" "?b2 < 256" by simp_all
  note idx = base64_join [OF lt]
  have step: "base64 (b0 # rest) =
      [BASE64 ! (unat b0 div 4), BASE64 ! (unat b0 mod 4 * 16 + ?b1 div 16),
       if length rest > 0 then BASE64 ! (?b1 mod 16 * 4 + ?b2 div 64) else CHR ''='',
       if length rest > 1 then BASE64 ! (?b2 mod 64) else CHR ''=''] @ base64 (drop 2 rest)"
    unfolding base64.simps Let_def base64_groups [OF lt] ..
  consider "rest = []" | c where "rest = [c]" | c d r where "rest = c # d # r"
    by (metis neq_Nil_conv)
  then show ?case
  proof cases
    case 1
    with idx show ?thesis unfolding step by (simp add: Let_def b64_val_nth b64_val_pad)
  next
    case 2
    with idx show ?thesis unfolding step by (simp add: Let_def b64_val_nth b64_val_pad)
  next
    case 3
    with idx "2.IH" show ?thesis unfolding step by (simp add: Let_def b64_val_nth)
  qed
qed

end
