(* ===== verification/Spec2Isabelle.thy ===== *)
theory Spec2Isabelle
  imports
    Dv_Events
    Dv_Identity
    Dv_Index
    Dv_Lens
    Dv_Links
    Dv_Marker
    Dv_Reconcile
    Dv_Reflect
    Dv_Storage
    Dv_Store
    Dv_Sync
    Dv_Table
    Js
    Js_Date
    Js_Group
    Js_Json
    Js_Object
    Js_Parse
    Js_Text
    Money_Amounts
    Money_Check
    Money_Identity
    Money_Ledger
    Money_Mt940
    Money_Totals
    Prelude
    Sy_Client
    Sy_Honest
    Sy_Mock
    Sy_Pagination
    Sy_Queue
    Sy_Records
    Sy_Routes
    Sy_Scheme
    Sy_Served
    Sy_Synced
    Sy_Url
    Sy_Walk
    Ts_Fold
    Ts_Observations
    Ts_Sweep
    Ts_Timeline
    Willow_Drop
    Willow_Encoding
    Willow_Text
    Willow_William3
begin

text \<open>
  A model of the TypeScript core of the atomic-plugins repository, and its correctness.

  \<^bold>\<open>The program.\<close> The repository holds plugins that bring the data of other services into Atomic
  Data, and the libraries under them. Modelled are:

  \<^item> the importer of Willow drops (\<^verbatim>\<open>src/integrations/willow-drop\<close>): a decoder and verifier of
    signed, delta-encoded entries;
  \<^item> the time-sheet application over Clockify (\<^verbatim>\<open>src/integrations/timesheets\<close>): an append-only
    log of observations, folded into records and coverage, and a timeline that says which time
    is worked, free or unknown;
  \<^item> the bank-statement reader and ledger (\<^verbatim>\<open>src/integrations/money\<close>): exact amounts, the MT940
    reader, import identities, the check of a file against the table, and the ledger's sums;
  \<^item> Devonian (\<^verbatim>\<open>src/devonian\<close>), which synchronises records between platforms: events, indexes and
    storage, tables and lenses, the Atomic Data store with its identity map, three-way
    reconciliation, the background scheduler and the reflection engine with its hidden markers;
  \<^item> Syncables (\<^verbatim>\<open>src/syncables\<close>), which reads and writes any API that has an OpenAPI document:
    pagination schemes, the page walk, routes, the local-first client and a mock server.

  \<^bold>\<open>Theories, by part.\<close> Names of definitions are those of the code; where two parts use one name,
  the theory's name tells them apart.

  \<^item> \<^verbatim>\<open>Prelude\<close>, \<^verbatim>\<open>Js\<close>, \<^verbatim>\<open>Js_Text\<close>, \<^verbatim>\<open>Js_Date\<close>, \<^verbatim>\<open>Js_Json\<close>, \<^verbatim>\<open>Js_Parse\<close>, \<^verbatim>\<open>Js_Object\<close>, \<^verbatim>\<open>Js_Group\<close>: results
    that may be an error, insertion-ordered maps, and what the code uses of JavaScript's standard
    library: strings, \<open>sort\<close>, \<open>Date.parse\<close> and \<open>toISOString\<close>, \<open>JSON.stringify\<close>, \<open>JSON.parse\<close>,
    member access, spread. \<open>json_parse_text\<close> shows that the reader inverts the writer.
  \<^item> \<^verbatim>\<open>Willow_Encoding\<close> (\<^verbatim>\<open>encoding.ts\<close>), \<^verbatim>\<open>Willow_William3\<close> (\<^verbatim>\<open>william3.ts\<close>), \<^verbatim>\<open>Willow_Drop\<close>
    (\<^verbatim>\<open>drop.ts\<close>), \<^verbatim>\<open>Willow_Text\<close> (\<open>utf8Text\<close>, \<open>base64\<close>). A reader is its bytes and position; a step
    consumes a prefix of what is ahead. The lemmas: every encoding is read back, what the
    decoder accepts is exactly the entries re-encoded, signed and digested, an error is reported
    with the number of the entry at which the reader stopped, and the digest is the tree hash of the specification.
  \<^item> \<^verbatim>\<open>Ts_Observations\<close>, \<^verbatim>\<open>Ts_Fold\<close> (\<^verbatim>\<open>app/observations.ts\<close>), \<^verbatim>\<open>Ts_Timeline\<close>, \<^verbatim>\<open>Ts_Sweep\<close>
    (\<^verbatim>\<open>app/timeline/sweep.ts\<close>, \<^verbatim>\<open>lens/claims.ts\<close>, parts of \<^verbatim>\<open>clockifyObserve.ts\<close>). Coverage is read as
    the instants it covers; the fold does not depend on the order of the log; the timeline tiles
    the days and shows at every instant what the claims and the coverage say.
  \<^item> \<^verbatim>\<open>Money_Amounts\<close>, \<^verbatim>\<open>Money_Totals\<close>, \<^verbatim>\<open>Money_Mt940\<close> (\<^verbatim>\<open>parser.ts\<close>), \<^verbatim>\<open>Money_Identity\<close>, \<^verbatim>\<open>Money_Check\<close>,
    \<^verbatim>\<open>Money_Ledger\<close>. Amounts are integers in units; a parsed statement is balanced to the unit;
    every failure has a code, and the tag and the line of the field it is about; no two entries of a file share an identity.
  \<^item> \<^verbatim>\<open>Dv_Events\<close>, \<^verbatim>\<open>Dv_Index\<close>, \<^verbatim>\<open>Dv_Storage\<close>, \<^verbatim>\<open>Dv_Table\<close>, \<^verbatim>\<open>Dv_Store\<close>, \<^verbatim>\<open>Dv_Identity\<close>, \<^verbatim>\<open>Dv_Lens\<close>,
    \<^verbatim>\<open>Dv_Reconcile\<close>, \<^verbatim>\<open>Dv_Sync\<close>, \<^verbatim>\<open>Dv_Marker\<close>, \<^verbatim>\<open>Dv_Links\<close>, \<^verbatim>\<open>Dv_Reflect\<close>, after the files of the same
    names. A row whose \<open>foreignIds\<close> are missing or no object is handled as the code does, with a
    \<open>TypeError\<close> or by the properties it has. Concurrent calls of \<open>ensureRow\<close> and the contexts of the scheduler are step relations
    whose invariants are proved by rule induction.
  \<^item> \<^verbatim>\<open>Sy_Scheme\<close>, \<^verbatim>\<open>Sy_Pagination\<close> (\<^verbatim>\<open>pagination/\<close>), \<^verbatim>\<open>Sy_Url\<close> (the URL interface), \<^verbatim>\<open>Sy_Walk\<close>
    (\<^verbatim>\<open>read/pages.ts\<close>), \<^verbatim>\<open>Sy_Routes\<close> (\<^verbatim>\<open>router.ts\<close>, \<^verbatim>\<open>discover.ts\<close>), \<^verbatim>\<open>Sy_Mock\<close>, \<^verbatim>\<open>Sy_Records\<close>
    (\<^verbatim>\<open>mock-server/\<close>, \<^verbatim>\<open>fake-data/\<close>), \<^verbatim>\<open>Sy_Queue\<close>, \<^verbatim>\<open>Sy_Client\<close> (\<^verbatim>\<open>client/\<close>), and the compositions:
    \<^verbatim>\<open>Sy_Served\<close> (the page walk against the mock server, with the number of pages
    it asks for), \<^verbatim>\<open>Sy_Synced\<close> and \<^verbatim>\<open>Sy_Honest\<close> (the client's
    sync against an honest server, which the mock server is).

  \<^bold>\<open>Interfaces.\<close> A component that relies on another states it as a locale, interpreted on the
  model's own definitions: \<open>comparator\<close> (\<^verbatim>\<open>Js\<close>, what a comparator passed to \<open>sort\<close> has to satisfy),
  \<open>summing\<close> (\<^verbatim>\<open>Js_Group\<close>, sums kept per key), \<open>byte_codec\<close> (\<^verbatim>\<open>Willow_Encoding\<close>, a self-delimiting
  encoding), \<open>url_laws\<close> (\<^verbatim>\<open>Sy_Url\<close>, the URL class), \<open>paged_source\<close> (\<^verbatim>\<open>Sy_Walk\<close>) and \<open>served_list\<close>
  (\<^verbatim>\<open>Sy_Served\<close>; a source of pages, and the mock server as one), and \<open>honest_server\<close>
  (\<^verbatim>\<open>Sy_Synced\<close>; entity tags and what they promise), which \<open>mock_honest\<close> shows of the mock server
  for every document whose collections are routed, and the interpretation for one.

  \<^bold>\<open>State and effects.\<close> A class is a record of its fields and an operation a function that returns
  the new state; what throws is a sum whose left side is the error. Code that waits is either
  run to its end, where nothing else can run in between, or a step relation over the states it
  waits in (\<open>Dv_Storage\<close>, \<open>Dv_Sync\<close>, \<open>Sy_Queue\<close>). \<open>Sy_Queue\<close> keeps the arrays and objects that several
  places hold in a heap of indices, and suspends the calls of the client at their awaits too, since two runs may hold different arrays for one key and calls that are not awaited may overtake each
  other. An item's URL is resolved as the URL class does, dot segments included (\<open>Sy_Routes\<close>).

  \<^bold>\<open>Parameters.\<close> Code that is not in the repository is an argument: Ed25519 verification, the
  canonical JSON of fast-json-stable-stringify, \<open>@tomic/lib\<close>'s datatypes, the URL class, time zones
  (\<open>Intl\<close>), clocks, timers, UUIDs, \<open>fetch\<close> and the syncables clients of the reflection engine.

  \<^bold>\<open>Bounds.\<close> Bytes are 8-bit words and WILLIAM3 computes on 32-bit words. A string is a list of
  8-bit characters, save in \<open>Dv_Marker\<close>, \<open>Dv_Links\<close> and \<open>Dv_Reflect\<close>, where it is a list of UTF-16 code
  units. JSON numbers are integers; objects have no inherited members, and keys that look like
  array indices keep their insertion order. Instants are milliseconds; the scheduler's theorems
  hold until the year 10000, where \<open>toISOString\<close> grows a sign. Loops: \<open>days_from\<close> is a
  \<open>partial_function\<close> with a proof that it returns; \<open>drain\<close> of the reflection engine has its timeout
  plus two polls as fuel, which \<open>drain_ends\<close> shows enough; \<open>json_parse\<close> has twice the text's length
  plus two, enough for every text that is JSON; the page walk is measured by the requests left in
  its budget, a retry by the retries left, \<open>fetchAllItems\<close> by its fifty rounds.

  \<^bold>\<open>Not modelled.\<close> Views and DOM code, the host's plugin interface and the controllers that only
  call it; bundled \<^verbatim>\<open>plugin.js\<close> files and generated ontologies; the storage over Automerge, file
  and Web Locks adapters, HTTP listeners and timers; the camt.053 XML reader; the typed read of
  \<^verbatim>\<open>read/model.ts\<close> and the loading and overlaying of OpenAPI documents; the calendar, issue tracker
  and notion applications; the reflector's server; the Rust integration proxy.
\<close>

end
